(* ===== verification/Prelude.thy ===== *)
theory Prelude
  imports Complex_Main "HOL-Library.AList" "HOL-Library.List_Lexorder"
    "HOL-Library.Char_ord" "HOL-Library.Product_Lexorder" "HOL-Library.Multiset"
begin

text \<open>
  The vocabulary shared by every component of the model of
  \<^verbatim>\<open>packages/parallel-runtime\<close>: Python exceptions as values, timestamps,
  insertion-ordered dictionaries, \<open>sorted\<close> and \<open>min\<close> with a key, the checks of a
  dataclass's \<open>__post_init__\<close>, and the sequencing of operations that keep the state
  they had reached when an exception is raised.
\<close>

section \<open>Python values the model shares\<close>

text \<open>
  One exception type for the whole package: the class name of the source is the
  constructor, the argument is the fixed part of the message (or the key).
\<close>

datatype pyerr =
    ValueError string
  | TypeError
  | KeyError string
  | IndexError string
  | PyRuntimeError string
  | InvalidOperation
  | CanonicalizationError string
  | EventConflictError
  | AttemptNotFoundError string
  | AttemptConflictError string
  | InvalidAttemptTransition string
  | ImmutableAttemptError string
  | PoolConflictError string
  | HedgeConflictError string
  | RoutingUnavailable
  | CreditConflictError
  | CreditLimitExceeded
  | FinalizationConflictError
  | WorkerRegistrationConflict
  | RecoveryConflictError string
  | ContinuityMergeConflict string
  | PublishRefused string
  | LedgerTampered "int option" string
  | ReplayError string
  | OSError string

text \<open>
  A Python datetime is naive or aware. An aware one is its instant (microseconds since the
  epoch); two aware stamps of one instant with different offsets are identified, as
  Python's comparison and equality identify them. Ordering a naive stamp against an aware
  one raises TypeError.
\<close>

datatype datetime = Naive int | Aware int

fun is_aware :: "datetime \<Rightarrow> bool" where
  "is_aware (Aware t) = True"
| "is_aware (Naive t) = False"

fun instant :: "datetime \<Rightarrow> int" where
  "instant (Aware t) = t"
| "instant (Naive t) = t"

fun dt_less :: "datetime \<Rightarrow> datetime \<Rightarrow> pyerr + bool" where
  "dt_less (Aware a) (Aware b) = Inr (a < b)"
| "dt_less (Naive a) (Naive b) = Inr (a < b)"
| "dt_less _ _ = Inl TypeError"

lemma is_awareE: "is_aware t \<Longrightarrow> (\<And>i. t = Aware i \<Longrightarrow> P) \<Longrightarrow> P"
  by (cases t) auto

lemma dt_less_aware [simp]:
  "is_aware a \<Longrightarrow> is_aware b \<Longrightarrow> dt_less a b = Inr (instant a < instant b)"
  by (cases a; cases b) auto

section \<open>Sequencing with state kept across exceptions\<close>

text \<open>
  A method that mutates the object and may raise is a function to
  \<open>(pyerr + 'a) \<times> 's\<close>: Python does not roll back, so the state is returned on the
  error branch too.
\<close>

type_synonym ('s, 'a) outcome = "(pyerr + 'a) \<times> 's"

definition andthen :: "('s, 'a) outcome \<Rightarrow> ('a \<Rightarrow> 's \<Rightarrow> ('s, 'b) outcome) \<Rightarrow> ('s, 'b) outcome" where
  "andthen r k = (case r of (Inl e, s) \<Rightarrow> (Inl e, s) | (Inr x, s) \<Rightarrow> k x s)"

lemma andthen_simps [simp]:
  "andthen (Inl e, s) k = (Inl e, s)"
  "andthen (Inr x, s) k = k x s"
  by (simp_all add: andthen_def)

lemma andthen_Inr_iff:
  "andthen r k = (Inr y, s') \<longleftrightarrow> (\<exists>x s. r = (Inr x, s) \<and> k x s = (Inr y, s'))"
  by (cases r) (auto simp: andthen_def split: sum.splits)

text \<open>The state a sequence of calls leaves behind, whether each returned or raised.\<close>

fun run_ops :: "('c \<Rightarrow> 's \<Rightarrow> ('s, 'r) outcome) \<Rightarrow> 'c list \<Rightarrow> 's \<Rightarrow> 's" where
  "run_ops f [] s = s"
| "run_ops f (c # cs) s = run_ops f cs (snd (f c s))"

lemma run_ops_append: "run_ops f (cs @ ds) s = run_ops f ds (run_ops f cs s)"
  by (induction cs arbitrary: s) auto

lemma run_ops_invariant:
  assumes "\<And>c s. I s \<Longrightarrow> I (snd (f c s))" and "I s"
  shows "I (run_ops f cs s)"
  using assms(2) by (induction cs arbitrary: s) (auto intro: assms(1))

text \<open>Checks of a constructor, in source order: the first that fails is the exception.\<close>

fun require_all :: "(bool \<times> pyerr) list \<Rightarrow> 'a \<Rightarrow> pyerr + 'a" where
  "require_all [] x = Inr x"
| "require_all ((ok, e) # cs) x = (if ok then require_all cs x else Inl e)"

lemma require_all_Inr_iff:
  "require_all cs x = Inr y \<longleftrightarrow> y = x \<and> (\<forall>c \<in> set cs. fst c)"
  by (induction cs x rule: require_all.induct) auto

lemma require_all_not_ok: "require_all cs x = Inl e \<Longrightarrow> \<exists>c \<in> set cs. \<not> fst c \<and> snd c = e"
  by (induction cs x rule: require_all.induct) (auto split: if_splits)

lemma require_all_sum_cases:
  "require_all cs x = Inr x \<or> (\<exists>e. require_all cs x = Inl e)"
  by (cases "require_all cs x") (auto simp: require_all_Inr_iff)

text \<open>Mapping a function that may raise over a list: left to right, first exception wins.\<close>

fun mapE :: "('a \<Rightarrow> pyerr + 'b) \<Rightarrow> 'a list \<Rightarrow> pyerr + 'b list" where
  "mapE f [] = Inr []"
| "mapE f (x # xs) =
     (case f x of Inl e \<Rightarrow> Inl e
      | Inr y \<Rightarrow> (case mapE f xs of Inl e \<Rightarrow> Inl e | Inr ys \<Rightarrow> Inr (y # ys)))"

lemma mapE_cong [fundef_cong]:
  "xs = ys \<Longrightarrow> (\<And>x. x \<in> set ys \<Longrightarrow> f x = g x) \<Longrightarrow> mapE f xs = mapE g ys"
  by (induction ys arbitrary: xs) (auto split: sum.splits)

lemma mapE_pure: "(\<And>x. x \<in> set xs \<Longrightarrow> f x = Inr (g x)) \<Longrightarrow> mapE f xs = Inr (map g xs)"
  by (induction xs) auto

lemma mapE_length: "mapE f xs = Inr ys \<Longrightarrow> length ys = length xs"
  by (induction xs arbitrary: ys) (auto split: sum.splits)

lemma mapE_mem: "mapE f xs = Inr ys \<Longrightarrow> y \<in> set ys \<Longrightarrow> \<exists>x \<in> set xs. f x = Inr y"
  by (induction xs arbitrary: ys) (auto split: sum.split_asm)

text \<open>Two fallible values in order, a function on a successful result, sequencing, and a reply dropped.\<close>

definition pairE :: "pyerr + 'a \<Rightarrow> pyerr + 'b \<Rightarrow> pyerr + ('a \<times> 'b)" where
  "pairE a b = (case a of Inl e \<Rightarrow> Inl e
     | Inr x \<Rightarrow> (case b of Inl e \<Rightarrow> Inl e | Inr y \<Rightarrow> Inr (x, y)))"

definition mapR :: "('a \<Rightarrow> 'b) \<Rightarrow> pyerr + 'a \<Rightarrow> pyerr + 'b" where
  "mapR f r = (case r of Inl e \<Rightarrow> Inl e | Inr x \<Rightarrow> Inr (f x))"

lemma pairE_cong [fundef_cong]: "a = a' \<Longrightarrow> b = b' \<Longrightarrow> pairE a b = pairE a' b'"
  by simp

definition bindR :: "pyerr + 'a \<Rightarrow> ('a \<Rightarrow> pyerr + 'b) \<Rightarrow> pyerr + 'b" where
  "bindR r f = (case r of Inl e \<Rightarrow> Inl e | Inr x \<Rightarrow> f x)"

lemma bindR_simps [simp]: "bindR (Inl e) f = Inl e" "bindR (Inr x) f = f x"
  by (simp_all add: bindR_def)

lemma mapR_simps: "mapR f (Inl e) = Inl e" "mapR f (Inr x) = Inr (f x)"
  by (simp_all add: mapR_def)

lemma bindR_Inr_iff: "bindR r f = Inr y \<longleftrightarrow> (\<exists>x. r = Inr x \<and> f x = Inr y)"
  by (cases r) auto

definition forget :: "('s, 'a) outcome \<Rightarrow> ('s, unit) outcome" where
  "forget out = (mapR (\<lambda>_. ()) (fst out), snd out)"

lemma snd_forget [simp]: "snd (forget out) = snd out"
  by (simp add: forget_def)

section \<open>Dictionaries in insertion order\<close>

text \<open>
  A Python dict whose iteration order the code uses is an association list: assignment
  replaces in place or appends (\<open>AList.update\<close>), \<open>map_of\<close> reads.
\<close>

lemma map_of_update [simp]: "map_of (AList.update k v al) = (map_of al)(k \<mapsto> v)"
  by (simp add: update_conv')

lemma keys_update: "fst ` set (AList.update k v al) = insert k (fst ` set al)"
  by (simp add: dom_map_of_conv_image_fst [symmetric])

lemma update_values_unchanged:
  "distinct (map fst al) \<Longrightarrow> (k', v') \<in> set (AList.update k v al) \<Longrightarrow>
   (k' = k \<and> v' = v) \<or> (k' \<noteq> k \<and> (k', v') \<in> set al)"
  by (induction al) (auto split: if_splits simp: image_iff)

lemma update_same: "map_of al k = Some v \<Longrightarrow> AList.update k v al = al"
  by (induction al) (auto split: if_splits)

lemma update_new: "map_of al k = None \<Longrightarrow> AList.update k v al = al @ [(k, v)]"
  by (induction al) (auto split: if_splits)

text \<open>A dictionary whose keys are a field of its values.\<close>

definition keyed :: "('v \<Rightarrow> 'k) \<Rightarrow> ('k \<times> 'v) list \<Rightarrow> bool" where
  "keyed f al \<longleftrightarrow> map fst al = map (\<lambda>p. f (snd p)) al \<and> distinct (map fst al)"

lemma keyed_Nil [simp]: "keyed f []"
  by (simp add: keyed_def)

lemma keyed_values: "keyed f al \<Longrightarrow> distinct (map f (map snd al))"
  unfolding keyed_def map_map comp_def by metis

lemma keyed_update: "keyed f al \<Longrightarrow> k = f v \<Longrightarrow> keyed f (AList.update k v al)"
proof -
  have "map fst (AList.update (f v) v al) = map (\<lambda>p. f (snd p)) (AList.update (f v) v al)"
    if "map fst al = map (\<lambda>p. f (snd p)) al"
    using that by (induction al) auto
  then show "keyed f al \<Longrightarrow> k = f v \<Longrightarrow> keyed f (AList.update k v al)"
    by (simp add: keyed_def distinct_update)
qed

lemma keyed_delete: "keyed f al \<Longrightarrow> keyed f (AList.delete k al)"
proof -
  have "map fst (AList.delete k al) = map (\<lambda>p. f (snd p)) (AList.delete k al)"
    if "map fst al = map (\<lambda>p. f (snd p)) al"
    using that by (induction al) auto
  then show "keyed f al \<Longrightarrow> keyed f (AList.delete k al)"
    by (simp add: keyed_def distinct_delete)
qed

lemma keyed_delete_values:
  "keyed f al \<Longrightarrow> map snd (AList.delete i al) = filter (\<lambda>v. f v \<noteq> i) (map snd al)"
  unfolding keyed_def by (induction al) auto

lemma keyed_in: "keyed f al \<Longrightarrow> (k, v) \<in> set al \<longleftrightarrow> v \<in> set (map snd al) \<and> f v = k"
proof -
  have "k' = f v'" if "map fst al = map (\<lambda>p. f (snd p)) al" "(k', v') \<in> set al" for k' v'
    using that by (induction al) auto
  then show "keyed f al \<Longrightarrow> (k, v) \<in> set al \<longleftrightarrow> v \<in> set (map snd al) \<and> f v = k"
    unfolding keyed_def by (metis (no_types, lifting) image_eqI image_iff list.set_map prod.collapse snd_conv)
qed

lemma keyed_map_of: "keyed f al \<Longrightarrow> map_of al k = Some v \<longleftrightarrow> v \<in> set (map snd al) \<and> f v = k"
  using keyed_in [of f al k v] by (metis keyed_def map_of_eq_Some_iff)

section \<open>sorted and min with a key\<close>

text \<open>
  Python's \<open>sorted(xs, key=f)\<close> is stable, as \<open>sort_key f xs\<close> is;
  \<open>min(xs, key=f)\<close> is the first element with the least key.
\<close>

fun min_by :: "('a \<Rightarrow> 'k::linorder) \<Rightarrow> 'a list \<Rightarrow> 'a option" where
  "min_by f [] = None"
| "min_by f (x # xs) =
     (case min_by f xs of None \<Rightarrow> Some x
      | Some y \<Rightarrow> (if f x \<le> f y then Some x else Some y))"

lemma min_by_None_iff [simp]: "min_by f xs = None \<longleftrightarrow> xs = []"
  by (cases xs) (auto split: option.splits)

lemma min_by_mem: "min_by f xs = Some x \<Longrightarrow> x \<in> set xs"
  by (induction xs arbitrary: x) (auto split: option.splits if_splits)

lemma min_by_least: "min_by f xs = Some x \<Longrightarrow> y \<in> set xs \<Longrightarrow> f x \<le> f y"
proof (induction xs arbitrary: x y)
  case Nil
  then show ?case by simp
next
  case (Cons z zs)
  show ?case
  proof (cases "min_by f zs")
    case None
    with Cons.prems show ?thesis by simp
  next
    case (Some w)
    have w: "\<And>y. y \<in> set zs \<Longrightarrow> f w \<le> f y"
      using Cons.IH [OF Some] by blast
    show ?thesis
    proof (cases "f z \<le> f w")
      case True
      with Some Cons.prems(1) have "x = z" by simp
      with True w Cons.prems(2) show ?thesis by (auto dest: order_trans)
    next
      case False
      with Some Cons.prems(1) have "x = w" by simp
      with False w Cons.prems(2) show ?thesis by auto
    qed
  qed
qed

lemma min_by_unique:
  assumes "inj_on f (set xs)" and "min_by f xs = Some x"
    and "y \<in> set xs" and "\<And>z. z \<in> set xs \<Longrightarrow> f y \<le> f z"
  shows "x = y"
  using assms min_by_least [OF assms(2)] min_by_mem [OF assms(2)]
  by (meson antisym inj_onD)

lemma sort_key_hd_min:
  assumes "xs \<noteq> []"
  shows "hd (sort_key f xs) \<in> set xs"
    and "\<And>y. y \<in> set xs \<Longrightarrow> f (hd (sort_key f xs)) \<le> f y"
proof -
  have ne: "sort_key f xs \<noteq> []" using assms by (metis length_sort length_0_conv)
  then show "hd (sort_key f xs) \<in> set xs" using hd_in_set [OF ne] by simp
  fix y assume y: "y \<in> set xs"
  obtain z zs where zs: "sort_key f xs = z # zs" using ne by (cases "sort_key f xs") auto
  have "sorted (map f (sort_key f xs))" by simp
  with zs have "\<forall>w \<in> set (z # zs). f z \<le> f w" by auto
  moreover from zs have "set (z # zs) = set xs" by (metis set_sort)
  ultimately show "f (hd (sort_key f xs)) \<le> f y" using y zs by auto
qed

lemma sort_key_map: "sort_key f (map g xs) = map g (sort_key (f \<circ> g) xs)"
proof -
  have "insort_key f (g x) (map g ys) = map g (insort_key (f \<circ> g) x ys)" for x ys
    by (induction ys) auto
  then show ?thesis by (induction xs) auto
qed

lemma sort_key_sorted: "sorted (map f xs) \<Longrightarrow> sort_key f xs = xs"
  by (induction xs) (auto simp: insort_is_Cons)

text \<open>\<open>sorted(set(xs))\<close> and \<open>dict.fromkeys(xs)\<close>: sorted, respectively first-seen, without repeats.\<close>

definition sorted_set :: "'a::linorder list \<Rightarrow> 'a list" where
  "sorted_set xs = sort (remdups xs)"

lemma set_sorted_set [simp]: "set (sorted_set xs) = set xs"
  by (simp add: sorted_set_def)

lemma sorted_sorted_set [simp]: "sorted (sorted_set xs)"
  by (simp add: sorted_set_def)

lemma distinct_sorted_set [simp]: "distinct (sorted_set xs)"
  by (simp add: sorted_set_def)

lemma sorted_set_eq_iff: "sorted_set xs = sorted_set ys \<longleftrightarrow> set xs = set ys"
  by (metis distinct_sorted_set set_sorted_set sorted_distinct_set_unique sorted_sorted_set)

lemma sorted_set_Nil_iff [simp]: "sorted_set xs = [] \<longleftrightarrow> xs = []"
  by (metis set_empty set_sorted_set)

fun fromkeys_acc :: "'a list \<Rightarrow> 'a list \<Rightarrow> 'a list" where
  "fromkeys_acc seen [] = []"
| "fromkeys_acc seen (x # xs) =
     (if x \<in> set seen then fromkeys_acc seen xs else x # fromkeys_acc (x # seen) xs)"

definition fromkeys :: "'a list \<Rightarrow> 'a list" where
  "fromkeys xs = fromkeys_acc [] xs"

lemma set_fromkeys_acc: "set (fromkeys_acc seen xs) = set xs - set seen"
  by (induction seen xs rule: fromkeys_acc.induct) auto

lemma distinct_fromkeys_acc: "distinct (fromkeys_acc seen xs)"
  by (induction seen xs rule: fromkeys_acc.induct) (auto simp: set_fromkeys_acc)

lemma set_fromkeys [simp]: "set (fromkeys xs) = set xs"
  by (simp add: fromkeys_def set_fromkeys_acc)

lemma distinct_fromkeys [simp]: "distinct (fromkeys xs)"
  by (simp add: fromkeys_def distinct_fromkeys_acc)

section \<open>Characters and rounding\<close>

text \<open>\<open>str.isspace\<close> on the code points below 256, to which strings are restricted.\<close>

definition is_space :: "char \<Rightarrow> bool" where
  "is_space c \<longleftrightarrow> (let n = of_char c :: nat
     in (9 \<le> n \<and> n \<le> 13) \<or> (28 \<le> n \<and> n \<le> 32) \<or> n = 133 \<or> n = 160)"

text \<open>\<open>str.strip\<close>.\<close>

definition strip :: "string \<Rightarrow> string" where
  "strip s = rev (dropWhile is_space (rev (dropWhile is_space s)))"

text \<open>\<open>str.casefold\<close> on those code points; the micro sign, whose case fold lies outside, is kept.\<close>

definition fold_char :: "char \<Rightarrow> string" where
  "fold_char c = (let n = of_char c :: nat in
     if (65 \<le> n \<and> n \<le> 90) \<or> (192 \<le> n \<and> n \<le> 222 \<and> n \<noteq> 215) then [char_of (n + 32)]
     else if n = 223 then ''ss'' else [c])"

definition casefold :: "string \<Rightarrow> string" where
  "casefold s = concat (map fold_char s)"

text \<open>Round half to even of a rational to an integer, and \<open>round(x, n)\<close> on exact values.\<close>

definition round_half_even :: "rat \<Rightarrow> int" where
  "round_half_even x = (let f = \<lfloor>x\<rfloor>; d = x - of_int f
     in if d < 1/2 then f else if d > 1/2 then f + 1
        else if even f then f else f + 1)"

definition py_round :: "nat \<Rightarrow> rat \<Rightarrow> rat" where
  "py_round n x = of_int (round_half_even (x * 10 ^ n)) / 10 ^ n"

lemma round_half_even_of_int [simp]: "round_half_even (of_int k) = k"
  by (simp add: round_half_even_def)

lemma round_half_even_near: "\<bar>of_int (round_half_even x) - x\<bar> \<le> 1/2"
proof -
  have "of_int \<lfloor>x\<rfloor> \<le> x" "x < of_int \<lfloor>x\<rfloor> + 1" by linarith+
  then show ?thesis by (auto simp: round_half_even_def Let_def abs_le_iff)
qed

lemma round_half_even_mono: "x \<le> y \<Longrightarrow> round_half_even x \<le> round_half_even y"
proof -
  assume xy: "x \<le> y"
  show ?thesis
  proof (cases "\<lfloor>x\<rfloor> = \<lfloor>y\<rfloor>")
    case True
    with xy show ?thesis by (auto simp: round_half_even_def Let_def)
  next
    case False
    with xy have "\<lfloor>x\<rfloor> + 1 \<le> \<lfloor>y\<rfloor>" using floor_mono [OF xy] by linarith
    moreover have "round_half_even x \<le> \<lfloor>x\<rfloor> + 1" and "\<lfloor>y\<rfloor> \<le> round_half_even y"
      by (auto simp: round_half_even_def Let_def)
    ultimately show ?thesis by linarith
  qed
qed

lemma round_half_even_bounds: "of_int a \<le> x \<Longrightarrow> x \<le> of_int b \<Longrightarrow> a \<le> round_half_even x \<and> round_half_even x \<le> b"
  using round_half_even_mono [of "of_int a" x] round_half_even_mono [of x "of_int b"] by simp

end
