(* ===== verification/Identity.thy ===== *)
theory Identity
  imports Prelude
begin

text \<open>
  \<^verbatim>\<open>akc_parallel_runtime/identity.py\<close>: the canonical encoder behind every digest and
  identifier of the runtime. \<open>pyval\<close> is the Python value handed to \<open>_normalize\<close>, \<open>jval\<close>
  the JSON tree it returns; \<open>dumps\<close> is \<open>json.dumps\<close> with the options of the source.
  SHA-256 and the two standard-library renderings that need tables of their own
  (\<open>float.__repr__\<close> and \<open>datetime.isoformat\<close>) are the fields of a record the definitions
  take as an argument, so every theorem holds whatever they return.
\<close>

section \<open>Values\<close>

record renv =
  sha256 :: "string \<Rightarrow> string"      \<comment> \<open>hashlib.sha256(s.encode()).hexdigest()\<close>
  float_repr :: "rat \<Rightarrow> string"     \<comment> \<open>float.__repr__\<close>
  isoformat :: "int \<Rightarrow> string"      \<comment> \<open>isoformat(timespec="microseconds") of an aware instant\<close>

datatype jval =
    JNull | JBool bool | JInt int | JFloat rat | JStr string
  | JList "jval list" | JObj "(string \<times> jval) list"

text \<open>
  \<open>PData\<close> is a dataclass instance (its fields, as \<open>asdict\<close> returns them), \<open>PEnum\<close> an enum
  member (its value), \<open>PDec s c e\<close> the Decimal \<open>(-1)^s * c * 10^e\<close>, \<open>PBytes\<close> a byte string by its
  text, \<open>POther\<close> a value of a type the encoder refuses.
\<close>

datatype pyval =
    PNone | PBool bool | PInt int | PFloat rat | PFloatNonFinite | PStr string
  | PData "(string \<times> pyval) list" | PEnum pyval
  | PDec bool nat int | PDecNonFinite
  | PDateTime datetime | PDate string | PBytes string
  | PMap "(pyval \<times> pyval) list" | PSet "pyval list" | PSeq "pyval list" | POther string

definition jopt :: "string option \<Rightarrow> jval" where
  "jopt x = (case x of None \<Rightarrow> JNull | Some s \<Rightarrow> JStr s)"

section \<open>Rendering\<close>

fun nat_str :: "nat \<Rightarrow> string" where
  "nat_str n = (if n < 10 then [char_of (48 + n)] else nat_str (n div 10) @ [char_of (48 + n mod 10)])"

declare nat_str.simps [simp del]

definition int_str :: "int \<Rightarrow> string" where
  "int_str i = (if i < 0 then ''-'' @ nat_str (nat (- i)) else nat_str (nat i))"

text \<open>\<open>format(value, 'f')\<close> of a finite Decimal: no exponent, all digits kept.\<close>

definition dec_format :: "bool \<Rightarrow> nat \<Rightarrow> int \<Rightarrow> string" where
  "dec_format neg c e =
     (let e' = (if c = 0 \<and> e > 0 then 0 else e);
          ds = nat_str c;
          dot = int (length ds) + e';
          body = (if 0 \<le> e' then ds @ replicate (nat e') (CHR ''0'')
                  else if dot < 0 then ''0.'' @ replicate (nat (- dot)) (CHR ''0'') @ ds
                  else (if dot = 0 then ''0'' else take (nat dot) ds) @ ''.'' @ drop (nat dot) ds)
      in (if neg then ''-'' @ body else body))"

definition hex_digit :: "nat \<Rightarrow> char" where
  "hex_digit n = (if n < 10 then char_of (48 + n) else char_of (87 + n))"

text \<open>The JSON string escape with \<open>ensure_ascii=False\<close>: quote, backslash and C0 controls only.\<close>

definition esc_char :: "char \<Rightarrow> string" where
  "esc_char c = (let n = of_char c :: nat in
     if c = CHR 0x22 then [CHR 0x5C, CHR 0x22]
     else if c = CHR 0x5C then [CHR 0x5C, CHR 0x5C]
     else if n = 10 then [CHR 0x5C, CHR ''n'']
     else if n = 13 then [CHR 0x5C, CHR ''r'']
     else if n = 9 then [CHR 0x5C, CHR ''t'']
     else if n = 12 then [CHR 0x5C, CHR ''f'']
     else if n = 8 then [CHR 0x5C, CHR ''b'']
     else if n < 32 then [CHR 0x5C] @ ''u00'' @ [hex_digit (n div 16), hex_digit (n mod 16)]
     else [c])"

definition json_str :: "string \<Rightarrow> string" where
  "json_str s = [CHR 0x22] @ concat (map esc_char s) @ [CHR 0x22]"

fun join_with :: "string \<Rightarrow> string list \<Rightarrow> string" where
  "join_with sep [] = []"
| "join_with sep [x] = x"
| "join_with sep (x # xs) = x @ sep @ join_with sep xs"

fun dumps :: "renv \<Rightarrow> jval \<Rightarrow> string" where
  "dumps E JNull = ''null''"
| "dumps E (JBool b) = (if b then ''true'' else ''false'')"
| "dumps E (JInt i) = int_str i"
| "dumps E (JFloat r) = float_repr E r"
| "dumps E (JStr s) = json_str s"
| "dumps E (JList xs) = ''['' @ join_with '','' (map (dumps E) xs) @ '']''"
| "dumps E (JObj kvs) =
     ''{'' @ join_with '','' (map (\<lambda>(k, v). json_str k @ '':'' @ v)
       (sort_key fst (map (\<lambda>(k, v). (k, dumps E v)) kvs))) @ ''}''"

text \<open>The tree \<open>json.loads\<close> reads back from \<open>dumps\<close>: the same tree, object keys in sorted order.\<close>

fun jcanon :: "jval \<Rightarrow> jval" where
  "jcanon (JList xs) = JList (map jcanon xs)"
| "jcanon (JObj kvs) = JObj (sort_key fst (map (\<lambda>(k, v). (k, jcanon v)) kvs))"
| "jcanon j = j"

lemma dumps_jcanon_obj:
  assumes "\<And>k v. (k, v) \<in> set kvs \<Longrightarrow> dumps E (jcanon v) = dumps E v"
  shows "dumps E (jcanon (JObj kvs)) = dumps E (JObj kvs)"
proof -
  let ?d = "\<lambda>p. (fst p, dumps E (snd p))" and ?c = "\<lambda>p. (fst p, jcanon (snd p))"
  have 1: "map ?d (map ?c kvs) = map ?d kvs"
    unfolding map_map by (rule map_cong [OF refl]) (metis assms comp_apply fst_conv prod.collapse snd_conv)
  have 2: "map ?d (sort_key fst (map ?c kvs)) = sort_key fst (map ?d (map ?c kvs))"
    by (simp only: sort_key_map comp_def fst_conv)
  have "sort_key fst (map ?d (sort_key fst (map ?c kvs))) = sort_key fst (map ?d kvs)"
    unfolding 2 1 by (rule sort_key_sorted) simp
  then show ?thesis by (simp only: jcanon.simps dumps.simps case_prod_beta')
qed

lemma dumps_jcanon [simp]: "dumps E (jcanon j) = dumps E j"
proof (induction j rule: jcanon.induct)
  case (1 xs)
  then have "map (dumps E \<circ> jcanon) xs = map (dumps E) xs" by simp
  then show ?case by (simp only: jcanon.simps dumps.simps map_map)
next
  case (2 kvs)
  then show ?case by (intro dumps_jcanon_obj) auto
qed simp_all

declare dumps.simps [simp del]

section \<open>_normalize, canonical_json, canonical_sha256, stable_id\<close>

definition str_key :: "pyval \<Rightarrow> pyerr + string" where
  "str_key p = (case p of PStr s \<Rightarrow> Inr s | PEnum (PStr s) \<Rightarrow> Inr s
     | _ \<Rightarrow> Inl (CanonicalizationError ''canonical mapping keys must be strings''))"

fun normalize :: "renv \<Rightarrow> pyval \<Rightarrow> pyerr + jval" where
  "normalize E (PData fs) = mapR JObj (mapE (\<lambda>(k, v). pairE (Inr k) (normalize E v)) fs)"
| "normalize E (PEnum v) = normalize E v"
| "normalize E PDecNonFinite = Inl (CanonicalizationError ''non-finite Decimal values are not canonical'')"
| "normalize E (PDec s c e) = Inr (JStr (dec_format s c e))"
| "normalize E (PDateTime t) =
     (if is_aware t then Inr (JStr (isoformat E (instant t)))
      else Inl (CanonicalizationError ''datetime values must be timezone-aware''))"
| "normalize E (PDate s) = Inr (JStr s)"
| "normalize E (PBytes b) =
     Inr (JObj [(''$bytes_sha256'', JStr (sha256 E b)), (''$bytes_size'', JInt (int (length b)))])"
| "normalize E PFloatNonFinite = Inl (CanonicalizationError ''non-finite float values are not canonical'')"
| "normalize E (PFloat r) = Inr (JFloat r)"
| "normalize E (PMap kvs) = mapR JObj (mapE (\<lambda>(k, v). pairE (str_key k) (normalize E v)) kvs)"
| "normalize E (PSet xs) = mapR (\<lambda>ms. JList (sort_key (dumps E) ms)) (mapE (normalize E) xs)"
| "normalize E (PSeq xs) = mapR JList (mapE (normalize E) xs)"
| "normalize E PNone = Inr JNull"
| "normalize E (PStr s) = Inr (JStr s)"
| "normalize E (PInt i) = Inr (JInt i)"
| "normalize E (PBool b) = Inr (JBool b)"
| "normalize E (POther ty) = Inl (CanonicalizationError (''unsupported canonical value: '' @ ty))"

definition canonical_json :: "renv \<Rightarrow> pyval \<Rightarrow> pyerr + string" where
  "canonical_json E v = mapR (dumps E) (normalize E v)"

definition canonical_sha256 :: "renv \<Rightarrow> pyval \<Rightarrow> pyerr + string" where
  "canonical_sha256 E v = mapR (sha256 E) (canonical_json E v)"

text \<open>The digest of a value that is already a JSON tree.\<close>

definition jsha :: "renv \<Rightarrow> jval \<Rightarrow> string" where
  "jsha E j = sha256 E (dumps E j)"

lemma canonical_sha256_normal: "normalize E v = Inr j \<Longrightarrow> canonical_sha256 E v = Inr (jsha E j)"
  by (simp add: canonical_sha256_def canonical_json_def mapR_def jsha_def)

text \<open>\<open>str.isalnum\<close> on the code points below 256.\<close>

definition is_alnum :: "char \<Rightarrow> bool" where
  "is_alnum c \<longleftrightarrow> (let n = of_char c :: nat
     in (48 \<le> n \<and> n \<le> 57) \<or> (65 \<le> n \<and> n \<le> 90) \<or> (97 \<le> n \<and> n \<le> 122)
        \<or> n \<in> {170, 178, 179, 181, 185, 186, 188, 189, 190} \<or> (192 \<le> n \<and> n \<noteq> 215 \<and> n \<noteq> 247))"

definition namespace_ok :: "string \<Rightarrow> bool" where
  "namespace_ok ns \<longleftrightarrow> ns \<noteq> [] \<and>
     (let r = filter (\<lambda>c. c \<noteq> CHR ''_'') ns in r \<noteq> [] \<and> (\<forall>c \<in> set r. is_alnum c))"

definition stable_id_of :: "renv \<Rightarrow> string \<Rightarrow> pyval list \<Rightarrow> pyerr + string" where
  "stable_id_of E ns parts =
     (if \<not> namespace_ok ns
      then Inl (ValueError ''namespace must contain only alphanumeric characters and underscores'')
      else mapR (\<lambda>d. ns @ ''_'' @ take 32 d)
             (canonical_sha256 E (PMap [(PStr ''namespace'', PStr ns), (PStr ''parts'', PSeq parts)])))"

text \<open>
  \<open>stable_id\<close> on parts that are JSON trees already, under a well-formed namespace: total.
\<close>

definition stable_id :: "renv \<Rightarrow> string \<Rightarrow> jval list \<Rightarrow> string" where
  "stable_id E ns parts = ns @ ''_'' @
     take 32 (jsha E (JObj [(''namespace'', JStr ns), (''parts'', JList parts)]))"

definition is_sha256 :: "string \<Rightarrow> bool" where
  "is_sha256 s \<longleftrightarrow> length s = 64 \<and> (\<forall>c \<in> set s. c \<in> set ''0123456789abcdef'')"

definition require_sha256 :: "string \<Rightarrow> pyerr + string" where
  "require_sha256 s = (if is_sha256 s then Inr s
     else Inl (ValueError ''must be a lowercase 64-character sha256''))"

section \<open>Decimals\<close>

text \<open>A Python Decimal: finite with sign, coefficient and exponent, or special.\<close>

datatype decimal = Dec bool nat int | DecNaN | DecInf bool

definition dec_value :: "bool \<Rightarrow> nat \<Rightarrow> int \<Rightarrow> rat" where
  "dec_value s c e = (if s then -1 else 1) * of_nat c
     * (if 0 \<le> e then 10 ^ nat e else 1 / 10 ^ nat (- e))"

end
