(* ===== verification/Models.thy ===== *)
theory Models
  imports Identity
begin

text \<open>
  \<^verbatim>\<open>akc_parallel_runtime/models.py\<close>: the enumerations and the frozen dataclasses of the
  runtime. A dataclass is a record whose fields carry a prefix of the class name, a function
  \<open>mk_\<dots>\<close> is its constructor (the record if \<open>__post_init__\<close> accepts it, else the exception), a
  function \<open>\<dots>_value\<close> the string value of an enum member. Floats are exact rationals and finite
  Decimals that are never rendered are rationals too.
\<close>

section \<open>Enumerations\<close>

datatype attempt_status =
    AS_CREATED | AS_QUEUED | AS_RUNNING | AS_OUTPUT_RECEIVED | AS_VALIDATING | AS_ACCEPTED
  | AS_REJECTED | AS_RETRYABLE_FAILED | AS_TERMINAL_FAILED | AS_SUPERSEDED | AS_QUARANTINED

datatype attempt_kind =
    AK_PRIMARY | AK_RETRY | AK_RECOVERY | AK_HEDGE | AK_STRAGGLER | AK_SHADOW | AK_CHALLENGER

fun kind_value :: "attempt_kind \<Rightarrow> string" where
  "kind_value AK_PRIMARY = ''primary''"
| "kind_value AK_RETRY = ''retry''"
| "kind_value AK_RECOVERY = ''recovery''"
| "kind_value AK_HEDGE = ''hedge''"
| "kind_value AK_STRAGGLER = ''straggler''"
| "kind_value AK_SHADOW = ''shadow''"
| "kind_value AK_CHALLENGER = ''challenger''"

datatype failure_class = FC_INFRASTRUCTURE | FC_SEMANTIC

datatype worker_state = WS_HEALTHY | WS_DEGRADED | WS_DRAINING | WS_QUARANTINED | WS_TERMINATED

fun worker_state_value :: "worker_state \<Rightarrow> string" where
  "worker_state_value WS_HEALTHY = ''HEALTHY''"
| "worker_state_value WS_DEGRADED = ''DEGRADED''"
| "worker_state_value WS_DRAINING = ''DRAINING''"
| "worker_state_value WS_QUARANTINED = ''QUARANTINED''"
| "worker_state_value WS_TERMINATED = ''TERMINATED''"

datatype verification_state =
    VS_VERIFIED | VS_AUTHORITY_VERIFIED | VS_CROSS_MODEL_VERIFIED | VS_AUTO_REPAIRED
  | VS_UNRESOLVED | VS_QUARANTINED | VS_FAILED

fun verification_value :: "verification_state \<Rightarrow> string" where
  "verification_value VS_VERIFIED = ''verified''"
| "verification_value VS_AUTHORITY_VERIFIED = ''authority_verified''"
| "verification_value VS_CROSS_MODEL_VERIFIED = ''cross_model_verified''"
| "verification_value VS_AUTO_REPAIRED = ''auto_repaired''"
| "verification_value VS_UNRESOLVED = ''unresolved''"
| "verification_value VS_QUARANTINED = ''quarantined''"
| "verification_value VS_FAILED = ''failed''"

datatype region_level =
    RL_CELL | RL_ROW | RL_TABLE | RL_REGION | RL_PAGE | RL_PAGE_PAIR | RL_PAGE_GROUP | RL_DOCUMENT

fun region_value :: "region_level \<Rightarrow> string" where
  "region_value RL_CELL = ''cell''"
| "region_value RL_ROW = ''row''"
| "region_value RL_TABLE = ''table''"
| "region_value RL_REGION = ''region''"
| "region_value RL_PAGE = ''page''"
| "region_value RL_PAGE_PAIR = ''page_pair''"
| "region_value RL_PAGE_GROUP = ''page_group''"
| "region_value RL_DOCUMENT = ''document''"

datatype page_class =
    PC_NATIVE_CLEAN | PC_NORMAL_SCAN | PC_COMPLEX_LAYOUT | PC_INDEPENDENT | PC_LONG_TABLE
  | PC_FORMULA_HEAVY | PC_PHOTOGRAPHED | PC_OFFICE_STRUCTURED

definition accepted_verification :: "verification_state \<Rightarrow> bool" where
  "accepted_verification v \<longleftrightarrow>
     v \<in> {VS_VERIFIED, VS_AUTHORITY_VERIFIED, VS_CROSS_MODEL_VERIFIED, VS_AUTO_REPAIRED}"

lemma verification_value_inj: "verification_value a = verification_value b \<longleftrightarrow> a = b"
  by (cases a; cases b) auto

section \<open>Field checks\<close>

definition identifier_ok :: "string \<Rightarrow> bool" where
  "identifier_ok s \<longleftrightarrow> s \<noteq> [] \<and> length s \<le> 200 \<and> \<not> list_ex is_space s"

definition identifier_err :: pyerr where
  "identifier_err = ValueError ''must be a non-empty identifier without whitespace''"

definition sha_err :: pyerr where
  "sha_err = ValueError ''must be a lowercase 64-character sha256''"

definition aware_err :: pyerr where
  "aware_err = ValueError ''must be timezone-aware''"

section \<open>CostRecord, ParseAttempt, AttemptOutput\<close>

record cost_record =
  cr_gpu_seconds :: rat
  cr_provider_cost :: rat
  cr_user_credits :: rat
  cr_duplicate_compute :: bool

definition mk_cost_record :: "cost_record \<Rightarrow> pyerr + cost_record" where
  "mk_cost_record c = require_all
     [(0 \<le> cr_gpu_seconds c \<and> 0 \<le> cr_provider_cost c \<and> 0 \<le> cr_user_credits c,
        ValueError ''cost values cannot be negative''),
      (\<not> (cr_duplicate_compute c \<and> cr_user_credits c \<noteq> 0),
        ValueError ''duplicate compute cannot carry user credits'')] c"

record parse_attempt =
  pa_attempt_id :: string
  pa_root_attempt_id :: string
  pa_parent_attempt_id :: "string option"
  pa_kind :: attempt_kind
  pa_document_id :: string
  pa_document_version_id :: string
  pa_shard_id :: string
  pa_page_ids :: "string list"
  pa_region_ids :: "string list"
  pa_parser_recipe :: string
  pa_model_revision :: string
  pa_runtime_image_digest :: string
  pa_worker_id :: string
  pa_gpu_type :: string
  pa_source_sha256 :: string
  pa_preprocessing_sha256 :: string
  pa_prompt_sha256 :: string
  pa_decoding_sha256 :: string
  pa_created_at :: datetime

definition mk_parse_attempt :: "parse_attempt \<Rightarrow> pyerr + parse_attempt" where
  "mk_parse_attempt a = require_all
     [(identifier_ok (pa_attempt_id a), identifier_err),
      (identifier_ok (pa_root_attempt_id a), identifier_err),
      (identifier_ok (pa_document_id a), identifier_err),
      (identifier_ok (pa_document_version_id a), identifier_err),
      (identifier_ok (pa_shard_id a), identifier_err),
      (identifier_ok (pa_parser_recipe a), identifier_err),
      (identifier_ok (pa_model_revision a), identifier_err),
      (identifier_ok (pa_runtime_image_digest a), identifier_err),
      (identifier_ok (pa_worker_id a), identifier_err),
      (identifier_ok (pa_gpu_type a), identifier_err),
      (case pa_parent_attempt_id a of None \<Rightarrow> True | Some p \<Rightarrow> identifier_ok p, identifier_err),
      (\<not> (pa_page_ids a = [] \<and> pa_region_ids a = []),
        ValueError ''an attempt must target at least one page or region''),
      (distinct (pa_page_ids a), ValueError ''attempt page_ids must be unique''),
      (distinct (pa_region_ids a), ValueError ''attempt region_ids must be unique''),
      (is_sha256 (pa_source_sha256 a), sha_err),
      (is_sha256 (pa_preprocessing_sha256 a), sha_err),
      (is_sha256 (pa_prompt_sha256 a), sha_err),
      (is_sha256 (pa_decoding_sha256 a), sha_err),
      (is_aware (pa_created_at a), aware_err),
      (\<not> (pa_parent_attempt_id a = None \<and> pa_attempt_id a \<noteq> pa_root_attempt_id a),
        ValueError ''a root attempt must identify itself as root_attempt_id''),
      (\<not> (pa_parent_attempt_id a \<noteq> None \<and> pa_attempt_id a = pa_root_attempt_id a),
        ValueError ''a child attempt cannot reuse the root attempt id'')] a"

record attempt_output =
  ao_prediction_uri :: string
  ao_prediction_sha256 :: string
  ao_completed_at :: datetime
  ao_cost :: cost_record

definition mk_attempt_output :: "attempt_output \<Rightarrow> pyerr + attempt_output" where
  "mk_attempt_output x = require_all
     [(ao_prediction_uri x \<noteq> [] \<and> \<not> list_ex is_space (ao_prediction_uri x),
        ValueError ''prediction_uri must be non-empty and contain no whitespace''),
      (is_sha256 (ao_prediction_sha256 x), sha_err),
      (is_aware (ao_completed_at x), aware_err)] x"

section \<open>AttemptTransition, AttemptSnapshot, WorkerSnapshot\<close>

record attempt_transition =
  at_sequence :: nat
  at_from_status :: "attempt_status option"
  at_to_status :: attempt_status
  at_occurred_at :: datetime
  at_reason_code :: string

definition mk_attempt_transition :: "attempt_transition \<Rightarrow> pyerr + attempt_transition" where
  "mk_attempt_transition t = require_all
     [(1 \<le> at_sequence t, ValueError ''transition sequence must be positive''),
      (is_aware (at_occurred_at t), aware_err),
      (identifier_ok (at_reason_code t), identifier_err)] t"

record attempt_snapshot =
  as_attempt :: parse_attempt
  as_status :: attempt_status
  as_output :: "attempt_output option"
  as_validation_digest :: "string option"
  as_transitions :: "attempt_transition list"

definition mk_attempt_snapshot :: "attempt_snapshot \<Rightarrow> pyerr + attempt_snapshot" where
  "mk_attempt_snapshot s = require_all
     [(case as_validation_digest s of None \<Rightarrow> True | Some d \<Rightarrow> is_sha256 d, sha_err),
      (as_transitions s \<noteq> [] \<and> at_to_status (last (as_transitions s)) = as_status s,
        ValueError ''attempt snapshot status must match the latest transition'')] s"

record worker_snapshot =
  ws_worker_id :: string
  ws_model_revision :: string
  ws_runtime_image_digest :: string
  ws_state :: worker_state
  ws_capabilities :: "string set"
  ws_warm :: bool
  ws_cached_models :: "string set"
  ws_estimated_available_at :: rat
  ws_semantic_score :: rat

definition mk_worker_snapshot :: "worker_snapshot \<Rightarrow> pyerr + worker_snapshot" where
  "mk_worker_snapshot w = require_all
     [(identifier_ok (ws_worker_id w), identifier_err),
      (identifier_ok (ws_model_revision w), identifier_err),
      (identifier_ok (ws_runtime_image_digest w), identifier_err),
      (0 \<le> ws_estimated_available_at w, ValueError ''estimated_available_at cannot be negative''),
      (0 \<le> ws_semantic_score w \<and> ws_semantic_score w \<le> 100,
        ValueError ''semantic_score must be between 0 and 100'')] w"

end
