(* ===== verification/StateMachine.thy ===== *)
theory StateMachine
  imports Prelude
begin

text \<open>
  Three contracts that several components share, as locales: a status machine whose moves only
  climb a rank (\<open>ranked_machine\<close>), an operation that is executed at most once per
  idempotency key (\<open>keyed_once\<close>), and a table whose entries never change (\<open>write_once\<close>). The components interpret them on their own definitions.
\<close>

section \<open>Status machines that only climb\<close>

locale ranked_machine =
  fixes rank :: "'st \<Rightarrow> nat" and moves :: "'st \<Rightarrow> 'st \<Rightarrow> bool" and top :: nat
  assumes moves_climb: "moves a b \<Longrightarrow> rank a < rank b"
    and rank_top: "rank a \<le> top"
begin

lemma no_self_move: "\<not> moves a a"
  using moves_climb by blast

lemma path_ranks: "successively moves (x # xs) \<Longrightarrow> y \<in> set xs \<Longrightarrow> rank x < rank y"
proof (induction xs arbitrary: x)
  case Nil
  then show ?case by simp
next
  case (Cons z zs)
  then have "rank x < rank z" using moves_climb by simp
  with Cons show ?case by (auto dest: less_trans)
qed

lemma path_distinct: "successively moves xs \<Longrightarrow> distinct xs"
proof (induction xs)
  case Nil
  then show ?case by simp
next
  case (Cons x xs)
  then have "successively moves xs" by (cases xs) auto
  with Cons path_ranks [of x xs] show ?case by fastforce
qed

lemma path_length_rank: "successively moves (x # xs) \<Longrightarrow> length xs + rank x \<le> top"
proof (induction xs arbitrary: x)
  case Nil
  then show ?case by (simp add: rank_top)
next
  case (Cons z zs)
  then have "rank x < rank z" and "length zs + rank z \<le> top" using moves_climb by auto
  then show ?case by simp
qed

lemma path_length: "successively moves xs \<Longrightarrow> length xs \<le> Suc top"
  using path_length_rank by (cases xs) force+

end

section \<open>Operations executed once per idempotency key\<close>

text \<open>
  \<open>seen s k\<close> is what the component has recorded under key \<open>k\<close>: the identity of the request and
  the result returned; \<open>run c k\<close> is the operation on request \<open>c\<close>, \<open>ok\<close> the argument checks that
  precede the key lookup; \<open>env\<close> is any operation of the component, this one included.
\<close>

locale keyed_once =
  fixes seen :: "'s \<Rightarrow> string \<Rightarrow> ('i \<times> 'r) option"
    and ident :: "'c \<Rightarrow> 'i"
    and ok :: "'c \<Rightarrow> 's \<Rightarrow> bool"
    and run :: "'c \<Rightarrow> string \<Rightarrow> 's \<Rightarrow> ('s, 'r) outcome"
    and env :: "'d \<Rightarrow> 's \<Rightarrow> ('s, 'u) outcome"
  assumes replay: "ok c s \<Longrightarrow> seen s k = Some (ident c, r) \<Longrightarrow> run c k s = (Inr r, s)"
    and conflict: "ok c s \<Longrightarrow> seen s k = Some (i, r) \<Longrightarrow> i \<noteq> ident c \<Longrightarrow> \<exists>e. run c k s = (Inl e, s)"
    and refused: "\<not> ok c s \<Longrightarrow> \<exists>e. run c k s = (Inl e, s)"
    and records: "run c k s = (Inr r, s') \<Longrightarrow> seen s' k = Some (ident c, r) \<and> ok c s'"
    and env_seen: "seen s k = Some v \<Longrightarrow> seen (snd (env d s)) k = Some v"
    and env_ok: "ok c s \<Longrightarrow> ok c (snd (env d s))"
begin

lemma run_ops_seen: "seen s k = Some v \<Longrightarrow> seen (run_ops env ds s) k = Some v"
  by (induction ds arbitrary: s) (auto intro: env_seen)

lemma run_ops_ok: "ok c s \<Longrightarrow> ok c (run_ops env ds s)"
  by (induction ds arbitrary: s) (auto intro: env_ok)

text \<open>Whatever operations come between, a repeated request returns the first result and changes nothing.\<close>

lemma replay_after:
  assumes "run c k s = (Inr r, s1)"
  shows "run c k (run_ops env ds s1) = (Inr r, run_ops env ds s1)"
  using records [OF assms] by (intro replay run_ops_ok run_ops_seen) auto

text \<open>The key can never be used again for a request with another identity.\<close>

lemma conflict_after:
  assumes "run c k s = (Inr r, s1)" and "ident c' \<noteq> ident c"
  shows "\<exists>e. run c' k (run_ops env ds s1) = (Inl e, run_ops env ds s1)"
proof (cases "ok c' (run_ops env ds s1)")
  case True
  have "seen (run_ops env ds s1) k = Some (ident c, r)"
    using records [OF assms(1)] run_ops_seen by blast
  with conflict [OF True] assms(2) show ?thesis by metis
next
  case False
  then show ?thesis by (rule refused)
qed

end

section \<open>Tables whose entries never change\<close>

locale write_once =
  fixes find :: "'s \<Rightarrow> 'k \<Rightarrow> 'v option" and op :: "'c \<Rightarrow> 's \<Rightarrow> ('s, 'r) outcome"
  assumes op_keeps: "find s k = Some v \<Longrightarrow> find (snd (op c s)) k = Some v"
begin

lemma run_keeps: "find s k = Some v \<Longrightarrow> find (run_ops op cs s) k = Some v"
  by (induction cs arbitrary: s) (auto intro: op_keeps)

lemma run_agree: "find s k = Some v \<Longrightarrow> find (run_ops op cs s) k = Some w \<Longrightarrow> w = v"
  using run_keeps by fastforce

end

end
