(* ===== verification/Journal.thy ===== *)
theory Journal
  imports Models StateMachine
begin

text \<open>
  \<^verbatim>\<open>akc_parallel_runtime/contracts.py\<close>: the append-only event journal with per-aggregate
  sequence numbers, per-aggregate chronology and idempotency keys, and the interface its
  clients rely on (locale \<open>append_only_log\<close>).
\<close>

section \<open>State\<close>

definition event_types :: "string list" where
  "event_types =
    [''shard.planned.v1'', ''shard.dispatched.v1'', ''attempt.started.v1'',
     ''attempt.output.received.v1'', ''attempt.validation.failed.v1'', ''attempt.accepted.v1'',
     ''attempt.rejected.v1'', ''attempt.hedged.v1'', ''worker.semantic.degraded.v1'',
     ''worker.draining.v1'', ''worker.quarantined.v1'', ''recovery.region.requested.v1'',
     ''recovery.completed.v1'', ''recovery.planned.v1'', ''recovery.started.v1'',
     ''recovery.validated.v1'', ''region.verified.v1'', ''region.unresolved.v1'',
     ''worker.semantic.canary_failed.v1'', ''impact.replay.requested.v1'',
     ''final.accuracy.calculated.v1'', ''trust.receipt.issued.v1'', ''drift.detected.v1'',
     ''rollback.triggered.v1'', ''quality.finding.created.v1'', ''recovery.plan.created.v1'',
     ''recovery.attempt.started.v1'', ''recovery.candidate.generated.v1'',
     ''recovery.validation.completed.v1'', ''recovery.candidate.accepted.v1'',
     ''recovery.exhausted.v1'', ''knowledge.objects.invalidated.v1'',
     ''knowledge.objects.regenerated.v1'', ''package.trust_receipt.created.v1'',
     ''continuity.merge.started.v1'', ''continuity.merge.completed.v1'',
     ''document.finalized.v1'']"

text \<open>
  \<open>ev_payload\<close> is the tree that \<open>json.loads(payload_json)\<close> returns (the property \<open>payload\<close>).
\<close>

record domain_event =
  ev_id :: string
  ev_type :: string
  ev_aggregate :: string
  ev_sequence :: nat
  ev_at :: datetime
  ev_payload_json :: string
  ev_payload :: jval
  ev_payload_sha256 :: string
  ev_key :: string

record journal =
  j_events :: "domain_event list"
  j_keys :: "string \<rightharpoonup> domain_event"
  j_sequences :: "string \<rightharpoonup> nat"
  j_last :: "string \<rightharpoonup> datetime"

definition new_journal :: journal where
  "new_journal = \<lparr>j_events = [], j_keys = Map.empty, j_sequences = Map.empty, j_last = Map.empty\<rparr>"

section \<open>append and events\<close>

definition event_identity :: "renv \<Rightarrow> string \<Rightarrow> string \<Rightarrow> jval \<Rightarrow> string" where
  "event_identity E ty agg payload = jsha E (JObj
     [(''event_type'', JStr ty), (''aggregate_id'', JStr agg), (''payload'', payload)])"

definition journal_append ::
  "renv \<Rightarrow> string \<Rightarrow> string \<Rightarrow> (string \<times> pyval) list \<Rightarrow> datetime \<Rightarrow> string \<Rightarrow> journal
   \<Rightarrow> (journal, domain_event) outcome" where
  "journal_append E ty agg payload occ key j =
    (if ty \<notin> set event_types then (Inl (ValueError ''unsupported parallel runtime event type''), j)
     else if \<not> is_aware occ then (Inl (ValueError ''event occurred_at must be timezone-aware''), j)
     else (case normalize E (PMap (map (\<lambda>(k, v). (PStr k, v)) payload)) of
       Inl e \<Rightarrow> (Inl e, j)
     | Inr p \<Rightarrow>
         let digest = jsha E p; ident = event_identity E ty agg p in
         (case j_keys j key of
           Some ex \<Rightarrow>
             (if event_identity E (ev_type ex) (ev_aggregate ex) (ev_payload ex) \<noteq> ident
              then (Inl EventConflictError, j) else (Inr ex, j))
         | None \<Rightarrow>
             (if (case j_last j agg of None \<Rightarrow> False | Some prev \<Rightarrow> instant occ < instant prev)
              then (Inl (ValueError ''aggregate events must be chronological''), j)
              else
                let seq = (case j_sequences j agg of None \<Rightarrow> 0 | Some n \<Rightarrow> n) + 1;
                    event = \<lparr>ev_id = stable_id E ''evt'' [JStr ty, JStr agg, JStr key, JStr digest],
                      ev_type = ty, ev_aggregate = agg, ev_sequence = seq, ev_at = occ,
                      ev_payload_json = dumps E p, ev_payload = jcanon p,
                      ev_payload_sha256 = digest, ev_key = key\<rparr>
                in (Inr event,
                    j\<lparr>j_events := j_events j @ [event], j_keys := (j_keys j)(key \<mapsto> event),
                      j_sequences := (j_sequences j)(agg \<mapsto> seq),
                      j_last := (j_last j)(agg \<mapsto> occ)\<rparr>)))))"

definition journal_events :: "string option \<Rightarrow> journal \<Rightarrow> domain_event list" where
  "journal_events agg j = (case agg of None \<Rightarrow> j_events j
     | Some a \<Rightarrow> filter (\<lambda>e. ev_aggregate e = a) (j_events j))"

text \<open>\<open>if self._events is not None: self._events.append(\<dots>)\<close>, as every component writes it.\<close>

definition emit ::
  "renv \<Rightarrow> string \<Rightarrow> string \<Rightarrow> (string \<times> pyval) list \<Rightarrow> datetime \<Rightarrow> string \<Rightarrow> journal option
   \<Rightarrow> (journal option, unit) outcome" where
  "emit E ty agg payload occ key oj =
    (case oj of None \<Rightarrow> (Inr (), None)
     | Some j \<Rightarrow> (case journal_append E ty agg payload occ key j of
         (Inl e, j') \<Rightarrow> (Inl e, Some j') | (Inr _, j') \<Rightarrow> (Inr (), Some j')))"

lemma emit_None [simp]: "emit E ty agg payload occ key None = (Inr (), None)"
  by (simp add: emit_def)

text \<open>Several events of one operation, in order; an exception stops the rest.\<close>

type_synonym event_request = "string \<times> string \<times> (string \<times> pyval) list \<times> datetime \<times> string"

fun emit_all :: "renv \<Rightarrow> event_request list \<Rightarrow> journal option \<Rightarrow> (journal option, unit) outcome" where
  "emit_all E [] oj = (Inr (), oj)"
| "emit_all E ((ty, agg, payload, occ, key) # rs) oj =
     andthen (emit E ty agg payload occ key oj) (\<lambda>_ oj'. emit_all E rs oj')"

text \<open>
  The end of an operation: the component's state \<open>s\<close> and result \<open>x\<close> are settled, its events
  are appended; an exception of the journal propagates and the component's state stays changed.
\<close>

definition with_events ::
  "'s \<Rightarrow> 'a \<Rightarrow> (journal option, unit) outcome \<Rightarrow> ('s \<times> journal option, 'a) outcome" where
  "with_events s x out = (case out of (Inl e, oj) \<Rightarrow> (Inl e, (s, oj)) | (Inr _, oj) \<Rightarrow> (Inr x, (s, oj)))"

lemma with_events_state [simp]: "fst (snd (with_events s x out)) = s"
  by (cases out) (auto simp: with_events_def split: sum.splits)

lemma with_events_eqD:
  "with_events s x out = (r, (s', oj)) \<Longrightarrow> s' = s \<and> (r = Inr x \<or> (\<exists>e. r = Inl e)) \<and> oj = snd out"
  by (cases out) (auto simp: with_events_def split: sum.splits)

section \<open>Runs and the interface of an append-only log\<close>

locale append_only_log =
  fixes log :: "'s \<Rightarrow> 'e list"
    and put :: "'c \<Rightarrow> 's \<Rightarrow> ('s, 'r) outcome"
  assumes put_extends: "put c s = (r, s') \<Longrightarrow> \<exists>es. log s' = log s @ es"
    and put_error_keeps: "put c s = (Inl e, s') \<Longrightarrow> s' = s"
begin

lemma run_extends: "\<exists>es. log (run_ops put cs s) = log s @ es"
proof (induction cs arbitrary: s)
  case Nil
  then show ?case by simp
next
  case (Cons c cs)
  obtain r s1 where 1: "put c s = (r, s1)" by fastforce
  then obtain es where "log s1 = log s @ es" using put_extends by blast
  moreover obtain es' where "log (run_ops put cs s1) = log s1 @ es'" using Cons.IH by blast
  ultimately show ?case using 1 by simp
qed

lemma run_keeps_entries: "e \<in> set (log s) \<Longrightarrow> e \<in> set (log (run_ops put cs s))"
  using run_extends [of cs s] by auto

lemma run_nth: "i < length (log s) \<Longrightarrow> log (run_ops put cs s) ! i = log s ! i"
  using run_extends [of cs s] by (auto simp: nth_append)

end

section \<open>Invariant\<close>

definition agg_events :: "journal \<Rightarrow> string \<Rightarrow> domain_event list" where
  "agg_events j a = journal_events (Some a) j"

definition event_ok :: "renv \<Rightarrow> domain_event \<Rightarrow> bool" where
  "event_ok E e \<longleftrightarrow> ev_type e \<in> set event_types \<and> is_aware (ev_at e)
     \<and> ev_payload_json e = dumps E (ev_payload e) \<and> ev_payload_sha256 e = jsha E (ev_payload e)"

definition journal_inv :: "renv \<Rightarrow> journal \<Rightarrow> bool" where
  "journal_inv E j \<longleftrightarrow>
     (\<forall>a. map ev_sequence (agg_events j a) = [1..<Suc (length (agg_events j a))]) \<and>
     (\<forall>a. sorted (map (instant \<circ> ev_at) (agg_events j a))) \<and>
     (\<forall>a. j_sequences j a =
        (if agg_events j a = [] then None else Some (length (agg_events j a)))) \<and>
     (\<forall>a. j_last j a =
        (if agg_events j a = [] then None else Some (ev_at (last (agg_events j a))))) \<and>
     distinct (map ev_key (j_events j)) \<and>
     (\<forall>k e. j_keys j k = Some e \<longleftrightarrow> e \<in> set (j_events j) \<and> ev_key e = k) \<and>
     (\<forall>e \<in> set (j_events j). event_ok E e)"

lemma journal_inv_new: "journal_inv E new_journal"
  by (simp add: journal_inv_def new_journal_def agg_events_def journal_events_def)

lemma journal_append_error_keeps:
  "journal_append E ty agg payload occ key j = (Inl e, j') \<Longrightarrow> j' = j"
  unfolding journal_append_def Let_def
  by (simp split: if_split_asm sum.split_asm option.split_asm)

text \<open>The two successful outcomes: the recorded event of a known key, or a new last event.\<close>

definition appended :: "renv \<Rightarrow> string \<Rightarrow> string \<Rightarrow> datetime \<Rightarrow> string \<Rightarrow> journal \<Rightarrow> domain_event \<Rightarrow> journal \<Rightarrow> bool" where
  "appended E ty agg occ key j ev j' \<longleftrightarrow>
     j_keys j key = None \<and> ev_key ev = key \<and> ev_aggregate ev = agg \<and> ev_at ev = occ \<and>
     ev_type ev = ty \<and> event_ok E ev \<and>
     ev_sequence ev = Suc (case j_sequences j agg of None \<Rightarrow> 0 | Some n \<Rightarrow> n) \<and>
     (case j_last j agg of None \<Rightarrow> True | Some prev \<Rightarrow> instant prev \<le> instant occ) \<and>
     j_events j' = j_events j @ [ev] \<and> j_keys j' = (j_keys j)(key \<mapsto> ev) \<and>
     j_sequences j' = (j_sequences j)(agg \<mapsto> ev_sequence ev) \<and> j_last j' = (j_last j)(agg \<mapsto> occ)"

lemma journal_append_cases:
  assumes "journal_append E ty agg payload occ key j = (Inr ev, j')"
  shows "(j_keys j key = Some ev \<and> j' = j) \<or> appended E ty agg occ key j ev j'"
proof (cases "j_keys j key")
  case (Some ex)
  with assms show ?thesis
    unfolding journal_append_def Let_def by (simp split: if_split_asm sum.split_asm)
next
  case None
  from assms have ty: "ty \<in> set event_types" and aw: "is_aware occ"
    unfolding journal_append_def by (simp_all split: if_split_asm)
  obtain p where p: "normalize E (PMap (map (\<lambda>(k, v). (PStr k, v)) payload)) = Inr p"
    using assms unfolding journal_append_def by (simp split: if_split_asm sum.split_asm)
  have chron: "case j_last j agg of None \<Rightarrow> True | Some prev \<Rightarrow> instant prev \<le> instant occ"
    using assms ty aw p None unfolding journal_append_def Let_def
    by (simp split: if_split_asm option.split_asm option.split)
  then show ?thesis
    using assms ty aw p None unfolding journal_append_def Let_def appended_def event_ok_def
    by (simp split: if_split_asm option.split_asm) (auto simp: jsha_def)
qed

lemma agg_events_snoc:
  "j_events j' = j_events j @ [ev] \<Longrightarrow>
   agg_events j' a = agg_events j a @ (if ev_aggregate ev = a then [ev] else [])"
  by (simp add: agg_events_def journal_events_def)

lemma sorted_snoc_last:
  "sorted (map f xs) \<Longrightarrow> (xs \<noteq> [] \<Longrightarrow> f (last xs) \<le> f x) \<Longrightarrow> sorted (map f (xs @ [x]))"
  by (cases xs rule: rev_cases) (auto simp: sorted_append dest: order_trans)

lemma journal_inv_appended:
  assumes inv: "journal_inv E j" and new: "appended E ty agg occ key j ev j'"
  shows "journal_inv E j'"
proof -
  from new have kn: "j_keys j key = None" and ek: "ev_key ev = key" and ea: "ev_aggregate ev = agg"
    and et: "ev_at ev = occ" and eo: "event_ok E ev"
    and es: "ev_sequence ev = Suc (case j_sequences j agg of None \<Rightarrow> 0 | Some n \<Rightarrow> n)"
    and ch: "case j_last j agg of None \<Rightarrow> True | Some prev \<Rightarrow> instant prev \<le> instant occ"
    and evs: "j_events j' = j_events j @ [ev]" and ks': "j_keys j' = (j_keys j)(key \<mapsto> ev)"
    and sq': "j_sequences j' = (j_sequences j)(agg \<mapsto> ev_sequence ev)"
    and la': "j_last j' = (j_last j)(agg \<mapsto> occ)"
    unfolding appended_def by blast+
  note snoc = agg_events_snoc [OF evs, unfolded ea]
  from inv have seq: "\<And>a. map ev_sequence (agg_events j a) = [1..<Suc (length (agg_events j a))]"
    and srt: "\<And>a. sorted (map (instant \<circ> ev_at) (agg_events j a))"
    and js: "\<And>a. j_sequences j a = (if agg_events j a = [] then None else Some (length (agg_events j a)))"
    and jl: "\<And>a. j_last j a = (if agg_events j a = [] then None else Some (ev_at (last (agg_events j a))))"
    and dk: "distinct (map ev_key (j_events j))"
    and ks: "\<And>k e. j_keys j k = Some e \<longleftrightarrow> e \<in> set (j_events j) \<and> ev_key e = k"
    and ok: "\<forall>e \<in> set (j_events j). event_ok E e"
    unfolding journal_inv_def by blast+
  have sq: "ev_sequence ev = Suc (length (agg_events j agg))"
    by (simp add: es js)
  have fresh: "key \<notin> ev_key ` set (j_events j)"
    using kn ks [of key] by fastforce
  have 1: "map ev_sequence (agg_events j' a) = [1..<Suc (length (agg_events j' a))]" for a
    by (cases "a = agg") (simp_all add: snoc seq sq)
  have 2: "sorted (map (instant \<circ> ev_at) (agg_events j' a))" for a
  proof (cases "a = agg")
    case True
    have "sorted (map (instant \<circ> ev_at) (agg_events j agg @ [ev]))"
      using ch jl [of agg] et by (intro sorted_snoc_last srt) simp
    with True show ?thesis by (simp add: snoc)
  next
    case False
    with srt show ?thesis by (simp add: snoc)
  qed
  have 3: "j_sequences j' a =
      (if agg_events j' a = [] then None else Some (length (agg_events j' a)))" for a
    by (simp add: snoc sq' sq js)
  have 4: "j_last j' a =
      (if agg_events j' a = [] then None else Some (ev_at (last (agg_events j' a))))" for a
    by (simp add: snoc la' jl et)
  have 5: "distinct (map ev_key (j_events j'))"
    using dk fresh ek by (simp add: evs)
  have 6: "j_keys j' k = Some e \<longleftrightarrow> e \<in> set (j_events j') \<and> ev_key e = k" for k e
  proof (cases "k = key")
    case True
    then have "e \<notin> set (j_events j)" if "ev_key e = k" using fresh that by auto
    with True ek show ?thesis by (auto simp: evs ks')
  next
    case False
    with ks [of k e] ek show ?thesis by (auto simp: evs ks')
  qed
  have 7: "\<forall>e \<in> set (j_events j'). event_ok E e"
    using ok eo by (simp add: evs)
  from 1 2 3 4 5 6 7 show ?thesis unfolding journal_inv_def by blast
qed

lemma journal_inv_append:
  assumes "journal_inv E j" and "journal_append E ty agg payload occ key j = (r, j')"
  shows "journal_inv E j'"
proof (cases r)
  case (Inl e)
  with assms journal_append_error_keeps show ?thesis by metis
next
  case (Inr ev)
  with assms journal_append_cases [of E ty agg payload occ key j ev j'] journal_inv_appended
  show ?thesis by metis
qed

section \<open>The journal as an append-only log\<close>

definition opt_events :: "journal option \<Rightarrow> domain_event list" where
  "opt_events oj = (case oj of None \<Rightarrow> [] | Some j \<Rightarrow> j_events j)"

lemma journal_append_extends:
  "journal_append E ty agg payload occ key j = (r, j') \<Longrightarrow> \<exists>es. j_events j' = j_events j @ es"
  by (cases r) (auto dest: journal_append_error_keeps journal_append_cases simp: appended_def)


lemma emit_extends:
  "emit E ty agg payload occ key oj = (r, oj') \<Longrightarrow> \<exists>es. opt_events oj' = opt_events oj @ es"
  by (auto simp: emit_def opt_events_def split: option.splits prod.splits sum.splits
      dest: journal_append_extends)

lemma emit_None_iff: "emit E ty agg payload occ key oj = (r, oj') \<Longrightarrow> oj' = None \<longleftrightarrow> oj = None"
  by (auto simp: emit_def split: option.splits prod.splits sum.splits)

lemma emit_error_keeps: "emit E ty agg payload occ key oj = (Inl e, oj') \<Longrightarrow> oj' = oj"
  by (auto simp: emit_def split: option.splits prod.splits sum.splits dest: journal_append_error_keeps)

lemma emit_all_extends:
  "emit_all E rs oj = (r, oj') \<Longrightarrow> \<exists>es. opt_events oj' = opt_events oj @ es"
proof (induction E rs oj arbitrary: r oj' rule: emit_all.induct)
  case (1 E oj)
  then show ?case by simp
next
  case (2 E ty agg payload occ key rs oj)
  obtain x oj1 where 1: "emit E ty agg payload occ key oj = (x, oj1)" by fastforce
  show ?case
  proof (cases x)
    case (Inl e)
    with 1 2 show ?thesis using emit_extends [OF 1] by auto
  next
    case (Inr u)
    with 1 2 obtain es where "opt_events oj' = opt_events oj1 @ es" by force
    with emit_extends [OF 1] show ?thesis by force
  qed
qed

definition ojournal_inv :: "renv \<Rightarrow> journal option \<Rightarrow> bool" where
  "ojournal_inv E oj = (case oj of None \<Rightarrow> True | Some j \<Rightarrow> journal_inv E j)"

lemma emit_inv: "ojournal_inv E oj \<Longrightarrow> emit E ty agg payload occ key oj = (r, oj') \<Longrightarrow> ojournal_inv E oj'"
  by (auto simp: emit_def ojournal_inv_def split: option.splits prod.splits sum.splits
      dest: journal_inv_append)

lemma emit_all_inv: "ojournal_inv E oj \<Longrightarrow> emit_all E rs oj = (r, oj') \<Longrightarrow> ojournal_inv E oj'"
proof (induction E rs oj arbitrary: r oj' rule: emit_all.induct)
  case (1 E oj)
  then show ?case by simp
next
  case (2 E ty agg payload occ key rs oj)
  obtain x oj1 where 1: "emit E ty agg payload occ key oj = (x, oj1)" by fastforce
  then have "ojournal_inv E oj1" using 2 emit_inv by blast
  with 1 2 show ?case by (cases x) auto
qed

section \<open>Replays\<close>

lemma event_identity_canon: "event_identity E ty agg (jcanon p) = event_identity E ty agg p"
  by (simp add: event_identity_def jsha_def dumps.simps)

text \<open>The arguments of one call of \<open>append\<close>, without its key.\<close>

record append_request =
  aq_type :: string
  aq_aggregate :: string
  aq_payload :: "(string \<times> pyval) list"
  aq_at :: datetime

definition append_op :: "renv \<Rightarrow> append_request \<Rightarrow> string \<Rightarrow> journal \<Rightarrow> (journal, domain_event) outcome" where
  "append_op E q key = journal_append E (aq_type q) (aq_aggregate q) (aq_payload q) (aq_at q) key"

definition append_payload :: "renv \<Rightarrow> append_request \<Rightarrow> pyerr + jval" where
  "append_payload E q = normalize E (PMap (map (\<lambda>(k, v). (PStr k, v)) (aq_payload q)))"

definition append_ident :: "renv \<Rightarrow> append_request \<Rightarrow> string" where
  "append_ident E q = (case append_payload E q of Inl e \<Rightarrow> [] | Inr p \<Rightarrow> event_identity E (aq_type q) (aq_aggregate q) p)"

definition append_ok :: "renv \<Rightarrow> append_request \<Rightarrow> bool" where
  "append_ok E q \<longleftrightarrow> aq_type q \<in> set event_types \<and> is_aware (aq_at q) \<and> (\<exists>p. append_payload E q = Inr p)"

definition event_seen :: "renv \<Rightarrow> journal \<Rightarrow> string \<Rightarrow> (string \<times> domain_event) option" where
  "event_seen E j k = map_option (\<lambda>e. (event_identity E (ev_type e) (ev_aggregate e) (ev_payload e), e)) (j_keys j k)"

definition append_call :: "renv \<Rightarrow> append_request \<times> string \<Rightarrow> journal \<Rightarrow> (journal, domain_event) outcome" where
  "append_call E c = append_op E (fst c) (snd c)"

lemmas append_defs = append_op_def append_payload_def append_ident_def append_ok_def event_seen_def append_call_def

lemma append_known:
  assumes "append_ok E q" and "j_keys j k = Some ex"
  shows "append_op E q k j =
    (if event_identity E (ev_type ex) (ev_aggregate ex) (ev_payload ex) = append_ident E q
     then (Inr ex, j) else (Inl EventConflictError, j))"
  using assms by (auto simp: append_defs journal_append_def Let_def)

lemma append_records:
  assumes "append_op E q k j = (Inr ev, j')"
  shows "event_seen E j' k = Some (append_ident E q, ev) \<and> append_ok E q"
proof -
  have run: "journal_append E (aq_type q) (aq_aggregate q) (aq_payload q) (aq_at q) k j = (Inr ev, j')"
    using assms by (simp add: append_op_def)
  then have ok: "append_ok E q"
    unfolding journal_append_def append_ok_def append_payload_def by (simp split: if_split_asm sum.split_asm)
  then obtain p where p: "append_payload E q = Inr p" unfolding append_ok_def by blast
  show ?thesis
  proof (cases "j_keys j k")
    case (Some ex)
    with append_known [OF ok Some] assms ok show ?thesis by (auto simp: event_seen_def split: if_splits)
  next
    case None
    have "appended E (aq_type q) (aq_aggregate q) (aq_at q) k j ev j'"
      using journal_append_cases [OF run] None by simp
    moreover have "ev_payload ev = jcanon p"
      using run None ok p unfolding append_ok_def append_payload_def journal_append_def Let_def
      by (simp split: if_split_asm option.split_asm) auto
    ultimately show ?thesis using ok p
      by (simp add: appended_def event_seen_def append_ident_def event_identity_canon)
  qed
qed

lemma append_keeps_key:
  assumes "event_seen E j k = Some v"
  shows "event_seen E (snd (append_call E c j)) k = Some v"
proof -
  obtain r j' where run: "append_call E c j = (r, j')" by fastforce
  then have run': "journal_append E (aq_type (fst c)) (aq_aggregate (fst c)) (aq_payload (fst c)) (aq_at (fst c)) (snd c) j
      = (r, j')" by (simp add: append_defs)
  show ?thesis
  proof (cases r)
    case (Inl e)
    with run' journal_append_error_keeps run assms show ?thesis by (metis snd_conv)
  next
    case (Inr ev)
    with journal_append_cases [of E] run' assms run show ?thesis
      by (fastforce simp: appended_def event_seen_def)
  qed
qed

interpretation appending: keyed_once "event_seen E" "append_ident E" "\<lambda>q j. append_ok E q"
  "append_op E" "append_call E" for E
proof (unfold_locales, goal_cases)
  case (1 q j k r)
  then show ?case by (auto simp: append_known event_seen_def)
next
  case (2 q j k i r)
  then show ?case by (auto simp: append_known event_seen_def)
next
  case (3 q j k)
  then show ?case by (auto simp: append_ok_def append_op_def append_payload_def journal_append_def split: sum.splits)
next
  case (4 q k j r j')
  then show ?case by (rule append_records)
next
  case (5 j k v c)
  then show ?case by (rule append_keeps_key)
next
  case (6 q j c)
  then show ?case by simp
qed

interpretation appends: append_only_log j_events "append_call E" for E
  by unfold_locales (auto simp: append_call_def append_op_def
      dest: journal_append_extends journal_append_error_keeps)

lemma append_call_inv: "journal_inv E j \<Longrightarrow> journal_inv E (snd (append_call E c j))"
  using journal_inv_append by (metis append_call_def append_op_def prod.collapse)

section \<open>Properties\<close>

text \<open>C10: the journal is sound after any appends. Whatever was appended, refused appends included, the
  events of each aggregate are numbered from 1 without gaps and are in time order, idempotency keys
  are unique, every event has a registered type, an aware time and the digest of its own canonical
  payload, and reading the stored text back gives the payload.\<close>

theorem journal_sound:
  "let j = run_ops (append_call E) cs new_journal
   in (\<forall>a. map ev_sequence (journal_events (Some a) j) = [1..<Suc (length (journal_events (Some a) j))]
         \<and> sorted (map (instant \<circ> ev_at) (journal_events (Some a) j)))
    \<and> distinct (map ev_key (j_events j))
    \<and> (\<forall>e \<in> set (j_events j). ev_type e \<in> set event_types \<and> is_aware (ev_at e)
         \<and> ev_payload_json e = dumps E (ev_payload e) \<and> ev_payload_sha256 e = jsha E (ev_payload e))"
proof -
  have "journal_inv E (run_ops (append_call E) cs new_journal)"
    by (rule run_ops_invariant [where I = "journal_inv E"]) (simp_all add: append_call_inv journal_inv_new)
  then show ?thesis unfolding Let_def journal_inv_def agg_events_def event_ok_def by blast
qed

definition demo_renv :: renv where
  "demo_renv = \<lparr>sha256 = (\<lambda>s. s), float_repr = (\<lambda>r. ''f''), isoformat = (\<lambda>t. ''t'')\<rparr>"

definition demo_append :: "string \<Rightarrow> int \<Rightarrow> append_request" where
  "demo_append v t = \<lparr>aq_type = ''shard.planned.v1'', aq_aggregate = ''a'', aq_payload = [(''x'', PStr v)],
     aq_at = Aware t\<rparr>"

lemma demo_append_ok: "append_ok E (demo_append v t)"
  by (simp add: append_ok_def demo_append_def append_payload_def event_types_def mapR_def pairE_def str_key_def)

theorem journal_sound_witness:
  "distinct (map ev_key (j_events (run_ops (append_call demo_renv)
     [(demo_append ''1'' 5, ''k''), (demo_append ''2'' 3, ''l''), (demo_append ''1'' 5, ''k'')] new_journal)))"
  using journal_sound [of demo_renv "[(demo_append ''1'' 5, ''k''), (demo_append ''2'' 3, ''l''), (demo_append ''1'' 5, ''k'')]"]
  unfolding Let_def by blast

text \<open>Fact: an append is replayed. Once an event was appended under a key, appending the same type,
  aggregate and payload under that key again returns the recorded event and changes nothing, whatever
  was appended in between and whatever time is given; and another identity is refused under that key.
  No append ever removes or reorders a recorded event.\<close>

theorem journal_replay:
  assumes "append_op E q k j = (Inr ev, j1)"
  shows "append_op E q k (run_ops (append_call E) cs j1) = (Inr ev, run_ops (append_call E) cs j1)
    \<and> (append_ident E q' \<noteq> append_ident E q \<longrightarrow>
        (\<exists>e. append_op E q' k (run_ops (append_call E) cs j1) = (Inl e, run_ops (append_call E) cs j1)))
    \<and> (\<exists>es. j_events (run_ops (append_call E) cs j1) = j_events j1 @ es)"
  using appending.replay_after [OF assms] appending.conflict_after [OF assms] appends.run_extends by blast

theorem journal_replay_witness:
  "\<exists>ev j1. append_op demo_renv (demo_append ''1'' 5) ''k'' new_journal = (Inr ev, j1)
     \<and> append_op demo_renv (demo_append ''1'' 5) ''k'' (run_ops (append_call demo_renv) [(demo_append ''2'' 9, ''l'')] j1)
        = (Inr ev, run_ops (append_call demo_renv) [(demo_append ''2'' 9, ''l'')] j1)"
proof -
  have "\<exists>ev j1. append_op demo_renv (demo_append ''1'' 5) ''k'' new_journal = (Inr ev, j1)"
    by (simp add: append_op_def journal_append_def demo_append_def event_types_def mapR_def pairE_def str_key_def
        new_journal_def Let_def)
  then show ?thesis using journal_replay by blast
qed

end
