(* ===== verification/Attempts.thy ===== *)
theory Attempts
  imports Journal StateMachine
begin

text \<open>
  \<^verbatim>\<open>akc_parallel_runtime/attempts.py\<close>: the attempt store. Its state is \<open>attempt_store\<close> (the
  dictionaries of \<open>AttemptStore\<close>) beside the journal the store was given; each public method is
  one definition on that pair. \<open>_MutableAttempt\<close> has the fields of \<open>AttemptSnapshot\<close>, so both are
  the record \<open>attempt_snapshot\<close>, and \<open>snapshot()\<close> is its constructor.
\<close>

section \<open>State and transition table\<close>

fun allowed :: "attempt_status \<Rightarrow> attempt_status list" where
  "allowed AS_CREATED = [AS_QUEUED, AS_TERMINAL_FAILED]"
| "allowed AS_QUEUED = [AS_RUNNING, AS_RETRYABLE_FAILED, AS_TERMINAL_FAILED, AS_QUARANTINED]"
| "allowed AS_RUNNING = [AS_OUTPUT_RECEIVED, AS_RETRYABLE_FAILED, AS_TERMINAL_FAILED, AS_QUARANTINED]"
| "allowed AS_OUTPUT_RECEIVED = [AS_VALIDATING, AS_REJECTED, AS_QUARANTINED]"
| "allowed AS_VALIDATING = [AS_ACCEPTED, AS_REJECTED, AS_RETRYABLE_FAILED, AS_TERMINAL_FAILED,
     AS_SUPERSEDED, AS_QUARANTINED]"
| "allowed AS_ACCEPTED = [AS_SUPERSEDED, AS_QUARANTINED]"
| "allowed AS_REJECTED = []"
| "allowed AS_RETRYABLE_FAILED = []"
| "allowed AS_TERMINAL_FAILED = []"
| "allowed AS_SUPERSEDED = []"
| "allowed AS_QUARANTINED = []"

record acceptance_result =
  ac_winner :: attempt_snapshot
  ac_challenger :: "attempt_snapshot option"
  ac_accepted_new :: bool

record attempt_store =
  st_records :: "(string \<times> attempt_snapshot) list"
  st_creation_keys :: "string \<rightharpoonup> string"
  st_acceptance_keys :: "string \<rightharpoonup> (string \<times> acceptance_result)"
  st_accepted_by_shard :: "string \<rightharpoonup> string"

definition new_store :: attempt_store where
  "new_store = \<lparr>st_records = [], st_creation_keys = Map.empty,
     st_acceptance_keys = Map.empty, st_accepted_by_shard = Map.empty\<rparr>"

type_synonym astate = "attempt_store \<times> journal option"

abbreviation rec_of :: "attempt_store \<Rightarrow> string \<Rightarrow> attempt_snapshot option" where
  "rec_of st aid \<equiv> map_of (st_records st) aid"

abbreviation shard_of :: "attempt_snapshot \<Rightarrow> string" where
  "shard_of r \<equiv> pa_shard_id (as_attempt r)"

definition put_rec :: "string \<Rightarrow> attempt_snapshot \<Rightarrow> attempt_store \<Rightarrow> attempt_store" where
  "put_rec aid r st = st\<lparr>st_records := AList.update aid r (st_records st)\<rparr>"

section \<open>_create, create_root, create_child\<close>

text \<open>The tree \<open>_normalize\<close> makes of a ParseAttempt (its timestamp is aware).\<close>

definition jattempt :: "renv \<Rightarrow> parse_attempt \<Rightarrow> jval" where
  "jattempt E a = JObj
    [(''attempt_id'', JStr (pa_attempt_id a)), (''root_attempt_id'', JStr (pa_root_attempt_id a)),
     (''parent_attempt_id'', jopt (pa_parent_attempt_id a)),
     (''kind'', JStr (kind_value (pa_kind a))), (''document_id'', JStr (pa_document_id a)),
     (''document_version_id'', JStr (pa_document_version_id a)), (''shard_id'', JStr (pa_shard_id a)),
     (''page_ids'', JList (map JStr (pa_page_ids a))), (''region_ids'', JList (map JStr (pa_region_ids a))),
     (''parser_recipe'', JStr (pa_parser_recipe a)), (''model_revision'', JStr (pa_model_revision a)),
     (''runtime_image_digest'', JStr (pa_runtime_image_digest a)), (''worker_id'', JStr (pa_worker_id a)),
     (''gpu_type'', JStr (pa_gpu_type a)), (''source_sha256'', JStr (pa_source_sha256 a)),
     (''preprocessing_sha256'', JStr (pa_preprocessing_sha256 a)),
     (''prompt_sha256'', JStr (pa_prompt_sha256 a)), (''decoding_sha256'', JStr (pa_decoding_sha256 a)),
     (''created_at'', JStr (isoformat E (instant (pa_created_at a))))]"

definition creation_identity :: "renv \<Rightarrow> parse_attempt \<Rightarrow> string" where
  "creation_identity E a = jsha E (jattempt E a)"

definition result_of :: "'s \<Rightarrow> pyerr + 'a \<Rightarrow> ('s, 'a) outcome" where
  "result_of s r = (r, s)"

lemma result_of_simp [simp]: "result_of s r = (r, s)"
  by (simp add: result_of_def)

definition create_attempt :: "renv \<Rightarrow> parse_attempt \<Rightarrow> string \<Rightarrow> astate \<Rightarrow> (astate, attempt_snapshot) outcome" where
  "create_attempt E a key s =
    (case s of (st, oj) \<Rightarrow>
     (case st_creation_keys st key of
       Some existing_id \<Rightarrow>
         (case rec_of st existing_id of
           None \<Rightarrow> (Inl (KeyError existing_id), s)
         | Some existing \<Rightarrow>
             (if creation_identity E (as_attempt existing) \<noteq> creation_identity E a
              then (Inl (AttemptConflictError ''attempt idempotency key reused with different immutable fields''), s)
              else result_of s (mk_attempt_snapshot existing)))
     | None \<Rightarrow>
         (if rec_of st (pa_attempt_id a) \<noteq> None
          then (Inl (AttemptConflictError ''attempt_id already exists''), s)
          else (case mk_attempt_transition \<lparr>at_sequence = 1, at_from_status = None,
                  at_to_status = AS_CREATED, at_occurred_at = pa_created_at a,
                  at_reason_code = ''attempt_created''\<rparr> of
             Inl e \<Rightarrow> (Inl e, s)
           | Inr t \<Rightarrow>
               let r = \<lparr>as_attempt = a, as_status = AS_CREATED, as_output = None,
                        as_validation_digest = None, as_transitions = [t]\<rparr>;
                   st' = (put_rec (pa_attempt_id a) r st)
                     \<lparr>st_creation_keys := (st_creation_keys st)(key \<mapsto> pa_attempt_id a)\<rparr>
               in result_of (st', oj) (mk_attempt_snapshot r)))))"

text \<open>The caller's keyword arguments of \<open>create_root\<close> (also \<open>DispatchSpec\<close> of the coordinator).\<close>

record dispatch_spec =
  ds_document_id :: string
  ds_document_version_id :: string
  ds_shard_id :: string
  ds_page_ids :: "string list"
  ds_region_ids :: "string list"
  ds_parser_recipe :: string
  ds_model_revision :: string
  ds_runtime_image_digest :: string
  ds_worker_id :: string
  ds_gpu_type :: string
  ds_source_sha256 :: string
  ds_preprocessing_sha256 :: string
  ds_prompt_sha256 :: string
  ds_decoding_sha256 :: string

definition root_attempt :: "renv \<Rightarrow> string \<Rightarrow> dispatch_spec \<Rightarrow> datetime \<Rightarrow> parse_attempt" where
  "root_attempt E key d created =
    (let aid = stable_id E ''attempt'' [JStr ''root'', JStr key, JStr (ds_document_version_id d),
       JStr (ds_shard_id d), JStr (ds_parser_recipe d), JStr (ds_worker_id d)]
     in \<lparr>pa_attempt_id = aid, pa_root_attempt_id = aid, pa_parent_attempt_id = None,
         pa_kind = AK_PRIMARY, pa_document_id = ds_document_id d,
         pa_document_version_id = ds_document_version_id d, pa_shard_id = ds_shard_id d,
         pa_page_ids = ds_page_ids d, pa_region_ids = ds_region_ids d,
         pa_parser_recipe = ds_parser_recipe d, pa_model_revision = ds_model_revision d,
         pa_runtime_image_digest = ds_runtime_image_digest d, pa_worker_id = ds_worker_id d,
         pa_gpu_type = ds_gpu_type d, pa_source_sha256 = ds_source_sha256 d,
         pa_preprocessing_sha256 = ds_preprocessing_sha256 d, pa_prompt_sha256 = ds_prompt_sha256 d,
         pa_decoding_sha256 = ds_decoding_sha256 d, pa_created_at = created\<rparr>)"

definition create_root :: "renv \<Rightarrow> string \<Rightarrow> dispatch_spec \<Rightarrow> datetime \<Rightarrow> astate \<Rightarrow> (astate, attempt_snapshot) outcome" where
  "create_root E key d created s =
    (case mk_parse_attempt (root_attempt E key d created) of
      Inl e \<Rightarrow> (Inl e, s)
    | Inr a \<Rightarrow> create_attempt E a key s)"

text \<open>The caller's arguments of \<open>create_child\<close>; \<open>cs_region_ids = None\<close> inherits the parent's.\<close>

record child_spec =
  cs_kind :: attempt_kind
  cs_parser_recipe :: string
  cs_model_revision :: string
  cs_runtime_image_digest :: string
  cs_worker_id :: string
  cs_gpu_type :: string
  cs_preprocessing_sha256 :: string
  cs_prompt_sha256 :: string
  cs_decoding_sha256 :: string
  cs_region_ids :: "string list option"

definition child_attempt :: "renv \<Rightarrow> string \<Rightarrow> string \<Rightarrow> child_spec \<Rightarrow> datetime \<Rightarrow> parse_attempt \<Rightarrow> parse_attempt" where
  "child_attempt E parent_id key c created p =
    (let regions = (case cs_region_ids c of None \<Rightarrow> pa_region_ids p | Some rs \<Rightarrow> rs)
     in \<lparr>pa_attempt_id = stable_id E ''attempt'' [JStr (pa_root_attempt_id p), JStr parent_id,
           JStr (kind_value (cs_kind c)), JStr key, JStr (cs_parser_recipe c),
           JStr (cs_worker_id c), JList (map JStr regions)],
         pa_root_attempt_id = pa_root_attempt_id p, pa_parent_attempt_id = Some parent_id,
         pa_kind = cs_kind c, pa_document_id = pa_document_id p,
         pa_document_version_id = pa_document_version_id p, pa_shard_id = pa_shard_id p,
         pa_page_ids = pa_page_ids p, pa_region_ids = regions,
         pa_parser_recipe = cs_parser_recipe c, pa_model_revision = cs_model_revision c,
         pa_runtime_image_digest = cs_runtime_image_digest c, pa_worker_id = cs_worker_id c,
         pa_gpu_type = cs_gpu_type c, pa_source_sha256 = pa_source_sha256 p,
         pa_preprocessing_sha256 = cs_preprocessing_sha256 c, pa_prompt_sha256 = cs_prompt_sha256 c,
         pa_decoding_sha256 = cs_decoding_sha256 c, pa_created_at = created\<rparr>)"

definition create_child :: "renv \<Rightarrow> string \<Rightarrow> child_spec \<Rightarrow> string \<Rightarrow> datetime \<Rightarrow> astate \<Rightarrow> (astate, attempt_snapshot) outcome" where
  "create_child E parent_id c key created s =
    (case s of (st, oj) \<Rightarrow>
     (if cs_kind c = AK_PRIMARY then (Inl (ValueError ''child attempts cannot use the primary kind''), s)
      else (case rec_of st parent_id of
        None \<Rightarrow> (Inl (AttemptNotFoundError parent_id), s)
      | Some parent \<Rightarrow>
          (case dt_less created (pa_created_at (as_attempt parent)) of
            Inl e \<Rightarrow> (Inl e, s)
          | Inr True \<Rightarrow> (Inl (ValueError ''child attempt cannot predate its parent''), s)
          | Inr False \<Rightarrow>
              (case mk_parse_attempt (child_attempt E parent_id key c created (as_attempt parent)) of
                Inl e \<Rightarrow> (Inl e, s)
              | Inr a \<Rightarrow> create_attempt E a key s)))))"

section \<open>get, lineage, transition\<close>

definition get_attempt :: "string \<Rightarrow> astate \<Rightarrow> (astate, attempt_snapshot) outcome" where
  "get_attempt aid s = (case rec_of (fst s) aid of
     None \<Rightarrow> (Inl (AttemptNotFoundError aid), s)
   | Some r \<Rightarrow> result_of s (mk_attempt_snapshot r))"

definition lineage :: "string \<Rightarrow> astate \<Rightarrow> pyerr + attempt_snapshot list" where
  "lineage root_id s = mapE mk_attempt_snapshot
     (sort_key (\<lambda>r. (instant (pa_created_at (as_attempt r)), pa_attempt_id (as_attempt r)))
       (filter (\<lambda>r. pa_root_attempt_id (as_attempt r) = root_id) (map snd (st_records (fst s)))))"

text \<open>The appended AttemptTransition, and the record after \<open>append\<close> and the status assignment.\<close>

definition trans_of :: "attempt_snapshot \<Rightarrow> attempt_status \<Rightarrow> datetime \<Rightarrow> string \<Rightarrow> attempt_transition" where
  "trans_of r to occ reason = \<lparr>at_sequence = length (as_transitions r) + 1,
     at_from_status = Some (as_status r), at_to_status = to, at_occurred_at = occ, at_reason_code = reason\<rparr>"

definition moved :: "attempt_snapshot \<Rightarrow> attempt_status \<Rightarrow> datetime \<Rightarrow> string \<Rightarrow> attempt_snapshot" where
  "moved r to occ reason = r\<lparr>as_status := to, as_transitions := as_transitions r @ [trans_of r to occ reason]\<rparr>"

lemma moved_simps [simp]:
  "as_status (moved r to occ reason) = to"
  "as_attempt (moved r to occ reason) = as_attempt r"
  "as_output (moved r to occ reason) = as_output r"
  "as_validation_digest (moved r to occ reason) = as_validation_digest r"
  "as_transitions (moved r to occ reason) = as_transitions r @ [trans_of r to occ reason]"
  by (simp_all add: moved_def)

definition release_shard :: "string \<Rightarrow> attempt_status \<Rightarrow> attempt_status \<Rightarrow> string \<Rightarrow> attempt_store \<Rightarrow> attempt_store" where
  "release_shard aid expected to shard st =
    (if expected = AS_ACCEPTED \<and> to \<in> {AS_SUPERSEDED, AS_QUARANTINED}
        \<and> st_accepted_by_shard st shard = Some aid
     then st\<lparr>st_accepted_by_shard := (st_accepted_by_shard st)(shard := None)\<rparr> else st)"

definition transition ::
  "renv \<Rightarrow> string \<Rightarrow> attempt_status \<Rightarrow> attempt_status \<Rightarrow> datetime \<Rightarrow> string \<Rightarrow> astate
   \<Rightarrow> (astate, attempt_snapshot) outcome" where
  "transition E aid expected to occ reason s =
    (case s of (st, oj) \<Rightarrow>
     (case rec_of st aid of
       None \<Rightarrow> (Inl (AttemptNotFoundError aid), s)
     | Some r \<Rightarrow>
         (if as_status r \<noteq> expected
          then (Inl (AttemptConflictError ''unexpected attempt status''), s)
          else if to \<notin> set (allowed (as_status r))
          then (Inl (InvalidAttemptTransition ''transition is not allowed''), s)
          else (case dt_less occ (at_occurred_at (last (as_transitions r))) of
            Inl e \<Rightarrow> (Inl e, s)
          | Inr True \<Rightarrow> (Inl (InvalidAttemptTransition ''attempt transitions must be chronological''), s)
          | Inr False \<Rightarrow>
              (case mk_attempt_transition (trans_of r to occ reason) of
                Inl e \<Rightarrow> (Inl e, s)
              | Inr t \<Rightarrow>
                  let r' = moved r to occ reason;
                      st' = release_shard aid expected to (shard_of r) (put_rec aid r' st)
                  in (case mk_attempt_snapshot r' of
                       Inl e \<Rightarrow> (Inl e, (st', oj))
                     | Inr snap \<Rightarrow>
                         with_events st' snap (emit_all E
                           (if to = AS_RUNNING then
                             [(''attempt.started.v1'', aid,
                               [(''shard_id'', PStr (shard_of r)),
                                (''worker_id'', PStr (pa_worker_id (as_attempt r)))],
                               occ, ''attempt-started:'' @ aid)] else []) oj)))))))"

section \<open>attach_output, record_validation, accept, quarantine\<close>

text \<open>
  \<open>record.output = output\<close> and \<open>record.validation_digest = \<dots>\<close> are assigned before the
  transition that may still raise; the assignment then stays.
\<close>

definition attach_output ::
  "renv \<Rightarrow> string \<Rightarrow> attempt_output \<Rightarrow> string \<Rightarrow> astate \<Rightarrow> (astate, attempt_snapshot) outcome" where
  "attach_output E aid out key s =
    (case s of (st, oj) \<Rightarrow>
     (case rec_of st aid of
       None \<Rightarrow> (Inl (AttemptNotFoundError aid), s)
     | Some r \<Rightarrow>
         (case as_output r of
           Some existing \<Rightarrow>
             (if existing \<noteq> out
              then (Inl (ImmutableAttemptError ''attempt output cannot be replaced''), s)
              else result_of s (mk_attempt_snapshot r))
         | None \<Rightarrow>
             (if as_status r \<noteq> AS_RUNNING
              then (Inl (InvalidAttemptTransition ''output can only be attached to a running attempt''), s)
              else andthen
                (transition E aid AS_RUNNING AS_OUTPUT_RECEIVED (ao_completed_at out) ''output_received''
                   (put_rec aid (r\<lparr>as_output := Some out\<rparr>) st, oj))
                (\<lambda>snap (st', oj'). with_events st' snap (emit_all E
                   [(''attempt.output.received.v1'', aid,
                     [(''prediction_sha256'', PStr (ao_prediction_sha256 out)),
                      (''prediction_uri'', PStr (ao_prediction_uri out))],
                     ao_completed_at out, key)] oj'))))))"

definition record_validation ::
  "renv \<Rightarrow> string \<Rightarrow> string \<Rightarrow> bool \<Rightarrow> datetime \<Rightarrow> string \<Rightarrow> astate \<Rightarrow> (astate, attempt_snapshot) outcome" where
  "record_validation E aid digest passed occ failure_reason s =
    (case s of (st, oj) \<Rightarrow>
     (case rec_of st aid of
       None \<Rightarrow> (Inl (AttemptNotFoundError aid), s)
     | Some r \<Rightarrow>
         (case as_validation_digest r of
           Some existing \<Rightarrow>
             (if existing \<noteq> digest
              then (Inl (ImmutableAttemptError ''validation digest cannot be replaced''), s)
              else if passed \<and> as_status r \<notin> {AS_VALIDATING, AS_ACCEPTED, AS_SUPERSEDED}
              then (Inl (AttemptConflictError ''validation result cannot change from failed to passed''), s)
              else if \<not> passed \<and> as_status r \<noteq> AS_REJECTED
              then (Inl (AttemptConflictError ''validation result cannot change from passed to failed''), s)
              else result_of s (mk_attempt_snapshot r))
         | None \<Rightarrow>
             (if as_status r \<noteq> AS_OUTPUT_RECEIVED
              then (Inl (InvalidAttemptTransition ''validation requires an output-received attempt''), s)
              else andthen
                (transition E aid AS_OUTPUT_RECEIVED AS_VALIDATING occ ''validation_started''
                   (put_rec aid (r\<lparr>as_validation_digest := Some digest\<rparr>) st, oj))
                (\<lambda>started s1.
                  if passed then result_of s1 (Inr started)
                  else andthen
                    (transition E aid AS_VALIDATING AS_REJECTED occ failure_reason s1)
                    (\<lambda>snap (st', oj'). with_events st' snap (emit_all E
                       [(''attempt.validation.failed.v1'', aid,
                         [(''validation_sha256'', PStr digest), (''reason'', PStr failure_reason)],
                         occ, ''validation-failed:'' @ aid @ '':'' @ digest),
                        (''attempt.rejected.v1'', aid, [(''reason'', PStr failure_reason)],
                         occ, ''attempt-rejected:'' @ aid @ '':'' @ digest)] oj')))))))"

definition remember_acceptance :: "string \<Rightarrow> string \<Rightarrow> acceptance_result \<Rightarrow> attempt_store \<Rightarrow> attempt_store" where
  "remember_acceptance key aid res st =
     st\<lparr>st_acceptance_keys := (st_acceptance_keys st)(key \<mapsto> (aid, res))\<rparr>"

definition accept ::
  "renv \<Rightarrow> string \<Rightarrow> datetime \<Rightarrow> string \<Rightarrow> astate \<Rightarrow> (astate, acceptance_result) outcome" where
  "accept E aid occ key s =
    (case s of (st, oj) \<Rightarrow>
     (case rec_of st aid of
       None \<Rightarrow> (Inl (AttemptNotFoundError aid), s)
     | Some r \<Rightarrow>
     (case st_acceptance_keys st key of
       Some (keyed_attempt, keyed_result) \<Rightarrow>
         (if keyed_attempt \<noteq> aid
          then (Inl (AttemptConflictError ''acceptance key reused for another attempt''), s)
          else (Inr keyed_result, s))
     | None \<Rightarrow>
     (if as_status r = AS_ACCEPTED
      then (case mk_attempt_snapshot r of
              Inl e \<Rightarrow> (Inl e, s)
            | Inr snap \<Rightarrow>
                let res = \<lparr>ac_winner = snap, ac_challenger = None, ac_accepted_new = False\<rparr>
                in (Inr res, (remember_acceptance key aid res st, oj)))
      else if as_status r \<noteq> AS_VALIDATING \<or> as_validation_digest r = None
      then (Inl (InvalidAttemptTransition ''only a validated hard-gate-passing attempt can win''), s)
      else (case st_accepted_by_shard st (shard_of r) of
        Some existing_id \<Rightarrow>
          (case rec_of st existing_id of
            None \<Rightarrow> (Inl (KeyError existing_id), s)
          | Some existing \<Rightarrow>
              andthen
                (transition E aid AS_VALIDATING AS_SUPERSEDED occ ''first_verified_result_already_accepted'' s)
                (\<lambda>challenger (st', oj').
                  (case mk_attempt_snapshot (case rec_of st' existing_id of
                      None \<Rightarrow> existing | Some now \<Rightarrow> now) of
                    Inl e \<Rightarrow> (Inl e, (st', oj'))
                  | Inr winner \<Rightarrow>
                      let res = \<lparr>ac_winner = winner, ac_challenger = Some challenger, ac_accepted_new = False\<rparr>
                      in (Inr res, (remember_acceptance key aid res st', oj')))))
      | None \<Rightarrow>
          andthen
            (transition E aid AS_VALIDATING AS_ACCEPTED occ ''hard_gates_passed_and_arbitrated'' s)
            (\<lambda>winner (st', oj').
              let res = \<lparr>ac_winner = winner, ac_challenger = None, ac_accepted_new = True\<rparr>;
                  st'' = remember_acceptance key aid res
                    (st'\<lparr>st_accepted_by_shard := (st_accepted_by_shard st')(shard_of r \<mapsto> aid)\<rparr>)
              in with_events st'' res (emit_all E
                   [(''attempt.accepted.v1'', aid,
                     [(''shard_id'', PStr (shard_of r)),
                      (''validation_sha256'', (case as_validation_digest r of
                         None \<Rightarrow> PNone | Some d \<Rightarrow> PStr d))],
                     occ, ''attempt-accepted:'' @ shard_of r @ '':'' @ aid)] oj')))))))"

definition quarantine_attempt ::
  "renv \<Rightarrow> string \<Rightarrow> datetime \<Rightarrow> string \<Rightarrow> astate \<Rightarrow> (astate, attempt_snapshot) outcome" where
  "quarantine_attempt E aid occ reason s =
    (case rec_of (fst s) aid of
      None \<Rightarrow> (Inl (AttemptNotFoundError aid), s)
    | Some r \<Rightarrow>
        (if as_status r = AS_QUARANTINED then result_of s (mk_attempt_snapshot r)
         else if AS_QUARANTINED \<notin> set (allowed (as_status r))
         then (Inl (InvalidAttemptTransition ''attempt cannot be quarantined''), s)
         else transition E aid (as_status r) AS_QUARANTINED occ reason s))"

section \<open>Calls and runs\<close>

text \<open>One client call of the store, its reply dropped; a run is \<open>run_ops\<close> over a list of calls.\<close>

datatype attempt_call =
    CreateRoot string dispatch_spec datetime
  | CreateChild string child_spec string datetime
  | Transition string attempt_status attempt_status datetime string
  | AttachOutput string attempt_output string
  | RecordValidation string string bool datetime string
  | Accept string datetime string
  | Quarantine string datetime string

fun call :: "renv \<Rightarrow> attempt_call \<Rightarrow> astate \<Rightarrow> (astate, unit) outcome" where
  "call E (CreateRoot key d t) s = forget (create_root E key d t s)"
| "call E (CreateChild pid c key t) s = forget (create_child E pid c key t s)"
| "call E (Transition aid ex to t reason) s = forget (transition E aid ex to t reason s)"
| "call E (AttachOutput aid out key) s = forget (attach_output E aid out key s)"
| "call E (RecordValidation aid d p t reason) s = forget (record_validation E aid d p t reason s)"
| "call E (Accept aid t key) s = forget (accept E aid t key s)"
| "call E (Quarantine aid t reason) s = forget (quarantine_attempt E aid t reason s)"

text \<open>
  Calls like the coordinator's: an attempt enters VALIDATING only through \<open>record_validation\<close> and
  ACCEPTED only through \<open>accept\<close>, validation digests are SHA-256 hex strings, and the reason given
  for a failed validation is one a transition accepts.
\<close>

fun disciplined :: "attempt_call \<Rightarrow> bool" where
  "disciplined (Transition aid ex to t reason) \<longleftrightarrow> to \<notin> {AS_VALIDATING, AS_ACCEPTED}"
| "disciplined (RecordValidation aid d p t reason) \<longleftrightarrow> is_sha256 d \<and> (p \<or> identifier_ok reason)"
| "disciplined _ \<longleftrightarrow> True"

section \<open>The effect of one transition\<close>

definition can_move :: "attempt_snapshot \<Rightarrow> attempt_status \<Rightarrow> attempt_status \<Rightarrow> datetime \<Rightarrow> bool" where
  "can_move r ex to occ \<longleftrightarrow> as_status r = ex \<and> to \<in> set (allowed ex) \<and> is_aware occ
     \<and> dt_less occ (at_occurred_at (last (as_transitions r))) = Inr False"

lemma mk_snapshot_Inr: "mk_attempt_snapshot r = Inr x \<Longrightarrow> x = r"
  unfolding mk_attempt_snapshot_def require_all_Inr_iff by simp

lemma mk_transition_Inr:
  "mk_attempt_transition t = Inr u \<longleftrightarrow>
     u = t \<and> 1 \<le> at_sequence t \<and> is_aware (at_occurred_at t) \<and> identifier_ok (at_reason_code t)"
  unfolding mk_attempt_transition_def require_all_Inr_iff by simp

lemma transition_cases:
  assumes "transition E aid ex to occ reason (st, oj) = (res, (st', oj'))"
  shows "(\<exists>e. res = Inl e \<and> st' = st \<and> oj' = oj) \<or>
    (\<exists>r. rec_of st aid = Some r \<and> can_move r ex to occ \<and>
      st' = release_shard aid ex to (shard_of r) (put_rec aid (moved r to occ reason) st) \<and>
      (res = Inr (moved r to occ reason) \<or> (\<exists>e. res = Inl e)) \<and>
      (mk_attempt_snapshot (moved r to occ reason) = Inr (moved r to occ reason) \<longrightarrow> to \<noteq> AS_RUNNING
        \<longrightarrow> res = Inr (moved r to occ reason)))"
proof (cases "rec_of st aid")
  case None
  with assms show ?thesis by (auto simp: transition_def)
next
  case (Some r)
  show ?thesis
  proof (cases "as_status r = ex \<and> to \<in> set (allowed ex)
      \<and> dt_less occ (at_occurred_at (last (as_transitions r))) = Inr False
      \<and> mk_attempt_transition (trans_of r to occ reason) = Inr (trans_of r to occ reason)")
    case False
    have "\<exists>e. res = Inl e \<and> st' = st \<and> oj' = oj"
      using assms Some False mk_transition_Inr [of "trans_of r to occ reason"]
      by (simp add: transition_def split: if_split_asm sum.split_asm bool.split_asm) blast+
    then show ?thesis by blast
  next
    case True
    then have aw: "is_aware occ"
      by (simp add: mk_transition_Inr trans_of_def)
    obtain rs where out: "(case mk_attempt_snapshot (moved r to occ reason) of
          Inl e \<Rightarrow> (Inl e, (release_shard aid ex to (shard_of r) (put_rec aid (moved r to occ reason) st), oj))
        | Inr snap \<Rightarrow> with_events (release_shard aid ex to (shard_of r) (put_rec aid (moved r to occ reason) st))
            snap (emit_all E (if to = AS_RUNNING then rs else []) oj)) = (res, (st', oj'))"
      using True Some assms by (auto simp: transition_def Let_def)
    let ?m = "moved r to occ reason"
    let ?st = "release_shard aid ex to (shard_of r) (put_rec aid ?m st)"
    have "st' = ?st \<and> (res = Inr ?m \<or> (\<exists>e. res = Inl e))
      \<and> (mk_attempt_snapshot ?m = Inr ?m \<longrightarrow> to \<noteq> AS_RUNNING \<longrightarrow> res = Inr ?m)"
    proof (cases "mk_attempt_snapshot ?m")
      case (Inl e)
      with out have "res = Inl e" "st' = ?st" by simp_all
      with Inl show ?thesis by simp
    next
      case (Inr x)
      then have "x = ?m" by (rule mk_snapshot_Inr)
      with Inr out have we: "with_events ?st ?m (emit_all E (if to = AS_RUNNING then rs else []) oj) = (res, (st', oj'))"
        by simp
      from with_events_eqD [OF this] we show ?thesis by (auto simp: with_events_def)
    qed
    with True Some aw show ?thesis unfolding can_move_def by blast
  qed
qed

section \<open>The store as a step relation\<close>

text \<open>
  Every call is a sequence of the following steps of the store. \<open>strict\<close> restricts the steps to
  those that disciplined calls make: no transition into ACCEPTED outside \<open>accept\<close>, digests
  well-formed.
\<close>

inductive micro :: "bool \<Rightarrow> attempt_store \<Rightarrow> attempt_store \<Rightarrow> bool" for strict where
  m_create: "rec_of st (pa_attempt_id a) = None \<Longrightarrow> mk_parse_attempt a = Inr a \<Longrightarrow>
    micro strict st ((put_rec (pa_attempt_id a)
        \<lparr>as_attempt = a, as_status = AS_CREATED, as_output = None, as_validation_digest = None,
         as_transitions = [\<lparr>at_sequence = 1, at_from_status = None, at_to_status = AS_CREATED,
           at_occurred_at = pa_created_at a, at_reason_code = ''attempt_created''\<rparr>]\<rparr> st)
      \<lparr>st_creation_keys := (st_creation_keys st)(key \<mapsto> pa_attempt_id a)\<rparr>)"
| m_move: "rec_of st aid = Some r \<Longrightarrow> can_move r ex to occ \<Longrightarrow> (strict \<Longrightarrow> to \<noteq> AS_ACCEPTED) \<Longrightarrow>
    micro strict st (release_shard aid ex to (shard_of r) (put_rec aid (moved r to occ reason) st))"
| m_output: "rec_of st aid = Some r \<Longrightarrow> as_output r = None \<Longrightarrow>
    micro strict st (put_rec aid (r\<lparr>as_output := Some out\<rparr>) st)"
| m_digest: "rec_of st aid = Some r \<Longrightarrow> as_validation_digest r = None \<Longrightarrow> (strict \<Longrightarrow> is_sha256 d) \<Longrightarrow>
    micro strict st (put_rec aid (r\<lparr>as_validation_digest := Some d\<rparr>) st)"
| m_win: "rec_of st aid = Some r \<Longrightarrow> can_move r AS_VALIDATING AS_ACCEPTED occ \<Longrightarrow>
    as_validation_digest r \<noteq> None \<Longrightarrow> st_accepted_by_shard st (shard_of r) = None \<Longrightarrow>
    micro strict st ((put_rec aid (moved r AS_ACCEPTED occ reason) st)
      \<lparr>st_accepted_by_shard := (st_accepted_by_shard st)(shard_of r \<mapsto> aid)\<rparr>)"
| m_remember: "st_acceptance_keys st key = None \<Longrightarrow> micro strict st (remember_acceptance key aid res st)"

abbreviation micros :: "bool \<Rightarrow> attempt_store \<Rightarrow> attempt_store \<Rightarrow> bool" where
  "micros strict \<equiv> (micro strict)\<^sup>*\<^sup>*"

definition digests_ok :: "attempt_store \<Rightarrow> bool" where
  "digests_ok st \<longleftrightarrow> (\<forall>aid r d. rec_of st aid = Some r \<longrightarrow> as_validation_digest r = Some d \<longrightarrow> is_sha256 d)"

lemma put_rec_simps [simp]:
  "st_records (put_rec aid r st) = AList.update aid r (st_records st)"
  "st_creation_keys (put_rec aid r st) = st_creation_keys st"
  "st_acceptance_keys (put_rec aid r st) = st_acceptance_keys st"
  "st_accepted_by_shard (put_rec aid r st) = st_accepted_by_shard st"
  by (simp_all add: put_rec_def)

lemma release_shard_simps [simp]:
  "st_records (release_shard aid ex to sh st) = st_records st"
  "st_creation_keys (release_shard aid ex to sh st) = st_creation_keys st"
  "st_acceptance_keys (release_shard aid ex to sh st) = st_acceptance_keys st"
  by (simp_all add: release_shard_def)

lemma remember_simps [simp]:
  "st_records (remember_acceptance key aid res st) = st_records st"
  "st_creation_keys (remember_acceptance key aid res st) = st_creation_keys st"
  "st_accepted_by_shard (remember_acceptance key aid res st) = st_accepted_by_shard st"
  "st_acceptance_keys (remember_acceptance key aid res st) = (st_acceptance_keys st)(key \<mapsto> (aid, res))"
  by (simp_all add: remember_acceptance_def)

lemma transition_micro:
  assumes "transition E aid ex to occ reason (st, oj) = (res, (st', oj'))"
    and "strict \<Longrightarrow> to \<noteq> AS_ACCEPTED"
  shows "micros strict st st'"
proof (cases "st' = st")
  case False
  with transition_cases [OF assms(1)] obtain r where
    "rec_of st aid = Some r" "can_move r ex to occ"
    "st' = release_shard aid ex to (shard_of r) (put_rec aid (moved r to occ reason) st)"
    by blast
  with assms(2) show ?thesis by (metis m_move r_into_rtranclp)
qed simp

lemma create_attempt_micro:
  assumes "create_attempt E a key (st, oj) = (res, (st', oj'))" and "mk_parse_attempt a = Inr a"
  shows "micros strict st st'"
proof (cases "st' = st")
  case False
  with assms(1) have new: "st_creation_keys st key = None" "rec_of st (pa_attempt_id a) = None"
    by (auto simp: create_attempt_def split: option.split_asm if_split_asm)
  with False assms(1)
  have "st' = (put_rec (pa_attempt_id a)
        \<lparr>as_attempt = a, as_status = AS_CREATED, as_output = None, as_validation_digest = None,
         as_transitions = [\<lparr>at_sequence = 1, at_from_status = None, at_to_status = AS_CREATED,
           at_occurred_at = pa_created_at a, at_reason_code = ''attempt_created''\<rparr>]\<rparr> st)
      \<lparr>st_creation_keys := (st_creation_keys st)(key \<mapsto> pa_attempt_id a)\<rparr>"
    by (auto simp: create_attempt_def Let_def mk_transition_Inr split: sum.split_asm)
  with m_create [OF new(2) assms(2)] show ?thesis by (metis r_into_rtranclp)
qed simp

lemma create_root_micro:
  assumes "create_root E key d t (st, oj) = (res, (st', oj'))"
  shows "micros strict st st'"
proof (cases "mk_parse_attempt (root_attempt E key d t)")
  case (Inl e)
  with assms show ?thesis by (simp add: create_root_def)
next
  case (Inr a)
  then have "mk_parse_attempt a = Inr a"
    unfolding mk_parse_attempt_def require_all_Inr_iff by metis
  with Inr assms create_attempt_micro show ?thesis by (simp add: create_root_def)
qed

lemma create_child_micro:
  assumes "create_child E pid c key t (st, oj) = (res, (st', oj'))"
  shows "micros strict st st'"
proof (cases "st' = st")
  case False
  with assms obtain p where p: "rec_of st pid = Some p" "cs_kind c \<noteq> AK_PRIMARY"
    by (auto simp: create_child_def split: if_split_asm option.split_asm)
  with False assms obtain a where
      "mk_parse_attempt (child_attempt E pid key c t (as_attempt p)) = Inr a"
    and c: "create_attempt E a key (st, oj) = (res, (st', oj'))"
    by (auto simp: create_child_def split: sum.split_asm bool.split_asm)
  then have "mk_parse_attempt a = Inr a"
    unfolding mk_parse_attempt_def require_all_Inr_iff by metis
  with c create_attempt_micro show ?thesis by blast
qed simp

lemma attach_output_micro:
  assumes "attach_output E aid out key (st, oj) = (res, (st', oj'))"
  shows "micros strict st st'"
proof (cases "st' = st")
  case False
  with assms obtain r where r: "rec_of st aid = Some r" and no: "as_output r = None"
    by (auto simp: attach_output_def split: option.split_asm if_split_asm)
  define st1 where "st1 = put_rec aid (r\<lparr>as_output := Some out\<rparr>) st"
  obtain x st2 oj2 where
    t: "transition E aid AS_RUNNING AS_OUTPUT_RECEIVED (ao_completed_at out) ''output_received'' (st1, oj) = (x, (st2, oj2))"
    by (metis prod.exhaust)
  have "st' = st2"
    using assms False r no t
    by (cases x) (auto simp: attach_output_def st1_def split: if_split_asm dest!: with_events_eqD)
  moreover have "micros strict st1 st2" by (rule transition_micro [OF t]) simp
  moreover have "micro strict st st1" unfolding st1_def by (rule m_output [OF r no])
  ultimately show ?thesis by (metis converse_rtranclp_into_rtranclp)
qed simp

lemma record_validation_micro:
  assumes "record_validation E aid d p t reason (st, oj) = (res, (st', oj'))"
    and "strict \<Longrightarrow> is_sha256 d"
  shows "micros strict st st'"
proof (cases "st' = st")
  case False
  with assms(1) obtain r where r: "rec_of st aid = Some r" and no: "as_validation_digest r = None"
    by (auto simp: record_validation_def split: option.split_asm if_split_asm)
  define st1 where "st1 = put_rec aid (r\<lparr>as_validation_digest := Some d\<rparr>) st"
  obtain x st2 oj2 where
    t2: "transition E aid AS_OUTPUT_RECEIVED AS_VALIDATING t ''validation_started'' (st1, oj) = (x, (st2, oj2))"
    by (metis prod.exhaust)
  obtain y st3 oj3 where
    t3: "transition E aid AS_VALIDATING AS_REJECTED t reason (st2, oj2) = (y, (st3, oj3))"
    by (metis prod.exhaust)
  have "st' = st2 \<or> st' = st3"
    using assms(1) False r no t2 t3
    by (cases x; cases y)
      (auto simp: record_validation_def st1_def split: if_split_asm dest!: with_events_eqD)
  moreover have "micros strict st1 st2" "micros strict st2 st3"
    by (rule transition_micro [OF t2], simp) (rule transition_micro [OF t3], simp)
  moreover have "micro strict st st1"
    unfolding st1_def using r no assms(2) by (rule m_digest)
  ultimately show ?thesis by (metis converse_rtranclp_into_rtranclp rtranclp_trans)
qed simp

lemma snapshot_of_moved:
  "digests_ok st \<Longrightarrow> rec_of st aid = Some r \<Longrightarrow>
   mk_attempt_snapshot (moved r to occ reason) = Inr (moved r to occ reason)"
  by (auto simp: mk_attempt_snapshot_def require_all_Inr_iff digests_ok_def trans_of_def
      simp del: require_all.simps split: option.split)

lemma micros_remember:
  "micros strict st st1 \<Longrightarrow> st_acceptance_keys st1 key = None \<Longrightarrow>
   micros strict st (remember_acceptance key aid res st1)"
  by (erule rtranclp.rtrancl_into_rtrancl) (rule m_remember)

lemma accept_micro:
  assumes acc: "accept E aid occ key (st, oj) = (res, (st', oj'))"
    and dok: "strict \<Longrightarrow> digests_ok st"
  shows "micros strict st st'"
proof (cases "st' = st")
  case False
  from False acc obtain r where r: "rec_of st aid = Some r" and nk: "st_acceptance_keys st key = None"
    by (auto simp: accept_def split: option.split_asm if_split_asm prod.split_asm)
  show ?thesis
  proof (cases "as_status r = AS_ACCEPTED")
    case True
    with acc r nk False obtain res where "st' = remember_acceptance key aid res st"
      by (auto simp: accept_def Let_def split: sum.split_asm)
    with nk micros_remember show ?thesis by blast
  next
    case na: False
    with acc r nk False have v: "as_status r = AS_VALIDATING" and d: "as_validation_digest r \<noteq> None"
      by (auto simp: accept_def split: if_split_asm)
    show ?thesis
    proof (cases "st_accepted_by_shard st (shard_of r)")
      case (Some ex_id)
      with acc r nk na v d False obtain ex where ex: "rec_of st ex_id = Some ex"
        by (auto simp: accept_def split: option.split_asm)
      obtain x st2 oj2 where t: "transition E aid AS_VALIDATING AS_SUPERSEDED occ
          ''first_verified_result_already_accepted'' (st, oj) = (x, (st2, oj2))"
        by (metis prod.exhaust)
      have t2: "micros strict st st2" by (rule transition_micro [OF t]) simp
      have nk2: "st_acceptance_keys st2 key = None"
        using transition_cases [OF t] nk by auto
      have "st' = st2 \<or> (\<exists>res. st' = remember_acceptance key aid res st2)"
        using acc r nk na v d Some ex t
        by (cases x) (auto simp: accept_def Let_def split: sum.split_asm)
      with t2 nk2 micros_remember show ?thesis by blast
    next
      case None
      obtain x st2 oj2 where t: "transition E aid AS_VALIDATING AS_ACCEPTED occ
          ''hard_gates_passed_and_arbitrated'' (st, oj) = (x, (st2, oj2))"
        by (metis prod.exhaust)
      let ?m = "moved r AS_ACCEPTED occ ''hard_gates_passed_and_arbitrated''"
      let ?w = "(put_rec aid ?m st)
        \<lparr>st_accepted_by_shard := (st_accepted_by_shard st)(shard_of r \<mapsto> aid)\<rparr>"
      have st': "st' = st2" if "x = Inl e" for e
        using acc r nk na v d None t that by (auto simp: accept_def)
      from transition_cases [OF t] r have "st2 = st \<and> (\<exists>e. x = Inl e) \<or>
          can_move r AS_VALIDATING AS_ACCEPTED occ \<and> st2 = put_rec aid ?m st \<and>
          (x = Inr ?m \<or> (\<exists>e. x = Inl e)) \<and> (mk_attempt_snapshot ?m = Inr ?m \<longrightarrow> x = Inr ?m)"
        by (auto simp: release_shard_def)
      with st' False have cm: "can_move r AS_VALIDATING AS_ACCEPTED occ"
        and st2: "st2 = put_rec aid ?m st" and x: "x = Inr ?m \<or> (\<exists>e. x = Inl e)"
        and ok: "mk_attempt_snapshot ?m = Inr ?m \<longrightarrow> x = Inr ?m"
        by blast+
      show ?thesis
      proof (cases "x = Inr ?m")
        case True
        have "\<exists>res. st' = remember_acceptance key aid res ?w"
          using acc r nk na v d None t True st2
          by (auto simp: accept_def Let_def put_rec_def dest!: with_events_eqD)
        moreover have "micros strict st ?w" using m_win [OF r cm d None] by (rule r_into_rtranclp)
        moreover have "st_acceptance_keys ?w key = None" using nk by simp
        ultimately show ?thesis using micros_remember by blast
      next
        case False
        then have ns: "\<not> strict" using ok dok snapshot_of_moved [OF _ r] by blast
        from False x st' have "st' = st2" by blast
        with transition_micro [OF t] ns show ?thesis by blast
      qed
    qed
  qed
qed simp

lemma quarantine_micro:
  assumes "quarantine_attempt E aid occ reason (st, oj) = (res, (st', oj'))"
  shows "micros strict st st'"
proof (cases "st' = st")
  case False
  with assms obtain r where "rec_of st aid = Some r"
    by (auto simp: quarantine_attempt_def split: option.split_asm)
  with False assms have
    "transition E aid (as_status r) AS_QUARANTINED occ reason (st, oj) = (res, (st', oj'))"
    by (auto simp: quarantine_attempt_def split: if_split_asm)
  then show ?thesis by (rule transition_micro) simp
qed simp

lemma call_micro:
  assumes "call E c (st, oj) = (res, (st', oj'))" and "strict \<Longrightarrow> disciplined c \<and> digests_ok st"
  shows "micros strict st st'"
proof -
  have snd: "snd (call E c (st, oj)) = (st', oj')" using assms(1) by simp
  show ?thesis
  proof (cases c)
    case (CreateRoot k d t)
    with snd create_root_micro show ?thesis by (cases "create_root E k d t (st, oj)") auto
  next
    case (CreateChild p c k t)
    with snd create_child_micro show ?thesis by (cases "create_child E p c k t (st, oj)") auto
  next
    case (Transition a ex to t r)
    with snd assms(2) transition_micro show ?thesis
      by (cases "transition E a ex to t r (st, oj)") auto
  next
    case (AttachOutput a out k)
    with snd attach_output_micro show ?thesis by (cases "attach_output E a out k (st, oj)") auto
  next
    case (RecordValidation a d p t r)
    with snd assms(2) record_validation_micro show ?thesis
      by (cases "record_validation E a d p t r (st, oj)") auto
  next
    case (Accept a t k)
    with snd assms(2) accept_micro show ?thesis by (cases "accept E a t k (st, oj)") auto
  next
    case (Quarantine a t r)
    with snd quarantine_micro show ?thesis by (cases "quarantine_attempt E a t r (st, oj)") auto
  qed
qed

section \<open>Invariants\<close>

subsection \<open>Attempt lineage is append-only\<close>

definition rec_le :: "attempt_snapshot \<Rightarrow> attempt_snapshot \<Rightarrow> bool" where
  "rec_le r r' \<longleftrightarrow> as_attempt r' = as_attempt r
     \<and> (as_output r \<noteq> None \<longrightarrow> as_output r' = as_output r)
     \<and> (as_validation_digest r \<noteq> None \<longrightarrow> as_validation_digest r' = as_validation_digest r)
     \<and> (\<exists>ts. as_transitions r' = as_transitions r @ ts)"

definition store_le :: "attempt_store \<Rightarrow> attempt_store \<Rightarrow> bool" where
  "store_le st st' \<longleftrightarrow>
     (\<forall>aid r. rec_of st aid = Some r \<longrightarrow> (\<exists>r'. rec_of st' aid = Some r' \<and> rec_le r r'))
     \<and> (\<forall>k v. st_acceptance_keys st k = Some v \<longrightarrow> st_acceptance_keys st' k = Some v)"

lemma store_le_rec: "store_le st st' \<Longrightarrow> rec_of st aid \<noteq> None \<Longrightarrow> rec_of st' aid \<noteq> None"
  by (auto simp: store_le_def) blast

lemma store_le_key:
  "store_le st st' \<Longrightarrow> st_acceptance_keys st k = Some v \<Longrightarrow> st_acceptance_keys st' k = Some v"
  unfolding store_le_def by blast

lemma rec_le_refl [simp]: "rec_le r r"
  by (simp add: rec_le_def)

lemma rec_le_trans: "rec_le a b \<Longrightarrow> rec_le b c \<Longrightarrow> rec_le a c"
  by (auto simp: rec_le_def)

lemma store_le_refl [simp]: "store_le st st"
  by (auto simp: store_le_def)

lemma store_le_trans: "store_le a b \<Longrightarrow> store_le b c \<Longrightarrow> store_le a c"
  by (fastforce simp: store_le_def intro: rec_le_trans)

lemma micro_store_le: "micro strict st st' \<Longrightarrow> store_le st st'"
proof (induction rule: micro.induct)
  case (m_move st aid r ex to occ reason)
  have "rec_le r (moved r to occ reason)" by (simp add: rec_le_def)
  with m_move show ?case by (auto simp: store_le_def)
next
  case (m_win st aid r occ reason)
  have "rec_le r (moved r AS_ACCEPTED occ reason)" by (simp add: rec_le_def)
  with m_win show ?case by (auto simp: store_le_def)
qed (auto simp: store_le_def rec_le_def)

lemma micros_store_le: "micros strict st st' \<Longrightarrow> store_le st st'"
  by (induction rule: rtranclp_induct) (auto intro: store_le_trans micro_store_le)

subsection \<open>Lifecycles follow the transition table\<close>

abbreviation moves :: "attempt_status \<Rightarrow> attempt_status \<Rightarrow> bool" where
  "moves a b \<equiv> b \<in> set (allowed a)"

fun status_rank :: "attempt_status \<Rightarrow> nat" where
  "status_rank AS_CREATED = 0"
| "status_rank AS_QUEUED = 1"
| "status_rank AS_RUNNING = 2"
| "status_rank AS_OUTPUT_RECEIVED = 3"
| "status_rank AS_VALIDATING = 4"
| "status_rank AS_ACCEPTED = 5"
| "status_rank _ = 6"

interpretation lifecycle: ranked_machine status_rank moves 6
proof
  fix a b assume "moves a b"
  then show "status_rank a < status_rank b" by (cases a) auto
next
  fix a show "status_rank a \<le> 6" by (cases a) auto
qed

definition history_ok :: "attempt_snapshot \<Rightarrow> bool" where
  "history_ok r \<longleftrightarrow>
     as_transitions r \<noteq> [] \<and> at_to_status (hd (as_transitions r)) = AS_CREATED
     \<and> at_to_status (last (as_transitions r)) = as_status r
     \<and> successively moves (map at_to_status (as_transitions r))
     \<and> successively (\<lambda>t u. at_from_status u = Some (at_to_status t)) (as_transitions r)
     \<and> map at_sequence (as_transitions r) = [1..<Suc (length (as_transitions r))]
     \<and> (\<forall>t \<in> set (as_transitions r). is_aware (at_occurred_at t))
     \<and> sorted (map (instant \<circ> at_occurred_at) (as_transitions r))"

definition rec_wf :: "string \<Rightarrow> attempt_snapshot \<Rightarrow> bool" where
  "rec_wf aid r \<longleftrightarrow> mk_parse_attempt (as_attempt r) = Inr (as_attempt r)
     \<and> pa_attempt_id (as_attempt r) = aid \<and> history_ok r"

definition store_wf :: "attempt_store \<Rightarrow> bool" where
  "store_wf st \<longleftrightarrow> (\<forall>aid r. rec_of st aid = Some r \<longrightarrow> rec_wf aid r)
     \<and> (\<forall>k aid. st_creation_keys st k = Some aid \<longrightarrow> rec_of st aid \<noteq> None)"

lemma can_move_not_created: "can_move r ex to occ \<Longrightarrow> to \<noteq> AS_CREATED"
  by (cases ex) (auto simp: can_move_def)

lemma history_ok_moved:
  assumes h: "history_ok r" and m: "can_move r ex to occ"
  shows "history_ok (moved r to occ reason)"
proof -
  from h have ne: "as_transitions r \<noteq> []" and l: "at_to_status (last (as_transitions r)) = as_status r"
    and la: "is_aware (at_occurred_at (last (as_transitions r)))"
    and srt: "sorted (map (instant \<circ> at_occurred_at) (as_transitions r))"
    by (auto simp: history_ok_def)
  from m have aw: "is_aware occ" and mv: "moves (as_status r) to"
    and lt: "dt_less occ (at_occurred_at (last (as_transitions r))) = Inr False"
    by (auto simp: can_move_def)
  from lt la aw have "instant (at_occurred_at (last (as_transitions r))) \<le> instant occ"
    by simp
  then have "sorted (map (instant \<circ> at_occurred_at) (as_transitions r @ [trans_of r to occ reason]))"
    using srt by (intro sorted_snoc_last) (auto simp: trans_of_def)
  moreover have "successively moves (map at_to_status (as_transitions r) @ [to])"
    using h ne l mv by (auto simp: history_ok_def successively_append_iff last_map)
  ultimately show ?thesis
    using h ne l aw by (auto simp: history_ok_def trans_of_def successively_append_iff)
qed

lemma micro_store_wf: "micro strict st st' \<Longrightarrow> store_wf st \<Longrightarrow> store_wf st'"
proof (induction rule: micro.induct)
  case (m_create st a key)
  then have "is_aware (pa_created_at a)"
    unfolding mk_parse_attempt_def require_all_Inr_iff by simp
  with m_create show ?case
    by (auto simp: store_wf_def rec_wf_def history_ok_def)
next
  case (m_move st aid r ex to occ reason)
  then have "rec_wf aid (moved r to occ reason)"
    using history_ok_moved by (auto simp: store_wf_def rec_wf_def)
  with m_move show ?case by (auto simp: store_wf_def)
next
  case (m_win st aid r occ reason)
  then have "rec_wf aid (moved r AS_ACCEPTED occ reason)"
    using history_ok_moved by (auto simp: store_wf_def rec_wf_def)
  with m_win show ?case by (auto simp: store_wf_def)
next
  case (m_output st aid r out)
  then have "rec_wf aid (r\<lparr>as_output := Some out\<rparr>)"
    by (auto simp: store_wf_def rec_wf_def history_ok_def)
  with m_output show ?case by (auto simp: store_wf_def)
next
  case (m_digest st aid r d)
  then have "rec_wf aid (r\<lparr>as_validation_digest := Some d\<rparr>)"
    by (auto simp: store_wf_def rec_wf_def history_ok_def)
  with m_digest show ?case by (auto simp: store_wf_def)
next
  case (m_remember st key aid res)
  then show ?case by (auto simp: store_wf_def)
qed

subsection \<open>First verified wins\<close>

definition acceptance_inv :: "attempt_store \<Rightarrow> bool" where
  "acceptance_inv st \<longleftrightarrow> digests_ok st \<and>
     (\<forall>shard aid. st_accepted_by_shard st shard = Some aid \<longleftrightarrow>
        (\<exists>r. rec_of st aid = Some r \<and> as_status r = AS_ACCEPTED \<and> shard_of r = shard))
     \<and> (\<forall>aid r. rec_of st aid = Some r \<longrightarrow> as_status r = AS_ACCEPTED \<longrightarrow> as_validation_digest r \<noteq> None)"

lemma micro_acceptance_inv: "micro strict st st' \<Longrightarrow> strict \<Longrightarrow> acceptance_inv st \<Longrightarrow> acceptance_inv st'"
proof (induction rule: micro.induct)
  case (m_create st a key)
  then show ?case by (auto simp: acceptance_inv_def digests_ok_def)
next
  case (m_move st aid r ex to occ reason)
  then have acc: "st_accepted_by_shard st sh = Some x \<longleftrightarrow>
      (\<exists>r. rec_of st x = Some r \<and> as_status r = AS_ACCEPTED \<and> shard_of r = sh)" for sh x
    by (simp add: acceptance_inv_def)
  have ex: "as_status r = ex" and mv: "moves ex to" using m_move by (auto simp: can_move_def)
  have to: "to \<noteq> AS_ACCEPTED" using m_move by blast
  have sup: "to \<in> {AS_SUPERSEDED, AS_QUARANTINED}" if "ex = AS_ACCEPTED" using mv that by auto
  let ?st' = "release_shard aid ex to (shard_of r) (put_rec aid (moved r to occ reason) st)"
  have own: "sh = shard_of r \<and> ex = AS_ACCEPTED" if "st_accepted_by_shard st sh = Some aid" for sh
    using acc [of sh aid] that m_move(1) ex by simp
  have rel: "st_accepted_by_shard ?st' sh = Some x \<longleftrightarrow> st_accepted_by_shard st sh = Some x \<and> x \<noteq> aid" for sh x
  proof (cases "ex = AS_ACCEPTED")
    case True
    then have "st_accepted_by_shard st (shard_of r) = Some aid"
      using acc [of "shard_of r" aid] m_move(1) ex by simp
    with True sup have "st_accepted_by_shard ?st' = (st_accepted_by_shard st)(shard_of r := None)"
      by (simp add: release_shard_def)
    with \<open>st_accepted_by_shard st (shard_of r) = Some aid\<close> own [of sh] show ?thesis
      by (metis fun_upd_apply option.distinct(1) option.inject)
  next
    case False
    then have "st_accepted_by_shard ?st' = st_accepted_by_shard st"
      by (simp add: release_shard_def)
    with own [of sh] False show ?thesis by auto
  qed
  have dig: "digests_ok ?st'" using m_move by (auto simp: acceptance_inv_def digests_ok_def)
  have "st_accepted_by_shard ?st' sh = Some x \<longleftrightarrow>
      (\<exists>r. rec_of ?st' x = Some r \<and> as_status r = AS_ACCEPTED \<and> shard_of r = sh)" for sh x
    using rel [of sh x] acc [of sh x] to by (cases "x = aid") simp_all
  moreover have "as_validation_digest y \<noteq> None"
    if "rec_of ?st' x = Some y" "as_status y = AS_ACCEPTED" for x y
    using that to m_move(4,5) by (cases "x = aid") (auto simp: acceptance_inv_def)
  ultimately show ?case using dig unfolding acceptance_inv_def by blast
next
  case (m_win st aid r occ reason)
  then have "\<not> (\<exists>y. rec_of st x = Some y \<and> as_status y = AS_ACCEPTED \<and> shard_of y = shard_of r)" for x
    unfolding acceptance_inv_def by (metis option.distinct(1))
  with m_win show ?case
    by (auto simp: acceptance_inv_def digests_ok_def can_move_def)
next
  case (m_output st aid r out)
  then show ?case by (auto simp: acceptance_inv_def digests_ok_def)
next
  case (m_digest st aid r d)
  then show ?case by (auto simp: acceptance_inv_def digests_ok_def)
next
  case (m_remember st key aid res)
  then show ?case by (auto simp: acceptance_inv_def digests_ok_def)
qed

subsection \<open>Lifting to runs\<close>

lemma micros_store_wf: "micros strict st st' \<Longrightarrow> store_wf st \<Longrightarrow> store_wf st'"
  by (induction rule: rtranclp_induct) (auto intro: micro_store_wf)

lemma micros_acceptance_inv: "micros True st st' \<Longrightarrow> acceptance_inv st \<Longrightarrow> acceptance_inv st'"
  by (induction rule: rtranclp_induct) (auto intro: micro_acceptance_inv)

lemma run_micros: "\<exists>st' oj'. run_ops (call E) cs (st, oj) = (st', oj') \<and> micros False st st'"
proof (induction cs arbitrary: st oj)
  case Nil
  then show ?case by simp
next
  case (Cons c cs)
  obtain res st1 oj1 where c: "call E c (st, oj) = (res, (st1, oj1))" by (metis prod.exhaust)
  from call_micro [OF c] have "micros False st st1" by simp
  with Cons.IH [of st1 oj1] c show ?case by (auto intro: rtranclp_trans)
qed

lemma run_store_wf:
  assumes "run_ops (call E) cs (new_store, oj) = (st, oj')"
  shows "store_wf st"
proof -
  have "store_wf new_store" by (simp add: store_wf_def new_store_def)
  with run_micros [of E cs new_store oj] assms micros_store_wf show ?thesis by auto
qed

lemma run_acceptance_inv:
  assumes "list_all disciplined cs" and "acceptance_inv st"
    and "run_ops (call E) cs (st, oj) = (st', oj')"
  shows "acceptance_inv st'"
  using assms
proof (induction cs arbitrary: st oj)
  case Nil
  then show ?case by simp
next
  case (Cons c cs)
  obtain res st1 oj1 where c: "call E c (st, oj) = (res, (st1, oj1))" by (metis prod.exhaust)
  have "micros True st st1"
    by (rule call_micro [OF c]) (use Cons.prems in \<open>auto simp: acceptance_inv_def\<close>)
  with Cons c show ?case by (auto intro: micros_acceptance_inv)
qed

lemma acceptance_inv_new: "acceptance_inv new_store"
  by (simp add: acceptance_inv_def digests_ok_def new_store_def)

subsection \<open>Only a passed validation leads to acceptance\<close>

text \<open>An attempt that is VALIDATING or ACCEPTED has a digest, for which \<open>P\<close> holds.\<close>

definition vetted :: "(string \<Rightarrow> string \<Rightarrow> bool) \<Rightarrow> attempt_store \<Rightarrow> bool" where
  "vetted P st \<longleftrightarrow> (\<forall>aid r. rec_of st aid = Some r \<longrightarrow> as_status r \<in> {AS_VALIDATING, AS_ACCEPTED} \<longrightarrow>
     (\<exists>d. as_validation_digest r = Some d \<and> P aid d))"

lemma vetted_new: "vetted P new_store"
  by (simp add: vetted_def new_store_def)

lemma vetted_records: "st_records st' = st_records st \<Longrightarrow> vetted P st \<Longrightarrow> vetted P st'"
  by (simp add: vetted_def)

lemma vetted_put:
  assumes "vetted P st" and "map_of (st_records st') = (map_of (st_records st))(aid \<mapsto> r)"
    and "as_status r \<in> {AS_VALIDATING, AS_ACCEPTED} \<Longrightarrow> \<exists>d. as_validation_digest r = Some d \<and> P aid d"
  shows "vetted P st'"
  using assms by (auto simp: vetted_def)

lemma vetted_transition:
  assumes t: "transition E aid ex to occ reason (st, oj) = (x, (st', oj'))" and v: "vetted P st" and to: "to \<noteq> AS_VALIDATING"
  shows "vetted P st'"
proof (cases "st' = st")
  case False
  with transition_cases [OF t] obtain r where r: "rec_of st aid = Some r" "can_move r ex to occ"
    and st': "st' = release_shard aid ex to (shard_of r) (put_rec aid (moved r to occ reason) st)"
    by blast
  have "as_status r = AS_VALIDATING" if "to = AS_ACCEPTED"
    using r(2) that by (cases ex) (auto simp: can_move_def)
  then have "\<exists>d. as_validation_digest r = Some d \<and> P aid d" if "to = AS_ACCEPTED"
    using v r(1) that unfolding vetted_def by blast
  then show ?thesis using vetted_put [OF v, of st' aid "moved r to occ reason"] to by (simp add: st')
qed (use v in simp)

lemma vetted_create:
  assumes "create_attempt E a key (st, oj) = (x, (st', oj'))" and "vetted P st"
  shows "vetted P st'"
proof (cases "st' = st")
  case False
  with assms(1) have "\<exists>r. map_of (st_records st') = (map_of (st_records st))(pa_attempt_id a \<mapsto> r) \<and> as_status r = AS_CREATED"
    by (auto simp: create_attempt_def Let_def mk_transition_Inr split: option.split_asm if_split_asm sum.split_asm)
  then show ?thesis using vetted_put [OF assms(2)] by fastforce
qed (use assms in simp)

lemma accept_record_change:
  assumes acc: "accept E aid occ key (st, oj) = (res, (st', oj'))"
  obtains "st_records st' = st_records st"
  | to reason x st2 oj2 where "to \<noteq> AS_VALIDATING" and "transition E aid AS_VALIDATING to occ reason (st, oj) = (x, (st2, oj2))"
      and "st_records st' = st_records st2"
proof (cases "st_records st' = st_records st")
  case False
  from False acc obtain r where r: "rec_of st aid = Some r" and nk: "st_acceptance_keys st key = None"
    by (auto simp: accept_def split: option.split_asm if_split_asm prod.split_asm)
  from acc r nk False have na: "as_status r \<noteq> AS_ACCEPTED" by (auto simp: accept_def Let_def split: sum.split_asm)
  from acc r nk na False have v: "as_status r = AS_VALIDATING" "as_validation_digest r \<noteq> None"
    by (auto simp: accept_def split: if_split_asm)
  show thesis
  proof (cases "st_accepted_by_shard st (shard_of r)")
    case (Some ex_id)
    with acc r nk na v False obtain ex where ex: "rec_of st ex_id = Some ex" by (auto simp: accept_def split: option.split_asm)
    obtain x st2 oj2 where t: "transition E aid AS_VALIDATING AS_SUPERSEDED occ
        ''first_verified_result_already_accepted'' (st, oj) = (x, (st2, oj2))" by (metis prod.exhaust)
    have "st_records st' = st_records st2"
      using acc r nk na v Some ex t by (cases x) (auto simp: accept_def Let_def split: sum.split_asm)
    with t show thesis by (intro that(2) [OF _ t]) simp_all
  next
    case None
    obtain x st2 oj2 where t: "transition E aid AS_VALIDATING AS_ACCEPTED occ
        ''hard_gates_passed_and_arbitrated'' (st, oj) = (x, (st2, oj2))" by (metis prod.exhaust)
    have "st_records st' = st_records st2"
      using acc r nk na v None t by (cases x) (auto simp: accept_def Let_def dest!: with_events_eqD)
    with t show thesis by (intro that(2) [OF _ t]) simp_all
  qed
qed (rule that(1))

text \<open>A failed validation whose reason is well-formed ends REJECTED, at the latest with its second transition.\<close>

lemma rejection_recorded:
  assumes "transition E aid AS_VALIDATING AS_REJECTED occ reason (st, oj) = (x, (st', oj'))"
    and "rec_of st aid = Some r" and "as_status r = AS_VALIDATING" and "at_occurred_at (last (as_transitions r)) = occ"
    and "is_aware occ" and "identifier_ok reason"
  shows "st_records st' = AList.update aid (moved r AS_REJECTED occ reason) (st_records st)"
proof -
  have "mk_attempt_transition (trans_of r AS_REJECTED occ reason) = Inr (trans_of r AS_REJECTED occ reason)"
    using assms(5,6) by (simp add: mk_transition_Inr trans_of_def)
  moreover have "dt_less occ occ = Inr False" using assms(5) by (cases occ) simp_all
  ultimately show ?thesis
    using assms(1-4) by (auto simp: transition_def Let_def split: sum.split_asm dest!: with_events_eqD)
qed

lemma vetted_record_validation:
  assumes rv: "record_validation E aid d p t reason (st, oj) = (res, (st', oj'))" and v: "vetted P st" and dok: "digests_ok st"
    and d: "is_sha256 d" and ok: "p \<or> identifier_ok reason" and P: "p \<Longrightarrow> P aid d"
  shows "vetted P st'"
proof (cases "st' = st")
  case False
  with rv obtain r where r: "rec_of st aid = Some r" "as_validation_digest r = None" "as_status r = AS_OUTPUT_RECEIVED"
    by (auto simp: record_validation_def split: option.split_asm if_split_asm)
  define r1 where "r1 = r\<lparr>as_validation_digest := Some d\<rparr>"
  define st1 where "st1 = put_rec aid r1 st"
  have r1: "rec_of st1 aid = Some r1" "as_validation_digest r1 = Some d" "as_status r1 = AS_OUTPUT_RECEIVED"
    using r by (simp_all add: st1_def r1_def)
  have v1: "vetted P st1" by (rule vetted_put [OF v, of _ aid r1]) (simp_all add: st1_def r1)
  have dok1: "digests_ok st1" using dok d by (auto simp: digests_ok_def st1_def r1_def)
  obtain x st2 oj2 where
    t2: "transition E aid AS_OUTPUT_RECEIVED AS_VALIDATING t ''validation_started'' (st1, oj) = (x, (st2, oj2))"
    by (metis prod.exhaust)
  let ?m = "moved r1 AS_VALIDATING t ''validation_started''"
  from transition_cases [OF t2] r1(1) snapshot_of_moved [OF dok1 r1(1)]
  consider (stay) e where "x = Inl e" "st2 = st1"
    | (go) "x = Inr ?m" "can_move r1 AS_OUTPUT_RECEIVED AS_VALIDATING t" "st2 = put_rec aid ?m st1"
    by (auto simp: release_shard_def)
  then show ?thesis
  proof cases
    case stay
    then have "st' = st1" using rv r t2 by (simp add: record_validation_def st1_def r1_def)
    with v1 show ?thesis by simp
  next
    case go
    show ?thesis
    proof (cases p)
      case True
      then have "st' = st2" using rv r t2 go(1) by (auto simp: record_validation_def st1_def r1_def split: sum.split_asm)
      then show ?thesis using vetted_put [OF v1, of st2 aid ?m] go(3) P True r1(2) by simp
    next
      case False
      obtain y st3 oj3 where t3: "transition E aid AS_VALIDATING AS_REJECTED t reason (st2, oj2) = (y, (st3, oj3))"
        by (metis prod.exhaust)
      have "st' = st3"
        using rv r t2 t3 go(1) False
        by (cases y) (auto simp: record_validation_def st1_def r1_def dest!: with_events_eqD)
      moreover have "st_records st3 = AList.update aid (moved ?m AS_REJECTED t reason) (st_records st2)"
        by (rule rejection_recorded [OF t3]) (use go ok False in \<open>auto simp: can_move_def trans_of_def\<close>)
      ultimately show ?thesis using vetted_put [OF v1, of st' aid "moved ?m AS_REJECTED t reason"] go(3) by (simp add: st1_def)
    qed
  qed
qed (use v in simp)

lemma vetted_call:
  assumes c: "call E c (st, oj) = (res, (st', oj'))" and v: "vetted P st" and dis: "disciplined c" and dok: "digests_ok st"
    and P: "\<And>a d t reason. c = RecordValidation a d True t reason \<Longrightarrow> P a d"
  shows "vetted P st'"
proof -
  have snd: "snd (call E c (st, oj)) = (st', oj')" using c by simp
  show ?thesis
  proof (cases c)
    case (CreateRoot k d t)
    with snd v vetted_create show ?thesis
      by (cases "mk_parse_attempt (root_attempt E k d t)"; cases "create_root E k d t (st, oj)") (auto simp: create_root_def)
  next
    case (CreateChild p cs k t)
    then have "st' = st \<or> (\<exists>a x oj1. create_attempt E a k (st, oj) = (x, (st', oj1)))"
      using snd by (cases "create_child E p cs k t (st, oj)")
        (auto simp: create_child_def split: if_split_asm option.split_asm sum.split_asm bool.split_asm)
    with v vetted_create show ?thesis by blast
  next
    case (Transition a ex to t r)
    with snd dis v vetted_transition show ?thesis by (cases "transition E a ex to t r (st, oj)") auto
  next
    case (AttachOutput a out k)
    show ?thesis
    proof (cases "st' = st")
      case False
      obtain z where z: "attach_output E a out k (st, oj) = (z, (st', oj'))"
        using snd AttachOutput by (cases "attach_output E a out k (st, oj)") auto
      with False obtain r where r: "rec_of st a = Some r" "as_output r = None" "as_status r = AS_RUNNING"
        by (auto simp: attach_output_def split: option.split_asm if_split_asm)
      define st1 where "st1 = put_rec a (r\<lparr>as_output := Some out\<rparr>) st"
      obtain x st2 oj2 where
        t: "transition E a AS_RUNNING AS_OUTPUT_RECEIVED (ao_completed_at out) ''output_received'' (st1, oj) = (x, (st2, oj2))"
        by (metis prod.exhaust)
      have "vetted P st1" by (rule vetted_put [OF v, of _ a "r\<lparr>as_output := Some out\<rparr>"]) (simp_all add: st1_def r)
      then have "vetted P st2" by (rule vetted_transition [OF t]) simp
      moreover have "st' = st2"
        using z r t by (cases x) (auto simp: attach_output_def st1_def dest!: with_events_eqD)
      ultimately show ?thesis by simp
    qed (use v in simp)
  next
    case (RecordValidation a d p t r)
    with snd dis v dok P vetted_record_validation show ?thesis
      by (cases "record_validation E a d p t r (st, oj)") auto
  next
    case (Accept a t k)
    then obtain z where z: "accept E a t k (st, oj) = (z, (st', oj'))"
      using snd by (cases "accept E a t k (st, oj)") auto
    show ?thesis
      by (rule accept_record_change [OF z]) (use v vetted_records vetted_transition in blast)+
  next
    case (Quarantine a t r)
    show ?thesis
    proof (cases "st' = st")
      case False
      obtain z where z: "quarantine_attempt E a t r (st, oj) = (z, (st', oj'))"
        using snd Quarantine by (cases "quarantine_attempt E a t r (st, oj)") auto
      with False have "\<exists>ex. transition E a ex AS_QUARANTINED t r (st, oj) = (z, (st', oj'))"
        by (auto simp: quarantine_attempt_def split: if_split_asm option.split_asm)
      with v vetted_transition show ?thesis by blast
    qed (use v in simp)
  qed
qed

lemma run_vetted:
  assumes "list_all disciplined cs" and "acceptance_inv st" and "vetted P st"
    and "\<And>a d t reason. RecordValidation a d True t reason \<in> set cs \<Longrightarrow> P a d"
    and "run_ops (call E) cs (st, oj) = (st', oj')"
  shows "vetted P st'"
  using assms
proof (induction cs arbitrary: st oj)
  case Nil
  then show ?case by simp
next
  case (Cons c cs)
  obtain res st1 oj1 where c: "call E c (st, oj) = (res, (st1, oj1))" by (metis prod.exhaust)
  have "acceptance_inv st1" by (rule run_acceptance_inv [where cs = "[c]" and E = E and st = st and oj = oj]) (use Cons.prems c in simp_all)
  moreover have "vetted P st1"
  proof (rule vetted_call [OF c Cons.prems(3)])
    show "disciplined c" "digests_ok st" using Cons.prems(1,2) by (simp_all add: acceptance_inv_def)
    show "P a d" if "c = RecordValidation a d True t reason" for a d t reason
      by (rule Cons.prems(4) [of a d t reason]) (simp add: that)
  qed
  moreover have "run_ops (call E) cs (st1, oj1) = (st', oj')" using Cons.prems(5) c by simp
  moreover have "P a d" if "RecordValidation a d True t reason \<in> set cs" for a d t reason
    by (rule Cons.prems(4) [of a d t reason]) (simp add: that)
  moreover have "list_all disciplined cs" using Cons.prems(1) by simp
  ultimately show ?case using Cons.IH [of st1 oj1] by blast
qed

text \<open>When a move to another status than RUNNING succeeds.\<close>

lemma transition_ok:
  assumes "rec_of st aid = Some r" and "can_move r ex to occ" and "identifier_ok reason" and "digests_ok st" and "to \<noteq> AS_RUNNING"
  shows "transition E aid ex to occ reason (st, oj) =
    (Inr (moved r to occ reason), (release_shard aid ex to (shard_of r) (put_rec aid (moved r to occ reason) st), oj))"
proof -
  have "mk_attempt_transition (trans_of r to occ reason) = Inr (trans_of r to occ reason)"
    using assms(2,3) by (simp add: mk_transition_Inr trans_of_def can_move_def)
  then show ?thesis
    using assms(1,2,5) snapshot_of_moved [OF assms(4,1)] by (simp add: transition_def can_move_def Let_def with_events_def)
qed

section \<open>Acceptance is executed once per key\<close>

lemma run_store_le:
  "run_ops (call E) cs (st, oj) = (st', oj') \<Longrightarrow> store_le st st'"
  using run_micros [of E cs st oj] micros_store_le by auto

lemma call_store_le: "store_le (fst s) (fst (snd (call E c s)))"
  using run_store_le [of E "[c]" "fst s" "snd s"] by (cases "snd (call E c s)") auto

lemma accept_result_recorded:
  assumes "accept E aid occ key (st, oj) = (Inr res, (st', oj'))"
  shows "st_acceptance_keys st' key = Some (aid, res) \<and> rec_of st' aid \<noteq> None"
proof -
  from assms obtain r where r: "rec_of st aid = Some r"
    by (auto simp: accept_def split: option.split_asm)
  have "store_le st st'"
    using call_store_le [of "(st, oj)" E "Accept aid occ key"] assms by simp
  with r store_le_rec have "rec_of st' aid \<noteq> None" by blast
  moreover have "st_acceptance_keys st' key = Some (aid, res)"
  proof (cases "st_acceptance_keys st key")
    case (Some v)
    with r assms show ?thesis by (auto simp: accept_def split: prod.split_asm if_split_asm)
  next
    case None
    show ?thesis
    proof (cases "as_status r = AS_ACCEPTED")
      case True
      with None r assms show ?thesis by (auto simp: accept_def Let_def split: sum.split_asm)
    next
      case na: False
      with None r assms have v: "as_status r = AS_VALIDATING" "as_validation_digest r \<noteq> None"
        by (auto simp: accept_def split: if_split_asm)
      show ?thesis
      proof (cases "st_accepted_by_shard st (shard_of r)")
        case no: None
        with na v None r assms show ?thesis
          by (auto simp: accept_def Let_def andthen_Inr_iff dest!: with_events_eqD)
      next
        case (Some ex_id)
        with na v None r assms obtain ex where "rec_of st ex_id = Some ex"
          by (auto simp: accept_def split: option.split_asm)
        with Some na v None r assms obtain c st2 oj2 snap where
          "(case mk_attempt_snapshot snap of Inl e \<Rightarrow> (Inl e, (st2, oj2))
            | Inr winner \<Rightarrow> let w = \<lparr>ac_winner = winner, ac_challenger = Some c, ac_accepted_new = False\<rparr>
                in (Inr w, (remember_acceptance key aid w st2, oj2))) = (Inr res, (st', oj'))"
          by (auto simp: accept_def andthen_Inr_iff)
        then show ?thesis
          by (cases "mk_attempt_snapshot snap") (auto simp: Let_def)
      qed
    qed
  qed
  ultimately show ?thesis by blast
qed

interpretation acceptance: keyed_once "\<lambda>s. st_acceptance_keys (fst s)" fst
  "\<lambda>c s. rec_of (fst s) (fst c) \<noteq> None" "\<lambda>c k. accept E (fst c) (snd c) k" "call E" for E
proof (unfold_locales, goal_cases)
  case (1 c s k r)
  then show ?case by (cases s) (auto simp: accept_def)
next
  case (2 c s k i r)
  then show ?case by (cases s) (auto simp: accept_def)
next
  case (3 c s k)
  then show ?case by (cases s) (auto simp: accept_def)
next
  case (4 c k s r s')
  then show ?case using accept_result_recorded by (cases s; cases s') fastforce
next
  case (5 s k v d)
  then show ?case by (rule store_le_key [OF call_store_le])
next
  case (6 c s d)
  then show ?case by (rule store_le_rec [OF call_store_le])
qed

section \<open>A concrete run\<close>

text \<open>A digest function and one dispatched attempt, on which the witnesses run the store.\<close>

definition demo_sha :: string where
  "demo_sha = replicate 64 (CHR ''a'')"

definition demo_env :: renv where
  "demo_env = \<lparr>sha256 = (\<lambda>s. demo_sha), float_repr = (\<lambda>r. ''0.5''), isoformat = (\<lambda>t. ''T'')\<rparr>"

definition demo_spec :: dispatch_spec where
  "demo_spec = \<lparr>ds_document_id = ''d'', ds_document_version_id = ''v'', ds_shard_id = ''s'',
     ds_page_ids = [''p''], ds_region_ids = [], ds_parser_recipe = ''r'', ds_model_revision = ''m'',
     ds_runtime_image_digest = ''i'', ds_worker_id = ''w'', ds_gpu_type = ''g'',
     ds_source_sha256 = demo_sha, ds_preprocessing_sha256 = demo_sha,
     ds_prompt_sha256 = demo_sha, ds_decoding_sha256 = demo_sha\<rparr>"

definition demo_output :: attempt_output where
  "demo_output = \<lparr>ao_prediction_uri = ''u'', ao_prediction_sha256 = demo_sha,
     ao_completed_at = Aware 3,
     ao_cost = \<lparr>cr_gpu_seconds = 0, cr_provider_cost = 0, cr_user_credits = 0,
       cr_duplicate_compute = False\<rparr>\<rparr>"

definition demo_id :: string where
  "demo_id = ''attempt_'' @ replicate 32 (CHR ''a'')"

definition demo_calls :: "attempt_call list" where
  "demo_calls =
     [CreateRoot ''k'' demo_spec (Aware 0),
      Transition demo_id AS_CREATED AS_QUEUED (Aware 1) ''queued'',
      Transition demo_id AS_QUEUED AS_RUNNING (Aware 2) ''running'',
      AttachOutput demo_id demo_output ''o'',
      RecordValidation demo_id demo_sha True (Aware 4) ''hard_gate_failed'',
      Accept demo_id (Aware 5) ''a'']"

definition demo_attempt :: parse_attempt where
  "demo_attempt = root_attempt demo_env ''k'' demo_spec (Aware 0)"

definition demo_final :: attempt_snapshot where
  "demo_final = moved (moved ((moved ((moved (moved
     \<lparr>as_attempt = demo_attempt, as_status = AS_CREATED, as_output = None, as_validation_digest = None,
      as_transitions = [\<lparr>at_sequence = 1, at_from_status = None, at_to_status = AS_CREATED,
        at_occurred_at = Aware 0, at_reason_code = ''attempt_created''\<rparr>]\<rparr>
     AS_QUEUED (Aware 1) ''queued'') AS_RUNNING (Aware 2) ''running'')\<lparr>as_output := Some demo_output\<rparr>)
     AS_OUTPUT_RECEIVED (Aware 3) ''output_received'')\<lparr>as_validation_digest := Some demo_sha\<rparr>)
     AS_VALIDATING (Aware 4) ''validation_started'') AS_ACCEPTED (Aware 5) ''hard_gates_passed_and_arbitrated''"

lemma demo_id_ok: "identifier_ok demo_id"
  by code_simp

lemma demo_sha_ok: "is_sha256 demo_sha"
  by (simp add: is_sha256_def demo_sha_def)

lemma demo_attempt_fields:
  "pa_attempt_id demo_attempt = demo_id" "pa_shard_id demo_attempt = ''s''"
  "pa_created_at demo_attempt = Aware 0" "pa_worker_id demo_attempt = ''w''"
  by (simp_all add: demo_attempt_def root_attempt_def Let_def stable_id_def jsha_def demo_env_def
      demo_id_def demo_sha_def demo_spec_def eval_nat_numeral)

lemma demo_attempt_ok: "mk_parse_attempt demo_attempt = Inr demo_attempt"
  using demo_id_ok demo_sha_ok demo_attempt_fields
  unfolding mk_parse_attempt_def require_all_Inr_iff
  by (simp add: demo_attempt_def root_attempt_def Let_def demo_spec_def identifier_ok_def is_space_def)

lemma demo_run:
  "run_ops (call demo_env) demo_calls (new_store, None) =
    (\<lparr>st_records = [(demo_id, demo_final)], st_creation_keys = [''k'' \<mapsto> demo_id],
       st_acceptance_keys = [''a'' \<mapsto> (demo_id,
         \<lparr>ac_winner = demo_final, ac_challenger = None, ac_accepted_new = True\<rparr>)],
       st_accepted_by_shard = [''s'' \<mapsto> demo_id]\<rparr>, None)"
proof -
  have ra: "root_attempt demo_env ''k'' demo_spec (Aware 0) = demo_attempt"
    by (simp add: demo_attempt_def)
  have ids: "identifier_ok ''attempt_created''" "identifier_ok ''queued''" "identifier_ok ''running''"
    "identifier_ok ''output_received''" "identifier_ok ''validation_started''"
    "identifier_ok ''hard_gates_passed_and_arbitrated''"
    by code_simp+
  have sn: "mk_attempt_snapshot r = Inr r"
    if "as_validation_digest r = None \<or> as_validation_digest r = Some demo_sha"
      "as_transitions r \<noteq> []" "at_to_status (last (as_transitions r)) = as_status r" for r
    using that demo_sha_ok unfolding mk_attempt_snapshot_def require_all_Inr_iff by auto
  have em: "emit_all demo_env rs None = (Inr (), None)" for rs
    by (induction rs) auto
  have mt: "mk_attempt_transition t = Inr t"
    if "1 \<le> at_sequence t" "is_aware (at_occurred_at t)" "identifier_ok (at_reason_code t)" for t
    using that mk_transition_Inr by blast
  show ?thesis
    by (simp add: demo_calls_def create_root_def ra demo_attempt_ok create_attempt_def new_store_def
        mt ids sn demo_attempt_fields put_rec_def transition_def trans_of_def release_shard_def em
        with_events_def attach_output_def demo_output_def record_validation_def accept_def Let_def
        remember_acceptance_def demo_final_def forget_def moved_def
        emit_def)
qed

section \<open>Properties\<close>

text \<open>C1: first verified wins. In every state that disciplined calls (\<open>accept\<close> and \<open>record_validation\<close> are
  the only ways into ACCEPTED and VALIDATING, digests and failure reasons are well-formed) reach from the
  empty store, exceptions included, a shard has at most one ACCEPTED attempt; that attempt is the
  registered one, and its validation digest was recorded by a call that said the validation passed.\<close>

theorem first_verified_wins:
  assumes "list_all disciplined cs"
    and "run_ops (call E) cs (new_store, oj) = (st, oj')"
    and "rec_of st a = Some ra" and "as_status ra = AS_ACCEPTED"
    and "rec_of st b = Some rb" and "as_status rb = AS_ACCEPTED"
    and "shard_of ra = shard_of rb"
  shows "a = b \<and> st_accepted_by_shard st (shard_of ra) = Some a
    \<and> (\<exists>d t reason. as_validation_digest ra = Some d \<and> RecordValidation a d True t reason \<in> set cs)"
proof -
  have inv: "acceptance_inv st"
    using run_acceptance_inv [OF assms(1) acceptance_inv_new assms(2)] .
  then have "st_accepted_by_shard st (shard_of ra) = Some a"
    and "st_accepted_by_shard st (shard_of ra) = Some b"
    using assms(3-7) unfolding acceptance_inv_def by metis+
  moreover have "vetted (\<lambda>a d. \<exists>t reason. RecordValidation a d True t reason \<in> set cs) st"
    by (rule run_vetted [OF assms(1) acceptance_inv_new vetted_new _ assms(2)]) blast
  with assms(3,4) have "\<exists>d t reason. as_validation_digest ra = Some d \<and> RecordValidation a d True t reason \<in> set cs"
    unfolding vetted_def by (metis insertI1 insertI2)
  ultimately show ?thesis by simp
qed

theorem first_verified_wins_witness:
  "demo_id = demo_id
   \<and> st_accepted_by_shard (fst (run_ops (call demo_env) demo_calls (new_store, None))) ''s'' = Some demo_id
   \<and> (\<exists>t reason. RecordValidation demo_id demo_sha True t reason \<in> set demo_calls)"
proof -
  have "list_all disciplined demo_calls"
    using demo_sha_ok by (simp add: demo_calls_def)
  note w = first_verified_wins [OF this demo_run, of demo_id demo_final demo_id demo_final]
  have "as_validation_digest demo_final = Some demo_sha" by (simp add: demo_final_def)
  then show ?thesis using w by (auto simp: demo_run) (simp_all add: demo_final_def demo_attempt_fields)
qed

text \<open>Fact: a failed validation can win. When the reason of a failed validation is refused (it is empty or has white space),
  \<open>record_validation\<close> raises after it has moved the attempt to VALIDATING with the digest, and
  \<open>accept\<close> then makes the failed attempt the winner of a free shard.\<close>

theorem failed_validation_accepted:
  assumes "rec_of st aid = Some r" and "as_status r = AS_OUTPUT_RECEIVED" and "as_validation_digest r = None"
    and "is_sha256 d" and "digests_ok st" and "is_aware t" and "dt_less t (at_occurred_at (last (as_transitions r))) = Inr False"
    and "st_accepted_by_shard st (shard_of r) = None" and "st_acceptance_keys st key = None"
  shows "\<exists>st'. (\<exists>e. record_validation E aid d False t '' '' (st, None) = (Inl e, (st', None)))
    \<and> (\<exists>w st''. accept E aid t key (st', None) = (Inr w, (st'', None)) \<and> as_status (ac_winner w) = AS_ACCEPTED
        \<and> st_accepted_by_shard st'' (shard_of r) = Some aid)"
proof -
  define r1 where "r1 = r\<lparr>as_validation_digest := Some d\<rparr>"
  define r2 where "r2 = moved r1 AS_VALIDATING t ''validation_started''"
  define r3 where "r3 = moved r2 AS_ACCEPTED t ''hard_gates_passed_and_arbitrated''"
  define st1 where "st1 = put_rec aid r1 st"
  define st2 where "st2 = put_rec aid r2 st1"
  have ok: "identifier_ok ''validation_started''" "identifier_ok ''hard_gates_passed_and_arbitrated''" "\<not> identifier_ok '' ''"
    by code_simp+
  have tt: "dt_less t t = Inr False" using assms(6) by (cases t) simp_all
  have dok: "digests_ok st1" "digests_ok st2"
    using assms(4,5) by (auto simp: digests_ok_def st1_def st2_def r1_def r2_def)
  have rec: "rec_of st1 aid = Some r1" "rec_of st2 aid = Some r2" by (simp_all add: st1_def st2_def)
  have m1: "can_move r1 AS_OUTPUT_RECEIVED AS_VALIDATING t" using assms(2,6,7) by (simp add: can_move_def r1_def)
  have m2: "can_move r2 AS_VALIDATING AS_ACCEPTED t" using assms(6) tt by (simp add: can_move_def r2_def trans_of_def)
  have t1: "transition E aid AS_OUTPUT_RECEIVED AS_VALIDATING t ''validation_started'' (st1, None) = (Inr r2, (st2, None))"
    using transition_ok [OF rec(1) m1 ok(1) dok(1), of E None] by (simp add: st2_def r2_def release_shard_def)
  have "\<exists>e. mk_attempt_transition (trans_of r2 AS_REJECTED t '' '') = Inl e"
    using ok(3) mk_transition_Inr [of "trans_of r2 AS_REJECTED t '' ''"]
    by (cases "mk_attempt_transition (trans_of r2 AS_REJECTED t '' '')") (auto simp: trans_of_def)
  then obtain e where t2: "transition E aid AS_VALIDATING AS_REJECTED t '' '' (st2, None) = (Inl e, (st2, None))"
    using rec(2) m2 tt by (auto simp: transition_def can_move_def r2_def trans_of_def)
  have t3: "transition E aid AS_VALIDATING AS_ACCEPTED t ''hard_gates_passed_and_arbitrated'' (st2, None)
      = (Inr r3, (put_rec aid r3 st2, None))"
    using transition_ok [OF rec(2) m2 ok(2) dok(2), of E None] by (simp add: r3_def release_shard_def)
  have "record_validation E aid d False t '' '' (st, None) = (Inl e, (st2, None))"
    using assms(1-3) t1 t2 by (simp add: record_validation_def r1_def [symmetric] st1_def [symmetric])
  moreover have "accept E aid t key (st2, None) = (Inr w, (st'', None)) \<Longrightarrow> as_status (ac_winner w) = AS_ACCEPTED
      \<and> st_accepted_by_shard st'' (shard_of r) = Some aid" for w st''
    using rec(2) t3 assms(8,9)
    by (auto simp: accept_def r3_def Let_def st1_def st2_def r2_def r1_def remember_acceptance_def with_events_def emit_def)
  moreover have "\<exists>w st''. accept E aid t key (st2, None) = (Inr w, (st'', None))"
    using rec(2) t3 assms(8,9)
    by (simp add: accept_def Let_def st1_def st2_def r2_def r1_def with_events_def emit_def)
  ultimately show ?thesis by blast
qed

text \<open>C8: attempt lifecycles. After any calls of the public methods, whatever they raised, every
  attempt's transition log starts at CREATED, ends at the attempt's status, follows the transition
  table, never repeats a status, has at most seven entries, is numbered 1, 2, ... and is
  chronological.\<close>

theorem attempt_lifecycle:
  assumes "run_ops (call E) cs (new_store, oj) = (st, oj')" and "rec_of st aid = Some r"
  shows "at_to_status (hd (as_transitions r)) = AS_CREATED
    \<and> at_to_status (last (as_transitions r)) = as_status r
    \<and> successively (\<lambda>a b. b \<in> set (allowed a)) (map at_to_status (as_transitions r))
    \<and> distinct (map at_to_status (as_transitions r))
    \<and> 1 \<le> length (as_transitions r) \<and> length (as_transitions r) \<le> 7
    \<and> map at_sequence (as_transitions r) = [1..<Suc (length (as_transitions r))]
    \<and> sorted (map (instant \<circ> at_occurred_at) (as_transitions r))"
proof -
  have "history_ok r"
    using run_store_wf [OF assms(1)] assms(2) by (auto simp: store_wf_def rec_wf_def)
  then have h: "successively moves (map at_to_status (as_transitions r))" "as_transitions r \<noteq> []"
    and rest: "history_ok r" by (auto simp: history_ok_def)
  from lifecycle.path_length [OF h(1)] lifecycle.path_distinct [OF h(1)] h(2) rest
  show ?thesis by (auto simp: history_ok_def Suc_le_eq)
qed

theorem attempt_lifecycle_witness:
  "distinct (map at_to_status (as_transitions demo_final)) \<and> length (as_transitions demo_final) \<le> 7"
proof -
  have "map_of (st_records \<lparr>st_records = [(demo_id, demo_final)], st_creation_keys = [''k'' \<mapsto> demo_id],
       st_acceptance_keys = [''a'' \<mapsto> (demo_id,
         \<lparr>ac_winner = demo_final, ac_challenger = None, ac_accepted_new = True\<rparr>)],
       st_accepted_by_shard = [''s'' \<mapsto> demo_id]\<rparr>) demo_id = Some demo_final" by simp
  from attempt_lifecycle [OF demo_run this] show ?thesis by blast
qed

text \<open>C9: immutable lineage. Once an attempt exists, no later call changes its identity fields,
  replaces its output or its validation digest, or rewrites its transition log: the log only
  grows at the end.\<close>

theorem attempt_immutable:
  assumes "rec_of st aid = Some r" and "run_ops (call E) cs (st, oj) = (st', oj')"
  shows "\<exists>r' ts. rec_of st' aid = Some r' \<and> as_attempt r' = as_attempt r
    \<and> as_transitions r' = as_transitions r @ ts
    \<and> (\<forall>out. as_output r = Some out \<longrightarrow> as_output r' = Some out)
    \<and> (\<forall>d. as_validation_digest r = Some d \<longrightarrow> as_validation_digest r' = Some d)"
  using run_store_le [OF assms(2)] assms(1) by (fastforce simp: store_le_def rec_le_def)

theorem attempt_immutable_witness:
  "\<exists>r' ts. rec_of (fst (run_ops (call demo_env) [Quarantine demo_id (Aware 6) ''bad'']
       (fst (run_ops (call demo_env) demo_calls (new_store, None)), None))) demo_id = Some r'
    \<and> as_transitions r' = as_transitions demo_final @ ts \<and> as_output r' = Some demo_output"
proof -
  let ?st = "fst (run_ops (call demo_env) demo_calls (new_store, None))"
  have r: "rec_of ?st demo_id = Some demo_final" by (simp add: demo_run)
  have o: "as_output demo_final = Some demo_output" by (simp add: demo_final_def moved_def)
  show ?thesis
    using attempt_immutable [OF r, of demo_env "[Quarantine demo_id (Aware 6) ''bad'']" None] o
    by (metis prod.collapse)
qed

text \<open>Fact: acceptance happens once per idempotency key. After \<open>accept\<close> returned a result under a
  key, the same request returns the same result and changes nothing, whatever calls came between;
  a request for another attempt under that key raises and changes nothing.\<close>

theorem accept_once_per_key:
  assumes "accept E aid occ key s = (Inr res, s1)" and "s2 = run_ops (call E) cs s1"
  shows "accept E aid occ key s2 = (Inr res, s2)
    \<and> (aid' \<noteq> aid \<longrightarrow> (\<exists>e. accept E aid' occ' key s2 = (Inl e, s2)))"
  using acceptance.replay_after [of E "(aid, occ)" key s res s1 cs] assms
    acceptance.conflict_after [of E "(aid, occ)" key s res s1 "(aid', occ')" cs]
  by simp

text \<open>A validated attempt in a store that has accepted nothing, and its acceptance.\<close>

definition demo_validated :: attempt_snapshot where
  "demo_validated = \<lparr>as_attempt = demo_attempt, as_status = AS_VALIDATING, as_output = Some demo_output,
     as_validation_digest = Some demo_sha,
     as_transitions = [\<lparr>at_sequence = 1, at_from_status = Some AS_OUTPUT_RECEIVED,
       at_to_status = AS_VALIDATING, at_occurred_at = Aware 4, at_reason_code = ''validation_started''\<rparr>]\<rparr>"

lemma demo_accept:
  "\<exists>res s1. accept demo_env demo_id (Aware 5) ''a'' (put_rec demo_id demo_validated new_store, None) = (Inr res, s1)"
proof -
  have "identifier_ok ''hard_gates_passed_and_arbitrated''" by code_simp
  then show ?thesis
    using demo_sha_ok
    by (simp add: accept_def transition_def new_store_def put_rec_def demo_validated_def Let_def
        mk_attempt_transition_def trans_of_def mk_attempt_snapshot_def moved_def with_events_def)
qed

theorem accept_once_per_key_witness:
  "\<exists>res s1. accept demo_env demo_id (Aware 5) ''a'' (put_rec demo_id demo_validated new_store, None) = (Inr res, s1)
    \<and> accept demo_env demo_id (Aware 5) ''a'' s1 = (Inr res, s1)"
proof -
  obtain res s1 where acc:
    "accept demo_env demo_id (Aware 5) ''a'' (put_rec demo_id demo_validated new_store, None) = (Inr res, s1)"
    using demo_accept by blast
  from accept_once_per_key [OF acc, of _ "[]"] acc show ?thesis by simp
qed

text \<open>Fact: a refused output sticks. When the output's completion time precedes the attempt's last
  transition, \<open>attach_output\<close> raises InvalidAttemptTransition but has already stored the output:
  the attempt stays RUNNING with that output, and no later \<open>attach_output\<close> changes the store.\<close>

theorem attach_output_not_atomic:
  assumes "rec_of st aid = Some r" and "as_status r = AS_RUNNING" and "as_output r = None"
    and "is_aware (at_occurred_at (last (as_transitions r)))" and "is_aware (ao_completed_at out)"
    and "instant (ao_completed_at out) < instant (at_occurred_at (last (as_transitions r)))"
    and "s' = (put_rec aid (r\<lparr>as_output := Some out\<rparr>) st, oj)"
  shows "attach_output E aid out key (st, oj)
      = (Inl (InvalidAttemptTransition ''attempt transitions must be chronological''), s')
    \<and> snd (attach_output E aid out' key' s') = s'"
  using assms by (auto simp: attach_output_def transition_def)

text \<open>The attempt the last theorem is about, and a completion time before it started.\<close>

definition demo_running :: attempt_snapshot where
  "demo_running = moved (moved \<lparr>as_attempt = demo_attempt, as_status = AS_CREATED, as_output = None,
      as_validation_digest = None,
      as_transitions = [\<lparr>at_sequence = 1, at_from_status = None, at_to_status = AS_CREATED,
        at_occurred_at = Aware 0, at_reason_code = ''attempt_created''\<rparr>]\<rparr>
     AS_QUEUED (Aware 1) ''queued'') AS_RUNNING (Aware 2) ''running''"

theorem attach_output_not_atomic_witness:
  "fst (attach_output demo_env demo_id (demo_output\<lparr>ao_completed_at := Aware 1\<rparr>) ''o''
      (put_rec demo_id demo_running new_store, None))
    = Inl (InvalidAttemptTransition ''attempt transitions must be chronological'')"
proof -
  have "rec_of (put_rec demo_id demo_running new_store) demo_id = Some demo_running"
    by (simp add: new_store_def)
  from attach_output_not_atomic [OF this, of "demo_output\<lparr>ao_completed_at := Aware 1\<rparr>" _ None demo_env "''o''"]
  show ?thesis by (simp add: demo_running_def trans_of_def)
qed

end
