(* ===== verification/Failures.thy ===== *)
theory Failures
  imports Models
begin

text \<open>
  The small decision modules of the runtime: \<^verbatim>\<open>failures.py\<close> (classification of a failed
  attempt), \<^verbatim>\<open>first_verified.py\<close>, \<^verbatim>\<open>drift.py\<close>, \<^verbatim>\<open>semantic_health.py\<close> and
  \<^verbatim>\<open>impact_scope.py\<close> (the worklist search for what a change invalidates). A frozenset argument
  is given by a list of its elements.
\<close>

section \<open>failures.py\<close>

definition infrastructure_codes :: "string list" where
  "infrastructure_codes =
    [''container_crash'', ''oom'', ''health_503'', ''connection_timeout'', ''cuda_error'',
     ''model_checksum_mismatch'', ''model_identity_mismatch'', ''disk_cache_error'',
     ''malformed_protocol'', ''dependency_import_failure'']"

definition semantic_codes :: "string list" where
  "semantic_codes =
    [''numeric_mutation'', ''row_omission'', ''repetition'', ''blank_page'', ''table_column_shift'',
     ''caption_omission'', ''reading_order_error'', ''source_coverage_incomplete'',
     ''hallucinated_row'', ''false_verified'', ''false_bbox'', ''truncated_output'']"

datatype diagnosis_state = DG_HEALTHY | DG_INFRASTRUCTURE_FAILED | DG_SEMANTIC_FAILED

record failure_observation =
  fo_http_status :: int
  fo_schema_valid :: bool
  fo_reason_codes :: "string list"

definition mk_failure_observation :: "failure_observation \<Rightarrow> pyerr + failure_observation" where
  "mk_failure_observation x = require_all
     [(0 \<le> fo_http_status x, ValueError ''HTTP status cannot be negative'')] x"

record failure_diagnosis =
  fd_state :: diagnosis_state
  fd_class :: "failure_class option"
  fd_reason_codes :: "string list"
  fd_actions :: "string list"
  fd_candidate_accepted :: bool

definition diagnose_failure :: "failure_observation \<Rightarrow> failure_diagnosis" where
  "diagnose_failure x =
    (let reasons = fo_reason_codes x
           @ (if 200 \<le> fo_http_status x \<and> fo_http_status x < 300 then [] else [''transport_http_failure''])
           @ (if fo_schema_valid x then [] else [''malformed_protocol'']);
         infra = filter (\<lambda>r. r \<in> set (''transport_http_failure'' # infrastructure_codes)) reasons;
         semantic = filter (\<lambda>r. r \<in> set semantic_codes) reasons;
         unknown = filter (\<lambda>r. r \<notin> set infra \<and> r \<notin> set semantic) reasons
     in if infra \<noteq> [] then
          \<lparr>fd_state = DG_INFRASTRUCTURE_FAILED, fd_class = Some FC_INFRASTRUCTURE,
           fd_reason_codes = sorted_set reasons,
           fd_actions = [''retry_same_recipe_different_worker'',
             ''alternate_gpu_or_image_if_policy_allows'', ''drain_worker_on_recurrence''],
           fd_candidate_accepted = False\<rparr>
        else if semantic \<noteq> [] \<or> unknown \<noteq> [] then
          \<lparr>fd_state = DG_SEMANTIC_FAILED, fd_class = Some FC_SEMANTIC,
           fd_reason_codes = sorted_set (reasons @
             (if unknown \<noteq> [] then [''unclassified_semantic_failure_fail_closed''] else [])),
           fd_actions = [''reject_attempt'', ''update_semantic_health'',
             ''alternate_preprocessing_or_model'', ''request_smallest_scope_recovery''],
           fd_candidate_accepted = False\<rparr>
        else \<lparr>fd_state = DG_HEALTHY, fd_class = None, fd_reason_codes = [], fd_actions = [],
              fd_candidate_accepted = True\<rparr>)"

section \<open>first_verified.py\<close>

record verified_candidate =
  vc_attempt_id :: string
  vc_verified_at :: datetime
  vc_evidence_level :: int
  vc_hard_failure_count :: int
  vc_output_sha256 :: string

definition eligible :: "verified_candidate \<Rightarrow> bool" where
  "eligible c \<longleftrightarrow> 5 \<le> vc_evidence_level c \<and> vc_hard_failure_count c = 0"

definition first_key :: "verified_candidate \<Rightarrow> int \<times> string" where
  "first_key c = (instant (vc_verified_at c), vc_attempt_id c)"

definition select_first_verified :: "verified_candidate list \<Rightarrow> pyerr + verified_candidate option" where
  "select_first_verified cs =
    (let es = filter eligible cs
     in if list_ex (\<lambda>c. \<not> is_aware (vc_verified_at c)) es
        then Inl (ValueError ''verified_at must be timezone-aware'')
        else Inr (min_by first_key es))"

section \<open>drift.py\<close>

record drift_decision =
  dd_drifted :: bool
  dd_rollback_required :: bool
  dd_relative_change :: rat
  dd_reason_code :: string

definition detect_quality_drift :: "rat \<Rightarrow> rat \<Rightarrow> rat \<Rightarrow> pyerr + drift_decision" where
  "detect_quality_drift baseline observed max_drop =
    (if baseline \<le> 0 \<or> \<not> (0 \<le> observed \<and> observed \<le> 1) \<or> \<not> (0 \<le> max_drop \<and> max_drop < 1)
     then Inl (ValueError ''invalid drift inputs'')
     else let change = (observed - baseline) / baseline; drifted = change < - max_drop
       in Inr \<lparr>dd_drifted = drifted, dd_rollback_required = drifted, dd_relative_change = change,
               dd_reason_code = (if drifted then ''quality_drift_rollback''
                                 else ''quality_within_control_limit'')\<rparr>)"

section \<open>semantic_health.py\<close>

datatype semantic_state = SS_HEALTHY | SS_DEGRADED | SS_DRAINING | SS_QUARANTINED

record semantic_health_decision =
  sh_state :: semantic_state
  sh_allow_new_work :: bool
  sh_replay_inflight :: bool
  sh_reason_code :: string

definition decide_semantic_health :: "rat \<Rightarrow> int \<Rightarrow> bool \<Rightarrow> pyerr + semantic_health_decision" where
  "decide_semantic_health score failures infra_healthy =
    (if \<not> (0 \<le> score \<and> score \<le> 1) \<or> failures < 0
     then Inl (ValueError ''invalid semantic health observation'')
     else if \<not> infra_healthy then
       Inr \<lparr>sh_state = SS_DRAINING, sh_allow_new_work = False, sh_replay_inflight = True,
            sh_reason_code = ''infrastructure_degraded''\<rparr>
     else if failures \<ge> 3 \<or> score < 8/10 then
       Inr \<lparr>sh_state = SS_QUARANTINED, sh_allow_new_work = False, sh_replay_inflight = True,
            sh_reason_code = ''semantic_canary_failed''\<rparr>
     else if failures \<noteq> 0 \<or> score < 95/100 then
       Inr \<lparr>sh_state = SS_DEGRADED, sh_allow_new_work = False, sh_replay_inflight = False,
            sh_reason_code = ''semantic_canary_degraded''\<rparr>
     else Inr \<lparr>sh_state = SS_HEALTHY, sh_allow_new_work = True, sh_replay_inflight = False,
            sh_reason_code = ''semantic_canary_healthy''\<rparr>)"

section \<open>impact_scope.py\<close>

record lineage_edge =
  le_source_id :: string
  le_derived_id :: string

definition children :: "lineage_edge list \<Rightarrow> string \<Rightarrow> string list" where
  "children es x = map le_derived_id (filter (\<lambda>e. le_source_id e = x) es)"

text \<open>The inner loop: every unseen child is marked and queued.\<close>

fun visit_all :: "string list \<Rightarrow> string set \<Rightarrow> string list \<Rightarrow> string set \<times> string list" where
  "visit_all [] seen q = (seen, q)"
| "visit_all (c # cs) seen q =
     (if c \<in> seen then visit_all cs seen q else visit_all cs (insert c seen) (q @ [c]))"

definition targets :: "lineage_edge list \<Rightarrow> string set" where
  "targets es = set (map le_derived_id es)"

lemma visit_all_seen: "fst (visit_all cs seen q) = seen \<union> set cs"
  by (induction cs seen q rule: visit_all.induct) auto

lemma visit_all_queue:
  "\<exists>new. snd (visit_all cs seen q) = q @ new \<and> distinct new \<and> set new = set cs - seen"
proof (induction cs seen q rule: visit_all.induct)
  case (1 seen q)
  then show ?case by simp
next
  case (2 c cs seen q)
  show ?case
  proof (cases "c \<in> seen")
    case True
    with 2(1) show ?thesis by (simp add: insert_Diff_if)
  next
    case False
    then obtain new where "snd (visit_all cs (insert c seen) (q @ [c])) = (q @ [c]) @ new"
      and "distinct new" and "set new = set cs - insert c seen" using 2(2) by blast
    with False show ?thesis by (intro exI [of _ "c # new"]) auto
  qed
qed

lemma children_targets: "set (children es x) \<subseteq> targets es"
  by (auto simp: children_def targets_def)

text \<open>Every pass takes one queue entry off and each entry it adds leaves the unseen targets.\<close>

lemma search_decreases:
  assumes "visit_all (sort (children es x)) seen q = (seen', q')"
  shows "card (targets es - seen') + length q' < card (targets es - seen) + length (x # q)"
proof -
  obtain new where q': "q' = q @ new" and d: "distinct new" and n: "set new = set (children es x) - seen"
    using visit_all_queue [of "sort (children es x)" seen q] assms by auto
  have seen': "seen' = seen \<union> set (children es x)"
    using visit_all_seen [of "sort (children es x)" seen q] assms by simp
  have fin: "finite (targets es)" by (simp add: targets_def)
  have split: "targets es - seen = (targets es - seen') \<union> set new"
    using children_targets [of es x] by (auto simp: seen' n)
  have disj: "(targets es - seen') \<inter> set new = {}" by (auto simp: seen' n)
  have "card (targets es - seen) = card (targets es - seen') + card (set new)"
    unfolding split using fin disj by (intro card_Un_disjoint) auto
  then show ?thesis using d by (simp add: q' distinct_card)
qed

function search :: "lineage_edge list \<Rightarrow> string set \<Rightarrow> string list \<Rightarrow> string set" where
  "search es seen [] = seen"
| "search es seen (x # q) =
     (case visit_all (sort (children es x)) seen q of (seen', q') \<Rightarrow> search es seen' q')"
  by pat_completeness auto
termination
proof (relation "measure (\<lambda>(es, seen, q). card (targets es - seen) + length q)", goal_cases)
  case 1
  show ?case by simp
next
  case (2 es seen x q seen' q')
  note v = 2 [symmetric]
  show ?case using search_decreases [OF v] by (simp add: v)
qed

definition impacted_descendants :: "string list \<Rightarrow> lineage_edge list \<Rightarrow> string list" where
  "impacted_descendants changed es =
     sorted_list_of_set (search es (set changed) (sort changed) - set changed)"

section \<open>Correctness of the search\<close>

definition derives :: "lineage_edge list \<Rightarrow> (string \<times> string) set" where
  "derives es = set (map (\<lambda>e. (le_source_id e, le_derived_id e)) es)"

lemma children_derives: "y \<in> set (children es x) \<longleftrightarrow> (x, y) \<in> derives es"
  by (auto simp: children_def derives_def)

text \<open>Everything marked and no longer queued has all its children marked.\<close>

lemma search_correct:
  assumes "set q \<subseteq> seen" and "\<And>a b. a \<in> seen \<Longrightarrow> a \<notin> set q \<Longrightarrow> (a, b) \<in> derives es \<Longrightarrow> b \<in> seen"
  shows "search es seen q = (derives es)\<^sup>* `` seen"
  using assms
proof (induction es seen q rule: search.induct)
  case (1 es seen)
  have "b \<in> seen" if "(a, b) \<in> (derives es)\<^sup>*" "a \<in> seen" for a b
    using that 1(2) by (induction rule: rtrancl_induct) auto
  then show ?case by auto
next
  case (2 es seen x q)
  obtain seen' q' where v: "visit_all (sort (children es x)) seen q = (seen', q')" by fastforce
  have seen': "seen' = seen \<union> set (children es x)"
    using visit_all_seen [of "sort (children es x)" seen q] v by simp
  obtain new where new: "q' = q @ new" "set new = set (children es x) - seen"
    using visit_all_queue [of "sort (children es x)" seen q] v by auto
  have "search es seen' q' = (derives es)\<^sup>* `` seen'"
  proof (rule 2(1) [OF v [symmetric]])
    show "set q' \<subseteq> seen'" using 2(2) by (auto simp: new seen')
  next
    fix a b assume a: "a \<in> seen'" "a \<notin> set q'" "(a, b) \<in> derives es"
    show "b \<in> seen'"
    proof (cases "a = x")
      case True
      with a(3) show ?thesis by (simp add: seen' children_derives)
    next
      case False
      with a 2(3) [of a b] show ?thesis by (auto simp: new seen')
    qed
  qed
  moreover have "(derives es)\<^sup>* `` seen' = (derives es)\<^sup>* `` seen"
  proof -
    have "(derives es)\<^sup>* `` set (children es x) \<subseteq> (derives es)\<^sup>* `` {x}"
      by (auto simp: children_derives intro: converse_rtrancl_into_rtrancl)
    then show ?thesis using 2(2) by (auto simp: seen' Image_Un)
  qed
  ultimately show ?case by (simp add: v)
qed

lemma finite_derived: "finite ((derives es)\<^sup>* `` set xs)"
proof -
  have "(derives es)\<^sup>* `` set xs \<subseteq> set xs \<union> snd ` derives es"
    by (auto elim: rtranclE) (metis image_eqI rtranclE snd_conv)
  then show ?thesis by (rule finite_subset) (auto simp: derives_def)
qed

lemma impacted_exact: "set (impacted_descendants changed es) = (derives es)\<^sup>* `` set changed - set changed"
proof -
  have "search es (set changed) (sort changed) = (derives es)\<^sup>* `` set changed"
    by (rule search_correct) auto
  then show ?thesis using finite_derived [of es changed] by (simp add: impacted_descendants_def)
qed

lemmas decision_defs = diagnose_failure_def select_first_verified_def detect_quality_drift_def
  decide_semantic_health_def

section \<open>Properties\<close>

text \<open>Fact: failure diagnosis fails closed. A candidate is accepted exactly when the transport
  succeeded, the response schema was valid and no reason code was reported, and then nothing else
  is reported; a refusal always names a reason and an action; it is an infrastructure failure
  exactly when the transport, the schema or a listed infrastructure code says so, so that an
  unknown code counts as a semantic failure and is labelled as such.\<close>

theorem diagnosis_fails_closed:
  "let d = diagnose_failure x;
       transport_ok = (200 \<le> fo_http_status x \<and> fo_http_status x < 300)
   in (fd_candidate_accepted d \<longleftrightarrow> transport_ok \<and> fo_schema_valid x \<and> fo_reason_codes x = [])
    \<and> (fd_candidate_accepted d \<longleftrightarrow> fd_state d = DG_HEALTHY)
    \<and> (fd_candidate_accepted d \<longleftrightarrow> fd_reason_codes d = [])
    \<and> (fd_candidate_accepted d \<longleftrightarrow> fd_actions d = [])
    \<and> (fd_class d = Some FC_INFRASTRUCTURE \<longleftrightarrow>
         \<not> (transport_ok \<and> fo_schema_valid x
            \<and> set (fo_reason_codes x) \<inter> set (''transport_http_failure'' # infrastructure_codes) = {}))
    \<and> (''unclassified_semantic_failure_fail_closed'' \<in> set (fd_reason_codes d) \<longleftrightarrow>
         ''unclassified_semantic_failure_fail_closed'' \<in> set (fo_reason_codes x)
         \<or> fd_class d = Some FC_SEMANTIC \<and> \<not> set (fo_reason_codes x) \<subseteq> set semantic_codes)"
proof -
  let ?L = "''unclassified_semantic_failure_fail_closed''"
  define T where "T = (200 \<le> fo_http_status x \<and> fo_http_status x < 300)"
  define R where "R = fo_reason_codes x @ (if T then [] else [''transport_http_failure''])
           @ (if fo_schema_valid x then [] else [''malformed_protocol''])"
  define I where "I = set (''transport_http_failure'' # infrastructure_codes)"
  have mal: "''malformed_protocol'' \<in> set infrastructure_codes"
    by (simp add: infrastructure_codes_def)
  have unk: "''unclassified_semantic_failure_fail_closed'' \<notin> set (''transport_http_failure'' # infrastructure_codes)"
    "''unclassified_semantic_failure_fail_closed'' \<notin> set semantic_codes"
    by (simp_all add: infrastructure_codes_def semantic_codes_def)
  have mal': "''malformed_protocol'' \<in> I" "''transport_http_failure'' \<in> I" "?L \<notin> I"
    using mal unk by (simp_all add: I_def)
  have R: "?L \<in> set R \<longleftrightarrow> ?L \<in> set (fo_reason_codes x)" "R = [] \<longleftrightarrow> T \<and> fo_schema_valid x \<and> fo_reason_codes x = []"
    and inf: "set R \<inter> I = {} \<longleftrightarrow> T \<and> fo_schema_valid x \<and> set (fo_reason_codes x) \<inter> I = {}"
    using mal' by (auto simp: R_def)
  show ?thesis
  proof (cases "set R \<inter> I = {}")
    case False
    then have ne: "filter (\<lambda>r. r \<in> I) R \<noteq> []" "R \<noteq> []" by (auto simp: filter_empty_conv)
    have d: "diagnose_failure x = \<lparr>fd_state = DG_INFRASTRUCTURE_FAILED, fd_class = Some FC_INFRASTRUCTURE,
           fd_reason_codes = sorted_set R,
           fd_actions = [''retry_same_recipe_different_worker'',
             ''alternate_gpu_or_image_if_policy_allows'', ''drain_worker_on_recurrence''],
           fd_candidate_accepted = False\<rparr>"
      unfolding diagnose_failure_def Let_def T_def [symmetric] R_def [symmetric] I_def [symmetric]
      using ne by simp
    show ?thesis
      unfolding d Let_def T_def [symmetric] I_def [symmetric]
      using False inf R ne by simp
  next
    case True
    then have e: "filter (\<lambda>r. r \<in> I) R = []" by (auto simp: filter_empty_conv)
    from True inf have TS: "T" "fo_schema_valid x" by auto
    then have RF: "R = fo_reason_codes x" by (simp add: R_def)
    have unk_eq: "filter (\<lambda>r. r \<notin> set [] \<and> r \<notin> set (filter (\<lambda>r. r \<in> set semantic_codes) R)) R
        = filter (\<lambda>r. r \<notin> set semantic_codes) R"
      by (rule filter_cong) auto
    show ?thesis
      unfolding diagnose_failure_def Let_def T_def [symmetric] R_def [symmetric] I_def [symmetric]
      using True inf R TS e unk(2) unk_eq unfolding RF
      by (auto simp: filter_empty_conv)
  qed
qed

text \<open>Fact: the first verified candidate. When a winner is returned it is eligible (evidence level
  at least 5, no hard failure) and no eligible candidate was verified earlier, ties broken by
  attempt id; the order in which the candidates are given does not matter when attempt ids are
  unique.\<close>

theorem first_verified_selected:
  assumes "select_first_verified cs = Inr (Some w)" and "distinct (map vc_attempt_id cs)"
    and "mset cs' = mset cs"
  shows "w \<in> set cs \<and> eligible w \<and> (\<forall>c \<in> set cs. eligible c \<longrightarrow> first_key w \<le> first_key c)
    \<and> select_first_verified cs' = Inr (Some w)"
proof -
  let ?es = "filter eligible cs" and ?es' = "filter eligible cs'"
  have sets: "set cs' = set cs" using assms(3) by (metis set_mset_mset)
  have aw: "\<not> list_ex (\<lambda>c. \<not> is_aware (vc_verified_at c)) ?es" and m: "min_by first_key ?es = Some w"
    using assms(1) by (auto simp: select_first_verified_def Let_def split: if_splits)
  have w: "w \<in> set ?es" "\<And>c. c \<in> set ?es \<Longrightarrow> first_key w \<le> first_key c"
    using min_by_mem [OF m] min_by_least [OF m] by blast+
  have inj: "inj_on first_key (set ?es')"
    using assms(2) sets by (auto simp: inj_on_def first_key_def distinct_map)
  have "?es' \<noteq> []" using w(1) sets by (auto simp: filter_empty_conv)
  then obtain w' where m': "min_by first_key ?es' = Some w'"
    using min_by_None_iff by (metis not_None_eq)
  have "w' = w"
    using min_by_unique [OF inj m', of w] w sets by simp
  with aw w m' sets show ?thesis
    by (auto simp: select_first_verified_def Let_def list_ex_iff)
qed

definition demo_candidate :: "string \<Rightarrow> int \<Rightarrow> verified_candidate" where
  "demo_candidate a t = \<lparr>vc_attempt_id = a, vc_verified_at = Aware t, vc_evidence_level = 5,
     vc_hard_failure_count = 0, vc_output_sha256 = ''''\<rparr>"

theorem first_verified_selected_witness:
  "select_first_verified [demo_candidate ''b'' 1, demo_candidate ''c'' 2, demo_candidate ''a'' 1]
     = Inr (Some (demo_candidate ''a'' 1))"
proof -
  have "select_first_verified [demo_candidate ''a'' 1, demo_candidate ''b'' 1, demo_candidate ''c'' 2]
     = Inr (Some (demo_candidate ''a'' 1))" by code_simp
  then show ?thesis
    using first_verified_selected [of "[demo_candidate ''a'' 1, demo_candidate ''b'' 1, demo_candidate ''c'' 2]"
      "demo_candidate ''a'' 1" "[demo_candidate ''b'' 1, demo_candidate ''c'' 2, demo_candidate ''a'' 1]"]
    by (simp add: demo_candidate_def)
qed

text \<open>Fact: the impact of a change is exact. \<open>impacted_descendants\<close> returns, without repeats and in
  sorted order, exactly the objects that derive (in one or more steps) from a changed object and
  are not themselves changed; cycles in the lineage do not matter.\<close>

theorem impact_scope_exact:
  "set (impacted_descendants changed es) = (derives es)\<^sup>* `` set changed - set changed
   \<and> sorted (impacted_descendants changed es) \<and> distinct (impacted_descendants changed es)"
  by (simp add: impacted_exact) (simp add: impacted_descendants_def)

end
