(* ===== verification/Topology.thy ===== *)
theory Topology
  imports Models StateMachine
begin

text \<open>
  \<^verbatim>\<open>akc_parallel_runtime/topology.py\<close>: endpoint pools and the workers attached to them. The
  registry's dictionaries are association lists, since \<open>attach_worker\<close> and \<open>workers\<close> iterate over
  them.
\<close>

section \<open>Data\<close>

datatype worker_type = WT_ACTIVE_WARM | WT_FLEX | WT_CPU_EVALUATOR | WT_ORCHESTRATOR

record runtime_stack =
  rs_runtime_image_digest :: string
  rs_framework :: string
  rs_cuda_version :: "string option"
  rs_serving_runtime :: string

definition mk_runtime_stack :: "runtime_stack \<Rightarrow> pyerr + runtime_stack" where
  "mk_runtime_stack r = require_all
     [(rs_runtime_image_digest r \<noteq> [] \<and> rs_framework r \<noteq> [] \<and> rs_serving_runtime r \<noteq> [],
        ValueError ''runtime stack identity fields are required'')] r"

record endpoint_pool =
  ep_pool_id :: string
  ep_model_revision :: string
  ep_worker_type :: worker_type
  ep_runtime_stack :: runtime_stack
  ep_capabilities :: "string set"
  ep_minimum_workers :: int
  ep_maximum_workers :: int

definition mk_endpoint_pool :: "endpoint_pool \<Rightarrow> pyerr + endpoint_pool" where
  "mk_endpoint_pool p = require_all
     [(ep_pool_id p \<noteq> [] \<and> ep_model_revision p \<noteq> [] \<and> ep_capabilities p \<noteq> {},
        ValueError ''endpoint pool identity and capabilities are required''),
      (\<not> (ep_minimum_workers p < 0 \<or> ep_maximum_workers p < 1),
        ValueError ''endpoint pool worker bounds are invalid''),
      (ep_minimum_workers p \<le> ep_maximum_workers p,
        ValueError ''minimum workers cannot exceed maximum workers''),
      (\<not> (ep_worker_type p = WT_ACTIVE_WARM \<and> ep_minimum_workers p < 1),
        ValueError ''active warm pools require at least one resident worker''),
      (\<not> (ep_worker_type p = WT_FLEX \<and> ep_minimum_workers p \<noteq> 0),
        ValueError ''flex pools must support scale-to-zero'')] p"

record pool_worker =
  pw_worker_id :: string
  pw_pool_id :: string
  pw_model_revision :: string
  pw_runtime_stack :: runtime_stack
  pw_gpu_type :: "string option"

definition mk_pool_worker :: "pool_worker \<Rightarrow> pyerr + pool_worker" where
  "mk_pool_worker w = require_all
     [(pw_worker_id w \<noteq> [] \<and> pw_pool_id w \<noteq> [] \<and> pw_model_revision w \<noteq> [],
        ValueError ''pool worker identity fields are required'')] w"

section \<open>EndpointPoolRegistry\<close>

record pool_registry =
  pr_pools :: "(string \<times> endpoint_pool) list"
  pr_workers :: "(string \<times> pool_worker) list"

definition new_pool_registry :: pool_registry where
  "new_pool_registry = \<lparr>pr_pools = [], pr_workers = []\<rparr>"

definition register_pool :: "endpoint_pool \<Rightarrow> pool_registry \<Rightarrow> (pool_registry, endpoint_pool) outcome" where
  "register_pool p s =
    (if (case map_of (pr_pools s) (ep_pool_id p) of None \<Rightarrow> False | Some ex \<Rightarrow> ex \<noteq> p)
     then (Inl (PoolConflictError ''endpoint pool contract cannot be mutated''), s)
     else (Inr p, s\<lparr>pr_pools := AList.update (ep_pool_id p) p (pr_pools s)\<rparr>))"

definition worker_count :: "string \<Rightarrow> pool_registry \<Rightarrow> nat" where
  "worker_count pid s = length (filter (\<lambda>w. pw_pool_id w = pid) (map snd (pr_workers s)))"

definition attach_worker :: "pool_worker \<Rightarrow> pool_registry \<Rightarrow> (pool_registry, pool_worker) outcome" where
  "attach_worker w s =
    (case map_of (pr_pools s) (pw_pool_id w) of
      None \<Rightarrow> (Inl (KeyError (pw_pool_id w)), s)
    | Some pool \<Rightarrow>
        (if pw_model_revision w \<noteq> ep_model_revision pool
         then (Inl (PoolConflictError ''worker model revision does not match its endpoint pool''), s)
         else if pw_runtime_stack w \<noteq> ep_runtime_stack pool
         then (Inl (PoolConflictError ''worker runtime stack does not match its endpoint pool''), s)
         else (case map_of (pr_workers s) (pw_worker_id w) of
           Some ex \<Rightarrow>
             (if ex \<noteq> w
              then (Inl (PoolConflictError ''worker identity cannot move between endpoint pools''), s)
              else (Inr ex, s))
         | None \<Rightarrow>
             (if int (worker_count (ep_pool_id pool) s) \<ge> ep_maximum_workers pool
              then (Inl (PoolConflictError ''endpoint pool maximum worker capacity exceeded''), s)
              else (Inr w, s\<lparr>pr_workers := AList.update (pw_worker_id w) w (pr_workers s)\<rparr>)))))"

definition workers :: "string \<Rightarrow> pool_registry \<Rightarrow> pool_worker list" where
  "workers pid s = sort_key pw_worker_id (filter (\<lambda>w. pw_pool_id w = pid) (map snd (pr_workers s)))"

section \<open>evaluate_pool_capacity\<close>

record pool_capacity_deficit =
  pd_pool_id :: string
  pd_minimum_workers :: int
  pd_serving_worker_count :: int
  pd_unavailable_worker_ids :: "string list"
  pd_replacements_required :: int

definition satisfied :: "pool_capacity_deficit \<Rightarrow> bool" where
  "satisfied d \<longleftrightarrow> pd_replacements_required d = 0"

definition evaluate_pool_capacity :: "endpoint_pool \<Rightarrow> pool_worker list \<Rightarrow> string set \<Rightarrow> pool_capacity_deficit" where
  "evaluate_pool_capacity pool ws serving_ids =
    (let attached = map pw_worker_id ws;
         serving = sort (filter (\<lambda>w. w \<in> serving_ids) attached);
         unavailable = sorted_set (filter (\<lambda>w. w \<notin> set serving) attached)
     in \<lparr>pd_pool_id = ep_pool_id pool, pd_minimum_workers = ep_minimum_workers pool,
         pd_serving_worker_count = int (length serving),
         pd_unavailable_worker_ids = unavailable,
         pd_replacements_required = max 0 (ep_minimum_workers pool - int (length serving))\<rparr>)"

section \<open>Invariant\<close>

datatype pool_call = RegisterPool endpoint_pool | AttachWorker pool_worker

fun pool_op :: "pool_call \<Rightarrow> pool_registry \<Rightarrow> (pool_registry, unit) outcome" where
  "pool_op (RegisterPool p) s = (case register_pool p s of (r, s') \<Rightarrow> (mapR (\<lambda>_. ()) r, s'))"
| "pool_op (AttachWorker w) s = (case attach_worker w s of (r, s') \<Rightarrow> (mapR (\<lambda>_. ()) r, s'))"

text \<open>
  Every worker sits in a registered pool with that pool's model revision and stack, every pool is
  within its maximum, keys are the identities of the values and occur once.
\<close>

definition pool_inv :: "pool_registry \<Rightarrow> bool" where
  "pool_inv s \<longleftrightarrow>
     distinct (map fst (pr_pools s)) \<and> distinct (map fst (pr_workers s)) \<and>
     (\<forall>(k, p) \<in> set (pr_pools s). k = ep_pool_id p) \<and>
     (\<forall>(k, w) \<in> set (pr_workers s). k = pw_worker_id w \<and>
        (\<exists>p. map_of (pr_pools s) (pw_pool_id w) = Some p \<and> pw_model_revision w = ep_model_revision p
           \<and> pw_runtime_stack w = ep_runtime_stack p)) \<and>
     (\<forall>(k, p) \<in> set (pr_pools s). int (worker_count k s) \<le> max 0 (ep_maximum_workers p))"

lemma pool_inv_new: "pool_inv new_pool_registry"
  by (simp add: pool_inv_def new_pool_registry_def)

lemma register_pool_cases:
  "register_pool p s = (r, s') \<Longrightarrow> s' = s \<or>
     (map_of (pr_pools s) (ep_pool_id p) = None \<and> s' = s\<lparr>pr_pools := pr_pools s @ [(ep_pool_id p, p)]\<rparr>)"
  by (auto simp: register_pool_def update_same update_new split: option.splits if_splits)

lemma attach_worker_cases:
  "attach_worker w s = (r, s') \<Longrightarrow> s' = s \<or>
     (\<exists>p. map_of (pr_workers s) (pw_worker_id w) = None \<and> map_of (pr_pools s) (pw_pool_id w) = Some p
       \<and> pw_model_revision w = ep_model_revision p \<and> pw_runtime_stack w = ep_runtime_stack p
       \<and> int (worker_count (ep_pool_id p) s) < ep_maximum_workers p
       \<and> s' = s\<lparr>pr_workers := pr_workers s @ [(pw_worker_id w, w)]\<rparr>)"
  by (auto simp: attach_worker_def update_new split: option.splits if_splits)

lemma worker_count_pools [simp]: "worker_count k (s\<lparr>pr_pools := ps\<rparr>) = worker_count k s"
  by (simp add: worker_count_def)

lemma worker_count_snoc: "worker_count k (s\<lparr>pr_workers := pr_workers s @ [(i, w)]\<rparr>)
    = worker_count k s + (if pw_pool_id w = k then 1 else 0)"
  by (simp add: worker_count_def)

lemma worker_count_unregistered:
  assumes "pool_inv s" and "map_of (pr_pools s) k = None"
  shows "worker_count k s = 0"
  using assms by (fastforce simp: worker_count_def pool_inv_def filter_empty_conv)

lemma pool_inv_register:
  assumes inv: "pool_inv s" and "register_pool p s = (r, s')"
  shows "pool_inv s'"
  using register_pool_cases [OF assms(2)]
proof
  assume "s' = s" with inv show ?thesis by simp
next
  assume a: "map_of (pr_pools s) (ep_pool_id p) = None \<and> s' = s\<lparr>pr_pools := pr_pools s @ [(ep_pool_id p, p)]\<rparr>"
  then have "worker_count (ep_pool_id p) s = 0" using worker_count_unregistered [OF inv] by blast
  moreover have "map_of (pr_pools s') k = Some q" if "map_of (pr_pools s) k = Some q" for k q
    using a that by (auto simp: map_add_Some_iff)
  ultimately show ?thesis
    using inv a unfolding pool_inv_def by (fastforce simp: map_of_eq_None_iff)
qed

lemma pool_inv_attach:
  assumes inv: "pool_inv s" and "attach_worker w s = (r, s')"
  shows "pool_inv s'"
  using attach_worker_cases [OF assms(2)]
proof
  assume "s' = s" with inv show ?thesis by simp
next
  assume "\<exists>p. map_of (pr_workers s) (pw_worker_id w) = None \<and> map_of (pr_pools s) (pw_pool_id w) = Some p
       \<and> pw_model_revision w = ep_model_revision p \<and> pw_runtime_stack w = ep_runtime_stack p
       \<and> int (worker_count (ep_pool_id p) s) < ep_maximum_workers p
       \<and> s' = s\<lparr>pr_workers := pr_workers s @ [(pw_worker_id w, w)]\<rparr>"
  then obtain p where new: "map_of (pr_workers s) (pw_worker_id w) = None"
    and p: "map_of (pr_pools s) (pw_pool_id w) = Some p" "pw_model_revision w = ep_model_revision p"
      "pw_runtime_stack w = ep_runtime_stack p" "int (worker_count (ep_pool_id p) s) < ep_maximum_workers p"
    and s': "s' = s\<lparr>pr_workers := pr_workers s @ [(pw_worker_id w, w)]\<rparr>" by blast
  have id: "ep_pool_id p = pw_pool_id w"
    using inv map_of_SomeD [OF p(1)] by (auto simp: pool_inv_def)
  have "int (worker_count k s') \<le> max 0 (ep_maximum_workers q)" if "(k, q) \<in> set (pr_pools s)" for k q
  proof -
    have le: "int (worker_count k s) \<le> max 0 (ep_maximum_workers q)"
      using inv that by (auto simp: pool_inv_def)
    show ?thesis
    proof (cases "pw_pool_id w = k")
      case True
      with p(1) that inv have "q = p" by (metis map_of_eq_Some_iff option.inject pool_inv_def)
      with p(4) id True show ?thesis unfolding s' worker_count_snoc by simp
    next
      case False
      with le show ?thesis unfolding s' worker_count_snoc by simp
    qed
  qed
  with inv new p s' show ?thesis
    unfolding pool_inv_def by (auto simp: map_of_eq_None_iff)
qed

lemma pool_inv_op: "pool_inv s \<Longrightarrow> pool_inv (snd (pool_op c s))"
  by (cases c) (auto split: prod.splits dest: pool_inv_register pool_inv_attach)

interpretation pools: write_once "\<lambda>s. map_of (pr_pools s)" pool_op
proof
  fix s :: pool_registry and k v c assume "map_of (pr_pools s) k = Some v"
  then show "map_of (pr_pools (snd (pool_op c s))) k = Some v"
    by (cases c) (auto split: prod.splits dest!: register_pool_cases attach_worker_cases simp: map_add_Some_iff)
qed

interpretation pool_workers: write_once "\<lambda>s. map_of (pr_workers s)" pool_op
proof
  fix s :: pool_registry and k v c assume "map_of (pr_workers s) k = Some v"
  then show "map_of (pr_workers (snd (pool_op c s))) k = Some v"
    by (cases c) (auto split: prod.splits dest!: register_pool_cases attach_worker_cases simp: map_add_Some_iff)
qed

section \<open>Properties\<close>

text \<open>C39: no drift inside a pool. After any registrations and attachments, refused ones included,
  the workers a pool lists are all attached to it, in ascending order of distinct ids; each of them
  has exactly the model revision and the runtime stack of the registered pool, and there are never
  more of them than the pool's maximum.\<close>

theorem pool_isolation:
  assumes "s = run_ops pool_op cs new_pool_registry" and "w \<in> set (workers pid s)"
  shows "\<exists>p. map_of (pr_pools s) pid = Some p \<and> ep_pool_id p = pid \<and> pw_pool_id w = pid
    \<and> pw_model_revision w = ep_model_revision p \<and> pw_runtime_stack w = ep_runtime_stack p
    \<and> sorted (map pw_worker_id (workers pid s)) \<and> distinct (map pw_worker_id (workers pid s))
    \<and> int (length (workers pid s)) \<le> ep_maximum_workers p"
proof -
  have inv: "pool_inv s"
    unfolding assms(1) by (rule run_ops_invariant [OF pool_inv_op pool_inv_new])
  from assms(2) obtain k where w: "(k, w) \<in> set (pr_workers s)" "pw_pool_id w = pid"
    by (auto simp: workers_def)
  with inv obtain p where p: "map_of (pr_pools s) pid = Some p" "pw_model_revision w = ep_model_revision p"
    "pw_runtime_stack w = ep_runtime_stack p" by (fastforce simp: pool_inv_def)
  have "int (worker_count pid s) \<le> max 0 (ep_maximum_workers p)"
    using inv map_of_SomeD [OF p(1)] by (auto simp: pool_inv_def)
  moreover have "length (workers pid s) = worker_count pid s"
    by (simp add: workers_def worker_count_def)
  moreover have "length (workers pid s) > 0" using assms(2) by (cases "workers pid s") auto
  moreover have "ep_pool_id p = pid" using inv map_of_SomeD [OF p(1)] by (auto simp: pool_inv_def)
  moreover have "sorted (map pw_worker_id (workers pid s))" by (simp add: workers_def)
  moreover have "distinct (map pw_worker_id (workers pid s))"
  proof -
    have m: "map pw_worker_id (map snd (pr_workers s)) = map fst (pr_workers s)"
      using inv by (auto simp: pool_inv_def)
    have "distinct (map pw_worker_id (map snd (pr_workers s)))" unfolding m using inv by (simp add: pool_inv_def)
    then have "distinct (map pw_worker_id (filter (\<lambda>w. pw_pool_id w = pid) (map snd (pr_workers s))))"
      by (rule distinct_map_filter)
    then show ?thesis unfolding workers_def by (simp add: distinct_map)
  qed
  ultimately show ?thesis using p w(2) by auto
qed

definition demo_stack :: runtime_stack where
  "demo_stack = \<lparr>rs_runtime_image_digest = ''i'', rs_framework = ''f'', rs_cuda_version = None,
     rs_serving_runtime = ''v''\<rparr>"

definition demo_pool :: endpoint_pool where
  "demo_pool = \<lparr>ep_pool_id = ''p'', ep_model_revision = ''m'', ep_worker_type = WT_FLEX,
     ep_runtime_stack = demo_stack, ep_capabilities = {''ocr''}, ep_minimum_workers = 0,
     ep_maximum_workers = 1\<rparr>"

definition demo_worker :: "string \<Rightarrow> pool_worker" where
  "demo_worker i = \<lparr>pw_worker_id = i, pw_pool_id = ''p'', pw_model_revision = ''m'',
     pw_runtime_stack = demo_stack, pw_gpu_type = None\<rparr>"

lemmas demo_pool_defs = demo_stack_def demo_pool_def demo_worker_def

theorem pool_isolation_witness:
  "\<exists>p. map_of (pr_pools (run_ops pool_op [RegisterPool demo_pool, AttachWorker (demo_worker ''a''),
         AttachWorker (demo_worker ''b'')] new_pool_registry)) ''p'' = Some p
    \<and> int (length (workers ''p'' (run_ops pool_op [RegisterPool demo_pool, AttachWorker (demo_worker ''a''),
         AttachWorker (demo_worker ''b'')] new_pool_registry))) \<le> ep_maximum_workers p"
proof -
  let ?s = "run_ops pool_op [RegisterPool demo_pool, AttachWorker (demo_worker ''a''),
         AttachWorker (demo_worker ''b'')] new_pool_registry"
  have "demo_worker ''a'' \<in> set (workers ''p'' ?s)"
    by (simp add: new_pool_registry_def register_pool_def attach_worker_def worker_count_def workers_def
        demo_pool_defs)
  from pool_isolation [OF refl this] show ?thesis by blast
qed

text \<open>Fact: registrations are permanent. Once a pool contract or a worker is registered, no later
  call changes or removes it: a call that would is refused and changes nothing.\<close>

theorem registrations_permanent:
  assumes "map_of (pr_pools s) pid = Some p" and "map_of (pr_workers s) wid = Some w"
  shows "map_of (pr_pools (run_ops pool_op cs s)) pid = Some p
    \<and> map_of (pr_workers (run_ops pool_op cs s)) wid = Some w
    \<and> (\<forall>p'. ep_pool_id p' = pid \<and> p' \<noteq> p \<longrightarrow>
         register_pool p' (run_ops pool_op cs s)
           = (Inl (PoolConflictError ''endpoint pool contract cannot be mutated''), run_ops pool_op cs s))
    \<and> (\<forall>w'. pw_worker_id w' = wid \<and> w' \<noteq> w \<longrightarrow>
         (\<exists>e. attach_worker w' (run_ops pool_op cs s) = (Inl e, run_ops pool_op cs s)))"
  using pools.run_keeps [OF assms(1), of cs] pool_workers.run_keeps [OF assms(2), of cs]
  by (auto simp: register_pool_def attach_worker_def split: option.splits)

theorem registrations_permanent_witness:
  "map_of (pr_workers (run_ops pool_op [AttachWorker (demo_worker ''b'')]
     \<lparr>pr_pools = [(''p'', demo_pool)], pr_workers = [(''a'', demo_worker ''a'')]\<rparr>)) ''a''
   = Some (demo_worker ''a'')"
  using registrations_permanent [of "\<lparr>pr_pools = [(''p'', demo_pool)], pr_workers = [(''a'', demo_worker ''a'')]\<rparr>"
    "''p''" demo_pool "''a''" "demo_worker ''a''" "[AttachWorker (demo_worker ''b'')]"] by simp

text \<open>Fact: the capacity report is exact. The attached workers split into the serving ones, counted
  with repetition, and the unavailable ones; \<open>replacements_required\<close> is the least number of extra
  serving workers that brings the pool to its declared minimum, so the pool is \<open>satisfied\<close> exactly
  when it serves at least its minimum.\<close>

theorem capacity_exact:
  "let d = evaluate_pool_capacity pool ws serving_ids; n = pd_serving_worker_count d
   in n = int (length (filter (\<lambda>w. pw_worker_id w \<in> serving_ids) ws))
    \<and> set (pd_unavailable_worker_ids d) = pw_worker_id ` set ws - serving_ids
    \<and> ep_minimum_workers pool \<le> n + pd_replacements_required d
    \<and> 0 \<le> pd_replacements_required d
    \<and> (pd_replacements_required d = 0 \<or> n + pd_replacements_required d = ep_minimum_workers pool)
    \<and> (satisfied d \<longleftrightarrow> ep_minimum_workers pool \<le> n)"
  by (auto simp: evaluate_pool_capacity_def Let_def satisfied_def filter_map comp_def)

end
