(* ===== verification/Scheduling.thy ===== *)
theory Scheduling
  imports Journal StateMachine
begin

text \<open>
  \<^verbatim>\<open>akc_parallel_runtime/scheduling.py\<close>: the aging priority queue, worker selection, bin
  packing by size, admission control, hedging and scale-down. Timestamps are in microseconds, so
  \<open>total_seconds()\<close> divides by a million.
\<close>

section \<open>JobPriority and WorkItem\<close>

datatype job_priority = JP_TINY_QUICK | JP_INTERACTIVE | JP_BENCHMARK | JP_RECOVERY | JP_BULK_BACKGROUND

fun prio_value :: "job_priority \<Rightarrow> nat" where
  "prio_value JP_TINY_QUICK = 0"
| "prio_value JP_INTERACTIVE = 1"
| "prio_value JP_BENCHMARK = 2"
| "prio_value JP_RECOVERY = 3"
| "prio_value JP_BULK_BACKGROUND = 4"

lemma prio_value_inj: "prio_value a = prio_value b \<Longrightarrow> a = b"
  by (cases a; cases b) simp_all

text \<open>An IntEnum is ordered by its value.\<close>

instantiation job_priority :: linorder
begin

definition less_eq_job_priority :: "job_priority \<Rightarrow> job_priority \<Rightarrow> bool" where
  "less_eq_job_priority a b \<longleftrightarrow> prio_value a \<le> prio_value b"

definition less_job_priority :: "job_priority \<Rightarrow> job_priority \<Rightarrow> bool" where
  "less_job_priority a b \<longleftrightarrow> prio_value a < prio_value b"

instance
  by standard (auto simp: less_eq_job_priority_def less_job_priority_def dest: prio_value_inj)

end

record work_item =
  wi_work_id :: string
  wi_shard_id :: string
  wi_priority :: job_priority
  wi_estimated_seconds :: rat
  wi_required_capabilities :: "string set"
  wi_model_cache_key :: string
  wi_enqueued_at :: datetime
  wi_sequence :: int

definition mk_work_item :: "work_item \<Rightarrow> pyerr + work_item" where
  "mk_work_item w = require_all
     [(wi_work_id w \<noteq> [] \<and> wi_shard_id w \<noteq> [] \<and> wi_model_cache_key w \<noteq> [],
        ValueError ''work identity fields are required''),
      (\<not> (wi_estimated_seconds w < 0 \<or> wi_sequence w < 0),
        ValueError ''work duration and sequence cannot be negative''),
      (is_aware (wi_enqueued_at w), ValueError ''work enqueue time must be timezone-aware'')] w"

section \<open>FairPriorityQueue\<close>

record fair_queue =
  fq_aging_seconds :: rat
  fq_items :: "(string \<times> work_item) list"

definition new_fair_queue :: "rat \<Rightarrow> pyerr + fair_queue" where
  "new_fair_queue aging = require_all
     [(0 < aging, ValueError ''aging_seconds must be positive'')] \<lparr>fq_aging_seconds = aging, fq_items = []\<rparr>"

definition put :: "work_item \<Rightarrow> fair_queue \<Rightarrow> (fair_queue, work_item) outcome" where
  "put w q =
    (if (case map_of (fq_items q) (wi_work_id w) of None \<Rightarrow> False | Some ex \<Rightarrow> ex \<noteq> w)
     then (Inl (PyRuntimeError ''work id cannot be reused with different scheduling input''), q)
     else (Inr w, q\<lparr>fq_items := AList.update (wi_work_id w) w (fq_items q)\<rparr>))"

definition effective_priority :: "rat \<Rightarrow> int \<Rightarrow> work_item \<Rightarrow> rat" where
  "effective_priority aging now w =
    (let waited = max 0 (of_int (now - instant (wi_enqueued_at w)) / 1000000)
     in max 0 (of_nat (prio_value (wi_priority w)) - waited / aging))"

definition queue_key :: "rat \<Rightarrow> int \<Rightarrow> work_item \<Rightarrow> rat \<times> rat \<times> int \<times> string" where
  "queue_key aging now w =
     (effective_priority aging now w, wi_estimated_seconds w, wi_sequence w, wi_work_id w)"

definition pop :: "datetime \<Rightarrow> fair_queue \<Rightarrow> (fair_queue, work_item) outcome" where
  "pop now q =
    (if \<not> is_aware now then (Inl (ValueError ''queue time must be timezone-aware''), q)
     else (case min_by (queue_key (fq_aging_seconds q) (instant now)) (map snd (fq_items q)) of
       None \<Rightarrow> (Inl (IndexError ''queue is empty''), q)
     | Some w \<Rightarrow> (Inr w, q\<lparr>fq_items := AList.delete (wi_work_id w) (fq_items q)\<rparr>)))"

text \<open>\<open>snapshot\<close> does not check \<open>now\<close>: subtracting an aware stamp from a naive one raises TypeError.\<close>

definition queue_snapshot :: "datetime \<Rightarrow> fair_queue \<Rightarrow> pyerr + work_item list" where
  "queue_snapshot now q =
    (if fq_items q \<noteq> [] \<and> \<not> is_aware now then Inl TypeError
     else Inr (sort_key (queue_key (fq_aging_seconds q) (instant now)) (map snd (fq_items q))))"

definition queue_len :: "fair_queue \<Rightarrow> nat" where
  "queue_len q = length (fq_items q)"

section \<open>WorkerSelector\<close>

definition compatible :: "work_item \<Rightarrow> worker_snapshot \<Rightarrow> bool" where
  "compatible w x \<longleftrightarrow> ws_state x \<in> {WS_HEALTHY, WS_DEGRADED}
     \<and> wi_required_capabilities w \<subseteq> ws_capabilities x"

definition selection_key :: "work_item \<Rightarrow> worker_snapshot \<Rightarrow> nat \<times> nat \<times> nat \<times> rat \<times> rat \<times> string" where
  "selection_key w x =
     (if ws_state x = WS_HEALTHY then 0 else 1, if ws_warm x then 0 else 1,
      if wi_model_cache_key w \<in> ws_cached_models x then 0 else 1,
      ws_estimated_available_at x + wi_estimated_seconds w, - ws_semantic_score x, ws_worker_id x)"

definition select_worker :: "work_item \<Rightarrow> worker_snapshot list \<Rightarrow> pyerr + worker_snapshot" where
  "select_worker w xs =
    (case sort_key (selection_key w) (filter (compatible w) xs) of
      [] \<Rightarrow> Inl (PyRuntimeError ''no healthy compatible worker is available'')
    | x # _ \<Rightarrow> Inr x)"

section \<open>size_aware_bin_pack\<close>

text \<open>The two dictionaries of the loop, indexed by the worker ids, are total functions here.\<close>

type_synonym packing = "(string \<Rightarrow> rat) \<times> (string \<Rightarrow> work_item list)"

definition pack_step :: "string list \<Rightarrow> work_item \<Rightarrow> packing \<Rightarrow> packing" where
  "pack_step ids w st = (case st of (loads, asg) \<Rightarrow>
     (case min_by (\<lambda>i. (loads i, i)) ids of
       None \<Rightarrow> (loads, asg)
     | Some i \<Rightarrow> (loads(i := loads i + wi_estimated_seconds w), asg(i := asg i @ [w]))))"

definition packing_order :: "work_item list \<Rightarrow> work_item list" where
  "packing_order work = sort_key (\<lambda>w. (- wi_estimated_seconds w, wi_work_id w)) work"

definition size_aware_bin_pack ::
  "work_item list \<Rightarrow> string list \<Rightarrow> pyerr + (string \<times> work_item list) list" where
  "size_aware_bin_pack work ids =
    (if ids = [] \<or> \<not> distinct ids then Inl (ValueError ''unique worker ids are required'')
     else let asg = snd (fold (pack_step ids) (packing_order work) (\<lambda>_. 0, \<lambda>_. []))
       in Inr (map (\<lambda>i. (i, asg i)) ids))"

section \<open>evaluate_backpressure\<close>

record backpressure_snapshot =
  bp_queue_depth :: int
  bp_queue_high_watermark :: int
  bp_url_seconds_remaining :: rat
  bp_estimated_work_seconds :: rat
  bp_object_cache_available :: bool
  bp_evaluator_capacity :: int
  bp_database_capacity :: int
  bp_cost_anomaly :: bool

definition mk_backpressure_snapshot :: "backpressure_snapshot \<Rightarrow> pyerr + backpressure_snapshot" where
  "mk_backpressure_snapshot b = require_all
     [(0 \<le> bp_queue_depth b \<and> 0 \<le> bp_queue_high_watermark b \<and> 0 \<le> bp_url_seconds_remaining b
       \<and> 0 \<le> bp_estimated_work_seconds b \<and> 0 \<le> bp_evaluator_capacity b \<and> 0 \<le> bp_database_capacity b,
        ValueError ''backpressure values cannot be negative'')] b"

record admission_decision =
  ad_admitted :: bool
  ad_reason_codes :: "string list"

definition evaluate_backpressure :: "backpressure_snapshot \<Rightarrow> rat \<Rightarrow> admission_decision" where
  "evaluate_backpressure b margin =
    (let reasons =
       (if bp_queue_depth b \<ge> bp_queue_high_watermark b then [''queue_high_watermark''] else []) @
       (if bp_url_seconds_remaining b < bp_estimated_work_seconds b + margin
        then [''presigned_url_expiry_risk''] else []) @
       (if \<not> bp_object_cache_available b then [''object_cache_unavailable''] else []) @
       (if bp_evaluator_capacity b < 1 then [''evaluator_capacity_exhausted''] else []) @
       (if bp_database_capacity b < 1 then [''database_capacity_exhausted''] else []) @
       (if bp_cost_anomaly b then [''cost_anomaly''] else [])
     in \<lparr>ad_admitted = (reasons = []), ad_reason_codes = sort reasons\<rparr>)"

section \<open>HedgeController\<close>

record hedge_decision =
  hg_hedge_id :: "string option"
  hg_launch :: bool
  hg_reason_code :: string
  hg_original_attempt_id :: string
  hg_alternate_worker_id :: "string option"

record hedge_controller =
  hc_threshold :: rat
  hc_requests :: "string \<rightharpoonup> string \<times> hedge_decision"
  hc_launched :: "string \<times> string \<rightharpoonup> hedge_decision"

definition new_hedge_controller :: "rat \<Rightarrow> pyerr + hedge_controller" where
  "new_hedge_controller threshold = require_all
     [(1 < threshold, ValueError ''hedge threshold multiplier must exceed one'')]
     \<lparr>hc_threshold = threshold, hc_requests = Map.empty, hc_launched = Map.empty\<rparr>"

text \<open>The keyword arguments of \<open>decide\<close> other than the idempotency key.\<close>

record hedge_request =
  hr_original_attempt_id :: string
  hr_shard_id :: string
  hr_elapsed_seconds :: rat
  hr_predicted_p95_seconds :: rat
  hr_alternate_worker_id :: "string option"
  hr_original_verified :: bool
  hr_occurred_at :: datetime

definition hedge_identity :: "renv \<Rightarrow> hedge_request \<Rightarrow> string" where
  "hedge_identity E r = jsha E (JObj
     [(''original_attempt_id'', JStr (hr_original_attempt_id r)), (''shard_id'', JStr (hr_shard_id r)),
      (''elapsed_seconds'', JFloat (hr_elapsed_seconds r)),
      (''predicted_p95_seconds'', JFloat (hr_predicted_p95_seconds r)),
      (''alternate_worker_id'', jopt (hr_alternate_worker_id r)),
      (''original_verified'', JBool (hr_original_verified r))])"

definition no_hedge :: "string \<Rightarrow> hedge_request \<Rightarrow> hedge_decision" where
  "no_hedge reason r = \<lparr>hg_hedge_id = None, hg_launch = False, hg_reason_code = reason,
     hg_original_attempt_id = hr_original_attempt_id r, hg_alternate_worker_id = None\<rparr>"

definition remember_hedge :: "string \<Rightarrow> string \<Rightarrow> hedge_decision \<Rightarrow> hedge_controller \<Rightarrow> hedge_controller" where
  "remember_hedge key ident d hc = hc\<lparr>hc_requests := (hc_requests hc)(key \<mapsto> (ident, d))\<rparr>"

definition timing_ok :: "hedge_request \<Rightarrow> bool" where
  "timing_ok r \<longleftrightarrow> \<not> (hr_elapsed_seconds r < 0 \<or> hr_predicted_p95_seconds r \<le> 0)"

type_synonym hstate = "hedge_controller \<times> journal option"

definition decide :: "renv \<Rightarrow> hedge_request \<Rightarrow> string \<Rightarrow> hstate \<Rightarrow> (hstate, hedge_decision) outcome" where
  "decide E r key s =
    (if \<not> timing_ok r then (Inl (ValueError ''hedge timing must be positive''), s)
     else case s of (hc, oj) \<Rightarrow>
       let ident = hedge_identity E r; pair = (hr_original_attempt_id r, hr_shard_id r) in
       (case hc_requests hc key of
         Some (existing_identity, d) \<Rightarrow>
           (if existing_identity \<noteq> ident
            then (Inl (HedgeConflictError ''hedge key reused with different hedge input''), s)
            else (Inr d, s))
       | None \<Rightarrow>
       (case hc_launched hc pair of
         Some launched \<Rightarrow>
           (if hg_alternate_worker_id launched \<noteq> hr_alternate_worker_id r
            then (Inl (HedgeConflictError ''a shard attempt cannot launch multiple hedge workers''), s)
            else (Inr launched, (remember_hedge key ident launched hc, oj)))
       | None \<Rightarrow>
           (if hr_original_verified r
            then let d = no_hedge ''original_already_verified'' r
              in (Inr d, (remember_hedge key ident d hc, oj))
            else (case hr_alternate_worker_id r of
              None \<Rightarrow> let d = no_hedge ''no_alternate_worker'' r
                in (Inr d, (remember_hedge key ident d hc, oj))
            | Some alt \<Rightarrow>
                (if hr_elapsed_seconds r \<le> hr_predicted_p95_seconds r * hc_threshold hc
                 then let d = no_hedge ''below_hedge_threshold'' r
                   in (Inr d, (remember_hedge key ident d hc, oj))
                 else
                   let hid = stable_id E ''hedge'' [JStr (hr_original_attempt_id r),
                         JStr (hr_shard_id r), JStr alt, JStr key];
                       d = \<lparr>hg_hedge_id = Some hid, hg_launch = True,
                            hg_reason_code = ''predicted_p95_exceeded'',
                            hg_original_attempt_id = hr_original_attempt_id r,
                            hg_alternate_worker_id = Some alt\<rparr>
                   in (case emit E ''attempt.hedged.v1'' (hr_original_attempt_id r)
                         [(''hedge_id'', PStr hid), (''shard_id'', PStr (hr_shard_id r)),
                          (''alternate_worker_id'', PStr alt), (''duplicate_billable'', PBool False)]
                         (hr_occurred_at r) (''attempt-hedged:'' @ key) oj of
                       (Inl e, oj') \<Rightarrow> (Inl e, (hc, oj'))
                     | (Inr _, oj') \<Rightarrow> (Inr d, (remember_hedge key ident d
                         (hc\<lparr>hc_launched := (hc_launched hc)(pair \<mapsto> d)\<rparr>), oj')))))))))"

section \<open>straggler_candidates and can_scale_down\<close>

definition median :: "rat list \<Rightarrow> rat" where
  "median xs = (let ys = sort xs; middle = length ys div 2
     in if odd (length ys) then ys ! middle else (ys ! (middle - 1) + ys ! middle) / 2)"

definition straggler_candidates ::
  "int \<Rightarrow> (string \<times> rat) list \<Rightarrow> rat list \<Rightarrow> rat \<Rightarrow> pyerr + string list" where
  "straggler_candidates total_shards incomplete completed multiplier =
    (if total_shards < 1 \<or> multiplier \<le> 1
     then Inl (ValueError ''total shards and straggler multiplier must be valid'')
     else if completed = [] \<or> list_ex (\<lambda>v. v < 0) completed then Inr []
     else if int (length incomplete) > max 1 \<lceil>rat_of_int total_shards * (1/10)\<rceil> then Inr []
     else let threshold = median completed * multiplier
       in Inr (map fst (filter (\<lambda>p. threshold < snd p) (sort incomplete))))"

definition can_scale_down :: "bool \<Rightarrow> int \<Rightarrow> bool \<Rightarrow> bool \<Rightarrow> int \<Rightarrow> int \<Rightarrow> pyerr + bool" where
  "can_scale_down queue_empty in_flight uploaded grace current minimum =
    (if in_flight < 0 \<or> current < 0 \<or> minimum < 0
     then Inl (ValueError ''worker counts cannot be negative'')
     else Inr (queue_empty \<and> in_flight = 0 \<and> uploaded \<and> grace \<and> current > minimum))"

section \<open>The queue\<close>

definition queue_wf :: "fair_queue \<Rightarrow> bool" where
  "queue_wf q \<longleftrightarrow> keyed wi_work_id (fq_items q)"

datatype queue_call = Put work_item | Pop datetime

fun queue_op :: "queue_call \<Rightarrow> fair_queue \<Rightarrow> (fair_queue, work_item) outcome" where
  "queue_op (Put w) q = put w q"
| "queue_op (Pop t) q = pop t q"

text \<open>Up to \<open>n\<close> pops at one time, and what they return.\<close>

fun drain :: "nat \<Rightarrow> datetime \<Rightarrow> fair_queue \<Rightarrow> work_item list" where
  "drain 0 now q = []"
| "drain (Suc n) now q = (case pop now q of (Inl e, q') \<Rightarrow> [] | (Inr w, q') \<Rightarrow> w # drain n now q')"

lemma queue_wf_put: "queue_wf q \<Longrightarrow> put w q = (r, q') \<Longrightarrow> queue_wf q'"
  by (auto simp: put_def queue_wf_def keyed_update split: if_splits)

lemma queue_wf_pop: "queue_wf q \<Longrightarrow> pop t q = (r, q') \<Longrightarrow> queue_wf q'"
  by (auto simp: pop_def queue_wf_def keyed_delete split: if_splits option.splits)

lemma queue_wf_op: "queue_wf q \<Longrightarrow> queue_wf (snd (queue_op c q))"
  by (cases c; cases "queue_op c q") (auto intro: queue_wf_put queue_wf_pop)

lemma queue_wf_new: "new_fair_queue a = Inr q \<Longrightarrow> queue_wf q"
  unfolding new_fair_queue_def require_all_Inr_iff by (simp add: queue_wf_def)

lemma queue_wf_reachable: "new_fair_queue a = Inr q0 \<Longrightarrow> queue_wf (run_ops queue_op cs q0)"
  by (rule run_ops_invariant [where I = queue_wf]) (auto intro: queue_wf_op queue_wf_new)

lemma queue_ids: "queue_wf q \<Longrightarrow> distinct (map wi_work_id (map snd (fq_items q)))"
  unfolding queue_wf_def by (rule keyed_values)

lemma queue_key_inj: "queue_wf q \<Longrightarrow> inj_on (queue_key a t) (set (map snd (fq_items q)))"
  using queue_ids [of q] by (auto simp: inj_on_def queue_key_def distinct_map)

lemma min_by_hd_sort:
  assumes "inj_on f (set xs)" and "xs \<noteq> []"
  shows "min_by f xs = Some (hd (sort_key f xs))"
proof -
  obtain w where w: "min_by f xs = Some w" using assms(2) min_by_None_iff by (metis not_None_eq)
  with assms sort_key_hd_min [OF assms(2)] min_by_unique [OF assms(1) w] show ?thesis by metis
qed


lemma pop_takes_head:
  assumes "queue_wf q" and "is_aware now" and "queue_snapshot now q = Inr (w # ws)"
  shows "\<exists>q'. pop now q = (Inr w, q') \<and> queue_snapshot now q' = Inr ws \<and> queue_wf q'"
proof -
  let ?f = "queue_key (fq_aging_seconds q) (instant now)" and ?xs = "map snd (fq_items q)"
  let ?q' = "q\<lparr>fq_items := AList.delete (wi_work_id w) (fq_items q)\<rparr>"
  have srt: "sort_key ?f ?xs = w # ws"
    using assms by (auto simp: queue_snapshot_def split: if_splits)
  have "min_by ?f ?xs = Some w"
    using min_by_hd_sort [OF queue_key_inj [OF assms(1)], of "fq_aging_seconds q" "instant now"] srt
    by (metis list.sel(1) list.simps(3) sort_key_simps(1))
  then have p: "pop now q = (Inr w, ?q')" using assms(2) by (simp add: pop_def)
  have "distinct (map wi_work_id (w # ws))"
    using queue_ids [OF assms(1)] by (metis srt distinct_map distinct_sort set_sort)
  then have "filter (\<lambda>x. wi_work_id x \<noteq> wi_work_id w) (w # ws) = ws"
    by (auto simp: filter_id_conv image_iff)
  then have "sort_key ?f (map snd (AList.delete (wi_work_id w) (fq_items q))) = ws"
    using assms(1) srt by (simp only: queue_wf_def keyed_delete_values filter_sort [symmetric])
  with assms(2) p queue_wf_pop [OF assms(1) p] show ?thesis
    by (simp add: queue_snapshot_def)
qed

lemma drain_snapshot:
  "queue_wf q \<Longrightarrow> is_aware now \<Longrightarrow> queue_snapshot now q = Inr ws \<Longrightarrow> drain (length ws) now q = ws"
proof (induction ws arbitrary: q)
  case Nil
  then show ?case by simp
next
  case (Cons w ws)
  then show ?case using pop_takes_head [of q now w ws] by fastforce
qed

section \<open>Packing\<close>

lemma fold_snoc_induct:
  assumes "P [] s" and "\<And>xs x. P xs (fold f xs s) \<Longrightarrow> P (xs @ [x]) (f x (fold f xs s))"
  shows "P ws (fold f ws s)"
  using assms by (induction ws rule: rev_induct) auto

abbreviation total_seconds :: "work_item list \<Rightarrow> rat" where
  "total_seconds ws \<equiv> sum_list (map wi_estimated_seconds ws)"

text \<open>
  Loads are what was assigned, every item is assigned once, and a worker without its last item
  is not more loaded than any other.
\<close>

definition packing_inv :: "string list \<Rightarrow> work_item list \<Rightarrow> packing \<Rightarrow> bool" where
  "packing_inv ids ws st \<longleftrightarrow> (case st of (loads, asg) \<Rightarrow>
     (\<forall>i. loads i = total_seconds (asg i)) \<and>
     mset (concat (map asg ids)) = mset ws \<and>
     (\<forall>i \<in> set ids. \<forall>j \<in> set ids. asg i \<noteq> [] \<longrightarrow> loads i - wi_estimated_seconds (last (asg i)) \<le> loads j))"

lemma concat_upd:
  assumes "distinct ids" and "i \<in> set ids"
  shows "mset (concat (map (asg(i := asg i @ [w])) ids)) = mset (concat (map asg ids)) + {#w#}"
proof -
  from assms(2) obtain as bs where ids: "ids = as @ i # bs" by (meson split_list)
  with assms(1) have n: "i \<notin> set as" "i \<notin> set bs" by auto
  have a: "map (asg(i := asg i @ [w])) as = map asg as" and b: "map (asg(i := asg i @ [w])) bs = map asg bs"
    by (rule map_cong [OF refl], use n in auto)+
  show ?thesis unfolding ids map_append list.map a b by simp
qed

lemma packing_inv_step:
  assumes "distinct ids" and "ids \<noteq> []" and "0 \<le> wi_estimated_seconds w" and "packing_inv ids ws st"
  shows "packing_inv ids (ws @ [w]) (pack_step ids w st)"
proof -
  obtain loads asg where st: "st = (loads, asg)" by (cases st)
  from assms(2) obtain i where i: "min_by (\<lambda>i. (loads i, i)) ids = Some i"
    using min_by_None_iff by (metis not_None_eq)
  have mem: "i \<in> set ids" and least: "\<And>j. j \<in> set ids \<Longrightarrow> loads i \<le> loads j"
    using min_by_mem [OF i] min_by_least [OF i] by (fastforce simp: less_eq_prod_def)+
  have step: "pack_step ids w (loads, asg)
      = (loads(i := loads i + wi_estimated_seconds w), asg(i := asg i @ [w]))"
    by (simp add: pack_step_def i)
  have old: "loads k - wi_estimated_seconds (last (asg k)) \<le> loads j"
    if "k \<in> set ids" "j \<in> set ids" "asg k \<noteq> []" for k j
    using assms(4) that by (auto simp: packing_inv_def st)
  have old': "loads k - wi_estimated_seconds (last (asg k)) \<le> loads i + wi_estimated_seconds w"
    if "k \<in> set ids" "asg k \<noteq> []" for k
    using old [OF that(1) mem that(2)] assms(3) by simp
  show ?thesis
    using assms(4) old old' least concat_upd [OF assms(1) mem, of asg w] assms(3) mem
    unfolding st step unfolding packing_inv_def prod.case by auto
qed

lemma packing_inv_fold:
  assumes "distinct ids" and "ids \<noteq> []" and "\<forall>w \<in> set ws. 0 \<le> wi_estimated_seconds w"
  shows "packing_inv ids ws (fold (pack_step ids) ws (\<lambda>_. 0, \<lambda>_. []))"
  using assms(3)
proof (induction ws rule: rev_induct)
  case Nil
  have "concat (map (\<lambda>_. []) ids) = ([] :: work_item list)" by (induction ids) auto
  then show ?case by (simp add: packing_inv_def)
next
  case (snoc w ws)
  then show ?case by (simp add: packing_inv_step [OF assms(1,2)])
qed

section \<open>Hedging\<close>

text \<open>\<open>decide\<close> on a key it has not seen, on a pair that has no hedge yet, or has one.\<close>

lemma decide_known:
  "hc_requests hc key = Some (i, d) \<Longrightarrow> timing_ok r \<Longrightarrow>
   decide E r key (hc, oj) = (if i \<noteq> hedge_identity E r
     then (Inl (HedgeConflictError ''hedge key reused with different hedge input''), (hc, oj))
     else (Inr d, (hc, oj)))"
  by (simp add: decide_def Let_def)

lemma decide_launched:
  "hc_requests hc key = None \<Longrightarrow> hc_launched hc (hr_original_attempt_id r, hr_shard_id r) = Some d \<Longrightarrow>
   timing_ok r \<Longrightarrow>
   decide E r key (hc, oj) = (if hg_alternate_worker_id d \<noteq> hr_alternate_worker_id r
     then (Inl (HedgeConflictError ''a shard attempt cannot launch multiple hedge workers''), (hc, oj))
     else (Inr d, (remember_hedge key (hedge_identity E r) d hc, oj)))"
  by (simp add: decide_def Let_def)

lemma decide_refused: "\<not> timing_ok r \<Longrightarrow> decide E r key s = (Inl (ValueError ''hedge timing must be positive''), s)"
  by (simp add: decide_def)

lemma decide_cases:
  assumes "decide E r key (hc, oj) = (res, (hc', oj'))"
  shows "(\<exists>e. res = Inl e \<and> hc' = hc) \<or> (\<exists>d. res = Inr d \<and> timing_ok r \<and>
     (hc' = hc \<and> hc_requests hc key = Some (hedge_identity E r, d)
      \<or> hc_requests hc key = None \<and> hc_requests hc' = (hc_requests hc)(key \<mapsto> (hedge_identity E r, d))
        \<and> hc_threshold hc' = hc_threshold hc
        \<and> (hc_launched hc' = hc_launched hc
           \<or> hc_launched hc (hr_original_attempt_id r, hr_shard_id r) = None
             \<and> hc_launched hc' = (hc_launched hc)((hr_original_attempt_id r, hr_shard_id r) \<mapsto> d))
        \<and> (hg_launch d \<longrightarrow> hc_launched hc' (hr_original_attempt_id r, hr_shard_id r) = Some d)))"
proof (cases "timing_ok r")
  case False
  with assms show ?thesis by (auto simp: decide_refused)
next
  case t: True
  show ?thesis
  proof (cases "hc_requests hc key")
    case (Some p)
    with assms t show ?thesis by (cases p) (auto simp: decide_known split: if_splits)
  next
    case k: None
    show ?thesis
    proof (cases "hc_launched hc (hr_original_attempt_id r, hr_shard_id r)")
      case (Some d)
      with assms t k show ?thesis by (auto simp: decide_launched remember_hedge_def split: if_splits)
    next
      case None
      with assms t k show ?thesis
        by (simp add: decide_def Let_def no_hedge_def remember_hedge_def
            split: if_splits option.splits sum.splits prod.splits) auto
    qed
  qed
qed

definition decide_op :: "renv \<Rightarrow> hedge_request \<times> string \<Rightarrow> hstate \<Rightarrow> (hstate, hedge_decision) outcome" where
  "decide_op E c = decide E (fst c) (snd c)"

lemma decide_keeps_request:
  assumes "hc_requests (fst s) k = Some v"
  shows "hc_requests (fst (snd (decide_op E c s))) k = Some v"
proof -
  obtain hc oj res hc' oj' where "s = (hc, oj)" "decide E (fst c) (snd c) (hc, oj) = (res, (hc', oj'))"
    by (metis prod.collapse)
  with assms decide_cases [OF this(2)] show ?thesis by (auto simp: decide_op_def)
qed

lemma decide_keeps_launch:
  assumes "hc_launched (fst s) p = Some d"
  shows "hc_launched (fst (snd (decide_op E c s))) p = Some d"
proof -
  obtain hc oj res hc' oj' where "s = (hc, oj)" "decide E (fst c) (snd c) (hc, oj) = (res, (hc', oj'))"
    by (metis prod.collapse)
  with assms decide_cases [OF this(2)] show ?thesis by (auto simp: decide_op_def)
qed

interpretation hedging: keyed_once "\<lambda>s. hc_requests (fst s)" "hedge_identity E" "\<lambda>c s. timing_ok c"
  "decide E" "decide_op E" for E
proof (unfold_locales, goal_cases)
  case (1 c s k r)
  then show ?case by (cases s) (simp add: decide_known)
next
  case (2 c s k i r)
  then show ?case by (cases s) (simp add: decide_known)
next
  case (3 c s k)
  then show ?case by (simp add: decide_refused)
next
  case (4 c k s r s')
  then show ?case using decide_cases [of E c k "fst s" "snd s" "Inr r" "fst s'" "snd s'"] by auto
next
  case (5 s k v d)
  then show ?case by (rule decide_keeps_request)
next
  case (6 c s d)
  then show ?case by simp
qed

interpretation hedge_launches: write_once "\<lambda>s. hc_launched (fst s)" "decide_op E" for E
  by unfold_locales (rule decide_keeps_launch)

section \<open>Properties\<close>

text \<open>Fact: the queue empties in snapshot order. After any puts and pops, popping everything at one
  aware time returns exactly the queued items, each once, in the order \<open>snapshot\<close> shows, which is
  sorted by effective priority, estimate, sequence and id.\<close>

theorem queue_drains_in_order:
  assumes "new_fair_queue aging = Inr q0" and "q = run_ops queue_op cs q0" and "is_aware now"
  shows "queue_snapshot now q = Inr (drain (queue_len q) now q)
    \<and> mset (drain (queue_len q) now q) = mset (map snd (fq_items q))
    \<and> sorted (map (queue_key (fq_aging_seconds q) (instant now)) (drain (queue_len q) now q))"
proof -
  let ?f = "queue_key (fq_aging_seconds q) (instant now)"
  have wf: "queue_wf q" unfolding assms(2) by (rule queue_wf_reachable [OF assms(1)])
  have snap: "queue_snapshot now q = Inr (sort_key ?f (map snd (fq_items q)))"
    using assms(3) by (simp add: queue_snapshot_def)
  from drain_snapshot [OF wf assms(3) this]
  have "drain (queue_len q) now q = sort_key ?f (map snd (fq_items q))" by (simp add: queue_len_def)
  with snap show ?thesis by simp
qed

definition demo_item :: "string \<Rightarrow> job_priority \<Rightarrow> rat \<Rightarrow> int \<Rightarrow> work_item" where
  "demo_item i p est t = \<lparr>wi_work_id = i, wi_shard_id = ''s'', wi_priority = p,
     wi_estimated_seconds = est, wi_required_capabilities = {}, wi_model_cache_key = ''m'',
     wi_enqueued_at = Aware t, wi_sequence = 0\<rparr>"

definition demo_queue :: fair_queue where
  "demo_queue = \<lparr>fq_aging_seconds = 30, fq_items = []\<rparr>"

lemma demo_queue_new: "new_fair_queue 30 = Inr demo_queue"
  by (simp add: new_fair_queue_def demo_queue_def)

theorem queue_drains_in_order_witness:
  "mset (drain (queue_len (run_ops queue_op [Put (demo_item ''b'' JP_BULK_BACKGROUND 5 0),
       Put (demo_item ''a'' JP_TINY_QUICK 1 0)] demo_queue)) (Aware 7)
     (run_ops queue_op [Put (demo_item ''b'' JP_BULK_BACKGROUND 5 0),
       Put (demo_item ''a'' JP_TINY_QUICK 1 0)] demo_queue))
   = mset [demo_item ''b'' JP_BULK_BACKGROUND 5 0, demo_item ''a'' JP_TINY_QUICK 1 0]"
proof -
  let ?q = "run_ops queue_op [Put (demo_item ''b'' JP_BULK_BACKGROUND 5 0),
       Put (demo_item ''a'' JP_TINY_QUICK 1 0)] demo_queue"
  have "map snd (fq_items ?q) = [demo_item ''b'' JP_BULK_BACKGROUND 5 0, demo_item ''a'' JP_TINY_QUICK 1 0]"
    by (simp add: put_def demo_queue_def demo_item_def)
  moreover have "mset (drain (queue_len ?q) (Aware 7) ?q) = mset (map snd (fq_items ?q))"
    using queue_drains_in_order [OF demo_queue_new refl, of "Aware 7"] by (metis is_aware.simps(1))
  ultimately show ?thesis by (simp only:)
qed

text \<open>Fact: what aging gives. An item that has waited its priority times the aging period has reached
  the most urgent level: an item popped before it has effective priority 0 as well and comes first
  only by estimate, sequence and id.\<close>

theorem aged_item_precedence:
  assumes "pop now q = (Inr w, q')" and "x \<in> set (map snd (fq_items q))" and "0 < fq_aging_seconds q"
    and "of_nat (prio_value (wi_priority x)) * fq_aging_seconds q
      \<le> of_int (instant now - instant (wi_enqueued_at x)) / 1000000"
  shows "effective_priority (fq_aging_seconds q) (instant now) w = 0
    \<and> (wi_estimated_seconds w, wi_sequence w, wi_work_id w)
        \<le> (wi_estimated_seconds x, wi_sequence x, wi_work_id x)"
proof -
  let ?a = "fq_aging_seconds q" and ?t = "instant now"
  have m: "min_by (queue_key ?a ?t) (map snd (fq_items q)) = Some w"
    using assms(1) by (auto simp: pop_def split: if_splits option.splits)
  have "queue_key ?a ?t w \<le> queue_key ?a ?t x" using min_by_least [OF m assms(2)] .
  moreover have "of_nat (prio_value (wi_priority x))
      \<le> max 0 (of_int (?t - instant (wi_enqueued_at x)) / 1000000) / ?a"
    unfolding pos_le_divide_eq [OF assms(3)] using assms(4) by (rule order_trans) simp
  then have "effective_priority ?a ?t x = 0"
    by (simp add: effective_priority_def Let_def)
  moreover have "0 \<le> effective_priority ?a ?t w" by (simp add: effective_priority_def)
  ultimately show ?thesis by (auto simp: queue_key_def less_eq_prod_def)
qed

theorem aged_item_precedence_witness:
  "effective_priority 30 120000000 (demo_item ''a'' JP_TINY_QUICK 1 0) = 0"
proof -
  let ?q = "\<lparr>fq_aging_seconds = 30, fq_items =
    [(''b'', demo_item ''b'' JP_BULK_BACKGROUND 5 0), (''a'', demo_item ''a'' JP_TINY_QUICK 1 0)]\<rparr>"
  have "fst (pop (Aware 120000000) ?q) = Inr (demo_item ''a'' JP_TINY_QUICK 1 0)"
    by (simp add: pop_def demo_item_def queue_key_def effective_priority_def less_eq_prod_def)
  then have "pop (Aware 120000000) ?q = (Inr (demo_item ''a'' JP_TINY_QUICK 1 0), snd (pop (Aware 120000000) ?q))"
    by (metis prod.collapse)
  from aged_item_precedence [OF this, of "demo_item ''b'' JP_BULK_BACKGROUND 5 0"]
  show ?thesis by (simp add: demo_item_def)
qed

text \<open>C37: background work can starve. As long as items of the most urgent priority with a smaller
  estimate keep arriving, one per pop, a waiting item is never popped, however often the queue is
  popped and however late: aging lifts it to effective priority 0, where the urgent items already
  are, and the estimate decides.\<close>

theorem background_starves:
  assumes "wi_estimated_seconds tiny < wi_estimated_seconds bulk"
    and "wi_priority tiny = JP_TINY_QUICK" and "wi_work_id tiny \<noteq> wi_work_id bulk"
    and "fq_items q = [(wi_work_id bulk, bulk)]" and "\<forall>t \<in> set ts. is_aware t"
  shows "run_ops queue_op (concat (map (\<lambda>t. [Put (tiny\<lparr>wi_enqueued_at := t\<rparr>), Pop t]) ts)) q = q"
  using assms(5)
proof (induction ts)
  case Nil
  then show ?case by simp
next
  case (Cons t ts)
  let ?w = "tiny\<lparr>wi_enqueued_at := t\<rparr>"
  let ?f = "queue_key (fq_aging_seconds q) (instant t)"
  have put: "put ?w q = (Inr ?w, q\<lparr>fq_items := [(wi_work_id bulk, bulk), (wi_work_id tiny, ?w)]\<rparr>)"
    using assms(3,4) by (auto simp: put_def)
  have "effective_priority (fq_aging_seconds q) (instant t) ?w = 0"
    using assms(2) by (simp add: effective_priority_def)
  then have "\<not> ?f bulk \<le> ?f ?w"
    using assms(1) by (auto simp: queue_key_def less_eq_prod_def effective_priority_def)
  then have "pop t (q\<lparr>fq_items := [(wi_work_id bulk, bulk), (wi_work_id tiny, ?w)]\<rparr>) = (Inr ?w, q)"
    using assms(3,4) Cons.prems by (auto simp: pop_def)
  with put Cons show ?case by simp
qed

theorem background_starves_witness:
  "run_ops queue_op (concat (map (\<lambda>t. [Put ((demo_item ''a'' JP_TINY_QUICK 1 0)\<lparr>wi_enqueued_at := t\<rparr>), Pop t])
      [Aware 0, Aware 1000000000000, Aware 2000000000000]))
    \<lparr>fq_aging_seconds = 30, fq_items = [(''b'', demo_item ''b'' JP_INTERACTIVE 5 0)]\<rparr>
   = \<lparr>fq_aging_seconds = 30, fq_items = [(''b'', demo_item ''b'' JP_INTERACTIVE 5 0)]\<rparr>"
  by (rule background_starves [of "demo_item ''a'' JP_TINY_QUICK 1 0" "demo_item ''b'' JP_INTERACTIVE 5 0"])
    (simp_all add: demo_item_def)

text \<open>Fact: worker selection. A selected worker is healthy or degraded and has every required
  capability, no compatible worker precedes it in the selection order, a degraded worker is chosen
  only when no healthy compatible one exists, and selection fails only when no worker is
  compatible.\<close>

theorem worker_selected:
  "(select_worker w xs = Inr x \<longrightarrow>
      x \<in> set xs \<and> compatible w x \<and> ws_state x \<notin> {WS_DRAINING, WS_QUARANTINED, WS_TERMINATED}
      \<and> (\<forall>y \<in> set xs. compatible w y \<longrightarrow> selection_key w x \<le> selection_key w y)
      \<and> (ws_state x \<noteq> WS_HEALTHY \<longrightarrow> \<not> (\<exists>y \<in> set xs. compatible w y \<and> ws_state y = WS_HEALTHY)))
   \<and> ((\<exists>e. select_worker w xs = Inl e) \<longleftrightarrow> \<not> (\<exists>y \<in> set xs. compatible w y))"
proof (cases "filter (compatible w) xs = []")
  case True
  then show ?thesis by (auto simp: select_worker_def filter_empty_conv)
next
  case False
  let ?ys = "filter (compatible w) xs"
  have sel: "select_worker w xs = Inr (hd (sort_key (selection_key w) ?ys))"
  proof (cases "sort_key (selection_key w) ?ys")
    case Nil
    with False show ?thesis by (metis length_0_conv length_sort)
  next
    case (Cons y ys)
    then show ?thesis by (simp add: select_worker_def)
  qed
  note least = sort_key_hd_min [OF False, where f = "selection_key w"]
  have "ws_state y \<noteq> WS_HEALTHY" if "selection_key w x \<le> selection_key w y" "ws_state x \<noteq> WS_HEALTHY" for x y
    using that by (auto simp: selection_key_def less_eq_prod_def split: if_splits)
  with sel least False show ?thesis by (auto simp: compatible_def filter_empty_conv)
qed

definition demo_worker_snapshot :: worker_snapshot where
  "demo_worker_snapshot = \<lparr>ws_worker_id = ''w'', ws_model_revision = ''m'', ws_runtime_image_digest = ''i'',
     ws_state = WS_HEALTHY, ws_capabilities = {}, ws_warm = True, ws_cached_models = {},
     ws_estimated_available_at = 0, ws_semantic_score = 100\<rparr>"

theorem worker_selected_witness:
  "compatible (demo_item ''a'' JP_RECOVERY 1 0) demo_worker_snapshot"
proof -
  have "select_worker (demo_item ''a'' JP_RECOVERY 1 0) [demo_worker_snapshot] = Inr demo_worker_snapshot"
    by (simp add: select_worker_def compatible_def demo_item_def demo_worker_snapshot_def)
  with worker_selected [of "demo_item ''a'' JP_RECOVERY 1 0" "[demo_worker_snapshot]" demo_worker_snapshot]
  show ?thesis by blast
qed

text \<open>Fact: size-aware packing. Every item goes to exactly one of the given workers, the result lists
  the workers in the given order, and a worker stripped of its last item is never more loaded than
  any other worker.\<close>

theorem bin_pack_balanced:
  assumes "size_aware_bin_pack work ids = Inr bins" and "\<forall>w \<in> set work. 0 \<le> wi_estimated_seconds w"
  shows "map fst bins = ids \<and> mset (concat (map snd bins)) = mset work
    \<and> (\<forall>(i, ws) \<in> set bins. \<forall>(j, vs) \<in> set bins. ws \<noteq> [] \<longrightarrow>
         total_seconds ws - wi_estimated_seconds (last ws) \<le> total_seconds vs)"
proof -
  obtain loads asg where f: "fold (pack_step ids) (packing_order work) (\<lambda>_. 0, \<lambda>_. []) = (loads, asg)"
    by fastforce
  from assms(1) have ids: "ids \<noteq> []" "distinct ids" and bins: "bins = map (\<lambda>i. (i, asg i)) ids"
    by (auto simp: size_aware_bin_pack_def f split: if_splits)
  have "packing_inv ids (packing_order work) (fold (pack_step ids) (packing_order work) (\<lambda>_. 0, \<lambda>_. []))"
    by (rule packing_inv_fold [OF ids(2,1)]) (use assms(2) in \<open>simp add: packing_order_def\<close>)
  then have "packing_inv ids (packing_order work) (loads, asg)" unfolding f .
  then show ?thesis
    by (auto simp: bins packing_inv_def packing_order_def comp_def)
qed

theorem bin_pack_balanced_witness:
  "size_aware_bin_pack [demo_item ''a'' JP_RECOVERY 3 0, demo_item ''b'' JP_RECOVERY 2 0,
      demo_item ''c'' JP_RECOVERY 2 0] [''x'', ''y'']
    = Inr [(''x'', [demo_item ''a'' JP_RECOVERY 3 0]),
           (''y'', [demo_item ''b'' JP_RECOVERY 2 0, demo_item ''c'' JP_RECOVERY 2 0])]
   \<and> total_seconds [demo_item ''b'' JP_RECOVERY 2 0, demo_item ''c'' JP_RECOVERY 2 0]
      - wi_estimated_seconds (demo_item ''c'' JP_RECOVERY 2 0)
      \<le> total_seconds [demo_item ''a'' JP_RECOVERY 3 0]"
proof -
  have r: "size_aware_bin_pack [demo_item ''a'' JP_RECOVERY 3 0, demo_item ''b'' JP_RECOVERY 2 0,
      demo_item ''c'' JP_RECOVERY 2 0] [''x'', ''y'']
    = Inr [(''x'', [demo_item ''a'' JP_RECOVERY 3 0]),
           (''y'', [demo_item ''b'' JP_RECOVERY 2 0, demo_item ''c'' JP_RECOVERY 2 0])]"
    by (simp add: size_aware_bin_pack_def packing_order_def pack_step_def demo_item_def
        less_eq_prod_def Let_def)
  show ?thesis
    using bin_pack_balanced [OF r] r by (simp add: demo_item_def)
qed

text \<open>Fact: at most one hedge per shard attempt. Once a hedge was launched for an attempt and shard, every
  later decision under a new key for the same attempt and shard, whatever calls came between, is
  that same decision (the same hedge id and worker) or an exception.\<close>

theorem one_hedge_per_shard_attempt:
  assumes "decide E r k (hc, oj) = (Inr d, s1)" and "hc_requests hc k = None" and "hg_launch d"
    and "(hc2, oj2) = run_ops (decide_op E) cs s1" and "hc_requests hc2 k2 = None"
    and "decide E r2 k2 (hc2, oj2) = (Inr d2, s3)"
    and "hr_original_attempt_id r2 = hr_original_attempt_id r" and "hr_shard_id r2 = hr_shard_id r"
  shows "d2 = d \<and> hg_alternate_worker_id d = hr_alternate_worker_id r2"
proof -
  let ?p = "(hr_original_attempt_id r, hr_shard_id r)"
  have "hc_launched (fst s1) ?p = Some d"
    using decide_cases [of E r k hc oj "Inr d" "fst s1" "snd s1"] assms(1-3) by auto
  then have l2: "hc_launched hc2 ?p = Some d"
    using hedge_launches.run_keeps [of s1 ?p d E cs] assms(4) by (metis fst_conv)
  have "timing_ok r2" using assms(6) by (metis decide_refused prod.inject sum.distinct(1))
  with decide_launched [OF assms(5), of r2 d E oj2] l2 assms(6-8) show ?thesis
    by (auto split: if_splits)
qed

definition demo_hedge :: hedge_request where
  "demo_hedge = \<lparr>hr_original_attempt_id = ''a'', hr_shard_id = ''s'', hr_elapsed_seconds = 10,
     hr_predicted_p95_seconds = 2, hr_alternate_worker_id = Some ''w'', hr_original_verified = False,
     hr_occurred_at = Aware 0\<rparr>"

definition demo_hedge_env :: renv where
  "demo_hedge_env = \<lparr>sha256 = (\<lambda>s. ''h''), float_repr = (\<lambda>r. ''''), isoformat = (\<lambda>t. '''')\<rparr>"

definition demo_controller :: hedge_controller where
  "demo_controller = \<lparr>hc_threshold = 12/10, hc_requests = Map.empty, hc_launched = Map.empty\<rparr>"

theorem one_hedge_per_shard_attempt_witness:
  "fst (decide demo_hedge_env demo_hedge ''k2''
      (snd (decide demo_hedge_env demo_hedge ''k1'' (demo_controller, None))))
   = fst (decide demo_hedge_env demo_hedge ''k1'' (demo_controller, None))"
proof -
  obtain d s1 where 1: "decide demo_hedge_env demo_hedge ''k1'' (demo_controller, None) = (Inr d, s1)"
      "hg_launch d" "hc_requests (fst s1) ''k2'' = None"
    by (simp add: decide_def timing_ok_def demo_hedge_def demo_controller_def Let_def remember_hedge_def)
  obtain d2 s3 where 2: "decide demo_hedge_env demo_hedge ''k2'' s1 = (Inr d2, s3)"
    using 1(1) by (auto simp: decide_def timing_ok_def demo_hedge_def demo_controller_def Let_def
        remember_hedge_def)
  have "d2 = d"
    using one_hedge_per_shard_attempt [OF 1(1) _ 1(2), of "fst s1" "snd s1" "[]" "''k2''" demo_hedge d2 s3]
      1(3) 2 by (simp add: demo_controller_def)
  with 1(1) 2 show ?thesis by simp
qed

text \<open>Fact: hedge decisions are replayed. The same request under the same key returns the same decision and
  changes nothing, whatever calls came between; a request with another digest under that key
  raises and changes nothing.\<close>

theorem hedge_decision_replayed:
  assumes "decide E r k s = (Inr d, s1)" and "s2 = run_ops (decide_op E) cs s1"
  shows "decide E r k s2 = (Inr d, s2)
    \<and> (hedge_identity E r' \<noteq> hedge_identity E r \<longrightarrow> (\<exists>e. decide E r' k s2 = (Inl e, s2)))"
  using hedging.replay_after [OF assms(1), of cs] hedging.conflict_after [OF assms(1), of r' cs] assms(2)
  by simp

theorem hedge_decision_replayed_witness:
  "fst (decide demo_hedge_env demo_hedge ''k1'' (snd (decide demo_hedge_env demo_hedge ''k1'' (demo_controller, None))))
   = fst (decide demo_hedge_env demo_hedge ''k1'' (demo_controller, None))"
proof -
  obtain d s1 where 1: "decide demo_hedge_env demo_hedge ''k1'' (demo_controller, None) = (Inr d, s1)"
    by (simp add: decide_def timing_ok_def demo_hedge_def demo_controller_def Let_def)
  with hedge_decision_replayed [OF 1, of s1 "[]"] show ?thesis by simp
qed

text \<open>Fact: stragglers. With admissible arguments and at least one completed shard, the candidates are,
  in sorted order, exactly the incomplete shards slower than the multiplier times the median of the
  completed latencies, unless more than a tenth of the shards (rounded up, at least one) is
  incomplete; then there are none.\<close>

theorem stragglers_exact:
  assumes "1 \<le> n" and "1 < m" and "completed \<noteq> []" and "\<forall>v \<in> set completed. 0 \<le> v"
    and "distinct (map fst incomplete)"
  shows "\<exists>ids. straggler_candidates n incomplete completed m = Inr ids \<and> sorted ids \<and> distinct ids
    \<and> set ids = (if int (length incomplete) \<le> max 1 \<lceil>rat_of_int n / 10\<rceil>
        then {i. \<exists>v. map_of incomplete i = Some v \<and> median completed * m < v} else {})"
proof (cases "int (length incomplete) \<le> max 1 \<lceil>rat_of_int n / 10\<rceil>")
  case False
  with assms show ?thesis by (auto simp: straggler_candidates_def list_ex_iff)
next
  case True
  let ?s = "filter (\<lambda>p. median completed * m < snd p) (sort incomplete)"
  have r: "straggler_candidates n incomplete completed m = Inr (map fst ?s)"
    using True assms by (auto simp: straggler_candidates_def list_ex_iff Let_def)
  have "sorted (map fst (sort incomplete))"
    using sorted_sort [of incomplete]
    by (auto simp: sorted_iff_nth_mono less_eq_prod_def)
      (metis (no_types, lifting) less_eq_prod_def order_less_imp_le sorted_iff_nth_mono sorted_sort length_sort)
  then have "sorted (map fst ?s)" by (rule sorted_filter)
  moreover have "distinct (map fst (sort incomplete))"
    using assms(5) by (metis distinct_map distinct_sort set_sort)
  then have "distinct (map fst ?s)" by (simp add: distinct_map_filter)
  moreover have "set (map fst ?s) = {i. \<exists>v. map_of incomplete i = Some v \<and> median completed * m < v}"
    using map_of_eq_Some_iff [OF assms(5)] by force
  ultimately show ?thesis using True r by auto
qed

theorem stragglers_exact_witness:
  "\<exists>ids. straggler_candidates 20 [(''b'', 50), (''a'', 5)] [1, 3, 2] 10 = Inr ids \<and> set ids = {''b''}"
proof -
  have med: "median [1, 3, 2] = 2" by code_simp
  have "{i. \<exists>v. map_of [(''b'', 50), (''a'', 5)] i = Some v \<and> (2::rat) * 10 < v} = {''b''}"
    by (auto split: if_splits)
  with stragglers_exact [of 20 10 "[1, 3, 2]" "[(''b'', 50), (''a'', 5)]"] show ?thesis
    by (auto simp: med)
qed

end
