(* ===== verification/Sharding.thy ===== *)
theory Sharding
  imports Models
begin

text \<open>
  \<^verbatim>\<open>akc_parallel_runtime/sharding.py\<close>: the size predictor, the planner that splits a document
  into shards with one owner per page, the benchmark assignment and the worker target.
\<close>

section \<open>Data\<close>

datatype continuity_signal =
    CS_REPEATED_TABLE_HEADER | CS_TABLE_CUT | CS_COLUMN_STRUCTURE_CONTINUES | CS_INCOMPLETE_SENTENCE
  | CS_HEADING_BODY | CS_FIGURE_CAPTION | CS_FOOTNOTE_REFERENCE | CS_NUMBERED_LIST
  | CS_APPENDIX_TABLE | CS_SAME_TEMPLATE

record page_descriptor =
  pg_page_id :: string
  pg_index0 :: int
  pg_page_class :: page_class
  pg_width_px :: int
  pg_height_px :: int
  pg_token_estimate :: int
  pg_expected_output_tokens :: int
  pg_table_density :: rat
  pg_formula_density :: rat
  pg_prior_latency_seconds :: rat
  pg_prior_oom :: bool
  pg_continuity_to_next :: "continuity_signal list"

definition mk_page_descriptor :: "page_descriptor \<Rightarrow> pyerr + page_descriptor" where
  "mk_page_descriptor p = require_all
     [(pg_page_id p \<noteq> [] \<and> 0 \<le> pg_index0 p,
        ValueError ''page_id must be non-empty and index0 must be non-negative''),
      (1 \<le> pg_width_px p \<and> 1 \<le> pg_height_px p, ValueError ''page dimensions must be positive''),
      (0 \<le> pg_token_estimate p \<and> 0 \<le> pg_expected_output_tokens p,
        ValueError ''token estimates cannot be negative''),
      (0 \<le> pg_table_density p \<and> pg_table_density p \<le> 1 \<and> 0 \<le> pg_formula_density p \<and> pg_formula_density p \<le> 1,
        ValueError ''density values must be between 0 and 1''),
      (0 \<le> pg_prior_latency_seconds p, ValueError ''prior latency cannot be negative'')] p"

definition pixels :: "page_descriptor \<Rightarrow> int" where
  "pixels p = pg_width_px p * pg_height_px p"

abbreviation continues :: "page_descriptor \<Rightarrow> bool" where
  "continues p \<equiv> pg_continuity_to_next p \<noteq> []"

record shard_sizing =
  sz_pages_per_shard :: int
  sz_max_pixels :: int
  sz_expected_seconds :: rat
  sz_worker_class :: string
  sz_overlap_pages :: int

record parse_shard =
  ps_shard_id :: string
  ps_document_id :: string
  ps_document_version_id :: string
  ps_ordinal :: nat
  ps_primary_page_ids :: "string list"
  ps_context_page_ids :: "string list"
  ps_ordered_input_page_ids :: "string list"
  ps_expected_seconds :: rat
  ps_worker_class :: string
  ps_policy_version :: string

definition mk_parse_shard :: "parse_shard \<Rightarrow> pyerr + parse_shard" where
  "mk_parse_shard s = (let expected = set (ps_primary_page_ids s) \<union> set (ps_context_page_ids s) in require_all
     [(set (ps_ordered_input_page_ids s) = expected \<and> length (ps_ordered_input_page_ids s) = card expected,
        ValueError ''ordered input pages must exactly cover primary and context pages'')] s)"

record shard_plan =
  sp_document_id :: string
  sp_document_version_id :: string
  sp_source_sha256 :: string
  sp_shards :: "parse_shard list"
  sp_policy_version :: string

definition owned_page_ids :: "shard_plan \<Rightarrow> string list" where
  "owned_page_ids p = concat (map ps_primary_page_ids (sp_shards p))"

definition mk_shard_plan :: "shard_plan \<Rightarrow> pyerr + shard_plan" where
  "mk_shard_plan p = require_all
     [(is_sha256 (sp_source_sha256 p), sha_err),
      (sp_shards p \<noteq> [], ValueError ''a shard plan cannot be empty''),
      (distinct (owned_page_ids p), ValueError ''each page must have exactly one primary owner''),
      (\<not> list_ex (\<lambda>s. set (ps_primary_page_ids s) \<inter> set (ps_context_page_ids s) \<noteq> {}) (sp_shards p),
        ValueError ''context pages cannot also be primary pages in the same shard'')] p"

section \<open>AdaptiveShardPredictor\<close>

fun base_target :: "page_class \<Rightarrow> int" where
  "base_target PC_NATIVE_CLEAN = 32"
| "base_target PC_NORMAL_SCAN = 8"
| "base_target PC_COMPLEX_LAYOUT = 4"
| "base_target PC_INDEPENDENT = 2"
| "base_target PC_LONG_TABLE = 16"
| "base_target PC_FORMULA_HEAVY = 2"
| "base_target PC_PHOTOGRAPHED = 2"
| "base_target PC_OFFICE_STRUCTURED = 16"

record predictor =
  pc_model_context_tokens :: int
  pc_vram_gib :: int
  pc_policy_version :: string

definition new_predictor :: "int \<Rightarrow> int \<Rightarrow> string \<Rightarrow> pyerr + predictor" where
  "new_predictor ctx vram version = require_all
     [(\<not> (ctx < 1024 \<or> vram < 1), ValueError ''model context and VRAM must be positive production values'')]
     \<lparr>pc_model_context_tokens = ctx, pc_vram_gib = vram, pc_policy_version = version\<rparr>"

text \<open>\<open>int(tokens * 0.72)\<close>; the float product truncates to the exact quotient.\<close>

definition usable_context :: "predictor \<Rightarrow> int" where
  "usable_context c = pc_model_context_tokens c * 72 div 100"

definition page_tokens :: "page_descriptor \<Rightarrow> int" where
  "page_tokens p = pg_token_estimate p + pg_expected_output_tokens p"

definition halve_if :: "bool \<Rightarrow> int \<Rightarrow> int" where
  "halve_if b n = (if b then max 1 (n div 2) else n)"

definition predict :: "predictor \<Rightarrow> page_descriptor \<Rightarrow> shard_sizing" where
  "predict c p =
    (let total_tokens = max 1 (page_tokens p);
         context_target = max 1 (usable_context c div total_tokens);
         target = halve_if (pc_vram_gib c < 16) (halve_if (pg_prior_oom p)
           (halve_if (pg_table_density p \<ge> 35/100 \<or> pg_formula_density p \<ge> 10/100)
             (min (base_target (pg_page_class p)) context_target)));
         max_pixels = min (pixels p * target) (max (pixels p) (pc_vram_gib c * 1500000));
         complexity = 1 + pg_table_density p * (3/2) + pg_formula_density p * 2;
         baseline = max (pg_prior_latency_seconds p)
           (1/4 + of_int total_tokens / 1200 + of_int (pixels p) / 8000000);
         worker = (if pg_page_class p \<in> {PC_COMPLEX_LAYOUT, PC_LONG_TABLE} then ''large_context_precision''
           else if pg_page_class p \<in> {PC_FORMULA_HEAVY, PC_PHOTOGRAPHED} then ''vision_precision''
           else ''standard'')
     in \<lparr>sz_pages_per_shard = target, sz_max_pixels = max_pixels,
         sz_expected_seconds = py_round 6 (baseline * complexity), sz_worker_class = worker,
         sz_overlap_pages = (if continues p \<or> pg_page_class p = PC_LONG_TABLE then 2 else 1)\<rparr>)"

section \<open>DeterministicShardPlanner\<close>

definition validate_pages :: "page_descriptor list \<Rightarrow> pyerr + unit" where
  "validate_pages pages = require_all
     [(pages \<noteq> [], ValueError ''cannot plan an empty document''),
      (sort_key pg_index0 pages = pages, ValueError ''pages must be ordered by index0''),
      (distinct (map pg_page_id pages), ValueError ''page ids must be unique''),
      (distinct (map pg_index0 pages), ValueError ''page indexes must be unique''),
      (\<not> continues (last pages), ValueError ''the final page cannot declare continuity to a missing page'')] ()"

fun atomic_groups_from :: "page_descriptor list \<Rightarrow> page_descriptor list \<Rightarrow> page_descriptor list list" where
  "atomic_groups_from current [] = (if current = [] then [] else [current])"
| "atomic_groups_from current (p # ps) =
     (if continues p then atomic_groups_from (current @ [p]) ps
      else (current @ [p]) # atomic_groups_from [] ps)"

definition atomic_groups :: "page_descriptor list \<Rightarrow> page_descriptor list list" where
  "atomic_groups pages = atomic_groups_from [] pages"

text \<open>\<open>min(\<dots>)\<close> and \<open>max(\<dots>)\<close> over a group, which is never empty.\<close>

definition group_limit :: "predictor \<Rightarrow> page_descriptor list \<Rightarrow> int" where
  "group_limit c g = Min (set (map (\<lambda>p. sz_pages_per_shard (predict c p)) g))"

definition no_limit :: int where
  "no_limit = 2 ^ 31 - 1"

fun primary_groups_from ::
  "predictor \<Rightarrow> page_descriptor list \<Rightarrow> int \<Rightarrow> page_descriptor list list \<Rightarrow> page_descriptor list list" where
  "primary_groups_from c current limit [] = (if current = [] then [] else [current])"
| "primary_groups_from c current limit (g # gs) =
     (if current \<noteq> [] \<and> int (length current) + int (length g) > min limit (group_limit c g)
      then current # primary_groups_from c g (min no_limit (group_limit c g)) gs
      else primary_groups_from c (current @ g) (min limit (group_limit c g)) gs)"

definition primary_groups :: "predictor \<Rightarrow> page_descriptor list \<Rightarrow> page_descriptor list list" where
  "primary_groups c pages = primary_groups_from c [] no_limit (atomic_groups pages)"

definition overlap_of :: "predictor \<Rightarrow> page_descriptor list \<Rightarrow> int" where
  "overlap_of c g = Max (set (map (\<lambda>p. sz_overlap_pages (predict c p)) g))"

definition context_ids :: "predictor \<Rightarrow> page_descriptor list \<Rightarrow> page_descriptor list \<Rightarrow> string list" where
  "context_ids c pages g =
    (let first = pg_index0 (hd g); final = pg_index0 (last g); overlap = overlap_of c g
     in map pg_page_id (filter (\<lambda>p. \<not> (first \<le> pg_index0 p \<and> pg_index0 p < final + 1)
          \<and> ((first - overlap \<le> pg_index0 p \<and> pg_index0 p < first)
             \<or> (final < pg_index0 p \<and> pg_index0 p \<le> final + overlap))) pages))"

definition index_of :: "page_descriptor list \<Rightarrow> string \<Rightarrow> int" where
  "index_of pages pid = (case map_of (map (\<lambda>p. (pg_page_id p, pg_index0 p)) pages) pid of
     None \<Rightarrow> 0 | Some i \<Rightarrow> i)"

definition plan_shard ::
  "renv \<Rightarrow> predictor \<Rightarrow> string \<Rightarrow> string \<Rightarrow> string \<Rightarrow> page_descriptor list \<Rightarrow> nat \<Rightarrow> page_descriptor list
   \<Rightarrow> parse_shard" where
  "plan_shard E c doc version source pages ordinal g =
    (let context = context_ids c pages g;
         primary = map pg_page_id g;
         classes = map (\<lambda>p. sz_worker_class (predict c p)) g;
         oversize = sum_list (map page_tokens g) > usable_context c
     in \<lparr>ps_shard_id = stable_id E ''shard'' [JStr doc, JStr version, JStr source,
           JStr (pc_policy_version c), JList (map JStr primary)],
         ps_document_id = doc, ps_document_version_id = version, ps_ordinal = ordinal,
         ps_primary_page_ids = primary,
         ps_context_page_ids = sort_key (index_of pages) context,
         ps_ordered_input_page_ids =
           map pg_page_id (filter (\<lambda>p. pg_page_id p \<in> set primary \<union> set context) pages),
         ps_expected_seconds = py_round 6 (sum_list (map (\<lambda>p. sz_expected_seconds (predict c p)) g)),
         ps_worker_class = (if ''large_context_precision'' \<in> set classes \<or> oversize
           then ''large_context_precision''
           else if ''vision_precision'' \<in> set classes then ''vision_precision'' else ''standard''),
         ps_policy_version = pc_policy_version c\<rparr>)"

definition plan ::
  "renv \<Rightarrow> predictor \<Rightarrow> string \<Rightarrow> string \<Rightarrow> string \<Rightarrow> page_descriptor list \<Rightarrow> pyerr + shard_plan" where
  "plan E c doc version source pages =
    (case validate_pages pages of
      Inl e \<Rightarrow> Inl e
    | Inr _ \<Rightarrow>
        (case mapE (\<lambda>(i, g). mk_parse_shard (plan_shard E c doc version source pages i g))
            (enumerate 0 (primary_groups c pages)) of
          Inl e \<Rightarrow> Inl e
        | Inr shards \<Rightarrow> mk_shard_plan \<lparr>sp_document_id = doc, sp_document_version_id = version,
            sp_source_sha256 = source, sp_shards = shards, sp_policy_version = pc_policy_version c\<rparr>))"

section \<open>deterministic_benchmark_assignments and ideal_worker_target\<close>

definition hex_value :: "char \<Rightarrow> nat" where
  "hex_value ch = (let n = of_char ch :: nat in if n < 58 then n - 48 else n - 87)"

text \<open>\<open>int.from_bytes(digest[:8], "big")\<close>, read off the hexadecimal digest.\<close>

definition digest_number :: "renv \<Rightarrow> string \<Rightarrow> nat" where
  "digest_number E s = foldl (\<lambda>n ch. 16 * n + hex_value ch) 0 (take 16 (sha256 E s))"

fun assign_groups ::
  "renv \<Rightarrow> nat \<Rightarrow> (string \<times> string list) list \<Rightarrow> string list list \<Rightarrow> pyerr + string list list" where
  "assign_groups E n [] asg = Inr asg"
| "assign_groups E n ((gid, pages) # rest) asg =
     (if pages = [] \<or> \<not> distinct pages
      then Inl (ValueError ''benchmark document groups require unique non-empty page ids'')
      else let i = digest_number E gid mod n in assign_groups E n rest (asg[i := asg ! i @ pages]))"

text \<open>The dictionary result has the keys \<open>0 .. shard_count - 1\<close> in order: a list here.\<close>

definition deterministic_benchmark_assignments ::
  "renv \<Rightarrow> (string \<times> string list) list \<Rightarrow> int \<Rightarrow> pyerr + string list list" where
  "deterministic_benchmark_assignments E groups shard_count =
    (if shard_count < 1 then Inl (ValueError ''shard_count must be positive'')
     else assign_groups E (nat shard_count) (sort_key fst groups) (replicate (nat shard_count) []))"

definition ideal_worker_target :: "rat \<Rightarrow> rat \<Rightarrow> int list \<Rightarrow> pyerr + int" where
  "ideal_worker_target remaining window limits =
    (if remaining < 0 \<or> window \<le> 0
     then Inl (ValueError ''remaining work must be non-negative and completion window positive'')
     else if list_ex (\<lambda>l. l < 0) limits then Inl (ValueError ''worker limits cannot be negative'')
     else Inr (foldl min \<lceil>remaining / window\<rceil> limits))"

section \<open>Bounds of the predictor\<close>

lemma halve_if_bounds: "1 \<le> n \<Longrightarrow> 1 \<le> halve_if b n \<and> halve_if b n \<le> n"
  by (auto simp: halve_if_def)

lemma halve3_bounds:
  "1 \<le> n \<Longrightarrow> 1 \<le> halve_if a (halve_if b (halve_if c n)) \<and> halve_if a (halve_if b (halve_if c n)) \<le> n"
  using halve_if_bounds by (meson order_trans)

lemma predict_bounds:
  "1 \<le> sz_pages_per_shard (predict c p) \<and> sz_pages_per_shard (predict c p) \<le> base_target (pg_page_class p)"
proof -
  have b: "1 \<le> base_target (pg_page_class p)" by (cases "pg_page_class p") auto
  let ?t = "min (base_target (pg_page_class p)) (max 1 (usable_context c div max 1 (page_tokens p)))"
  have 1: "1 \<le> ?t" "?t \<le> base_target (pg_page_class p)" using b by auto
  have "sz_pages_per_shard (predict c p) = halve_if (pc_vram_gib c < 16) (halve_if (pg_prior_oom p)
     (halve_if (pg_table_density p \<ge> 35/100 \<or> pg_formula_density p \<ge> 10/100) ?t))"
    unfolding predict_def Let_def by (simp only: shard_sizing.simps)
  with halve3_bounds [OF 1(1)] 1(2) show ?thesis by (metis order_trans)
qed

lemma predict_overlap: "sz_overlap_pages (predict c p) \<in> {1, 2}"
  by (simp add: predict_def Let_def)

lemma group_limit_bounds:
  assumes "g \<noteq> []"
  shows "1 \<le> group_limit c g" and "p \<in> set g \<Longrightarrow> group_limit c g \<le> sz_pages_per_shard (predict c p)"
  using assms predict_bounds by (auto simp: group_limit_def)

lemma overlap_bounds:
  assumes "g \<noteq> []"
  shows "1 \<le> overlap_of c g \<and> overlap_of c g \<le> 2"
proof -
  have o: "1 \<le> sz_overlap_pages (predict c p) \<and> sz_overlap_pages (predict c p) \<le> 2" for p
    using predict_overlap [of c p] by auto
  have "overlap_of c g \<in> set (map (\<lambda>p. sz_overlap_pages (predict c p)) g)"
    unfolding overlap_of_def using assms by (intro Max_in) auto
  with o show ?thesis by auto
qed

section \<open>Groups partition the pages\<close>

lemma concat_atomic_from: "concat (atomic_groups_from cur ps) = cur @ ps"
  by (induction cur ps rule: atomic_groups_from.induct) auto

lemma atomic_from_nonempty: "[] \<notin> set (atomic_groups_from cur ps)"
  by (induction cur ps rule: atomic_groups_from.induct) auto

lemma concat_primary_from: "concat (primary_groups_from c cur l gs) = cur @ concat gs"
  by (induction c cur l gs rule: primary_groups_from.induct) auto

lemma primary_from_nonempty: "[] \<notin> set gs \<Longrightarrow> [] \<notin> set (primary_groups_from c cur l gs)"
  by (induction c cur l gs rule: primary_groups_from.induct) auto

lemma primary_groups_concat: "concat (primary_groups c pages) = pages"
  by (simp add: primary_groups_def atomic_groups_def concat_primary_from concat_atomic_from)

lemma primary_groups_nonempty: "[] \<notin> set (primary_groups c pages)"
  unfolding primary_groups_def atomic_groups_def by (rule primary_from_nonempty) (rule atomic_from_nonempty)

text \<open>No group ends in a page that continues onto the next one.\<close>

definition closed_group :: "page_descriptor list \<Rightarrow> bool" where
  "closed_group g \<longleftrightarrow> g \<noteq> [] \<and> \<not> continues (last g)"

lemma atomic_from_closed:
  "(cur @ ps \<noteq> [] \<Longrightarrow> \<not> continues (last (cur @ ps))) \<Longrightarrow> g \<in> set (atomic_groups_from cur ps) \<Longrightarrow> closed_group g"
proof (induction cur ps rule: atomic_groups_from.induct)
  case (1 current)
  then show ?case by (auto simp: closed_group_def split: if_splits)
next
  case (2 current p ps)
  then show ?case by (cases ps) (auto simp: closed_group_def split: if_splits)
qed

lemma primary_from_closed:
  "(cur = [] \<or> closed_group cur) \<Longrightarrow> \<forall>g \<in> set gs. closed_group g \<Longrightarrow>
   g \<in> set (primary_groups_from c cur l gs) \<Longrightarrow> closed_group g"
proof (induction c cur l gs arbitrary: g rule: primary_groups_from.induct)
  case (1 c current limit)
  then show ?case by (auto split: if_splits)
next
  case (2 c current limit h gs)
  have "closed_group (current @ h)" using 2(3,4) by (auto simp: closed_group_def)
  with 2 show ?case by (auto split: if_splits)
qed

text \<open>A shard of more than one atomic group respects the limit of each of its pages.\<close>

lemma primary_from_limit:
  assumes "cur \<noteq> [] \<longrightarrow> cur \<in> A \<or> (\<forall>p \<in> set cur. int (length cur) \<le> sz_pages_per_shard (predict c p))"
    and "\<forall>p \<in> set cur. l \<le> sz_pages_per_shard (predict c p)" and "set gs \<subseteq> A" and "[] \<notin> set gs"
    and "g \<in> set (primary_groups_from c cur l gs)"
  shows "g \<in> A \<or> (\<forall>p \<in> set g. int (length g) \<le> sz_pages_per_shard (predict c p))"
  using assms
proof (induction c cur l gs arbitrary: g rule: primary_groups_from.induct)
  case (1 c current limit)
  then show ?case by (auto split: if_splits)
next
  case (2 c current limit h gs)
  have h: "h \<noteq> []" "h \<in> A" using 2(5,6) by auto
  note gl = group_limit_bounds(2) [OF h(1), of _ c]
  show ?case
  proof (cases "current \<noteq> [] \<and> int (length current) + int (length h) > min limit (group_limit c h)")
    case True
    show ?thesis
    proof (cases "g = current")
      case eq: True
      with 2(3) True show ?thesis by blast
    next
      case False
      with True 2(7) have "g \<in> set (primary_groups_from c h (min no_limit (group_limit c h)) gs)" by simp
      then show ?thesis
        using 2(1) [OF True, of g] 2(5,6) h gl by (auto simp: min_le_iff_disj)
    qed
  next
    case False
    have g: "g \<in> set (primary_groups_from c (current @ h) (min limit (group_limit c h)) gs)"
      using 2(7) by (simp only: primary_groups_from.simps if_not_P [OF False])
    have l: "\<forall>p \<in> set (current @ h). min limit (group_limit c h) \<le> sz_pages_per_shard (predict c p)"
      using 2(4) gl by (auto simp: min_le_iff_disj)
    have "current @ h \<in> A \<or> (\<forall>p \<in> set (current @ h). int (length (current @ h)) \<le> sz_pages_per_shard (predict c p))"
    proof (cases "current = []")
      case True
      with h show ?thesis by simp
    next
      case ne: False
      with False have "\<not> int (length current) + int (length h) > min limit (group_limit c h)" by blast
      then have "int (length (current @ h)) \<le> min limit (group_limit c h)"
        by (simp only: length_append of_nat_add not_less)
      with l show ?thesis by (meson order_trans)
    qed
    with 2(2) [OF False _ l, of g] 2(5,6) g show ?thesis by auto
  qed
qed

lemma continuity_kept:
  "concat gs = xs \<Longrightarrow> \<forall>g \<in> set gs. closed_group g \<Longrightarrow> Suc i < length xs \<Longrightarrow> continues (xs ! i) \<Longrightarrow>
   \<exists>g \<in> set gs. xs ! i \<in> set g \<and> xs ! Suc i \<in> set g"
proof (induction gs arbitrary: xs i)
  case Nil
  then show ?case by simp
next
  case (Cons g gs)
  have xs: "xs = g @ concat gs" using Cons.prems(1) by simp
  consider "Suc i < length g" | "Suc i = length g" | "length g \<le> i" by linarith
  then show ?case
  proof cases
    case 1
    then show ?thesis by (intro bexI [of _ g]) (auto simp: xs nth_append)
  next
    case 2
    then have i: "i = length g - Suc 0" "g \<noteq> []" by auto
    then have "xs ! i = last g" by (simp add: xs nth_append last_conv_nth)
    with Cons.prems(2,4) show ?thesis by (simp add: closed_group_def)
  next
    case 3
    have "\<exists>h \<in> set gs. concat gs ! (i - length g) \<in> set h \<and> concat gs ! Suc (i - length g) \<in> set h"
      using Cons.prems(2-4) 3 by (intro Cons.IH [OF refl]) (auto simp: xs nth_append)
    with 3 show ?thesis by (auto simp: xs nth_append Suc_diff_le)
  qed
qed

section \<open>The plan of valid pages\<close>

lemma validate_pages_Inr:
  "validate_pages pages = Inr u \<longleftrightarrow> pages \<noteq> [] \<and> sort_key pg_index0 pages = pages
     \<and> distinct (map pg_page_id pages) \<and> distinct (map pg_index0 pages) \<and> \<not> continues (last pages)"
  unfolding validate_pages_def require_all_Inr_iff by simp

lemma group_split: "g \<in> set (primary_groups c pages) \<Longrightarrow> \<exists>as bs. pages = as @ g @ bs"
  using primary_groups_concat [of c pages] by (metis concat.simps(2) concat_append split_list)

lemma group_range:
  assumes "validate_pages pages = Inr u" and "g \<in> set (primary_groups c pages)" and "p \<in> set g"
  shows "pg_index0 (hd g) \<le> pg_index0 p \<and> pg_index0 p \<le> pg_index0 (last g)"
proof -
  obtain as bs where pages: "pages = as @ g @ bs" using group_split [OF assms(2)] by blast
  have "sorted (map pg_index0 pages)"
    using assms(1) unfolding validate_pages_Inr by (metis sorted_sort_key)
  then have s: "sorted (map pg_index0 g)" by (simp add: pages sorted_append)
  from assms(3) have ne: "g \<noteq> []" by auto
  have "pg_index0 (hd g) \<le> pg_index0 p"
    using s assms(3) by (cases g) auto
  moreover have "pg_index0 p \<le> pg_index0 (last g)"
    using s assms(3) ne by (cases g rule: rev_cases) (auto simp: sorted_append)
  ultimately show ?thesis ..
qed

lemma context_facts:
  assumes "validate_pages pages = Inr u" and "g \<in> set (primary_groups c pages)"
  shows "set (context_ids c pages g) \<inter> pg_page_id ` set g = {}"
    and "set (context_ids c pages g) \<subseteq> pg_page_id ` set pages"
proof -
  have "set g \<subseteq> set pages" using group_split [OF assms(2)] by auto
  moreover have "inj_on pg_page_id (set pages)"
    using assms(1) by (simp add: validate_pages_Inr distinct_map)
  ultimately show "set (context_ids c pages g) \<inter> pg_page_id ` set g = {}"
    using group_range [OF assms] by (fastforce simp: context_ids_def Let_def inj_on_def)
  show "set (context_ids c pages g) \<subseteq> pg_page_id ` set pages"
    by (auto simp: context_ids_def Let_def)
qed

lemma context_near:
  assumes "g \<noteq> []" and "x \<in> set (context_ids c pages g)"
  shows "\<exists>q \<in> set pages. pg_page_id q = x \<and> (\<exists>r \<in> set g. \<bar>pg_index0 q - pg_index0 r\<bar> \<le> 2)"
proof -
  have "\<bar>i - pg_index0 (hd g)\<bar> \<le> 2 \<or> \<bar>i - pg_index0 (last g)\<bar> \<le> 2"
    if "(pg_index0 (hd g) - overlap_of c g \<le> i \<and> i < pg_index0 (hd g))
       \<or> (pg_index0 (last g) < i \<and> i \<le> pg_index0 (last g) + overlap_of c g)" for i
    using that overlap_bounds [OF assms(1), of c] by auto
  with assms(2) obtain q where "q \<in> set pages" "pg_page_id q = x"
      "\<bar>pg_index0 q - pg_index0 (hd g)\<bar> \<le> 2 \<or> \<bar>pg_index0 q - pg_index0 (last g)\<bar> \<le> 2"
    by (auto simp: context_ids_def Let_def)
  with hd_in_set [OF assms(1)] last_in_set [OF assms(1)] show ?thesis by blast
qed

lemma plan_shard_ok:
  assumes "validate_pages pages = Inr u" and "g \<in> set (primary_groups c pages)"
  shows "mk_parse_shard (plan_shard E c doc version source pages i g)
    = Inr (plan_shard E c doc version source pages i g)"
proof -
  let ?S = "pg_page_id ` set g \<union> set (context_ids c pages g)"
  let ?xs = "map pg_page_id (filter (\<lambda>p. pg_page_id p \<in> ?S) pages)"
  have "set g \<subseteq> set pages" using group_split [OF assms(2)] by auto
  then have s: "set ?xs = ?S" using context_facts(2) [OF assms] by auto
  have "distinct ?xs" using assms(1) by (simp add: validate_pages_Inr distinct_map_filter)
  then have "length ?xs = card (set ?xs)" by (rule distinct_card [symmetric])
  with s show ?thesis
    unfolding mk_parse_shard_def Let_def require_all_Inr_iff by (simp add: plan_shard_def Let_def)
qed

abbreviation planned_shards where
  "planned_shards E c doc version source pages \<equiv>
     map (\<lambda>(i, g). plan_shard E c doc version source pages i g) (enumerate 0 (primary_groups c pages))"

lemma planned_primary:
  "map ps_primary_page_ids (planned_shards E c doc version source pages)
    = map (map pg_page_id) (primary_groups c pages)"
proof -
  have "map ps_primary_page_ids (map (\<lambda>(i, g). plan_shard E c doc version source pages i g) (enumerate n gs))
    = map (map pg_page_id) gs" for n gs
    by (induction gs arbitrary: n) (auto simp: plan_shard_def Let_def)
  then show ?thesis .
qed

lemma planned_member:
  "s \<in> set (planned_shards E c doc version source pages) \<Longrightarrow>
   \<exists>i g. g \<in> set (primary_groups c pages) \<and> s = plan_shard E c doc version source pages i g"
  by (auto simp: in_set_enumerate_eq) (metis nth_mem)

lemma plan_valid:
  assumes "validate_pages pages = Inr u" and "is_sha256 source"
  shows "plan E c doc version source pages = Inr \<lparr>sp_document_id = doc, sp_document_version_id = version,
     sp_source_sha256 = source, sp_shards = planned_shards E c doc version source pages,
     sp_policy_version = pc_policy_version c\<rparr>"
proof -
  have m: "mapE (\<lambda>(i, g). mk_parse_shard (plan_shard E c doc version source pages i g))
      (enumerate 0 (primary_groups c pages)) = Inr (planned_shards E c doc version source pages)"
    by (rule mapE_pure [where g = "\<lambda>(i, g). plan_shard E c doc version source pages i g"])
      (auto simp: in_set_enumerate_eq plan_shard_ok [OF assms(1)])
  have ne: "planned_shards E c doc version source pages \<noteq> []"
    using primary_groups_concat [of c pages] assms(1)
    by (cases "primary_groups c pages") (auto simp: validate_pages_Inr)
  have owned: "concat (map ps_primary_page_ids (planned_shards E c doc version source pages)) = map pg_page_id pages"
    unfolding planned_primary by (metis map_concat primary_groups_concat)
  have ids: "distinct (map pg_page_id pages)" using assms(1) by (simp add: validate_pages_Inr)
  have dis: "set (ps_primary_page_ids s) \<inter> set (ps_context_page_ids s) = {}"
    if "s \<in> set (planned_shards E c doc version source pages)" for s
    using planned_member [OF that] context_facts(1) [OF assms(1)]
    by (fastforce simp: plan_shard_def Let_def)
  have "mk_shard_plan p = Inr p" if "sp_source_sha256 p = source"
    "sp_shards p = planned_shards E c doc version source pages" for p
    using that ne assms(2) dis
    unfolding mk_shard_plan_def require_all_Inr_iff owned_page_ids_def that(2) owned
    by (auto simp: list_ex_iff ids)
  then show ?thesis using assms(1) by (simp add: plan_def m del: enumerate_simps)
qed

lemma plan_InrD:
  assumes "plan E c doc version source pages = Inr p"
  shows "validate_pages pages = Inr ()" and "sp_shards p = planned_shards E c doc version source pages"
proof -
  show v: "validate_pages pages = Inr ()"
    using assms by (cases "validate_pages pages") (simp_all add: plan_def)
  have m: "mapE (\<lambda>(i, g). mk_parse_shard (plan_shard E c doc version source pages i g))
      (enumerate 0 (primary_groups c pages)) = Inr (planned_shards E c doc version source pages)"
    by (rule mapE_pure [where g = "\<lambda>(i, g). plan_shard E c doc version source pages i g"])
      (auto simp: in_set_enumerate_eq plan_shard_ok [OF v])
  show "sp_shards p = planned_shards E c doc version source pages"
    using assms unfolding plan_def v m sum.case mk_shard_plan_def require_all_Inr_iff by simp
qed

section \<open>Properties\<close>

text \<open>Fact: planning never fails on valid pages. For pages in index order with unique ids and indexes,
  the last of them closed, and a SHA-256 source digest, \<open>plan\<close> returns a plan; its own constructor
  checks cannot fail.\<close>

theorem plan_total:
  assumes "validate_pages pages = Inr ()" and "is_sha256 source"
  shows "\<exists>p. plan E c doc version source pages = Inr p \<and> owned_page_ids p = map pg_page_id pages"
proof -
  have "concat (map ps_primary_page_ids (planned_shards E c doc version source pages)) = map pg_page_id pages"
    unfolding planned_primary by (metis map_concat primary_groups_concat)
  then show ?thesis using plan_valid [OF assms] by (simp add: owned_page_ids_def)
qed

definition demo_page :: "string \<Rightarrow> int \<Rightarrow> continuity_signal list \<Rightarrow> page_descriptor" where
  "demo_page i n sig = \<lparr>pg_page_id = i, pg_index0 = n, pg_page_class = PC_INDEPENDENT, pg_width_px = 10,
     pg_height_px = 10, pg_token_estimate = 100, pg_expected_output_tokens = 100, pg_table_density = 0,
     pg_formula_density = 0, pg_prior_latency_seconds = 0, pg_prior_oom = False,
     pg_continuity_to_next = sig\<rparr>"

definition demo_pages :: "page_descriptor list" where
  "demo_pages = [demo_page ''a'' 0 [], demo_page ''b'' 1 [CS_TABLE_CUT], demo_page ''c'' 2 []]"

definition demo_predictor :: predictor where
  "demo_predictor = \<lparr>pc_model_context_tokens = 32768, pc_vram_gib = 24, pc_policy_version = ''v2''\<rparr>"

definition demo_shard_env :: renv where
  "demo_shard_env = \<lparr>sha256 = (\<lambda>s. replicate 64 (CHR ''0'')), float_repr = (\<lambda>r. ''''), isoformat = (\<lambda>t. '''')\<rparr>"

abbreviation demo_source :: string where
  "demo_source \<equiv> replicate 64 (CHR ''0'')"

lemma demo_pages_valid: "validate_pages demo_pages = Inr ()" "is_sha256 demo_source"
  by (simp_all add: validate_pages_Inr demo_pages_def demo_page_def is_sha256_def)

theorem plan_total_witness:
  "\<exists>p. plan demo_shard_env demo_predictor ''d'' ''v'' demo_source demo_pages = Inr p
    \<and> owned_page_ids p = [''a'', ''b'', ''c'']"
  using plan_total [OF demo_pages_valid, of demo_shard_env demo_predictor "''d''" "''v''"]
  by (simp add: demo_pages_def demo_page_def)

text \<open>Continuity and the page lists of the planned shards.\<close>

lemma planned_continuity:
  assumes "plan E c doc version source pages = Inr p" and i: "Suc i < length pages" "continues (pages ! i)"
  shows "\<exists>s \<in> set (sp_shards p). pg_page_id (pages ! i) \<in> set (ps_primary_page_ids s)
      \<and> pg_page_id (pages ! Suc i) \<in> set (ps_primary_page_ids s)"
proof -
  note v = plan_InrD [OF assms(1)]
  have closed: "\<forall>g \<in> set (primary_groups c pages). closed_group g"
  proof -
    have "\<forall>g \<in> set (atomic_groups pages). closed_group g"
      using v(1) atomic_from_closed [of "[]" pages] by (auto simp: atomic_groups_def validate_pages_Inr)
    then show ?thesis unfolding primary_groups_def by (meson primary_from_closed)
  qed
  obtain g where g: "g \<in> set (primary_groups c pages)" "pages ! i \<in> set g" "pages ! Suc i \<in> set g"
    using continuity_kept [OF primary_groups_concat closed i] by blast
  then have "map pg_page_id g \<in> set (map ps_primary_page_ids (sp_shards p))"
    unfolding v(2) planned_primary by simp
  then obtain s where "s \<in> set (sp_shards p)" "ps_primary_page_ids s = map pg_page_id g" by auto
  with g show ?thesis by (intro bexI [of _ s]) simp_all
qed

lemma planned_shard_pages:
  assumes "plan E c doc version source pages = Inr p" and mem: "s \<in> set (sp_shards p)"
  shows "set (ps_primary_page_ids s) \<inter> set (ps_context_page_ids s) = {}
      \<and> set (ps_ordered_input_page_ids s) = set (ps_primary_page_ids s) \<union> set (ps_context_page_ids s)
      \<and> distinct (ps_ordered_input_page_ids s)
      \<and> (\<forall>x \<in> set (ps_context_page_ids s). \<exists>q \<in> set pages. \<exists>r \<in> set pages. pg_page_id q = x
             \<and> pg_page_id r \<in> set (ps_primary_page_ids s) \<and> \<bar>pg_index0 q - pg_index0 r\<bar> \<le> 2)"
proof -
  note v = plan_InrD [OF assms(1)]
  have ids: "distinct (map pg_page_id pages)" using v(1) by (simp add: validate_pages_Inr)
  obtain i g where g: "g \<in> set (primary_groups c pages)" and s: "s = plan_shard E c doc version source pages i g"
    using planned_member mem unfolding v(2) by blast
  have ne: "g \<noteq> []" using g primary_groups_nonempty by metis
  have sub: "set g \<subseteq> set pages" using group_split [OF g] by auto
  have eq: "mk_parse_shard s = Inr s" unfolding s by (rule plan_shard_ok [OF v(1) g])
  have "set (ps_primary_page_ids s) \<inter> set (ps_context_page_ids s) = {}"
    using context_facts(1) [OF v(1) g] by (auto simp: s plan_shard_def Let_def)
  moreover have "set (ps_ordered_input_page_ids s) = set (ps_primary_page_ids s) \<union> set (ps_context_page_ids s)"
    using eq unfolding mk_parse_shard_def Let_def require_all_Inr_iff by simp
  moreover have "distinct (ps_ordered_input_page_ids s)"
    using ids by (simp add: s plan_shard_def Let_def distinct_map_filter)
  moreover have "\<exists>q \<in> set pages. \<exists>r \<in> set pages. pg_page_id q = x
           \<and> pg_page_id r \<in> set (ps_primary_page_ids s) \<and> \<bar>pg_index0 q - pg_index0 r\<bar> \<le> 2"
    if "x \<in> set (ps_context_page_ids s)" for x
  proof -
    have "x \<in> set (context_ids c pages g)" using that by (simp add: s plan_shard_def Let_def)
    from context_near [OF ne this] sub show ?thesis by (fastforce simp: s plan_shard_def Let_def)
  qed
  ultimately show ?thesis by blast
qed

text \<open>C28: every page has exactly one owner and continuity is atomic. In any plan the shards own the
  pages in document order without loss or repetition; two pages joined by a continuity signal are
  owned by the same shard; context pages are never owned by the shard, lie within two index
  positions of its range, and with the owned pages are exactly what is fed to the worker.\<close>

theorem plan_ownership:
  assumes "plan E c doc version source pages = Inr p"
  shows "owned_page_ids p = map pg_page_id pages \<and> distinct (owned_page_ids p)
    \<and> (\<forall>i. Suc i < length pages \<and> continues (pages ! i) \<longrightarrow>
        (\<exists>s \<in> set (sp_shards p). pg_page_id (pages ! i) \<in> set (ps_primary_page_ids s)
           \<and> pg_page_id (pages ! Suc i) \<in> set (ps_primary_page_ids s)))
    \<and> (\<forall>s \<in> set (sp_shards p). set (ps_primary_page_ids s) \<inter> set (ps_context_page_ids s) = {}
        \<and> set (ps_ordered_input_page_ids s) = set (ps_primary_page_ids s) \<union> set (ps_context_page_ids s)
        \<and> distinct (ps_ordered_input_page_ids s)
        \<and> (\<forall>x \<in> set (ps_context_page_ids s). \<exists>q \<in> set pages. \<exists>r \<in> set pages. pg_page_id q = x
             \<and> pg_page_id r \<in> set (ps_primary_page_ids s) \<and> \<bar>pg_index0 q - pg_index0 r\<bar> \<le> 2))"
proof -
  note v = plan_InrD [OF assms]
  have own: "owned_page_ids p = map pg_page_id pages"
    unfolding owned_page_ids_def v(2) planned_primary by (metis map_concat primary_groups_concat)
  have ids: "distinct (map pg_page_id pages)" using v(1) by (simp add: validate_pages_Inr)
  show ?thesis using own ids planned_continuity [OF assms] planned_shard_pages [OF assms] by simp
qed

theorem plan_ownership_witness:
  "\<exists>p. plan demo_shard_env demo_predictor ''d'' ''v'' demo_source demo_pages = Inr p
    \<and> (\<exists>s \<in> set (sp_shards p). ''b'' \<in> set (ps_primary_page_ids s) \<and> ''c'' \<in> set (ps_primary_page_ids s))"
proof -
  obtain p where p: "plan demo_shard_env demo_predictor ''d'' ''v'' demo_source demo_pages = Inr p"
    using plan_valid [OF demo_pages_valid] by blast
  have i: "Suc 1 < length demo_pages \<and> continues (demo_pages ! 1)"
    and ids: "pg_page_id (demo_pages ! 1) = ''b''" "pg_page_id (demo_pages ! Suc 1) = ''c''"
    by (simp_all add: demo_pages_def demo_page_def)
  from plan_ownership [OF p] i
  have "\<exists>s \<in> set (sp_shards p). pg_page_id (demo_pages ! 1) \<in> set (ps_primary_page_ids s)
           \<and> pg_page_id (demo_pages ! Suc 1) \<in> set (ps_primary_page_ids s)"
    by blast
  with p ids show ?thesis by simp
qed

text \<open>C29: shard sizes. A shard is either a single continuity group, which cannot be split, or holds
  no more pages than the predictor allows for any of its pages, hence at most 32.\<close>

theorem shard_size_bound:
  assumes "plan E c doc version source pages = Inr p" and "s \<in> set (sp_shards p)"
  shows "\<exists>g. ps_primary_page_ids s = map pg_page_id g \<and> set g \<subseteq> set pages
    \<and> (g \<in> set (atomic_groups pages)
       \<or> (\<forall>q \<in> set g. int (length g) \<le> sz_pages_per_shard (predict c q)
             \<and> sz_pages_per_shard (predict c q) \<le> base_target (pg_page_class q)))"
proof -
  note v = plan_InrD [OF assms(1)]
  obtain i g where g: "g \<in> set (primary_groups c pages)" and s: "s = plan_shard E c doc version source pages i g"
    using planned_member assms(2) unfolding v(2) by blast
  have "g \<in> set (atomic_groups pages) \<or> (\<forall>q \<in> set g. int (length g) \<le> sz_pages_per_shard (predict c q))"
    using g atomic_from_nonempty unfolding primary_groups_def atomic_groups_def
    by (intro primary_from_limit) auto
  with group_split [OF g] predict_bounds show ?thesis
    by (intro exI [of _ g]) (auto simp: s plan_shard_def Let_def)
qed

theorem shard_size_bound_witness:
  "\<exists>p. plan demo_shard_env demo_predictor ''d'' ''v'' demo_source demo_pages = Inr p \<and> sp_shards p \<noteq> []
    \<and> (\<exists>g. ps_primary_page_ids (hd (sp_shards p)) = map pg_page_id g \<and> set g \<subseteq> set demo_pages)"
proof -
  obtain p where p: "plan demo_shard_env demo_predictor ''d'' ''v'' demo_source demo_pages = Inr p"
      "owned_page_ids p = map pg_page_id demo_pages"
    using plan_total [OF demo_pages_valid] by blast
  then have ne: "sp_shards p \<noteq> []" by (auto simp: owned_page_ids_def demo_pages_def)
  from shard_size_bound [OF p(1) hd_in_set [OF ne]] p(1) ne show ?thesis by blast
qed

section \<open>Benchmark assignment\<close>

lemma assign_groups_Inr:
  assumes "assign_groups E n groups asg = Inr res" and "0 < n" and "length asg = n"
  shows "length res = n \<and> mset (concat res) = mset (concat asg) + mset (concat (map snd groups))
    \<and> (\<forall>i < n. set (asg ! i) \<subseteq> set (res ! i))
    \<and> (\<forall>(gid, pages) \<in> set groups. set pages \<subseteq> set (res ! (digest_number E gid mod n)))"
  using assms
proof (induction E n groups asg rule: assign_groups.induct)
  case (1 E n asg)
  then show ?case by simp
next
  case (2 E n gid pages rest asg)
  let ?i = "digest_number E gid mod n"
  have ok: "\<not> (pages = [] \<or> \<not> distinct pages)" and res: "assign_groups E n rest (asg[?i := asg ! ?i @ pages]) = Inr res"
    using 2(2) by (auto simp: Let_def split: if_splits)
  have i: "?i < length asg" using 2(3,4) by simp
  have "mset (concat (asg[?i := asg ! ?i @ pages])) = mset (concat asg) + mset pages"
  proof -
    have "asg[?i := asg ! ?i @ pages] = take ?i asg @ (asg ! ?i @ pages) # drop (Suc ?i) asg"
      using i by (rule upd_conv_take_nth_drop)
    moreover have "asg = take ?i asg @ asg ! ?i # drop (Suc ?i) asg" using i by (rule id_take_nth_drop)
    then have "mset (concat asg) = mset (concat (take ?i asg)) + mset (asg ! ?i) + mset (concat (drop (Suc ?i) asg))"
      by (metis concat.simps(2) concat_append mset_append union_assoc)
    ultimately show ?thesis by (simp add: union_ac)
  qed
  moreover note 2(1) [OF ok refl res 2(3)]
  ultimately show ?case using 2(4) i by (fastforce simp: nth_list_update)
qed

text \<open>Fact: the benchmark assignment keeps document groups whole. Every page of every group lands on the
  shard the group's digest names, every page of the input is assigned exactly once, and the result
  does not depend on the order in which the groups are given.\<close>

theorem benchmark_assignment:
  assumes "deterministic_benchmark_assignments E groups n = Inr res" and "distinct (map fst groups)"
    and "mset groups' = mset groups"
  shows "int (length res) = n \<and> mset (concat res) = mset (concat (map snd groups))
    \<and> (\<forall>(gid, pages) \<in> set groups. set pages \<subseteq> set (res ! (digest_number E gid mod nat n)))
    \<and> deterministic_benchmark_assignments E groups' n = Inr res"
proof -
  have n: "1 \<le> n" and r: "assign_groups E (nat n) (sort_key fst groups) (replicate (nat n) []) = Inr res"
    using assms(1) by (auto simp: deterministic_benchmark_assignments_def split: if_splits)
  have d: "distinct (map fst groups')" using assms(2,3) by (metis mset_eq_imp_distinct_iff mset_map)
  have "sort_key fst groups' = sort_key fst groups"
  proof (rule properties_for_sort_key)
    show "mset (sort_key fst groups) = mset groups'" using assms(3) by simp
    show "filter (\<lambda>y. fst k = fst y) (sort_key fst groups) = filter (\<lambda>x. fst k = fst x) groups'"
      if "k \<in> set (sort_key fst groups)" for k
    proof -
      have one: "filter (\<lambda>y. fst k = fst y) xs = [k]" if "k \<in> set xs" "distinct (map fst xs)" for xs :: "(string \<times> string list) list"
        using that by (induction xs) (auto simp: filter_empty_conv image_iff)
      have k: "k \<in> set groups" "k \<in> set groups'" using that assms(3) by (auto dest: mset_eq_setD)
      have "distinct (map fst (sort_key fst groups))"
        using assms(2) by (metis distinct_map distinct_sort set_sort)
      with one k d show ?thesis by simp
    qed
  qed simp
  then have "deterministic_benchmark_assignments E groups' n = Inr res"
    using n r by (simp add: deterministic_benchmark_assignments_def)
  moreover have "mset (concat (replicate (nat n) ([] :: string list))) = {#}"
    by (induction "nat n") auto
  moreover have "mset (concat (map snd xs)) = \<Sum>\<^sub># (image_mset (\<lambda>p. mset (snd p)) (mset xs))"
    for xs :: "(string \<times> string list) list"
    by (induction xs) auto
  then have "mset (concat (map snd (sort_key fst groups))) = mset (concat (map snd groups))"
    by (metis mset_sort)
  ultimately show ?thesis
    using assign_groups_Inr [OF r] n by auto
qed

theorem benchmark_assignment_witness:
  "mset (concat [[''p'', ''q'', ''r''], []]) = mset (concat (map snd [(''b'', [''r'']), (''a'', [''p'', ''q''])]))"
proof -
  have "deterministic_benchmark_assignments demo_shard_env [(''b'', [''r'']), (''a'', [''p'', ''q''])] 2
      = Inr [[''p'', ''q'', ''r''], []]"
    by (simp add: deterministic_benchmark_assignments_def digest_number_def demo_shard_env_def hex_value_def
        eval_nat_numeral)
  from benchmark_assignment [OF this] show ?thesis by simp
qed

end
