(* ===== verification/Credits.thy ===== *)
theory Credits
  imports Models StateMachine
begin

text \<open>
  \<^verbatim>\<open>akc_parallel_runtime/credits.py\<close>: the credit ledger. Every amount the ledger stores went
  through \<open>_credits\<close>, so it is a multiple of a millionth: amounts are natural numbers of millionths
  here. Sums stay below the 28 digits of the decimal context (a reservation does, and nothing
  exceeds it), so Decimal addition is exact. The sign of a negative zero is dropped.
\<close>

section \<open>_credits\<close>

text \<open>\<open>quantize\<close> signals InvalidOperation when the result needs more than 28 digits.\<close>

fun credits_of :: "decimal \<Rightarrow> pyerr + nat" where
  "credits_of (Dec s c e) =
     (if dec_value s c e < 0 then Inl (ValueError ''credit values must be finite and non-negative'')
      else let m = nat (round_half_even (dec_value s c e * 1000000))
        in if m \<ge> 10 ^ 28 then Inl InvalidOperation else Inr m)"
| "credits_of _ = Inl (ValueError ''credit values must be finite and non-negative'')"

section \<open>Data\<close>

datatype credit_entry_type = CE_RESERVED | CE_CONSUMED | CE_RELEASED | CE_COMPUTE_TELEMETRY

fun entry_type_value :: "credit_entry_type \<Rightarrow> string" where
  "entry_type_value CE_RESERVED = ''reserved''"
| "entry_type_value CE_CONSUMED = ''consumed''"
| "entry_type_value CE_RELEASED = ''released''"
| "entry_type_value CE_COMPUTE_TELEMETRY = ''compute_telemetry''"

record credit_reservation =
  cv_reservation_id :: string
  cv_account_id :: string
  cv_job_id :: string
  cv_reserved_credits :: nat
  cv_created_at :: datetime
  cv_idempotency_key :: string

record credit_entry =
  ce_entry_id :: string
  ce_reservation_id :: string
  ce_entry_type :: credit_entry_type
  ce_amount :: nat
  ce_occurred_at :: datetime
  ce_reason_code :: string
  ce_work_key :: "string option"
  ce_attempt_id :: "string option"
  ce_idempotency_key :: string
  ce_metadata_sha256 :: string

record settlement_result =
  sr_reservation_id :: string
  sr_work_key :: string
  sr_attempt_id :: string
  sr_user_credits_charged :: nat
  sr_billable :: bool
  sr_duplicate :: bool
  sr_reason_code :: string
  sr_entry :: "credit_entry option"

text \<open>
  \<open>rv_consumed = None\<close> is the initial \<open>Decimal("0")\<close>, which renders without fractional digits;
  after the first charge the sum has six.
\<close>

record reservation_state =
  rv_reservation :: credit_reservation
  rv_consumed :: "nat option"
  rv_released :: nat

definition consumed :: "reservation_state \<Rightarrow> nat" where
  "consumed st = (case rv_consumed st of None \<Rightarrow> 0 | Some n \<Rightarrow> n)"

definition available :: "reservation_state \<Rightarrow> int" where
  "available st = int (cv_reserved_credits (rv_reservation st)) - int (consumed st) - int (rv_released st)"

text \<open>The values stored under idempotency keys, told apart by \<open>isinstance\<close>.\<close>

datatype keyed_result =
  KReservation credit_reservation | KSettlement settlement_result | KEntry credit_entry

record credit_ledger =
  lg_reservations :: "string \<rightharpoonup> reservation_state"
  lg_keys :: "string \<rightharpoonup> string \<times> keyed_result"
  lg_charged_work :: "string \<times> string \<rightharpoonup> settlement_result"
  lg_entries :: "credit_entry list"

definition new_ledger :: credit_ledger where
  "new_ledger = \<lparr>lg_reservations = Map.empty, lg_keys = Map.empty,
     lg_charged_work = Map.empty, lg_entries = []\<rparr>"

section \<open>Operations\<close>

definition credit_time_err :: pyerr where
  "credit_time_err = ValueError ''credit ledger timestamps must be timezone-aware''"

definition idempotent :: "string \<Rightarrow> string \<Rightarrow> credit_ledger \<Rightarrow> pyerr + keyed_result option" where
  "idempotent key ident lg =
    (case lg_keys lg key of
      None \<Rightarrow> Inr None
    | Some (existing_identity, res) \<Rightarrow>
        (if existing_identity \<noteq> ident then Inl CreditConflictError else Inr (Some res)))"

definition jcredits :: "nat \<Rightarrow> jval" where
  "jcredits n = JStr (dec_format False n (- 6))"

definition credit_entry_of ::
  "renv \<Rightarrow> string \<Rightarrow> credit_entry_type \<Rightarrow> nat \<Rightarrow> datetime \<Rightarrow> string \<Rightarrow> string option \<Rightarrow> string option
   \<Rightarrow> string \<Rightarrow> (string \<times> jval) list \<Rightarrow> credit_entry" where
  "credit_entry_of E rid ty amount occ reason work_key attempt_id key metadata =
    (let digest = jsha E (JObj metadata)
     in \<lparr>ce_entry_id = stable_id E ''credit_entry'' [JStr rid, JStr (entry_type_value ty),
           jopt work_key, jopt attempt_id, JStr key, JStr digest],
         ce_reservation_id = rid, ce_entry_type = ty, ce_amount = amount, ce_occurred_at = occ,
         ce_reason_code = reason, ce_work_key = work_key, ce_attempt_id = attempt_id,
         ce_idempotency_key = key, ce_metadata_sha256 = digest\<rparr>)"

definition reserve_identity :: "renv \<Rightarrow> string \<Rightarrow> string \<Rightarrow> nat \<Rightarrow> string" where
  "reserve_identity E account job amount = jsha E (JObj
     [(''operation'', JStr ''reserve''), (''account_id'', JStr account), (''job_id'', JStr job),
      (''amount'', jcredits amount)])"

definition reserve ::
  "renv \<Rightarrow> string \<Rightarrow> string \<Rightarrow> decimal \<Rightarrow> datetime \<Rightarrow> string \<Rightarrow> credit_ledger
   \<Rightarrow> (credit_ledger, credit_reservation) outcome" where
  "reserve E account job amount occ key lg =
    (case credits_of amount of
      Inl e \<Rightarrow> (Inl e, lg)
    | Inr n \<Rightarrow>
        (if \<not> is_aware occ then (Inl credit_time_err, lg)
         else let ident = reserve_identity E account job n in
           (case idempotent key ident lg of
             Inl e \<Rightarrow> (Inl e, lg)
           | Inr (Some (KReservation r)) \<Rightarrow> (Inr r, lg)
           | Inr _ \<Rightarrow>
               let rid = stable_id E ''reservation'' [JStr account, JStr job, JStr key];
                   r = \<lparr>cv_reservation_id = rid, cv_account_id = account, cv_job_id = job,
                        cv_reserved_credits = n, cv_created_at = occ, cv_idempotency_key = key\<rparr>;
                   entry = credit_entry_of E rid CE_RESERVED n occ ''job_credit_ceiling_reserved''
                     None None (''entry:'' @ key) [(''account_id'', JStr account), (''job_id'', JStr job)]
               in (Inr r, lg\<lparr>
                    lg_reservations := (lg_reservations lg)(rid \<mapsto>
                      \<lparr>rv_reservation = r, rv_consumed = None, rv_released = 0\<rparr>),
                    lg_entries := lg_entries lg @ [entry],
                    lg_keys := (lg_keys lg)(key \<mapsto> (ident, KReservation r))\<rparr>))))"

text \<open>The arguments of \<open>settle_work\<close> besides amount, time and key.\<close>

record settlement_request =
  sq_reservation_id :: string
  sq_work_key :: string
  sq_attempt_id :: string
  sq_attempt_kind :: attempt_kind
  sq_verification_state :: verification_state

definition settle_identity :: "renv \<Rightarrow> settlement_request \<Rightarrow> nat \<Rightarrow> string" where
  "settle_identity E q n = jsha E (JObj
     [(''operation'', JStr ''settle_work''), (''reservation_id'', JStr (sq_reservation_id q)),
      (''work_key'', JStr (sq_work_key q)), (''attempt_id'', JStr (sq_attempt_id q)),
      (''attempt_kind'', JStr (kind_value (sq_attempt_kind q))),
      (''verification_state'', JStr (verification_value (sq_verification_state q))),
      (''canonical_credits'', jcredits n)])"

definition unbilled :: "settlement_request \<Rightarrow> bool \<Rightarrow> string \<Rightarrow> settlement_result" where
  "unbilled q duplicate reason = \<lparr>sr_reservation_id = sq_reservation_id q, sr_work_key = sq_work_key q,
     sr_attempt_id = sq_attempt_id q, sr_user_credits_charged = 0, sr_billable = False,
     sr_duplicate = duplicate, sr_reason_code = reason, sr_entry = None\<rparr>"

definition remember_settlement :: "string \<Rightarrow> string \<Rightarrow> settlement_result \<Rightarrow> credit_ledger \<Rightarrow> credit_ledger" where
  "remember_settlement key ident res lg = lg\<lparr>lg_keys := (lg_keys lg)(key \<mapsto> (ident, KSettlement res))\<rparr>"

definition settle_work ::
  "renv \<Rightarrow> settlement_request \<Rightarrow> decimal \<Rightarrow> datetime \<Rightarrow> string \<Rightarrow> credit_ledger
   \<Rightarrow> (credit_ledger, settlement_result) outcome" where
  "settle_work E q amount occ key lg =
    (case credits_of amount of
      Inl e \<Rightarrow> (Inl e, lg)
    | Inr n \<Rightarrow>
        (if \<not> is_aware occ then (Inl credit_time_err, lg)
         else let ident = settle_identity E q n; rid = sq_reservation_id q; wk = sq_work_key q in
           (case idempotent key ident lg of
             Inl e \<Rightarrow> (Inl e, lg)
           | Inr (Some (KSettlement res)) \<Rightarrow> (Inr res, lg)
           | Inr _ \<Rightarrow>
               (case lg_reservations lg rid of
                 None \<Rightarrow> (Inl (KeyError rid), lg)
               | Some st \<Rightarrow>
                   (if lg_charged_work lg (rid, wk) \<noteq> None
                    then let res = unbilled q True ''logical_work_already_charged''
                      in (Inr res, remember_settlement key ident res lg)
                    else if \<not> accepted_verification (sq_verification_state q)
                    then let res = unbilled q (sq_attempt_kind q \<in> {AK_HEDGE, AK_STRAGGLER, AK_SHADOW})
                           (verification_value (sq_verification_state q) @ ''_not_billable'')
                      in (Inr res, remember_settlement key ident res lg)
                    else if int n > available st then (Inl CreditLimitExceeded, lg)
                    else
                      let entry = credit_entry_of E rid CE_CONSUMED n occ ''accepted_logical_work''
                            (Some wk) (Some (sq_attempt_id q)) (''entry:'' @ key)
                            [(''attempt_kind'', JStr (kind_value (sq_attempt_kind q))),
                             (''verification_state'', JStr (verification_value (sq_verification_state q))),
                             (''internal_attempt_surcharge'', JStr ''0.000000'')];
                          res = \<lparr>sr_reservation_id = rid, sr_work_key = wk, sr_attempt_id = sq_attempt_id q,
                             sr_user_credits_charged = n, sr_billable = True, sr_duplicate = False,
                             sr_reason_code = ''accepted_logical_work'', sr_entry = Some entry\<rparr>
                      in (Inr res, remember_settlement key ident res (lg\<lparr>
                           lg_reservations := (lg_reservations lg)(rid \<mapsto>
                             st\<lparr>rv_consumed := Some (consumed st + n)\<rparr>),
                           lg_entries := lg_entries lg @ [entry],
                           lg_charged_work := (lg_charged_work lg)((rid, wk) \<mapsto> res)\<rparr>)))))))"

definition telemetry_identity :: "renv \<Rightarrow> string \<Rightarrow> string \<Rightarrow> attempt_kind \<Rightarrow> nat \<Rightarrow> nat \<Rightarrow> string" where
  "telemetry_identity E rid aid kind gpu cost = jsha E (JObj
     [(''operation'', JStr ''compute_telemetry''), (''reservation_id'', JStr rid),
      (''attempt_id'', JStr aid), (''attempt_kind'', JStr (kind_value kind)),
      (''gpu_seconds'', jcredits gpu), (''provider_cost'', jcredits cost)])"

definition record_compute_telemetry ::
  "renv \<Rightarrow> string \<Rightarrow> string \<Rightarrow> attempt_kind \<Rightarrow> decimal \<Rightarrow> decimal \<Rightarrow> datetime \<Rightarrow> string \<Rightarrow> credit_ledger
   \<Rightarrow> (credit_ledger, credit_entry) outcome" where
  "record_compute_telemetry E rid aid kind gpu_seconds provider_cost occ key lg =
    (case pairE (credits_of gpu_seconds) (credits_of provider_cost) of
      Inl e \<Rightarrow> (Inl e, lg)
    | Inr (gpu, cost) \<Rightarrow>
        (if \<not> is_aware occ then (Inl credit_time_err, lg)
         else let ident = telemetry_identity E rid aid kind gpu cost in
           (case idempotent key ident lg of
             Inl e \<Rightarrow> (Inl e, lg)
           | Inr (Some (KEntry entry)) \<Rightarrow> (Inr entry, lg)
           | Inr _ \<Rightarrow>
               (if lg_reservations lg rid = None then (Inl (KeyError rid), lg)
                else let entry = credit_entry_of E rid CE_COMPUTE_TELEMETRY 0 occ
                       ''duplicate_compute_recorded_not_billed'' None (Some aid) (''entry:'' @ key)
                       [(''attempt_kind'', JStr (kind_value kind)), (''gpu_seconds'', jcredits gpu),
                        (''provider_cost'', jcredits cost), (''user_credits'', JStr ''0.000000'')]
                  in (Inr entry, lg\<lparr>lg_entries := lg_entries lg @ [entry],
                       lg_keys := (lg_keys lg)(key \<mapsto> (ident, KEntry entry))\<rparr>)))))"

definition release_identity :: "renv \<Rightarrow> string \<Rightarrow> string" where
  "release_identity E rid = jsha E (JObj
     [(''operation'', JStr ''release_remaining''), (''reservation_id'', JStr rid)])"

definition release_remaining ::
  "renv \<Rightarrow> string \<Rightarrow> datetime \<Rightarrow> string \<Rightarrow> credit_ledger \<Rightarrow> (credit_ledger, credit_entry) outcome" where
  "release_remaining E rid occ key lg =
    (if \<not> is_aware occ then (Inl credit_time_err, lg)
     else let ident = release_identity E rid in
       (case idempotent key ident lg of
         Inl e \<Rightarrow> (Inl e, lg)
       | Inr (Some (KEntry entry)) \<Rightarrow> (Inr entry, lg)
       | Inr _ \<Rightarrow>
           (case lg_reservations lg rid of
             None \<Rightarrow> (Inl (KeyError rid), lg)
           | Some st \<Rightarrow>
               (if available st < 0
                then (Inl (ValueError ''credit values must be finite and non-negative''), lg)
                else
                  let amount = nat (available st);
                      entry = credit_entry_of E rid CE_RELEASED amount occ ''unused_reservation_released''
                        None None (''entry:'' @ key)
                        [(''consumed'', (case rv_consumed st of None \<Rightarrow> JStr ''0'' | Some n \<Rightarrow> jcredits n)),
                         (''reserved'', jcredits (cv_reserved_credits (rv_reservation st)))]
                  in (Inr entry, lg\<lparr>
                       lg_reservations := (lg_reservations lg)(rid \<mapsto>
                         st\<lparr>rv_released := rv_released st + amount\<rparr>),
                       lg_entries := lg_entries lg @ [entry],
                       lg_keys := (lg_keys lg)(key \<mapsto> (ident, KEntry entry))\<rparr>)))))"

definition balance :: "string \<Rightarrow> credit_ledger \<Rightarrow> pyerr + (nat \<times> nat \<times> int)" where
  "balance rid lg = (case lg_reservations lg rid of
     None \<Rightarrow> Inl (KeyError rid)
   | Some st \<Rightarrow> Inr (consumed st, rv_released st, available st))"

definition entries :: "string option \<Rightarrow> credit_ledger \<Rightarrow> credit_entry list" where
  "entries rid lg = (case rid of None \<Rightarrow> lg_entries lg
     | Some r \<Rightarrow> filter (\<lambda>e. ce_reservation_id e = r) (lg_entries lg))"

section \<open>Calls\<close>

datatype ledger_call =
    Reserve string string decimal datetime string
  | SettleWork settlement_request decimal datetime string
  | RecordTelemetry string string attempt_kind decimal decimal datetime string
  | ReleaseRemaining string datetime string

fun ledger_op :: "renv \<Rightarrow> ledger_call \<Rightarrow> credit_ledger \<Rightarrow> (credit_ledger, keyed_result) outcome" where
  "ledger_op E (Reserve a j n t k) lg = (case reserve E a j n t k lg of (r, s) \<Rightarrow> (mapR KReservation r, s))"
| "ledger_op E (SettleWork q n t k) lg = (case settle_work E q n t k lg of (r, s) \<Rightarrow> (mapR KSettlement r, s))"
| "ledger_op E (RecordTelemetry r a kd g c t k) lg =
     (case record_compute_telemetry E r a kd g c t k lg of (x, s) \<Rightarrow> (mapR KEntry x, s))"
| "ledger_op E (ReleaseRemaining r t k) lg = (case release_remaining E r t k lg of (x, s) \<Rightarrow> (mapR KEntry x, s))"

text \<open>What one successful new operation does to the reservation states, the entries and the charges.\<close>

lemma reserve_cases:
  assumes "reserve E a j amount t k lg = (r, lg')"
  shows "lg' = lg \<or> (\<exists>n res entry. credits_of amount = Inr n \<and> r = Inr res
    \<and> cv_reserved_credits res = n
    \<and> lg_reservations lg' = (lg_reservations lg)(cv_reservation_id res \<mapsto>
         \<lparr>rv_reservation = res, rv_consumed = None, rv_released = 0\<rparr>)
    \<and> lg_charged_work lg' = lg_charged_work lg
    \<and> lg_entries lg' = lg_entries lg @ [entry]
    \<and> ce_entry_type entry = CE_RESERVED \<and> ce_reservation_id entry = cv_reservation_id res \<and> ce_amount entry = n
    \<and> lg_keys lg' = (lg_keys lg)(k \<mapsto> (reserve_identity E a j n, KReservation res)))"
proof (cases "credits_of amount")
  case (Inl e)
  with assms show ?thesis by (simp add: reserve_def)
next
  case (Inr n)
  show ?thesis
  proof (cases "is_aware t")
    case False
    with Inr assms show ?thesis by (simp add: reserve_def)
  next
    case True
    with Inr assms show ?thesis
      unfolding reserve_def Let_def
      by (auto simp: credit_entry_of_def Let_def split: sum.splits option.splits keyed_result.splits)
  qed
qed

lemma settle_cases:
  assumes "settle_work E q amount t k lg = (r, lg')"
  shows "(lg' = lg \<and> ((\<exists>e. r = Inl e) \<or> (\<exists>n res. credits_of amount = Inr n \<and> is_aware t \<and> r = Inr res
       \<and> lg_keys lg k = Some (settle_identity E q n, KSettlement res))))
    \<or> (\<exists>n st res. credits_of amount = Inr n \<and> is_aware t \<and> r = Inr res
       \<and> lg_reservations lg (sq_reservation_id q) = Some st
       \<and> lg_keys lg' = (lg_keys lg)(k \<mapsto> (settle_identity E q n, KSettlement res))
       \<and> (\<forall>i x. lg_keys lg k = Some (i, x) \<longrightarrow> i = settle_identity E q n \<and> (\<nexists>y. x = KSettlement y))
       \<and> (if lg_charged_work lg (sq_reservation_id q, sq_work_key q) = None
             \<and> accepted_verification (sq_verification_state q)
          then \<exists>entry. int n \<le> available st \<and> sr_billable res \<and> sr_user_credits_charged res = n
            \<and> sr_entry res = Some entry
            \<and> lg_reservations lg' = (lg_reservations lg)(sq_reservation_id q \<mapsto>
                 st\<lparr>rv_consumed := Some (consumed st + n)\<rparr>)
            \<and> lg_entries lg' = lg_entries lg @ [entry]
            \<and> ce_entry_type entry = CE_CONSUMED \<and> ce_reservation_id entry = sq_reservation_id q
            \<and> ce_amount entry = n \<and> ce_work_key entry = Some (sq_work_key q)
            \<and> lg_charged_work lg' = (lg_charged_work lg)((sq_reservation_id q, sq_work_key q) \<mapsto> res)
          else \<not> sr_billable res \<and> sr_user_credits_charged res = 0 \<and> sr_entry res = None
            \<and> lg_reservations lg' = lg_reservations lg \<and> lg_entries lg' = lg_entries lg
            \<and> lg_charged_work lg' = lg_charged_work lg))"
proof (cases "credits_of amount")
  case (Inl e)
  with assms show ?thesis by (auto simp: settle_work_def)
next
  case n: (Inr n)
  show ?thesis
  proof (cases "is_aware t")
    case False
    with n assms show ?thesis by (auto simp: settle_work_def)
  next
    case t: True
    let ?fresh = "\<forall>i x. lg_keys lg k = Some (i, x) \<longrightarrow> i = settle_identity E q n \<and> (\<nexists>y. x = KSettlement y)"
    show ?thesis
    proof (cases ?fresh)
      case False
      with n t assms show ?thesis
        by (auto simp: settle_work_def Let_def idempotent_def split: if_splits keyed_result.splits)
    next
      case fresh: True
      then have idem: "idempotent k (settle_identity E q n) lg = Inr None
          \<or> (\<exists>x. idempotent k (settle_identity E q n) lg = Inr (Some x) \<and> (\<nexists>y. x = KSettlement y))"
        by (auto simp: idempotent_def split: option.splits)
      show ?thesis
      proof (cases "lg_reservations lg (sq_reservation_id q)")
        case None
        with idem n t assms show ?thesis
          by (auto simp: settle_work_def Let_def split: keyed_result.splits)
      next
        case (Some st)

        show ?thesis
          using idem n t assms fresh Some
          by (elim disjE exE)
            (auto simp: settle_work_def Let_def unbilled_def remember_settlement_def credit_entry_of_def
              split: keyed_result.splits if_splits)
      qed
    qed
  qed
qed

lemma telemetry_cases:
  assumes "record_compute_telemetry E rid aid kd g c t k lg = (r, lg')"
  shows "lg' = lg \<or> (\<exists>entry i. r = Inr entry \<and> lg_reservations lg' = lg_reservations lg
    \<and> lg_charged_work lg' = lg_charged_work lg \<and> lg_entries lg' = lg_entries lg @ [entry]
    \<and> ce_entry_type entry = CE_COMPUTE_TELEMETRY \<and> ce_amount entry = 0
    \<and> (\<exists>gpu cost. credits_of g = Inr gpu \<and> credits_of c = Inr cost \<and> i = telemetry_identity E rid aid kd gpu cost)
    \<and> lg_keys lg' = (lg_keys lg)(k \<mapsto> (i, KEntry entry)))"
proof (cases "pairE (credits_of g) (credits_of c)")
  case (Inl e)
  with assms show ?thesis by (simp add: record_compute_telemetry_def)
next
  case (Inr p)
  obtain gpu cost where p: "p = (gpu, cost)" by fastforce
  have gc: "credits_of g = Inr gpu" "credits_of c = Inr cost"
    using Inr unfolding p by (auto simp: pairE_def split: sum.splits)
  from Inr p gc assms show ?thesis
    unfolding record_compute_telemetry_def Let_def
    by (auto simp: credit_entry_of_def Let_def split: sum.splits option.splits keyed_result.splits if_splits)
qed

lemma telemetry_entry:
  assumes "record_compute_telemetry E rid aid kd g c t k lg = (r, lg')" and "lg_entries lg' = lg_entries lg @ [entry]"
  shows "lg_reservations lg (ce_reservation_id entry) \<noteq> None"
  using assms unfolding record_compute_telemetry_def Let_def
  by (auto simp: credit_entry_of_def Let_def split: sum.split_asm prod.split_asm option.split_asm keyed_result.split_asm if_split_asm)

lemma release_cases:
  assumes "release_remaining E rid t k lg = (r, lg')"
  shows "lg' = lg \<or> (\<exists>entry st. r = Inr entry \<and> lg_reservations lg rid = Some st \<and> 0 \<le> available st
    \<and> lg_reservations lg' = (lg_reservations lg)(rid \<mapsto>
         st\<lparr>rv_released := rv_released st + nat (available st)\<rparr>)
    \<and> lg_charged_work lg' = lg_charged_work lg \<and> lg_entries lg' = lg_entries lg @ [entry]
    \<and> ce_entry_type entry = CE_RELEASED \<and> ce_reservation_id entry = rid \<and> ce_amount entry = nat (available st)
    \<and> lg_keys lg' = (lg_keys lg)(k \<mapsto> (release_identity E rid, KEntry entry)))"
  using assms unfolding release_remaining_def Let_def
  by (auto simp: credit_entry_of_def Let_def split: sum.splits option.splits keyed_result.splits if_splits)

section \<open>Conservation\<close>

definition booked :: "credit_entry_type \<Rightarrow> string \<Rightarrow> credit_ledger \<Rightarrow> nat" where
  "booked ty rid lg = sum_list (map ce_amount
     (filter (\<lambda>e. ce_entry_type e = ty \<and> ce_reservation_id e = rid) (lg_entries lg)))"

lemma booked_snoc:
  "lg_entries lg' = lg_entries lg @ [e] \<Longrightarrow>
   booked ty rid lg' = booked ty rid lg + (if ce_entry_type e = ty \<and> ce_reservation_id e = rid then ce_amount e else 0)"
  by (simp add: booked_def)

lemma booked_same: "lg_entries lg' = lg_entries lg \<Longrightarrow> booked ty rid lg' = booked ty rid lg"
  by (simp add: booked_def)

definition still_available :: "string \<Rightarrow> credit_ledger \<Rightarrow> int" where
  "still_available rid lg = (case lg_reservations lg rid of None \<Rightarrow> 0 | Some st \<Rightarrow> available st)"

definition charges_of :: "string \<Rightarrow> string \<Rightarrow> credit_ledger \<Rightarrow> credit_entry list" where
  "charges_of rid wk lg = filter (\<lambda>e. ce_entry_type e = CE_CONSUMED \<and> ce_reservation_id e = rid
     \<and> ce_work_key e = Some wk) (lg_entries lg)"

lemma charges_snoc:
  "lg_entries lg' = lg_entries lg @ [e] \<Longrightarrow>
   charges_of rid wk lg' = charges_of rid wk lg @ (if ce_entry_type e = CE_CONSUMED
     \<and> ce_reservation_id e = rid \<and> ce_work_key e = Some wk then [e] else [])"
  by (simp add: charges_of_def)

definition ledger_inv :: "credit_ledger \<Rightarrow> bool" where
  "ledger_inv lg \<longleftrightarrow>
     (\<forall>rid. 0 \<le> still_available rid lg) \<and>
     (\<forall>rid. int (booked CE_CONSUMED rid lg) + int (booked CE_RELEASED rid lg) + still_available rid lg
        \<le> int (booked CE_RESERVED rid lg)) \<and>
     (\<forall>rid wk. length (charges_of rid wk lg) \<le> 1
        \<and> (charges_of rid wk lg \<noteq> [] \<longrightarrow> lg_charged_work lg (rid, wk) \<noteq> None))"

lemma ledger_inv_new: "ledger_inv new_ledger"
  by (simp add: ledger_inv_def new_ledger_def still_available_def booked_def charges_of_def)

lemma ledger_inv_reserve:
  assumes inv: "ledger_inv lg" and "reserve E a j amount t k lg = (r, lg')"
  shows "ledger_inv lg'"
  using reserve_cases [OF assms(2)]
proof (elim disjE exE conjE)
  assume "lg' = lg" with inv show ?thesis by simp
next
  fix n res entry
  assume new: "cv_reserved_credits res = n"
    "lg_reservations lg' = (lg_reservations lg)(cv_reservation_id res \<mapsto>
         \<lparr>rv_reservation = res, rv_consumed = None, rv_released = 0\<rparr>)"
    "lg_charged_work lg' = lg_charged_work lg" "ce_entry_type entry = CE_RESERVED"
    "ce_reservation_id entry = cv_reservation_id res" "ce_amount entry = n"
    and es: "lg_entries lg' = lg_entries lg @ [entry]"
  have av: "still_available rid lg' = (if rid = cv_reservation_id res then int n else still_available rid lg)" for rid
    using new by (simp add: still_available_def available_def consumed_def)
  have old: "0 \<le> still_available rid lg" "int (booked CE_CONSUMED rid lg) + int (booked CE_RELEASED rid lg)
      + still_available rid lg \<le> int (booked CE_RESERVED rid lg)" for rid
    using inv by (auto simp: ledger_inv_def)
  have "int (booked CE_CONSUMED rid lg') + int (booked CE_RELEASED rid lg') + still_available rid lg'
      \<le> int (booked CE_RESERVED rid lg')" for rid
    using old [of rid] new by (auto simp: av booked_snoc [OF es])
  with inv new old show ?thesis by (auto simp: ledger_inv_def av charges_snoc [OF es])
qed

lemma ledger_inv_settle:
  assumes inv: "ledger_inv lg" and "settle_work E q amount t k lg = (r, lg')"
  shows "ledger_inv lg'"
proof -
  let ?rid = "sq_reservation_id q" and ?wk = "sq_work_key q"
  consider "lg' = lg"
    | "lg_reservations lg' = lg_reservations lg" "lg_entries lg' = lg_entries lg" "lg_charged_work lg' = lg_charged_work lg"
    | n st entry res where "lg_reservations lg ?rid = Some st" "lg_charged_work lg (?rid, ?wk) = None"
      "int n \<le> available st"
      "lg_reservations lg' = (lg_reservations lg)(?rid \<mapsto> st\<lparr>rv_consumed := Some (consumed st + n)\<rparr>)"
      "lg_entries lg' = lg_entries lg @ [entry]" "ce_entry_type entry = CE_CONSUMED"
      "ce_reservation_id entry = ?rid" "ce_amount entry = n" "ce_work_key entry = Some ?wk"
      "lg_charged_work lg' = (lg_charged_work lg)((?rid, ?wk) \<mapsto> res)"
    using settle_cases [OF assms(2)] by (auto split: if_splits)
  then show ?thesis
  proof cases
    case 1
    with inv show ?thesis by simp
  next
    case 2
    with inv show ?thesis
      by (simp add: ledger_inv_def still_available_def booked_same [OF 2(2)] charges_of_def)
  next
    case (3 n st entry res)
    note es = 3(5)
    have av: "still_available rid lg' = still_available rid lg - (if rid = ?rid then int n else 0)" for rid
      using 3(1,4) by (simp add: still_available_def available_def consumed_def)
    have st: "still_available ?rid lg = available st" using 3(1) by (simp add: still_available_def)
    have none: "charges_of ?rid ?wk lg = []" using inv 3(2) unfolding ledger_inv_def by metis
    have old: "0 \<le> still_available rid lg" "int (booked CE_CONSUMED rid lg) + int (booked CE_RELEASED rid lg)
        + still_available rid lg \<le> int (booked CE_RESERVED rid lg)"
      "length (charges_of rid wk lg) \<le> 1"
      "charges_of rid wk lg \<noteq> [] \<Longrightarrow> lg_charged_work lg (rid, wk) \<noteq> None" for rid wk
      using inv by (auto simp: ledger_inv_def)
    have a: "0 \<le> still_available rid lg'" for rid
      using old(1) [of rid] st 3(3) by (auto simp: av)
    have b: "int (booked CE_CONSUMED rid lg') + int (booked CE_RELEASED rid lg') + still_available rid lg'
        \<le> int (booked CE_RESERVED rid lg')" for rid
      using old(2) [of rid] 3(6-8) by (auto simp: av booked_snoc [OF es])
    have c: "length (charges_of rid wk lg') \<le> 1 \<and> (charges_of rid wk lg' \<noteq> [] \<longrightarrow> lg_charged_work lg' (rid, wk) \<noteq> None)"
      for rid wk
      using old(3,4) [of rid wk] none 3(6,7,9,10) by (auto simp: charges_snoc [OF es])
    from a b c show ?thesis by (simp add: ledger_inv_def)
  qed
qed

lemma ledger_inv_telemetry:
  assumes inv: "ledger_inv lg" and "record_compute_telemetry E rid aid kd g c t k lg = (r, lg')"
  shows "ledger_inv lg'"
  using telemetry_cases [OF assms(2)]
proof (elim disjE exE conjE)
  assume "lg' = lg" with inv show ?thesis by simp
next
  fix entry i
  assume new: "lg_reservations lg' = lg_reservations lg" "lg_charged_work lg' = lg_charged_work lg"
    "ce_entry_type entry = CE_COMPUTE_TELEMETRY" and es: "lg_entries lg' = lg_entries lg @ [entry]"
  with inv show ?thesis
    by (simp add: ledger_inv_def still_available_def booked_snoc [OF es] charges_snoc [OF es])
qed

lemma ledger_inv_release:
  assumes inv: "ledger_inv lg" and "release_remaining E rid0 t k lg = (r, lg')"
  shows "ledger_inv lg'"
  using release_cases [OF assms(2)]
proof (elim disjE exE conjE)
  assume "lg' = lg" with inv show ?thesis by simp
next
  fix entry st
  assume new: "lg_reservations lg rid0 = Some st" "0 \<le> available st"
    "lg_reservations lg' = (lg_reservations lg)(rid0 \<mapsto> st\<lparr>rv_released := rv_released st + nat (available st)\<rparr>)"
    "lg_charged_work lg' = lg_charged_work lg" "ce_entry_type entry = CE_RELEASED"
    "ce_reservation_id entry = rid0" "ce_amount entry = nat (available st)"
    and es: "lg_entries lg' = lg_entries lg @ [entry]"
  have av: "still_available rid lg' = (if rid = rid0 then 0 else still_available rid lg)" for rid
    using new(2,3) by (simp add: still_available_def available_def consumed_def)
  have st: "still_available rid0 lg = available st" using new(1) by (simp add: still_available_def)
  have old: "0 \<le> still_available rid lg" "int (booked CE_CONSUMED rid lg) + int (booked CE_RELEASED rid lg)
      + still_available rid lg \<le> int (booked CE_RESERVED rid lg)" for rid
    using inv by (auto simp: ledger_inv_def)
  have "int (booked CE_CONSUMED rid lg') + int (booked CE_RELEASED rid lg') + still_available rid lg'
      \<le> int (booked CE_RESERVED rid lg')" for rid
    using old [of rid] st new(2,5-7) by (auto simp: av booked_snoc [OF es])
  with inv new old show ?thesis by (auto simp: ledger_inv_def av charges_snoc [OF es])
qed

lemmas ledger_inv_ops = ledger_inv_reserve ledger_inv_settle ledger_inv_telemetry ledger_inv_release

lemma ledger_inv_op: "ledger_inv lg \<Longrightarrow> ledger_inv (snd (ledger_op E c lg))"
  by (cases c) (auto split: prod.splits intro: ledger_inv_ops)

lemma ledger_inv_run: "ledger_inv (run_ops (ledger_op E) cs new_ledger)"
  by (rule run_ops_invariant [where I = ledger_inv]) (auto intro: ledger_inv_op ledger_inv_new)

section \<open>The balance is what the entries say\<close>

text \<open>The entries of a reservation from its last RESERVED entry on. Unless ids or identities collide it
  is the only RESERVED entry: the id is a digest that covers the idempotency key.\<close>

fun since_reserved :: "string \<Rightarrow> credit_entry list \<Rightarrow> credit_entry list \<Rightarrow> credit_entry list" where
  "since_reserved rid [] acc = acc"
| "since_reserved rid (e # es) acc = since_reserved rid es
     (if ce_reservation_id e \<noteq> rid then acc else if ce_entry_type e = CE_RESERVED then [e] else acc @ [e])"

definition entered :: "credit_entry_type \<Rightarrow> credit_entry list \<Rightarrow> nat" where
  "entered ty es = sum_list (map ce_amount (filter (\<lambda>e. ce_entry_type e = ty) es))"

definition booking :: "string \<Rightarrow> credit_ledger \<Rightarrow> credit_entry list" where
  "booking rid lg = since_reserved rid (lg_entries lg) []"

lemma since_reserved_append: "since_reserved rid (xs @ ys) acc = since_reserved rid ys (since_reserved rid xs acc)"
  by (induction rid xs acc rule: since_reserved.induct) simp_all

lemma booking_snoc:
  "lg_entries lg' = lg_entries lg @ [e] \<Longrightarrow> booking rid lg' =
    (if ce_reservation_id e \<noteq> rid then booking rid lg else if ce_entry_type e = CE_RESERVED then [e] else booking rid lg @ [e])"
  by (simp add: booking_def since_reserved_append)

lemma booking_same: "lg_entries lg' = lg_entries lg \<Longrightarrow> booking rid lg' = booking rid lg"
  by (simp add: booking_def)

lemma entered_simps:
  "entered ty [] = 0" "entered ty (e # es) = (if ce_entry_type e = ty then ce_amount e else 0) + entered ty es"
  "entered ty (xs @ ys) = entered ty xs + entered ty ys"
  by (simp_all add: entered_def)

definition has_reserved :: "string \<Rightarrow> credit_ledger \<Rightarrow> bool" where
  "has_reserved rid lg \<longleftrightarrow> (\<exists>e \<in> set (entries (Some rid) lg). ce_entry_type e = CE_RESERVED)"

lemma has_reserved_snoc:
  "lg_entries lg' = lg_entries lg @ [e] \<Longrightarrow>
   has_reserved rid lg' \<longleftrightarrow> has_reserved rid lg \<or> (ce_reservation_id e = rid \<and> ce_entry_type e = CE_RESERVED)"
  by (auto simp: has_reserved_def entries_def)

lemma has_reserved_same: "lg_entries lg' = lg_entries lg \<Longrightarrow> has_reserved rid lg' = has_reserved rid lg"
  by (simp add: has_reserved_def entries_def)

text \<open>The state of a reservation agrees with a list of entries.\<close>

definition books_agree :: "reservation_state \<Rightarrow> credit_entry list \<Rightarrow> bool" where
  "books_agree st es \<longleftrightarrow> entered CE_RESERVED es = cv_reserved_credits (rv_reservation st)
     \<and> entered CE_CONSUMED es = consumed st \<and> entered CE_RELEASED es = rv_released st"

definition books_inv :: "credit_ledger \<Rightarrow> bool" where
  "books_inv lg \<longleftrightarrow> (\<forall>rid. (has_reserved rid lg \<longleftrightarrow> lg_reservations lg rid \<noteq> None)
     \<and> (\<forall>st. lg_reservations lg rid = Some st \<longrightarrow> books_agree st (booking rid lg)))"

lemma books_inv_new: "books_inv new_ledger"
  by (simp add: books_inv_def new_ledger_def has_reserved_def entries_def)

lemma books_inv_same:
  "lg_reservations lg' = lg_reservations lg \<Longrightarrow> lg_entries lg' = lg_entries lg \<Longrightarrow> books_inv lg \<Longrightarrow> books_inv lg'"
  unfolding books_inv_def by (simp only: has_reserved_same [of lg' lg] booking_same [of lg' lg]) blast

text \<open>An operation that appends an entry and writes the state of at most the reservation the entry names.\<close>

lemma books_inv_snoc:
  assumes inv: "books_inv lg" and es: "lg_entries lg' = lg_entries lg @ [e]"
    and same: "\<And>rid. rid \<noteq> ce_reservation_id e \<Longrightarrow> lg_reservations lg' rid = lg_reservations lg rid"
    and here: "case lg_reservations lg' (ce_reservation_id e) of
        None \<Rightarrow> lg_reservations lg (ce_reservation_id e) = None \<and> ce_entry_type e \<noteq> CE_RESERVED
      | Some st \<Rightarrow> if ce_entry_type e = CE_RESERVED then books_agree st [e]
          else lg_reservations lg (ce_reservation_id e) \<noteq> None \<and> books_agree st (booking (ce_reservation_id e) lg @ [e])"
  shows "books_inv lg'"
proof -
  have "(has_reserved rid lg' \<longleftrightarrow> lg_reservations lg' rid \<noteq> None)
      \<and> (\<forall>st. lg_reservations lg' rid = Some st \<longrightarrow> books_agree st (booking rid lg'))" for rid
  proof (cases "rid = ce_reservation_id e")
    case False
    with inv same [OF False] show ?thesis by (simp add: books_inv_def booking_snoc [OF es] has_reserved_snoc [OF es])
  next
    case True
    have "has_reserved rid lg \<longleftrightarrow> lg_reservations lg rid \<noteq> None" using inv by (simp add: books_inv_def)
    with here show ?thesis unfolding True
      by (cases "lg_reservations lg' (ce_reservation_id e)")
        (auto simp: booking_snoc [OF es] has_reserved_snoc [OF es] split: if_splits)
  qed
  then show ?thesis by (simp add: books_inv_def)
qed

lemma books_inv_op: "books_inv lg \<Longrightarrow> books_inv (snd (ledger_op E c lg))"
proof (cases c)
  case (Reserve a j n t k)
  assume inv: "books_inv lg"
  obtain r lg' where op: "reserve E a j n t k lg = (r, lg')" by fastforce
  from reserve_cases [OF op] have "books_inv lg'"
  proof (elim disjE exE conjE)
    fix n res entry
    assume new: "cv_reserved_credits res = n"
      "lg_reservations lg' = (lg_reservations lg)(cv_reservation_id res \<mapsto>
         \<lparr>rv_reservation = res, rv_consumed = None, rv_released = 0\<rparr>)"
      "ce_entry_type entry = CE_RESERVED" "ce_reservation_id entry = cv_reservation_id res" "ce_amount entry = n"
      and es: "lg_entries lg' = lg_entries lg @ [entry]"
    show ?thesis
      by (rule books_inv_snoc [OF inv es]) (simp_all add: new books_agree_def entered_simps consumed_def)
  qed (use inv in simp)
  then show ?thesis using op Reserve by simp
next
  case (SettleWork q n t k)
  assume inv: "books_inv lg"
  obtain r lg' where op: "settle_work E q n t k lg = (r, lg')" by fastforce
  have "books_inv lg'"
  proof (cases "lg_entries lg' = lg_entries lg \<and> lg_reservations lg' = lg_reservations lg")
    case True
    with inv books_inv_same show ?thesis by blast
  next
    case False
    with settle_cases [OF op] obtain n st entry where
      new: "lg_reservations lg (sq_reservation_id q) = Some st"
        "lg_reservations lg' = (lg_reservations lg)(sq_reservation_id q \<mapsto> st\<lparr>rv_consumed := Some (consumed st + n)\<rparr>)"
        "ce_entry_type entry = CE_CONSUMED" "ce_reservation_id entry = sq_reservation_id q" "ce_amount entry = n"
      and es: "lg_entries lg' = lg_entries lg @ [entry]"
      by (auto split: if_splits)
    have "books_agree st (booking (sq_reservation_id q) lg)" using inv new(1) by (simp add: books_inv_def)
    then show ?thesis
      by (intro books_inv_snoc [OF inv es]) (simp_all add: new books_agree_def entered_simps consumed_def)
  qed
  then show ?thesis using op SettleWork by simp
next
  case (RecordTelemetry rid a kd g cost t k)
  assume inv: "books_inv lg"
  obtain r lg' where op: "record_compute_telemetry E rid a kd g cost t k lg = (r, lg')" by fastforce
  have "books_inv lg'"
  proof (cases "lg' = lg")
    case False
    with telemetry_cases [OF op] telemetry_entry [OF op] obtain entry where
      new: "lg_reservations lg' = lg_reservations lg" "ce_entry_type entry = CE_COMPUTE_TELEMETRY" "ce_amount entry = 0"
        "lg_reservations lg (ce_reservation_id entry) \<noteq> None"
      and es: "lg_entries lg' = lg_entries lg @ [entry]"
      by auto
    obtain st where st: "lg_reservations lg (ce_reservation_id entry) = Some st" using new(4) by blast
    have "books_agree st (booking (ce_reservation_id entry) lg)" using inv st by (simp add: books_inv_def)
    then show ?thesis
      by (intro books_inv_snoc [OF inv es]) (simp_all add: new(1-3) st books_agree_def entered_simps)
  qed (use inv in simp)
  then show ?thesis using op RecordTelemetry by simp
next
  case (ReleaseRemaining rid t k)
  assume inv: "books_inv lg"
  obtain r lg' where op: "release_remaining E rid t k lg = (r, lg')" by fastforce
  from release_cases [OF op] have "books_inv lg'"
  proof (elim disjE exE conjE)
    fix entry st
    assume new: "lg_reservations lg rid = Some st"
      "lg_reservations lg' = (lg_reservations lg)(rid \<mapsto> st\<lparr>rv_released := rv_released st + nat (available st)\<rparr>)"
      "ce_entry_type entry = CE_RELEASED" "ce_reservation_id entry = rid" "ce_amount entry = nat (available st)"
      and es: "lg_entries lg' = lg_entries lg @ [entry]"
    have "books_agree st (booking rid lg)" using inv new(1) by (simp add: books_inv_def)
    then show ?thesis
      by (intro books_inv_snoc [OF inv es]) (simp_all add: new books_agree_def entered_simps consumed_def)
  qed (use inv in simp)
  then show ?thesis using op ReleaseRemaining by simp
qed

lemma books_inv_run: "books_inv (run_ops (ledger_op E) cs new_ledger)"
  by (rule run_ops_invariant [where I = books_inv]) (auto intro: books_inv_op books_inv_new)

section \<open>Charges are permanent\<close>

lemma settle_keeps_charge:
  assumes "settle_work E q n t k lg = (r, lg')" and "lg_charged_work lg p = Some v"
  shows "lg_charged_work lg' p = Some v"
  using settle_cases [OF assms(1)] assms(2) by (auto split: if_splits)

interpretation charges: write_once lg_charged_work "ledger_op E" for E
proof
  fix s :: credit_ledger and p v c assume "lg_charged_work s p = Some v"
  then show "lg_charged_work (snd (ledger_op E c s)) p = Some v"
    by (cases c) (auto split: prod.splits dest: settle_keeps_charge
      dest!: reserve_cases telemetry_cases release_cases)
qed

text \<open>The digest under which a call is recorded, when its amounts are admissible.\<close>

fun call_identity :: "renv \<Rightarrow> ledger_call \<Rightarrow> string option" where
  "call_identity E (Reserve a j amount t k) =
     (case credits_of amount of Inl e \<Rightarrow> None | Inr n \<Rightarrow> Some (reserve_identity E a j n))"
| "call_identity E (SettleWork q amount t k) = None"
| "call_identity E (RecordTelemetry rid aid kd g c t k) =
     (case pairE (credits_of g) (credits_of c) of Inl e \<Rightarrow> None
      | Inr (gpu, cost) \<Rightarrow> Some (telemetry_identity E rid aid kd gpu cost))"
| "call_identity E (ReleaseRemaining rid t k) = Some (release_identity E rid)"

lemma idempotent_settled:
  "lg_keys lg k = Some (i, KSettlement res) \<Longrightarrow>
   idempotent k j lg = (if i = j then Inr (Some (KSettlement res)) else Inl CreditConflictError)"
  by (simp add: idempotent_def)

lemma op_keeps_settlement:
  assumes "lg_keys lg k = Some (i, KSettlement res)" and "call_identity E c \<noteq> Some i"
  shows "lg_keys (snd (ledger_op E c lg)) k = Some (i, KSettlement res)"
proof (cases c)
  case (Reserve a j amount t key)
  with assms show ?thesis
    by (cases "key = k") (auto simp: reserve_def Let_def idempotent_settled
        split: prod.splits sum.splits option.splits keyed_result.splits if_splits)
next
  case (SettleWork q amount t key)
  then show ?thesis
    using assms(1) settle_cases [of E q amount t key lg "fst (settle_work E q amount t key lg)"
      "snd (settle_work E q amount t key lg)"]
    by (cases "key = k") (auto split: prod.splits)
next
  case (RecordTelemetry rid aid kd g cost t key)
  with assms show ?thesis
    by (cases "key = k") (auto simp: record_compute_telemetry_def Let_def idempotent_settled
        split: prod.splits sum.splits option.splits keyed_result.splits if_splits)
next
  case (ReleaseRemaining rid t key)
  with assms show ?thesis
    by (cases "key = k") (auto simp: release_remaining_def Let_def idempotent_settled
        split: prod.splits sum.splits option.splits keyed_result.splits if_splits)
qed

lemma run_keeps_settlement:
  "lg_keys lg k = Some (i, KSettlement res) \<Longrightarrow> list_all (\<lambda>c. call_identity E c \<noteq> Some i) cs \<Longrightarrow>
   lg_keys (run_ops (ledger_op E) cs lg) k = Some (i, KSettlement res)"
  by (induction cs arbitrary: lg) (auto intro: op_keeps_settlement)

section \<open>Properties\<close>

text \<open>C24: the ledger conserves credits. After any operations, refused ones included, for every reservation id
  the consumed and the released entries together are at most the reserved entries; a balance exists
  exactly when the reservation has a RESERVED entry, and it consists of the sums of the consumed and of the
  released entries written since the last such entry and of what these leave of the amount
  reserved by it, which is never negative.\<close>

theorem ledger_conserves:
  "let lg = run_ops (ledger_op E) cs new_ledger; es = since_reserved rid (entries None lg) []
   in booked CE_CONSUMED rid lg + booked CE_RELEASED rid lg \<le> booked CE_RESERVED rid lg
    \<and> (if has_reserved rid lg
       then balance rid lg = Inr (entered CE_CONSUMED es, entered CE_RELEASED es,
          int (entered CE_RESERVED es) - int (entered CE_CONSUMED es) - int (entered CE_RELEASED es))
        \<and> entered CE_CONSUMED es + entered CE_RELEASED es \<le> entered CE_RESERVED es
       else balance rid lg = Inl (KeyError rid))"
proof -
  let ?lg = "run_ops (ledger_op E) cs new_ledger" and ?es = "booking rid (run_ops (ledger_op E) cs new_ledger)"
  have b: "lg_reservations ?lg rid \<noteq> None \<longleftrightarrow> has_reserved rid ?lg"
    "lg_reservations ?lg rid = Some st \<Longrightarrow> books_agree st ?es" for st
    using books_inv_run [of E cs] by (simp_all add: books_inv_def)
  have "ledger_inv (run_ops (ledger_op E) cs new_ledger)" by (rule ledger_inv_run)
  then have "0 \<le> still_available rid (run_ops (ledger_op E) cs new_ledger)"
    and "int (booked CE_CONSUMED rid (run_ops (ledger_op E) cs new_ledger))
      + int (booked CE_RELEASED rid (run_ops (ledger_op E) cs new_ledger))
      + still_available rid (run_ops (ledger_op E) cs new_ledger)
      \<le> int (booked CE_RESERVED rid (run_ops (ledger_op E) cs new_ledger))"
    unfolding ledger_inv_def by blast+
  then have "booked CE_CONSUMED rid ?lg + booked CE_RELEASED rid ?lg \<le> booked CE_RESERVED rid ?lg" by linarith
  moreover have "entered CE_CONSUMED ?es + entered CE_RELEASED ?es \<le> entered CE_RESERVED ?es" if "lg_reservations ?lg rid = Some st" for st
    using b(2) [OF that] that \<open>0 \<le> still_available rid ?lg\<close> by (simp add: books_agree_def still_available_def available_def)
  moreover have "balance rid ?lg = Inr (entered CE_CONSUMED ?es, entered CE_RELEASED ?es,
      int (entered CE_RESERVED ?es) - int (entered CE_CONSUMED ?es) - int (entered CE_RELEASED ?es))"
    if "lg_reservations ?lg rid = Some st" for st
    using b(2) [OF that] that by (simp add: balance_def books_agree_def available_def)
  moreover have "balance rid ?lg = Inl (KeyError rid)" if "lg_reservations ?lg rid = None" using that by (simp add: balance_def)
  moreover have "since_reserved rid (entries None ?lg) [] = ?es" by (simp add: booking_def entries_def)
  ultimately show ?thesis unfolding Let_def using b(1) by (cases "lg_reservations ?lg rid") simp_all
qed

text \<open>C25: a logical work item is charged once. In every reachable ledger a pair of reservation and work key
  has at most one consumed entry, however many attempts (retries, hedges, recoveries) were settled
  for it.\<close>

theorem charged_once:
  "length (filter (\<lambda>e. ce_entry_type e = CE_CONSUMED \<and> ce_reservation_id e = rid \<and> ce_work_key e = Some wk)
     (entries None (run_ops (ledger_op E) cs new_ledger))) \<le> 1"
  using ledger_inv_run [of E cs] by (simp add: ledger_inv_def charges_of_def entries_def)

text \<open>Fact: what is billed. A settlement under a new key is billable exactly when its verification state is
  an accepted one and the work was not charged before; then its single consumed entry carries the
  quantised amount. Otherwise nothing is charged and no entry is written.\<close>

theorem settlement_branches:
  assumes "settle_work E q amount t k lg = (Inr res, lg')" and "lg_keys lg k = None"
  shows "(sr_billable res \<longleftrightarrow> accepted_verification (sq_verification_state q)
           \<and> lg_charged_work lg (sq_reservation_id q, sq_work_key q) = None)
    \<and> (if sr_billable res
       then \<exists>n entry. credits_of amount = Inr n \<and> sr_user_credits_charged res = n \<and> sr_entry res = Some entry
         \<and> ce_amount entry = n \<and> lg_entries lg' = lg_entries lg @ [entry]
         \<and> lg_charged_work lg' (sq_reservation_id q, sq_work_key q) = Some res
       else sr_user_credits_charged res = 0 \<and> sr_entry res = None \<and> lg_entries lg' = lg_entries lg
         \<and> lg_reservations lg' = lg_reservations lg)"
  using settle_cases [OF assms(1)] assms(2) by (auto split: if_splits)

definition demo_credit_env :: renv where
  "demo_credit_env = \<lparr>sha256 = (\<lambda>s. s), float_repr = (\<lambda>r. ''''), isoformat = (\<lambda>t. '''')\<rparr>"

definition demo_request :: settlement_request where
  "demo_request = \<lparr>sq_reservation_id = ''r'', sq_work_key = ''w'', sq_attempt_id = ''a'',
     sq_attempt_kind = AK_HEDGE, sq_verification_state = VS_VERIFIED\<rparr>"

definition demo_ledger :: credit_ledger where
  "demo_ledger = \<lparr>lg_reservations = [''r'' \<mapsto> \<lparr>rv_reservation =
       \<lparr>cv_reservation_id = ''r'', cv_account_id = ''c'', cv_job_id = ''j'', cv_reserved_credits = 5000000,
        cv_created_at = Aware 0, cv_idempotency_key = ''k''\<rparr>, rv_consumed = None, rv_released = 0\<rparr>],
     lg_keys = Map.empty, lg_charged_work = Map.empty, lg_entries = []\<rparr>"

lemma demo_credits: "credits_of (Dec False 3 0) = Inr 3000000"
  by (simp add: dec_value_def Let_def round_half_even_def)

lemma demo_settlement:
  "\<exists>res lg'. settle_work demo_credit_env demo_request (Dec False 3 0) (Aware 1) ''k1'' demo_ledger = (Inr res, lg')
     \<and> sr_billable res"
  by (simp add: settle_work_def demo_credits demo_ledger_def demo_request_def idempotent_def Let_def
      accepted_verification_def available_def consumed_def del: credits_of.simps)

theorem settlement_branches_witness:
  "\<exists>res lg'. settle_work demo_credit_env demo_request (Dec False 3 0) (Aware 1) ''k1'' demo_ledger = (Inr res, lg')
     \<and> sr_user_credits_charged res = 3000000"
proof -
  obtain res lg' where s: "settle_work demo_credit_env demo_request (Dec False 3 0) (Aware 1) ''k1'' demo_ledger
      = (Inr res, lg')" and b: "sr_billable res" using demo_settlement by blast
  have "lg_keys demo_ledger ''k1'' = None" by (simp add: demo_ledger_def)
  from settlement_branches [OF s this] b s show ?thesis by (auto simp: demo_credits simp del: credits_of.simps)
qed

text \<open>Fact: settlements are replayed. A settlement repeated with the same request, amount and key returns the
  first result and changes nothing, whatever calls came between, as long as none of the other kinds
  of call has the same digest; the key refuses any settlement with another digest.\<close>

theorem settlement_replayed:
  assumes "settle_work E q amount t k lg = (Inr res, lg1)" and "credits_of amount = Inr n"
    and "list_all (\<lambda>c. call_identity E c \<noteq> Some (settle_identity E q n)) cs"
    and "lg2 = run_ops (ledger_op E) cs lg1" and "is_aware t'"
  shows "settle_work E q amount t' k lg2 = (Inr res, lg2)
    \<and> (\<forall>q' n'. credits_of amount' = Inr n' \<and> settle_identity E q' n' \<noteq> settle_identity E q n \<longrightarrow>
         settle_work E q' amount' t' k lg2 = (Inl CreditConflictError, lg2))"
proof -
  have "lg_keys lg1 k = Some (settle_identity E q n, KSettlement res)"
    using settle_cases [OF assms(1)] assms(2) by auto
  then have "lg_keys lg2 k = Some (settle_identity E q n, KSettlement res)"
    unfolding assms(4) by (rule run_keeps_settlement [OF _ assms(3)])
  with assms(2,5) show ?thesis by (simp add: settle_work_def Let_def idempotent_settled)
qed

theorem settlement_replayed_witness:
  "\<exists>res lg1. settle_work demo_credit_env demo_request (Dec False 3 0) (Aware 1) ''k1'' demo_ledger = (Inr res, lg1)
    \<and> settle_work demo_credit_env demo_request (Dec False 3 0) (Aware 9) ''k1'' lg1 = (Inr res, lg1)"
proof -
  obtain res lg1 where s: "settle_work demo_credit_env demo_request (Dec False 3 0) (Aware 1) ''k1'' demo_ledger
      = (Inr res, lg1)" using demo_settlement by blast
  from settlement_replayed [OF s demo_credits, of "[]" lg1 "Aware 9"] s show ?thesis
    by (auto simp del: credits_of.simps)
qed

end
