(* ===== verification/Health.thy ===== *)
theory Health
  imports Journal StateMachine
begin

text \<open>
  \<^verbatim>\<open>akc_parallel_runtime/health.py\<close>: the worker health registry. The registry's records
  are an association list (the liveness sweep iterates over them); \<open>_transition\<close> works on one
  record and the journal, and a record that was changed before an exception stays changed.
  Durations are microseconds.
\<close>

section \<open>Observations and records\<close>

record infra_observation =
  io_observed_at :: datetime
  io_ping :: bool
  io_process :: bool
  io_gpu :: bool
  io_ram :: bool
  io_disk :: bool
  io_model_loaded :: bool
  io_cuda_ready :: bool
  io_request_response :: bool
  io_heartbeat :: bool
  io_model_identity_matches :: bool
  io_checksum_matches :: bool
  io_memory_slope_exceeded :: bool
  io_latency_p99_spike :: bool

definition mk_infra_observation :: "infra_observation \<Rightarrow> pyerr + infra_observation" where
  "mk_infra_observation x = require_all
     [(is_aware (io_observed_at x), ValueError ''infrastructure observation time must be timezone-aware'')] x"

definition base_healthy :: "infra_observation \<Rightarrow> bool" where
  "base_healthy x \<longleftrightarrow> io_ping x \<and> io_process x \<and> io_gpu x \<and> io_ram x \<and> io_disk x \<and> io_model_loaded x
     \<and> io_cuda_ready x \<and> io_request_response x \<and> io_heartbeat x"

record semantic_observation =
  so_attempt_id :: string
  so_shard_id :: string
  so_observed_at :: datetime
  so_validator_passed :: bool
  so_source_coverage :: rat
  so_critical_numeric_failure :: bool
  so_page_omission :: bool
  so_repetition :: bool
  so_schema_failure :: bool
  so_row_omission :: bool
  so_empty_output :: bool
  so_latency_outlier :: bool
  so_output_length_drift :: bool
  so_canary_reproduced :: bool
  so_canary_fixture_failed :: bool

definition mk_semantic_observation :: "semantic_observation \<Rightarrow> pyerr + semantic_observation" where
  "mk_semantic_observation x = require_all
     [(so_attempt_id x \<noteq> [] \<and> so_shard_id x \<noteq> [],
        ValueError ''semantic observations require attempt and shard ids''),
      (is_aware (so_observed_at x), ValueError ''semantic observation time must be timezone-aware''),
      (0 \<le> so_source_coverage x \<and> so_source_coverage x \<le> 1,
        ValueError ''source coverage must be between 0 and 1'')] x"

record health_transition =
  ht_worker_id :: string
  ht_from_state :: worker_state
  ht_to_state :: worker_state
  ht_occurred_at :: datetime
  ht_reason_codes :: "string list"
  ht_semantic_score :: rat

record quarantine_impact =
  qi_worker_id :: string
  qi_pending_attempt_ids :: "string list"
  qi_accepted_attempt_ids :: "string list"
  qi_shard_ids_to_replay :: "string list"

record worker_record =
  wr_worker_id :: string
  wr_model_revision :: string
  wr_runtime_image_digest :: string
  wr_capabilities :: "string set"
  wr_warm :: bool
  wr_cached_models :: "string set"
  wr_estimated_available_at :: rat
  wr_state :: worker_state
  wr_semantic_score :: rat
  wr_infrastructure :: "infra_observation list"
  wr_semantics :: "semantic_observation list"
  wr_attempts :: "(string \<times> string \<times> attempt_status) list"
  wr_transitions :: "health_transition list"
  wr_last_signal_at :: "datetime option"

definition worker_snapshot_of :: "worker_record \<Rightarrow> pyerr + worker_snapshot" where
  "worker_snapshot_of r = mk_worker_snapshot
     \<lparr>ws_worker_id = wr_worker_id r, ws_model_revision = wr_model_revision r,
      ws_runtime_image_digest = wr_runtime_image_digest r, ws_state = wr_state r,
      ws_capabilities = wr_capabilities r, ws_warm = wr_warm r, ws_cached_models = wr_cached_models r,
      ws_estimated_available_at = wr_estimated_available_at r, ws_semantic_score = wr_semantic_score r\<rparr>"

section \<open>WorkerHealthRegistry\<close>

fun state_rank :: "worker_state \<Rightarrow> nat" where
  "state_rank WS_HEALTHY = 0"
| "state_rank WS_DEGRADED = 1"
| "state_rank WS_DRAINING = 2"
| "state_rank WS_QUARANTINED = 3"
| "state_rank WS_TERMINATED = 4"

record health_registry =
  hr_records :: "(string \<times> worker_record) list"
  hr_window :: nat
  hr_stale_after :: int
  hr_silent_after :: int

definition new_health_registry :: "nat \<Rightarrow> int \<Rightarrow> int \<Rightarrow> pyerr + health_registry" where
  "new_health_registry window stale silent = require_all
     [(3 \<le> window, ValueError ''semantic health window must contain at least three attempts''),
      (0 < stale, ValueError ''stale signal threshold must be positive''),
      (stale < silent, ValueError ''silent signal threshold must exceed the stale threshold'')]
     \<lparr>hr_records = [], hr_window = window, hr_stale_after = stale, hr_silent_after = silent\<rparr>"

type_synonym reg_state = "health_registry \<times> journal option"
type_synonym rec_state = "worker_record \<times> journal option"

text \<open>\<open>record = self._records[worker_id]\<close> and the work on it, in place.\<close>

definition on_record :: "string \<Rightarrow> (rec_state \<Rightarrow> (rec_state, 'a) outcome) \<Rightarrow> reg_state \<Rightarrow> (reg_state, 'a) outcome" where
  "on_record wid f s = (case s of (hr, oj) \<Rightarrow>
     (case map_of (hr_records hr) wid of
       None \<Rightarrow> (Inl (KeyError wid), s)
     | Some r \<Rightarrow> (case f (r, oj) of (res, (r', oj')) \<Rightarrow>
         (res, (hr\<lparr>hr_records := AList.update wid r' (hr_records hr)\<rparr>, oj')))))"

definition ret_snapshot :: "rec_state \<Rightarrow> (rec_state, worker_snapshot) outcome" where
  "ret_snapshot s = (worker_snapshot_of (fst s), s)"

text \<open>The keyword arguments of \<open>register\<close>.\<close>

record registration =
  rg_worker_id :: string
  rg_model_revision :: string
  rg_runtime_image_digest :: string
  rg_capabilities :: "string set"
  rg_warm :: bool
  rg_cached_models :: "string set"
  rg_estimated_available_at :: rat
  rg_registered_at :: "datetime option"

definition new_worker_record :: "registration \<Rightarrow> worker_record" where
  "new_worker_record g = \<lparr>wr_worker_id = rg_worker_id g, wr_model_revision = rg_model_revision g,
     wr_runtime_image_digest = rg_runtime_image_digest g, wr_capabilities = rg_capabilities g,
     wr_warm = rg_warm g, wr_cached_models = rg_cached_models g,
     wr_estimated_available_at = rg_estimated_available_at g, wr_state = WS_HEALTHY,
     wr_semantic_score = 100, wr_infrastructure = [], wr_semantics = [], wr_attempts = [],
     wr_transitions = [], wr_last_signal_at = rg_registered_at g\<rparr>"

definition same_registration :: "registration \<Rightarrow> worker_record \<Rightarrow> bool" where
  "same_registration g r \<longleftrightarrow> wr_model_revision r = rg_model_revision g
     \<and> wr_runtime_image_digest r = rg_runtime_image_digest g \<and> wr_capabilities r = rg_capabilities g
     \<and> wr_warm r = rg_warm g \<and> wr_cached_models r = rg_cached_models g
     \<and> wr_estimated_available_at r = rg_estimated_available_at g"

definition register_worker :: "registration \<Rightarrow> reg_state \<Rightarrow> (reg_state, worker_snapshot) outcome" where
  "register_worker g s =
    (if (case rg_registered_at g of None \<Rightarrow> False | Some t \<Rightarrow> \<not> is_aware t)
     then (Inl (ValueError ''worker registration time must be timezone-aware''), s)
     else case s of (hr, oj) \<Rightarrow>
       (case map_of (hr_records hr) (rg_worker_id g) of
         Some existing \<Rightarrow>
           (if \<not> same_registration g existing then (Inl WorkerRegistrationConflict, s)
            else (worker_snapshot_of existing, s))
       | None \<Rightarrow>
           (worker_snapshot_of (new_worker_record g),
            (hr\<lparr>hr_records := AList.update (rg_worker_id g) (new_worker_record g) (hr_records hr)\<rparr>, oj))))"

definition health_snapshot :: "string \<Rightarrow> reg_state \<Rightarrow> pyerr + worker_snapshot" where
  "health_snapshot wid s = (case map_of (hr_records (fst s)) wid of
     None \<Rightarrow> Inl (KeyError wid) | Some r \<Rightarrow> worker_snapshot_of r)"

definition penalty :: "semantic_observation \<Rightarrow> rat" where
  "penalty x =
     30 * of_bool (so_critical_numeric_failure x) + 20 * of_bool (so_page_omission x \<or> so_empty_output x)
     + 15 * of_bool (so_repetition x) + 10 * of_bool (so_schema_failure x) + 10 * of_bool (so_row_omission x)
     + 5 * of_bool (so_latency_outlier x) + 5 * of_bool (so_output_length_drift x)
     + (if so_source_coverage x < 1 then min 10 ((1 - so_source_coverage x) * 20) else 0)"

definition semantic_score :: "semantic_observation list \<Rightarrow> rat" where
  "semantic_score xs = py_round 6 (max 0 (min 100 (foldl (\<lambda>score x. score - penalty x) 100 xs)))"

fun health_event_type :: "worker_state \<Rightarrow> string option" where
  "health_event_type WS_DEGRADED = Some ''worker.semantic.degraded.v1''"
| "health_event_type WS_DRAINING = Some ''worker.draining.v1''"
| "health_event_type WS_QUARANTINED = Some ''worker.quarantined.v1''"
| "health_event_type _ = None"

definition demote ::
  "renv \<Rightarrow> worker_state \<Rightarrow> datetime \<Rightarrow> string list \<Rightarrow> rec_state \<Rightarrow> (rec_state, health_transition option) outcome" where
  "demote E target occ reasons s = (case s of (r, oj) \<Rightarrow>
     (if target = wr_state r then (Inr None, s)
      else if state_rank target < state_rank (wr_state r)
      then (Inl (PyRuntimeError ''worker health promotion requires explicit canary restoration''), s)
      else
        let t = \<lparr>ht_worker_id = wr_worker_id r, ht_from_state = wr_state r, ht_to_state = target,
                 ht_occurred_at = occ, ht_reason_codes = sort reasons,
                 ht_semantic_score = wr_semantic_score r\<rparr>;
            r' = r\<lparr>wr_state := target, wr_transitions := wr_transitions r @ [t]\<rparr>
        in with_events r' (Some t) (emit_all E
             (case health_event_type target of None \<Rightarrow> []
              | Some ty \<Rightarrow> [(ty, wr_worker_id r,
                  [(''reason_codes'', PSeq (map PStr (sort reasons))),
                   (''semantic_score'', PFloat (wr_semantic_score r))], occ,
                  ''worker-health:'' @ wr_worker_id r @ '':'' @ worker_state_value target @ '':''
                    @ nat_str (length (wr_transitions r')))]) oj)))"

definition retired :: "worker_record \<Rightarrow> bool" where
  "retired r \<longleftrightarrow> wr_state r \<in> {WS_QUARANTINED, WS_TERMINATED}"

definition infra_step :: "renv \<Rightarrow> infra_observation \<Rightarrow> rec_state \<Rightarrow> (rec_state, worker_snapshot) outcome" where
  "infra_step E x s = (case s of (r0, oj) \<Rightarrow>
     let r = r0\<lparr>wr_infrastructure := wr_infrastructure r0 @ [x],
           wr_last_signal_at := (case wr_last_signal_at r0 of
              None \<Rightarrow> Some (io_observed_at x)
            | Some t \<Rightarrow> Some (if instant t < instant (io_observed_at x) then io_observed_at x else t))\<rparr>
     in if retired r then ret_snapshot (r, oj)
        else if \<not> io_model_identity_matches x \<or> \<not> io_checksum_matches x
        then andthen (demote E WS_QUARANTINED (io_observed_at x)
               ((if \<not> io_model_identity_matches x then [''model_identity_mismatch''] else []) @
                (if \<not> io_checksum_matches x then [''model_checksum_mismatch''] else [])) (r, oj))
             (\<lambda>_. ret_snapshot)
        else if \<not> base_healthy x \<or> io_memory_slope_exceeded x \<or> io_latency_p99_spike x
        then andthen (demote E WS_DRAINING (io_observed_at x)
               ((if \<not> base_healthy x then [''infrastructure_probe_failed''] else []) @
                (if io_memory_slope_exceeded x then [''memory_slope_exceeded''] else []) @
                (if io_latency_p99_spike x then [''latency_p99_spike''] else [])) (r, oj))
             (\<lambda>_. ret_snapshot)
        else ret_snapshot (r, oj))"

definition record_infrastructure ::
  "renv \<Rightarrow> string \<Rightarrow> infra_observation \<Rightarrow> reg_state \<Rightarrow> (reg_state, worker_snapshot) outcome" where
  "record_infrastructure E wid x = on_record wid (infra_step E x)"

text \<open>What one liveness sweep asks of a record: nothing, or a target state with its reason.\<close>

definition silence_demand :: "int \<Rightarrow> int \<Rightarrow> int \<Rightarrow> worker_record \<Rightarrow> (worker_state \<times> string) option" where
  "silence_demand stale silent now r =
    (if retired r then None
     else case wr_last_signal_at r of None \<Rightarrow> None
       | Some baseline \<Rightarrow>
           let silence = now - instant baseline
           in if silence \<ge> silent then Some (WS_QUARANTINED, ''infrastructure_signal_silent'')
              else if silence \<ge> stale then Some (WS_DRAINING, ''infrastructure_signal_stale'')
              else None)"

fun sweep ::
  "renv \<Rightarrow> int \<Rightarrow> int \<Rightarrow> datetime \<Rightarrow> (string \<times> worker_record) list \<Rightarrow> journal option
   \<Rightarrow> ((string \<times> worker_record) list \<times> journal option, health_transition list) outcome" where
  "sweep E stale silent now [] oj = (Inr [], ([], oj))"
| "sweep E stale silent now ((k, r) # rs) oj =
    (case silence_demand stale silent (instant now) r of
      None \<Rightarrow> (case sweep E stale silent now rs oj of (res, (rs', oj')) \<Rightarrow> (res, ((k, r) # rs', oj')))
    | Some (target, reason) \<Rightarrow>
        (case demote E target now [reason] (r, oj) of
          (Inl e, (r', oj')) \<Rightarrow> (Inl e, ((k, r') # rs, oj'))
        | (Inr t, (r', oj')) \<Rightarrow>
            (case sweep E stale silent now rs oj' of (res, (rs', oj'')) \<Rightarrow>
              (mapR (\<lambda>ts. (case t of None \<Rightarrow> ts | Some t' \<Rightarrow> t' # ts)) res, ((k, r') # rs', oj'')))))"

definition evaluate_liveness :: "renv \<Rightarrow> datetime \<Rightarrow> reg_state \<Rightarrow> (reg_state, health_transition list) outcome" where
  "evaluate_liveness E now s =
    (if \<not> is_aware now then (Inl (ValueError ''liveness evaluation time must be timezone-aware''), s)
     else case s of (hr, oj) \<Rightarrow>
       (case sweep E (hr_stale_after hr) (hr_silent_after hr) now (hr_records hr) oj of (res, (rs, oj')) \<Rightarrow>
         (res, (hr\<lparr>hr_records := rs\<rparr>, oj'))))"

definition terminate_worker ::
  "renv \<Rightarrow> string \<Rightarrow> datetime \<Rightarrow> string \<Rightarrow> reg_state \<Rightarrow> (reg_state, health_transition option) outcome" where
  "terminate_worker E wid occ reason s =
    (if \<not> is_aware occ then (Inl (ValueError ''termination time must be timezone-aware''), s)
     else if reason = [] then (Inl (ValueError ''termination requires a reason code''), s)
     else on_record wid (\<lambda>rs. if wr_state (fst rs) = WS_TERMINATED then (Inr None, rs)
            else demote E WS_TERMINATED occ [reason] rs) s)"

definition serving_workers :: "reg_state \<Rightarrow> string list" where
  "serving_workers s = sort (map wr_worker_id
     (filter (\<lambda>r. wr_state r \<in> {WS_HEALTHY, WS_DEGRADED}) (map snd (hr_records (fst s)))))"

definition unmonitored_workers :: "reg_state \<Rightarrow> string list" where
  "unmonitored_workers s = sort (map wr_worker_id
     (filter (\<lambda>r. wr_last_signal_at r = None \<and> \<not> retired r) (map snd (hr_records (fst s)))))"

definition last_window :: "nat \<Rightarrow> 'a list \<Rightarrow> 'a list" where
  "last_window n xs = drop (length xs - n) xs"

definition trailing :: "('a \<Rightarrow> bool) \<Rightarrow> 'a list \<Rightarrow> nat" where
  "trailing P xs = length (takeWhile P (rev xs))"

definition semantic_step ::
  "renv \<Rightarrow> nat \<Rightarrow> semantic_observation \<Rightarrow> rec_state \<Rightarrow> (rec_state, worker_snapshot) outcome" where
  "semantic_step E n x s = (case s of (r0, oj) \<Rightarrow>
     let sem = wr_semantics r0 @ [x]; window = last_window n sem;
         r = r0\<lparr>wr_semantics := sem, wr_semantic_score := semantic_score window\<rparr>;
         schema = trailing so_schema_failure window; reps = trailing so_repetition window
     in if retired r then ret_snapshot (r, oj)
        else if so_canary_fixture_failed x \<or> (so_critical_numeric_failure x \<and> so_canary_reproduced x)
        then andthen (demote E WS_QUARANTINED (so_observed_at x)
               [if so_canary_fixture_failed x then ''canary_fixture_failure''
                else ''critical_numeric_failure_reproduced''] (r, oj)) (\<lambda>_. ret_snapshot)
        else if schema \<ge> 3 \<or> reps \<ge> 2 \<or> wr_semantic_score r < 50
        then andthen (demote E WS_DRAINING (so_observed_at x)
               ((if schema \<ge> 3 then [''consecutive_schema_failures''] else []) @
                (if reps \<ge> 2 then [''consecutive_repetition''] else []) @
                (if wr_semantic_score r < 50 then [''semantic_score_critical''] else [])) (r, oj))
             (\<lambda>_. ret_snapshot)
        else if \<not> so_validator_passed x \<or> so_empty_output x \<or> so_row_omission x \<or> wr_semantic_score r < 85
        then andthen (demote E WS_DEGRADED (so_observed_at x) [''semantic_quality_degraded''] (r, oj))
             (\<lambda>_. ret_snapshot)
        else ret_snapshot (r, oj))"

definition record_semantic ::
  "renv \<Rightarrow> string \<Rightarrow> semantic_observation \<Rightarrow> reg_state \<Rightarrow> (reg_state, worker_snapshot) outcome" where
  "record_semantic E wid x s = on_record wid (semantic_step E (hr_window (fst s)) x) s"

definition record_attempt ::
  "string \<Rightarrow> string \<Rightarrow> string \<Rightarrow> attempt_status \<Rightarrow> reg_state \<Rightarrow> (reg_state, unit) outcome" where
  "record_attempt wid aid shard status = on_record wid (\<lambda>(r, oj).
     (Inr (), (if (aid, shard, status) \<in> set (wr_attempts r) then r
       else r\<lparr>wr_attempts := wr_attempts r @ [(aid, shard, status)]\<rparr>, oj)))"

definition terminal_statuses :: "attempt_status list" where
  "terminal_statuses =
     [AS_REJECTED, AS_RETRYABLE_FAILED, AS_TERMINAL_FAILED, AS_SUPERSEDED, AS_QUARANTINED]"

definition latest_attempts ::
  "(string \<times> string \<times> attempt_status) list \<Rightarrow> (string \<times> string \<times> attempt_status) list" where
  "latest_attempts xs = fold (\<lambda>(aid, v). AList.update aid v) xs []"

definition quarantine_impact_of :: "string \<Rightarrow> int \<Rightarrow> reg_state \<Rightarrow> pyerr + quarantine_impact" where
  "quarantine_impact_of wid recent_n s =
    (if recent_n < 1 then Inl (ValueError ''recent_n must be positive'')
     else case map_of (hr_records (fst s)) wid of
       None \<Rightarrow> Inl (KeyError wid)
     | Some r \<Rightarrow>
         (if wr_state r \<noteq> WS_QUARANTINED
          then Inl (PyRuntimeError ''influence analysis requires a quarantined worker'')
          else let current = latest_attempts (last_window (nat recent_n) (wr_attempts r))
            in Inr \<lparr>qi_worker_id = wid,
                 qi_pending_attempt_ids = map fst (filter (\<lambda>(aid, sh, st).
                    st \<notin> set terminal_statuses \<and> st \<noteq> AS_ACCEPTED) current),
                 qi_accepted_attempt_ids = map fst (filter (\<lambda>(aid, sh, st). st = AS_ACCEPTED) current),
                 qi_shard_ids_to_replay = sorted_set (map (fst \<circ> snd) (filter (\<lambda>(aid, sh, st).
                    st \<notin> set terminal_statuses \<or> st = AS_ACCEPTED) current))\<rparr>))"

definition health_transitions :: "string \<Rightarrow> reg_state \<Rightarrow> pyerr + health_transition list" where
  "health_transitions wid s = (case map_of (hr_records (fst s)) wid of
     None \<Rightarrow> Inl (KeyError wid) | Some r \<Rightarrow> Inr (wr_transitions r))"

section \<open>Calls\<close>

datatype health_call =
    RegisterWorker registration
  | ObserveInfrastructure string infra_observation
  | ObserveSemantics string semantic_observation
  | EvaluateLiveness datetime
  | TerminateWorker string datetime string
  | RecordAttempt string string string attempt_status

fun health_op :: "renv \<Rightarrow> health_call \<Rightarrow> reg_state \<Rightarrow> (reg_state, unit) outcome" where
  "health_op E (RegisterWorker g) s = forget (register_worker g s)"
| "health_op E (ObserveInfrastructure wid x) s = forget (record_infrastructure E wid x s)"
| "health_op E (ObserveSemantics wid x) s = forget (record_semantic E wid x s)"
| "health_op E (EvaluateLiveness now) s = forget (evaluate_liveness E now s)"
| "health_op E (TerminateWorker wid occ reason) s = forget (terminate_worker E wid occ reason s)"
| "health_op E (RecordAttempt wid aid shard status) s = forget (record_attempt wid aid shard status s)"

section \<open>Histories\<close>

definition demotion :: "worker_state \<Rightarrow> worker_state \<Rightarrow> bool" where
  "demotion a b \<longleftrightarrow> a \<noteq> b \<and> \<not> state_rank b < state_rank a"

interpretation health: ranked_machine state_rank demotion 4
proof
  show "demotion a b \<Longrightarrow> state_rank a < state_rank b" for a b
    by (cases a; cases b) (auto simp: demotion_def)
  show "state_rank a \<le> 4" for a by (cases a) auto
qed

text \<open>The states a record went through: HEALTHY, then the targets of its transitions.\<close>

definition state_path :: "worker_record \<Rightarrow> worker_state list" where
  "state_path r = WS_HEALTHY # map ht_to_state (wr_transitions r)"

definition record_ok :: "worker_record \<Rightarrow> bool" where
  "record_ok r \<longleftrightarrow> last (state_path r) = wr_state r \<and> successively demotion (state_path r)
     \<and> map ht_from_state (wr_transitions r) = butlast (state_path r)"

lemma record_ok_new: "record_ok (new_worker_record g)"
  by (simp add: record_ok_def state_path_def new_worker_record_def)

text \<open>What an operation may do to a record: the identity stays, the logs grow at the end.\<close>

definition record_le :: "worker_record \<Rightarrow> worker_record \<Rightarrow> bool" where
  "record_le r r' \<longleftrightarrow> wr_worker_id r' = wr_worker_id r \<and> wr_model_revision r' = wr_model_revision r
     \<and> wr_runtime_image_digest r' = wr_runtime_image_digest r \<and> wr_capabilities r' = wr_capabilities r
     \<and> wr_warm r' = wr_warm r \<and> wr_cached_models r' = wr_cached_models r
     \<and> wr_estimated_available_at r' = wr_estimated_available_at r
     \<and> (\<exists>ts. wr_transitions r' = wr_transitions r @ ts)
     \<and> (record_ok r \<longrightarrow> record_ok r')"

lemma record_le_refl: "record_le r r"
  by (simp add: record_le_def)

lemma record_le_trans: "record_le a b \<Longrightarrow> record_le b c \<Longrightarrow> record_le a c"
  by (auto simp: record_le_def)

lemma record_le_update:
  "record_le r (r\<lparr>wr_infrastructure := x, wr_last_signal_at := t\<rparr>)"
  "record_le r (r\<lparr>wr_semantics := y, wr_semantic_score := z\<rparr>)"
  "record_le r (r\<lparr>wr_attempts := a\<rparr>)"
  by (simp_all add: record_le_def record_ok_def state_path_def)

lemma demote_cases:
  assumes "demote E target occ reasons (r, oj) = (res, (r', oj'))"
  shows "r' = r \<and> (res = Inr None \<and> target = wr_state r \<or> (\<exists>e. res = Inl e) \<and> state_rank target < state_rank (wr_state r))
    \<or> demotion (wr_state r) target \<and> wr_state r' = target
      \<and> (\<exists>t. ht_from_state t = wr_state r \<and> ht_to_state t = target
         \<and> r' = r\<lparr>wr_state := target, wr_transitions := wr_transitions r @ [t]\<rparr>
         \<and> (res = Inr (Some t) \<or> (\<exists>e. res = Inl e)) \<and> (oj = None \<longrightarrow> res = Inr (Some t)))"
proof -
  have em: "emit_all E rs None = (Inr (), None)" for rs
    by (induction rs) (auto simp: emit_def)
  consider "target = wr_state r" | "target \<noteq> wr_state r" "state_rank target < state_rank (wr_state r)"
    | "target \<noteq> wr_state r" "\<not> state_rank target < state_rank (wr_state r)" by blast
  then show ?thesis
  proof cases
    case 3
    define t where "t = \<lparr>ht_worker_id = wr_worker_id r, ht_from_state = wr_state r, ht_to_state = target,
      ht_occurred_at = occ, ht_reason_codes = sort reasons, ht_semantic_score = wr_semantic_score r\<rparr>"
    obtain rs where e: "with_events (r\<lparr>wr_state := target, wr_transitions := wr_transitions r @ [t]\<rparr>) (Some t)
        (emit_all E rs oj) = (res, (r', oj'))"
      using assms 3 unfolding demote_def Let_def t_def by simp
    have none: "oj = None \<longrightarrow> res = Inr (Some t)" using e by (auto simp: em with_events_def)
    have r': "r' = r\<lparr>wr_state := target, wr_transitions := wr_transitions r @ [t]\<rparr>"
      and res: "res = Inr (Some t) \<or> (\<exists>e. res = Inl e)" using with_events_eqD [OF e] by blast+
    have "demotion (wr_state r) target" using 3 by (simp add: demotion_def)
    moreover have "wr_state r' = target" by (simp add: r')
    moreover have "ht_from_state t = wr_state r" "ht_to_state t = target" by (simp_all add: t_def)
    ultimately show ?thesis using r' res none by blast
  qed (use assms in \<open>auto simp: demote_def\<close>)
qed

lemma demote_record_le:
  assumes "demote E target occ reasons (r, oj) = (res, (r', oj'))"
  shows "record_le r r'"
proof (cases "r' = r")
  case True
  then show ?thesis by (simp add: record_le_refl)
next
  case False
  then obtain t where d: "demotion (wr_state r) target"
    and t: "ht_from_state t = wr_state r" "ht_to_state t = target"
    and r': "r' = r\<lparr>wr_state := target, wr_transitions := wr_transitions r @ [t]\<rparr>"
    using demote_cases [OF assms] by blast
  have "record_ok r'" if ok: "record_ok r"
  proof -
    have p: "state_path r' = state_path r @ [target]" by (simp add: r' state_path_def t)
    have ne: "state_path r \<noteq> []" by (simp add: state_path_def)
    have "butlast (state_path r) @ [wr_state r] = state_path r"
      using ok ne by (metis append_butlast_last_id record_ok_def)
    with ok d ne t show ?thesis
      unfolding record_ok_def p by (auto simp: successively_append_iff r')
  qed
  then show ?thesis by (simp add: record_le_def r')
qed

lemma andthen_state:
  assumes "\<And>res s1. a = (res, s1) \<Longrightarrow> P s1" and "\<And>x s1. P s1 \<Longrightarrow> P (snd (k x s1))"
  shows "P (snd (andthen a k))"
  using assms by (cases a; cases "fst a") (auto simp: andthen_def)

lemma demote_snapshot_le:
  "record_le r0 r \<Longrightarrow> record_le r0 (fst (snd (andthen (demote E t occ rs (r, oj)) (\<lambda>_. ret_snapshot))))"
  by (rule andthen_state [where P = "\<lambda>s. record_le r0 (fst s)"])
    (metis demote_record_le record_le_trans prod.collapse, simp add: ret_snapshot_def)

lemma infra_step_le: "record_le r (fst (snd (infra_step E x (r, oj))))"
  unfolding infra_step_def Let_def
  by (auto simp: ret_snapshot_def record_le_update intro!: demote_snapshot_le)

lemma semantic_step_le: "record_le r (fst (snd (semantic_step E n x (r, oj))))"
  unfolding semantic_step_def Let_def
  by (auto simp: ret_snapshot_def record_le_update intro!: demote_snapshot_le)

text \<open>Every operation only extends the registry: records stay, each one growing as above.\<close>

definition registry_le :: "health_registry \<Rightarrow> health_registry \<Rightarrow> bool" where
  "registry_le hr hr' \<longleftrightarrow> (\<forall>wid r. map_of (hr_records hr) wid = Some r \<longrightarrow>
     (\<exists>r'. map_of (hr_records hr') wid = Some r' \<and> record_le r r'))"

definition registry_ok :: "health_registry \<Rightarrow> bool" where
  "registry_ok hr \<longleftrightarrow> (\<forall>wid r. map_of (hr_records hr) wid = Some r \<longrightarrow> record_ok r \<and> wr_worker_id r = wid)"

lemma registry_le_refl: "registry_le hr hr"
  by (auto simp: registry_le_def intro: record_le_refl)

lemma registry_le_trans: "registry_le a b \<Longrightarrow> registry_le b c \<Longrightarrow> registry_le a c"
  unfolding registry_le_def by (meson record_le_trans)

lemma on_record_le:
  assumes "\<And>r oj. record_le r (fst (snd (f (r, oj))))"
  shows "registry_le (fst s) (fst (snd (on_record wid f s)))"
    and "registry_ok (fst s) \<Longrightarrow> registry_ok (fst (snd (on_record wid f s)))"
proof -
  obtain hr oj where s: "s = (hr, oj)" by fastforce
  show "registry_le (fst s) (fst (snd (on_record wid f s)))"
  proof (cases "map_of (hr_records hr) wid")
    case None
    then show ?thesis by (simp add: on_record_def s registry_le_refl)
  next
    case (Some r)
    obtain res r' oj' where f: "f (r, oj) = (res, (r', oj'))" by (metis prod.collapse)
    have "record_le r r'" using assms [of r oj] by (simp add: f)
    with Some f show ?thesis by (auto simp: on_record_def s registry_le_def intro: record_le_refl)
  qed
  show "registry_ok (fst s) \<Longrightarrow> registry_ok (fst (snd (on_record wid f s)))"
  proof (cases "map_of (hr_records hr) wid")
    case None
    then show "registry_ok (fst s) \<Longrightarrow> ?thesis" by (simp add: on_record_def s)
  next
    case (Some r)
    obtain res r' oj' where f: "f (r, oj) = (res, (r', oj'))" by (metis prod.collapse)
    have "record_le r r'" using assms [of r oj] by (simp add: f)
    with Some f show "registry_ok (fst s) \<Longrightarrow> ?thesis"
      by (auto simp: on_record_def s registry_ok_def record_le_def)
  qed
qed

lemma sweep_le:
  assumes "sweep E stale silent now rs oj = (res, (rs', oj'))"
  shows "map fst rs' = map fst rs \<and> list_all2 (\<lambda>p p'. record_le (snd p) (snd p')) rs rs'"
  using assms
proof (induction rs arbitrary: oj res rs' oj')
  case Nil
  then show ?case by simp
next
  case (Cons p rs)
  obtain k r where p: "p = (k, r)" by fastforce
  have refl: "list_all2 (\<lambda>p p'. record_le (snd p) (snd p')) rs rs"
    by (simp add: list_all2_same record_le_refl)
  show ?case
  proof (cases "silence_demand stale silent (instant now) r")
    case None
    with Cons.prems Cons.IH show ?thesis by (auto simp: p record_le_refl split: prod.splits)
  next
    case (Some d)
    obtain target reason where d: "d = (target, reason)" by fastforce
    obtain x r' oj1 where dem: "demote E target now [reason] (r, oj) = (x, (r', oj1))" by (metis prod.collapse)
    note le = demote_record_le [OF dem]
    show ?thesis
    proof (cases x)
      case (Inl e)
      with Cons.prems Some d dem le refl show ?thesis by (auto simp: p)
    next
      case (Inr t)
      with Cons.prems Cons.IH Some d dem le show ?thesis by (auto simp: p split: prod.splits)
    qed
  qed
qed

lemma map_of_list_all2:
  "map fst rs' = map fst rs \<Longrightarrow> list_all2 (\<lambda>p p'. P (snd p) (snd p')) rs rs' \<Longrightarrow>
   map_of rs k = Some v \<Longrightarrow> \<exists>v'. map_of rs' k = Some v' \<and> P v v'"
proof (induction rs arbitrary: rs')
  case Nil
  then show ?case by simp
next
  case (Cons p rs)
  then show ?case by (cases rs') (auto split: if_splits)
qed

lemma liveness_le:
  "registry_le (fst s) (fst (snd (evaluate_liveness E now s)))
   \<and> (registry_ok (fst s) \<longrightarrow> registry_ok (fst (snd (evaluate_liveness E now s))))"
proof (cases "is_aware now")
  case False
  then show ?thesis by (simp add: evaluate_liveness_def registry_le_refl)
next
  case True
  obtain hr oj where s: "s = (hr, oj)" by fastforce
  obtain res rs oj' where w: "sweep E (hr_stale_after hr) (hr_silent_after hr) now (hr_records hr) oj = (res, (rs, oj'))"
    by (metis prod.collapse)
  note le = sweep_le [OF w]
  have fwd: "\<exists>r'. map_of rs k = Some r' \<and> record_le r r'" if "map_of (hr_records hr) k = Some r" for k r
    by (rule map_of_list_all2 [OF conjunct1 [OF le] conjunct2 [OF le] that])
  have bwd: "\<exists>r. map_of (hr_records hr) k = Some r" if "map_of rs k = Some r'" for k r'
    using that le by (metis map_of_eq_None_iff not_Some_eq list.set_map)
  have "registry_ok hr \<Longrightarrow> registry_ok (hr\<lparr>hr_records := rs\<rparr>)"
    unfolding registry_ok_def using fwd bwd by (fastforce simp: record_le_def)
  with fwd True show ?thesis
    by (simp add: evaluate_liveness_def s w registry_le_def)
qed

lemma register_le:
  "registry_le (fst s) (fst (snd (register_worker g s)))
   \<and> (registry_ok (fst s) \<longrightarrow> registry_ok (fst (snd (register_worker g s))))"
proof -
  obtain hr oj where s: "s = (hr, oj)" by fastforce
  have id: "wr_worker_id (new_worker_record g) = rg_worker_id g" by (simp add: new_worker_record_def)
  have refuse: "\<not> (case rg_registered_at g of None \<Rightarrow> False | Some t \<Rightarrow> \<not> is_aware t) \<or>
      snd (register_worker g s) = s"
    by (auto simp: register_worker_def)
  show ?thesis
  proof (cases "snd (register_worker g s) = s")
    case True
    then show ?thesis by (simp add: registry_le_refl)
  next
    case False
    with refuse have "map_of (hr_records hr) (rg_worker_id g) = None"
      by (auto simp: register_worker_def s split: option.splits if_splits)
    with False refuse show ?thesis
      by (auto simp: register_worker_def s registry_le_def registry_ok_def id record_ok_new
          intro: record_le_refl split: if_splits)
  qed
qed

lemma health_op_le:
  "registry_le (fst s) (fst (snd (health_op E c s)))
   \<and> (registry_ok (fst s) \<longrightarrow> registry_ok (fst (snd (health_op E c s))))"
proof (cases c)
  case (RegisterWorker g)
  then show ?thesis using register_le by simp
next
  case (ObserveInfrastructure wid x)
  then show ?thesis
    using on_record_le [of "infra_step E x"] infra_step_le by (simp add: record_infrastructure_def)
next
  case (ObserveSemantics wid x)
  then show ?thesis
    using on_record_le [of "semantic_step E (hr_window (fst s)) x"] semantic_step_le by (simp add: record_semantic_def)
next
  case (EvaluateLiveness now)
  then show ?thesis using liveness_le by simp
next
  case (TerminateWorker wid occ reason)
  have "record_le r (fst (snd (if wr_state (fst (r, oj)) = WS_TERMINATED then (Inr None, (r, oj))
      else demote E WS_TERMINATED occ [reason] (r, oj))))" for r oj
    using demote_record_le by (auto simp: record_le_refl) (metis prod.collapse)
  from on_record_le [of "\<lambda>rs. if wr_state (fst rs) = WS_TERMINATED then (Inr None, rs)
      else demote E WS_TERMINATED occ [reason] rs", OF this] TerminateWorker
  show ?thesis by (simp add: terminate_worker_def registry_le_refl)
next
  case (RecordAttempt wid aid shard status)
  have "record_le r (fst (snd ((\<lambda>(r, oj). (Inr (), (if (aid, shard, status) \<in> set (wr_attempts r) then r
       else r\<lparr>wr_attempts := wr_attempts r @ [(aid, shard, status)]\<rparr>, oj))) (r, oj))))" for r :: worker_record and oj :: "journal option"
    by (simp add: record_le_refl record_le_update)
  from on_record_le [of "\<lambda>(r, oj). (Inr (), (if (aid, shard, status) \<in> set (wr_attempts r) then r
       else r\<lparr>wr_attempts := wr_attempts r @ [(aid, shard, status)]\<rparr>, oj))", OF this] RecordAttempt
  show ?thesis by (simp add: record_attempt_def)
qed

lemma run_health_le: "registry_le (fst s) (fst (run_ops (health_op E) cs s))"
proof (induction cs arbitrary: s)
  case Nil
  then show ?case by (simp add: registry_le_refl)
next
  case (Cons c cs)
  from registry_le_trans [OF conjunct1 [OF health_op_le] Cons] show ?case by simp
qed

lemma run_health_ok:
  "new_health_registry w a b = Inr hr \<Longrightarrow> registry_ok (fst (run_ops (health_op E) cs (hr, oj)))"
proof -
  assume "new_health_registry w a b = Inr hr"
  then have "registry_ok hr" unfolding new_health_registry_def require_all_Inr_iff by (simp add: registry_ok_def)
  then show ?thesis
    by (intro run_ops_invariant [where I = "\<lambda>s. registry_ok (fst s)"]) (use health_op_le in auto)
qed

section \<open>Sweeps without a journal\<close>

definition swept_state :: "int \<Rightarrow> int \<Rightarrow> int \<Rightarrow> worker_record \<Rightarrow> worker_state" where
  "swept_state stale silent now r =
    (case wr_last_signal_at r of None \<Rightarrow> wr_state r
     | Some t \<Rightarrow>
         if wr_state r \<in> {WS_QUARANTINED, WS_TERMINATED} then wr_state r
         else if silent \<le> now - instant t then WS_QUARANTINED
         else if stale \<le> now - instant t then WS_DRAINING
         else wr_state r)"

lemma demote_silent:
  assumes "silence_demand stale silent now r = Some (target, reason)"
    and "demote E target t [reason] (r, None) = (res, (r', oj'))"
  shows "(\<exists>x. res = Inr x) \<and> wr_state r' = target \<and> oj' = None"
proof -
  have "\<not> retired r" "target = WS_QUARANTINED \<or> target = WS_DRAINING"
    using assms(1) by (auto simp: silence_demand_def Let_def split: if_splits option.splits)
  then have "\<not> state_rank target < state_rank (wr_state r)"
    by (cases "wr_state r") (auto simp: retired_def)
  moreover have "oj' = None"
  proof -
    have "emit_all E rs None = (Inr (), None)" for rs by (induction rs) auto
    then show ?thesis using assms(2) by (auto simp: demote_def Let_def with_events_def split: if_splits)
  qed
  ultimately show ?thesis using demote_cases [OF assms(2)] by auto
qed

lemma swept_demand:
  "swept_state stale silent now r =
    (case silence_demand stale silent now r of None \<Rightarrow> wr_state r | Some (target, _) \<Rightarrow> target)"
  by (auto simp: swept_state_def silence_demand_def retired_def Let_def split: option.splits)

lemma sweep_exact:
  assumes "sweep E stale silent now rs None = (res, (rs', oj'))"
  shows "(\<exists>ts. res = Inr ts) \<and> map fst rs' = map fst rs
    \<and> list_all2 (\<lambda>p p'. wr_state (snd p') = swept_state stale silent (instant now) (snd p)) rs rs'"
  using assms
proof (induction rs arbitrary: res rs' oj')
  case Nil
  then show ?case by auto
next
  case (Cons p rs)
  obtain k r where p: "p = (k, r)" by fastforce
  obtain x rs1 oj1 where s: "sweep E stale silent now rs None = (x, (rs1, oj1))" by (metis prod.collapse)
  note IH = Cons.IH [OF s]
  show ?case
  proof (cases "silence_demand stale silent (instant now) r")
    case None
    with Cons.prems IH s show ?thesis by (auto simp: p swept_demand)
  next
    case (Some d)
    obtain target reason where d: "d = (target, reason)" by fastforce
    obtain y r' oj2 where dem: "demote E target now [reason] (r, None) = (y, (r', oj2))" by (metis prod.collapse)
    from demote_silent [OF Some [unfolded d] dem] Cons.prems IH s Some d dem show ?thesis
      by (auto simp: p swept_demand mapR_def)
  qed
qed

section \<open>Properties\<close>

text \<open>C36: worker health never improves. In every reachable registry a worker's states form a strictly
  worsening chain from HEALTHY to its current state, recorded without gaps by at most four
  transitions, and no later operation removes a transition or lowers the severity.\<close>

theorem health_only_worsens:
  assumes "new_health_registry w a b = Inr hr0" and "run_ops (health_op E) cs (hr0, oj0) = (hr, oj)"
    and "map_of (hr_records hr) wid = Some r"
  shows "successively demotion (state_path r) \<and> distinct (state_path r) \<and> length (wr_transitions r) \<le> 4
    \<and> last (state_path r) = wr_state r \<and> map ht_from_state (wr_transitions r) = butlast (state_path r)
    \<and> (\<exists>r' ts. map_of (hr_records (fst (run_ops (health_op E) ds (hr, oj)))) wid = Some r'
        \<and> wr_transitions r' = wr_transitions r @ ts \<and> state_rank (wr_state r) \<le> state_rank (wr_state r'))"
proof -
  have ok: "record_ok r"
    using run_health_ok [OF assms(1), of E cs oj0] assms(2,3) by (simp add: registry_ok_def)
  have path: "successively demotion (state_path r)" using ok by (simp add: record_ok_def)
  have len: "length (wr_transitions r) \<le> 4"
    using health.path_length [OF path] by (simp add: state_path_def)
  obtain r' where r': "map_of (hr_records (fst (run_ops (health_op E) ds (hr, oj)))) wid = Some r'" "record_le r r'"
    using run_health_le [of "(hr, oj)" E ds] assms(3) unfolding registry_le_def by auto
  then obtain ts where ts: "wr_transitions r' = wr_transitions r @ ts" and ok': "record_ok r'"
    using ok by (auto simp: record_le_def)
  have "state_rank (wr_state r) \<le> state_rank (wr_state r')"
  proof (cases "ts = []")
    case True
    then have "state_path r' = state_path r" by (simp add: state_path_def ts)
    with ok ok' show ?thesis by (simp add: record_ok_def)
  next
    case False
    have p: "state_path r' = butlast (state_path r) @ (wr_state r # map ht_to_state ts)"
      using ok by (metis append.assoc append_Cons append_Nil append_butlast_last_id list.simps(3) map_append
          record_ok_def state_path_def ts)
    then have "successively demotion (wr_state r # map ht_to_state ts)"
      using ok' by (simp add: record_ok_def successively_append_iff)
    moreover have "wr_state r' \<in> set (map ht_to_state ts)"
      using ok' False p by (metis last_ConsR last_append last_in_set list.map_disc_iff list.simps(3) record_ok_def)
    ultimately show ?thesis using health.path_ranks by (simp add: less_imp_le)
  qed
  with ok path len health.path_distinct [OF path] r' ts show ?thesis by (auto simp: record_ok_def)
qed

definition demo_registration :: registration where
  "demo_registration = \<lparr>rg_worker_id = ''w'', rg_model_revision = ''m'', rg_runtime_image_digest = ''i'',
     rg_capabilities = {}, rg_warm = True, rg_cached_models = {}, rg_estimated_available_at = 0,
     rg_registered_at = Some (Aware 0)\<rparr>"

definition demo_record :: worker_record where
  "demo_record = new_worker_record demo_registration"

definition demo_registry :: "worker_record \<Rightarrow> health_registry" where
  "demo_registry r = \<lparr>hr_records = [(''w'', r)], hr_window = 20, hr_stale_after = 300000000,
     hr_silent_after = 1200000000\<rparr>"

definition demo_health_env :: renv where
  "demo_health_env = \<lparr>sha256 = (\<lambda>s. ''h''), float_repr = (\<lambda>r. ''f''), isoformat = (\<lambda>t. ''t'')\<rparr>"

lemma demo_registry_reached:
  "\<exists>hr0. new_health_registry 20 300000000 1200000000 = Inr hr0
    \<and> run_ops (health_op demo_health_env) [RegisterWorker demo_registration] (hr0, None)
       = (demo_registry demo_record, None)"
  by (simp add: new_health_registry_def register_worker_def demo_registry_def demo_record_def
      demo_registration_def)

theorem health_only_worsens_witness:
  "\<exists>r' ts. map_of (hr_records (fst (run_ops (health_op demo_health_env) [EvaluateLiveness (Aware 1200000000)]
      (demo_registry demo_record, None)))) ''w'' = Some r'
    \<and> wr_transitions r' = wr_transitions demo_record @ ts
    \<and> state_rank (wr_state demo_record) \<le> state_rank (wr_state r')"
proof -
  have m: "map_of (hr_records (demo_registry demo_record)) ''w'' = Some demo_record"
    by (simp add: demo_registry_def)
  obtain hr0 where "new_health_registry 20 300000000 1200000000 = Inr hr0"
    "run_ops (health_op demo_health_env) [RegisterWorker demo_registration] (hr0, None)
       = (demo_registry demo_record, None)" using demo_registry_reached by blast
  from health_only_worsens [OF this m, of "[EvaluateLiveness (Aware 1200000000)]"] show ?thesis by blast
qed

text \<open>Fact: silence is detected exactly. For a registry without a journal, a liveness sweep never raises; it
  quarantines every worker whose last signal is at least the silent threshold old, drains every one
  at least the stale threshold old, and leaves every other worker, quarantined and terminated ones
  and those without a baseline in the state they had.\<close>

theorem liveness_exact:
  assumes "is_aware now" and "map_of (hr_records hr) wid = Some r"
    and "evaluate_liveness E now (hr, None) = (res, (hr', oj'))"
  shows "(\<exists>ts. res = Inr ts) \<and> (\<exists>r'. map_of (hr_records hr') wid = Some r'
    \<and> wr_state r' = swept_state (hr_stale_after hr) (hr_silent_after hr) (instant now) r)"
proof -
  obtain rs where w: "sweep E (hr_stale_after hr) (hr_silent_after hr) now (hr_records hr) None = (res, (rs, oj'))"
    and hr': "hr' = hr\<lparr>hr_records := rs\<rparr>"
    using assms(1,3) by (auto simp: evaluate_liveness_def split: prod.splits)
  note ex = sweep_exact [OF w]
  have "\<exists>r'. map_of rs wid = Some r' \<and> wr_state r' = swept_state (hr_stale_after hr) (hr_silent_after hr) (instant now) r"
    by (rule map_of_list_all2 [OF _ _ assms(2)]) (use ex in auto)
  with ex show ?thesis by (simp add: hr')
qed

theorem liveness_exact_witness:
  "\<exists>r'. map_of (hr_records (fst (snd (evaluate_liveness demo_health_env (Aware 1200000000)
      (demo_registry demo_record, None))))) ''w'' = Some r' \<and> wr_state r' = WS_QUARANTINED"
proof -
  have m: "map_of (hr_records (demo_registry demo_record)) ''w'' = Some demo_record"
    by (simp add: demo_registry_def)
  have s: "swept_state 300000000 1200000000 1200000000 demo_record = WS_QUARANTINED"
    by (simp add: swept_state_def demo_record_def new_worker_record_def demo_registration_def)
  obtain res hr' oj' where e: "evaluate_liveness demo_health_env (Aware 1200000000) (demo_registry demo_record, None)
      = (res, (hr', oj'))" by (metis prod.collapse)
  have "hr_stale_after (demo_registry demo_record) = 300000000" "hr_silent_after (demo_registry demo_record) = 1200000000"
    by (simp_all add: demo_registry_def)
  with liveness_exact [OF _ m e] s show ?thesis by (simp add: e)
qed

text \<open>Fact: an identity mismatch quarantines. An infrastructure observation with the wrong model identity
  or checksum leaves the worker QUARANTINED (or TERMINATED, if it was), even when the journal refuses
  the event, and the worker is then not among the serving workers.\<close>

theorem identity_mismatch_quarantines:
  assumes "map_of (hr_records hr) wid = Some r" and "wr_state r \<noteq> WS_TERMINATED"
    and "\<not> (io_model_identity_matches x \<and> io_checksum_matches x)"
  shows "\<exists>r'. map_of (hr_records (fst (snd (record_infrastructure E wid x (hr, oj))))) wid = Some r'
    \<and> wr_state r' = WS_QUARANTINED"
proof -
  obtain res r' oj' where f: "infra_step E x (r, oj) = (res, (r', oj'))" by (metis prod.collapse)
  have "wr_state r' = WS_QUARANTINED"
  proof (cases "wr_state r = WS_QUARANTINED")
    case True
    then show ?thesis using f by (auto simp: infra_step_def Let_def retired_def ret_snapshot_def)
  next
    case False
    define r1 where "r1 = r\<lparr>wr_infrastructure := wr_infrastructure r @ [x],
           wr_last_signal_at := (case wr_last_signal_at r of
              None \<Rightarrow> Some (io_observed_at x)
            | Some t \<Rightarrow> Some (if instant t < instant (io_observed_at x) then io_observed_at x else t))\<rparr>"
    have nr: "\<not> retired r1" using False assms(2) by (simp add: retired_def r1_def)
    define rs where "rs = (if \<not> io_model_identity_matches x then [''model_identity_mismatch''] else []) @
                (if \<not> io_checksum_matches x then [''model_checksum_mismatch''] else [])"
    have step: "infra_step E x (r, oj)
        = andthen (demote E WS_QUARANTINED (io_observed_at x) rs (r1, oj)) (\<lambda>_. ret_snapshot)"
      using nr assms(3) by (simp add: infra_step_def Let_def r1_def rs_def)
    obtain y r2 oj2 where d: "demote E WS_QUARANTINED (io_observed_at x) rs (r1, oj) = (y, (r2, oj2))"
      by (metis prod.collapse)
    have "\<not> state_rank WS_QUARANTINED < state_rank (wr_state r1)"
      using nr by (cases "wr_state r1") (auto simp: retired_def)
    then have "wr_state r2 = WS_QUARANTINED"
      using demote_cases [OF d] nr by (auto simp: retired_def)
    moreover have "r' = r2" using f by (cases y) (auto simp: step d ret_snapshot_def)
    ultimately show ?thesis by simp
  qed
  with assms(1) f show ?thesis by (simp add: record_infrastructure_def on_record_def)
qed

definition demo_infra :: infra_observation where
  "demo_infra = \<lparr>io_observed_at = Aware 1, io_ping = True, io_process = True, io_gpu = True, io_ram = True,
     io_disk = True, io_model_loaded = True, io_cuda_ready = True, io_request_response = True,
     io_heartbeat = True, io_model_identity_matches = True, io_checksum_matches = False,
     io_memory_slope_exceeded = False, io_latency_p99_spike = False\<rparr>"

theorem identity_mismatch_quarantines_witness:
  "\<exists>r'. map_of (hr_records (fst (snd (record_infrastructure demo_health_env ''w'' demo_infra
      (demo_registry demo_record, None))))) ''w'' = Some r' \<and> wr_state r' = WS_QUARANTINED"
  by (rule identity_mismatch_quarantines [of "demo_registry demo_record" "''w''" demo_record])
    (simp_all add: demo_registry_def demo_record_def new_worker_record_def demo_infra_def)

text \<open>Fact: a draining worker cannot report a merely degraded result. When an observation of a DRAINING
  worker asks for DEGRADED and for nothing worse, \<open>record_semantic\<close> raises RuntimeError, but the
  observation and the new score have already been stored.\<close>

theorem draining_worker_report_raises:
  assumes "map_of (hr_records hr) wid = Some r" and "wr_state r = WS_DRAINING"
    and "window = last_window (hr_window hr) (wr_semantics r @ [x])"
    and "\<not> so_canary_fixture_failed x" and "\<not> (so_critical_numeric_failure x \<and> so_canary_reproduced x)"
    and "trailing so_schema_failure window < 3" and "trailing so_repetition window < 2"
    and "50 \<le> semantic_score window"
    and "\<not> so_validator_passed x \<or> so_empty_output x \<or> so_row_omission x \<or> semantic_score window < 85"
  shows "record_semantic E wid x (hr, oj)
    = (Inl (PyRuntimeError ''worker health promotion requires explicit canary restoration''),
       (hr\<lparr>hr_records := AList.update wid (r\<lparr>wr_semantics := wr_semantics r @ [x],
          wr_semantic_score := semantic_score window\<rparr>) (hr_records hr)\<rparr>, oj))"
  using assms(1,2,4-9)
  by (auto simp: record_semantic_def on_record_def semantic_step_def Let_def retired_def demote_def
      assms(3) [symmetric])

definition demo_semantic :: semantic_observation where
  "demo_semantic = \<lparr>so_attempt_id = ''a'', so_shard_id = ''s'', so_observed_at = Aware 1,
     so_validator_passed = False, so_source_coverage = 1, so_critical_numeric_failure = False,
     so_page_omission = False, so_repetition = False, so_schema_failure = False, so_row_omission = False,
     so_empty_output = False, so_latency_outlier = False, so_output_length_drift = False,
     so_canary_reproduced = False, so_canary_fixture_failed = False\<rparr>"

theorem draining_worker_report_raises_witness:
  "fst (record_semantic demo_health_env ''w'' demo_semantic
      (demo_registry (demo_record\<lparr>wr_state := WS_DRAINING\<rparr>), None))
    = Inl (PyRuntimeError ''worker health promotion requires explicit canary restoration'')"
proof -
  have sc: "semantic_score [demo_semantic] = 100"
    by (simp add: semantic_score_def penalty_def demo_semantic_def py_round_def round_half_even_def)
  have w: "last_window 20 [demo_semantic] = [demo_semantic]" by (simp add: last_window_def)
  show ?thesis
    using draining_worker_report_raises [of "demo_registry (demo_record\<lparr>wr_state := WS_DRAINING\<rparr>)" "''w''"
      "demo_record\<lparr>wr_state := WS_DRAINING\<rparr>" "[demo_semantic]" demo_semantic demo_health_env None] sc w
    by (simp add: demo_registry_def demo_record_def new_worker_record_def trailing_def demo_semantic_def)
qed

text \<open>Fact: influence of a quarantined worker. Over the recent attempts of a quarantined worker, taking the
  last status of each attempt, the impact lists each attempt at most once: accepted ones for
  analysis, unfinished ones as pending, no terminal one; the shards to replay are exactly those of the
  listed attempts, sorted.\<close>

theorem quarantine_impact_exact:
  assumes "quarantine_impact_of wid n s = Inr qi" and "map_of (hr_records (fst s)) wid = Some r"
    and "final = map_of (rev (last_window (nat n) (wr_attempts r)))"
  shows "wr_state r = WS_QUARANTINED
    \<and> set (qi_accepted_attempt_ids qi) = {aid. \<exists>sh. final aid = Some (sh, AS_ACCEPTED)}
    \<and> set (qi_pending_attempt_ids qi)
       = {aid. \<exists>sh st. final aid = Some (sh, st) \<and> st \<notin> set (AS_ACCEPTED # terminal_statuses)}
    \<and> distinct (qi_accepted_attempt_ids qi @ qi_pending_attempt_ids qi)
    \<and> set (qi_shard_ids_to_replay qi) = {sh. \<exists>aid st. final aid = Some (sh, st) \<and> st \<notin> set terminal_statuses}
    \<and> sorted (qi_shard_ids_to_replay qi)"
proof -
  define recent where "recent = last_window (nat n) (wr_attempts r)"
  define cur where "cur = latest_attempts recent"
  have fold: "map_of (fold (\<lambda>(aid, v). AList.update aid v) xs al) = map_of al ++ map_of (rev xs)
      \<and> (distinct (map fst al) \<longrightarrow> distinct (map fst (fold (\<lambda>(aid, v). AList.update aid v) xs al)))"
    for xs :: "(string \<times> string \<times> attempt_status) list" and al
  proof (induction xs arbitrary: al)
    case Nil
    then show ?case by simp
  next
    case (Cons p xs)
    then show ?case by (cases p) (auto simp: distinct_update map_add_def fun_eq_iff split: option.splits)
  qed
  have cur: "map_of cur = final" "distinct (map fst cur)"
    using fold [of recent "[]"] by (simp_all add: cur_def latest_attempts_def assms(3) recent_def)
  then have mem: "(aid, v) \<in> set cur \<longleftrightarrow> final aid = Some v" for aid v
    by (metis map_of_eq_Some_iff)
  have q: "wr_state r = WS_QUARANTINED" and qi: "qi = \<lparr>qi_worker_id = wid,
       qi_pending_attempt_ids = map fst (filter (\<lambda>(aid, sh, st).
          st \<notin> set terminal_statuses \<and> st \<noteq> AS_ACCEPTED) cur),
       qi_accepted_attempt_ids = map fst (filter (\<lambda>(aid, sh, st). st = AS_ACCEPTED) cur),
       qi_shard_ids_to_replay = sorted_set (map (fst \<circ> snd) (filter (\<lambda>(aid, sh, st).
          st \<notin> set terminal_statuses \<or> st = AS_ACCEPTED) cur))\<rparr>"
    using assms(1,2) by (auto simp: quarantine_impact_of_def Let_def cur_def recent_def split: if_splits)
  have acc: "AS_ACCEPTED \<notin> set terminal_statuses" by (simp add: terminal_statuses_def)
  have "distinct (map fst (filter P cur))" for P using cur(2) by (rule distinct_map_filter)
  moreover have "set (qi_accepted_attempt_ids qi) = {aid. \<exists>sh. final aid = Some (sh, AS_ACCEPTED)}"
    by (force simp: qi mem)
  moreover have "set (qi_pending_attempt_ids qi)
       = {aid. \<exists>sh st. final aid = Some (sh, st) \<and> st \<notin> set (AS_ACCEPTED # terminal_statuses)}"
    by (force simp: qi mem)
  moreover have "set (qi_shard_ids_to_replay qi) = {sh. \<exists>aid st. final aid = Some (sh, st) \<and> st \<notin> set terminal_statuses}"
    using acc by (force simp: qi mem)
  ultimately show ?thesis using q by (auto simp: qi)
qed

theorem quarantine_impact_exact_witness:
  "\<exists>qi. quarantine_impact_of ''w'' 2 (demo_registry (demo_record\<lparr>wr_state := WS_QUARANTINED,
       wr_attempts := [(''z'', ''s0'', AS_RUNNING), (''a'', ''s1'', AS_RUNNING), (''a'', ''s1'', AS_ACCEPTED)]\<rparr>), None) = Inr qi
    \<and> sorted (qi_shard_ids_to_replay qi)"
proof -
  let ?r = "demo_record\<lparr>wr_state := WS_QUARANTINED,
       wr_attempts := [(''z'', ''s0'', AS_RUNNING), (''a'', ''s1'', AS_RUNNING), (''a'', ''s1'', AS_ACCEPTED)]\<rparr>"
  have m: "map_of (hr_records (fst (demo_registry ?r, None :: journal option))) ''w'' = Some ?r"
    by (simp add: demo_registry_def)
  obtain qi where q: "quarantine_impact_of ''w'' 2 (demo_registry ?r, None) = Inr qi"
    by (simp add: quarantine_impact_of_def Let_def demo_registry_def)
  from quarantine_impact_exact [OF q m refl] q show ?thesis by blast
qed

end
