(* ===== verification/Validation.thy ===== *)
theory Validation
  imports Models
begin

text \<open>
  \<^verbatim>\<open>akc_parallel_runtime/validation.py\<close>: the seven-level validator pipeline. An
  \<open>Optional[bool]\<close> field is a \<open>bool option\<close>, and the source's test \<open>x is True\<close> is \<open>x = Some True\<close>.
\<close>

section \<open>Data\<close>

datatype validation_level =
    VL_TRANSPORT | VL_STRUCTURAL | VL_NATIVE | VL_AUTHORITY | VL_DIFFERENTIAL | VL_MULTIMODAL | VL_DOWNSTREAM

fun level_value :: "validation_level \<Rightarrow> nat" where
  "level_value VL_TRANSPORT = 0"
| "level_value VL_STRUCTURAL = 1"
| "level_value VL_NATIVE = 2"
| "level_value VL_AUTHORITY = 3"
| "level_value VL_DIFFERENTIAL = 4"
| "level_value VL_MULTIMODAL = 5"
| "level_value VL_DOWNSTREAM = 6"

lemma level_value_inj: "level_value a = level_value b \<Longrightarrow> a = b"
  by (cases a; cases b) simp_all

text \<open>An IntEnum is ordered by its value, and iterating over it follows the declaration.\<close>

instantiation validation_level :: linorder
begin

definition less_eq_validation_level :: "validation_level \<Rightarrow> validation_level \<Rightarrow> bool" where
  "less_eq_validation_level a b \<longleftrightarrow> level_value a \<le> level_value b"

definition less_validation_level :: "validation_level \<Rightarrow> validation_level \<Rightarrow> bool" where
  "less_validation_level a b \<longleftrightarrow> level_value a < level_value b"

instance
  by standard (auto simp: less_eq_validation_level_def less_validation_level_def dest: level_value_inj)

end

definition all_levels :: "validation_level list" where
  "all_levels = [VL_TRANSPORT, VL_STRUCTURAL, VL_NATIVE, VL_AUTHORITY, VL_DIFFERENTIAL, VL_MULTIMODAL, VL_DOWNSTREAM]"

lemma set_all_levels: "set all_levels = UNIV"
  using validation_level.exhaust by (auto simp: all_levels_def)

datatype validation_severity = SV_INFO | SV_WARNING | SV_HARD | SV_SECURITY

fun severity_value :: "validation_severity \<Rightarrow> string" where
  "severity_value SV_INFO = ''info''"
| "severity_value SV_WARNING = ''warning''"
| "severity_value SV_HARD = ''hard''"
| "severity_value SV_SECURITY = ''security''"

record evidence_receipt =
  er_source_ref :: string
  er_sha256 :: string
  er_kind :: string

definition mk_evidence_receipt :: "evidence_receipt \<Rightarrow> pyerr + evidence_receipt" where
  "mk_evidence_receipt r = require_all
     [(er_source_ref r \<noteq> [] \<and> er_kind r \<noteq> [], ValueError ''evidence receipts require source_ref and kind''),
      (is_sha256 (er_sha256 r), sha_err)] r"

record validation_finding =
  vf_level :: validation_level
  vf_code :: string
  vf_severity :: validation_severity
  vf_evidence :: "evidence_receipt list"
  vf_detail :: string

definition mk_validation_finding :: "validation_finding \<Rightarrow> pyerr + validation_finding" where
  "mk_validation_finding f = require_all
     [(vf_code f \<noteq> [] \<and> length (vf_code f) \<le> 100, ValueError ''finding code is required and must be concise''),
      (vf_evidence f \<noteq> [], ValueError ''validation findings must reference immutable evidence''),
      (length (vf_detail f) \<le> 500, ValueError ''finding detail must be concise'')] f"

record validation_policy =
  vp_expected_page_ids :: "string list"
  vp_native_comparison_required :: bool
  vp_authority_required :: bool
  vp_differential_required :: bool
  vp_multimodal_required :: bool
  vp_downstream_required :: bool
  vp_minimum_source_coverage :: rat

definition mk_validation_policy :: "validation_policy \<Rightarrow> pyerr + validation_policy" where
  "mk_validation_policy p = require_all
     [(vp_expected_page_ids p \<noteq> [] \<and> distinct (vp_expected_page_ids p),
        ValueError ''validation policy needs unique expected page ids''),
      (0 \<le> vp_minimum_source_coverage p \<and> vp_minimum_source_coverage p \<le> 1,
        ValueError ''minimum_source_coverage must be between 0 and 1'')] p"

fun requires :: "validation_policy \<Rightarrow> validation_level \<Rightarrow> bool" where
  "requires p VL_TRANSPORT = True"
| "requires p VL_STRUCTURAL = True"
| "requires p VL_NATIVE = vp_native_comparison_required p"
| "requires p VL_AUTHORITY = vp_authority_required p"
| "requires p VL_DIFFERENTIAL = vp_differential_required p"
| "requires p VL_MULTIMODAL = vp_multimodal_required p"
| "requires p VL_DOWNSTREAM = vp_downstream_required p"

record candidate_observation =
  co_http_status :: int
  co_response_received :: bool
  co_identity_matches :: bool
  co_checksum_matches :: bool
  co_schema_valid :: bool
  co_size_valid :: bool
  co_finish_reason_complete :: bool
  co_timed_out :: bool
  co_actual_page_ids :: "string list"
  co_block_count :: int
  co_bbox_valid :: bool
  co_reading_order_valid :: bool
  co_output_nonempty :: bool
  co_repetition_detected :: bool
  co_source_coverage :: rat
  co_native_available :: bool
  co_native_text_coverage :: "rat option"
  co_native_numeric_exact :: "bool option"
  co_native_headings_match :: "bool option"
  co_native_object_count_match :: "bool option"
  co_authority_available :: bool
  co_authority_numeric_exact :: "bool option"
  co_authority_period_unit_account_match :: "bool option"
  co_differential_available :: bool
  co_differential_agreement :: "bool option"
  co_expected_invariants_hold :: "bool option"
  co_multimodal_available :: bool
  co_visible_regions_complete :: "bool option"
  co_tables_uncut :: "bool option"
  co_captions_complete :: "bool option"
  co_hierarchy_valid :: "bool option"
  co_downstream_available :: bool
  co_markdown_valid :: "bool option"
  co_package_import_valid :: "bool option"
  co_source_links_valid :: "bool option"
  co_retrieval_valid :: "bool option"
  co_evidence :: "(validation_level \<times> evidence_receipt list) list"

definition mk_candidate_observation :: "candidate_observation \<Rightarrow> pyerr + candidate_observation" where
  "mk_candidate_observation x = require_all
     [(0 \<le> co_http_status x \<and> 0 \<le> co_block_count x, ValueError ''HTTP status and block count cannot be negative''),
      (0 \<le> co_source_coverage x \<and> co_source_coverage x \<le> 1, ValueError ''source coverage must be between 0 and 1''),
      (case co_native_text_coverage x of None \<Rightarrow> True | Some c \<Rightarrow> 0 \<le> c \<and> c \<le> 1,
        ValueError ''native text coverage must be between 0 and 1''),
      (distinct (map fst (co_evidence x)), ValueError ''evidence can be declared once per validation level'')] x"

text \<open>\<open>dict(self.evidence).get(level, ())\<close>: the last entry of a level counts.\<close>

definition evidence_for :: "candidate_observation \<Rightarrow> validation_level \<Rightarrow> evidence_receipt list" where
  "evidence_for x level = (case map_of (rev (co_evidence x)) level of None \<Rightarrow> [] | Some rs \<Rightarrow> rs)"

record level_result =
  lr_level :: validation_level
  lr_required :: bool
  lr_passed :: bool
  lr_reason_codes :: "string list"
  lr_evidence :: "evidence_receipt list"

record validation_result =
  vr_passed :: bool
  vr_hard_failure_count :: nat
  vr_results :: "level_result list"
  vr_findings :: "validation_finding list"
  vr_digest :: string

section \<open>ValidatorPipeline\<close>

fun checks :: "candidate_observation \<Rightarrow> validation_policy \<Rightarrow> validation_level \<Rightarrow> (string \<times> bool) list" where
  "checks x p VL_TRANSPORT =
     [(''response_missing'', co_response_received x),
      (''http_status_failure'', 200 \<le> co_http_status x \<and> co_http_status x < 300),
      (''identity_mismatch'', co_identity_matches x),
      (''checksum_mismatch'', co_checksum_matches x),
      (''schema_invalid'', co_schema_valid x),
      (''response_size_invalid'', co_size_valid x),
      (''incomplete_finish_reason'', co_finish_reason_complete x),
      (''transport_timeout'', \<not> co_timed_out x)]"
| "checks x p VL_STRUCTURAL =
     [(''page_coverage_mismatch'', co_actual_page_ids x = vp_expected_page_ids p),
      (''empty_output'', co_output_nonempty x \<and> co_block_count x > 0),
      (''bbox_invalid'', co_bbox_valid x),
      (''reading_order_invalid'', co_reading_order_valid x),
      (''repetition_detected'', \<not> co_repetition_detected x),
      (''source_coverage_incomplete'', co_source_coverage x \<ge> vp_minimum_source_coverage p)]"
| "checks x p VL_NATIVE =
     [(''native_evidence_unavailable'', co_native_available x),
      (''native_text_coverage_low'', (case co_native_text_coverage x of None \<Rightarrow> False
         | Some c \<Rightarrow> c \<ge> vp_minimum_source_coverage p)),
      (''native_numeric_mismatch'', co_native_numeric_exact x = Some True),
      (''native_heading_mismatch'', co_native_headings_match x = Some True),
      (''native_object_count_mismatch'', co_native_object_count_match x = Some True)]"
| "checks x p VL_AUTHORITY =
     [(''authority_evidence_unavailable'', co_authority_available x),
      (''authority_numeric_mismatch'', co_authority_numeric_exact x = Some True),
      (''authority_dimension_mismatch'', co_authority_period_unit_account_match x = Some True)]"
| "checks x p VL_DIFFERENTIAL =
     [(''differential_evidence_unavailable'', co_differential_available x),
      (''differential_disagreement'', co_differential_agreement x = Some True),
      (''differential_invariant_failure'', co_expected_invariants_hold x = Some True)]"
| "checks x p VL_MULTIMODAL =
     [(''multimodal_evidence_unavailable'', co_multimodal_available x),
      (''visible_region_missing'', co_visible_regions_complete x = Some True),
      (''table_cut_detected'', co_tables_uncut x = Some True),
      (''caption_missing'', co_captions_complete x = Some True),
      (''visual_hierarchy_invalid'', co_hierarchy_valid x = Some True)]"
| "checks x p VL_DOWNSTREAM =
     [(''downstream_evidence_unavailable'', co_downstream_available x),
      (''markdown_invalid'', co_markdown_valid x = Some True),
      (''package_import_invalid'', co_package_import_valid x = Some True),
      (''source_link_invalid'', co_source_links_valid x = Some True),
      (''retrieval_invalid'', co_retrieval_valid x = Some True)]"

definition failed_codes :: "candidate_observation \<Rightarrow> validation_policy \<Rightarrow> validation_level \<Rightarrow> string list" where
  "failed_codes x p level = sorted_set
     (map fst (filter (\<lambda>(code, ok). \<not> ok) (checks x p level)) @
      (if evidence_for x level = [] then [''level_'' @ nat_str (level_value level) @ ''_evidence_missing''] else []))"

definition level_result_of :: "candidate_observation \<Rightarrow> validation_policy \<Rightarrow> validation_level \<Rightarrow> level_result" where
  "level_result_of x p level =
    (if \<not> requires p level
     then \<lparr>lr_level = level, lr_required = False, lr_passed = False,
           lr_reason_codes = [''not_required_not_evidence''], lr_evidence = evidence_for x level\<rparr>
     else \<lparr>lr_level = level, lr_required = True, lr_passed = (failed_codes x p level = []),
           lr_reason_codes = failed_codes x p level, lr_evidence = evidence_for x level\<rparr>)"

text \<open>The receipt that stands in for missing evidence.\<close>

definition missing_receipt :: "renv \<Rightarrow> validation_level \<Rightarrow> string \<Rightarrow> evidence_receipt" where
  "missing_receipt E level code =
     \<lparr>er_source_ref = ''validator://level/'' @ nat_str (level_value level) @ ''/missing-evidence'',
      er_sha256 = jsha E (JObj [(''level'', JInt (int (level_value level))), (''code'', JStr code),
        (''missing'', JBool True)]),
      er_kind = ''validator_receipt''\<rparr>"

definition finding_of ::
  "renv \<Rightarrow> candidate_observation \<Rightarrow> validation_level \<Rightarrow> string \<Rightarrow> pyerr + validation_finding" where
  "finding_of E x level code =
    (case (if evidence_for x level \<noteq> [] then Inr (evidence_for x level)
           else mapR (\<lambda>r. [r]) (mk_evidence_receipt (missing_receipt E level code))) of
      Inl e \<Rightarrow> Inl e
    | Inr ev \<Rightarrow> mk_validation_finding \<lparr>vf_level = level, vf_code = code, vf_severity = SV_HARD,
        vf_evidence = ev, vf_detail = []\<rparr>)"

definition jreceipt :: "evidence_receipt \<Rightarrow> jval" where
  "jreceipt r = JObj [(''source_ref'', JStr (er_source_ref r)), (''sha256'', JStr (er_sha256 r)),
     (''kind'', JStr (er_kind r))]"

definition jlevel_result :: "level_result \<Rightarrow> jval" where
  "jlevel_result r = JObj [(''level'', JInt (int (level_value (lr_level r)))), (''required'', JBool (lr_required r)),
     (''passed'', JBool (lr_passed r)), (''reason_codes'', JList (map JStr (lr_reason_codes r))),
     (''evidence'', JList (map jreceipt (lr_evidence r)))]"

definition jfinding :: "validation_finding \<Rightarrow> jval" where
  "jfinding f = JObj [(''level'', JInt (int (level_value (vf_level f)))), (''code'', JStr (vf_code f)),
     (''severity'', JStr (severity_value (vf_severity f))), (''evidence'', JList (map jreceipt (vf_evidence f))),
     (''detail'', JStr (vf_detail f))]"

definition jpolicy :: "validation_policy \<Rightarrow> jval" where
  "jpolicy p = JObj [(''expected_page_ids'', JList (map JStr (vp_expected_page_ids p))),
     (''native_comparison_required'', JBool (vp_native_comparison_required p)),
     (''authority_required'', JBool (vp_authority_required p)),
     (''differential_required'', JBool (vp_differential_required p)),
     (''multimodal_required'', JBool (vp_multimodal_required p)),
     (''downstream_required'', JBool (vp_downstream_required p)),
     (''minimum_source_coverage'', JFloat (vp_minimum_source_coverage p))]"

definition required_levels :: "validation_policy \<Rightarrow> validation_level list" where
  "required_levels p = filter (requires p) all_levels"

definition validate ::
  "renv \<Rightarrow> candidate_observation \<Rightarrow> validation_policy \<Rightarrow> pyerr + validation_result" where
  "validate E x p =
    (let results = map (level_result_of x p) all_levels in
     (case mapE (\<lambda>(level, code). finding_of E x level code)
         (concat (map (\<lambda>level. map (\<lambda>code. (level, code)) (failed_codes x p level)) (required_levels p))) of
       Inl e \<Rightarrow> Inl e
     | Inr findings \<Rightarrow>
         let passed = list_all (\<lambda>r. lr_passed r) (filter lr_required results)
         in Inr \<lparr>vr_passed = passed, vr_hard_failure_count = length findings, vr_results = results,
                vr_findings = findings,
                vr_digest = jsha E (JObj [(''policy'', jpolicy p), (''results'', JList (map jlevel_result results)),
                  (''findings'', JList (map jfinding findings)), (''passed'', JBool passed)])\<rparr>))"

section \<open>Lemmas\<close>

text \<open>What one level demands: evidence, and every check.\<close>

definition level_holds :: "candidate_observation \<Rightarrow> validation_policy \<Rightarrow> validation_level \<Rightarrow> bool" where
  "level_holds x p level \<longleftrightarrow> evidence_for x level \<noteq> [] \<and> list_all snd (checks x p level)"

lemma failed_codes_empty: "failed_codes x p level = [] \<longleftrightarrow> level_holds x p level"
  by (auto simp: failed_codes_def level_holds_def filter_empty_conv list_all_iff)

lemma level_result_simps:
  "lr_level (level_result_of x p level) = level"
  "lr_required (level_result_of x p level) = requires p level"
  "lr_passed (level_result_of x p level) = (requires p level \<and> level_holds x p level)"
  by (simp_all add: level_result_of_def failed_codes_empty)

lemma results_passed:
  "list_all lr_passed (filter lr_required (map (level_result_of x p) all_levels))
    \<longleftrightarrow> (\<forall>level. requires p level \<longrightarrow> level_holds x p level)"
proof -
  have "list_all P (filter Q (map f xs)) \<longleftrightarrow> (\<forall>x \<in> set xs. Q (f x) \<longrightarrow> P (f x))"
    for P Q :: "level_result \<Rightarrow> bool" and f :: "validation_level \<Rightarrow> level_result" and xs
    by (induction xs) auto
  from this [of lr_passed lr_required "level_result_of x p" all_levels]
  show ?thesis by (simp add: level_result_simps set_all_levels)
qed

lemma pending_codes_empty:
  "concat (map (\<lambda>level. map (\<lambda>code. (level, code)) (failed_codes x p level)) (required_levels p)) = []
    \<longleftrightarrow> (\<forall>level. requires p level \<longrightarrow> level_holds x p level)"
  by (auto simp: required_levels_def failed_codes_empty set_all_levels)

lemma check_code_lengths: "(code, b) \<in> set (checks x p level) \<Longrightarrow> code \<noteq> [] \<and> length code \<le> 100"
  by (cases level) auto

lemma failed_code_lengths: "code \<in> set (failed_codes x p level) \<Longrightarrow> code \<noteq> [] \<and> length code \<le> 100"
proof -
  assume "code \<in> set (failed_codes x p level)"
  then consider b where "(code, b) \<in> set (checks x p level)"
    | "code = ''level_'' @ nat_str (level_value level) @ ''_evidence_missing''"
    by (auto simp: failed_codes_def split: if_splits)
  then show ?thesis
  proof cases
    case 1
    then show ?thesis by (rule check_code_lengths)
  next
    case 2
    have "level_value level < 10" by (cases level) simp_all
    then have "nat_str (level_value level) = [char_of (48 + level_value level)]"
      by (subst nat_str.simps) simp
    with 2 show ?thesis by simp
  qed
qed

lemma finding_of_total:
  assumes "is_sha256 (er_sha256 (missing_receipt E level code))" and "code \<in> set (failed_codes x p level)"
  shows "\<exists>f. finding_of E x level code = Inr f \<and> vf_code f = code \<and> vf_level f = level \<and> vf_severity f = SV_HARD"
proof -
  have ev: "\<exists>ev. ev \<noteq> [] \<and> (if evidence_for x level \<noteq> [] then Inr (evidence_for x level)
           else mapR (\<lambda>r. [r]) (mk_evidence_receipt (missing_receipt E level code))) = Inr ev"
  proof (cases "evidence_for x level = []")
    case True
    have "mk_evidence_receipt (missing_receipt E level code) = Inr (missing_receipt E level code)"
      unfolding mk_evidence_receipt_def require_all_Inr_iff using assms(1) by (simp add: missing_receipt_def)
    with True show ?thesis by (simp add: mapR_def)
  qed simp
  then obtain ev where ne: "ev \<noteq> []" and ev: "(if evidence_for x level \<noteq> [] then Inr (evidence_for x level)
           else mapR (\<lambda>r. [r]) (mk_evidence_receipt (missing_receipt E level code))) = Inr ev" by blast
  let ?f = "\<lparr>vf_level = level, vf_code = code, vf_severity = SV_HARD, vf_evidence = ev, vf_detail = []\<rparr>"
  have "mk_validation_finding ?f = Inr ?f"
    unfolding mk_validation_finding_def require_all_Inr_iff using ne failed_code_lengths [OF assms(2)] by simp
  then show ?thesis unfolding finding_of_def ev by simp
qed

text \<open>Every digest is 64 hexadecimal digits, as SHA-256 digests are.\<close>

definition sha_shaped :: "renv \<Rightarrow> bool" where
  "sha_shaped E \<longleftrightarrow> (\<forall>s. is_sha256 (sha256 E s))"

lemma mapE_total: "(\<And>x. x \<in> set xs \<Longrightarrow> \<exists>y. f x = Inr y) \<Longrightarrow> \<exists>ys. mapE f xs = Inr ys"
  by (induction xs) (auto split: sum.splits, fastforce+)

lemma validate_passed:
  assumes "validate E x p = Inr r"
  shows "vr_passed r \<longleftrightarrow> (\<forall>level. requires p level \<longrightarrow> level_holds x p level)"
proof -
  have "vr_passed r = list_all lr_passed (filter lr_required (map (level_result_of x p) all_levels))"
    using assms by (auto simp: validate_def Let_def split: sum.splits)
  then show ?thesis unfolding results_passed .
qed

lemma validate_total:
  assumes "sha_shaped E"
  shows "\<exists>r. validate E x p = Inr r"
proof -
  let ?codes = "concat (map (\<lambda>level. map (\<lambda>code. (level, code)) (failed_codes x p level)) (required_levels p))"
  have "\<exists>f. (\<lambda>(level, code). finding_of E x level code) lc = Inr f" if mem: "lc \<in> set ?codes" for lc
  proof -
    obtain level code where lc: "lc = (level, code)" "code \<in> set (failed_codes x p level)" using mem by auto
    have "is_sha256 (er_sha256 (missing_receipt E level code))"
      using assms by (simp add: missing_receipt_def sha_shaped_def jsha_def)
    from finding_of_total [OF this lc(2)] lc(1) show ?thesis by auto
  qed
  then have "\<exists>fs. mapE (\<lambda>(level, code). finding_of E x level code) ?codes = Inr fs" by (rule mapE_total)
  then obtain fs where "mapE (\<lambda>(level, code). finding_of E x level code) ?codes = Inr fs" by blast
  then show ?thesis unfolding validate_def Let_def by simp
qed

section \<open>Properties\<close>

text \<open>C35: validation fails closed. A result passes exactly when every required level (transport and
  structure always are) has evidence and all its checks hold; it then has no finding, and otherwise
  at least one; a level that is not required never counts as passed; all seven levels are reported
  in order.\<close>

theorem validation_fails_closed:
  assumes "validate E x p = Inr r"
  shows "(vr_passed r \<longleftrightarrow> (\<forall>level. requires p level \<longrightarrow> level_holds x p level))
    \<and> (vr_passed r \<longleftrightarrow> vr_hard_failure_count r = 0) \<and> vr_hard_failure_count r = length (vr_findings r)
    \<and> map lr_level (vr_results r) = all_levels
    \<and> (\<forall>l \<in> set (vr_results r). lr_required l = requires p (lr_level l) \<and> (lr_passed l \<longrightarrow> lr_required l))"
proof -
  let ?codes = "concat (map (\<lambda>level. map (\<lambda>code. (level, code)) (failed_codes x p level)) (required_levels p))"
  let ?results = "map (level_result_of x p) all_levels"
  obtain findings where f: "mapE (\<lambda>(level, code). finding_of E x level code) ?codes = Inr findings"
    using assms by (auto simp: validate_def Let_def split: sum.splits)
  have r: "vr_passed r = list_all lr_passed (filter lr_required ?results)" "vr_findings r = findings"
    "vr_hard_failure_count r = length findings" "vr_results r = ?results"
    using assms by (auto simp: validate_def f Let_def)
  have "length findings = length ?codes" using mapE_length [OF f] .
  then have "vr_hard_failure_count r = 0 \<longleftrightarrow> ?codes = []" using r(3) by simp
  moreover have "map lr_level ?results = all_levels"
    by (simp add: all_levels_def level_result_of_def)
  moreover have "\<forall>l \<in> set ?results. lr_required l = requires p (lr_level l) \<and> (lr_passed l \<longrightarrow> lr_required l)"
    by (auto simp: level_result_of_def)
  ultimately show ?thesis
    unfolding r(4) using r(1-3) results_passed [of x p] pending_codes_empty [of x p] by metis
qed

definition demo_policy :: validation_policy where
  "demo_policy = \<lparr>vp_expected_page_ids = [''p''], vp_native_comparison_required = False,
     vp_authority_required = False, vp_differential_required = False, vp_multimodal_required = False,
     vp_downstream_required = False, vp_minimum_source_coverage = 1\<rparr>"

definition demo_evidence :: evidence_receipt where
  "demo_evidence = \<lparr>er_source_ref = ''s'', er_sha256 = replicate 64 (CHR ''0''), er_kind = ''k''\<rparr>"

definition demo_observation :: "int \<Rightarrow> candidate_observation" where
  "demo_observation status = \<lparr>co_http_status = status, co_response_received = True, co_identity_matches = True,
     co_checksum_matches = True, co_schema_valid = True, co_size_valid = True,
     co_finish_reason_complete = True, co_timed_out = False, co_actual_page_ids = [''p''],
     co_block_count = 1, co_bbox_valid = True, co_reading_order_valid = True, co_output_nonempty = True,
     co_repetition_detected = False, co_source_coverage = 1, co_native_available = False,
     co_native_text_coverage = None, co_native_numeric_exact = None, co_native_headings_match = None,
     co_native_object_count_match = None, co_authority_available = False, co_authority_numeric_exact = None,
     co_authority_period_unit_account_match = None, co_differential_available = False,
     co_differential_agreement = None, co_expected_invariants_hold = None, co_multimodal_available = False,
     co_visible_regions_complete = None, co_tables_uncut = None, co_captions_complete = None,
     co_hierarchy_valid = None, co_downstream_available = False, co_markdown_valid = None,
     co_package_import_valid = None, co_source_links_valid = None, co_retrieval_valid = None,
     co_evidence = [(VL_TRANSPORT, [demo_evidence]), (VL_STRUCTURAL, [demo_evidence])]\<rparr>"

definition demo_digest_env :: renv where
  "demo_digest_env = \<lparr>sha256 = (\<lambda>s. replicate 64 (CHR ''0'')), float_repr = (\<lambda>r. ''f''), isoformat = (\<lambda>t. ''t'')\<rparr>"

lemma demo_digest_env_shaped: "sha_shaped demo_digest_env"
  by (simp add: sha_shaped_def demo_digest_env_def is_sha256_def)

theorem validation_fails_closed_witness:
  "\<exists>r. validate demo_digest_env (demo_observation 200) demo_policy = Inr r \<and> vr_passed r \<and> vr_hard_failure_count r = 0"
proof -
  have h: "requires demo_policy level \<longrightarrow> level_holds (demo_observation 200) demo_policy level" for level
    by (cases level) (simp_all add: demo_policy_def level_holds_def evidence_for_def demo_observation_def)
  have "concat (map (\<lambda>level. map (\<lambda>code. (level, code)) (failed_codes (demo_observation 200) demo_policy level))
      (required_levels demo_policy)) = []"
    using h pending_codes_empty by blast
  then obtain r where r: "validate demo_digest_env (demo_observation 200) demo_policy = Inr r"
    by (simp add: validate_def Let_def)
  from validation_fails_closed [OF r] h r show ?thesis by blast
qed

text \<open>Fact: validation always returns a verdict. Whatever is observed, \<open>validate\<close> returns a result; the
  constructors of the findings and receipts it builds cannot raise, given only that digests have
  the shape of SHA-256 digests.\<close>

theorem validation_total:
  assumes "sha_shaped E"
  shows "\<exists>r. validate E x p = Inr r"
  using assms by (rule validate_total)

theorem validation_total_witness:
  "\<exists>r. validate demo_digest_env (demo_observation 500) demo_policy = Inr r"
  by (rule validation_total [OF demo_digest_env_shaped])

end
