(* ===== verification/Arbitration.thy ===== *)
theory Arbitration
  imports Models
begin

text \<open>
  \<^verbatim>\<open>akc_parallel_runtime/arbitration.py\<close>: choosing among the candidates of a scope by
  objective evidence. Numeric values are finite Decimals, compared by value: rationals.
\<close>

section \<open>Data\<close>

datatype arbitration_basis =
    AB_AUTHORITY_EXACT | AB_NATIVE_EXACT | AB_PIXEL_SPECIALIST | AB_INDEPENDENT_AGREEMENT
  | AB_SOURCE_GEOMETRY | AB_TABLE_CELL_MAP | AB_DOWNSTREAM_CONSISTENCY | AB_UNRESOLVED

fun basis_value :: "arbitration_basis \<Rightarrow> string" where
  "basis_value AB_AUTHORITY_EXACT = ''authority_exact''"
| "basis_value AB_NATIVE_EXACT = ''native_exact''"
| "basis_value AB_PIXEL_SPECIALIST = ''pixel_specialist''"
| "basis_value AB_INDEPENDENT_AGREEMENT = ''independent_agreement''"
| "basis_value AB_SOURCE_GEOMETRY = ''source_geometry''"
| "basis_value AB_TABLE_CELL_MAP = ''table_cell_map''"
| "basis_value AB_DOWNSTREAM_CONSISTENCY = ''downstream_consistency''"
| "basis_value AB_UNRESOLVED = ''unresolved''"

record arbitration_candidate =
  an_attempt_id :: string
  an_prediction_sha256 :: string
  an_hard_gate_pass :: bool
  an_numeric_value :: "rat option"
  an_structure_fingerprint :: "string option"
  an_independent_family :: string
  an_authority_exact :: "bool option"
  an_native_exact :: "bool option"
  an_pixel_specialist_exact :: bool
  an_source_geometry_exact :: bool
  an_table_cell_map_exact :: bool
  an_downstream_consistent :: bool
  an_source_coverage :: rat
  an_structure_score :: rat
  an_cross_model_agreement :: rat
  an_runtime_reliability :: rat

definition mk_arbitration_candidate :: "arbitration_candidate \<Rightarrow> pyerr + arbitration_candidate" where
  "mk_arbitration_candidate c = require_all
     [(an_attempt_id c \<noteq> [] \<and> an_independent_family c \<noteq> [],
        ValueError ''candidate identity and independent family are required''),
      (is_sha256 (an_prediction_sha256 c), sha_err),
      (list_all (\<lambda>v. 0 \<le> v \<and> v \<le> 1) [an_source_coverage c, an_structure_score c,
         an_cross_model_agreement c, an_runtime_reliability c],
        ValueError ''candidate score components must be between 0 and 1'')] c"

definition score :: "arbitration_candidate \<Rightarrow> rat option" where
  "score c = (if \<not> an_hard_gate_pass c then None
     else Some (py_round 12 (30/100 * an_source_coverage c + 25/100 * an_structure_score c
       + 20/100 * an_cross_model_agreement c + 25/100 * an_runtime_reliability c)))"

record arbitration_decision =
  ar_decision_id :: string
  ar_scope_id :: string
  ar_selected_attempt_id :: "string option"
  ar_selected_prediction_sha256 :: "string option"
  ar_basis :: arbitration_basis
  ar_verification_state :: verification_state
  ar_accepted :: bool
  ar_billable :: bool
  ar_reason_codes :: "string list"
  ar_considered_attempt_ids :: "string list"
  ar_excluded_attempt_ids :: "string list"
  ar_decision_sha256 :: string

section \<open>Arbitrator\<close>

definition rank_key :: "arbitration_candidate \<Rightarrow> rat \<times> string" where
  "rank_key c = (- (case score c of None \<Rightarrow> 0 | Some v \<Rightarrow> v), an_attempt_id c)"

text \<open>Only called on a non-empty tuple.\<close>

definition best :: "arbitration_candidate list \<Rightarrow> arbitration_candidate" where
  "best cs = hd (sort_key rank_key cs)"

definition unresolved ::
  "renv \<Rightarrow> string \<Rightarrow> arbitration_candidate list \<Rightarrow> arbitration_candidate list \<Rightarrow> string list
   \<Rightarrow> arbitration_decision" where
  "unresolved E scope considered excluded reasons =
    (let digest = jsha E (JObj [(''scope_id'', JStr scope), (''basis'', JStr (basis_value AB_UNRESOLVED)),
           (''considered'', JList (map (JStr \<circ> an_attempt_id) considered)),
           (''excluded'', JList (map (JStr \<circ> an_attempt_id) excluded)),
           (''reasons'', JList (map JStr reasons))])
     in \<lparr>ar_decision_id = stable_id E ''arbitration'' [JStr scope, JStr digest], ar_scope_id = scope,
         ar_selected_attempt_id = None, ar_selected_prediction_sha256 = None, ar_basis = AB_UNRESOLVED,
         ar_verification_state = VS_UNRESOLVED, ar_accepted = False, ar_billable = False,
         ar_reason_codes = reasons, ar_considered_attempt_ids = map an_attempt_id considered,
         ar_excluded_attempt_ids = map an_attempt_id excluded, ar_decision_sha256 = digest\<rparr>)"

definition selected ::
  "renv \<Rightarrow> string \<Rightarrow> arbitration_candidate \<Rightarrow> arbitration_basis \<Rightarrow> verification_state
   \<Rightarrow> arbitration_candidate list \<Rightarrow> arbitration_candidate list \<Rightarrow> arbitration_decision" where
  "selected E scope c basis state considered excluded =
    (let digest = jsha E (JObj [(''scope_id'', JStr scope), (''attempt_id'', JStr (an_attempt_id c)),
           (''prediction_sha256'', JStr (an_prediction_sha256 c)), (''basis'', JStr (basis_value basis)),
           (''state'', JStr (verification_value state))])
     in \<lparr>ar_decision_id = stable_id E ''arbitration'' [JStr scope, JStr digest], ar_scope_id = scope,
         ar_selected_attempt_id = Some (an_attempt_id c),
         ar_selected_prediction_sha256 = Some (an_prediction_sha256 c), ar_basis = basis,
         ar_verification_state = state, ar_accepted = True, ar_billable = True,
         ar_reason_codes = [basis_value basis], ar_considered_attempt_ids = map an_attempt_id considered,
         ar_excluded_attempt_ids = map an_attempt_id excluded, ar_decision_sha256 = digest\<rparr>)"

definition eligible_numeric :: "arbitration_candidate list \<Rightarrow> arbitration_candidate list" where
  "eligible_numeric cs = filter (\<lambda>c. an_hard_gate_pass c \<and> an_numeric_value c \<noteq> None) cs"

definition hard_gate_failures :: "arbitration_candidate list \<Rightarrow> arbitration_candidate list" where
  "hard_gate_failures cs = filter (\<lambda>c. \<not> an_hard_gate_pass c) cs"

text \<open>\<open>len({f(c) for c in cs})\<close>.\<close>

definition distinct_count :: "('a \<Rightarrow> 'b) \<Rightarrow> 'a list \<Rightarrow> nat" where
  "distinct_count f cs = card (set (map f cs))"

text \<open>The values with two independent families behind them, in the order they first occur.\<close>

definition families :: "arbitration_candidate list \<Rightarrow> rat \<Rightarrow> string set" where
  "families cs v = set (map an_independent_family (filter (\<lambda>c. an_numeric_value c = Some v) cs))"

definition supported_values :: "arbitration_candidate list \<Rightarrow> rat list" where
  "supported_values cs = filter (\<lambda>v. 2 \<le> card (families cs v))
     (fromkeys (map (\<lambda>c. the (an_numeric_value c)) cs))"

text \<open>
  One evidence tier: conflicting values are unresolved, agreeing ones select the best supporter.
\<close>

definition tier ::
  "renv \<Rightarrow> string \<Rightarrow> (arbitration_candidate \<Rightarrow> 'v) \<Rightarrow> arbitration_candidate list \<Rightarrow> arbitration_basis
   \<Rightarrow> verification_state \<Rightarrow> string \<Rightarrow> arbitration_candidate list \<Rightarrow> arbitration_candidate list
   \<Rightarrow> arbitration_decision" where
  "tier E scope value supporters basis state conflict considered excluded =
    (if distinct_count value supporters \<noteq> 1 then unresolved E scope considered excluded [conflict]
     else selected E scope (best supporters) basis state considered excluded)"

text \<open>The last resort: exactly one value that two independent families support.\<close>

definition by_agreement ::
  "renv \<Rightarrow> string \<Rightarrow> arbitration_candidate list \<Rightarrow> arbitration_candidate list \<Rightarrow> arbitration_decision" where
  "by_agreement E scope es excluded =
    (case supported_values es of
       [] \<Rightarrow> unresolved E scope es excluded [''independent_agreement_insufficient'']
     | [v] \<Rightarrow> selected E scope
         (best (filter (\<lambda>c. an_numeric_value c = Some v \<and> an_independent_family c \<in> families es v) es))
         AB_INDEPENDENT_AGREEMENT VS_CROSS_MODEL_VERIFIED es excluded
     | _ \<Rightarrow> unresolved E scope es excluded [''independent_values_conflict''])"

definition arbitrate_numeric ::
  "renv \<Rightarrow> string \<Rightarrow> arbitration_candidate list \<Rightarrow> bool \<Rightarrow> arbitration_decision" where
  "arbitrate_numeric E scope cs authority_required =
    (let excluded = hard_gate_failures cs; es = eligible_numeric cs;
         authority = filter (\<lambda>c. an_authority_exact c = Some True) es;
         native = filter (\<lambda>c. an_native_exact c = Some True) es;
         specialist = filter an_pixel_specialist_exact es
     in if es = [] then unresolved E scope es excluded [''no_hard_gate_passing_numeric_candidate'']
        else if authority \<noteq> [] then tier E scope an_numeric_value authority AB_AUTHORITY_EXACT
          VS_AUTHORITY_VERIFIED ''authority_conflict'' es excluded
        else if list_ex (\<lambda>c. an_authority_exact c = Some False) es
        then unresolved E scope es excluded [''authority_mismatch'']
        else if authority_required then unresolved E scope es excluded [''authority_required_but_unavailable'']
        else if native \<noteq> [] then tier E scope an_numeric_value native AB_NATIVE_EXACT
          VS_VERIFIED ''native_source_conflict'' es excluded
        else if list_ex (\<lambda>c. an_native_exact c = Some False) es
        then unresolved E scope es excluded [''native_source_mismatch'']
        else if specialist \<noteq> [] then tier E scope an_numeric_value specialist AB_PIXEL_SPECIALIST
          VS_VERIFIED ''pixel_specialist_conflict'' es excluded
        else by_agreement E scope es excluded)"

definition eligible_structure :: "arbitration_candidate list \<Rightarrow> arbitration_candidate list" where
  "eligible_structure cs = filter (\<lambda>c. an_hard_gate_pass c \<and> an_structure_fingerprint c \<noteq> None) cs"

definition structure_tiers :: "(arbitration_basis \<times> (arbitration_candidate \<Rightarrow> bool)) list" where
  "structure_tiers = [(AB_SOURCE_GEOMETRY, an_source_geometry_exact), (AB_TABLE_CELL_MAP, an_table_cell_map_exact),
     (AB_DOWNSTREAM_CONSISTENCY, an_downstream_consistent)]"

fun first_tier ::
  "renv \<Rightarrow> string \<Rightarrow> (arbitration_basis \<times> (arbitration_candidate \<Rightarrow> bool)) list \<Rightarrow> arbitration_candidate list
   \<Rightarrow> arbitration_candidate list \<Rightarrow> arbitration_decision" where
  "first_tier E scope [] es excluded =
     unresolved E scope es excluded [''objective_structure_evidence_insufficient'']"
| "first_tier E scope ((basis, holds) # ts) es excluded =
     (if filter holds es = [] then first_tier E scope ts es excluded
      else tier E scope an_structure_fingerprint (filter holds es) basis VS_VERIFIED
        (basis_value basis @ ''_conflict'') es excluded)"

definition arbitrate_structure :: "renv \<Rightarrow> string \<Rightarrow> arbitration_candidate list \<Rightarrow> arbitration_decision" where
  "arbitrate_structure E scope cs =
    (let excluded = hard_gate_failures cs; es = eligible_structure cs
     in if es = [] then unresolved E scope es excluded [''no_hard_gate_passing_structure_candidate'']
        else first_tier E scope structure_tiers es excluded)"

section \<open>Lemmas\<close>

lemma selected_simps [simp]:
  "ar_selected_attempt_id (selected E scope c b st con ex) = Some (an_attempt_id c)"
  "ar_selected_prediction_sha256 (selected E scope c b st con ex) = Some (an_prediction_sha256 c)"
  "ar_basis (selected E scope c b st con ex) = b"
  "ar_verification_state (selected E scope c b st con ex) = st"
  "ar_accepted (selected E scope c b st con ex)"
  "ar_billable (selected E scope c b st con ex)"
  "ar_reason_codes (selected E scope c b st con ex) = [basis_value b]"
  by (simp_all add: selected_def Let_def)

lemma unresolved_simps [simp]:
  "ar_selected_attempt_id (unresolved E scope con ex rs) = None"
  "ar_selected_prediction_sha256 (unresolved E scope con ex rs) = None"
  "ar_basis (unresolved E scope con ex rs) = AB_UNRESOLVED"
  "ar_verification_state (unresolved E scope con ex rs) = VS_UNRESOLVED"
  "\<not> ar_accepted (unresolved E scope con ex rs)"
  "\<not> ar_billable (unresolved E scope con ex rs)"
  "ar_reason_codes (unresolved E scope con ex rs) = rs"
  by (simp_all add: unresolved_def Let_def)

lemma best_mem: "cs \<noteq> [] \<Longrightarrow> best cs \<in> set cs"
  unfolding best_def by (rule sort_key_hd_min(1))

text \<open>The parts of a decision that do not list the candidates in their given order.\<close>

definition verdict :: "arbitration_decision \<Rightarrow>
  string option \<times> string option \<times> arbitration_basis \<times> verification_state \<times> bool \<times> bool \<times> string list" where
  "verdict d = (ar_selected_attempt_id d, ar_selected_prediction_sha256 d, ar_basis d,
     ar_verification_state d, ar_accepted d, ar_billable d, ar_reason_codes d)"

lemma verdict_unresolved [simp]:
  "verdict (unresolved E scope con ex rs) = (None, None, AB_UNRESOLVED, VS_UNRESOLVED, False, False, rs)"
  by (simp add: verdict_def)

lemma verdict_selected [simp]:
  "verdict (selected E scope c b st con ex) =
    (Some (an_attempt_id c), Some (an_prediction_sha256 c), b, st, True, True, [basis_value b])"
  by (simp add: verdict_def)

lemma best_perm:
  assumes "set cs' = set cs" and "inj_on an_attempt_id (set cs)" and "cs \<noteq> []"
  shows "best cs' = best cs"
proof -
  have ne: "cs' \<noteq> []" using assms(1,3) by auto
  have inj: "inj_on rank_key (set cs)" using assms(2) by (auto simp: inj_on_def rank_key_def)
  have "rank_key (best cs') \<le> rank_key (best cs)" "rank_key (best cs) \<le> rank_key (best cs')"
    unfolding best_def using sort_key_hd_min [OF ne, where f = rank_key] sort_key_hd_min [OF assms(3), where f = rank_key]
      assms(1) by blast+
  then have "rank_key (best cs') = rank_key (best cs)" by (rule antisym)
  with inj best_mem [OF ne] best_mem [OF assms(3)] assms(1) show ?thesis by (metis inj_onD)
qed

lemma tier_perm:
  assumes "set cs' = set cs" and "inj_on an_attempt_id (set cs)" and "cs \<noteq> []"
  shows "verdict (tier E scope v cs' b st r con' ex') = verdict (tier E scope v cs b st r con ex)"
  using best_perm [OF assms] assms(1) by (simp add: tier_def distinct_count_def)

lemma set_filter_eq: "set xs = set ys \<Longrightarrow> set (filter P xs) = set (filter P ys)"
  by simp

lemma filter_Nil_set: "set xs = set ys \<Longrightarrow> filter P xs = [] \<longleftrightarrow> filter P ys = []"
  by (metis filter_empty_conv)

lemma supported_perm:
  assumes "set xs = set ys"
  shows "set (supported_values xs) = set (supported_values ys)"
    and "length (supported_values xs) = length (supported_values ys)"
proof -
  have f: "families xs v = families ys v" for v
    unfolding families_def using set_filter_eq [OF assms] by (metis list.set_map)
  show s: "set (supported_values xs) = set (supported_values ys)"
    using assms by (simp add: supported_values_def f)
  have "distinct (supported_values zs)" for zs by (simp add: supported_values_def)
  then show "length (supported_values xs) = length (supported_values ys)"
    using s by (metis distinct_card)
qed

lemma family_pair: "2 \<le> card (families cs v) \<Longrightarrow> \<exists>a \<in> set cs. \<exists>b \<in> set cs.
    an_numeric_value a = Some v \<and> an_numeric_value b = Some v \<and> an_independent_family a \<noteq> an_independent_family b"
proof -
  assume c: "2 \<le> card (families cs v)"
  have "finite (families cs v)" by (simp add: families_def)
  with c obtain x y where "x \<in> families cs v" "y \<in> families cs v" "x \<noteq> y"
    using card_le_Suc0_iff_eq by (metis Suc_n_not_le_n numeral_2_eq_2 order_trans)
  then show ?thesis by (auto simp: families_def)
qed

lemma tier_accepted:
  "ar_accepted (tier E scope v cs b st r con ex) \<Longrightarrow> cs \<noteq> [] \<Longrightarrow>
   \<exists>c \<in> set cs. ar_selected_attempt_id (tier E scope v cs b st r con ex) = Some (an_attempt_id c)
     \<and> ar_selected_prediction_sha256 (tier E scope v cs b st r con ex) = Some (an_prediction_sha256 c)
     \<and> ar_basis (tier E scope v cs b st r con ex) = b \<and> (\<forall>d \<in> set cs. v d = v c)"
proof -
  assume acc: "ar_accepted (tier E scope v cs b st r con ex)" and ne: "cs \<noteq> []"
  have one: "card (set (map v cs)) = 1"
    using acc by (auto simp: tier_def distinct_count_def split: if_splits)
  then obtain w where w: "set (map v cs) = {w}" by (auto simp: card_1_singleton_iff)
  have sel: "tier E scope v cs b st r con ex = selected E scope (best cs) b st con ex"
    using one by (simp add: tier_def distinct_count_def)
  have vw: "v d = w" if "d \<in> set cs" for d
    using w that by (metis image_eqI list.set_map singletonD)
  show ?thesis
    using best_mem [OF ne] vw unfolding sel by (intro bexI [of _ "best cs"]) auto
qed

text \<open>An accepted decision of one evidence tier, or of the agreement of independent families.\<close>

lemma tier_justified:
  assumes "d = tier E scope an_numeric_value (filter P (eligible_numeric cs)) basis st conflict con ex"
    and "ar_accepted d" and "filter P (eligible_numeric cs) \<noteq> []"
  shows "ar_billable d \<and> (\<exists>c \<in> set cs. an_hard_gate_pass c \<and> an_numeric_value c \<noteq> None \<and> P c
    \<and> ar_selected_attempt_id d = Some (an_attempt_id c)
    \<and> ar_selected_prediction_sha256 d = Some (an_prediction_sha256 c) \<and> ar_basis d = basis
    \<and> (\<forall>x \<in> set (eligible_numeric cs). P x \<longrightarrow> an_numeric_value x = an_numeric_value c))"
proof -
  from tier_accepted [OF assms(2) [unfolded assms(1)] assms(3)] obtain c where
    c: "c \<in> set (filter P (eligible_numeric cs))"
    "ar_selected_attempt_id d = Some (an_attempt_id c)" "ar_selected_prediction_sha256 d = Some (an_prediction_sha256 c)"
    "ar_basis d = basis" "\<forall>x \<in> set (filter P (eligible_numeric cs)). an_numeric_value x = an_numeric_value c"
    unfolding assms(1) by blast
  moreover have "ar_billable d" using assms(2) by (auto simp: assms(1) tier_def split: if_splits)
  moreover from c(1) have "c \<in> set cs" "an_hard_gate_pass c" "an_numeric_value c \<noteq> None" "P c"
    by (auto simp: eligible_numeric_def)
  moreover have "\<forall>x \<in> set (eligible_numeric cs). P x \<longrightarrow> an_numeric_value x = an_numeric_value c"
    using c(5) by simp
  ultimately show ?thesis by blast
qed

lemma agreement_justified:
  assumes "d = by_agreement E scope (eligible_numeric cs) ex" and "ar_accepted d"
  shows "ar_billable d \<and> (\<exists>c \<in> set cs. an_hard_gate_pass c \<and> an_numeric_value c \<noteq> None
    \<and> ar_selected_attempt_id d = Some (an_attempt_id c)
    \<and> ar_selected_prediction_sha256 d = Some (an_prediction_sha256 c) \<and> ar_basis d = AB_INDEPENDENT_AGREEMENT
    \<and> (\<exists>a \<in> set (eligible_numeric cs). \<exists>b \<in> set (eligible_numeric cs).
         an_numeric_value a = an_numeric_value c \<and> an_numeric_value b = an_numeric_value c
         \<and> an_independent_family a \<noteq> an_independent_family b)
    \<and> (\<forall>v. 2 \<le> card (families (eligible_numeric cs) v) \<longrightarrow> Some v = an_numeric_value c))"
proof -
  let ?es = "eligible_numeric cs"
  obtain v where v: "supported_values ?es = [v]"
    using assms by (auto simp: by_agreement_def split: list.splits)
  let ?ag = "filter (\<lambda>c. an_numeric_value c = Some v \<and> an_independent_family c \<in> families ?es v) ?es"
  have d: "d = selected E scope (best ?ag) AB_INDEPENDENT_AGREEMENT VS_CROSS_MODEL_VERIFIED ?es ex"
    by (simp add: assms(1) by_agreement_def v)
  have "v \<in> set (supported_values ?es)" by (simp add: v)
  then have two: "2 \<le> card (families ?es v)" by (simp add: supported_values_def)
  note pair = family_pair [OF two]
  then have "?ag \<noteq> []" by (auto simp: filter_empty_conv families_def)
  then have b: "best ?ag \<in> set ?ag" by (rule best_mem)
  then have bv: "an_numeric_value (best ?ag) = Some v" and mem: "best ?ag \<in> set cs" "an_hard_gate_pass (best ?ag)"
    by (simp_all add: eligible_numeric_def)
  have only: "w = v" if two': "2 \<le> card (families ?es w)" for w
  proof -
    obtain a where "a \<in> set ?es" "an_numeric_value a = Some w" using family_pair [OF two'] by blast
    then have "w \<in> (\<lambda>c. the (an_numeric_value c)) ` set ?es" by force
    then have "w \<in> set (supported_values ?es)" using two' by (simp add: supported_values_def)
    then show ?thesis by (simp add: v)
  qed
  have "\<exists>a \<in> set ?es. \<exists>b \<in> set ?es. an_numeric_value a = an_numeric_value (best ?ag)
      \<and> an_numeric_value b = an_numeric_value (best ?ag) \<and> an_independent_family a \<noteq> an_independent_family b"
    using pair bv by metis
  moreover have "\<forall>w. 2 \<le> card (families ?es w) \<longrightarrow> Some w = an_numeric_value (best ?ag)"
    unfolding bv using only by blast
  moreover have "ar_billable d" "ar_selected_attempt_id d = Some (an_attempt_id (best ?ag))"
      "ar_selected_prediction_sha256 d = Some (an_prediction_sha256 (best ?ag))" "ar_basis d = AB_INDEPENDENT_AGREEMENT"
    unfolding d by simp_all
  moreover have "an_numeric_value (best ?ag) \<noteq> None" using bv by simp
  ultimately show ?thesis using mem by blast
qed

lemma evidence_absent:
  "filter (\<lambda>c. f c = Some True) xs = [] \<Longrightarrow> \<not> list_ex (\<lambda>c. f c = Some False) xs \<Longrightarrow> \<forall>x \<in> set xs. f x = None"
  for f :: "arbitration_candidate \<Rightarrow> bool option"
proof
  fix x assume "filter (\<lambda>c. f c = Some True) xs = []" "\<not> list_ex (\<lambda>c. f c = Some False) xs" "x \<in> set xs"
  then show "f x = None" by (cases "f x") (auto simp: filter_empty_conv list_ex_iff)
qed

text \<open>Permuting the candidates changes neither.\<close>

lemma agreement_perm:
  assumes e: "set es' = set es" and inj: "inj_on an_attempt_id (set es)"
  shows "verdict (by_agreement E scope es' x) = verdict (by_agreement E scope es y)"
proof -
  note sp = supported_perm [OF e]
  consider "supported_values es = []" | v where "supported_values es = [v]"
    | u v vs where "supported_values es = u # v # vs"
    by (metis list.exhaust)
  then show ?thesis
  proof cases
    case 1
    with sp(2) show ?thesis by (simp add: by_agreement_def)
  next
    case (2 v)
    with sp have v': "supported_values es' = [v]"
      by (cases "supported_values es'") (auto simp: length_Suc_conv)
    have fam: "families es' v = families es v"
      unfolding families_def by (metis set_filter_eq [OF e] list.set_map)
    let ?P = "\<lambda>c. an_numeric_value c = Some v \<and> an_independent_family c \<in> families es v"
    have "v \<in> set (supported_values es)" by (simp add: 2)
    then have "2 \<le> card (families es v)" by (simp add: supported_values_def)
    from family_pair [OF this] have ne: "filter ?P es \<noteq> []" by (auto simp: filter_empty_conv families_def)
    have "inj_on an_attempt_id (set (filter ?P es))" using inj by (rule inj_on_subset) auto
    from best_perm [OF set_filter_eq [OF e] this ne] show ?thesis
      by (simp add: by_agreement_def 2 v' fam)
  next
    case (3 u v vs)
    then have "length (supported_values es') \<ge> 2" using sp(2) by simp
    then obtain a b rest where "supported_values es' = a # b # rest"
      by (metis Suc_le_length_iff numeral_2_eq_2)
    with 3 show ?thesis by (simp add: by_agreement_def)
  qed
qed

lemma first_tier_perm:
  assumes e: "set es' = set es" and inj: "inj_on an_attempt_id (set es)"
  shows "verdict (first_tier E scope ts es' x) = verdict (first_tier E scope ts es y)"
proof (induction ts)
  case Nil
  then show ?case by simp
next
  case (Cons t ts)
  obtain b P where t: "t = (b, P)" by fastforce
  have sub: "inj_on an_attempt_id (set (filter P es))" using inj by (rule inj_on_subset) auto
  show ?case
  proof (cases "filter P es = []")
    case True
    with Cons filter_Nil_set [OF e, of P] show ?thesis by (simp add: t)
  next
    case False
    with tier_perm [OF set_filter_eq [OF e] sub False] filter_Nil_set [OF e, of P]
    show ?thesis by (simp add: t)
  qed
qed

section \<open>Properties\<close>

text \<open>Fact: numeric arbitration is evidence-first. An accepted decision selects a candidate that passed its
  hard gate and has a value; no eligible candidate's authority check contradicts a selection made
  without authority; and the basis is real: authority, native and specialist selections agree with
  every other candidate having that evidence, and a selection by agreement has a second candidate of
  another independent family with the same value, no other value having two families. Billable
  decisions are exactly the accepted ones.\<close>

theorem numeric_selection_justified:
  assumes "d = arbitrate_numeric E scope cs req" and "ar_accepted d"
  shows "ar_billable d \<and> (\<exists>c \<in> set cs. an_hard_gate_pass c \<and> an_numeric_value c \<noteq> None
    \<and> ar_selected_attempt_id d = Some (an_attempt_id c)
    \<and> ar_selected_prediction_sha256 d = Some (an_prediction_sha256 c)
    \<and> (ar_basis d = AB_AUTHORITY_EXACT \<and> an_authority_exact c = Some True
         \<and> (\<forall>x \<in> set (eligible_numeric cs). an_authority_exact x = Some True \<longrightarrow> an_numeric_value x = an_numeric_value c)
       \<or> \<not> req \<and> (\<forall>x \<in> set (eligible_numeric cs). an_authority_exact x = None)
         \<and> (ar_basis d = AB_NATIVE_EXACT \<and> an_native_exact c = Some True
             \<and> (\<forall>x \<in> set (eligible_numeric cs). an_native_exact x = Some True \<longrightarrow> an_numeric_value x = an_numeric_value c)
           \<or> (\<forall>x \<in> set (eligible_numeric cs). an_native_exact x = None)
             \<and> (ar_basis d = AB_PIXEL_SPECIALIST \<and> an_pixel_specialist_exact c
                 \<and> (\<forall>x \<in> set (eligible_numeric cs). an_pixel_specialist_exact x \<longrightarrow> an_numeric_value x = an_numeric_value c)
               \<or> ar_basis d = AB_INDEPENDENT_AGREEMENT
                 \<and> (\<exists>a \<in> set (eligible_numeric cs). \<exists>b \<in> set (eligible_numeric cs).
                      an_numeric_value a = an_numeric_value c \<and> an_numeric_value b = an_numeric_value c
                      \<and> an_independent_family a \<noteq> an_independent_family b)
                 \<and> (\<forall>v. 2 \<le> card (families (eligible_numeric cs) v) \<longrightarrow> Some v = an_numeric_value c)))))"
proof -
  let ?es = "eligible_numeric cs" and ?ex = "hard_gate_failures cs"
  let ?au = "filter (\<lambda>c. an_authority_exact c = Some True) ?es"
  let ?na = "filter (\<lambda>c. an_native_exact c = Some True) ?es"
  let ?sp = "filter an_pixel_specialist_exact ?es"
  have ne: "?es \<noteq> []" using assms by (auto simp: arbitrate_numeric_def Let_def)
  show ?thesis
  proof (cases "?au = []")
    case False
    then have d: "d = tier E scope an_numeric_value ?au AB_AUTHORITY_EXACT VS_AUTHORITY_VERIFIED ''authority_conflict'' ?es ?ex"
      using assms(1) ne by (simp add: arbitrate_numeric_def Let_def)
    from tier_justified [OF d assms(2) False] show ?thesis by blast
  next
    case au: True
    have af: "\<not> list_ex (\<lambda>c. an_authority_exact c = Some False) ?es" and nr: "\<not> req"
      using assms ne au by (auto simp: arbitrate_numeric_def Let_def split: if_splits)
    note noauth = evidence_absent [OF au af]
    show ?thesis
    proof (cases "?na = []")
      case False
      then have d: "d = tier E scope an_numeric_value ?na AB_NATIVE_EXACT VS_VERIFIED ''native_source_conflict'' ?es ?ex"
        using assms(1) ne au af nr by (simp add: arbitrate_numeric_def Let_def)
      from tier_justified [OF d assms(2) False] noauth nr show ?thesis by blast
    next
      case na: True
      have nf: "\<not> list_ex (\<lambda>c. an_native_exact c = Some False) ?es"
        using assms ne au af nr na by (auto simp: arbitrate_numeric_def Let_def split: if_splits)
      note nonat = evidence_absent [OF na nf]
      have rest: "d = (if ?sp \<noteq> [] then tier E scope an_numeric_value ?sp AB_PIXEL_SPECIALIST VS_VERIFIED
          ''pixel_specialist_conflict'' ?es ?ex else by_agreement E scope ?es ?ex)"
        using assms(1) ne au af nr na nf by (simp add: arbitrate_numeric_def Let_def)
      show ?thesis
      proof (cases "?sp = []")
        case False
        with rest have d: "d = tier E scope an_numeric_value ?sp AB_PIXEL_SPECIALIST VS_VERIFIED ''pixel_specialist_conflict'' ?es ?ex"
          by simp
        from tier_justified [OF d assms(2) False] noauth nonat nr show ?thesis by blast
      next
        case True
        with rest have "d = by_agreement E scope ?es ?ex" by simp
        from agreement_justified [OF this assms(2)] noauth nonat nr show ?thesis by blast
      qed
    qed
  qed
qed

definition demo_arb :: "string \<Rightarrow> string \<Rightarrow> rat \<Rightarrow> arbitration_candidate" where
  "demo_arb i fam v = \<lparr>an_attempt_id = i, an_prediction_sha256 = replicate 64 (CHR ''0''), an_hard_gate_pass = True,
     an_numeric_value = Some v, an_structure_fingerprint = None, an_independent_family = fam,
     an_authority_exact = None, an_native_exact = None, an_pixel_specialist_exact = False,
     an_source_geometry_exact = False, an_table_cell_map_exact = False, an_downstream_consistent = False,
     an_source_coverage = 1, an_structure_score = 1, an_cross_model_agreement = 1, an_runtime_reliability = 1\<rparr>"

definition demo_arb_env :: renv where
  "demo_arb_env = \<lparr>sha256 = (\<lambda>s. ''h''), float_repr = (\<lambda>r. ''f''), isoformat = (\<lambda>t. ''t'')\<rparr>"

lemma demo_arb_supported: "supported_values [demo_arb ''a'' ''x'' 7, demo_arb ''b'' ''x'' 8, demo_arb ''c'' ''y'' 7] = [7]"
  by (simp add: supported_values_def families_def demo_arb_def fromkeys_def)

lemma demo_arb_accepted:
  "ar_accepted (arbitrate_numeric demo_arb_env ''s''
     [demo_arb ''a'' ''x'' 7, demo_arb ''b'' ''x'' 8, demo_arb ''c'' ''y'' 7] False)"
proof -
  have "eligible_numeric [demo_arb ''a'' ''x'' 7, demo_arb ''b'' ''x'' 8, demo_arb ''c'' ''y'' 7]
      = [demo_arb ''a'' ''x'' 7, demo_arb ''b'' ''x'' 8, demo_arb ''c'' ''y'' 7]"
    by (simp add: eligible_numeric_def demo_arb_def)
  moreover have "an_authority_exact (demo_arb i f v) = None" "an_native_exact (demo_arb i f v) = None"
    "\<not> an_pixel_specialist_exact (demo_arb i f v)" for i f v by (simp_all add: demo_arb_def)
  ultimately show ?thesis using demo_arb_supported by (simp add: arbitrate_numeric_def by_agreement_def Let_def)
qed

theorem numeric_selection_justified_witness:
  "ar_billable (arbitrate_numeric demo_arb_env ''s''
     [demo_arb ''a'' ''x'' 7, demo_arb ''b'' ''x'' 8, demo_arb ''c'' ''y'' 7] False)"
  using numeric_selection_justified [OF refl demo_arb_accepted] by (rule conjunct1)

text \<open>Fact: arbitration does not depend on the order of the candidates. Permuting candidates with distinct
  attempt ids changes neither the selected attempt nor the basis, the state, the acceptance or the
  reasons of a numeric or structural decision.\<close>

theorem arbitration_order_independent:
  assumes "mset cs' = mset cs" and "distinct (map an_attempt_id cs)"
  shows "verdict (arbitrate_numeric E scope cs' req) = verdict (arbitrate_numeric E scope cs req)
    \<and> verdict (arbitrate_structure E scope cs') = verdict (arbitrate_structure E scope cs)"
proof -
  have s: "set cs' = set cs" using assms(1) by (metis set_mset_mset)
  have inj: "inj_on an_attempt_id (set cs)" using assms(2) by (simp add: distinct_map)
  let ?es = "eligible_numeric cs" and ?es' = "eligible_numeric cs'"
  have e: "set ?es' = set ?es" using s by (simp add: eligible_numeric_def)
  have einj: "inj_on an_attempt_id (set ?es)"
    using inj by (rule inj_on_subset) (auto simp: eligible_numeric_def)
  have sub: "inj_on an_attempt_id (set (filter P ?es))" for P
    using einj by (rule inj_on_subset) auto
  have fe: "set (filter P ?es') = set (filter P ?es)" "filter P ?es' = [] \<longleftrightarrow> filter P ?es = []" for P
    using set_filter_eq [OF e] filter_Nil_set [OF e] by blast+
  have ex: "list_ex P ?es' = list_ex P ?es" for P using e by (simp add: list_ex_iff)
  have emp: "?es' = [] \<longleftrightarrow> ?es = []" using e by (metis set_empty)
  have num: "verdict (arbitrate_numeric E scope cs' req) = verdict (arbitrate_numeric E scope cs req)"
    unfolding arbitrate_numeric_def Let_def emp fe(2) ex if_distrib [of verdict]
    by (intro if_cong refl tier_perm [OF fe(1) sub] agreement_perm [OF e einj]) simp_all
  let ?ss = "eligible_structure cs" and ?ss' = "eligible_structure cs'"
  have se: "set ?ss' = set ?ss" using s by (simp add: eligible_structure_def)
  have "inj_on an_attempt_id (set ?ss)"
    using inj by (rule inj_on_subset) (auto simp: eligible_structure_def)
  moreover have "?ss' = [] \<longleftrightarrow> ?ss = []" using se by (metis set_empty)
  ultimately have "verdict (arbitrate_structure E scope cs') = verdict (arbitrate_structure E scope cs)"
    using first_tier_perm [OF se] by (simp add: arbitrate_structure_def Let_def)
  with num show ?thesis ..
qed

theorem arbitration_order_independent_witness:
  "verdict (arbitrate_numeric demo_arb_env ''s'' [demo_arb ''b'' ''y'' 7, demo_arb ''a'' ''x'' 7] False)
   = verdict (arbitrate_numeric demo_arb_env ''s'' [demo_arb ''a'' ''x'' 7, demo_arb ''b'' ''y'' 7] False)"
  using arbitration_order_independent [of "[demo_arb ''b'' ''y'' 7, demo_arb ''a'' ''x'' 7]"
      "[demo_arb ''a'' ''x'' 7, demo_arb ''b'' ''y'' 7]" demo_arb_env "''s''" False]
  by (simp add: demo_arb_def)

end
