(* ===== verification/Routing.thy ===== *)
theory Routing
  imports Models StateMachine
begin

text \<open>
  \<^verbatim>\<open>akc_parallel_runtime/routing.py\<close>: the parser cascade, the promotion gate of a new router
  and the adaptive router. The policy version of the router is an argument of \<open>route\<close>.
\<close>

section \<open>Data\<close>

datatype route_tier = RT_NATIVE | RT_FAST | RT_PRECISION | RT_SPECIALIST | RT_AUTHORITY

fun tier_order :: "route_tier \<Rightarrow> nat" where
  "tier_order RT_NATIVE = 0"
| "tier_order RT_FAST = 1"
| "tier_order RT_PRECISION = 2"
| "tier_order RT_SPECIALIST = 3"
| "tier_order RT_AUTHORITY = 4"

datatype router_stage = RG_DOCUMENT | RG_PAGE | RG_REGION | RG_RECOVERY

datatype cascade_stage =
  CG_NATIVE | CG_FAST | CG_PRECISION | CG_SPECIALIST | CG_AUTHORITY | CG_UNRESOLVED

record recipe_profile =
  rp_recipe_id :: string
  rp_model_revision :: string
  rp_runtime_image_digest :: string
  rp_tier :: route_tier
  rp_capabilities :: "string set"
  rp_supported_languages :: "string set"
  rp_external_provider :: bool
  rp_authority_capable :: bool
  rp_independent_family :: string

definition mk_recipe_profile :: "recipe_profile \<Rightarrow> pyerr + recipe_profile" where
  "mk_recipe_profile r = require_all
     [(rp_recipe_id r \<noteq> [] \<and> rp_model_revision r \<noteq> [] \<and> rp_runtime_image_digest r \<noteq> [],
        ValueError ''recipe identity fields are required''),
      (rp_independent_family r \<noteq> [], ValueError ''independent_family is required for differential routing'')] r"

record quality_estimate =
  qe_pass_hard_gate :: rat
  qe_numeric_exact :: rat
  qe_row_complete :: rat
  qe_repetition_probability :: rat
  qe_timeout_probability :: rat
  qe_oom_probability :: rat
  qe_expected_latency_seconds :: rat
  qe_expected_cost :: rat

definition mk_quality_estimate :: "quality_estimate \<Rightarrow> pyerr + quality_estimate" where
  "mk_quality_estimate q = require_all
     [(list_all (\<lambda>v. 0 \<le> v \<and> v \<le> 1) [qe_pass_hard_gate q, qe_numeric_exact q, qe_row_complete q,
         qe_repetition_probability q, qe_timeout_probability q, qe_oom_probability q],
        ValueError ''quality probabilities must be between 0 and 1''),
      (\<not> (qe_expected_latency_seconds q < 0 \<or> qe_expected_cost q < 0),
        ValueError ''latency and cost estimates cannot be negative'')] q"

record route_request =
  rq_stage :: router_stage
  rq_required_capabilities :: "string set"
  rq_language :: string
  rq_high_risk :: bool
  rq_private_processing :: bool
  rq_external_api_allowed :: bool
  rq_financial_numeric :: bool
  rq_long_complex_table :: bool
  rq_photographed_low_quality :: bool
  rq_benchmark_critical :: bool
  rq_production_canary :: bool
  rq_prior_template_failure :: bool
  rq_excluded_recipe_ids :: "string set"
  rq_excluded_worker_ids :: "string set"
  rq_excluded_independent_families :: "string set"

definition mk_route_request :: "route_request \<Rightarrow> pyerr + route_request" where
  "mk_route_request r = require_all
     [(rq_language r \<noteq> [], ValueError ''route language is required''),
      (\<not> (rq_private_processing r \<and> rq_external_api_allowed r),
        ValueError ''private processing cannot allow external APIs'')] r"

record route_candidate =
  rc_recipe :: recipe_profile
  rc_worker :: worker_snapshot
  rc_estimate :: quality_estimate
  rc_objective_score :: rat

record route_decision =
  rd_primary :: route_candidate
  rd_secondary :: "route_candidate option"
  rd_speculative :: bool
  rd_reason_codes :: "string list"
  rd_policy_version :: string

section \<open>CascadeController\<close>

record cascade_decision =
  ca_stage :: cascade_stage
  ca_terminal :: bool
  ca_ready_for_arbitration :: bool
  ca_reason_code :: string

definition cascade_order :: "cascade_stage list" where
  "cascade_order = [CG_NATIVE, CG_FAST, CG_PRECISION, CG_SPECIALIST, CG_AUTHORITY]"

text \<open>\<open>self._ORDER[self._ORDER.index(current) + 1:]\<close>.\<close>

definition later_stages :: "cascade_stage \<Rightarrow> cascade_stage list" where
  "later_stages current = drop 1 (dropWhile (\<lambda>s. s \<noteq> current) cascade_order)"

definition advance ::
  "cascade_stage \<Rightarrow> bool \<Rightarrow> bool \<Rightarrow> bool \<Rightarrow> cascade_stage set \<Rightarrow> cascade_decision" where
  "advance current hard_gates authority_required authority_exact avail =
    (if current = CG_UNRESOLVED then \<lparr>ca_stage = current, ca_terminal = True,
        ca_ready_for_arbitration = False, ca_reason_code = ''already_unresolved''\<rparr>
     else if hard_gates \<and> (\<not> authority_required \<or> authority_exact)
     then \<lparr>ca_stage = current, ca_terminal = True, ca_ready_for_arbitration = True,
           ca_reason_code = ''candidate_ready_for_arbitration''\<rparr>
     else if hard_gates \<and> authority_required \<and> \<not> authority_exact
     then (if CG_AUTHORITY \<in> avail
           then \<lparr>ca_stage = CG_AUTHORITY, ca_terminal = False, ca_ready_for_arbitration = False,
                 ca_reason_code = ''authority_verification_required''\<rparr>
           else \<lparr>ca_stage = CG_UNRESOLVED, ca_terminal = True, ca_ready_for_arbitration = False,
                 ca_reason_code = ''authority_unavailable''\<rparr>)
     else (case filter (\<lambda>s. s \<in> avail) (later_stages current) of
         [] \<Rightarrow> \<lparr>ca_stage = CG_UNRESOLVED, ca_terminal = True, ca_ready_for_arbitration = False,
                ca_reason_code = ''cascade_exhausted''\<rparr>
       | s # _ \<Rightarrow> \<lparr>ca_stage = s, ca_terminal = False, ca_ready_for_arbitration = False,
                ca_reason_code = ''hard_gate_escalation''\<rparr>))"

section \<open>evaluate_router_promotion\<close>

record promotion_evidence =
  pe_shadow_sample_count :: int
  pe_candidate_critical_failures :: int
  pe_baseline_verified_quality :: rat
  pe_candidate_verified_quality :: rat
  pe_baseline_cost :: rat
  pe_candidate_cost :: rat
  pe_baseline_latency :: rat
  pe_candidate_latency :: rat
  pe_canary_percent :: int
  pe_low_risk_only :: bool
  pe_rollback_ready :: bool

definition mk_promotion_evidence :: "promotion_evidence \<Rightarrow> pyerr + promotion_evidence" where
  "mk_promotion_evidence e = require_all
     [(\<not> (pe_shadow_sample_count e < 0 \<or> pe_candidate_critical_failures e < 0),
        ValueError ''router promotion counts cannot be negative''),
      (list_all (\<lambda>v. 0 \<le> v \<and> v \<le> 1) [pe_baseline_verified_quality e, pe_candidate_verified_quality e],
        ValueError ''router quality values must be between zero and one''),
      (list_all (\<lambda>v. 0 \<le> v) [pe_baseline_cost e, pe_candidate_cost e, pe_baseline_latency e, pe_candidate_latency e],
        ValueError ''router cost and latency cannot be negative''),
      (pe_canary_percent e \<in> {1, 5, 20},
        ValueError ''router canary must follow the 1, 5, or 20 percent ladder'')] e"

record promotion_decision =
  pn_promote :: bool
  pn_reason_codes :: "string list"

definition evaluate_router_promotion :: "promotion_evidence \<Rightarrow> int \<Rightarrow> pyerr + promotion_decision" where
  "evaluate_router_promotion e minimum =
    (if minimum < 1 then Inl (ValueError ''minimum shadow sample count must be positive'')
     else let reasons =
         (if pe_shadow_sample_count e < minimum then [''shadow_sample_insufficient''] else []) @
         (if pe_candidate_critical_failures e \<noteq> 0 then [''candidate_critical_failure''] else []) @
         (if pe_candidate_verified_quality e < pe_baseline_verified_quality e
          then [''verified_quality_regression''] else []) @
         (if \<not> (pe_candidate_cost e < pe_baseline_cost e \<or> pe_candidate_latency e < pe_baseline_latency e)
          then [''cost_and_latency_not_improved''] else []) @
         (if \<not> pe_low_risk_only e then [''canary_scope_not_low_risk''] else []) @
         (if \<not> pe_rollback_ready e then [''rollback_not_ready''] else [])
       in Inr \<lparr>pn_promote = (reasons = []), pn_reason_codes = sort reasons\<rparr>)"

section \<open>AdaptiveRouter\<close>

definition route_compatible :: "route_request \<Rightarrow> recipe_profile \<Rightarrow> worker_snapshot \<Rightarrow> bool" where
  "route_compatible q r w \<longleftrightarrow>
     \<not> (rp_recipe_id r \<in> rq_excluded_recipe_ids q \<or> ws_worker_id w \<in> rq_excluded_worker_ids q
        \<or> rp_independent_family r \<in> rq_excluded_independent_families q)
     \<and> ws_state w \<in> {WS_HEALTHY, WS_DEGRADED}
     \<and> ws_model_revision w = rp_model_revision r
     \<and> ws_runtime_image_digest w = rp_runtime_image_digest r
     \<and> rq_required_capabilities q \<subseteq> rp_capabilities r
     \<and> rp_capabilities r \<subseteq> ws_capabilities w
     \<and> (rq_language q \<in> rp_supported_languages r \<or> ''multilingual'' \<in> rp_supported_languages r)
     \<and> \<not> (rp_external_provider r \<and> (rq_private_processing q \<or> \<not> rq_external_api_allowed q))"

definition objective :: "route_request \<Rightarrow> quality_estimate \<Rightarrow> worker_snapshot \<Rightarrow> rat" where
  "objective q e w =
    (let failure_risk = 1 - qe_pass_hard_gate e + qe_repetition_probability e + qe_timeout_probability e
           + qe_oom_probability e;
         s = (if rq_high_risk q then 7 else 4) * qe_pass_hard_gate e
           + (if rq_financial_numeric q then 4 else 15/10) * qe_numeric_exact e
           + (if rq_long_complex_table q then 25/10 else 1) * qe_row_complete e
           + ws_semantic_score w / 100
           - (if rq_high_risk q then 15/100 else 6/10) * qe_expected_cost e
           - (if rq_high_risk q then 2/1000 else 8/1000) * qe_expected_latency_seconds e
           - 2 * failure_risk
     in py_round 12 (if ws_warm w then s + 1/10 else s))"

definition speculation_reasons :: "route_request \<Rightarrow> route_candidate list \<Rightarrow> string list" where
  "speculation_reasons q ordered = sort
    ((if rq_financial_numeric q then [''financial_numeric''] else []) @
     (if rq_long_complex_table q then [''long_complex_table''] else []) @
     (if rq_photographed_low_quality q then [''photographed_low_quality''] else []) @
     (if rq_prior_template_failure q then [''prior_template_failure''] else []) @
     (if rq_benchmark_critical q then [''benchmark_critical''] else []) @
     (if rq_production_canary q then [''production_canary''] else []) @
     (case ordered of [] \<Rightarrow> []
      | a # _ \<Rightarrow> if 35/100 \<le> qe_pass_hard_gate (rc_estimate a) \<and> qe_pass_hard_gate (rc_estimate a) \<le> 75/100
               then [''quality_estimator_uncertain''] else []) @
     (case ordered of a # b # _ \<Rightarrow>
         if \<bar>rc_objective_score a - rc_objective_score b\<bar> \<le> 25/100 then [''candidate_win_rates_close''] else []
      | _ \<Rightarrow> []))"

definition route_candidates ::
  "route_request \<Rightarrow> recipe_profile list \<Rightarrow> worker_snapshot list \<Rightarrow> (string \<times> string \<rightharpoonup> quality_estimate)
   \<Rightarrow> route_candidate list" where
  "route_candidates q recipes ws estimates = concat (map (\<lambda>r. concat (map (\<lambda>w.
     if \<not> route_compatible q r w then []
     else (case estimates (rp_recipe_id r, ws_worker_id w) of None \<Rightarrow> []
       | Some e \<Rightarrow> [\<lparr>rc_recipe = r, rc_worker = w, rc_estimate = e, rc_objective_score = objective q e w\<rparr>]))
     ws)) recipes)"

definition route_key :: "route_candidate \<Rightarrow> rat \<times> nat \<times> string \<times> string" where
  "route_key c = (- rc_objective_score c, tier_order (rp_tier (rc_recipe c)), rp_recipe_id (rc_recipe c),
     ws_worker_id (rc_worker c))"

definition independent_of :: "route_candidate \<Rightarrow> route_candidate \<Rightarrow> bool" where
  "independent_of a c \<longleftrightarrow> rp_independent_family (rc_recipe c) \<noteq> rp_independent_family (rc_recipe a)
     \<and> ws_worker_id (rc_worker c) \<noteq> ws_worker_id (rc_worker a)"

definition route ::
  "string \<Rightarrow> route_request \<Rightarrow> recipe_profile list \<Rightarrow> worker_snapshot list
   \<Rightarrow> (string \<times> string \<rightharpoonup> quality_estimate) \<Rightarrow> pyerr + route_decision" where
  "route version q recipes ws estimates =
    (let ordered = sort_key route_key (route_candidates q recipes ws estimates)
     in case ordered of
       [] \<Rightarrow> Inl RoutingUnavailable
     | a # rest \<Rightarrow>
         let reasons = speculation_reasons q ordered;
             secondary = List.find (independent_of a) rest;
             speculative = (reasons \<noteq> [] \<and> secondary \<noteq> None)
         in Inr \<lparr>rd_primary = a, rd_secondary = (if speculative then secondary else None),
              rd_speculative = speculative, rd_reason_codes = (if speculative then reasons else []),
              rd_policy_version = version\<rparr>)"

section \<open>The cascade climbs\<close>

fun stage_rank :: "cascade_stage \<Rightarrow> nat" where
  "stage_rank CG_NATIVE = 0"
| "stage_rank CG_FAST = 1"
| "stage_rank CG_PRECISION = 2"
| "stage_rank CG_SPECIALIST = 3"
| "stage_rank CG_AUTHORITY = 4"
| "stage_rank CG_UNRESOLVED = 5"

lemma later_stages_rank: "s \<in> set (later_stages c) \<Longrightarrow> stage_rank c < stage_rank s"
  by (cases c) (auto simp: later_stages_def cascade_order_def)

text \<open>A step of the cascade after a candidate that failed its hard gates.\<close>

definition escalates :: "cascade_stage \<Rightarrow> cascade_stage \<Rightarrow> bool" where
  "escalates a b \<longleftrightarrow> a \<noteq> CG_UNRESOLVED \<and> (b = CG_UNRESOLVED \<or> b \<in> set (later_stages a))"

interpretation cascade: ranked_machine stage_rank escalates 5
proof
  show "escalates a b \<Longrightarrow> stage_rank a < stage_rank b" for a b
    using later_stages_rank [of b a] by (cases "b = CG_UNRESOLVED") (cases a; simp add: escalates_def)+
  show "stage_rank a \<le> 5" for a by (cases a) auto
qed

lemma filter_hd_mem: "filter P xs = y # ys \<Longrightarrow> y \<in> set xs \<and> P y"
  by (metis filter_eq_Cons_iff in_set_conv_decomp)

lemma advance_failed_escalates:
  assumes "current \<noteq> CG_UNRESOLVED"
  shows "escalates current (ca_stage (advance current False req exact avail))"
proof (cases "filter (\<lambda>s. s \<in> avail) (later_stages current)")
  case Nil
  with assms show ?thesis by (simp add: advance_def escalates_def)
next
  case (Cons s ss)
  then have "s \<in> set (later_stages current)" using filter_hd_mem by fast
  with assms Cons show ?thesis by (simp add: advance_def escalates_def)
qed

text \<open>The stages a run of the cascade visits, its first argument giving the outcomes
  \<open>(hard_gates_passed, authority_exact)\<close> of the candidates; it stops at a terminal decision.\<close>

fun cascade_run :: "(bool \<times> bool) list \<Rightarrow> bool \<Rightarrow> cascade_stage set \<Rightarrow> cascade_stage \<Rightarrow> cascade_stage list" where
  "cascade_run [] req avail current = [current]"
| "cascade_run ((gates, exact) # os) req avail current =
     (let d = advance current gates req exact avail
      in if ca_terminal d then (if ca_stage d = current then [current] else [current, ca_stage d])
         else current # cascade_run os req avail (ca_stage d))"

lemma cascade_run_hd: "\<exists>rest. cascade_run os req avail current = current # rest"
  by (cases os) (auto simp: Let_def)


section \<open>Routes\<close>

lemma route_candidates_mem:
  "c \<in> set (route_candidates q recipes ws estimates) \<longleftrightarrow>
     rc_recipe c \<in> set recipes \<and> rc_worker c \<in> set ws \<and> route_compatible q (rc_recipe c) (rc_worker c)
     \<and> estimates (rp_recipe_id (rc_recipe c), ws_worker_id (rc_worker c)) = Some (rc_estimate c)
     \<and> rc_objective_score c = objective q (rc_estimate c) (rc_worker c)"
proof
  assume "c \<in> set (route_candidates q recipes ws estimates)"
  then show "rc_recipe c \<in> set recipes \<and> rc_worker c \<in> set ws \<and> route_compatible q (rc_recipe c) (rc_worker c)
     \<and> estimates (rp_recipe_id (rc_recipe c), ws_worker_id (rc_worker c)) = Some (rc_estimate c)
     \<and> rc_objective_score c = objective q (rc_estimate c) (rc_worker c)"
    by (auto simp: route_candidates_def split: if_splits option.splits)
next
  assume a: "rc_recipe c \<in> set recipes \<and> rc_worker c \<in> set ws \<and> route_compatible q (rc_recipe c) (rc_worker c)
     \<and> estimates (rp_recipe_id (rc_recipe c), ws_worker_id (rc_worker c)) = Some (rc_estimate c)
     \<and> rc_objective_score c = objective q (rc_estimate c) (rc_worker c)"
  then have "c = \<lparr>rc_recipe = rc_recipe c, rc_worker = rc_worker c, rc_estimate = rc_estimate c,
      rc_objective_score = objective q (rc_estimate c) (rc_worker c)\<rparr>" by simp
  with a show "c \<in> set (route_candidates q recipes ws estimates)"
    unfolding route_candidates_def by (auto intro!: bexI [of _ "rc_recipe c"] bexI [of _ "rc_worker c"])
qed

lemma find_Some_mem: "List.find P xs = Some y \<Longrightarrow> y \<in> set xs \<and> P y"
  by (metis find_Some_iff nth_mem)

section \<open>Properties\<close>

text \<open>One escalation climbs; a run of failures is a chain of escalations.\<close>

lemma advance_climbs:
  assumes d_def: "d = advance current gates req exact avail" and going: "\<not> ca_terminal d"
  shows "ca_stage d \<in> avail \<and> \<not> ca_ready_for_arbitration d
      \<and> (current \<noteq> CG_AUTHORITY \<longrightarrow> stage_rank current < stage_rank (ca_stage d))"
proof (cases "gates")
  case True
  with going have s: "ca_stage d = CG_AUTHORITY" "CG_AUTHORITY \<in> avail" "\<not> ca_ready_for_arbitration d" "current \<noteq> CG_UNRESOLVED"
    by (auto simp: advance_def d_def split: if_splits)
  then have "current \<noteq> CG_AUTHORITY \<longrightarrow> stage_rank current < stage_rank (ca_stage d)"
    by (cases current) simp_all
  with s show ?thesis by simp
next
  case False
  then obtain s ss where f: "filter (\<lambda>s. s \<in> avail) (later_stages current) = s # ss"
    using going by (auto simp: advance_def d_def split: list.splits if_splits)
  with False going have e: "ca_stage d = s" "\<not> ca_ready_for_arbitration d" by (auto simp: advance_def d_def split: if_splits)
  with filter_hd_mem [OF f] later_stages_rank show ?thesis by auto
qed

lemma cascade_run_escalates:
  "list_all (\<lambda>c. \<not> fst c) os \<Longrightarrow> successively escalates (cascade_run os req avail c)"
proof (induction os arbitrary: c)
  case Nil
  then show ?case by simp
next
  case (Cons o' os)
  obtain g x where o': "o' = (g, x)" by fastforce
  with Cons.prems have g: "\<not> g" by simp
  let ?e = "advance c g req x avail"
  show ?case
  proof (cases "c = CG_UNRESOLVED")
    case True
    then show ?thesis by (simp add: o' advance_def)
  next
    case False
    have esc: "escalates c (ca_stage ?e)" using advance_failed_escalates [OF False] g by simp
    show ?thesis
    proof (cases "ca_terminal ?e")
      case True
      with esc show ?thesis by (simp add: o' Let_def)
    next
      case nt: False
      obtain rest where "cascade_run os req avail (ca_stage ?e) = ca_stage ?e # rest"
        using cascade_run_hd by blast
      with Cons.IH [of "ca_stage ?e"] Cons.prems nt esc show ?thesis by (simp add: o' Let_def)
    qed
  qed
qed

text \<open>Fact: the cascade makes progress. Before the authority stage is reached every decision that does not
  end the cascade moves to a strictly later, available stage; a candidate goes to arbitration exactly
  when it passed its hard gates and, where authority is required, is exact; and a cascade whose
  candidates all fail their gates visits each stage at most once and ends after at most five steps.\<close>

theorem cascade_progress:
  "(let d = advance current gates req exact avail
    in (\<not> ca_terminal d \<longrightarrow> ca_stage d \<in> avail \<and> \<not> ca_ready_for_arbitration d
          \<and> (current \<noteq> CG_AUTHORITY \<longrightarrow> stage_rank current < stage_rank (ca_stage d)))
      \<and> (ca_ready_for_arbitration d \<longleftrightarrow> current \<noteq> CG_UNRESOLVED \<and> gates \<and> (\<not> req \<or> exact)))
   \<and> (list_all (\<lambda>c. \<not> fst c) os \<longrightarrow> distinct (cascade_run os req avail current)
        \<and> length (cascade_run os req avail current) \<le> 6)"
proof -
  let ?d = "advance current gates req exact avail"
  have ready: "ca_ready_for_arbitration ?d \<longleftrightarrow> current \<noteq> CG_UNRESOLVED \<and> gates \<and> (\<not> req \<or> exact)"
    by (auto simp: advance_def split: list.splits)
  have "distinct (cascade_run os req avail current) \<and> length (cascade_run os req avail current) \<le> 6"
    if "list_all (\<lambda>c. \<not> fst c) os"
    using cascade.path_distinct [OF cascade_run_escalates [OF that]] cascade.path_length [OF cascade_run_escalates [OF that]]
    by simp
  with advance_climbs [of ?d current gates req exact avail] ready show ?thesis unfolding Let_def by blast
qed

theorem cascade_progress_witness:
  "distinct (cascade_run [(False, False), (False, False), (False, False)] True {CG_FAST, CG_AUTHORITY} CG_NATIVE)"
  using cascade_progress [of CG_NATIVE False True False "{CG_FAST, CG_AUTHORITY}" "[(False, False), (False, False), (False, False)]"]
  by simp

text \<open>Fact: the authority stage can repeat without end. When the candidate of the authority stage passes its
  hard gates but is not exact, and the authority stage is available, the controller asks for the
  authority stage again: after any number of such candidates the cascade is still at AUTHORITY, with
  no terminal decision.\<close>

theorem authority_stage_repeats:
  assumes "CG_AUTHORITY \<in> avail"
  shows "cascade_run (replicate n (True, False)) True avail CG_AUTHORITY = replicate (Suc n) CG_AUTHORITY
    \<and> \<not> ca_terminal (advance CG_AUTHORITY True True False avail)"
  using assms by (induction n) (simp_all add: advance_def Let_def)

theorem authority_stage_repeats_witness:
  "length (cascade_run (replicate 100 (True, False)) True {CG_AUTHORITY} CG_AUTHORITY) = 101"
  using authority_stage_repeats [of "{CG_AUTHORITY}" 100] by simp

text \<open>The decision a successful route returns, and when there is none.\<close>

lemma route_unavailable:
  assumes "route_candidates q recipes ws estimates = []"
  shows "route version q recipes ws estimates = Inl RoutingUnavailable
    \<and> \<not> (\<exists>r \<in> set recipes. \<exists>w \<in> set ws. route_compatible q r w \<and> estimates (rp_recipe_id r, ws_worker_id w) \<noteq> None)"
proof
  show "route version q recipes ws estimates = Inl RoutingUnavailable" using assms by (simp add: route_def)
  show "\<not> (\<exists>r \<in> set recipes. \<exists>w \<in> set ws. route_compatible q r w \<and> estimates (rp_recipe_id r, ws_worker_id w) \<noteq> None)"
  proof (intro notI, elim bexE conjE)
    fix r w
    assume m: "r \<in> set recipes" "w \<in> set ws" "route_compatible q r w"
      and n: "estimates (rp_recipe_id r, ws_worker_id w) \<noteq> None"
    from n obtain e where e: "estimates (rp_recipe_id r, ws_worker_id w) = Some e" by blast
    have "\<lparr>rc_recipe = r, rc_worker = w, rc_estimate = e, rc_objective_score = objective q e w\<rparr>
        \<in> set (route_candidates q recipes ws estimates)"
      unfolding route_candidates_mem using m e by simp
    with assms show False by simp
  qed
qed

lemma route_decided:
  assumes ne: "route_candidates q recipes ws estimates \<noteq> []"
  obtains a secondary reasons where
    "a \<in> set (route_candidates q recipes ws estimates)"
    "\<forall>c \<in> set (route_candidates q recipes ws estimates). route_key a \<le> route_key c"
    "\<forall>c. secondary = Some c \<longrightarrow> independent_of a c \<and> c \<in> set (route_candidates q recipes ws estimates)"
    "route version q recipes ws estimates = Inr \<lparr>rd_primary = a,
      rd_secondary = (if reasons \<noteq> [] \<and> secondary \<noteq> None then secondary else None),
      rd_speculative = (reasons \<noteq> [] \<and> secondary \<noteq> None),
      rd_reason_codes = (if reasons \<noteq> [] \<and> secondary \<noteq> None then reasons else []),
      rd_policy_version = version\<rparr>"
proof -
  let ?cs = "route_candidates q recipes ws estimates"
  obtain a rest where Cons: "sort_key route_key ?cs = a # rest"
    using ne by (metis length_0_conv length_sort neq_Nil_conv)
  have a: "a = hd (sort_key route_key ?cs)" using Cons by simp
  have mem: "a \<in> set ?cs" and least: "\<forall>c \<in> set ?cs. route_key a \<le> route_key c"
    unfolding a using sort_key_hd_min [OF ne, where f = route_key] by blast+
  have rest: "set rest \<subseteq> set ?cs" using Cons by (metis set_sort set_subset_Cons)
  have sec: "\<forall>c. List.find (independent_of a) rest = Some c \<longrightarrow> independent_of a c \<and> c \<in> set ?cs"
  proof (intro allI impI)
    fix c assume "List.find (independent_of a) rest = Some c"
    from find_Some_mem [OF this] rest show "independent_of a c \<and> c \<in> set ?cs" by (simp add: subset_iff)
  qed
  define reasons where "reasons = speculation_reasons q (a # rest)"
  define secondary where "secondary = List.find (independent_of a) rest"
  have "route version q recipes ws estimates = Inr \<lparr>rd_primary = a,
      rd_secondary = (if reasons \<noteq> [] \<and> secondary \<noteq> None then secondary else None),
      rd_speculative = (reasons \<noteq> [] \<and> secondary \<noteq> None),
      rd_reason_codes = (if reasons \<noteq> [] \<and> secondary \<noteq> None then reasons else []),
      rd_policy_version = version\<rparr>"
    unfolding route_def Cons Let_def list.case reasons_def secondary_def by (rule refl)
  with sec show thesis unfolding secondary_def [symmetric] by (intro that [OF mem least])
qed

text \<open>C38: routes respect the policy. The primary of a route is a given recipe on a given healthy or degraded
  worker with the recipe's model and image and all required capabilities, and no compatible pair with
  an estimate precedes it; private processing never reaches an external provider. A secondary is
  given exactly with a reason to speculate, is compatible too, and has another worker and another
  independent family than the primary. Routing fails only when no compatible pair has an estimate.\<close>

theorem route_sound:
  "(\<forall>d. route version q recipes ws estimates = Inr d \<longrightarrow>
      rc_recipe (rd_primary d) \<in> set recipes \<and> rc_worker (rd_primary d) \<in> set ws
      \<and> route_compatible q (rc_recipe (rd_primary d)) (rc_worker (rd_primary d))
      \<and> (\<forall>c \<in> set (route_candidates q recipes ws estimates). route_key (rd_primary d) \<le> route_key c)
      \<and> (rq_private_processing q \<longrightarrow> \<not> rp_external_provider (rc_recipe (rd_primary d)))
      \<and> (rd_speculative d \<longleftrightarrow> rd_secondary d \<noteq> None) \<and> (rd_speculative d \<longleftrightarrow> rd_reason_codes d \<noteq> [])
      \<and> (\<forall>c. rd_secondary d = Some c \<longrightarrow> independent_of (rd_primary d) c
           \<and> route_compatible q (rc_recipe c) (rc_worker c)
           \<and> (rq_private_processing q \<longrightarrow> \<not> rp_external_provider (rc_recipe c))))
   \<and> ((\<exists>e. route version q recipes ws estimates = Inl e) \<longleftrightarrow>
       \<not> (\<exists>r \<in> set recipes. \<exists>w \<in> set ws. route_compatible q r w
          \<and> estimates (rp_recipe_id r, ws_worker_id w) \<noteq> None))"
proof (cases "route_candidates q recipes ws estimates = []")
  case True
  from route_unavailable [OF True] show ?thesis by simp
next
  case False
  obtain a secondary reasons where mem: "a \<in> set (route_candidates q recipes ws estimates)"
    and least: "\<forall>c \<in> set (route_candidates q recipes ws estimates). route_key a \<le> route_key c"
    and sec: "\<forall>c. secondary = Some c \<longrightarrow> independent_of a c \<and> c \<in> set (route_candidates q recipes ws estimates)"
    and r: "route version q recipes ws estimates = Inr \<lparr>rd_primary = a,
      rd_secondary = (if reasons \<noteq> [] \<and> secondary \<noteq> None then secondary else None),
      rd_speculative = (reasons \<noteq> [] \<and> secondary \<noteq> None),
      rd_reason_codes = (if reasons \<noteq> [] \<and> secondary \<noteq> None then reasons else []),
      rd_policy_version = version\<rparr>"
    by (rule route_decided [OF False])
  have ext: "rc_recipe c \<in> set recipes" "rc_worker c \<in> set ws" "route_compatible q (rc_recipe c) (rc_worker c)"
    "rq_private_processing q \<longrightarrow> \<not> rp_external_provider (rc_recipe c)"
    "estimates (rp_recipe_id (rc_recipe c), ws_worker_id (rc_worker c)) \<noteq> None"
    if "c \<in> set (route_candidates q recipes ws estimates)" for c
    using that unfolding route_candidates_mem by (auto simp: route_compatible_def)
  show ?thesis
    using ext [OF mem] least sec ext unfolding r by (cases "reasons \<noteq> [] \<and> secondary \<noteq> None") auto
qed

definition demo_recipe :: recipe_profile where
  "demo_recipe = \<lparr>rp_recipe_id = ''r'', rp_model_revision = ''m'', rp_runtime_image_digest = ''i'',
     rp_tier = RT_FAST, rp_capabilities = {}, rp_supported_languages = {''en''}, rp_external_provider = False,
     rp_authority_capable = False, rp_independent_family = ''f''\<rparr>"

definition demo_route_request :: route_request where
  "demo_route_request = \<lparr>rq_stage = RG_PAGE, rq_required_capabilities = {}, rq_language = ''en'',
     rq_high_risk = False, rq_private_processing = True, rq_external_api_allowed = False,
     rq_financial_numeric = False, rq_long_complex_table = False, rq_photographed_low_quality = False,
     rq_benchmark_critical = False, rq_production_canary = False, rq_prior_template_failure = False,
     rq_excluded_recipe_ids = {}, rq_excluded_worker_ids = {}, rq_excluded_independent_families = {}\<rparr>"

definition demo_route_worker :: worker_snapshot where
  "demo_route_worker = \<lparr>ws_worker_id = ''w'', ws_model_revision = ''m'', ws_runtime_image_digest = ''i'',
     ws_state = WS_HEALTHY, ws_capabilities = {}, ws_warm = True, ws_cached_models = {},
     ws_estimated_available_at = 0, ws_semantic_score = 100\<rparr>"

definition demo_estimate :: quality_estimate where
  "demo_estimate = \<lparr>qe_pass_hard_gate = 1, qe_numeric_exact = 1, qe_row_complete = 1,
     qe_repetition_probability = 0, qe_timeout_probability = 0, qe_oom_probability = 0,
     qe_expected_latency_seconds = 1, qe_expected_cost = 1\<rparr>"

theorem route_sound_witness:
  "\<exists>d. route ''v'' demo_route_request [demo_recipe] [demo_route_worker]
       [(''r'', ''w'') \<mapsto> demo_estimate] = Inr d
     \<and> route_compatible demo_route_request (rc_recipe (rd_primary d)) (rc_worker (rd_primary d))"
proof -
  have c: "route_compatible demo_route_request demo_recipe demo_route_worker"
    by (simp add: route_compatible_def demo_route_request_def demo_recipe_def demo_route_worker_def)
  have e: "[(''r'', ''w'') \<mapsto> demo_estimate] (rp_recipe_id demo_recipe, ws_worker_id demo_route_worker) = Some demo_estimate"
    by (simp add: demo_recipe_def demo_route_worker_def)
  note s = route_sound [of "''v''" demo_route_request "[demo_recipe]" "[demo_route_worker]"
      "[(''r'', ''w'') \<mapsto> demo_estimate]"]
  have "\<not> (\<exists>x. route ''v'' demo_route_request [demo_recipe] [demo_route_worker]
       [(''r'', ''w'') \<mapsto> demo_estimate] = Inl x)"
    using s c e by simp
  then obtain d where "route ''v'' demo_route_request [demo_recipe] [demo_route_worker]
       [(''r'', ''w'') \<mapsto> demo_estimate] = Inr d" by (metis sum.exhaust)
  with s show ?thesis by blast
qed

end
