(* ===== verification/Recovery.thy ===== *)
theory Recovery
  imports Validation Failures Journal StateMachine
begin

text \<open>
  \<^verbatim>\<open>akc_parallel_runtime/recovery.py\<close> and \<^verbatim>\<open>recovery_planner.py\<close>: the choice of the smallest
  scope and of the preprocessing variant for a set of failure codes, the planning of recovery tasks
  under idempotency keys, and the acceptance of recovery candidates. A frozenset of failure codes is
  given by a list of its elements; the state is the planner and its optional journal.
\<close>

section \<open>Data\<close>

datatype preprocessing_variant =
    PV_DPI | PV_CROP_MARGIN | PV_CONTRAST | PV_GRAYSCALE | PV_DEWARP | PV_ROTATE | PV_DENOISE | PV_SHARPEN
  | PV_TILE | PV_OVERLAPPING_TILE | PV_CELL_GEOMETRY | PV_OCR_EXACT | PV_AUTHORITY_MAPPING
  | PV_PAGE_RERENDER_ALT_PARSER | PV_REGION_CROP | PV_ROW_BAND_TILE | PV_CANDIDATE_REJECT
  | PV_TARGET_SELECTION | PV_NATIVE_AUTHORITY_RECONSTRUCTION | PV_CANONICAL_NUMERIC
  | PV_LAYOUT_SPECIALIST | PV_PAGE_PAIR_STITCH | PV_FORMULA_SPECIALIST | PV_SOURCE_REMAP
  | PV_NOTE_RECOMPILE | PV_ENTITY_SPLIT | PV_RELATION_REMOVE

fun variant_value :: "preprocessing_variant \<Rightarrow> string" where
  "variant_value PV_DPI = ''dpi''"
| "variant_value PV_CROP_MARGIN = ''crop_margin''"
| "variant_value PV_CONTRAST = ''contrast''"
| "variant_value PV_GRAYSCALE = ''grayscale''"
| "variant_value PV_DEWARP = ''dewarp''"
| "variant_value PV_ROTATE = ''rotate''"
| "variant_value PV_DENOISE = ''denoise''"
| "variant_value PV_SHARPEN = ''sharpen''"
| "variant_value PV_TILE = ''tile''"
| "variant_value PV_OVERLAPPING_TILE = ''overlapping_tile''"
| "variant_value PV_CELL_GEOMETRY = ''cell_geometry_specialist''"
| "variant_value PV_OCR_EXACT = ''ocr_exact''"
| "variant_value PV_AUTHORITY_MAPPING = ''authority_mapping''"
| "variant_value PV_PAGE_RERENDER_ALT_PARSER = ''page_rerender_alternate_parser''"
| "variant_value PV_REGION_CROP = ''region_crop''"
| "variant_value PV_ROW_BAND_TILE = ''row_band_tile''"
| "variant_value PV_CANDIDATE_REJECT = ''candidate_reject''"
| "variant_value PV_TARGET_SELECTION = ''target_selection''"
| "variant_value PV_NATIVE_AUTHORITY_RECONSTRUCTION = ''native_authority_reconstruction''"
| "variant_value PV_CANONICAL_NUMERIC = ''canonical_numeric_recovery''"
| "variant_value PV_LAYOUT_SPECIALIST = ''layout_specialist''"
| "variant_value PV_PAGE_PAIR_STITCH = ''page_pair_stitch''"
| "variant_value PV_FORMULA_SPECIALIST = ''formula_specialist''"
| "variant_value PV_SOURCE_REMAP = ''source_remap''"
| "variant_value PV_NOTE_RECOMPILE = ''note_recompile''"
| "variant_value PV_ENTITY_SPLIT = ''entity_split''"
| "variant_value PV_RELATION_REMOVE = ''relation_remove''"

record recovery_scope =
  rsc_level :: region_level
  rsc_scope_id :: string
  rsc_source_refs :: "string list"

definition mk_recovery_scope :: "recovery_scope \<Rightarrow> pyerr + recovery_scope" where
  "mk_recovery_scope s = require_all
     [(rsc_scope_id s \<noteq> [] \<and> rsc_source_refs s \<noteq> [],
        ValueError ''recovery scope needs an id and source references'')] s"

record recovery_task =
  rtk_task_id :: string
  rtk_base_attempt_id :: string
  rtk_base_prediction_sha256 :: string
  rtk_scope :: recovery_scope
  rtk_variant :: preprocessing_variant
  rtk_parser_recipe :: string
  rtk_created_at :: datetime
  rtk_key :: string

definition mk_recovery_task :: "recovery_task \<Rightarrow> pyerr + recovery_task" where
  "mk_recovery_task t = require_all
     [(is_sha256 (rtk_base_prediction_sha256 t), sha_err),
      (is_aware (rtk_created_at t), ValueError ''recovery task time must be timezone-aware'')] t"

record recovery_candidate =
  rcn_task :: recovery_task
  rcn_repair_attempt_id :: string
  rcn_prediction_sha256 :: string
  rcn_diff_sha256 :: string
  rcn_validation :: validation_result
  rcn_source_evidence :: "evidence_receipt list"
  rcn_base_family :: string
  rcn_repair_family :: string
  rcn_lineage_edges :: "lineage_edge list"

definition mk_recovery_candidate :: "recovery_candidate \<Rightarrow> pyerr + recovery_candidate" where
  "mk_recovery_candidate c = require_all
     [(is_sha256 (rcn_prediction_sha256 c), sha_err),
      (is_sha256 (rcn_diff_sha256 c), sha_err),
      (rcn_base_family c \<noteq> [] \<and> rcn_repair_family c \<noteq> [],
        ValueError ''recovery candidate requires both independent family identities'')] c"

record recovery_decision =
  rdc_task_id :: string
  rdc_accepted :: bool
  rdc_state :: verification_state
  rdc_selected_attempt_id :: "string option"
  rdc_base_prediction_sha256 :: string
  rdc_repaired_prediction_sha256 :: "string option"
  rdc_reason_codes :: "string list"
  rdc_decision_sha256 :: string
  rdc_impacted_object_ids :: "string list"

record recovery_planner =
  rpl_tasks_by_key :: "string \<rightharpoonup> recovery_task"
  rpl_tasks_by_id :: "string \<rightharpoonup> recovery_task"
  rpl_decisions :: "string \<rightharpoonup> string \<times> recovery_decision"

definition new_recovery_planner :: recovery_planner where
  "new_recovery_planner = \<lparr>rpl_tasks_by_key = Map.empty, rpl_tasks_by_id = Map.empty,
     rpl_decisions = Map.empty\<rparr>"

type_synonym recovery_st = "recovery_planner \<times> journal option"

section \<open>Scopes\<close>

fun level_order :: "region_level \<Rightarrow> nat" where
  "level_order RL_CELL = 0"
| "level_order RL_ROW = 1"
| "level_order RL_TABLE = 2"
| "level_order RL_REGION = 3"
| "level_order RL_PAGE = 4"
| "level_order RL_PAGE_PAIR = 5"
| "level_order RL_PAGE_GROUP = 5"
| "level_order RL_DOCUMENT = 6"

definition minimum_scope :: "(string \<times> region_level) list" where
  "minimum_scope =
    [(''P01'', RL_PAGE), (''page_coverage_mismatch'', RL_PAGE), (''B01'', RL_REGION),
     (''visible_region_missing'', RL_REGION), (''T01'', RL_ROW), (''bottom_row_omission'', RL_ROW),
     (''row_omission'', RL_ROW), (''table_cut_detected'', RL_ROW), (''T02'', RL_ROW),
     (''middle_row_omission'', RL_ROW), (''T03'', RL_TABLE), (''extra_rows'', RL_TABLE),
     (''T04'', RL_TABLE), (''wrong_table'', RL_TABLE), (''native_heading_mismatch'', RL_TABLE),
     (''T05'', RL_CELL), (''table_column_shift'', RL_CELL), (''native_object_count_mismatch'', RL_TABLE),
     (''N01'', RL_CELL), (''digit_mutation'', RL_CELL), (''native_numeric_mismatch'', RL_CELL),
     (''authority_numeric_mismatch'', RL_CELL), (''N02'', RL_CELL), (''sign_scale_error'', RL_CELL),
     (''authority_dimension_mismatch'', RL_CELL), (''R01'', RL_REGION),
     (''reading_order_invalid'', RL_REGION), (''visual_hierarchy_invalid'', RL_REGION),
     (''C01'', RL_PAGE_PAIR), (''cross_page_split'', RL_PAGE_PAIR), (''F01'', RL_REGION),
     (''formula_corruption'', RL_REGION), (''G01'', RL_REGION), (''grounding_mismatch'', RL_REGION),
     (''bbox_invalid'', RL_REGION), (''source_coverage_incomplete'', RL_REGION),
     (''source_link_invalid'', RL_REGION), (''caption_missing'', RL_REGION), (''H01'', RL_REGION),
     (''hallucination'', RL_REGION), (''unsupported_content'', RL_REGION),
     (''differential_disagreement'', RL_REGION), (''H02'', RL_REGION),
     (''repetition_detected'', RL_REGION), (''K01'', RL_REGION), (''note_split_error'', RL_REGION),
     (''K02'', RL_REGION), (''wrong_entity_merge'', RL_REGION), (''K03'', RL_REGION),
     (''unsupported_relation'', RL_REGION)]"

definition scope_key :: "recovery_scope \<Rightarrow> nat \<times> string" where
  "scope_key s = (level_order (rsc_level s), rsc_scope_id s)"

definition smallest_scope :: "recovery_scope list \<Rightarrow> pyerr + recovery_scope" where
  "smallest_scope scopes =
    (if scopes = [] then Inl (ValueError ''recovery requires at least one source-localized scope'')
     else if card (set (map rsc_scope_id scopes)) \<noteq> length scopes
       then Inl (ValueError ''recovery scope ids must be unique'')
     else Inr (hd (sort_key scope_key scopes)))"

text \<open>\<open>max((\<dots>), default=0)\<close> over the known codes.\<close>

definition minimum_rank :: "string list \<Rightarrow> nat" where
  "minimum_rank codes = Max (set (0 # List.map_filter
     (\<lambda>code. map_option level_order (map_of minimum_scope code)) codes))"

definition minimum_valid_scope :: "string list \<Rightarrow> recovery_scope list \<Rightarrow> pyerr + recovery_scope" where
  "minimum_valid_scope codes scopes =
    (if scopes = [] then Inl (ValueError ''recovery requires at least one source-localized scope'')
     else let eligible = filter (\<lambda>s. minimum_rank codes \<le> level_order (rsc_level s)) scopes
       in if eligible = [] then Inl (ValueError ''recovery scopes do not satisfy the failure minimum scope'')
          else smallest_scope eligible)"

definition next_broader_scope :: "recovery_scope \<Rightarrow> recovery_scope list \<Rightarrow> recovery_scope option" where
  "next_broader_scope current candidates =
    (let broader = filter (\<lambda>s. level_order (rsc_level s) > level_order (rsc_level current)) candidates
     in if broader \<noteq> [] then Some (hd (sort_key scope_key broader)) else None)"

section \<open>Variants\<close>

definition hits :: "string list \<Rightarrow> string list \<Rightarrow> bool" where
  "hits codes watched \<longleftrightarrow> list_ex (\<lambda>c. c \<in> set watched) codes"

definition choose_variant :: "string list \<Rightarrow> recovery_scope \<Rightarrow> preprocessing_variant" where
  "choose_variant codes scope =
    (if hits codes [''P01'', ''page_coverage_mismatch''] then PV_PAGE_RERENDER_ALT_PARSER
     else if hits codes [''B01'', ''visible_region_missing''] then PV_REGION_CROP
     else if hits codes [''T01'', ''bottom_row_omission'', ''row_omission'', ''table_cut_detected'']
       then PV_OVERLAPPING_TILE
     else if hits codes [''T02'', ''middle_row_omission''] then PV_ROW_BAND_TILE
     else if hits codes [''T03'', ''H01'', ''H02'', ''extra_rows'', ''hallucination'', ''unsupported_content'',
       ''differential_disagreement'', ''repetition_detected''] then PV_CANDIDATE_REJECT
     else if hits codes [''T04'', ''wrong_table'', ''native_heading_mismatch''] then PV_TARGET_SELECTION
     else if hits codes [''T05'', ''table_column_shift'', ''native_object_count_mismatch'']
       then PV_CELL_GEOMETRY
     else if hits codes [''N01'', ''digit_mutation'', ''native_numeric_mismatch'', ''authority_numeric_mismatch'']
       then PV_NATIVE_AUTHORITY_RECONSTRUCTION
     else if hits codes [''N02'', ''sign_scale_error'', ''authority_dimension_mismatch'']
       then PV_CANONICAL_NUMERIC
     else if hits codes [''R01'', ''reading_order_invalid'', ''visual_hierarchy_invalid'']
       then PV_LAYOUT_SPECIALIST
     else if hits codes [''C01'', ''cross_page_split''] then PV_PAGE_PAIR_STITCH
     else if hits codes [''F01'', ''formula_corruption''] then PV_FORMULA_SPECIALIST
     else if hits codes [''G01'', ''grounding_mismatch'', ''bbox_invalid'', ''source_coverage_incomplete'',
       ''source_link_invalid'', ''caption_missing''] then PV_SOURCE_REMAP
     else if hits codes [''K01'', ''note_split_error''] then PV_NOTE_RECOMPILE
     else if hits codes [''K02'', ''wrong_entity_merge''] then PV_ENTITY_SPLIT
     else if hits codes [''K03'', ''unsupported_relation''] then PV_RELATION_REMOVE
     else if hits codes [''authority_numeric_mismatch'', ''authority_dimension_mismatch'']
       then PV_AUTHORITY_MAPPING
     else if hits codes [''table_column_shift'', ''table_cut_detected'', ''native_object_count_mismatch'']
         \<or> rsc_level scope \<in> {RL_CELL, RL_ROW, RL_TABLE} then PV_CELL_GEOMETRY
     else if hits codes [''numeric_character_ambiguity'', ''native_numeric_mismatch''] then PV_OCR_EXACT
     else if hits codes [''cropped_region'', ''caption_missing'', ''bbox_invalid'', ''source_coverage_incomplete'']
       then PV_CROP_MARGIN
     else if ''rotation_detected'' \<in> set codes then PV_ROTATE
     else if ''photographed_low_quality'' \<in> set codes then PV_DEWARP
     else if hits codes [''reading_order_invalid'', ''visual_hierarchy_invalid''] then PV_TILE
     else PV_OVERLAPPING_TILE)"

section \<open>plan\<close>

record plan_request =
  pq_base_attempt_id :: string
  pq_base_prediction_sha256 :: string
  pq_scopes :: "recovery_scope list"
  pq_failure_codes :: "string list"
  pq_parser_recipe :: string
  pq_created_at :: datetime

definition jscope :: "recovery_scope \<Rightarrow> jval" where
  "jscope s = JObj [(''level'', JStr (region_value (rsc_level s))), (''scope_id'', JStr (rsc_scope_id s)),
     (''source_refs'', JList (map JStr (rsc_source_refs s)))]"

definition recovery_identity ::
  "renv \<Rightarrow> string \<Rightarrow> string \<Rightarrow> recovery_scope \<Rightarrow> preprocessing_variant \<Rightarrow> string \<Rightarrow> string" where
  "recovery_identity E base prediction scope variant recipe = jsha E (JObj
     [(''base_attempt_id'', JStr base), (''base_prediction_sha256'', JStr prediction),
      (''scope'', jscope scope), (''variant'', JStr (variant_value variant)),
      (''parser_recipe'', JStr recipe)])"

definition task_identity :: "renv \<Rightarrow> recovery_task \<Rightarrow> string" where
  "task_identity E t = recovery_identity E (rtk_base_attempt_id t) (rtk_base_prediction_sha256 t)
     (rtk_scope t) (rtk_variant t) (rtk_parser_recipe t)"

definition request_identity :: "renv \<Rightarrow> plan_request \<Rightarrow> recovery_scope \<Rightarrow> string" where
  "request_identity E q scope = recovery_identity E (pq_base_attempt_id q) (pq_base_prediction_sha256 q)
     scope (choose_variant (pq_failure_codes q) scope) (pq_parser_recipe q)"

definition planned_task :: "renv \<Rightarrow> plan_request \<Rightarrow> recovery_scope \<Rightarrow> string \<Rightarrow> recovery_task" where
  "planned_task E q scope key =
    \<lparr>rtk_task_id = stable_id E ''recovery'' [JStr (pq_base_attempt_id q), JStr (rsc_scope_id scope),
        JStr (variant_value (choose_variant (pq_failure_codes q) scope)), JStr (request_identity E q scope)],
     rtk_base_attempt_id = pq_base_attempt_id q,
     rtk_base_prediction_sha256 = pq_base_prediction_sha256 q,
     rtk_scope = scope, rtk_variant = choose_variant (pq_failure_codes q) scope,
     rtk_parser_recipe = pq_parser_recipe q, rtk_created_at = pq_created_at q, rtk_key = key\<rparr>"

definition plan_events :: "recovery_task \<Rightarrow> event_request list" where
  "plan_events t =
    [(''recovery.region.requested.v1'', rtk_task_id t,
       [(''base_attempt_id'', PStr (rtk_base_attempt_id t)), (''scope_id'', PStr (rsc_scope_id (rtk_scope t))),
        (''scope_level'', PStr (region_value (rsc_level (rtk_scope t)))),
        (''variant'', PStr (variant_value (rtk_variant t)))],
       rtk_created_at t, ''recovery-requested:'' @ rtk_task_id t),
     (''recovery.planned.v1'', rtk_task_id t,
       [(''scope_id'', PStr (rsc_scope_id (rtk_scope t))),
        (''scope_level'', PStr (region_value (rsc_level (rtk_scope t)))),
        (''variant'', PStr (variant_value (rtk_variant t))), (''parser_recipe'', PStr (rtk_parser_recipe t))],
       rtk_created_at t, ''recovery-planned:'' @ rtk_task_id t),
     (''recovery.started.v1'', rtk_task_id t, [(''base_attempt_id'', PStr (rtk_base_attempt_id t))],
       rtk_created_at t, ''recovery-started:'' @ rtk_task_id t)]"

definition plan_recovery :: "renv \<Rightarrow> plan_request \<Rightarrow> string \<Rightarrow> recovery_st \<Rightarrow> (recovery_st, recovery_task) outcome" where
  "plan_recovery E q key s =
    (case s of (rp, oj) \<Rightarrow>
     (case minimum_valid_scope (pq_failure_codes q) (pq_scopes q) of
       Inl e \<Rightarrow> (Inl e, s)
     | Inr scope \<Rightarrow>
        if \<not> is_sha256 (pq_base_prediction_sha256 q) then (Inl sha_err, s)
        else (case rpl_tasks_by_key rp key of
          Some existing \<Rightarrow>
            (if task_identity E existing \<noteq> request_identity E q scope
             then (Inl (RecoveryConflictError ''recovery idempotency key reused with different recovery input''), s)
             else (Inr existing, s))
        | None \<Rightarrow>
            (case mk_recovery_task (planned_task E q scope key) of
              Inl e \<Rightarrow> (Inl e, s)
            | Inr task \<Rightarrow>
                with_events
                  (rp\<lparr>rpl_tasks_by_key := (rpl_tasks_by_key rp)(key \<mapsto> task),
                      rpl_tasks_by_id := (rpl_tasks_by_id rp)(rtk_task_id task \<mapsto> task)\<rparr>)
                  task (emit_all E (plan_events task) oj)))))"

section \<open>accept\<close>

definition jtask :: "renv \<Rightarrow> recovery_task \<Rightarrow> jval" where
  "jtask E t = JObj [(''task_id'', JStr (rtk_task_id t)), (''base_attempt_id'', JStr (rtk_base_attempt_id t)),
     (''base_prediction_sha256'', JStr (rtk_base_prediction_sha256 t)), (''scope'', jscope (rtk_scope t)),
     (''variant'', JStr (variant_value (rtk_variant t))), (''parser_recipe'', JStr (rtk_parser_recipe t)),
     (''created_at'', JStr (isoformat E (instant (rtk_created_at t)))), (''idempotency_key'', JStr (rtk_key t))]"

definition jvalidation :: "validation_result \<Rightarrow> jval" where
  "jvalidation v = JObj [(''passed'', JBool (vr_passed v)),
     (''hard_failure_count'', JInt (int (vr_hard_failure_count v))),
     (''results'', JList (map jlevel_result (vr_results v))),
     (''findings'', JList (map jfinding (vr_findings v))), (''digest'', JStr (vr_digest v))]"

definition jedge :: "lineage_edge \<Rightarrow> jval" where
  "jedge e = JObj [(''source_id'', JStr (le_source_id e)), (''derived_id'', JStr (le_derived_id e))]"

definition candidate_digest :: "renv \<Rightarrow> recovery_candidate \<Rightarrow> string" where
  "candidate_digest E c = jsha E (JObj
     [(''task'', jtask E (rcn_task c)), (''repair_attempt_id'', JStr (rcn_repair_attempt_id c)),
      (''prediction_sha256'', JStr (rcn_prediction_sha256 c)), (''diff_sha256'', JStr (rcn_diff_sha256 c)),
      (''validation'', jvalidation (rcn_validation c)),
      (''source_evidence'', JList (map jreceipt (rcn_source_evidence c))),
      (''base_independent_family'', JStr (rcn_base_family c)),
      (''repair_independent_family'', JStr (rcn_repair_family c)),
      (''lineage_edges'', JList (map jedge (rcn_lineage_edges c)))])"

definition recovery_reasons :: "recovery_candidate \<Rightarrow> string list" where
  "recovery_reasons c =
    (if \<not> vr_passed (rcn_validation c) then [''recovery_validation_failed''] else [])
    @ (if vr_hard_failure_count (rcn_validation c) \<noteq> 0 then [''recovery_has_critical_findings''] else [])
    @ (if rcn_source_evidence c = [] then [''recovery_source_evidence_missing''] else [])
    @ (if rcn_base_family c = rcn_repair_family c then [''recovery_independent_family_missing''] else [])
    @ (if rcn_prediction_sha256 c = rtk_base_prediction_sha256 (rcn_task c)
       then [''recovery_produced_no_change''] else [])
    @ (if rcn_diff_sha256 c = [] then [''recovery_diff_missing''] else [])"

definition recovery_verdict :: "renv \<Rightarrow> recovery_candidate \<Rightarrow> recovery_decision" where
  "recovery_verdict E c =
    (let reasons = recovery_reasons c; accepted = (reasons = []); task = rcn_task c;
         impacted = (if accepted then impacted_descendants [rsc_scope_id (rtk_scope task)] (rcn_lineage_edges c)
                     else [])
     in \<lparr>rdc_task_id = rtk_task_id task, rdc_accepted = accepted,
         rdc_state = (if accepted then VS_AUTO_REPAIRED else VS_UNRESOLVED),
         rdc_selected_attempt_id = (if accepted then Some (rcn_repair_attempt_id c) else None),
         rdc_base_prediction_sha256 = rtk_base_prediction_sha256 task,
         rdc_repaired_prediction_sha256 = (if accepted then Some (rcn_prediction_sha256 c) else None),
         rdc_reason_codes = sort reasons,
         rdc_decision_sha256 = jsha E (JObj
           [(''task_id'', JStr (rtk_task_id task)), (''repair_attempt_id'', JStr (rcn_repair_attempt_id c)),
            (''accepted'', JBool accepted),
            (''base_prediction_sha256'', JStr (rtk_base_prediction_sha256 task)),
            (''prediction_sha256'', JStr (rcn_prediction_sha256 c)), (''diff_sha256'', JStr (rcn_diff_sha256 c)),
            (''validation_sha256'', JStr (vr_digest (rcn_validation c))),
            (''base_independent_family'', JStr (rcn_base_family c)),
            (''repair_independent_family'', JStr (rcn_repair_family c)),
            (''reasons'', JList (map JStr (sort reasons))),
            (''impacted_object_ids'', JList (map JStr impacted))]),
         rdc_impacted_object_ids = impacted\<rparr>)"

definition accept_events :: "recovery_candidate \<Rightarrow> recovery_decision \<Rightarrow> datetime \<Rightarrow> event_request list" where
  "accept_events c d t =
    [(''recovery.validated.v1'', rtk_task_id (rcn_task c),
       [(''passed'', PBool (vr_passed (rcn_validation c))),
        (''hard_failure_count'', PInt (int (vr_hard_failure_count (rcn_validation c)))),
        (''validation_sha256'', PStr (vr_digest (rcn_validation c)))],
       t, ''recovery-validated:'' @ rtk_task_id (rcn_task c)),
     (if rdc_accepted d then ''region.verified.v1'' else ''region.unresolved.v1'', rtk_task_id (rcn_task c),
       [(''scope_id'', PStr (rsc_scope_id (rtk_scope (rcn_task c)))),
        (''selected_attempt_id'', (case rdc_selected_attempt_id d of None \<Rightarrow> PNone | Some a \<Rightarrow> PStr a)),
        (''reason_codes'', PSeq (map PStr (rdc_reason_codes d)))],
       t, ''recovery-region-final:'' @ rtk_task_id (rcn_task c)),
     (''recovery.completed.v1'', rtk_task_id (rcn_task c),
       [(''accepted'', PBool (rdc_accepted d)), (''state'', PStr (verification_value (rdc_state d))),
        (''decision_sha256'', PStr (rdc_decision_sha256 d))],
       t, ''recovery-completed:'' @ rtk_task_id (rcn_task c))]"

text \<open>The decision is stored only after its three events were appended.\<close>

definition accept_recovery ::
  "renv \<Rightarrow> recovery_candidate \<Rightarrow> datetime \<Rightarrow> recovery_st \<Rightarrow> (recovery_st, recovery_decision) outcome" where
  "accept_recovery E c t s =
    (case s of (rp, oj) \<Rightarrow>
     let tid = rtk_task_id (rcn_task c) in
     if rpl_tasks_by_id rp tid \<noteq> Some (rcn_task c)
     then (Inl (RecoveryConflictError ''recovery candidate references an unknown task''), s)
     else (case rpl_decisions rp tid of
       Some (digest, d) \<Rightarrow>
         (if digest \<noteq> candidate_digest E c
          then (Inl (RecoveryConflictError ''recovery task already completed with another immutable candidate''), s)
          else (Inr d, s))
     | None \<Rightarrow>
         let d = recovery_verdict E c in
         (case emit_all E (accept_events c d t) oj of
           (Inl e, oj') \<Rightarrow> (Inl e, (rp, oj'))
         | (Inr _, oj') \<Rightarrow>
             (Inr d, (rp\<lparr>rpl_decisions := (rpl_decisions rp)(tid \<mapsto> (candidate_digest E c, d))\<rparr>, oj')))))"

text \<open>Any call on the planner.\<close>

datatype recovery_call = PlanCall plan_request string | AcceptCall recovery_candidate datetime

fun recovery_op :: "renv \<Rightarrow> recovery_call \<Rightarrow> recovery_st \<Rightarrow> (recovery_st, unit) outcome" where
  "recovery_op E (PlanCall q key) s = forget (plan_recovery E q key s)"
| "recovery_op E (AcceptCall c t) s = forget (accept_recovery E c t s)"

section \<open>recovery_planner.py\<close>

datatype failure_code =
    FK_PAGE_OMISSION | FK_BLOCK_OMISSION | FK_BOTTOM_ROW_OMISSION | FK_MIDDLE_ROW_OMISSION | FK_EXTRA_ROWS
  | FK_WRONG_TABLE | FK_COLUMN_SHIFT | FK_DIGIT_MUTATION | FK_SIGN_SCALE_ERROR | FK_READING_ORDER
  | FK_CROSS_PAGE_SPLIT | FK_FORMULA_CORRUPTION | FK_GROUNDING_MISMATCH | FK_HALLUCINATION | FK_REPETITION
  | FK_NOTE_SPLIT_ERROR | FK_WRONG_ENTITY_MERGE | FK_UNSUPPORTED_RELATION

fun failure_value :: "failure_code \<Rightarrow> string" where
  "failure_value FK_PAGE_OMISSION = ''P01''"
| "failure_value FK_BLOCK_OMISSION = ''B01''"
| "failure_value FK_BOTTOM_ROW_OMISSION = ''T01''"
| "failure_value FK_MIDDLE_ROW_OMISSION = ''T02''"
| "failure_value FK_EXTRA_ROWS = ''T03''"
| "failure_value FK_WRONG_TABLE = ''T04''"
| "failure_value FK_COLUMN_SHIFT = ''T05''"
| "failure_value FK_DIGIT_MUTATION = ''N01''"
| "failure_value FK_SIGN_SCALE_ERROR = ''N02''"
| "failure_value FK_READING_ORDER = ''R01''"
| "failure_value FK_CROSS_PAGE_SPLIT = ''C01''"
| "failure_value FK_FORMULA_CORRUPTION = ''F01''"
| "failure_value FK_GROUNDING_MISMATCH = ''G01''"
| "failure_value FK_HALLUCINATION = ''H01''"
| "failure_value FK_REPETITION = ''H02''"
| "failure_value FK_NOTE_SPLIT_ERROR = ''K01''"
| "failure_value FK_WRONG_ENTITY_MERGE = ''K02''"
| "failure_value FK_UNSUPPORTED_RELATION = ''K03''"

fun failure_variants :: "failure_code \<Rightarrow> preprocessing_variant" where
  "failure_variants FK_PAGE_OMISSION = PV_PAGE_RERENDER_ALT_PARSER"
| "failure_variants FK_BLOCK_OMISSION = PV_REGION_CROP"
| "failure_variants FK_BOTTOM_ROW_OMISSION = PV_OVERLAPPING_TILE"
| "failure_variants FK_MIDDLE_ROW_OMISSION = PV_ROW_BAND_TILE"
| "failure_variants FK_EXTRA_ROWS = PV_CANDIDATE_REJECT"
| "failure_variants FK_WRONG_TABLE = PV_TARGET_SELECTION"
| "failure_variants FK_COLUMN_SHIFT = PV_CELL_GEOMETRY"
| "failure_variants FK_DIGIT_MUTATION = PV_NATIVE_AUTHORITY_RECONSTRUCTION"
| "failure_variants FK_SIGN_SCALE_ERROR = PV_CANONICAL_NUMERIC"
| "failure_variants FK_READING_ORDER = PV_LAYOUT_SPECIALIST"
| "failure_variants FK_CROSS_PAGE_SPLIT = PV_PAGE_PAIR_STITCH"
| "failure_variants FK_FORMULA_CORRUPTION = PV_FORMULA_SPECIALIST"
| "failure_variants FK_GROUNDING_MISMATCH = PV_SOURCE_REMAP"
| "failure_variants FK_HALLUCINATION = PV_CANDIDATE_REJECT"
| "failure_variants FK_REPETITION = PV_CANDIDATE_REJECT"
| "failure_variants FK_NOTE_SPLIT_ERROR = PV_NOTE_RECOMPILE"
| "failure_variants FK_WRONG_ENTITY_MERGE = PV_ENTITY_SPLIT"
| "failure_variants FK_UNSUPPORTED_RELATION = PV_RELATION_REMOVE"

definition plan_minimal_recovery ::
  "failure_code list \<Rightarrow> recovery_scope list \<Rightarrow> pyerr + recovery_scope \<times> preprocessing_variant" where
  "plan_minimal_recovery failures scopes =
    (if failures = [] then Inl (ValueError ''recovery requires a registered failure code'')
     else mapR (\<lambda>scope.
         let variants = map failure_variants failures
         in (scope, if PV_AUTHORITY_MAPPING \<in> set variants then PV_AUTHORITY_MAPPING
                    else hd (sort_key variant_value variants)))
       (minimum_valid_scope (map failure_value failures) scopes))"

section \<open>Lemmas\<close>

text \<open>A scope is safe for the findings: no finding asks for a broader level.\<close>

definition covers :: "string list \<Rightarrow> recovery_scope \<Rightarrow> bool" where
  "covers codes s \<longleftrightarrow> (\<forall>code \<in> set codes. \<forall>l. map_of minimum_scope code = Some l \<longrightarrow>
     level_order l \<le> level_order (rsc_level s))"

lemma minimum_rank_le: "minimum_rank codes \<le> level_order (rsc_level s) \<longleftrightarrow> covers codes s"
proof -
  have 1: "(\<forall>y \<in> set (List.map_filter f xs). y \<le> n) \<longleftrightarrow> (\<forall>x \<in> set xs. \<forall>y. f x = Some y \<longrightarrow> y \<le> n)"
    for f :: "string \<Rightarrow> nat option" and xs n
    by (induction xs) (auto simp: map_filter_simps split: option.splits)
  have 2: "Max (set (0 # ys)) \<le> n \<longleftrightarrow> (\<forall>y \<in> set ys. y \<le> n)" for ys :: "nat list" and n
    by (subst Max_le_iff) auto
  show ?thesis unfolding minimum_rank_def 2 1 covers_def map_option_eq_Some by blast
qed

lemma card_ids: "card (set (map f xs)) = length xs \<longleftrightarrow> distinct (map f xs)"
  by (metis card_distinct distinct_card length_map)

lemma smallest_scope_Inr:
  "smallest_scope scopes = Inr s \<longleftrightarrow>
     scopes \<noteq> [] \<and> distinct (map rsc_scope_id scopes) \<and> s = hd (sort_key scope_key scopes)"
  unfolding smallest_scope_def card_ids by auto

lemma eligible_covers:
  "filter (\<lambda>s. minimum_rank codes \<le> level_order (rsc_level s)) scopes = filter (covers codes) scopes"
  by (simp add: minimum_rank_le)

lemma minimum_valid_scope_Inr:
  "minimum_valid_scope codes scopes = Inr s \<longleftrightarrow>
     filter (covers codes) scopes \<noteq> [] \<and> distinct (map rsc_scope_id (filter (covers codes) scopes))
     \<and> s = hd (sort_key scope_key (filter (covers codes) scopes))"
  unfolding minimum_valid_scope_def Let_def eligible_covers
  by (cases scopes) (auto simp: smallest_scope_Inr)

lemma minimum_valid_scope_sound:
  assumes "minimum_valid_scope codes scopes = Inr s"
  shows "s \<in> set scopes" "covers codes s" "\<And>s'. s' \<in> set scopes \<Longrightarrow> covers codes s' \<Longrightarrow> scope_key s \<le> scope_key s'"
proof -
  let ?es = "filter (covers codes) scopes"
  have ne: "?es \<noteq> []" and s: "s = hd (sort_key scope_key ?es)" using assms by (auto simp: minimum_valid_scope_Inr)
  have "s \<in> set ?es" unfolding s by (rule sort_key_hd_min(1) [OF ne])
  then show "s \<in> set scopes" "covers codes s" by auto
  show "scope_key s \<le> scope_key s'" if "s' \<in> set scopes" "covers codes s'" for s'
    unfolding s by (rule sort_key_hd_min(2) [OF ne]) (use that in auto)
qed

lemma broader_mem:
  assumes "next_broader_scope a cs = Some b"
  shows "b \<in> set cs" "level_order (rsc_level a) < level_order (rsc_level b)"
proof -
  let ?bs = "filter (\<lambda>s. level_order (rsc_level s) > level_order (rsc_level a)) cs"
  have ne: "?bs \<noteq> []" and b: "b = hd (sort_key scope_key ?bs)"
    using assms by (auto simp: next_broader_scope_def Let_def split: if_splits)
  have "b \<in> set ?bs" unfolding b by (rule sort_key_hd_min(1) [OF ne])
  then show "b \<in> set cs" "level_order (rsc_level a) < level_order (rsc_level b)" by auto
qed

interpretation broadening: ranked_machine "\<lambda>s. level_order (rsc_level s)"
  "\<lambda>a b. \<exists>cs. next_broader_scope a cs = Some b" 6
proof
  show "\<exists>cs. next_broader_scope a cs = Some b \<Longrightarrow> level_order (rsc_level a) < level_order (rsc_level b)" for a b
    using broader_mem by blast
  show "level_order (rsc_level a) \<le> 6" for a by (cases "rsc_level a") simp_all
qed

text \<open>What a call of \<open>plan\<close> can do.\<close>

lemma plan_recovery_cases:
  assumes "plan_recovery E q key (rp, oj) = (r, (rp', oj'))"
  obtains (raised) e where "r = Inl e" "rp' = rp" "oj' = oj"
  | (known) t scope where "minimum_valid_scope (pq_failure_codes q) (pq_scopes q) = Inr scope"
      "is_sha256 (pq_base_prediction_sha256 q)" "rpl_tasks_by_key rp key = Some t"
      "task_identity E t = request_identity E q scope" "r = Inr t" "rp' = rp" "oj' = oj"
  | (planned) t scope where "minimum_valid_scope (pq_failure_codes q) (pq_scopes q) = Inr scope"
      "is_sha256 (pq_base_prediction_sha256 q)" "rpl_tasks_by_key rp key = None"
      "t = planned_task E q scope key" "is_aware (pq_created_at q)"
      "rp' = rp\<lparr>rpl_tasks_by_key := (rpl_tasks_by_key rp)(key \<mapsto> t),
                rpl_tasks_by_id := (rpl_tasks_by_id rp)(rtk_task_id t \<mapsto> t)\<rparr>"
      "r = Inr t \<or> (\<exists>e. r = Inl e)" "oj' = snd (emit_all E (plan_events t) oj)"
proof (cases "minimum_valid_scope (pq_failure_codes q) (pq_scopes q)")
  case (Inl e)
  with assms have "r = Inl e" "rp' = rp" "oj' = oj" by (simp_all add: plan_recovery_def)
  then show ?thesis by (rule raised)
next
  case scope: (Inr scope)
  show ?thesis
  proof (cases "is_sha256 (pq_base_prediction_sha256 q)")
    case False
    with assms scope have "r = Inl sha_err" "rp' = rp" "oj' = oj" by (simp_all add: plan_recovery_def)
    then show ?thesis by (rule raised)
  next
    case sha: True
    show ?thesis
    proof (cases "rpl_tasks_by_key rp key")
      case (Some t)
      show ?thesis
      proof (cases "task_identity E t = request_identity E q scope")
        case True
        with assms scope sha Some have "r = Inr t" "rp' = rp" "oj' = oj" by (simp_all add: plan_recovery_def)
        then show ?thesis using scope sha Some True by (intro known)
      next
        case False
        with assms scope sha Some have
          "r = Inl (RecoveryConflictError ''recovery idempotency key reused with different recovery input'')"
          "rp' = rp" "oj' = oj" by (simp_all add: plan_recovery_def)
        then show ?thesis by (rule raised)
      qed
    next
      case None
      show ?thesis
      proof (cases "mk_recovery_task (planned_task E q scope key)")
        case (Inl e)
        with assms scope sha None have "r = Inl e" "rp' = rp" "oj' = oj" by (simp_all add: plan_recovery_def)
        then show ?thesis by (rule raised)
      next
        case (Inr t)
        then have t: "t = planned_task E q scope key" "is_aware (pq_created_at q)"
          unfolding mk_recovery_task_def require_all_Inr_iff by (simp_all add: planned_task_def)
        with assms scope sha None Inr have "with_events
                  (rp\<lparr>rpl_tasks_by_key := (rpl_tasks_by_key rp)(key \<mapsto> t),
                      rpl_tasks_by_id := (rpl_tasks_by_id rp)(rtk_task_id t \<mapsto> t)\<rparr>)
                  t (emit_all E (plan_events t) oj) = (r, (rp', oj'))" by (simp add: plan_recovery_def)
        from with_events_eqD [OF this] planned scope sha None t show ?thesis by blast
      qed
    qed
  qed
qed

lemma accept_recovery_cases:
  assumes "accept_recovery E c t (rp, oj) = (r, (rp', oj'))"
  obtains (raised) e where "r = Inl e" "rp' = rp"
  | (known) d where "rpl_decisions rp (rtk_task_id (rcn_task c)) = Some (candidate_digest E c, d)"
      "rpl_tasks_by_id rp (rtk_task_id (rcn_task c)) = Some (rcn_task c)"
      "r = Inr d" "rp' = rp" "oj' = oj"
  | (decided) "rpl_decisions rp (rtk_task_id (rcn_task c)) = None"
      "rpl_tasks_by_id rp (rtk_task_id (rcn_task c)) = Some (rcn_task c)" "r = Inr (recovery_verdict E c)"
      "rp' = rp\<lparr>rpl_decisions := (rpl_decisions rp)(rtk_task_id (rcn_task c) \<mapsto>
         (candidate_digest E c, recovery_verdict E c))\<rparr>"
      "emit_all E (accept_events c (recovery_verdict E c) t) oj = (Inr (), oj')"
proof (cases "rpl_tasks_by_id rp (rtk_task_id (rcn_task c)) = Some (rcn_task c)")
  case False
  with assms have "r = Inl (RecoveryConflictError ''recovery candidate references an unknown task'')" "rp' = rp"
    by (simp_all add: accept_recovery_def Let_def)
  then show ?thesis by (rule raised)
next
  case task: True
  show ?thesis
  proof (cases "rpl_decisions rp (rtk_task_id (rcn_task c))")
    case (Some v)
    obtain digest d where v: "v = (digest, d)" by fastforce
    show ?thesis
    proof (cases "digest = candidate_digest E c")
      case True
      with assms task Some v have "r = Inr d" "rp' = rp" "oj' = oj" by (simp_all add: accept_recovery_def Let_def)
      then show ?thesis using task Some v True by (intro known) simp_all
    next
      case False
      with assms task Some v have
        "r = Inl (RecoveryConflictError ''recovery task already completed with another immutable candidate'')"
        "rp' = rp" by (simp_all add: accept_recovery_def Let_def)
      then show ?thesis by (rule raised)
    qed
  next
    case None
    obtain x oj1 where ev: "emit_all E (accept_events c (recovery_verdict E c) t) oj = (x, oj1)" by fastforce
    show ?thesis
    proof (cases x)
      case (Inl e)
      with assms task None ev have "r = Inl e" "rp' = rp" by (simp_all add: accept_recovery_def Let_def)
      then show ?thesis by (rule raised)
    next
      case (Inr u)
      with assms task None ev show ?thesis by (intro decided) (simp_all add: accept_recovery_def Let_def)
    qed
  qed
qed

lemma plan_keeps_task:
  assumes "rpl_tasks_by_key (fst s) k = Some t"
  shows "rpl_tasks_by_key (fst (snd (recovery_op E call s))) k = Some t"
proof -
  obtain rp oj where s: "s = (rp, oj)" by fastforce
  show ?thesis
  proof (cases call)
    case (PlanCall q key)
    obtain r rp' oj' where p: "plan_recovery E q key (rp, oj) = (r, (rp', oj'))" by (metis prod.collapse)
    show ?thesis using p
      by (rule plan_recovery_cases) (use assms in \<open>auto simp: PlanCall s p\<close>)
  next
    case (AcceptCall c u)
    obtain r rp' oj' where p: "accept_recovery E c u (rp, oj) = (r, (rp', oj'))" by (metis prod.collapse)
    show ?thesis using p
      by (rule accept_recovery_cases) (use assms in \<open>auto simp: AcceptCall s p\<close>)
  qed
qed

lemma op_keeps_decision:
  assumes "rpl_decisions (fst s) k = Some d"
  shows "rpl_decisions (fst (snd (recovery_op E call s))) k = Some d"
proof -
  obtain rp oj where s: "s = (rp, oj)" by fastforce
  show ?thesis
  proof (cases call)
    case (PlanCall q key)
    obtain r rp' oj' where p: "plan_recovery E q key (rp, oj) = (r, (rp', oj'))" by (metis prod.collapse)
    show ?thesis using p
      by (rule plan_recovery_cases) (use assms in \<open>auto simp: PlanCall s p\<close>)
  next
    case (AcceptCall c u)
    obtain r rp' oj' where p: "accept_recovery E c u (rp, oj) = (r, (rp', oj'))" by (metis prod.collapse)
    show ?thesis using p
      by (rule accept_recovery_cases) (use assms in \<open>auto simp: AcceptCall s p\<close>)
  qed
qed

text \<open>The identity of a plan request, and the checks that precede the key lookup.\<close>

definition plan_ident :: "renv \<Rightarrow> plan_request \<Rightarrow> string" where
  "plan_ident E q = (case minimum_valid_scope (pq_failure_codes q) (pq_scopes q) of
     Inl e \<Rightarrow> [] | Inr scope \<Rightarrow> request_identity E q scope)"

definition plan_ok :: "plan_request \<Rightarrow> bool" where
  "plan_ok q \<longleftrightarrow> is_sha256 (pq_base_prediction_sha256 q)
     \<and> (\<exists>scope. minimum_valid_scope (pq_failure_codes q) (pq_scopes q) = Inr scope)"

definition planned_under :: "renv \<Rightarrow> recovery_st \<Rightarrow> string \<Rightarrow> (string \<times> recovery_task) option" where
  "planned_under E s k = map_option (\<lambda>t. (task_identity E t, t)) (rpl_tasks_by_key (fst s) k)"

interpretation planning: keyed_once "planned_under E" "plan_ident E" "\<lambda>q s. plan_ok q"
  "plan_recovery E" "recovery_op E" for E
proof (unfold_locales, goal_cases)
  case (1 q s k r)
  then show ?case by (cases s) (auto simp: plan_recovery_def plan_ok_def plan_ident_def planned_under_def)
next
  case (2 q s k i r)
  then show ?case by (cases s) (auto simp: plan_recovery_def plan_ok_def plan_ident_def planned_under_def)
next
  case (3 q s k)
  then show ?case by (cases s) (auto simp: plan_recovery_def plan_ok_def split: sum.splits)
next
  case (4 q k s r s')
  obtain rp oj rp' oj' where s: "s = (rp, oj)" "s' = (rp', oj')" by fastforce
  from 4 s have "plan_recovery E q k (rp, oj) = (Inr r, (rp', oj'))" by simp
  then show ?case
    by (rule plan_recovery_cases)
      (auto simp: s planned_under_def plan_ok_def plan_ident_def planned_task_def task_identity_def request_identity_def)
next
  case (5 s k v call)
  then obtain t where "rpl_tasks_by_key (fst s) k = Some t" "v = (task_identity E t, t)"
    by (auto simp: planned_under_def)
  with plan_keeps_task [of s k t E call] show ?case by (simp add: planned_under_def)
next
  case (6 q s call)
  then show ?case by simp
qed

interpretation recovery_decisions: write_once "\<lambda>s. rpl_decisions (fst s)" "recovery_op E" for E
  by unfold_locales (rule op_keeps_decision)

section \<open>Properties\<close>

text \<open>Fact: recovery takes the smallest safe scope. \<open>minimum_valid_scope\<close> returns a given scope that is at
  least as broad as every known failure code demands, and the first such scope in the order of level
  and id; it raises exactly when no given scope is safe or two safe ones share an id; the order in
  which scopes and codes are given does not matter.\<close>

theorem recovery_scope_minimal:
  "(\<forall>s. minimum_valid_scope codes scopes = Inr s \<longrightarrow> s \<in> set scopes \<and> covers codes s
      \<and> (\<forall>s' \<in> set scopes. covers codes s' \<longrightarrow> scope_key s \<le> scope_key s'))
   \<and> ((\<exists>e. minimum_valid_scope codes scopes = Inl e) \<longleftrightarrow>
        (\<forall>s \<in> set scopes. \<not> covers codes s) \<or> \<not> distinct (map rsc_scope_id (filter (covers codes) scopes)))
   \<and> (\<forall>codes' scopes' s. set codes' = set codes \<and> mset scopes' = mset scopes
        \<and> minimum_valid_scope codes scopes = Inr s \<longrightarrow> minimum_valid_scope codes' scopes' = Inr s)"
proof (intro conjI allI impI)
  show "s \<in> set scopes" "covers codes s" "\<forall>s' \<in> set scopes. covers codes s' \<longrightarrow> scope_key s \<le> scope_key s'"
    if "minimum_valid_scope codes scopes = Inr s" for s
    using minimum_valid_scope_sound [OF that] by blast+
  show "(\<exists>e. minimum_valid_scope codes scopes = Inl e) \<longleftrightarrow>
        (\<forall>s \<in> set scopes. \<not> covers codes s) \<or> \<not> distinct (map rsc_scope_id (filter (covers codes) scopes))"
  proof (cases "minimum_valid_scope codes scopes")
    case (Inl e)
    then have "\<not> (filter (covers codes) scopes \<noteq> [] \<and> distinct (map rsc_scope_id (filter (covers codes) scopes)))"
      using minimum_valid_scope_Inr by force
    with Inl show ?thesis by (auto simp: filter_empty_conv)
  next
    case (Inr s)
    then have "filter (covers codes) scopes \<noteq> [] \<and> distinct (map rsc_scope_id (filter (covers codes) scopes))"
      unfolding minimum_valid_scope_Inr by blast
    with Inr show ?thesis unfolding filter_empty_conv by auto
  qed
next
  fix codes' scopes' s
  assume a: "set codes' = set codes \<and> mset scopes' = mset scopes \<and> minimum_valid_scope codes scopes = Inr s"
  let ?es = "filter (covers codes) scopes" and ?es' = "filter (covers codes') scopes'"
  have m: "mset ?es' = mset ?es" using a by (simp add: covers_def)
  have ne: "?es \<noteq> []" "distinct (map rsc_scope_id ?es)" and s: "s = hd (sort_key scope_key ?es)"
    using a by (auto simp: minimum_valid_scope_Inr)
  have ne': "?es' \<noteq> []" using ne(1) m by (metis mset_zero_iff)
  have d': "distinct (map rsc_scope_id ?es')"
    using ne(2) m by (metis mset_eq_imp_distinct_iff mset_map)
  have sets: "set ?es' = set ?es" using m by (metis set_mset_mset)
  let ?s' = "hd (sort_key scope_key ?es')"
  have "scope_key ?s' = scope_key s"
    using sort_key_hd_min [OF ne(1), where f = scope_key] sort_key_hd_min [OF ne', where f = scope_key]
    unfolding s sets by (meson antisym)
  moreover have "?s' \<in> set ?es" "s \<in> set ?es"
    using sort_key_hd_min(1) [OF ne'] sort_key_hd_min(1) [OF ne(1)] unfolding s sets by blast+
  ultimately have "?s' = s"
    using ne(2) by (auto simp: scope_key_def distinct_map dest: inj_onD)
  with ne' d' show "minimum_valid_scope codes' scopes' = Inr s" by (auto simp: minimum_valid_scope_Inr)
qed

definition demo_scope :: "region_level \<Rightarrow> string \<Rightarrow> recovery_scope" where
  "demo_scope l i = \<lparr>rsc_level = l, rsc_scope_id = i, rsc_source_refs = [''s'']\<rparr>"

lemma demo_scope_chosen:
  "minimum_valid_scope [''T01'', ''N01''] [demo_scope RL_PAGE ''p'', demo_scope RL_CELL ''c'', demo_scope RL_TABLE ''t'']
     = Inr (demo_scope RL_TABLE ''t'')"
  by code_simp

theorem recovery_scope_minimal_witness:
  "minimum_valid_scope [''N01'', ''T01''] [demo_scope RL_CELL ''c'', demo_scope RL_TABLE ''t'', demo_scope RL_PAGE ''p'']
     = Inr (demo_scope RL_TABLE ''t'')"
  by (rule recovery_scope_minimal [THEN conjunct2, THEN conjunct2, rule_format, where codes = "[''T01'', ''N01'']"
        and scopes = "[demo_scope RL_PAGE ''p'', demo_scope RL_CELL ''c'', demo_scope RL_TABLE ''t'']"])
    (simp add: demo_scope_chosen, auto)

text \<open>Fact: a recovery is planned once per idempotency key. A new key gets the task of the smallest safe scope
  and its variant; afterwards, whatever is planned or accepted in between, the same request returns the
  same task and changes nothing, and a request with another identity is refused under that key.\<close>

theorem recovery_planned_once:
  assumes "plan_recovery E q k s = (Inr t, s1)"
  shows "(rpl_tasks_by_key (fst s) k = None \<longrightarrow>
      (\<exists>scope. minimum_valid_scope (pq_failure_codes q) (pq_scopes q) = Inr scope \<and> rtk_scope t = scope
        \<and> rtk_variant t = choose_variant (pq_failure_codes q) scope \<and> rtk_key t = k))
    \<and> plan_recovery E q k (run_ops (recovery_op E) cs s1) = (Inr t, run_ops (recovery_op E) cs s1)
    \<and> (plan_ident E q' \<noteq> plan_ident E q \<longrightarrow>
        (\<exists>e. plan_recovery E q' k (run_ops (recovery_op E) cs s1) = (Inl e, run_ops (recovery_op E) cs s1)))"
proof (intro conjI impI)
  assume new: "rpl_tasks_by_key (fst s) k = None"
  obtain rp oj rp' oj' where s: "s = (rp, oj)" "s1 = (rp', oj')" by fastforce
  have "plan_recovery E q k (rp, oj) = (Inr t, (rp', oj'))" using assms s by simp
  then show "\<exists>scope. minimum_valid_scope (pq_failure_codes q) (pq_scopes q) = Inr scope \<and> rtk_scope t = scope
        \<and> rtk_variant t = choose_variant (pq_failure_codes q) scope \<and> rtk_key t = k"
    by (rule plan_recovery_cases) (use new in \<open>auto simp: s planned_task_def\<close>)
next
  show "plan_recovery E q k (run_ops (recovery_op E) cs s1) = (Inr t, run_ops (recovery_op E) cs s1)"
    by (rule planning.replay_after [OF assms])
next
  assume "plan_ident E q' \<noteq> plan_ident E q"
  then show "\<exists>e. plan_recovery E q' k (run_ops (recovery_op E) cs s1) = (Inl e, run_ops (recovery_op E) cs s1)"
    by (rule planning.conflict_after [OF assms])
qed

definition demo_plan_request :: plan_request where
  "demo_plan_request = \<lparr>pq_base_attempt_id = ''a'', pq_base_prediction_sha256 = replicate 64 (CHR ''0''),
     pq_scopes = [demo_scope RL_PAGE ''p'', demo_scope RL_CELL ''c'', demo_scope RL_TABLE ''t''],
     pq_failure_codes = [''T01'', ''N01''], pq_parser_recipe = ''r'', pq_created_at = Aware 0\<rparr>"

definition demo_task :: "renv \<Rightarrow> string \<Rightarrow> recovery_task" where
  "demo_task E key = planned_task E demo_plan_request (demo_scope RL_TABLE ''t'') key"

definition demo_planner :: "renv \<Rightarrow> string \<Rightarrow> recovery_planner \<Rightarrow> recovery_planner" where
  "demo_planner E key rp =
    rp\<lparr>rpl_tasks_by_key := (rpl_tasks_by_key rp)(key \<mapsto> demo_task E key),
       rpl_tasks_by_id := (rpl_tasks_by_id rp)(rtk_task_id (demo_task E key) \<mapsto> demo_task E key)\<rparr>"

lemma emit_all_None: "emit_all E rs None = (Inr (), None)"
  by (induction E rs "None :: journal option" rule: emit_all.induct) simp_all

lemma demo_plan:
  assumes "rpl_tasks_by_key rp key = None"
  shows "plan_recovery E demo_plan_request key (rp, None) = (Inr (demo_task E key), (demo_planner E key rp, None))"
proof -
  have "mk_recovery_task (demo_task E key) = Inr (demo_task E key)"
    unfolding mk_recovery_task_def require_all_Inr_iff
    by (simp add: demo_task_def planned_task_def demo_plan_request_def is_sha256_def)
  moreover have "minimum_valid_scope (pq_failure_codes demo_plan_request) (pq_scopes demo_plan_request)
      = Inr (demo_scope RL_TABLE ''t'')" using demo_scope_chosen by (simp add: demo_plan_request_def)
  moreover have "is_sha256 (pq_base_prediction_sha256 demo_plan_request)"
    by (simp add: demo_plan_request_def is_sha256_def)
  ultimately show ?thesis using assms
    by (simp add: plan_recovery_def demo_task_def [symmetric] demo_planner_def with_events_def emit_all_None)
qed

lemma demo_first_plan: "plan_recovery E demo_plan_request ''k'' (new_recovery_planner, None)
     = (Inr (demo_task E ''k''), (demo_planner E ''k'' new_recovery_planner, None))"
  by (rule demo_plan) (simp add: new_recovery_planner_def)

theorem recovery_planned_once_witness:
  "plan_recovery demo_digest_env demo_plan_request ''k''
      (run_ops (recovery_op demo_digest_env) [PlanCall demo_plan_request ''other'']
         (demo_planner demo_digest_env ''k'' new_recovery_planner, None))
    = (Inr (demo_task demo_digest_env ''k''),
       run_ops (recovery_op demo_digest_env) [PlanCall demo_plan_request ''other'']
         (demo_planner demo_digest_env ''k'' new_recovery_planner, None))"
  using recovery_planned_once [OF demo_first_plan] by blast

text \<open>C26: only a validated, changed and independent repair is accepted. A first decision on a registered
  task accepts exactly when the validation passed without hard failure, source evidence is given, the
  repairing family differs from the base family, and the prediction changed and has a diff; an
  accepted repair selects its attempt and prediction, is AUTO_REPAIRED and lists exactly the objects
  derived from the repaired scope; a refused one selects nothing, impacts nothing and has a reason.\<close>

theorem recovery_acceptance_exact:
  assumes "accept_recovery E c t s = (Inr d, s1)"
    and "rpl_decisions (fst s) (rtk_task_id (rcn_task c)) = None"
  shows "rpl_tasks_by_id (fst s) (rtk_task_id (rcn_task c)) = Some (rcn_task c)
    \<and> (rdc_accepted d \<longleftrightarrow> vr_passed (rcn_validation c) \<and> vr_hard_failure_count (rcn_validation c) = 0
        \<and> rcn_source_evidence c \<noteq> [] \<and> rcn_base_family c \<noteq> rcn_repair_family c
        \<and> rcn_prediction_sha256 c \<noteq> rtk_base_prediction_sha256 (rcn_task c) \<and> rcn_diff_sha256 c \<noteq> [])
    \<and> (rdc_accepted d \<longleftrightarrow> rdc_selected_attempt_id d = Some (rcn_repair_attempt_id c))
    \<and> (rdc_accepted d \<longleftrightarrow> rdc_repaired_prediction_sha256 d = Some (rcn_prediction_sha256 c))
    \<and> rdc_state d = (if rdc_accepted d then VS_AUTO_REPAIRED else VS_UNRESOLVED)
    \<and> set (rdc_impacted_object_ids d) = (if rdc_accepted d
        then (derives (rcn_lineage_edges c))\<^sup>* `` {rsc_scope_id (rtk_scope (rcn_task c))}
               - {rsc_scope_id (rtk_scope (rcn_task c))} else {})
    \<and> (rdc_accepted d \<longleftrightarrow> rdc_reason_codes d = [])"
proof -
  obtain rp oj rp' oj' where s: "s = (rp, oj)" "s1 = (rp', oj')" by fastforce
  have acc: "accept_recovery E c t (rp, oj) = (Inr d, (rp', oj'))" using assms(1) s by simp
  then have d: "d = recovery_verdict E c"
    and reg: "rpl_tasks_by_id rp (rtk_task_id (rcn_task c)) = Some (rcn_task c)"
    by (rule accept_recovery_cases; use assms(2) s in auto)+
  have reasons: "recovery_reasons c = [] \<longleftrightarrow> vr_passed (rcn_validation c) \<and> vr_hard_failure_count (rcn_validation c) = 0
        \<and> rcn_source_evidence c \<noteq> [] \<and> rcn_base_family c \<noteq> rcn_repair_family c
        \<and> rcn_prediction_sha256 c \<noteq> rtk_base_prediction_sha256 (rcn_task c) \<and> rcn_diff_sha256 c \<noteq> []"
    by (auto simp: recovery_reasons_def)
  have imp: "set (impacted_descendants [x] es) = (derives es)\<^sup>* `` {x} - {x}" for x es
    using impacted_exact [of "[x]" es] by simp
  show ?thesis
  proof (cases "recovery_reasons c = []")
    case True
    with reasons show ?thesis unfolding d using reg s by (simp add: recovery_verdict_def Let_def imp)
  next
    case False
    then have "sort (recovery_reasons c) \<noteq> []" by (metis length_0_conv length_sort)
    with False show ?thesis unfolding d reasons [symmetric] using reg s by (simp add: recovery_verdict_def Let_def)
  qed
qed

text \<open>Fact: a recovery decision is final. Once a candidate of a task is decided, whatever is planned or
  accepted afterwards the decision stays recorded, and accepting a candidate of that task again
  returns that very decision or raises, and changes nothing.\<close>

theorem recovery_decision_final:
  assumes "accept_recovery E c t s = (Inr d, s1)" and "rtk_task_id (rcn_task c') = rtk_task_id (rcn_task c)"
    and "s2 = run_ops (recovery_op E) cs s1"
  shows "rpl_decisions (fst s2) (rtk_task_id (rcn_task c)) = Some (candidate_digest E c, d)
    \<and> snd (accept_recovery E c' t' s2) = s2
    \<and> (\<forall>d'. fst (accept_recovery E c' t' s2) = Inr d' \<longrightarrow> d' = d \<and> candidate_digest E c' = candidate_digest E c)"
proof -
  obtain rp oj rp' oj' where s: "s = (rp, oj)" "s1 = (rp', oj')" by fastforce
  have "accept_recovery E c t (rp, oj) = (Inr d, (rp', oj'))" using assms(1) s by simp
  then have "rpl_decisions (fst s1) (rtk_task_id (rcn_task c)) = Some (candidate_digest E c, d)"
    by (rule accept_recovery_cases) (auto simp: s)
  then have kept: "rpl_decisions (fst s2) (rtk_task_id (rcn_task c)) = Some (candidate_digest E c, d)"
    unfolding assms(3) by (rule recovery_decisions.run_keeps)
  then show ?thesis using assms(2)
    by (cases s2) (simp add: accept_recovery_def Let_def)
qed

definition demo_result :: validation_result where
  "demo_result = \<lparr>vr_passed = True, vr_hard_failure_count = 0, vr_results = [], vr_findings = [], vr_digest = ''d''\<rparr>"

definition demo_repair :: "renv \<Rightarrow> string \<Rightarrow> recovery_candidate" where
  "demo_repair E key = \<lparr>rcn_task = demo_task E key, rcn_repair_attempt_id = ''b'',
     rcn_prediction_sha256 = replicate 64 (CHR ''1''), rcn_diff_sha256 = replicate 64 (CHR ''2''),
     rcn_validation = demo_result, rcn_source_evidence = [demo_evidence],
     rcn_base_family = ''f'', rcn_repair_family = ''g'',
     rcn_lineage_edges = [\<lparr>le_source_id = ''t'', le_derived_id = ''o''\<rparr>]\<rparr>"

lemma demo_repair_accepted:
  "accept_recovery E (demo_repair E ''k'') t (demo_planner E ''k'' new_recovery_planner, None)
    = (Inr (recovery_verdict E (demo_repair E ''k'')),
       ((demo_planner E ''k'' new_recovery_planner)\<lparr>rpl_decisions := Map.empty(rtk_task_id (demo_task E ''k'') \<mapsto>
          (candidate_digest E (demo_repair E ''k''), recovery_verdict E (demo_repair E ''k'')))\<rparr>, None))"
proof -
  have r: "rcn_task (demo_repair E ''k'') = demo_task E ''k''" by (simp add: demo_repair_def)
  have "rpl_tasks_by_id (demo_planner E ''k'' new_recovery_planner) (rtk_task_id (demo_task E ''k'')) = Some (demo_task E ''k'')"
    "rpl_decisions (demo_planner E ''k'' new_recovery_planner) = Map.empty"
    by (simp_all add: demo_planner_def new_recovery_planner_def)
  then show ?thesis by (simp add: accept_recovery_def Let_def r emit_all_None)
qed

lemma demo_undecided:
  "rpl_decisions (fst (demo_planner E key new_recovery_planner, None)) i = None"
  by (simp add: demo_planner_def new_recovery_planner_def)

theorem recovery_acceptance_exact_witness:
  "rdc_accepted (recovery_verdict demo_digest_env (demo_repair demo_digest_env ''k''))
   \<and> set (rdc_impacted_object_ids (recovery_verdict demo_digest_env (demo_repair demo_digest_env ''k''))) = {''o''}"
proof -
  have c: "vr_passed (rcn_validation (demo_repair demo_digest_env ''k''))"
    "vr_hard_failure_count (rcn_validation (demo_repair demo_digest_env ''k'')) = 0"
    "rcn_source_evidence (demo_repair demo_digest_env ''k'') \<noteq> []"
    "rcn_base_family (demo_repair demo_digest_env ''k'') \<noteq> rcn_repair_family (demo_repair demo_digest_env ''k'')"
    "rcn_prediction_sha256 (demo_repair demo_digest_env ''k'')
       \<noteq> rtk_base_prediction_sha256 (rcn_task (demo_repair demo_digest_env ''k''))"
    "rcn_diff_sha256 (demo_repair demo_digest_env ''k'') \<noteq> []"
    by (simp_all add: demo_repair_def demo_result_def demo_task_def planned_task_def demo_plan_request_def)
  have e: "derives (rcn_lineage_edges (demo_repair demo_digest_env ''k'')) = {(''t'', ''o'')}"
    "rsc_scope_id (rtk_scope (rcn_task (demo_repair demo_digest_env ''k''))) = ''t''"
    by (simp_all add: demo_repair_def derives_def demo_task_def planned_task_def demo_scope_def)
  have "{(''t'', ''o'')}\<^sup>* `` {''t''} - {''t''} = {''o'' :: string}"
    by (auto elim: rtranclE)
  with recovery_acceptance_exact [OF demo_repair_accepted [of demo_digest_env] demo_undecided] c e show ?thesis by simp
qed

theorem recovery_decision_final_witness:
  "rpl_decisions (fst (run_ops (recovery_op demo_digest_env) [PlanCall demo_plan_request ''k'']
      (snd (accept_recovery demo_digest_env (demo_repair demo_digest_env ''k'') (Aware 1)
        (demo_planner demo_digest_env ''k'' new_recovery_planner, None)))))
      (rtk_task_id (demo_task demo_digest_env ''k'')) \<noteq> None"
  using recovery_decision_final [OF demo_repair_accepted [of demo_digest_env "Aware 1"] refl refl, of "[PlanCall demo_plan_request ''k'']"]
  by (simp add: demo_repair_accepted) (simp add: demo_repair_def)

text \<open>Fact: the same recovery under a second key orphans the first task. A task id is a digest of the recovery
  input alone, so planning the input again under another key replaces the entry of the first task in
  the index by id; a candidate for the first task is then refused as one of an unknown task.\<close>

theorem replan_orphans_task:
  assumes "plan_recovery E q k1 s = (Inr t1, s1)" and "plan_recovery E q k2 s1 = (Inr t2, s2)"
    and "rpl_tasks_by_key (fst s) k1 = None" and "rpl_tasks_by_key (fst s1) k2 = None"
    and "rcn_task c = t1"
  shows "rtk_task_id t2 = rtk_task_id t1
    \<and> accept_recovery E c t s2
        = (Inl (RecoveryConflictError ''recovery candidate references an unknown task''), s2)"
proof -
  obtain rp oj rp1 oj1 rp2 oj2 where s: "s = (rp, oj)" "s1 = (rp1, oj1)" "s2 = (rp2, oj2)" by fastforce
  from assms(1) s have "plan_recovery E q k1 (rp, oj) = (Inr t1, (rp1, oj1))" by simp
  then obtain scope where m: "minimum_valid_scope (pq_failure_codes q) (pq_scopes q) = Inr scope"
    and t1: "t1 = planned_task E q scope k1" and k1: "rpl_tasks_by_key rp1 k1 = Some t1"
    by (rule plan_recovery_cases) (use assms(3) s in auto)
  from assms(2) s have "plan_recovery E q k2 (rp1, oj1) = (Inr t2, (rp2, oj2))" by simp
  then have t2: "t2 = planned_task E q scope k2" and i2: "rpl_tasks_by_id rp2 (rtk_task_id t2) = Some t2"
    by (rule plan_recovery_cases; use assms(4) s m in auto)+
  have "k1 \<noteq> k2" using k1 assms(4) s by auto
  then have "t1 \<noteq> t2" by (simp add: t1 t2 planned_task_def)
  moreover have "rtk_task_id t2 = rtk_task_id t1" by (simp add: t1 t2 planned_task_def)
  ultimately show ?thesis using i2 assms(5) by (simp add: s accept_recovery_def Let_def)
qed

theorem replan_orphans_task_witness:
  "fst (accept_recovery demo_digest_env (demo_repair demo_digest_env ''k'') (Aware 1)
      (demo_planner demo_digest_env ''l'' (demo_planner demo_digest_env ''k'' new_recovery_planner), None))
    = Inl (RecoveryConflictError ''recovery candidate references an unknown task'')"
proof -
  have n: "rpl_tasks_by_key (demo_planner demo_digest_env ''k'' new_recovery_planner) ''l'' = None"
    by (simp add: demo_planner_def new_recovery_planner_def)
  have "rcn_task (demo_repair demo_digest_env ''k'') = demo_task demo_digest_env ''k''" by (simp add: demo_repair_def)
  from replan_orphans_task [OF demo_first_plan demo_plan [OF n] _ _ this, of "Aware 1"] n show ?thesis
    by (simp add: new_recovery_planner_def)
qed

text \<open>C27: broadening a scope ends, and skips page groups after page pairs. The scope that replaces another
  is one of the candidates with a strictly broader level, and is the least such; broadening gives up
  exactly when no candidate is broader; whatever the candidates, a chain of broadenings visits no
  scope twice and has at most seven scopes; and after a page pair only a whole document can follow.\<close>

theorem broadening_ends:
  "(\<forall>s. next_broader_scope cur cs = Some s \<longrightarrow> s \<in> set cs \<and> level_order (rsc_level cur) < level_order (rsc_level s)
      \<and> (\<forall>s' \<in> set cs. level_order (rsc_level cur) < level_order (rsc_level s') \<longrightarrow> scope_key s \<le> scope_key s')
      \<and> (rsc_level cur = RL_PAGE_PAIR \<longrightarrow> rsc_level s = RL_DOCUMENT))
   \<and> (next_broader_scope cur cs = None \<longleftrightarrow> (\<forall>s \<in> set cs. level_order (rsc_level s) \<le> level_order (rsc_level cur)))
   \<and> (successively (\<lambda>a b. \<exists>cs. next_broader_scope a cs = Some b) chain \<longrightarrow> distinct chain \<and> length chain \<le> 7)"
proof (intro conjI allI impI)
  let ?bs = "filter (\<lambda>s. level_order (rsc_level s) > level_order (rsc_level cur)) cs"
  fix s assume n: "next_broader_scope cur cs = Some s"
  show "s \<in> set cs" "level_order (rsc_level cur) < level_order (rsc_level s)" using broader_mem [OF n] by blast+
  then show "rsc_level s = RL_DOCUMENT" if "rsc_level cur = RL_PAGE_PAIR"
    using that by (cases "rsc_level s") simp_all
  have "?bs \<noteq> []" "s = hd (sort_key scope_key ?bs)"
    using n by (auto simp: next_broader_scope_def Let_def split: if_splits)
  then show "\<forall>s' \<in> set cs. level_order (rsc_level cur) < level_order (rsc_level s') \<longrightarrow> scope_key s \<le> scope_key s'"
    using sort_key_hd_min(2) [of ?bs _ scope_key] by simp
next
  show "next_broader_scope cur cs = None \<longleftrightarrow> (\<forall>s \<in> set cs. level_order (rsc_level s) \<le> level_order (rsc_level cur))"
    by (auto simp: next_broader_scope_def Let_def filter_empty_conv not_less)
next
  assume c: "successively (\<lambda>a b. \<exists>cs. next_broader_scope a cs = Some b) chain"
  show "distinct chain" by (rule broadening.path_distinct [OF c])
  show "length chain \<le> 7" using broadening.path_length [OF c] by simp
qed

theorem broadening_ends_witness:
  "distinct [demo_scope RL_CELL ''c'', demo_scope RL_PAGE_PAIR ''p'', demo_scope RL_DOCUMENT ''d'']"
proof -
  have "next_broader_scope (demo_scope RL_CELL ''c'') [demo_scope RL_PAGE_PAIR ''p''] = Some (demo_scope RL_PAGE_PAIR ''p'')"
    "next_broader_scope (demo_scope RL_PAGE_PAIR ''p'') [demo_scope RL_PAGE_GROUP ''g'', demo_scope RL_DOCUMENT ''d'']
      = Some (demo_scope RL_DOCUMENT ''d'')"
    by code_simp+
  then have "successively (\<lambda>a b. \<exists>cs. next_broader_scope a cs = Some b)
      [demo_scope RL_CELL ''c'', demo_scope RL_PAGE_PAIR ''p'', demo_scope RL_DOCUMENT ''d'']" by auto
  then show ?thesis using broadening_ends by blast
qed

text \<open>Fact: the two planners agree on a single failure. For one registered failure code the front door
  \<open>plan_minimal_recovery\<close> returns the scope and the variant that the recovery planner chooses for its
  value; for several codes its variant is one of theirs. It never is the authority mapping.\<close>

theorem front_door_agrees:
  assumes "plan_minimal_recovery fs scopes = Inr (s, v)"
  shows "minimum_valid_scope (map failure_value fs) scopes = Inr s \<and> v \<in> failure_variants ` set fs
    \<and> v \<noteq> PV_AUTHORITY_MAPPING \<and> (length fs = 1 \<longrightarrow> v = choose_variant (map failure_value fs) s)"
proof -
  have na: "failure_variants f \<noteq> PV_AUTHORITY_MAPPING" for f by (cases f) simp_all
  have one: "choose_variant [failure_value f] s = failure_variants f" for f
    by (cases f) (simp_all add: choose_variant_def hits_def)
  have ne: "fs \<noteq> []" and m: "minimum_valid_scope (map failure_value fs) scopes = Inr s"
    using assms by (auto simp: plan_minimal_recovery_def mapR_def Let_def split: if_splits sum.splits)
  have "PV_AUTHORITY_MAPPING \<notin> set (map failure_variants fs)" using na by (metis ex_map_conv)
  with assms ne m have v: "v = hd (sort_key variant_value (map failure_variants fs))"
    by (simp add: plan_minimal_recovery_def mapR_def Let_def)
  have "v \<in> set (map failure_variants fs)" unfolding v using ne by (intro sort_key_hd_min(1)) simp
  moreover have "v = choose_variant (map failure_value fs) s" if "length fs = 1"
    using that v one by (cases fs) auto
  ultimately show ?thesis using m na by auto
qed

theorem front_door_agrees_witness:
  "choose_variant [''T01''] (demo_scope RL_ROW ''r'') = PV_OVERLAPPING_TILE"
proof -
  have "plan_minimal_recovery [FK_BOTTOM_ROW_OMISSION] [demo_scope RL_ROW ''r'']
      = Inr (demo_scope RL_ROW ''r'', PV_OVERLAPPING_TILE)" by code_simp
  from front_door_agrees [OF this] show ?thesis by simp
qed

lemma front_door_disagrees:
  "\<exists>s. plan_minimal_recovery [FK_BLOCK_OMISSION, FK_COLUMN_SHIFT] [demo_scope RL_REGION ''r''] = Inr (s, PV_CELL_GEOMETRY)
     \<and> choose_variant (map failure_value [FK_BLOCK_OMISSION, FK_COLUMN_SHIFT]) s = PV_REGION_CROP"
proof -
  have "plan_minimal_recovery [FK_BLOCK_OMISSION, FK_COLUMN_SHIFT] [demo_scope RL_REGION ''r'']
      = Inr (demo_scope RL_REGION ''r'', PV_CELL_GEOMETRY)" by code_simp
  moreover have "choose_variant (map failure_value [FK_BLOCK_OMISSION, FK_COLUMN_SHIFT]) (demo_scope RL_REGION ''r'')
      = PV_REGION_CROP" by (simp add: choose_variant_def hits_def)
  ultimately show ?thesis by blast
qed

end
