(* ===== verification/Finalization.thy ===== *)
theory Finalization
  imports Journal
begin

text \<open>
  \<^verbatim>\<open>akc_parallel_runtime/finalization.py\<close>: the fail-closed finalization of a document. The state
  is the dictionary of remembered results beside the optional journal.
\<close>

section \<open>Data\<close>

record finalization_unit =
  fu_unit_id :: string
  fu_state :: verification_state
  fu_prediction_sha256 :: "string option"
  fu_source_refs :: "string list"
  fu_provenance_attempt_ids :: "string list"
  fu_required :: bool
  fu_reason_codes :: "string list"

definition mk_finalization_unit :: "finalization_unit \<Rightarrow> pyerr + finalization_unit" where
  "mk_finalization_unit u = require_all
     [(fu_unit_id u \<noteq> [], ValueError ''finalization unit id is required''),
      (case fu_prediction_sha256 u of None \<Rightarrow> True | Some d \<Rightarrow> is_sha256 d, sha_err),
      (\<not> (accepted_verification (fu_state u) \<and> (fu_prediction_sha256 u = None \<or> fu_source_refs u = []
            \<or> fu_provenance_attempt_ids u = [])),
        ValueError ''accepted units require prediction, source, and attempt provenance''),
      (\<not> (fu_state u = VS_AUTO_REPAIRED \<and> length (fu_provenance_attempt_ids u) < 2),
        ValueError ''auto-repaired units must preserve base and repair attempt lineage'')] u"

record unresolved_entry =
  ue_unit_id :: string
  ue_state :: verification_state
  ue_reason_codes :: "string list"
  ue_source_refs :: "string list"

record finalization_result =
  fz_finalization_id :: string
  fz_document_version_id :: string
  fz_merge_sha256 :: string
  fz_publishable :: bool
  fz_accepted_units :: "finalization_unit list"
  fz_unresolved_manifest :: "unresolved_entry list"
  fz_excluded_unit_ids :: "string list"
  fz_billable_unit_ids :: "string list"
  fz_manifest_sha256 :: string
  fz_reason_codes :: "string list"

type_synonym finalizer = "string \<rightharpoonup> string \<times> finalization_result"

type_synonym finalizer_st = "finalizer \<times> journal option"

section \<open>finalize\<close>

record finalize_request =
  fr_document_version_id :: string
  fr_units :: "finalization_unit list"
  fr_merge_sha256 :: string
  fr_occurred_at :: datetime

definition junit :: "finalization_unit \<Rightarrow> jval" where
  "junit u = JObj [(''unit_id'', JStr (fu_unit_id u)), (''state'', JStr (verification_value (fu_state u))),
     (''prediction_sha256'', jopt (fu_prediction_sha256 u)),
     (''source_refs'', JList (map JStr (fu_source_refs u))),
     (''provenance_attempt_ids'', JList (map JStr (fu_provenance_attempt_ids u))),
     (''required'', JBool (fu_required u)), (''reason_codes'', JList (map JStr (fu_reason_codes u)))]"

definition finalize_digest :: "renv \<Rightarrow> finalize_request \<Rightarrow> string" where
  "finalize_digest E q = jsha E (JObj [(''document_version_id'', JStr (fr_document_version_id q)),
     (''units'', JList (map junit (fr_units q))), (''merge_sha256'', JStr (fr_merge_sha256 q))])"

definition unresolved_of :: "finalization_unit \<Rightarrow> unresolved_entry" where
  "unresolved_of u = \<lparr>ue_unit_id = fu_unit_id u, ue_state = fu_state u,
     ue_reason_codes = (if fu_reason_codes u \<noteq> [] then fu_reason_codes u
                        else [verification_value (fu_state u) @ ''_excluded'']),
     ue_source_refs = fu_source_refs u\<rparr>"

definition junresolved :: "unresolved_entry \<Rightarrow> jval" where
  "junresolved e = JObj [(''unit_id'', JStr (ue_unit_id e)), (''state'', JStr (verification_value (ue_state e))),
     (''reason_codes'', JList (map JStr (ue_reason_codes e))),
     (''source_refs'', JList (map JStr (ue_source_refs e)))]"

definition finalization_of :: "renv \<Rightarrow> finalize_request \<Rightarrow> finalization_result" where
  "finalization_of E q =
    (let units = fr_units q;
         accepted = filter (\<lambda>u. accepted_verification (fu_state u)) units;
         unresolved = map unresolved_of (filter (\<lambda>u. fu_state u = VS_UNRESOLVED) units);
         excluded = map fu_unit_id (filter (\<lambda>u. fu_state u \<in> {VS_QUARANTINED, VS_FAILED}) units);
         failures = filter (\<lambda>u. fu_required u \<and> \<not> accepted_verification (fu_state u)) units;
         publishable = (failures = []);
         reasons = sorted_set (map (\<lambda>u. ''required_'' @ verification_value (fu_state u)) failures);
         digest = jsha E (JObj [(''document_version_id'', JStr (fr_document_version_id q)),
           (''merge_sha256'', JStr (fr_merge_sha256 q)),
           (''accepted_unit_ids'', JList (map (\<lambda>u. JStr (fu_unit_id u)) accepted)),
           (''unresolved'', JList (map junresolved unresolved)),
           (''excluded'', JList (map JStr excluded)), (''publishable'', JBool publishable),
           (''reason_codes'', JList (map JStr reasons))])
     in \<lparr>fz_finalization_id = stable_id E ''finalization'' [JStr (fr_document_version_id q), JStr digest],
         fz_document_version_id = fr_document_version_id q, fz_merge_sha256 = fr_merge_sha256 q,
         fz_publishable = publishable, fz_accepted_units = accepted,
         fz_unresolved_manifest = unresolved, fz_excluded_unit_ids = excluded,
         fz_billable_unit_ids = map fu_unit_id accepted, fz_manifest_sha256 = digest,
         fz_reason_codes = reasons\<rparr>)"

definition finalized_events :: "finalize_request \<Rightarrow> finalization_result \<Rightarrow> string \<Rightarrow> event_request list" where
  "finalized_events q r key = (if fz_publishable r then
     [(''document.finalized.v1'', fr_document_version_id q,
       [(''finalization_id'', PStr (fz_finalization_id r)), (''manifest_sha256'', PStr (fz_manifest_sha256 r)),
        (''accepted_units'', PInt (int (length (fz_accepted_units r))))],
       fr_occurred_at q, ''document-finalized:'' @ key)] else [])"

text \<open>The checks before the idempotency key is looked up.\<close>

definition finalize_checks :: "finalize_request \<Rightarrow> pyerr + unit" where
  "finalize_checks q =
    (if fr_units q = [] \<or> \<not> distinct (map fu_unit_id (fr_units q))
     then Inl (ValueError ''finalization requires unique non-empty units'')
     else if \<not> is_sha256 (fr_merge_sha256 q) then Inl sha_err else Inr ())"

definition finalize :: "renv \<Rightarrow> finalize_request \<Rightarrow> string \<Rightarrow> finalizer_st \<Rightarrow> (finalizer_st, finalization_result) outcome" where
  "finalize E q key s =
    (case s of (fz, oj) \<Rightarrow>
     (case finalize_checks q of
       Inl e \<Rightarrow> (Inl e, s)
     | Inr _ \<Rightarrow>
        (case fz key of
          Some (digest, result) \<Rightarrow>
            (if digest \<noteq> finalize_digest E q then (Inl FinalizationConflictError, s) else (Inr result, s))
        | None \<Rightarrow>
            let result = finalization_of E q
            in with_events (fz(key \<mapsto> (finalize_digest E q, result))) result
                 (emit_all E (finalized_events q result key) oj))))"

definition finalize_op :: "renv \<Rightarrow> finalize_request \<times> string \<Rightarrow> finalizer_st \<Rightarrow> (finalizer_st, finalization_result) outcome" where
  "finalize_op E c = finalize E (fst c) (snd c)"

section \<open>Lemmas\<close>

definition finalize_ok :: "finalize_request \<Rightarrow> bool" where
  "finalize_ok q \<longleftrightarrow> finalize_checks q = Inr ()"

lemma finalize_known:
  "finalize_ok q \<Longrightarrow> fz k = Some (d, r) \<Longrightarrow>
   finalize E q k (fz, oj) = (if d = finalize_digest E q then Inr r else Inl FinalizationConflictError, (fz, oj))"
  by (simp add: finalize_def finalize_ok_def)

lemma finalize_fresh:
  assumes "finalize_ok q" and "fz k = None"
  shows "finalize E q k (fz, oj) = with_events (fz(k \<mapsto> (finalize_digest E q, finalization_of E q)))
    (finalization_of E q) (emit_all E (finalized_events q (finalization_of E q) k) oj)"
  using assms by (simp add: finalize_def finalize_ok_def Let_def)

lemma finalize_keeps:
  assumes "fst s k = Some v"
  shows "fst (snd (finalize_op E c s)) k = Some v"
proof (cases "finalize_ok (fst c)")
  case False
  then show ?thesis using assms
    by (cases s) (auto simp: finalize_op_def finalize_def finalize_ok_def split: sum.splits)
next
  case True
  obtain fz oj where s: "s = (fz, oj)" by fastforce
  show ?thesis
  proof (cases "fz (snd c)")
    case None
    then show ?thesis using assms s by (auto simp: finalize_op_def finalize_fresh [where fz = fz and k = "snd c", OF True None])
  next
    case (Some w)
    then show ?thesis using assms s
      by (cases w) (simp add: finalize_op_def finalize_known [OF True])
  qed
qed

interpretation finalizing: keyed_once "\<lambda>s. fst s" "finalize_digest E" "\<lambda>q s. finalize_ok q"
  "finalize E" "finalize_op E" for E
proof (unfold_locales, goal_cases)
  case (1 q s k r)
  then show ?case by (cases s) (simp add: finalize_known)
next
  case (2 q s k i r)
  then show ?case by (cases s) (simp add: finalize_known)
next
  case (3 q s k)
  then show ?case by (cases s) (auto simp: finalize_def finalize_ok_def split: sum.splits)
next
  case (4 q k s r s')
  obtain fz oj fz' oj' where s: "s = (fz, oj)" "s' = (fz', oj')" by fastforce
  have ok: "finalize_ok q" using 4 s by (auto simp: finalize_def finalize_ok_def split: sum.splits)
  show ?case
  proof (cases "fz k")
    case None
    then show ?thesis using 4 s ok with_events_eqD by (fastforce simp: finalize_fresh)
  next
    case (Some w)
    then show ?thesis using 4 s ok by (cases w) (auto simp: finalize_known split: if_splits)
  qed
next
  case (5 s k v c)
  then show ?case by (rule finalize_keeps)
next
  case (6 q s c)
  then show ?case by simp
qed

section \<open>Properties\<close>

text \<open>C40: finalization fails closed. A first finalization is publishable exactly when every required unit is
  in an accepted state; exactly the accepted units are listed and billed, in their order; unresolved
  units are manifested with a reason, and quarantined and failed ones excluded, so that every unit
  appears in exactly one of the three lists; a document that is not publishable names why and is
  never announced as finalized.\<close>

theorem finalization_fails_closed:
  assumes "finalize E q k (fz, oj) = (res, s')" and "finalize_ok q" and "fz k = None"
  defines "r \<equiv> finalization_of E q"
  shows "(fz_publishable r \<longleftrightarrow> (\<forall>u \<in> set (fr_units q). fu_required u \<longrightarrow> accepted_verification (fu_state u)))
    \<and> fz_accepted_units r = filter (\<lambda>u. accepted_verification (fu_state u)) (fr_units q)
    \<and> fz_billable_unit_ids r = map fu_unit_id (fz_accepted_units r)
    \<and> mset (fz_billable_unit_ids r @ map ue_unit_id (fz_unresolved_manifest r) @ fz_excluded_unit_ids r)
        = mset (map fu_unit_id (fr_units q))
    \<and> (\<forall>e \<in> set (fz_unresolved_manifest r). ue_reason_codes e \<noteq> [])
    \<and> (fz_publishable r \<longleftrightarrow> fz_reason_codes r = []) \<and> fst s' k = Some (finalize_digest E q, r) \<and> (\<forall>x. res = Inr x \<longrightarrow> x = r)
    \<and> (\<not> fz_publishable r \<longrightarrow> res = Inr r \<and> snd s' = oj)"
proof -
  have split: "mset (map f (filter (\<lambda>u. accepted_verification (fu_state u)) us)
      @ map f (filter (\<lambda>u. fu_state u = VS_UNRESOLVED) us)
      @ map f (filter (\<lambda>u. fu_state u \<in> {VS_QUARANTINED, VS_FAILED}) us)) = mset (map f us)"
    for f :: "finalization_unit \<Rightarrow> string" and us
  proof (induction us)
    case Nil
    then show ?case by simp
  next
    case (Cons u us)
    then show ?case by (cases "fu_state u") (simp_all add: accepted_verification_def)
  qed
  have ids: "map ue_unit_id (map unresolved_of us) = map fu_unit_id us" for us
    by (simp add: unresolved_of_def)
  have run: "with_events (fz(k \<mapsto> (finalize_digest E q, r))) r (emit_all E (finalized_events q r k) oj) = (res, s')"
    using assms(1) finalize_fresh [of q fz k E oj, OF assms(2,3)] by (simp add: r_def)
  obtain fz' oj' where s': "s' = (fz', oj')" by fastforce
  from with_events_eqD [OF run [unfolded s']] have kept: "fz' = fz(k \<mapsto> (finalize_digest E q, r))"
    "res = Inr r \<or> (\<exists>e. res = Inl e)" by blast+
  have quiet: "res = Inr r \<and> oj' = oj" if "\<not> fz_publishable r"
    using run that by (simp add: s' finalized_events_def with_events_def)
  have lists: "fz_accepted_units r = filter (\<lambda>u. accepted_verification (fu_state u)) (fr_units q)"
    "fz_billable_unit_ids r = map fu_unit_id (fz_accepted_units r)"
    "fz_unresolved_manifest r = map unresolved_of (filter (\<lambda>u. fu_state u = VS_UNRESOLVED) (fr_units q))"
    "fz_excluded_unit_ids r = map fu_unit_id (filter (\<lambda>u. fu_state u \<in> {VS_QUARANTINED, VS_FAILED}) (fr_units q))"
    by (simp_all add: r_def finalization_of_def Let_def)
  have pub: "fz_publishable r \<longleftrightarrow> (\<forall>u \<in> set (fr_units q). fu_required u \<longrightarrow> accepted_verification (fu_state u))"
    "fz_publishable r \<longleftrightarrow> fz_reason_codes r = []"
    by (auto simp: r_def finalization_of_def Let_def filter_empty_conv)
  have parts: "mset (fz_billable_unit_ids r @ map ue_unit_id (fz_unresolved_manifest r) @ fz_excluded_unit_ids r)
        = mset (map fu_unit_id (fr_units q))"
    unfolding lists ids by (rule split)
  have named: "\<forall>e \<in> set (fz_unresolved_manifest r). ue_reason_codes e \<noteq> []"
    unfolding lists by (auto simp: unresolved_of_def)
  have kept': "fst s' k = Some (finalize_digest E q, r)" "\<forall>x. res = Inr x \<longrightarrow> x = r"
    using kept by (auto simp: s')
  have quiet': "\<not> fz_publishable r \<longrightarrow> res = Inr r \<and> snd s' = oj" using quiet by (simp add: s')
  show ?thesis by (intro conjI) (fact pub lists parts named kept' quiet')+
qed

definition demo_unit :: "string \<Rightarrow> verification_state \<Rightarrow> bool \<Rightarrow> finalization_unit" where
  "demo_unit i st req = \<lparr>fu_unit_id = i, fu_state = st, fu_prediction_sha256 = Some (replicate 64 (CHR ''0'')),
     fu_source_refs = [''s''], fu_provenance_attempt_ids = [''a''], fu_required = req, fu_reason_codes = []\<rparr>"

definition demo_finalize :: finalize_request where
  "demo_finalize = \<lparr>fr_document_version_id = ''v'',
     fr_units = [demo_unit ''x'' VS_VERIFIED True, demo_unit ''y'' VS_UNRESOLVED False, demo_unit ''z'' VS_FAILED False],
     fr_merge_sha256 = replicate 64 (CHR ''1''), fr_occurred_at = Aware 0\<rparr>"

lemma demo_finalize_ok: "finalize_ok demo_finalize"
  by (simp add: finalize_ok_def finalize_checks_def demo_finalize_def demo_unit_def is_sha256_def)

lemma demo_finalize_run:
  "finalize E demo_finalize k (Map.empty, None)
    = (Inr (finalization_of E demo_finalize),
       (Map.empty(k \<mapsto> (finalize_digest E demo_finalize, finalization_of E demo_finalize)), None))"
  using demo_finalize_ok
  by (simp add: finalize_def finalize_ok_def Let_def with_events_def finalized_events_def)

theorem finalization_fails_closed_witness:
  "fz_publishable (finalization_of demo_renv demo_finalize)
   \<and> fz_billable_unit_ids (finalization_of demo_renv demo_finalize) = [''x'']"
  using finalization_fails_closed [OF demo_finalize_run demo_finalize_ok, of demo_renv]
  by (simp add: demo_finalize_def demo_unit_def accepted_verification_def)

text \<open>Fact: a document is finalized once per idempotency key. A repeated request returns the first result and
  changes nothing, whatever was finalized in between, and the key admits no other input.\<close>

theorem finalized_once:
  assumes "finalize E q k s = (Inr r, s1)"
  shows "finalize E q k (run_ops (finalize_op E) cs s1) = (Inr r, run_ops (finalize_op E) cs s1)
    \<and> (finalize_digest E q' \<noteq> finalize_digest E q \<longrightarrow>
        (\<exists>e. finalize E q' k (run_ops (finalize_op E) cs s1) = (Inl e, run_ops (finalize_op E) cs s1)))"
  using finalizing.replay_after [OF assms] finalizing.conflict_after [OF assms] by blast

theorem finalized_once_witness:
  "fst (finalize demo_renv demo_finalize ''k'' (run_ops (finalize_op demo_renv) [(demo_finalize, ''l'')]
     (snd (finalize demo_renv demo_finalize ''k'' (Map.empty, None)))))
    = Inr (finalization_of demo_renv demo_finalize)"
  using finalized_once [OF demo_finalize_run, of demo_renv "''k''" "[(demo_finalize, ''l'')]"]
  by (simp add: demo_finalize_run)

text \<open>Fact: an announcement that fails is lost. When the journal refuses the event of a publishable document
  (a naive or too early time, say), the call raises although the result is already remembered; the
  same request then succeeds and the event is never appended.\<close>

theorem finalize_event_lost:
  assumes "finalize_ok q" and "fz k = None" and "fz_publishable (finalization_of E q)"
    and "emit_all E (finalized_events q (finalization_of E q) k) oj = (Inl e, oj')"
  shows "\<exists>s1. finalize E q k (fz, oj) = (Inl e, s1) \<and> snd s1 = oj'
    \<and> finalize E q k s1 = (Inr (finalization_of E q), s1)"
proof -
  let ?s1 = "(fz(k \<mapsto> (finalize_digest E q, finalization_of E q)), oj')"
  have "finalize E q k (fz, oj) = (Inl e, ?s1)"
    using finalize_fresh [of q fz k E oj, OF assms(1,2)] assms(4) by (simp add: with_events_def)
  moreover have "finalize E q k ?s1 = (Inr (finalization_of E q), ?s1)"
    using finalize_known [OF assms(1)] by simp
  ultimately show ?thesis by auto
qed

lemma demo_refused: "emit_all demo_renv (finalized_events (demo_finalize\<lparr>fr_occurred_at := Naive 0\<rparr>)
    (finalization_of demo_renv (demo_finalize\<lparr>fr_occurred_at := Naive 0\<rparr>)) ''k'') (Some new_journal)
  = (Inl (ValueError ''event occurred_at must be timezone-aware''), Some new_journal)"
  by (simp add: finalized_events_def finalization_of_def Let_def demo_finalize_def demo_unit_def
      accepted_verification_def emit_def journal_append_def event_types_def)

theorem finalize_event_lost_witness:
  "\<exists>s1. finalize demo_renv (demo_finalize\<lparr>fr_occurred_at := Naive 0\<rparr>) ''k'' (Map.empty, Some new_journal)
       = (Inl (ValueError ''event occurred_at must be timezone-aware''), s1)
     \<and> snd s1 = Some new_journal
     \<and> (\<exists>r. finalize demo_renv (demo_finalize\<lparr>fr_occurred_at := Naive 0\<rparr>) ''k'' s1 = (Inr r, s1))"
proof -
  have "finalize_ok (demo_finalize\<lparr>fr_occurred_at := Naive 0\<rparr>)"
    by (simp add: finalize_ok_def finalize_checks_def demo_finalize_def demo_unit_def is_sha256_def)
  moreover have "fz_publishable (finalization_of demo_renv (demo_finalize\<lparr>fr_occurred_at := Naive 0\<rparr>))"
    by (simp add: finalization_of_def Let_def demo_finalize_def demo_unit_def accepted_verification_def)
  ultimately show ?thesis using finalize_event_lost [OF _ _ _ demo_refused, of Map.empty] by fastforce
qed

end
