(* ===== verification/Benchmark.thy ===== *)
theory Benchmark
  imports Models
begin

text \<open>
  \<^verbatim>\<open>akc_parallel_runtime/benchmark.py\<close>: the aggregation of one benchmark repeat and the identity
  of the environment across repeats. Decimal arithmetic is written out: every sum and the quotient
  are rounded to the 28 significant digits of the default context, half to even.
\<close>

section \<open>Data\<close>

record benchmark_environment =
  be_runtime_image_digest :: string
  be_model_revision :: string
  be_gpu_class :: string
  be_cuda_version :: string
  be_prompt_sha256 :: string
  be_decoding_sha256 :: string
  be_dataset_sha256 :: string
  be_evaluator_revision :: string
  be_evaluator_thread_safe :: bool

definition mk_benchmark_environment :: "benchmark_environment \<Rightarrow> pyerr + benchmark_environment" where
  "mk_benchmark_environment x = require_all
     [(is_sha256 (be_prompt_sha256 x), sha_err), (is_sha256 (be_decoding_sha256 x), sha_err),
      (is_sha256 (be_dataset_sha256 x), sha_err),
      (be_runtime_image_digest x \<noteq> [] \<and> be_model_revision x \<noteq> [] \<and> be_gpu_class x \<noteq> []
         \<and> be_cuda_version x \<noteq> [] \<and> be_evaluator_revision x \<noteq> [],
        ValueError ''benchmark environment identity fields are required'')] x"

definition environment_digest :: "renv \<Rightarrow> benchmark_environment \<Rightarrow> string" where
  "environment_digest E x = jsha E (JObj
     [(''runtime_image_digest'', JStr (be_runtime_image_digest x)), (''model_revision'', JStr (be_model_revision x)),
      (''gpu_class'', JStr (be_gpu_class x)), (''cuda_version'', JStr (be_cuda_version x)),
      (''prompt_sha256'', JStr (be_prompt_sha256 x)), (''decoding_sha256'', JStr (be_decoding_sha256 x)),
      (''dataset_sha256'', JStr (be_dataset_sha256 x)), (''evaluator_revision'', JStr (be_evaluator_revision x)),
      (''evaluator_thread_safe'', JBool (be_evaluator_thread_safe x))])"

record benchmark_unit =
  bu_repeat_index :: int
  bu_unit_id :: string
  bu_environment_sha256 :: string
  bu_prediction_sha256 :: string
  bu_score :: decimal

fun score_ok :: "decimal \<Rightarrow> bool" where
  "score_ok (Dec s c e) = (0 \<le> dec_value s c e \<and> dec_value s c e \<le> 1)"
| "score_ok _ = False"

definition mk_benchmark_unit :: "benchmark_unit \<Rightarrow> pyerr + benchmark_unit" where
  "mk_benchmark_unit u = require_all
     [(bu_repeat_index u \<in> {1, 2, 3}, ValueError ''benchmark repeat index must be 1, 2, or 3''),
      (\<not> (bu_unit_id u = [] \<or> bu_unit_id u \<in> {''.'', ''..''} \<or> CHR ''/'' \<in> set (bu_unit_id u)
           \<or> CHR 0x5C \<in> set (bu_unit_id u)),
        ValueError ''benchmark unit id must be a safe artifact path component''),
      (is_sha256 (bu_environment_sha256 u), sha_err), (is_sha256 (bu_prediction_sha256 u), sha_err),
      (score_ok (bu_score u), ValueError ''benchmark score must be between zero and one'')] u"

definition artifact_namespace :: "benchmark_unit \<Rightarrow> string" where
  "artifact_namespace u = ''run-'' @ int_str (bu_repeat_index u) @ ''/'' @ bu_unit_id u"

record benchmark_aggregate =
  ba_repeat_index :: int
  ba_environment_sha256 :: string
  ba_unit_count :: nat
  ba_mean_picos :: nat    \<comment> \<open>\<open>mean_score\<close> in units of its quantum, \<open>10\<^sup>-\<^sup>1\<^sup>2\<close>\<close>
  ba_aggregate_sha256 :: string

section \<open>Decimal sums and quotients\<close>

definition pow10 :: "int \<Rightarrow> rat" where
  "pow10 e = (if 0 \<le> e then 10 ^ nat e else 1 / 10 ^ nat (- e))"

text \<open>The number of digits before the decimal point of a positive rational (negative: leading zeros).\<close>

definition magnitude :: "rat \<Rightarrow> int" where
  "magnitude x = (case quotient_of x of (p, q) \<Rightarrow>
     let d = int (length (nat_str (nat p))) - int (length (nat_str (nat q)))
     in if pow10 d \<le> x then d + 1 else d)"

definition round28 :: "rat \<Rightarrow> rat" where
  "round28 x = (if x = 0 then 0
     else let e = magnitude x - 28 in of_int (round_half_even (x / pow10 e)) * pow10 e)"

fun score_value :: "decimal \<Rightarrow> rat" where
  "score_value (Dec s c e) = dec_value s c e"
| "score_value _ = 0"

definition score_sum :: "benchmark_unit list \<Rightarrow> rat" where
  "score_sum us = foldl (\<lambda>acc u. round28 (acc + score_value (bu_score u))) 0 us"

section \<open>aggregate_repeat, verify_repeat_environment_identity\<close>

fun jscore :: "decimal \<Rightarrow> jval" where
  "jscore (Dec s c e) = JStr (dec_format s c e)"
| "jscore _ = JNull"

definition jbenchmark_unit :: "benchmark_unit \<Rightarrow> jval" where
  "jbenchmark_unit u = JObj [(''repeat_index'', JInt (bu_repeat_index u)), (''unit_id'', JStr (bu_unit_id u)),
     (''environment_sha256'', JStr (bu_environment_sha256 u)),
     (''prediction_sha256'', JStr (bu_prediction_sha256 u)), (''score'', jscore (bu_score u))]"

definition aggregate_repeat ::
  "renv \<Rightarrow> benchmark_unit list \<Rightarrow> benchmark_environment \<Rightarrow> pyerr + benchmark_aggregate" where
  "aggregate_repeat E results env =
    (if results = [] then Inl (ValueError ''cannot aggregate an empty benchmark repeat'')
     else if \<not> be_evaluator_thread_safe env
       then Inl (ValueError ''parallel evaluator was not proven thread and process safe'')
     else if card (set (map bu_repeat_index results)) \<noteq> 1
       then Inl (ValueError ''benchmark repeat artifacts cannot be mixed'')
     else if card (set (map bu_unit_id results)) \<noteq> length results
       then Inl (ValueError ''benchmark unit results must be unique within a repeat'')
     else if list_ex (\<lambda>u. bu_environment_sha256 u \<noteq> environment_digest E env) results
       then Inl (ValueError ''benchmark environment drift detected'')
     else
       let ordered = sort_key bu_unit_id results;
           mean = round28 (score_sum ordered / of_nat (length ordered));
           picos = nat (round_half_even (mean * 10 ^ 12));
           digest = jsha E (JObj [(''repeat_index'', JInt (bu_repeat_index (hd ordered))),
             (''environment_sha256'', JStr (environment_digest E env)),
             (''results'', JList (map jbenchmark_unit ordered)),
             (''mean_score'', JStr (dec_format False picos (-12)))])
       in Inr \<lparr>ba_repeat_index = bu_repeat_index (hd ordered), ba_environment_sha256 = environment_digest E env,
            ba_unit_count = length ordered, ba_mean_picos = picos, ba_aggregate_sha256 = digest\<rparr>)"

definition verify_repeat_environment_identity :: "renv \<Rightarrow> benchmark_environment list \<Rightarrow> pyerr + string" where
  "verify_repeat_environment_identity E envs =
    (if length envs \<noteq> 3 then Inl (ValueError ''production benchmark proof requires exactly three repeats'')
     else if card (set (map (environment_digest E) envs)) \<noteq> 1
       then Inl (ValueError ''benchmark repeats do not share an identical environment'')
     else Inr (environment_digest E (hd envs)))"

section \<open>Lemmas\<close>

lemma nat_str_length: "length (nat_str n) = (if n < 10 then 1 else Suc (length (nat_str (n div 10))))"
  by (subst nat_str.simps) simp

lemma nat_str_upper: "n < 10 ^ length (nat_str n)"
proof (induction n rule: less_induct)
  case (less n)
  show ?case
  proof (cases "n < 10")
    case True
    then show ?thesis by (simp add: nat_str_length)
  next
    case False
    then have "n div 10 < 10 ^ length (nat_str (n div 10))" using less by simp
    then have "n < 10 * 10 ^ length (nat_str (n div 10))" by linarith
    with False show ?thesis by (subst nat_str_length) simp
  qed
qed

lemma nat_str_lower: "0 < n \<Longrightarrow> 10 ^ (length (nat_str n) - 1) \<le> n"
proof (induction n rule: less_induct)
  case (less n)
  show ?case
  proof (cases "n < 10")
    case True
    with less.prems show ?thesis by (simp add: nat_str_length)
  next
    case False
    then have ih: "10 ^ (length (nat_str (n div 10)) - 1) \<le> n div 10" using less by simp
    have "length (nat_str (n div 10)) \<ge> 1" by (subst nat_str_length) simp
    then have "(10::nat) ^ length (nat_str (n div 10)) = 10 * 10 ^ (length (nat_str (n div 10)) - 1)"
      by (metis Suc_diff_1 less_eq_Suc_le One_nat_def power_Suc)
    with ih have "10 ^ length (nat_str (n div 10)) \<le> n" by linarith
    with False show ?thesis by (subst nat_str_length) simp
  qed
qed

lemma pow10_pos: "0 < pow10 e"
  by (simp add: pow10_def)

lemma pow10_powi: "pow10 e = 10 powi e"
  by (simp add: pow10_def power_int_def power_one_over inverse_eq_divide)

lemma pow10_add: "pow10 (a + b) = pow10 a * pow10 b"
proof -
  show ?thesis unfolding pow10_powi by (rule power_int_add) simp
qed

lemma pow10_mono: "a \<le> b \<Longrightarrow> pow10 a \<le> pow10 b"
  unfolding pow10_powi by (rule power_int_increasing) simp_all

lemma pow10_nat: "pow10 (int n) = 10 ^ n"
  by (simp add: pow10_def)

lemma magnitude_lower:
  assumes "0 < x"
  shows "pow10 (magnitude x - 1) \<le> x"
proof -
  obtain p q where pq: "quotient_of x = (p, q)" by fastforce
  have x: "x = of_int p / of_int q" by (rule quotient_of_div [OF pq])
  have q: "0 < q" by (rule quotient_of_denom_pos [OF pq])
  with assms x have p: "0 < p" by (simp add: zero_less_divide_iff)
  let ?a = "length (nat_str (nat p))" and ?b = "length (nat_str (nat q))"
  show ?thesis
  proof (cases "pow10 (int ?a - int ?b) \<le> x")
    case True
    then show ?thesis by (simp add: magnitude_def pq)
  next
    case False
    have a1: "1 \<le> ?a" by (subst nat_str_length) simp
    have "10 ^ (?a - 1) \<le> nat p" by (rule nat_str_lower) (use p in simp)
    then have pl: "(10::rat) ^ (?a - 1) \<le> of_int p" using p
      by (simp add: of_int_le_of_int_power_cancel_iff le_nat_iff)
    have "nat q < 10 ^ ?b" by (rule nat_str_upper)
    then have "of_nat (nat q) < (of_nat (10 ^ ?b) :: rat)" by (rule iffD2 [OF of_nat_less_iff])
    then have qu: "of_int q \<le> (10::rat) ^ ?b" using q by simp
    have "pow10 (int ?a - int ?b - 1) = pow10 (int (?a - 1)) / pow10 (int ?b)"
    proof -
      have "int ?a - int ?b - 1 + int ?b = int (?a - 1)" using a1 by simp
      then have "pow10 (int (?a - 1)) = pow10 (int ?a - int ?b - 1) * pow10 (int ?b)"
        using pow10_add [of "int ?a - int ?b - 1" "int ?b"] by (simp only:)
      moreover have "pow10 (int ?b) \<noteq> 0" using pow10_pos less_irrefl by metis
      ultimately show ?thesis by (metis nonzero_mult_div_cancel_right)
    qed
    also have "\<dots> \<le> x"
      unfolding x pow10_nat using pl qu q p by (intro frac_le) simp_all
    finally show ?thesis using False by (simp add: magnitude_def pq)
  qed
qed

lemma round28_nonneg: "0 \<le> x \<Longrightarrow> 0 \<le> round28 x"
  using round_half_even_mono [of 0 "x / pow10 (magnitude x - 28)"] pow10_pos [of "magnitude x - 28"]
  by (simp add: round28_def Let_def round_half_even_def)

text \<open>Rounding never passes a whole number of at most 28 digits.\<close>

lemma round28_le:
  assumes "0 \<le> x" and "x \<le> of_nat n" and "n < 10 ^ 28"
  shows "round28 x \<le> of_nat n"
proof (cases "x = 0")
  case True
  then show ?thesis by (simp add: round28_def)
next
  case False
  with assms have x: "0 < x" by simp
  let ?e = "magnitude x - 28"
  have "of_nat n < (of_nat (10 ^ 28) :: rat)" using assms(3) by (rule iffD2 [OF of_nat_less_iff])
  then have "pow10 (magnitude x - 1) < pow10 28"
    using magnitude_lower [OF x] assms(2) by (simp add: pow10_def)
  then have "\<not> 28 \<le> magnitude x - 1" using pow10_mono by (metis not_le)
  then have e: "?e \<le> 0" by simp
  let ?k = "int n * 10 ^ nat (- ?e)"
  have k: "of_nat n = of_int ?k * pow10 ?e" and pk: "of_nat n / pow10 ?e = of_int ?k"
    using e by (simp_all add: pow10_def)
  have "x / pow10 ?e \<le> of_int ?k" using assms(2) pow10_pos [of ?e] pk by (metis divide_right_mono less_imp_le)
  then have "round_half_even (x / pow10 ?e) \<le> ?k" using round_half_even_mono round_half_even_of_int by metis
  then have "of_int (round_half_even (x / pow10 ?e)) * pow10 ?e \<le> of_int ?k * pow10 ?e"
    using pow10_pos [of ?e] by (intro mult_right_mono) (simp_all only: of_int_le_iff less_imp_le)
  moreover have "round28 x = of_int (round_half_even (x / pow10 ?e)) * pow10 ?e"
    using False by (simp add: round28_def Let_def)
  ultimately show ?thesis unfolding k by (simp only:)
qed

lemma score_sum_bounds:
  assumes "\<forall>u \<in> set us. score_ok (bu_score u)" and "length us < 10 ^ 28"
  shows "0 \<le> score_sum us \<and> score_sum us \<le> of_nat (length us)"
  using assms
proof (induction us rule: rev_induct)
  case Nil
  then show ?case by (simp add: score_sum_def)
next
  case (snoc u us)
  have s: "0 \<le> score_value (bu_score u) \<and> score_value (bu_score u) \<le> 1"
    using snoc.prems by (cases "bu_score u") auto
  have ih: "0 \<le> score_sum us \<and> score_sum us \<le> of_nat (length us)" using snoc by simp
  have "round28 (score_sum us + score_value (bu_score u)) \<le> of_nat (Suc (length us))"
    using ih s snoc.prems by (intro round28_le) auto
  moreover have "0 \<le> round28 (score_sum us + score_value (bu_score u))"
    using ih s by (intro round28_nonneg) simp
  ultimately show ?case by (simp add: score_sum_def)
qed

lemma card_map_distinct: "card (set (map f xs)) = length xs \<longleftrightarrow> distinct (map f xs)"
  by (metis card_distinct distinct_card length_map)

lemma card_one_all: "card (set (map f xs)) = 1 \<longleftrightarrow> xs \<noteq> [] \<and> (\<forall>x \<in> set xs. f x = f (hd xs))"
proof
  assume "card (set (map f xs)) = 1"
  then obtain y where "set (map f xs) = {y}" by (rule card_1_singletonE)
  then show "xs \<noteq> [] \<and> (\<forall>x \<in> set xs. f x = f (hd xs))" by (cases xs) auto
next
  assume a: "xs \<noteq> [] \<and> (\<forall>x \<in> set xs. f x = f (hd xs))"
  then have "set (map f xs) = {f (hd xs)}" by (cases xs) auto
  then show "card (set (map f xs)) = 1" by simp
qed

text \<open>With distinct keys the sorted list depends on the elements only.\<close>

lemma sort_key_perm:
  assumes "mset ys = mset xs" and "distinct (map f xs)"
  shows "sort_key f ys = sort_key f xs"
proof -
  have m: "mset (map f ys) = mset (map f xs)" using assms(1) by simp
  have d: "distinct (map f ys)" using assms(2) m by (metis mset_eq_imp_distinct_iff)
  have s: "set ys = set xs" using assms(1) by (metis set_mset_mset)
  have "mset (map f (sort_key f ys)) = mset (map f (sort_key f xs))" using m by simp
  moreover have "sorted (map f (sort_key f zs))" for zs by simp
  ultimately have "map f (sort_key f ys) = map f (sort_key f xs)"
    by (metis properties_for_sort sorted_sort_id)
  moreover have "inj_on f (set (sort_key f ys) \<union> set (sort_key f xs))"
    using assms(2) s by (simp add: distinct_map)
  ultimately show ?thesis by (rule map_inj_on)
qed

section \<open>Properties\<close>

text \<open>Fact: benchmark repeats are isolated. An aggregate is returned exactly when there are results of one repeat
  index, each unit once, all of the expected environment, and the evaluator was proven thread safe; it
  names that repeat, environment and number of units, and does not depend on the order in which the
  workers delivered the results.\<close>

theorem aggregate_isolated:
  "((\<exists>a. aggregate_repeat E us env = Inr a) \<longleftrightarrow>
      us \<noteq> [] \<and> be_evaluator_thread_safe env \<and> (\<forall>u \<in> set us. bu_repeat_index u = bu_repeat_index (hd us))
      \<and> distinct (map bu_unit_id us) \<and> (\<forall>u \<in> set us. bu_environment_sha256 u = environment_digest E env))
   \<and> (\<forall>a. aggregate_repeat E us env = Inr a \<longrightarrow> (\<forall>u \<in> set us. ba_repeat_index a = bu_repeat_index u)
        \<and> ba_unit_count a = length us \<and> ba_environment_sha256 a = environment_digest E env)
   \<and> (mset us' = mset us \<longrightarrow> (\<forall>a. aggregate_repeat E us env = Inr a \<longrightarrow> aggregate_repeat E us' env = Inr a))"
proof -
  have ok: "(\<exists>a. aggregate_repeat E us env = Inr a) \<longleftrightarrow>
      us \<noteq> [] \<and> be_evaluator_thread_safe env \<and> (\<forall>u \<in> set us. bu_repeat_index u = bu_repeat_index (hd us))
      \<and> distinct (map bu_unit_id us) \<and> (\<forall>u \<in> set us. bu_environment_sha256 u = environment_digest E env)" for us
  proof -
    have "(\<exists>a. aggregate_repeat E us env = Inr a) \<longleftrightarrow>
        us \<noteq> [] \<and> be_evaluator_thread_safe env \<and> card (set (map bu_repeat_index us)) = 1
        \<and> card (set (map bu_unit_id us)) = length us
        \<and> \<not> list_ex (\<lambda>u. bu_environment_sha256 u \<noteq> environment_digest E env) us"
      by (simp add: aggregate_repeat_def Let_def)
    then show ?thesis unfolding card_map_distinct card_one_all list_ex_iff by blast
  qed
  have fields: "ba_unit_count a = length us" "ba_environment_sha256 a = environment_digest E env"
    "ba_repeat_index a = bu_repeat_index (hd (sort_key bu_unit_id us))" if "aggregate_repeat E us env = Inr a" for a
    using that unfolding aggregate_repeat_def Let_def by (auto split: if_splits)
  have index: "ba_repeat_index a = bu_repeat_index u" if a: "aggregate_repeat E us env = Inr a" and "u \<in> set us" for a u
  proof -
    have "us \<noteq> []" and same: "\<forall>u \<in> set us. bu_repeat_index u = bu_repeat_index (hd us)" using ok a by blast+
    then have "hd (sort_key bu_unit_id us) \<in> set us" by (intro sort_key_hd_min(1))
    with same \<open>u \<in> set us\<close> fields(3) [OF a] show ?thesis by metis
  qed
  have perm: "aggregate_repeat E us' env = Inr a" if m: "mset us' = mset us" and a: "aggregate_repeat E us env = Inr a" for a
  proof -
    have d: "distinct (map bu_unit_id us)" using ok a by blast
    have "sort_key bu_unit_id us' = sort_key bu_unit_id us" by (rule sort_key_perm [OF m d])
    moreover have l: "length us' = length us" "set us' = set us" "us' = [] \<longleftrightarrow> us = []"
      using m by (metis size_mset, metis set_mset_mset, metis mset_zero_iff)
    ultimately have "aggregate_repeat E us' env = aggregate_repeat E us env"
      unfolding aggregate_repeat_def list_ex_iff set_map by (simp only:)
    then show ?thesis using a by simp
  qed
  have ok': "\<forall>a. aggregate_repeat E us env = Inr a \<longrightarrow> (\<forall>u \<in> set us. ba_repeat_index a = bu_repeat_index u)
        \<and> ba_unit_count a = length us \<and> ba_environment_sha256 a = environment_digest E env"
    using index fields(1,2) by blast
  have perm': "mset us' = mset us \<longrightarrow> (\<forall>a. aggregate_repeat E us env = Inr a \<longrightarrow> aggregate_repeat E us' env = Inr a)"
    using perm by blast
  show ?thesis by (intro conjI) (fact ok ok' perm')+
qed

text \<open>Fact: the mean score is a score. The mean of up to \<open>10\<^sup>2\<^sup>8 - 1\<close> scores between 0 and 1 is between 0 and 1
  too: the roundings of the Decimal sum, of the quotient and of the quantisation never push it out.\<close>

theorem aggregate_mean_bounds:
  assumes "aggregate_repeat E us env = Inr a" and "\<forall>u \<in> set us. score_ok (bu_score u)" and "length us < 10 ^ 28"
  shows "ba_mean_picos a \<le> 10 ^ 12"
proof -
  let ?o = "sort_key bu_unit_id us"
  have ne: "us \<noteq> []" and p: "ba_mean_picos a =
      nat (round_half_even (round28 (score_sum ?o / of_nat (length us)) * 10 ^ 12))"
    using assms(1) unfolding aggregate_repeat_def Let_def by (auto split: if_splits)
  have "0 \<le> score_sum ?o \<and> score_sum ?o \<le> of_nat (length us)"
    using score_sum_bounds [of ?o] assms(2,3) by simp
  with ne have "0 \<le> score_sum ?o / of_nat (length us)" "score_sum ?o / of_nat (length us) \<le> of_nat 1"
    by (simp_all add: divide_le_eq)
  then have "round28 (score_sum ?o / of_nat (length us)) \<le> of_nat 1" by (rule round28_le) simp
  then have "round28 (score_sum ?o / of_nat (length us)) * 10 ^ 12 \<le> of_int (10 ^ 12)" by simp
  then have "round_half_even (round28 (score_sum ?o / of_nat (length us)) * 10 ^ 12) \<le> 10 ^ 12"
    using round_half_even_mono round_half_even_of_int by metis
  then show ?thesis unfolding p by simp
qed

definition demo_plain_env :: renv where
  "demo_plain_env = \<lparr>sha256 = (\<lambda>s. s), float_repr = (\<lambda>r. ''f''), isoformat = (\<lambda>t. ''t'')\<rparr>"

definition demo_benchmark_env :: benchmark_environment where
  "demo_benchmark_env = \<lparr>be_runtime_image_digest = ''i'', be_model_revision = ''m'', be_gpu_class = ''g'',
     be_cuda_version = ''c'', be_prompt_sha256 = [], be_decoding_sha256 = [], be_dataset_sha256 = [],
     be_evaluator_revision = ''e'', be_evaluator_thread_safe = True\<rparr>"

definition demo_benchmark_unit :: "renv \<Rightarrow> string \<Rightarrow> nat \<Rightarrow> benchmark_unit" where
  "demo_benchmark_unit E i c = \<lparr>bu_repeat_index = 1, bu_unit_id = i,
     bu_environment_sha256 = environment_digest E demo_benchmark_env, bu_prediction_sha256 = [],
     bu_score = Dec False c (-1)\<rparr>"

definition demo_benchmark_units :: "renv \<Rightarrow> benchmark_unit list" where
  "demo_benchmark_units E = [demo_benchmark_unit E ''y'' 5, demo_benchmark_unit E ''x'' 10]"

lemma demo_aggregates: "\<exists>a. aggregate_repeat E (demo_benchmark_units E) demo_benchmark_env = Inr a"
  by (simp add: aggregate_repeat_def Let_def demo_benchmark_units_def demo_benchmark_unit_def demo_benchmark_env_def)

theorem aggregate_isolated_witness:
  "\<exists>a. aggregate_repeat demo_plain_env (rev (demo_benchmark_units demo_plain_env)) demo_benchmark_env = Inr a \<and> ba_repeat_index a = 1
     \<and> ba_unit_count a = 2"
proof -
  obtain a where a: "aggregate_repeat demo_plain_env (demo_benchmark_units demo_plain_env) demo_benchmark_env = Inr a"
    using demo_aggregates by blast
  note i = aggregate_isolated [of demo_plain_env "demo_benchmark_units demo_plain_env" demo_benchmark_env "rev (demo_benchmark_units demo_plain_env)"]
  have "aggregate_repeat demo_plain_env (rev (demo_benchmark_units demo_plain_env)) demo_benchmark_env = Inr a"
    using i [THEN conjunct2, THEN conjunct2] a by simp
  moreover have "ba_repeat_index a = 1" "ba_unit_count a = 2"
    using i [THEN conjunct2, THEN conjunct1, rule_format, OF a]
    by (simp_all add: demo_benchmark_units_def demo_benchmark_unit_def)
  ultimately show ?thesis by blast
qed

theorem aggregate_mean_bounds_witness:
  "\<exists>a. aggregate_repeat demo_plain_env (demo_benchmark_units demo_plain_env) demo_benchmark_env = Inr a \<and> ba_mean_picos a \<le> 10 ^ 12"
proof -
  obtain a where a: "aggregate_repeat demo_plain_env (demo_benchmark_units demo_plain_env) demo_benchmark_env = Inr a"
    using demo_aggregates by blast
  have "\<forall>u \<in> set (demo_benchmark_units demo_plain_env). score_ok (bu_score u)"
    by (simp add: demo_benchmark_units_def demo_benchmark_unit_def dec_value_def)
  moreover have "length (demo_benchmark_units demo_plain_env) < 10 ^ 28" by (simp add: demo_benchmark_units_def)
  ultimately show ?thesis using aggregate_mean_bounds [OF a] a by blast
qed

end
