(* ===== verification/SemanticMonitor.thy ===== *)
theory SemanticMonitor
  imports Models
begin

text \<open>
  \<^verbatim>\<open>akc_parallel_runtime/semantic_monitor.py\<close>: the online statistics of semantic health (an
  exponentially weighted mean, a one-sided CUSUM and a Beta posterior per stratum). Floats are exact
  rationals; the interval bounds, which need a square root, are reals.
\<close>

section \<open>Data\<close>

record semantic_sample =
  smp_stratum :: string
  smp_passed :: bool
  smp_loss :: rat

definition mk_semantic_sample :: "semantic_sample \<Rightarrow> pyerr + semantic_sample" where
  "mk_semantic_sample x = require_all
     [(smp_stratum x \<noteq> [], ValueError ''semantic sample requires a stratum''),
      (0 \<le> smp_loss x \<and> smp_loss x \<le> 1, ValueError ''semantic loss must be between zero and one'')] x"

record stratum_posterior =
  spo_stratum :: string
  spo_successes :: nat
  spo_failures :: nat
  spo_mean :: rat
  spo_lower :: real
  spo_upper :: real

datatype monitor_state = MS_HEALTHY | MS_DEGRADED | MS_QUARANTINED

record health_projection =
  shp_state :: monitor_state
  shp_ewma_loss :: rat
  shp_cusum_positive :: rat
  shp_reason_codes :: "string list"
  shp_strata :: "stratum_posterior list"

record drift_monitor =
  sdm_ewma_alpha :: rat
  sdm_target_loss :: rat
  sdm_cusum_slack :: rat
  sdm_degraded_threshold :: rat
  sdm_quarantine_threshold :: rat
  sdm_prior_alpha :: rat
  sdm_prior_beta :: rat
  sdm_ewma :: "rat option"
  sdm_cusum :: rat
  sdm_strata :: "(string \<times> nat \<times> nat) list"

text \<open>The constructor takes the seven parameters; the three statistics start at their defaults.\<close>

definition mk_drift_monitor :: "drift_monitor \<Rightarrow> pyerr + drift_monitor" where
  "mk_drift_monitor m = require_all
     [(0 < sdm_ewma_alpha m \<and> sdm_ewma_alpha m \<le> 1, ValueError ''EWMA alpha must be in (0, 1]''),
      (0 \<le> sdm_target_loss m \<and> sdm_target_loss m \<le> 1, ValueError ''target loss must be between zero and one''),
      (0 \<le> sdm_degraded_threshold m \<and> sdm_degraded_threshold m < sdm_quarantine_threshold m
         \<and> sdm_quarantine_threshold m \<le> 1, ValueError ''semantic thresholds must be ordered''),
      (0 < min (sdm_prior_alpha m) (sdm_prior_beta m), ValueError ''beta prior parameters must be positive'')]
     (m\<lparr>sdm_ewma := None, sdm_cusum := 0, sdm_strata := []\<rparr>)"

section \<open>observe and project\<close>

definition posterior :: "drift_monitor \<Rightarrow> string \<times> nat \<times> nat \<Rightarrow> stratum_posterior" where
  "posterior m c = (case c of (name, successes, failures) \<Rightarrow>
     let alpha = sdm_prior_alpha m + of_nat successes; beta = sdm_prior_beta m + of_nat failures;
         tot = alpha + beta; mean = alpha / tot;
         variance = alpha * beta / (tot * tot * (tot + 1));
         radius = 1959963984540054 / 10 ^ 15 * sqrt (of_rat variance)
     in \<lparr>spo_stratum = name, spo_successes = successes, spo_failures = failures, spo_mean = mean,
         spo_lower = max 0 (of_rat mean - radius), spo_upper = min 1 (of_rat mean + radius)\<rparr>)"

definition project :: "drift_monitor \<Rightarrow> health_projection" where
  "project m =
    (let ewma = (case sdm_ewma m of None \<Rightarrow> 0 | Some x \<Rightarrow> x);
         q = sdm_quarantine_threshold m;
         by_ewma = (if ewma \<ge> q then (MS_QUARANTINED, [''semantic_ewma_quarantine''])
                    else if ewma \<ge> sdm_degraded_threshold m then (MS_DEGRADED, [''semantic_ewma_degraded''])
                    else (MS_HEALTHY, []));
         final = (if sdm_cusum m \<ge> q then (MS_QUARANTINED, snd by_ewma @ [''semantic_cusum_change_detected''])
                  else by_ewma)
     in \<lparr>shp_state = fst final, shp_ewma_loss = ewma, shp_cusum_positive = sdm_cusum m,
         shp_reason_codes = sorted_set (if snd final \<noteq> [] then snd final else [''semantic_health_nominal'']),
         shp_strata = map (posterior m) (sort_key fst (sdm_strata m))\<rparr>)"

definition count_sample :: "semantic_sample \<Rightarrow> (string \<times> nat \<times> nat) list \<Rightarrow> (string \<times> nat \<times> nat) list" where
  "count_sample x st =
    (case (case map_of st (smp_stratum x) of None \<Rightarrow> (0, 0) | Some c \<Rightarrow> c) of (p, f) \<Rightarrow>
       AList.update (smp_stratum x) (if smp_passed x then (p + 1, f) else (p, f + 1)) st)"

definition observe :: "semantic_sample \<Rightarrow> drift_monitor \<Rightarrow> (drift_monitor, health_projection) outcome" where
  "observe x m =
    (let m' = m\<lparr>sdm_ewma := Some (case sdm_ewma m of None \<Rightarrow> smp_loss x
                  | Some e \<Rightarrow> sdm_ewma_alpha m * smp_loss x + (1 - sdm_ewma_alpha m) * e),
                sdm_cusum := max 0 (sdm_cusum m + smp_loss x - sdm_target_loss m - sdm_cusum_slack m),
                sdm_strata := count_sample x (sdm_strata m)\<rparr>
     in (Inr (project m'), m'))"

section \<open>Reference statistics\<close>

text \<open>The weighted mean in closed form, and the CUSUM as the largest excess of a suffix of the run.\<close>

definition ewma_reference :: "rat \<Rightarrow> rat list \<Rightarrow> rat" where
  "ewma_reference a xs = (1 - a) ^ (length xs - 1) * hd xs
     + (\<Sum>i \<in> {1..<length xs}. a * (1 - a) ^ (length xs - 1 - i) * xs ! i)"

definition excess :: "rat \<Rightarrow> rat list \<Rightarrow> rat" where
  "excess t xs = sum_list (map (\<lambda>x. x - t) xs)"

definition cusum_reference :: "rat \<Rightarrow> rat list \<Rightarrow> rat" where
  "cusum_reference t xs = Max ((\<lambda>k. excess t (drop k xs)) ` {..length xs})"

definition parameters :: "drift_monitor \<Rightarrow> rat list" where
  "parameters m = [sdm_ewma_alpha m, sdm_target_loss m, sdm_cusum_slack m, sdm_degraded_threshold m,
     sdm_quarantine_threshold m, sdm_prior_alpha m, sdm_prior_beta m]"

definition fresh_monitor :: "drift_monitor \<Rightarrow> bool" where
  "fresh_monitor m \<longleftrightarrow> mk_drift_monitor m = Inr m"

lemma fresh_monitor_iff: "fresh_monitor m \<longleftrightarrow>
    0 < sdm_ewma_alpha m \<and> sdm_ewma_alpha m \<le> 1 \<and> 0 \<le> sdm_target_loss m \<and> sdm_target_loss m \<le> 1
    \<and> 0 \<le> sdm_degraded_threshold m \<and> sdm_degraded_threshold m < sdm_quarantine_threshold m
    \<and> sdm_quarantine_threshold m \<le> 1 \<and> 0 < sdm_prior_alpha m \<and> 0 < sdm_prior_beta m
    \<and> sdm_ewma m = None \<and> sdm_cusum m = 0 \<and> sdm_strata m = []"
  unfolding fresh_monitor_def mk_drift_monitor_def require_all_Inr_iff by (cases m) auto

lemma observe_simps:
  "sdm_ewma_alpha (snd (observe x m)) = sdm_ewma_alpha m"
  "parameters (snd (observe x m)) = parameters m"
  "sdm_ewma (snd (observe x m)) = Some (case sdm_ewma m of None \<Rightarrow> smp_loss x
                  | Some e \<Rightarrow> sdm_ewma_alpha m * smp_loss x + (1 - sdm_ewma_alpha m) * e)"
  "sdm_cusum (snd (observe x m)) = max 0 (sdm_cusum m + smp_loss x - sdm_target_loss m - sdm_cusum_slack m)"
  "sdm_strata (snd (observe x m)) = count_sample x (sdm_strata m)"
  by (simp_all add: observe_def parameters_def Let_def)

lemma run_snoc: "run_ops observe (xs @ [x]) m = snd (observe x (run_ops observe xs m))"
  by (simp add: run_ops_append)

lemma run_parameters: "parameters (run_ops observe xs m) = parameters m"
  by (induction xs rule: rev_induct) (simp_all add: run_snoc observe_simps)

lemma run_parameter_fields:
  "sdm_ewma_alpha (run_ops observe xs m) = sdm_ewma_alpha m"
  "sdm_target_loss (run_ops observe xs m) = sdm_target_loss m"
  "sdm_cusum_slack (run_ops observe xs m) = sdm_cusum_slack m"
  "sdm_degraded_threshold (run_ops observe xs m) = sdm_degraded_threshold m"
  "sdm_quarantine_threshold (run_ops observe xs m) = sdm_quarantine_threshold m"
  "sdm_prior_alpha (run_ops observe xs m) = sdm_prior_alpha m"
  "sdm_prior_beta (run_ops observe xs m) = sdm_prior_beta m"
  using run_parameters [of xs m] by (simp_all add: parameters_def)

lemma ewma_reference_snoc:
  "xs \<noteq> [] \<Longrightarrow> ewma_reference a (xs @ [x]) = a * x + (1 - a) * ewma_reference a xs"
proof -
  assume ne: "xs \<noteq> []"
  let ?n = "length xs"
  have n: "?n \<ge> 1" using ne by (cases xs) auto
  have "(\<Sum>i \<in> {1..<Suc ?n}. a * (1 - a) ^ (?n - i) * (xs @ [x]) ! i)
      = (\<Sum>i \<in> {1..<?n}. a * (1 - a) ^ (?n - i) * (xs @ [x]) ! i) + a * x"
    using n ne by (simp add: sum.atLeastLessThan_Suc)
  also have "(\<Sum>i \<in> {1..<?n}. a * (1 - a) ^ (?n - i) * (xs @ [x]) ! i)
      = (\<Sum>i \<in> {1..<?n}. (1 - a) * (a * (1 - a) ^ (?n - 1 - i) * xs ! i))"
  proof (rule sum.cong [OF refl])
    fix i assume i: "i \<in> {1..<?n}"
    then have "?n - i = Suc (?n - 1 - i)" by auto
    then show "a * (1 - a) ^ (?n - i) * (xs @ [x]) ! i = (1 - a) * (a * (1 - a) ^ (?n - 1 - i) * xs ! i)"
      using i by (simp add: nth_append)
  qed
  also have "\<dots> = (1 - a) * (\<Sum>i \<in> {1..<?n}. a * (1 - a) ^ (?n - 1 - i) * xs ! i)"
    by (rule sum_distrib_left [symmetric])
  finally have s: "(\<Sum>i \<in> {1..<Suc ?n}. a * (1 - a) ^ (?n - i) * (xs @ [x]) ! i)
      = (1 - a) * (\<Sum>i \<in> {1..<?n}. a * (1 - a) ^ (?n - 1 - i) * xs ! i) + a * x" .
  have p: "(1 - a) ^ ?n = (1 - a) * (1 - a) ^ (?n - 1)" using n by (cases ?n) simp_all
  have "ewma_reference a (xs @ [x]) = (1 - a) ^ ?n * hd xs
      + (\<Sum>i \<in> {1..<Suc ?n}. a * (1 - a) ^ (?n - i) * (xs @ [x]) ! i)"
    using ne by (simp add: ewma_reference_def)
  then show ?thesis unfolding s p by (simp add: ewma_reference_def algebra_simps)
qed

lemma run_ewma:
  assumes "sdm_ewma m = None" and "xs \<noteq> []"
  shows "sdm_ewma (run_ops observe xs m) = Some (ewma_reference (sdm_ewma_alpha m) (map smp_loss xs))"
  using assms(2)
proof (induction xs rule: rev_induct)
  case Nil
  then show ?case by simp
next
  case (snoc x xs)
  show ?case
  proof (cases "xs = []")
    case True
    with assms(1) show ?thesis by (simp add: observe_simps ewma_reference_def)
  next
    case False
    with snoc.IH show ?thesis
      by (simp add: run_snoc observe_simps run_parameter_fields ewma_reference_snoc)
  qed
qed

lemma excess_snoc: "excess t (xs @ [x]) = excess t xs + (x - t)"
  by (simp add: excess_def)

lemma cusum_reference_snoc: "cusum_reference t (xs @ [x]) = max 0 (cusum_reference t xs + (x - t))"
proof -
  let ?f = "\<lambda>k. excess t (drop k xs)"
  have img: "(\<lambda>k. excess t (drop k (xs @ [x]))) ` {..Suc (length xs)}
      = insert 0 ((\<lambda>y. y + (x - t)) ` ?f ` {..length xs})"
  proof -
    have "{..Suc (length xs)} = insert (Suc (length xs)) {..length xs}" by auto
    moreover have "(\<lambda>k. excess t (drop k (xs @ [x]))) ` {..length xs} = (\<lambda>k. ?f k + (x - t)) ` {..length xs}"
      by (rule image_cong [OF refl]) (simp add: excess_snoc)
    ultimately show ?thesis by (simp add: image_image excess_def)
  qed
  have "Max ((\<lambda>y. y + (x - t)) ` ?f ` {..length xs}) = Max (?f ` {..length xs}) + (x - t)"
    by (rule mono_Max_commute [symmetric]) (auto intro: monoI)
  moreover have "cusum_reference t (xs @ [x]) = Max (insert 0 ((\<lambda>y. y + (x - t)) ` ?f ` {..length xs}))"
    by (simp only: cusum_reference_def length_append_singleton img)
  moreover have "Max (insert 0 ((\<lambda>y. y + (x - t)) ` ?f ` {..length xs}))
      = max 0 (Max ((\<lambda>y. y + (x - t)) ` ?f ` {..length xs}))"
    by (intro Max_insert) auto
  ultimately show ?thesis by (simp only: cusum_reference_def)
qed

lemma run_cusum:
  assumes "sdm_cusum m = 0"
  shows "sdm_cusum (run_ops observe xs m)
    = cusum_reference (sdm_target_loss m + sdm_cusum_slack m) (map smp_loss xs)"
proof (induction xs rule: rev_induct)
  case Nil
  show ?case using assms by (simp add: cusum_reference_def excess_def)
next
  case (snoc x xs)
  then show ?case
    by (simp add: run_snoc observe_simps run_parameter_fields cusum_reference_snoc algebra_simps)
qed

lemma run_ewma_bounds:
  assumes "0 < sdm_ewma_alpha m" "sdm_ewma_alpha m \<le> 1" "sdm_ewma m = None"
    and "\<forall>x \<in> set xs. lo \<le> smp_loss x \<and> smp_loss x \<le> hi" and "sdm_ewma (run_ops observe xs m) = Some e"
  shows "lo \<le> e \<and> e \<le> hi"
  using assms(4,5)
proof (induction xs arbitrary: e rule: rev_induct)
  case Nil
  with assms(3) show ?case by simp
next
  case (snoc x xs)
  let ?a = "sdm_ewma_alpha m" and ?m = "run_ops observe xs m"
  have x: "lo \<le> smp_loss x \<and> smp_loss x \<le> hi" using snoc.prems by simp
  show ?case
  proof (cases "sdm_ewma ?m")
    case None
    with snoc.prems x show ?thesis by (simp add: run_snoc observe_simps)
  next
    case (Some e')
    then have e': "lo \<le> e' \<and> e' \<le> hi" using snoc by simp
    have e: "e = ?a * smp_loss x + (1 - ?a) * e'"
      using snoc.prems Some by (simp add: run_snoc observe_simps run_parameter_fields)
    have "?a * lo + (1 - ?a) * lo \<le> e" "e \<le> ?a * hi + (1 - ?a) * hi"
      unfolding e using assms(1,2) x e' by (auto intro!: add_mono mult_left_mono)
    then show ?thesis by (simp add: algebra_simps)
  qed
qed

text \<open>Each stratum is counted once, with the passes and failures of its samples.\<close>

definition passes :: "string \<Rightarrow> semantic_sample list \<Rightarrow> nat" where
  "passes s xs = length (filter (\<lambda>x. smp_stratum x = s \<and> smp_passed x) xs)"

definition fails :: "string \<Rightarrow> semantic_sample list \<Rightarrow> nat" where
  "fails s xs = length (filter (\<lambda>x. smp_stratum x = s \<and> \<not> smp_passed x) xs)"

lemma run_strata:
  assumes "sdm_strata m = []"
  shows "distinct (map fst (sdm_strata (run_ops observe xs m)))
    \<and> (\<forall>s. map_of (sdm_strata (run_ops observe xs m)) s
         = (if s \<in> smp_stratum ` set xs then Some (passes s xs, fails s xs) else None))"
proof (induction xs rule: rev_induct)
  case Nil
  with assms show ?case by simp
next
  case (snoc x xs)
  let ?st = "sdm_strata (run_ops observe xs m)"
  have none: "passes s xs = 0 \<and> fails s xs = 0" if "s \<notin> smp_stratum ` set xs" for s
    using that by (auto simp: passes_def fails_def filter_empty_conv)
  have step: "sdm_strata (run_ops observe (xs @ [x]) m) = count_sample x ?st"
    by (simp add: run_snoc observe_simps)
  have ps: "passes s (xs @ [x]) = passes s xs + (if smp_stratum x = s \<and> smp_passed x then 1 else 0)"
    "fails s (xs @ [x]) = fails s xs + (if smp_stratum x = s \<and> \<not> smp_passed x then 1 else 0)" for s
    by (simp_all add: passes_def fails_def)
  have "distinct (map fst (count_sample x ?st))"
    using snoc.IH by (auto simp: count_sample_def distinct_update split: prod.split)
  moreover have "map_of (count_sample x ?st) s = (if s \<in> smp_stratum ` set (xs @ [x])
      then Some (passes s (xs @ [x]), fails s (xs @ [x])) else None)" for s
    using snoc.IH none by (auto simp: count_sample_def ps split: prod.split option.split)
  ultimately show ?case unfolding step by blast
qed

lemma posterior_bounds:
  assumes "0 < sdm_prior_alpha m" "0 < sdm_prior_beta m"
  shows "0 < spo_mean (posterior m c) \<and> spo_mean (posterior m c) < 1
    \<and> 0 \<le> spo_lower (posterior m c) \<and> spo_upper (posterior m c) \<le> 1
    \<and> spo_lower (posterior m c) \<le> of_rat (spo_mean (posterior m c))
    \<and> of_rat (spo_mean (posterior m c)) \<le> spo_upper (posterior m c)"
proof -
  obtain n p f where c: "c = (n, p, f)" by (cases c) auto
  define a where "a = sdm_prior_alpha m + of_nat p"
  define b where "b = sdm_prior_beta m + of_nat f"
  have pos: "0 < a" "0 < b" using assms by (simp_all add: a_def b_def add_pos_nonneg)
  have mean: "0 < a / (a + b)" "a / (a + b) < 1" using pos by simp_all
  then have "0 < (of_rat (a / (a + b)) :: real)" "(of_rat (a / (a + b)) :: real) < 1"
    by (simp_all only: zero_less_of_rat_iff of_rat_less_1_iff)
  moreover have "0 \<le> a * b / ((a + b) * (a + b) * (a + b + 1))" using pos by simp
  then have "0 \<le> (of_rat (a * b / ((a + b) * (a + b) * (a + b + 1))) :: real)" by (simp only: zero_le_of_rat_iff)
  then have "0 \<le> 1959963984540054 / 10 ^ 15 * sqrt (of_rat (a * b / ((a + b) * (a + b) * (a + b + 1))))" by simp
  ultimately show ?thesis using mean
    by (simp add: c posterior_def Let_def a_def [symmetric] b_def [symmetric] del: of_rat_divide of_rat_add of_rat_mult)
qed

section \<open>Properties\<close>

text \<open>Fact: the online statistics equal their references. After any samples the running mean is the
  exponentially weighted mean of the losses in closed form, the CUSUM is the largest total excess over
  target plus slack of any (possibly empty) final stretch of the run, and each stratum that occurred
  is counted once with its passes and failures.\<close>

theorem monitor_statistics:
  assumes "fresh_monitor m"
    and "m' = run_ops observe xs m"
  shows "sdm_ewma m' = (if xs = [] then None else Some (ewma_reference (sdm_ewma_alpha m) (map smp_loss xs)))
    \<and> sdm_cusum m' = cusum_reference (sdm_target_loss m + sdm_cusum_slack m) (map smp_loss xs)
    \<and> distinct (map fst (sdm_strata m'))
    \<and> (\<forall>s. map_of (sdm_strata m') s =
         (if s \<in> smp_stratum ` set xs then Some (passes s xs, fails s xs) else None))"
  using assms(1) run_ewma [of m xs] run_cusum [of m xs] run_strata [of m xs]
  unfolding assms(2) fresh_monitor_iff by (cases "xs = []") simp_all

text \<open>Fact: the projection is within bounds and quarantines exactly on evidence. After samples with valid
  losses the mean loss is a valid loss; the state is quarantined exactly when the mean or the CUSUM
  reaches the quarantine threshold, and healthy exactly when neither it nor the degraded threshold is
  reached; every posterior mean is strictly between 0 and 1 and inside its interval, which lies in [0, 1].\<close>

theorem projection_bounds:
  assumes "fresh_monitor m" and "\<forall>x \<in> set xs. 0 \<le> smp_loss x \<and> smp_loss x \<le> 1"
    and "m' = run_ops observe xs m" and "p = project m'"
  shows "0 \<le> shp_ewma_loss p \<and> shp_ewma_loss p \<le> 1 \<and> 0 \<le> shp_cusum_positive p
    \<and> (shp_state p = MS_QUARANTINED \<longleftrightarrow>
         sdm_quarantine_threshold m \<le> shp_ewma_loss p \<or> sdm_quarantine_threshold m \<le> shp_cusum_positive p)
    \<and> (shp_state p = MS_HEALTHY \<longleftrightarrow>
         shp_ewma_loss p < sdm_degraded_threshold m \<and> shp_cusum_positive p < sdm_quarantine_threshold m)
    \<and> (shp_reason_codes p = [''semantic_health_nominal''] \<longleftrightarrow> shp_state p = MS_HEALTHY)
    \<and> (\<forall>s \<in> set (shp_strata p). 0 < spo_mean s \<and> spo_mean s < 1 \<and> 0 \<le> spo_lower s \<and> spo_upper s \<le> 1
         \<and> spo_lower s \<le> of_rat (spo_mean s) \<and> of_rat (spo_mean s) \<le> spo_upper s)"
proof -
  note fresh = assms(1) [unfolded fresh_monitor_iff]
  have par: "sdm_quarantine_threshold m' = sdm_quarantine_threshold m"
    "sdm_degraded_threshold m' = sdm_degraded_threshold m"
    "sdm_prior_alpha m' = sdm_prior_alpha m" "sdm_prior_beta m' = sdm_prior_beta m"
    by (simp_all add: assms(3) run_parameter_fields)
  have fields: "shp_ewma_loss p = (case sdm_ewma m' of None \<Rightarrow> 0 | Some x \<Rightarrow> x)" "shp_cusum_positive p = sdm_cusum m'"
    "shp_strata p = map (posterior m') (sort_key fst (sdm_strata m'))"
    by (simp_all add: assms(4) project_def Let_def)
  have e: "0 \<le> shp_ewma_loss p \<and> shp_ewma_loss p \<le> 1"
    using run_ewma_bounds [of m xs 0 1] fresh assms(2,3) by (auto simp: fields split: option.split)
  have c: "0 \<le> shp_cusum_positive p"
    using fresh by (cases xs rule: rev_cases) (simp_all add: fields assms(3) run_snoc observe_simps)
  have lt: "sdm_degraded_threshold m < sdm_quarantine_threshold m" using fresh by blast
  have st: "(shp_state p = MS_QUARANTINED \<longleftrightarrow>
         sdm_quarantine_threshold m \<le> shp_ewma_loss p \<or> sdm_quarantine_threshold m \<le> shp_cusum_positive p)"
    "(shp_state p = MS_HEALTHY \<longleftrightarrow>
         shp_ewma_loss p < sdm_degraded_threshold m \<and> shp_cusum_positive p < sdm_quarantine_threshold m)"
    "(shp_reason_codes p = [''semantic_health_nominal''] \<longleftrightarrow> shp_state p = MS_HEALTHY)"
    using lt unfolding fields(1,2) assms(4) project_def Let_def par
    by (auto simp: sorted_set_def)
  have po: "\<forall>s \<in> set (shp_strata p). 0 < spo_mean s \<and> spo_mean s < 1 \<and> 0 \<le> spo_lower s \<and> spo_upper s \<le> 1
         \<and> spo_lower s \<le> of_rat (spo_mean s) \<and> of_rat (spo_mean s) \<le> spo_upper s"
    unfolding fields(3) using posterior_bounds [of m'] fresh par by auto
  show ?thesis using e c st po by blast
qed

definition demo_monitor :: drift_monitor where
  "demo_monitor = \<lparr>sdm_ewma_alpha = 1/5, sdm_target_loss = 1/20, sdm_cusum_slack = 1/100,
     sdm_degraded_threshold = 1/10, sdm_quarantine_threshold = 1/4, sdm_prior_alpha = 1, sdm_prior_beta = 1,
     sdm_ewma = None, sdm_cusum = 0, sdm_strata = []\<rparr>"

definition demo_sample :: "rat \<Rightarrow> semantic_sample" where
  "demo_sample l = \<lparr>smp_stratum = ''s'', smp_passed = (l < 1/2), smp_loss = l\<rparr>"

lemma demo_monitor_fresh: "fresh_monitor demo_monitor"
  by (simp add: fresh_monitor_iff demo_monitor_def)

theorem monitor_statistics_witness:
  "sdm_ewma (run_ops observe [demo_sample 1, demo_sample 0] demo_monitor) = Some (4/5)
   \<and> map_of (sdm_strata (run_ops observe [demo_sample 1, demo_sample 0] demo_monitor)) ''s'' = Some (1, 1)"
  using monitor_statistics [OF demo_monitor_fresh refl, of "[demo_sample 1, demo_sample 0]"]
  by (simp add: demo_monitor_def demo_sample_def ewma_reference_def passes_def fails_def)

theorem projection_bounds_witness:
  "shp_state (project (run_ops observe [demo_sample 1] demo_monitor)) = MS_QUARANTINED"
proof -
  have "shp_ewma_loss (project (run_ops observe [demo_sample 1] demo_monitor)) = 1"
    by (simp add: project_def observe_def demo_monitor_def demo_sample_def Let_def)
  moreover have "\<forall>x \<in> set [demo_sample 1]. 0 \<le> smp_loss x \<and> smp_loss x \<le> 1" by (simp add: demo_sample_def)
  ultimately show ?thesis
    using projection_bounds [OF demo_monitor_fresh _ refl refl, of "[demo_sample 1]"] by (simp add: demo_monitor_def)
qed

end
