(* ===== verification/Coordinator.thy ===== *)
theory Coordinator
  imports Attempts Sharding Validation Arbitration
begin

text \<open>
  \<^verbatim>\<open>akc_parallel_runtime/coordinator.py\<close>: the facade that records plans, dispatches and starts
  attempts, validates their outputs and accepts arbitrated winners. Its state is the table of planned
  shards beside the state of the attempt store, which shares the coordinator's journal. The
  composition theorems at the end combine the attempt store with the validator.
\<close>

section \<open>State\<close>

type_synonym planned_shards = "string \<rightharpoonup> string \<times> string \<times> parse_shard"

type_synonym cstate = "planned_shards \<times> astate"

definition new_coordinator :: cstate where
  "new_coordinator = (Map.empty, (new_store, Some new_journal))"

definition on_store :: "planned_shards \<Rightarrow> (astate, 'a) outcome \<Rightarrow> (cstate, 'a) outcome" where
  "on_store pl out = (fst out, (pl, snd out))"

section \<open>record_plan, dispatch, start\<close>

text \<open>The loop over the shards; an exception stops it and keeps the shards recorded so far.\<close>

fun record_shards ::
  "renv \<Rightarrow> shard_plan \<Rightarrow> datetime \<Rightarrow> string \<Rightarrow> parse_shard list \<Rightarrow> cstate \<Rightarrow> (cstate, unit) outcome" where
  "record_shards E p occ prefix [] s = (Inr (), s)"
| "record_shards E p occ prefix (sh # shs) s =
    (case s of (pl, (st, oj)) \<Rightarrow>
     let ident = (sp_document_id p, sp_document_version_id p, sh) in
     (if pl (ps_shard_id sh) \<noteq> None \<and> pl (ps_shard_id sh) \<noteq> Some ident
      then (Inl (PyRuntimeError ''planned shard identity cannot be mutated''), s)
      else (case emit E ''shard.planned.v1'' (ps_shard_id sh)
          [(''document_version_id'', PStr (sp_document_version_id p)),
           (''primary_page_ids'', PSeq (map PStr (ps_primary_page_ids sh))),
           (''context_page_ids'', PSeq (map PStr (ps_context_page_ids sh))),
           (''policy_version'', PStr (sp_policy_version p))]
          occ (prefix @ '':'' @ ps_shard_id sh) oj of
        (Inl e, oj') \<Rightarrow> (Inl e, (pl, (st, oj')))
      | (Inr _, oj') \<Rightarrow> record_shards E p occ prefix shs (pl(ps_shard_id sh \<mapsto> ident), (st, oj')))))"

definition record_plan :: "renv \<Rightarrow> shard_plan \<Rightarrow> datetime \<Rightarrow> string \<Rightarrow> cstate \<Rightarrow> (cstate, unit) outcome" where
  "record_plan E p occ prefix s = record_shards E p occ prefix (sp_shards p) s"

definition dispatch ::
  "renv \<Rightarrow> dispatch_spec \<Rightarrow> datetime \<Rightarrow> string \<Rightarrow> cstate \<Rightarrow> (cstate, attempt_snapshot) outcome" where
  "dispatch E spec occ key s =
    (case s of (pl, a) \<Rightarrow>
     (case pl (ds_shard_id spec) of
       None \<Rightarrow> (Inl (PyRuntimeError ''cannot dispatch an unplanned shard''), s)
     | Some (doc, version, sh) \<Rightarrow>
        (if ds_document_id spec \<noteq> doc \<or> ds_document_version_id spec \<noteq> version
            \<or> ds_page_ids spec \<noteq> ps_primary_page_ids sh
         then (Inl (PyRuntimeError ''dispatch spec does not match the immutable shard plan''), s)
         else on_store pl
           (andthen (create_root E key spec occ a) (\<lambda>snap a1.
            andthen (if as_status snap = AS_CREATED
                     then transition E (pa_attempt_id (as_attempt snap)) AS_CREATED AS_QUEUED occ ''shard_dispatched'' a1
                     else (Inr snap, a1)) (\<lambda>snap' (st, oj).
            with_events st snap' (emit E ''shard.dispatched.v1'' (ds_shard_id spec)
              [(''attempt_id'', PStr (pa_attempt_id (as_attempt snap'))),
               (''worker_id'', PStr (ds_worker_id spec)), (''parser_recipe'', PStr (ds_parser_recipe spec))]
              occ (''shard-dispatched:'' @ key) oj)))))))"

definition start :: "renv \<Rightarrow> string \<Rightarrow> datetime \<Rightarrow> cstate \<Rightarrow> (cstate, attempt_snapshot) outcome" where
  "start E aid occ s = (case s of (pl, a) \<Rightarrow> on_store pl
    (andthen (get_attempt aid a) (\<lambda>snap a1.
      if as_status snap = AS_RUNNING then (Inr snap, a1)
      else transition E aid AS_QUEUED AS_RUNNING occ ''worker_execution_started'' a1)))"

section \<open>receive_and_validate, accept_arbitrated\<close>

definition failure_reason :: "validation_result \<Rightarrow> string" where
  "failure_reason v = (if vr_findings v \<noteq> [] then vf_code (hd (vr_findings v)) else ''hard_gate_failed'')"

definition receive_and_validate ::
  "renv \<Rightarrow> string \<Rightarrow> attempt_output \<Rightarrow> candidate_observation \<Rightarrow> validation_policy \<Rightarrow> datetime \<Rightarrow> string
   \<Rightarrow> cstate \<Rightarrow> (cstate, attempt_snapshot \<times> validation_result) outcome" where
  "receive_and_validate E aid out obs policy occ key s = (case s of (pl, a) \<Rightarrow> on_store pl
    (andthen (get_attempt aid a) (\<lambda>before a0.
      if vp_expected_page_ids policy \<noteq> pa_page_ids (as_attempt before)
      then (Inl (PyRuntimeError ''validation policy must cover the exact attempted page scope''), a0)
      else andthen (attach_output E aid out (''output:'' @ key) a0) (\<lambda>_ a1.
        (case validate E obs policy of
          Inl e \<Rightarrow> (Inl e, a1)
        | Inr v \<Rightarrow> andthen (record_validation E aid (vr_digest v) (vr_passed v) occ (failure_reason v) a1)
            (\<lambda>snap a2. (Inr (snap, v), a2)))))))"

definition accept_arbitrated ::
  "renv \<Rightarrow> arbitration_decision \<Rightarrow> datetime \<Rightarrow> string \<Rightarrow> cstate \<Rightarrow> (cstate, acceptance_result) outcome" where
  "accept_arbitrated E d occ key s = (case s of (pl, a) \<Rightarrow>
    (case ar_selected_attempt_id d of
      None \<Rightarrow> (Inl (PyRuntimeError ''unresolved arbitration cannot be accepted''), s)
    | Some aid \<Rightarrow>
       if \<not> ar_accepted d then (Inl (PyRuntimeError ''unresolved arbitration cannot be accepted''), s)
       else if aid \<notin> set (ar_considered_attempt_ids d)
       then (Inl (PyRuntimeError ''arbitration winner is absent from the considered candidate set''), s)
       else if \<not> accepted_verification (ar_verification_state d)
       then (Inl (PyRuntimeError ''arbitration verification state is not accepted''), s)
       else on_store pl (andthen (get_attempt aid a) (\<lambda>snap a1.
         if as_validation_digest snap = None
         then (Inl (PyRuntimeError ''arbitration cannot bypass deterministic validation''), a1)
         else if (case as_output snap of None \<Rightarrow> True
                  | Some out \<Rightarrow> Some (ao_prediction_sha256 out) \<noteq> ar_selected_prediction_sha256 d)
         then (Inl (PyRuntimeError ''arbitration prediction identity does not match immutable output''), a1)
         else accept E aid occ key a1))))"

datatype coordinator_call =
    RecordPlan shard_plan datetime string
  | Dispatch dispatch_spec datetime string
  | Start string datetime
  | ReceiveAndValidate string attempt_output candidate_observation validation_policy datetime string
  | AcceptArbitrated arbitration_decision datetime string

fun coordinate :: "renv \<Rightarrow> coordinator_call \<Rightarrow> cstate \<Rightarrow> (cstate, unit) outcome" where
  "coordinate E (RecordPlan p t prefix) s = forget (record_plan E p t prefix s)"
| "coordinate E (Dispatch spec t key) s = forget (dispatch E spec t key s)"
| "coordinate E (Start aid t) s = forget (start E aid t s)"
| "coordinate E (ReceiveAndValidate aid out obs p t key) s = forget (receive_and_validate E aid out obs p t key s)"
| "coordinate E (AcceptArbitrated d t key) s = forget (accept_arbitrated E d t key s)"

section \<open>Records that reach validation keep what validated them\<close>

definition judged :: "attempt_snapshot \<Rightarrow> bool" where
  "judged r \<longleftrightarrow> as_status r \<in> {AS_VALIDATING, AS_ACCEPTED}"

text \<open>No record becomes judged, and judged ones only gain fields.\<close>

definition quiet :: "attempt_store \<Rightarrow> attempt_store \<Rightarrow> bool" where
  "quiet st st' \<longleftrightarrow> (\<forall>aid r'. rec_of st' aid = Some r' \<longrightarrow> judged r' \<longrightarrow>
     (\<exists>r. rec_of st aid = Some r \<and> judged r \<and> rec_le r r'))"

lemma quiet_refl [simp]: "quiet st st"
  by (auto simp: quiet_def)

lemma quiet_trans: "quiet a b \<Longrightarrow> quiet b c \<Longrightarrow> quiet a c"
  unfolding quiet_def by (meson rec_le_trans)

lemma quiet_records: "st_records st' = st_records st \<Longrightarrow> quiet st st'"
  by (auto simp: quiet_def)

lemma quiet_put:
  "rec_of st aid = Some r \<Longrightarrow> rec_le r r' \<Longrightarrow> (judged r' \<Longrightarrow> judged r) \<Longrightarrow>
   st_records st' = AList.update aid r' (st_records st) \<Longrightarrow> quiet st st'"
  by (auto simp: quiet_def)

lemma rec_le_moved: "rec_le r (moved r to occ reason)"
  by (simp add: rec_le_def)

lemma transition_quiet:
  assumes "transition E aid ex to occ reason (st, oj) = (res, (st', oj'))"
    and "to \<noteq> AS_VALIDATING" and "to = AS_ACCEPTED \<Longrightarrow> ex = AS_VALIDATING"
  shows "quiet st st'"
proof (cases "st' = st")
  case False
  with transition_cases [OF assms(1)] obtain r where
    r: "rec_of st aid = Some r" "can_move r ex to occ"
    "st' = release_shard aid ex to (shard_of r) (put_rec aid (moved r to occ reason) st)"
    by blast
  show ?thesis
    by (rule quiet_put [OF r(1) rec_le_moved])
      (use r assms(2,3) in \<open>auto simp: judged_def can_move_def\<close>)
qed simp

lemma quiet_create:
  "rec_of st aid = None \<Longrightarrow> \<not> judged r \<Longrightarrow> st_records st' = AList.update aid r (st_records st) \<Longrightarrow> quiet st st'"
  by (auto simp: quiet_def)

lemma create_root_quiet:
  assumes "create_root E key d t (st, oj) = (res, (st', oj'))"
  shows "quiet st st'"
proof (cases "st' = st")
  case False
  with assms obtain a where a: "create_attempt E a key (st, oj) = (res, (st', oj'))"
    by (auto simp: create_root_def split: sum.split_asm)
  with False have new: "rec_of st (pa_attempt_id a) = None"
    by (auto simp: create_attempt_def split: option.split_asm if_split_asm)
  from a False show ?thesis
    by (auto simp: create_attempt_def Let_def judged_def intro!: quiet_create [OF new]
        split: option.split_asm if_split_asm sum.split_asm)
qed simp

lemma attach_output_quiet:
  assumes "attach_output E aid out key (st, oj) = (res, (st', oj'))"
  shows "quiet st st' \<and> (\<forall>x. res = Inr x \<longrightarrow> (\<exists>r. rec_of st' aid = Some r \<and> as_output r \<noteq> None))"
proof (cases "rec_of st aid")
  case None
  with assms show ?thesis by (auto simp: attach_output_def)
next
  case (Some r)
  show ?thesis
  proof (cases "as_output r")
    case None
    show ?thesis
    proof (cases "as_status r = AS_RUNNING")
      case False
      with assms Some None show ?thesis by (auto simp: attach_output_def)
    next
      case True
      define r1 where "r1 = r\<lparr>as_output := Some out\<rparr>"
      define st1 where "st1 = put_rec aid r1 st"
      obtain x st2 oj2 where
        t: "transition E aid AS_RUNNING AS_OUTPUT_RECEIVED (ao_completed_at out) ''output_received'' (st1, oj) = (x, (st2, oj2))"
        by (metis prod.exhaust)
      have st': "st' = st2"
        using assms Some None True t
        by (cases x) (auto simp: attach_output_def st1_def r1_def dest!: with_events_eqD)
      have "quiet st st1"
        by (rule quiet_put [OF Some, of r1])
          (use True None in \<open>auto simp: st1_def r1_def rec_le_def judged_def\<close>)
      moreover have "quiet st1 st2" by (rule transition_quiet [OF t]) simp_all
      moreover have "rec_of st1 aid = Some r1" by (simp add: st1_def)
      with transition_cases [OF t] have "\<exists>r'. rec_of st2 aid = Some r' \<and> as_output r' \<noteq> None"
        by (auto simp: r1_def)
      ultimately show ?thesis unfolding st' by (blast intro: quiet_trans)
    qed
  next
    case (Some out')
    with assms \<open>rec_of st aid = Some r\<close> show ?thesis by (auto simp: attach_output_def split: if_split_asm)
  qed
qed

lemma accept_records:
  assumes "accept E aid occ key (st, oj) = (res, (st', oj'))"
  shows "st_records st' = st_records st \<or>
    (\<exists>to reason x st2 oj2. to \<in> {AS_SUPERSEDED, AS_ACCEPTED} \<and>
      transition E aid AS_VALIDATING to occ reason (st, oj) = (x, (st2, oj2)) \<and> st_records st' = st_records st2)"
proof -
  { fix r assume r: "rec_of st aid = Some r" and nk: "st_acceptance_keys st key = None"
      and na: "as_status r = AS_VALIDATING" and d: "as_validation_digest r \<noteq> None"
    obtain x1 st1 oj1 where t1: "transition E aid AS_VALIDATING AS_SUPERSEDED occ
        ''first_verified_result_already_accepted'' (st, oj) = (x1, (st1, oj1))"
      by (metis prod.exhaust)
    obtain x2 st2 oj2 where t2: "transition E aid AS_VALIDATING AS_ACCEPTED occ
        ''hard_gates_passed_and_arbitrated'' (st, oj) = (x2, (st2, oj2))"
      by (metis prod.exhaust)
    have "st_records st' = st_records st \<or> st_records st' = st_records st1 \<or> st_records st' = st_records st2"
    proof (cases "st_accepted_by_shard st (shard_of r)")
      case None
      with assms r nk na d t2 show ?thesis
        by (cases x2) (auto simp: accept_def Let_def dest!: with_events_eqD)
    next
      case (Some w)
      with assms r nk na d t1 show ?thesis
        by (cases x1) (auto simp: accept_def Let_def split: option.split_asm sum.split_asm)
    qed
    with t1 t2 have ?thesis by blast }
  moreover have ?thesis if "\<nexists>r. rec_of st aid = Some r \<and> st_acceptance_keys st key = None
      \<and> as_status r = AS_VALIDATING \<and> as_validation_digest r \<noteq> None"
    using assms that
    by (auto simp: accept_def Let_def split: option.split_asm if_split_asm sum.split_asm)
  ultimately show ?thesis by blast
qed

lemma accept_quiet:
  assumes "accept E aid occ key (st, oj) = (res, (st', oj'))"
  shows "quiet st st'"
  using accept_records [OF assms]
proof (elim disjE exE conjE)
  fix to reason x st2 oj2
  assume a: "to \<in> {AS_SUPERSEDED, AS_ACCEPTED}"
    "transition E aid AS_VALIDATING to occ reason (st, oj) = (x, (st2, oj2))" "st_records st' = st_records st2"
  have "quiet st st2" by (rule transition_quiet [OF a(2)]) (use a(1) in auto)
  moreover have "quiet st2 st'" using a(3) by (rule quiet_records)
  ultimately show ?thesis by (rule quiet_trans)
qed (rule quiet_records)

section \<open>The validation gate\<close>

text \<open>The record carries an output and the digest of a passed validation of its own pages.\<close>

definition passed_gate :: "renv \<Rightarrow> attempt_snapshot \<Rightarrow> bool" where
  "passed_gate E r \<longleftrightarrow> as_output r \<noteq> None \<and> (\<exists>x p v. validate E x p = Inr v \<and> vr_passed v
     \<and> vp_expected_page_ids p = pa_page_ids (as_attempt r) \<and> as_validation_digest r = Some (vr_digest v))"

definition gated :: "renv \<Rightarrow> attempt_store \<Rightarrow> bool" where
  "gated E st \<longleftrightarrow> (\<forall>aid r. rec_of st aid = Some r \<longrightarrow> judged r \<longrightarrow> passed_gate E r)"

lemma passed_gate_mono: "passed_gate E r \<Longrightarrow> rec_le r r' \<Longrightarrow> passed_gate E r'"
  unfolding passed_gate_def rec_le_def by (metis option.distinct(1))

lemma gated_quiet: "gated E st \<Longrightarrow> quiet st st' \<Longrightarrow> gated E st'"
  unfolding gated_def quiet_def by (meson passed_gate_mono)

lemma gated_put:
  "gated E st \<Longrightarrow> (judged r \<Longrightarrow> passed_gate E r) \<Longrightarrow>
   st_records st' = AList.update aid r (st_records st) \<Longrightarrow> gated E st'"
  by (auto simp: gated_def)

lemma checks_identifier: "(code, b) \<in> set (checks x p level) \<Longrightarrow> identifier_ok code"
  by (cases level) (auto simp: identifier_ok_def is_space_def)

lemma failed_code_identifier: "code \<in> set (failed_codes x p level) \<Longrightarrow> identifier_ok code"
proof -
  assume "code \<in> set (failed_codes x p level)"
  then consider b where "(code, b) \<in> set (checks x p level)"
    | "code = ''level_'' @ nat_str (level_value level) @ ''_evidence_missing''"
    by (auto simp: failed_codes_def split: if_splits)
  then show ?thesis
  proof cases
    case 1
    then show ?thesis by (rule checks_identifier)
  next
    case 2
    then show ?thesis by (cases level; simp; code_simp)
  qed
qed

lemma failure_reason_ok:
  assumes "validate E x p = Inr v"
  shows "identifier_ok (failure_reason v)"
proof (cases "vr_findings v")
  case Nil
  have "identifier_ok ''hard_gate_failed''" by code_simp
  with Nil show ?thesis by (simp add: failure_reason_def)
next
  case (Cons f fs)
  let ?codes = "concat (map (\<lambda>level. map (\<lambda>code. (level, code)) (failed_codes x p level)) (required_levels p))"
  have "mapE (\<lambda>(level, code). finding_of E x level code) ?codes = Inr (vr_findings v)"
    using assms by (auto simp: validate_def Let_def split: sum.split_asm)
  from mapE_mem [OF this, of f] Cons obtain lc
    where lc: "lc \<in> set ?codes" "(case lc of (level, code) \<Rightarrow> finding_of E x level code) = Inr f"
    by (metis list.set_intros(1))
  obtain level code where "lc = (level, code)" by fastforce
  with lc have f: "finding_of E x level code = Inr f" "(level, code) \<in> set ?codes" by auto
  then have "code \<in> set (failed_codes x p level)" by auto
  moreover have "vf_code f = code" using f(1)
    by (auto simp: finding_of_def mk_validation_finding_def require_all_Inr_iff
        simp del: require_all.simps split: sum.split_asm)
  ultimately show ?thesis using failed_code_identifier Cons by (auto simp: failure_reason_def)
qed

text \<open>
  A transition whose snapshot can be built and whose arguments are legal succeeds; the second
  transition of a failed validation is one.
\<close>

lemma reject_succeeds:
  assumes "rec_of st aid = Some r" and "as_status r = AS_VALIDATING" and "digests_ok st"
    and "at_occurred_at (last (as_transitions r)) = occ" and "is_aware occ" and "identifier_ok reason"
    and "transition E aid AS_VALIDATING AS_REJECTED occ reason (st, oj) = (res, (st', oj'))"
  shows "rec_of st' aid = Some (moved r AS_REJECTED occ reason)
    \<and> st_records st' = AList.update aid (moved r AS_REJECTED occ reason) (st_records st)"
proof -
  have "mk_attempt_transition (trans_of r AS_REJECTED occ reason) = Inr (trans_of r AS_REJECTED occ reason)"
    using assms by (simp add: mk_transition_Inr trans_of_def)
  moreover have "mk_attempt_snapshot (moved r AS_REJECTED occ reason) = Inr (moved r AS_REJECTED occ reason)"
    by (rule snapshot_of_moved [OF assms(3,1)])
  ultimately have "st' = release_shard aid AS_VALIDATING AS_REJECTED (shard_of r)
      (put_rec aid (moved r AS_REJECTED occ reason) st)"
    using assms by (auto simp: transition_def Let_def dest!: with_events_eqD)
  then show ?thesis by simp
qed

lemma record_validation_gated:
  assumes "record_validation E aid (vr_digest v) (vr_passed v) occ (failure_reason v) (st, oj) = (res, (st', oj'))"
    and v: "validate E x p = Inr v" and shaped: "is_sha256 (vr_digest v)"
    and g: "gated E st" and dok: "digests_ok st"
    and r: "rec_of st aid = Some r" and out: "as_output r \<noteq> None"
    and pages: "vp_expected_page_ids p = pa_page_ids (as_attempt r)"
  shows "gated E st'"
proof (cases "as_validation_digest r = None \<and> as_status r = AS_OUTPUT_RECEIVED")
  case False
  with assms(1) r have "st' = st" by (auto simp: record_validation_def split: option.split_asm if_split_asm)
  with g show ?thesis by simp
next
  case True
  define r1 where "r1 = r\<lparr>as_validation_digest := Some (vr_digest v)\<rparr>"
  define st1 where "st1 = put_rec aid r1 st"
  define r2 where "r2 = moved r1 AS_VALIDATING occ ''validation_started''"
  obtain x2 st2 oj2 where t2: "transition E aid AS_OUTPUT_RECEIVED AS_VALIDATING occ ''validation_started''
      (st1, oj) = (x2, (st2, oj2))"
    by (metis prod.exhaust)
  obtain x3 st3 oj3 where t3: "transition E aid AS_VALIDATING AS_REJECTED occ (failure_reason v)
      (st2, oj2) = (x3, (st3, oj3))"
    by (metis prod.exhaust)
  have st': "st' = (case x2 of Inl e \<Rightarrow> st2 | Inr s \<Rightarrow> if vr_passed v then st2 else st3)"
    using assms(1) r True t2 t3
    by (cases x2; cases x3) (auto simp: record_validation_def st1_def r1_def dest!: with_events_eqD split: if_split_asm)
  have g1: "gated E st1"
    by (rule gated_put [OF g, of r1]) (use True in \<open>simp_all add: st1_def r1_def judged_def\<close>)
  have d1: "digests_ok st1" using dok shaped by (auto simp: digests_ok_def st1_def r1_def)
  have r1: "rec_of st1 aid = Some r1" by (simp add: st1_def)
  show ?thesis
  proof (cases "st2 = st1 \<and> (\<exists>e. x2 = Inl e)")
    case True
    with st' g1 show ?thesis by auto
  next
    case False
    with transition_cases [OF t2] r1 snapshot_of_moved [OF d1 r1] have
      st2: "st_records st2 = AList.update aid r2 (st_records st1)" and x2: "x2 = Inr r2"
      and mv: "can_move r1 AS_OUTPUT_RECEIVED AS_VALIDATING occ"
      by (auto simp: r2_def)
    show ?thesis
    proof (cases "vr_passed v")
      case True
      have "passed_gate E r2"
        using v out pages True unfolding passed_gate_def r2_def r1_def by auto
      with gated_put [OF g1, of r2] st2 st' x2 True show ?thesis by simp
    next
      case False
      have "digests_ok st2" using d1 shaped by (auto simp: digests_ok_def st2 r2_def r1_def)
      with reject_succeeds [OF _ _ _ _ _ failure_reason_ok [OF v] t3, of r2] st2 mv
      have "st_records st3 = AList.update aid (moved r2 AS_REJECTED occ (failure_reason v)) (st_records st2)"
        by (simp add: r2_def can_move_def trans_of_def)
      with st2 g1 False x2 st' show ?thesis by (auto simp: gated_def judged_def)
    qed
  qed
qed

section \<open>Attempts belong to planned shards\<close>

definition identities :: "attempt_store \<Rightarrow> string \<rightharpoonup> parse_attempt" where
  "identities st aid = map_option as_attempt (rec_of st aid)"

lemma identities_put:
  "rec_of st aid = Some r \<Longrightarrow> as_attempt r' = as_attempt r \<Longrightarrow>
   st_records st' = AList.update aid r' (st_records st) \<Longrightarrow> identities st' = identities st"
  by (auto simp: identities_def fun_eq_iff)

lemma identities_records: "st_records st' = st_records st \<Longrightarrow> identities st' = identities st"
  by (auto simp: identities_def fun_eq_iff)

lemma transition_identities:
  assumes "transition E aid ex to occ reason (st, oj) = (res, (st', oj'))"
  shows "identities st' = identities st"
proof (cases "st' = st")
  case False
  with transition_cases [OF assms] obtain r where r: "rec_of st aid = Some r"
    and st': "st' = release_shard aid ex to (shard_of r) (put_rec aid (moved r to occ reason) st)"
    by blast
  show ?thesis by (rule identities_put [OF r, of "moved r to occ reason"]) (simp_all add: st')
qed simp

lemma attach_output_identities:
  assumes "attach_output E aid out key (st, oj) = (res, (st', oj'))"
  shows "identities st' = identities st"
proof (cases "st' = st")
  case False
  with assms obtain r where r: "rec_of st aid = Some r"
    by (auto simp: attach_output_def split: option.split_asm)
  define st1 where "st1 = put_rec aid (r\<lparr>as_output := Some out\<rparr>) st"
  obtain x st2 oj2 where
    t: "transition E aid AS_RUNNING AS_OUTPUT_RECEIVED (ao_completed_at out) ''output_received'' (st1, oj) = (x, (st2, oj2))"
    by (metis prod.exhaust)
  have "st' = st2"
    using assms False r t
    by (cases x) (auto simp: attach_output_def st1_def split: if_split_asm option.split_asm dest!: with_events_eqD)
  moreover have "identities st1 = identities st"
    by (rule identities_put [OF r]) (simp_all add: st1_def)
  ultimately show ?thesis using transition_identities [OF t] by simp
qed simp

lemma record_validation_identities:
  assumes "record_validation E aid d p t reason (st, oj) = (res, (st', oj'))"
  shows "identities st' = identities st"
proof (cases "st' = st")
  case False
  with assms(1) obtain r where r: "rec_of st aid = Some r"
    by (auto simp: record_validation_def split: option.split_asm)
  define st1 where "st1 = put_rec aid (r\<lparr>as_validation_digest := Some d\<rparr>) st"
  obtain x st2 oj2 where
    t2: "transition E aid AS_OUTPUT_RECEIVED AS_VALIDATING t ''validation_started'' (st1, oj) = (x, (st2, oj2))"
    by (metis prod.exhaust)
  obtain y st3 oj3 where
    t3: "transition E aid AS_VALIDATING AS_REJECTED t reason (st2, oj2) = (y, (st3, oj3))"
    by (metis prod.exhaust)
  have "st' = st2 \<or> st' = st3"
    using assms(1) False r t2 t3
    by (cases x; cases y)
      (auto simp: record_validation_def st1_def split: if_split_asm option.split_asm dest!: with_events_eqD)
  moreover have "identities st1 = identities st"
    by (rule identities_put [OF r]) (simp_all add: st1_def)
  ultimately show ?thesis using transition_identities [OF t2] transition_identities [OF t3] by auto
qed simp

lemma accept_identities:
  "accept E aid occ key (st, oj) = (res, (st', oj')) \<Longrightarrow> identities st' = identities st"
  using accept_records [of E aid occ key st oj res st' oj']
  by (metis identities_records transition_identities)

text \<open>The attempt has the document, version and primary pages of its planned shard.\<close>

definition planned_attempt :: "planned_shards \<Rightarrow> parse_attempt \<Rightarrow> bool" where
  "planned_attempt pl a \<longleftrightarrow> (\<exists>sh. pl (pa_shard_id a) = Some (pa_document_id a, pa_document_version_id a, sh)
     \<and> pa_page_ids a = ps_primary_page_ids sh)"

definition all_planned :: "planned_shards \<Rightarrow> attempt_store \<Rightarrow> bool" where
  "all_planned pl st \<longleftrightarrow> (\<forall>aid a. identities st aid = Some a \<longrightarrow> planned_attempt pl a)"

lemma create_root_identities:
  assumes "create_root E key d t (st, oj) = (res, (st', oj'))"
  shows "identities st' = identities st
    \<or> (\<exists>aid. identities st' = (identities st)(aid \<mapsto> root_attempt E key d t))"
proof (cases "st' = st")
  case False
  with assms obtain a where a: "create_attempt E a key (st, oj) = (res, (st', oj'))"
    and ra: "a = root_attempt E key d t"
    by (auto simp: create_root_def mk_parse_attempt_def require_all_Inr_iff
        simp del: require_all.simps split: sum.split_asm)
  with False have "identities st' = (identities st)(pa_attempt_id a \<mapsto> a)"
    by (auto simp: create_attempt_def Let_def identities_def fun_eq_iff
        split: option.split_asm if_split_asm sum.split_asm)
  with ra show ?thesis by blast
qed simp

section \<open>The coordinator's invariant\<close>

definition coordinator_inv :: "renv \<Rightarrow> planned_shards \<Rightarrow> attempt_store \<Rightarrow> bool" where
  "coordinator_inv E pl st \<longleftrightarrow> all_planned pl st \<and> gated E st \<and> acceptance_inv st"

text \<open>Steps that neither create attempts nor validate them.\<close>

definition plain_step :: "attempt_store \<Rightarrow> attempt_store \<Rightarrow> bool" where
  "plain_step st st' \<longleftrightarrow> quiet st st' \<and> identities st' = identities st \<and> micros True st st'"

lemma plain_step_refl [simp]: "plain_step st st"
  by (simp add: plain_step_def)

lemma plain_step_inv: "plain_step st st' \<Longrightarrow> coordinator_inv E pl st \<Longrightarrow> coordinator_inv E pl st'"
  unfolding plain_step_def coordinator_inv_def all_planned_def
  using gated_quiet micros_acceptance_inv by metis

lemma transition_plain:
  assumes "transition E aid ex to occ reason (st, oj) = (res, (st', oj'))"
    and "to \<noteq> AS_VALIDATING" and "to \<noteq> AS_ACCEPTED"
  shows "plain_step st st'"
  unfolding plain_step_def
  using transition_quiet [OF assms(1)] transition_identities [OF assms(1)] transition_micro [OF assms(1), of True] assms(2,3)
  by blast

lemma attach_output_plain:
  assumes "attach_output E aid out key (st, oj) = (res, (st', oj'))"
  shows "plain_step st st'"
  unfolding plain_step_def
  using attach_output_quiet [OF assms] attach_output_identities [OF assms] attach_output_micro [OF assms, of True]
  by simp

lemma accept_plain:
  assumes "accept E aid occ key (st, oj) = (res, (st', oj'))" and "digests_ok st"
  shows "plain_step st st'"
  unfolding plain_step_def
  using accept_quiet [OF assms(1)] accept_identities [OF assms(1)] accept_micro [OF assms(1), of True] assms(2)
  by simp

lemma create_root_inv:
  assumes "create_root E key d t (st, oj) = (res, (st', oj'))"
    and "planned_attempt pl (root_attempt E key d t)" and "coordinator_inv E pl st"
  shows "coordinator_inv E pl st'"
proof -
  from create_root_identities [OF assms(1)] assms(2,3) have "all_planned pl st'"
    by (auto simp: coordinator_inv_def all_planned_def split: if_split_asm)
  moreover from create_root_quiet [OF assms(1)] create_root_micro [OF assms(1), of True] assms(3)
  have "gated E st'" "acceptance_inv st'"
    unfolding coordinator_inv_def using gated_quiet micros_acceptance_inv by blast+
  ultimately show ?thesis by (simp add: coordinator_inv_def)
qed

lemma record_validation_inv:
  assumes rv: "record_validation E aid (vr_digest v) (vr_passed v) occ (failure_reason v) (st, oj) = (res, (st', oj'))"
    and v: "validate E x p = Inr v" and shaped: "sha_shaped E"
    and r: "rec_of st aid = Some r" and out: "as_output r \<noteq> None"
    and pages: "vp_expected_page_ids p = pa_page_ids (as_attempt r)"
    and inv: "coordinator_inv E pl st"
  shows "coordinator_inv E pl st'"
proof -
  have d: "is_sha256 (vr_digest v)"
    using v shaped by (auto simp: validate_def Let_def sha_shaped_def jsha_def split: sum.split_asm)
  have "digests_ok st" using inv by (simp add: coordinator_inv_def acceptance_inv_def)
  with record_validation_gated [OF rv v d _ _ r out pages] inv have "gated E st'"
    by (simp add: coordinator_inv_def)
  moreover have "acceptance_inv st'"
    using record_validation_micro [OF rv, of True] d micros_acceptance_inv inv
    unfolding coordinator_inv_def by blast
  ultimately show ?thesis
    using record_validation_identities [OF rv] inv by (simp add: coordinator_inv_def all_planned_def)
qed

subsection \<open>Every operation keeps it\<close>

lemma on_store_eqD: "on_store pl out = (res, (pl', a')) \<Longrightarrow> pl' = pl \<and> out = (res, a')"
  by (auto simp: on_store_def)

lemma record_shards_inv:
  "record_shards E p occ prefix shs (pl, (st, oj)) = (res, (pl', (st', oj'))) \<Longrightarrow>
   st' = st \<and> pl \<subseteq>\<^sub>m pl'"
proof (induction shs arbitrary: pl oj)
  case (Cons sh shs)
  let ?ident = "(sp_document_id p, sp_document_version_id p, sh)"
  show ?case
  proof (cases "pl (ps_shard_id sh) \<noteq> None \<and> pl (ps_shard_id sh) \<noteq> Some ?ident")
    case False
    then have "pl \<subseteq>\<^sub>m pl(ps_shard_id sh \<mapsto> ?ident)" by (auto simp: map_le_def)
    with False Cons show ?thesis
      by (auto simp: Let_def intro: map_le_trans split: prod.split_asm sum.split_asm)
  qed (use Cons.prems in auto)
qed simp

lemma all_planned_mono: "all_planned pl st \<Longrightarrow> pl \<subseteq>\<^sub>m pl' \<Longrightarrow> all_planned pl' st"
  unfolding all_planned_def planned_attempt_def by (metis map_le_def domI)

lemma dispatch_inv:
  assumes "dispatch E spec occ key (pl, (st, oj)) = (res, (pl', (st', oj')))" and "coordinator_inv E pl st"
  shows "coordinator_inv E pl' st'"
proof (cases "st' = st \<and> pl' = pl")
  case False
  with assms(1) obtain sh where sh: "pl (ds_shard_id spec) = Some (ds_document_id spec, ds_document_version_id spec, sh)"
    "ds_page_ids spec = ps_primary_page_ids sh"
    by (auto simp: dispatch_def split: option.split_asm if_split_asm)
  obtain x1 st1 oj1 where c: "create_root E key spec occ (st, oj) = (x1, (st1, oj1))"
    by (metis prod.exhaust)
  have pa: "planned_attempt pl (root_attempt E key spec occ)"
    using sh by (simp add: planned_attempt_def root_attempt_def Let_def)
  have i1: "coordinator_inv E pl st1" by (rule create_root_inv [OF c pa assms(2)])
  show ?thesis
  proof (cases x1)
    case (Inl e)
    with assms(1) sh c i1 show ?thesis by (auto simp: dispatch_def dest!: on_store_eqD)
  next
    case (Inr snap)
    obtain x2 st2 oj2 where
      t: "transition E (pa_attempt_id (as_attempt snap)) AS_CREATED AS_QUEUED occ ''shard_dispatched'' (st1, oj1)
        = (x2, (st2, oj2))"
      by (metis prod.exhaust)
    have "plain_step st1 st2" by (rule transition_plain [OF t]) simp_all
    then have i2: "coordinator_inv E pl st2" using i1 by (rule plain_step_inv)
    from assms(1) sh c Inr t have "pl' = pl" "st' = st1 \<or> st' = st2"
      by (cases x2; auto simp: dispatch_def dest!: on_store_eqD with_events_eqD split: if_split_asm)+
    with i1 i2 show ?thesis by auto
  qed
qed (use assms in simp)

lemma start_inv:
  assumes "start E aid occ (pl, (st, oj)) = (res, (pl', (st', oj')))" and "coordinator_inv E pl st"
  shows "coordinator_inv E pl' st'"
proof -
  obtain x1 st1 oj1 where t: "transition E aid AS_QUEUED AS_RUNNING occ ''worker_execution_started'' (st, oj)
      = (x1, (st1, oj1))"
    by (metis prod.exhaust)
  have "plain_step st st1" by (rule transition_plain [OF t]) simp_all
  moreover have "pl' = pl \<and> (st' = st \<or> st' = st1)"
    using assms(1) t by (auto simp: start_def get_attempt_def andthen_def
        dest!: on_store_eqD split: option.split_asm sum.split_asm if_split_asm)
  ultimately show ?thesis using plain_step_inv assms(2) by blast
qed

lemma receive_inv:
  assumes "receive_and_validate E aid out obs p occ key (pl, (st, oj)) = (res, (pl', (st', oj')))"
    and "coordinator_inv E pl st" and "sha_shaped E"
  shows "coordinator_inv E pl' st'"
proof (cases "\<exists>r. rec_of st aid = Some r \<and> mk_attempt_snapshot r = Inr r \<and> vp_expected_page_ids p = pa_page_ids (as_attempt r)")
  case False
  with assms(1) have "pl' = pl \<and> st' = st"
    by (auto simp: receive_and_validate_def get_attempt_def andthen_def dest!: on_store_eqD mk_snapshot_Inr
        split: option.split_asm sum.split_asm if_split_asm)
  with assms(2) show ?thesis by simp
next
  case True
  then obtain r where r: "rec_of st aid = Some r" "mk_attempt_snapshot r = Inr r"
    and pages: "vp_expected_page_ids p = pa_page_ids (as_attempt r)" by blast
  obtain x1 st1 oj1 where a: "attach_output E aid out (''output:'' @ key) (st, oj) = (x1, (st1, oj1))"
    by (metis prod.exhaust)
  have i1: "coordinator_inv E pl st1" using attach_output_plain [OF a] assms(2) by (rule plain_step_inv)
  obtain v where v: "validate E obs p = Inr v" using validate_total assms(3) by blast
  obtain x2 st2 oj2 where rv: "record_validation E aid (vr_digest v) (vr_passed v) occ (failure_reason v) (st1, oj1)
      = (x2, (st2, oj2))"
    by (metis prod.exhaust)
  show ?thesis
  proof (cases x1)
    case (Inl e)
    with assms(1) r pages a i1 show ?thesis
      by (auto simp: receive_and_validate_def get_attempt_def dest!: on_store_eqD)
  next
    case (Inr snap)
    with attach_output_quiet [OF a] obtain r1 where r1: "rec_of st1 aid = Some r1" "as_output r1 \<noteq> None" by blast
    have "identities st1 aid = identities st aid" using attach_output_identities [OF a] by simp
    with r r1 have "as_attempt r1 = as_attempt r" by (simp add: identities_def)
    with pages have "coordinator_inv E pl st2"
      using record_validation_inv [OF rv v assms(3) r1 _ i1] by simp
    with assms(1) r pages a Inr v rv show ?thesis
      by (cases x2) (auto simp: receive_and_validate_def get_attempt_def dest!: on_store_eqD)
  qed
qed

lemma accept_arbitrated_inv:
  assumes "accept_arbitrated E d occ key (pl, (st, oj)) = (res, (pl', (st', oj')))" and "coordinator_inv E pl st"
  shows "coordinator_inv E pl' st'"
proof (cases "ar_selected_attempt_id d")
  case None
  with assms show ?thesis by (simp add: accept_arbitrated_def)
next
  case (Some aid)
  obtain x1 st1 oj1 where a: "accept E aid occ key (st, oj) = (x1, (st1, oj1))"
    by (metis prod.exhaust)
  have "digests_ok st" using assms(2) by (simp add: coordinator_inv_def acceptance_inv_def)
  then have "coordinator_inv E pl st1" using accept_plain [OF a] assms(2) plain_step_inv by blast
  moreover have "pl' = pl \<and> (st' = st \<or> st' = st1)"
    using assms(1) Some a by (auto simp: accept_arbitrated_def get_attempt_def andthen_def
        dest!: on_store_eqD split: option.split_asm sum.split_asm if_split_asm)
  ultimately show ?thesis using assms(2) by blast
qed

lemma coordinate_inv:
  assumes "coordinate E c (pl, (st, oj)) = (res, (pl', (st', oj')))"
    and "coordinator_inv E pl st" and "sha_shaped E"
  shows "coordinator_inv E pl' st'"
proof -
  have snd: "snd (coordinate E c (pl, (st, oj))) = (pl', (st', oj'))" using assms(1) by simp
  show ?thesis
  proof (cases c)
    case (RecordPlan p t prefix)
    with snd record_shards_inv [of E p t prefix "sp_shards p" pl st oj] assms(2) all_planned_mono show ?thesis
      by (cases "record_plan E p t prefix (pl, (st, oj))") (auto simp: coordinator_inv_def record_plan_def)
  next
    case (Dispatch spec t key)
    with snd assms(2) dispatch_inv show ?thesis by (cases "dispatch E spec t key (pl, (st, oj))") auto
  next
    case (Start aid t)
    with snd assms(2) start_inv show ?thesis by (cases "start E aid t (pl, (st, oj))") auto
  next
    case (ReceiveAndValidate aid out obs p t key)
    with snd assms(2,3) receive_inv show ?thesis
      by (cases "receive_and_validate E aid out obs p t key (pl, (st, oj))") auto
  next
    case (AcceptArbitrated d t key)
    with snd assms(2) accept_arbitrated_inv show ?thesis
      by (cases "accept_arbitrated E d t key (pl, (st, oj))") auto
  qed
qed

lemma coordinator_run_inv:
  assumes "run_ops (coordinate E) cs (pl, (st, oj)) = (pl', (st', oj'))"
    and "coordinator_inv E pl st" and "sha_shaped E"
  shows "coordinator_inv E pl' st'"
  using assms
proof (induction cs arbitrary: pl st oj)
  case (Cons c cs)
  obtain res pl1 st1 oj1 where c: "coordinate E c (pl, (st, oj)) = (res, (pl1, (st1, oj1)))"
    by (metis prod.exhaust)
  with Cons coordinate_inv [OF c] show ?case by simp
qed simp

lemma coordinator_inv_new: "coordinator_inv E Map.empty new_store"
  using acceptance_inv_new
  by (simp add: coordinator_inv_def all_planned_def gated_def identities_def new_store_def)

section \<open>The register of winners\<close>

text \<open>
  The abstract contract of acceptance: a register of one winner per shard that can only be claimed
  while it is empty.
\<close>

definition claim_shard :: "string \<Rightarrow> string \<Rightarrow> (string \<rightharpoonup> string) \<Rightarrow> (string \<rightharpoonup> string)" where
  "claim_shard sh aid w = (if w sh = None then w(sh \<mapsto> aid) else w)"

lemma transition_register:
  assumes "transition E aid ex to occ reason (st, oj) = (res, (st', oj'))" and "ex \<noteq> AS_ACCEPTED"
  shows "st_accepted_by_shard st' = st_accepted_by_shard st"
  using transition_cases [OF assms(1)] assms(2) by (auto simp: release_shard_def)

lemma create_root_register:
  "create_root E key d t (st, oj) = (res, (st', oj')) \<Longrightarrow> st_accepted_by_shard st' = st_accepted_by_shard st"
  by (auto simp: create_root_def create_attempt_def Let_def
      split: option.split_asm if_split_asm sum.split_asm)

lemma attach_output_register:
  assumes "attach_output E aid out key (st, oj) = (res, (st', oj'))"
  shows "st_accepted_by_shard st' = st_accepted_by_shard st"
proof (cases "st' = st")
  case False
  with assms obtain r where r: "rec_of st aid = Some r"
    by (auto simp: attach_output_def split: option.split_asm)
  define st1 where "st1 = put_rec aid (r\<lparr>as_output := Some out\<rparr>) st"
  obtain x st2 oj2 where
    t: "transition E aid AS_RUNNING AS_OUTPUT_RECEIVED (ao_completed_at out) ''output_received'' (st1, oj) = (x, (st2, oj2))"
    by (metis prod.exhaust)
  have "st' = st2"
    using assms False r t
    by (cases x) (auto simp: attach_output_def st1_def split: if_split_asm option.split_asm dest!: with_events_eqD)
  with transition_register [OF t] show ?thesis by (simp add: st1_def)
qed simp

lemma record_validation_register:
  assumes "record_validation E aid d p t reason (st, oj) = (res, (st', oj'))"
  shows "st_accepted_by_shard st' = st_accepted_by_shard st"
proof (cases "st' = st")
  case False
  with assms(1) obtain r where r: "rec_of st aid = Some r"
    by (auto simp: record_validation_def split: option.split_asm)
  define st1 where "st1 = put_rec aid (r\<lparr>as_validation_digest := Some d\<rparr>) st"
  obtain x st2 oj2 where
    t2: "transition E aid AS_OUTPUT_RECEIVED AS_VALIDATING t ''validation_started'' (st1, oj) = (x, (st2, oj2))"
    by (metis prod.exhaust)
  obtain y st3 oj3 where
    t3: "transition E aid AS_VALIDATING AS_REJECTED t reason (st2, oj2) = (y, (st3, oj3))"
    by (metis prod.exhaust)
  have "st' = st2 \<or> st' = st3"
    using assms(1) False r t2 t3
    by (cases x; cases y)
      (auto simp: record_validation_def st1_def split: if_split_asm option.split_asm dest!: with_events_eqD)
  with transition_register [OF t2] transition_register [OF t3] show ?thesis by (auto simp: st1_def)
qed simp

lemma accept_register:
  assumes "accept E aid occ key (st, oj) = (res, (st', oj'))"
  shows "st_accepted_by_shard st' = st_accepted_by_shard st \<or>
    (\<exists>r. rec_of st aid = Some r \<and> as_status r = AS_VALIDATING \<and> as_validation_digest r \<noteq> None
      \<and> st_accepted_by_shard st (shard_of r) = None
      \<and> st_accepted_by_shard st' = claim_shard (shard_of r) aid (st_accepted_by_shard st))"
proof -
  obtain x1 st1 oj1 where t1: "transition E aid AS_VALIDATING AS_SUPERSEDED occ
      ''first_verified_result_already_accepted'' (st, oj) = (x1, (st1, oj1))"
    by (metis prod.exhaust)
  obtain x2 st2 oj2 where t2: "transition E aid AS_VALIDATING AS_ACCEPTED occ
      ''hard_gates_passed_and_arbitrated'' (st, oj) = (x2, (st2, oj2))"
    by (metis prod.exhaust)
  have r12: "st_accepted_by_shard st1 = st_accepted_by_shard st" "st_accepted_by_shard st2 = st_accepted_by_shard st"
    using transition_register [OF t1] transition_register [OF t2] by simp_all
  show ?thesis
  proof (cases "\<exists>r. rec_of st aid = Some r \<and> st_acceptance_keys st key = None
      \<and> as_status r = AS_VALIDATING \<and> as_validation_digest r \<noteq> None")
    case False
    with assms have "st_accepted_by_shard st' = st_accepted_by_shard st"
      by (auto simp: accept_def Let_def split: option.split_asm if_split_asm sum.split_asm)
    then show ?thesis ..
  next
    case True
    then obtain r where r: "rec_of st aid = Some r" "st_acceptance_keys st key = None"
      "as_status r = AS_VALIDATING" "as_validation_digest r \<noteq> None" by blast
    show ?thesis
    proof (cases "st_accepted_by_shard st (shard_of r)")
      case None
      from assms r None t2 r12(2) have "st_accepted_by_shard st' = st_accepted_by_shard st
          \<or> st_accepted_by_shard st' = (st_accepted_by_shard st)(shard_of r \<mapsto> aid)"
        by (cases x2) (auto simp: accept_def Let_def dest!: with_events_eqD)
      with r None show ?thesis by (auto simp: claim_shard_def)
    next
      case (Some w)
      with assms r t1 r12(1) have "st_accepted_by_shard st' = st_accepted_by_shard st"
        by (cases x1) (auto simp: accept_def Let_def split: option.split_asm sum.split_asm)
      then show ?thesis ..
    qed
  qed
qed

lemma dispatch_register:
  assumes "dispatch E spec occ key (pl, (st, oj)) = (res, (pl', (st', oj')))"
  shows "st_accepted_by_shard st' = st_accepted_by_shard st"
proof -
  obtain x1 st1 oj1 where c: "create_root E key spec occ (st, oj) = (x1, (st1, oj1))"
    by (metis prod.exhaust)
  obtain x2 st2 oj2 where
    t: "transition E (pa_attempt_id (as_attempt (projr x1))) AS_CREATED AS_QUEUED occ ''shard_dispatched'' (st1, oj1)
      = (x2, (st2, oj2))"
    by (metis prod.exhaust)
  have "st' \<in> {st, st1, st2}"
    using assms c t by (cases x1; cases x2)
      (auto simp: dispatch_def dest!: on_store_eqD with_events_eqD split: option.split_asm if_split_asm)
  with create_root_register [OF c] transition_register [OF t] show ?thesis by auto
qed

lemma start_register:
  assumes "start E aid occ (pl, (st, oj)) = (res, (pl', (st', oj')))"
  shows "st_accepted_by_shard st' = st_accepted_by_shard st"
proof -
  obtain x1 st1 oj1 where t: "transition E aid AS_QUEUED AS_RUNNING occ ''worker_execution_started'' (st, oj)
      = (x1, (st1, oj1))"
    by (metis prod.exhaust)
  have "st' = st \<or> st' = st1"
    using assms(1) t by (auto simp: start_def get_attempt_def andthen_def
        dest!: on_store_eqD split: option.split_asm sum.split_asm if_split_asm)
  with transition_register [OF t] show ?thesis by auto
qed

lemma receive_register:
  assumes "receive_and_validate E aid out obs p occ key (pl, (st, oj)) = (res, (pl', (st', oj')))"
  shows "st_accepted_by_shard st' = st_accepted_by_shard st"
proof -
  obtain x1 st1 oj1 where a: "attach_output E aid out (''output:'' @ key) (st, oj) = (x1, (st1, oj1))"
    by (metis prod.exhaust)
  define v where "v = projr (validate E obs p)"
  obtain x2 st2 oj2 where rv: "record_validation E aid (vr_digest v) (vr_passed v) occ (failure_reason v) (st1, oj1)
      = (x2, (st2, oj2))"
    by (metis prod.exhaust)
  have "st' \<in> {st, st1, st2}"
    using assms a rv by (cases x1; cases x2)
      (auto simp: receive_and_validate_def get_attempt_def v_def andthen_def dest!: on_store_eqD
        split: option.split_asm sum.split_asm if_split_asm)
  with attach_output_register [OF a] record_validation_register [OF rv] show ?thesis by auto
qed

lemma accept_arbitrated_register:
  assumes "accept_arbitrated E d occ key (pl, (st, oj)) = (res, (pl', (st', oj')))"
    and "st_accepted_by_shard st' \<noteq> st_accepted_by_shard st"
  shows "\<exists>aid r out. ar_selected_attempt_id d = Some aid \<and> ar_accepted d \<and> aid \<in> set (ar_considered_attempt_ids d)
      \<and> rec_of st aid = Some r \<and> as_status r = AS_VALIDATING
      \<and> as_validation_digest r \<noteq> None \<and> as_output r = Some out
      \<and> ar_selected_prediction_sha256 d = Some (ao_prediction_sha256 out)
      \<and> st_accepted_by_shard st (shard_of r) = None
      \<and> st_accepted_by_shard st' = claim_shard (shard_of r) aid (st_accepted_by_shard st)"
proof (cases "ar_selected_attempt_id d")
  case None
  with assms show ?thesis by (simp add: accept_arbitrated_def)
next
  case (Some aid)
  obtain x1 st1 oj1 where a: "accept E aid occ key (st, oj) = (x1, (st1, oj1))"
    by (metis prod.exhaust)
  have "st' = st1 \<and> ar_accepted d \<and> aid \<in> set (ar_considered_attempt_ids d) \<and>
      (\<exists>r out. rec_of st aid = Some r \<and> as_output r = Some out
        \<and> ar_selected_prediction_sha256 d = Some (ao_prediction_sha256 out))"
    using assms Some a by (auto simp: accept_arbitrated_def get_attempt_def andthen_def
        dest!: on_store_eqD mk_snapshot_Inr split: option.split_asm sum.split_asm if_split_asm)
  with accept_register [OF a] assms(2) Some show ?thesis by auto
qed

section \<open>A concrete run\<close>

definition coordinator_demo_shard :: parse_shard where
  "coordinator_demo_shard = \<lparr>ps_shard_id = ''s'', ps_document_id = ''d'', ps_document_version_id = ''v'', ps_ordinal = 0,
     ps_primary_page_ids = [''p''], ps_context_page_ids = [], ps_ordered_input_page_ids = [''p''],
     ps_expected_seconds = 1, ps_worker_class = ''c'', ps_policy_version = ''1''\<rparr>"

definition coordinator_demo_decision :: arbitration_decision where
  "coordinator_demo_decision = \<lparr>ar_decision_id = ''a'', ar_scope_id = ''s'', ar_selected_attempt_id = Some demo_id,
     ar_selected_prediction_sha256 = Some demo_sha, ar_basis = AB_NATIVE_EXACT, ar_verification_state = VS_VERIFIED,
     ar_accepted = True, ar_billable = True, ar_reason_codes = [''c''], ar_considered_attempt_ids = [demo_id],
     ar_excluded_attempt_ids = [], ar_decision_sha256 = demo_sha\<rparr>"

definition coordinator_demo_calls :: "coordinator_call list" where
  "coordinator_demo_calls =
    [RecordPlan \<lparr>sp_document_id = ''d'', sp_document_version_id = ''v'', sp_source_sha256 = demo_sha,
       sp_shards = [coordinator_demo_shard], sp_policy_version = ''1''\<rparr> (Aware 0) ''p'',
     Dispatch demo_spec (Aware 0) ''k'', Start demo_id (Aware 1),
     ReceiveAndValidate demo_id demo_output (demo_observation 200) demo_policy (Aware 4) ''o'']"

definition coordinator_demo_accept :: coordinator_call where
  "coordinator_demo_accept = AcceptArbitrated coordinator_demo_decision (Aware 5) ''a''"

lemma demo_env_shaped: "sha_shaped demo_env"
  using demo_sha_ok by (simp add: sha_shaped_def demo_env_def)

lemma demo_validates:
  "\<exists>v. validate demo_env (demo_observation 200) demo_policy = Inr v \<and> vr_passed v \<and> vr_digest v = demo_sha"
proof -
  obtain v where v: "validate demo_env (demo_observation 200) demo_policy = Inr v"
    using validate_total [OF demo_env_shaped] by blast
  have "requires demo_policy level \<longrightarrow> level_holds (demo_observation 200) demo_policy level" for level
    by (cases level) (simp_all add: demo_policy_def level_holds_def evidence_for_def demo_observation_def)
  with validate_passed [OF v] have "vr_passed v" by blast
  moreover have "vr_digest v = demo_sha"
    using v by (auto simp: validate_def Let_def jsha_def demo_env_def split: sum.split_asm)
  ultimately show ?thesis using v by blast
qed

lemma coordinator_demo_run:
  "\<exists>pl st res st' r. run_ops (coordinate demo_env) coordinator_demo_calls (Map.empty, (new_store, None)) = (pl, (st, None))
     \<and> st_accepted_by_shard st = Map.empty
     \<and> coordinate demo_env coordinator_demo_accept (pl, (st, None)) = (res, (pl, (st', None)))
     \<and> rec_of st' demo_id = Some r \<and> as_status r = AS_ACCEPTED \<and> shard_of r = ''s''
     \<and> st_accepted_by_shard st' = [''s'' \<mapsto> demo_id]"
proof -
  obtain v where v: "validate demo_env (demo_observation 200) demo_policy = Inr v" "vr_passed v" "vr_digest v = demo_sha"
    using demo_validates by blast
  have ra: "root_attempt demo_env ''k'' demo_spec (Aware 0) = demo_attempt"
    by (simp add: demo_attempt_def)
  have pages: "pa_page_ids demo_attempt = [''p'']"
    by (simp add: demo_attempt_def root_attempt_def Let_def demo_spec_def)
  have ids: "identifier_ok ''attempt_created''" "identifier_ok ''shard_dispatched''"
    "identifier_ok ''worker_execution_started''" "identifier_ok ''output_received''"
    "identifier_ok ''validation_started''" "identifier_ok ''hard_gates_passed_and_arbitrated''"
    by code_simp+
  have sn: "mk_attempt_snapshot r = Inr r"
    if "as_validation_digest r = None \<or> as_validation_digest r = Some demo_sha"
      "as_transitions r \<noteq> []" "at_to_status (last (as_transitions r)) = as_status r" for r
    using that demo_sha_ok unfolding mk_attempt_snapshot_def require_all_Inr_iff by auto
  have em: "emit_all demo_env rs None = (Inr (), None)" for rs
    by (induction rs) auto
  have mt: "mk_attempt_transition t = Inr t"
    if "1 \<le> at_sequence t" "is_aware (at_occurred_at t)" "identifier_ok (at_reason_code t)" for t
    using that mk_transition_Inr by blast
  show ?thesis
    by (simp add: coordinator_demo_calls_def coordinator_demo_accept_def record_plan_def coordinator_demo_shard_def dispatch_def demo_spec_def [THEN arg_cong [of _ _ ds_shard_id]]
        demo_spec_def [THEN arg_cong [of _ _ ds_document_id]] demo_spec_def [THEN arg_cong [of _ _ ds_page_ids]]
        demo_spec_def [THEN arg_cong [of _ _ ds_document_version_id]] on_store_def start_def get_attempt_def
        receive_and_validate_def accept_arbitrated_def coordinator_demo_decision_def accepted_verification_def
        demo_policy_def [THEN arg_cong [of _ _ vp_expected_page_ids]] v pages
        create_root_def ra demo_attempt_ok create_attempt_def new_store_def
        mt ids sn demo_attempt_fields put_rec_def transition_def trans_of_def release_shard_def em
        with_events_def attach_output_def demo_output_def record_validation_def accept_def Let_def
        remember_acceptance_def forget_def moved_def)
qed

section \<open>Properties\<close>

text \<open>C2: nothing reaches VALIDATING or ACCEPTED through the coordinator except past the validator.
  After any calls of its operations, exceptions included, every attempt belongs to a recorded plan
  shard with the document, version and primary pages of that shard; a validating or accepted attempt
  has an output, and its digest is that of a validation over exactly its pages in which every
  required level had evidence and passed all its checks; an accepted one is the only one of its shard.\<close>

theorem coordinator_gate:
  assumes "sha_shaped E" and "run_ops (coordinate E) cs (Map.empty, (new_store, oj)) = (pl, (st, oj'))"
    and "rec_of st aid = Some r"
  shows "(\<exists>sh. pl (shard_of r) = Some (pa_document_id (as_attempt r), pa_document_version_id (as_attempt r), sh)
        \<and> pa_page_ids (as_attempt r) = ps_primary_page_ids sh)
    \<and> (as_status r \<in> {AS_VALIDATING, AS_ACCEPTED} \<longrightarrow> as_output r \<noteq> None \<and>
        (\<exists>x p v. validate E x p = Inr v \<and> (\<forall>level. requires p level \<longrightarrow> level_holds x p level)
          \<and> vp_expected_page_ids p = pa_page_ids (as_attempt r) \<and> as_validation_digest r = Some (vr_digest v)))
    \<and> (as_status r = AS_ACCEPTED \<longrightarrow> st_accepted_by_shard st (shard_of r) = Some aid)"
proof -
  have inv: "all_planned pl st" "gated E st" "acceptance_inv st"
    using coordinator_run_inv [OF assms(2) coordinator_inv_new assms(1)] by (simp_all add: coordinator_inv_def)
  have "identities st aid = Some (as_attempt r)" using assms(3) by (simp add: identities_def)
  with inv(1) have "planned_attempt pl (as_attempt r)" by (simp add: all_planned_def)
  moreover have "passed_gate E r" if "as_status r \<in> {AS_VALIDATING, AS_ACCEPTED}"
    using inv(2) assms(3) that by (auto simp: gated_def judged_def)
  moreover have "vr_passed v \<longleftrightarrow> (\<forall>level. requires p level \<longrightarrow> level_holds x p level)"
    if "validate E x p = Inr v" for x p v
    using validate_passed [OF that] .
  moreover have "st_accepted_by_shard st (shard_of r) = Some aid" if "as_status r = AS_ACCEPTED"
    using inv(3) assms(3) that by (auto simp: acceptance_inv_def)
  ultimately show ?thesis unfolding planned_attempt_def passed_gate_def by blast
qed

theorem coordinator_gate_witness:
  "\<exists>pl st r. run_ops (coordinate demo_env) (coordinator_demo_calls @ [coordinator_demo_accept]) (Map.empty, (new_store, None))
       = (pl, (st, None))
     \<and> rec_of st demo_id = Some r \<and> as_output r \<noteq> None \<and> st_accepted_by_shard st ''s'' = Some demo_id"
proof -
  obtain pl st r where run: "run_ops (coordinate demo_env) (coordinator_demo_calls @ [coordinator_demo_accept])
      (Map.empty, (new_store, None)) = (pl, (st, None))"
    and r: "rec_of st demo_id = Some r" "as_status r = AS_ACCEPTED" "shard_of r = ''s''"
    using coordinator_demo_run by (auto simp: run_ops_append)
  from coordinator_gate [OF demo_env_shaped run r(1)] run r show ?thesis by auto
qed

text \<open>C3: the coordinator refines a register of winners. Whatever a call does or raises, the winners
  it leaves are those before it, or it accepted an arbitration decision whose selected attempt was
  validating, had the digest of its validation and the very prediction the decision selected, and the
  attempt claimed the empty register of its shard.\<close>

theorem coordinator_refines_register:
  assumes "coordinate E c (pl, (st, oj)) = (res, (pl', (st', oj')))"
  shows "st_accepted_by_shard st' = st_accepted_by_shard st \<or>
    (\<exists>d t key aid r out. c = AcceptArbitrated d t key \<and> ar_selected_attempt_id d = Some aid \<and> ar_accepted d
      \<and> aid \<in> set (ar_considered_attempt_ids d) \<and> rec_of st aid = Some r \<and> as_status r = AS_VALIDATING
      \<and> as_validation_digest r \<noteq> None \<and> as_output r = Some out
      \<and> ar_selected_prediction_sha256 d = Some (ao_prediction_sha256 out)
      \<and> st_accepted_by_shard st (shard_of r) = None
      \<and> st_accepted_by_shard st' = claim_shard (shard_of r) aid (st_accepted_by_shard st))"
proof -
  have snd: "snd (coordinate E c (pl, (st, oj))) = (pl', (st', oj'))" using assms by simp
  show ?thesis
  proof (cases c)
    case (RecordPlan p t prefix)
    with snd record_shards_inv [of E p t prefix "sp_shards p" pl st oj] show ?thesis
      by (cases "record_plan E p t prefix (pl, (st, oj))") (auto simp: record_plan_def)
  next
    case (Dispatch spec t key)
    with snd dispatch_register show ?thesis by (cases "dispatch E spec t key (pl, (st, oj))") auto
  next
    case (Start aid t)
    with snd start_register show ?thesis by (cases "start E aid t (pl, (st, oj))") auto
  next
    case (ReceiveAndValidate aid out obs p t key)
    with snd receive_register show ?thesis
      by (cases "receive_and_validate E aid out obs p t key (pl, (st, oj))") auto
  next
    case (AcceptArbitrated d t key)
    obtain x where "accept_arbitrated E d t key (pl, (st, oj)) = (x, (pl', (st', oj')))"
      using snd AcceptArbitrated by (cases "accept_arbitrated E d t key (pl, (st, oj))") auto
    from accept_arbitrated_register [OF this] AcceptArbitrated show ?thesis by blast
  qed
qed

theorem coordinator_refines_register_witness:
  "\<exists>pl st res pl' st' oj'. coordinate demo_env coordinator_demo_accept (pl, (st, None)) = (res, (pl', (st', oj')))
     \<and> st_accepted_by_shard st ''s'' = None
     \<and> st_accepted_by_shard st' = claim_shard ''s'' demo_id (st_accepted_by_shard st)"
proof -
  obtain pl st res st' where c: "coordinate demo_env coordinator_demo_accept (pl, (st, None)) = (res, (pl, (st', None)))"
    and w: "st_accepted_by_shard st = Map.empty" "st_accepted_by_shard st' = [''s'' \<mapsto> demo_id]"
    using coordinator_demo_run by blast
  from coordinator_refines_register [OF c] w
  have "st_accepted_by_shard st' = claim_shard ''s'' demo_id (st_accepted_by_shard st)"
    by (auto simp: claim_shard_def fun_eq_iff split: if_split_asm)
  with c w show ?thesis by fastforce
qed

end
