(* ===== verification/Continuity.thy ===== *)
theory Continuity
  imports Validation Journal
begin

text \<open>
  \<^verbatim>\<open>akc_parallel_runtime/continuity.py\<close>: the merge of parallel shard outputs along a graph of
  continuity edges. The state is the dictionary of remembered results beside the optional journal.
  Strings are restricted to code points below 256; the micro sign, whose case fold lies outside, is
  kept as it is.
\<close>

section \<open>Text\<close>

definition rstrip :: "string \<Rightarrow> string" where
  "rstrip s = rev (dropWhile is_space (rev s))"

text \<open>\<open>re.sub(r"\s+", " ", value)\<close>: every run of white space becomes one blank.\<close>

fun squeeze :: "bool \<Rightarrow> string \<Rightarrow> string" where
  "squeeze in_space [] = []"
| "squeeze in_space (c # cs) =
    (if is_space c then (if in_space then squeeze True cs else CHR '' '' # squeeze True cs)
     else c # squeeze False cs)"

definition normalize_text :: "string \<Rightarrow> string" where
  "normalize_text s = concat (map fold_char (strip (squeeze False s)))"

section \<open>Data\<close>

datatype block_kind =
    BK_HEADING | BK_PARAGRAPH | BK_LIST_ITEM | BK_TABLE | BK_FIGURE | BK_CAPTION | BK_FOOTNOTE | BK_OTHER

fun block_kind_value :: "block_kind \<Rightarrow> string" where
  "block_kind_value BK_HEADING = ''heading''"
| "block_kind_value BK_PARAGRAPH = ''paragraph''"
| "block_kind_value BK_LIST_ITEM = ''list_item''"
| "block_kind_value BK_TABLE = ''table''"
| "block_kind_value BK_FIGURE = ''figure''"
| "block_kind_value BK_CAPTION = ''caption''"
| "block_kind_value BK_FOOTNOTE = ''footnote''"
| "block_kind_value BK_OTHER = ''other''"

datatype marginal_role = MR_HEADER | MR_FOOTER

fun marginal_role_value :: "marginal_role \<Rightarrow> string" where
  "marginal_role_value MR_HEADER = ''header''"
| "marginal_role_value MR_FOOTER = ''footer''"

datatype edge_kind =
    EK_CONTINUES | EK_BELONGS_TO | EK_CAPTION_OF | EK_HEADER_OF | EK_FOOTNOTE_OF | EK_SAME_TABLE
  | EK_DUPLICATE_MARGINAL

fun edge_kind_value :: "edge_kind \<Rightarrow> string" where
  "edge_kind_value EK_CONTINUES = ''continues''"
| "edge_kind_value EK_BELONGS_TO = ''belongs_to''"
| "edge_kind_value EK_CAPTION_OF = ''caption_of''"
| "edge_kind_value EK_HEADER_OF = ''header_of''"
| "edge_kind_value EK_FOOTNOTE_OF = ''footnote_of''"
| "edge_kind_value EK_SAME_TABLE = ''same_table''"
| "edge_kind_value EK_DUPLICATE_MARGINAL = ''duplicate_marginal''"

record table_identity =
  ti_normalized_header :: "string list"
  ti_column_geometry :: "int list"
  ti_title :: string
  ti_unit :: string
  ti_row_style :: string
  ti_surrounding_text :: string

definition mk_table_identity :: "table_identity \<Rightarrow> pyerr + table_identity" where
  "mk_table_identity t = require_all
     [(ti_normalized_header t \<noteq> [] \<and> ti_column_geometry t \<noteq> [],
        ValueError ''table identity requires header and column geometry''),
      (length (ti_normalized_header t) = length (ti_column_geometry t),
        ValueError ''table header and column geometry must have equal columns''),
      (\<not> list_ex (\<lambda>w. w \<le> 0) (ti_column_geometry t), ValueError ''table column geometry must be positive'')] t"

definition table_fingerprint :: "renv \<Rightarrow> table_identity \<Rightarrow> string" where
  "table_fingerprint E t = jsha E (JObj
     [(''header'', JList (map (\<lambda>h. JStr (normalize_text h)) (ti_normalized_header t))),
      (''column_geometry'', JList (map JInt (ti_column_geometry t))),
      (''title'', JStr (normalize_text (ti_title t))), (''unit'', JStr (normalize_text (ti_unit t))),
      (''row_style'', JStr (normalize_text (ti_row_style t))),
      (''surrounding_text'', JStr (normalize_text (ti_surrounding_text t)))])"

record parsed_block =
  pb_block_id :: string
  pb_page_id :: string
  pb_page_index0 :: int
  pb_order :: int
  pb_kind :: block_kind
  pb_text :: string
  pb_source_refs :: "string list"
  pb_heading_depth :: "int option"
  pb_marginal_role :: "marginal_role option"
  pb_table_identity :: "table_identity option"
  pb_table_row_count :: int

definition mk_parsed_block :: "parsed_block \<Rightarrow> pyerr + parsed_block" where
  "mk_parsed_block b = require_all
     [(\<not> (pb_block_id b = [] \<or> pb_page_id b = [] \<or> pb_page_index0 b < 0 \<or> pb_order b < 0),
        ValueError ''block identity and non-negative position are required''),
      (strip (pb_text b) \<noteq> [] \<and> pb_source_refs b \<noteq> [], ValueError ''blocks require content and source references''),
      (pb_kind b = BK_HEADING \<longrightarrow> (case pb_heading_depth b of None \<Rightarrow> False | Some d \<Rightarrow> 1 \<le> d \<and> d \<le> 6),
        ValueError ''heading blocks require a depth between 1 and 6''),
      (pb_kind b \<noteq> BK_HEADING \<longrightarrow> pb_heading_depth b = None,
        ValueError ''only heading blocks can declare heading_depth''),
      (pb_kind b = BK_TABLE \<longrightarrow> \<not> (pb_table_identity b = None \<or> pb_table_row_count b < 0),
        ValueError ''table blocks require an identity and non-negative row count''),
      (pb_kind b \<noteq> BK_TABLE \<longrightarrow> pb_table_identity b = None \<and> pb_table_row_count b = 0,
        ValueError ''only table blocks can carry table metadata'')] b"

definition jint_opt :: "int option \<Rightarrow> jval" where
  "jint_opt x = (case x of None \<Rightarrow> JNull | Some i \<Rightarrow> JInt i)"

definition stable_fingerprint :: "renv \<Rightarrow> parsed_block \<Rightarrow> string" where
  "stable_fingerprint E b = jsha E (JObj
     [(''kind'', JStr (block_kind_value (pb_kind b))), (''text'', JStr (normalize_text (pb_text b))),
      (''heading_depth'', jint_opt (pb_heading_depth b)),
      (''table'', jopt (map_option (table_fingerprint E) (pb_table_identity b)))])"

record shard_output =
  so_shard_id :: string
  so_primary_page_ids :: "string list"
  so_context_page_ids :: "string list"
  so_blocks :: "parsed_block list"

definition mk_shard_output :: "shard_output \<Rightarrow> pyerr + shard_output" where
  "mk_shard_output x = require_all
     [(so_shard_id x \<noteq> [] \<and> so_primary_page_ids x \<noteq> [], ValueError ''shard output requires an id and primary pages''),
      (set (so_primary_page_ids x) \<inter> set (so_context_page_ids x) = {},
        ValueError ''primary and context page sets must be disjoint''),
      (\<not> list_ex (\<lambda>b. pb_page_id b \<notin> set (so_primary_page_ids x) \<union> set (so_context_page_ids x)) (so_blocks x),
        ValueError ''shard output contains a block outside its input page set'')] x"

record continuity_edge =
  ce_from_block_id :: string
  ce_to_block_id :: string
  ce_kind :: edge_kind
  ce_evidence :: "evidence_receipt list"

definition mk_continuity_edge :: "continuity_edge \<Rightarrow> pyerr + continuity_edge" where
  "mk_continuity_edge e = require_all
     [(ce_from_block_id e \<noteq> ce_to_block_id e, ValueError ''continuity edges cannot be self-referential''),
      (ce_evidence e \<noteq> [], ValueError ''continuity edges require evidence'')] e"

record merged_block =
  mb_merged_block_id :: string
  mb_kind :: block_kind
  mb_text :: string
  mb_page_ids :: "string list"
  mb_page_index0 :: int
  mb_order :: int
  mb_source_refs :: "string list"
  mb_provenance_block_ids :: "string list"
  mb_heading_depth :: "int option"
  mb_table_identity :: "table_identity option"
  mb_table_row_count :: int

record continuity_merge_result =
  cm_merge_id :: string
  cm_accepted :: bool
  cm_markdown :: "string option"
  cm_blocks :: "merged_block list"
  cm_dropped_marginal_block_ids :: "string list"
  cm_reason_codes :: "string list"
  cm_merge_sha256 :: string

section \<open>_owned_blocks, _repeated_marginals\<close>

fun owner_conflict :: "string list \<Rightarrow> string list \<Rightarrow> bool" where
  "owner_conflict owned [] = False"
| "owner_conflict owned (p # ps) = (p \<in> set owned \<or> owner_conflict (p # owned) ps)"

fun collect_owned ::
  "(string list \<times> parsed_block) list \<Rightarrow> string list \<Rightarrow> pyerr + parsed_block list" where
  "collect_owned [] seen = Inr []"
| "collect_owned ((primary, b) # rest) seen =
    (if pb_page_id b \<notin> set primary then collect_owned rest seen
     else if pb_block_id b \<in> set seen
     then Inl (ContinuityMergeConflict ''a primary block id appears more than once'')
     else mapR (\<lambda>bs. b # bs) (collect_owned rest (pb_block_id b # seen)))"

definition owned_blocks :: "shard_output list \<Rightarrow> pyerr + parsed_block list" where
  "owned_blocks outputs =
    (if owner_conflict [] (concat (map so_primary_page_ids outputs))
     then Inl (ContinuityMergeConflict ''a page has multiple primary owners'')
     else mapR (sort_key (\<lambda>b. (pb_page_index0 b, pb_order b, pb_block_id b)))
       (collect_owned (concat (map (\<lambda>x. map (\<lambda>b. (so_primary_page_ids x, b)) (so_blocks x)) outputs)) []))"

definition marginal_groups ::
  "renv \<Rightarrow> parsed_block list \<Rightarrow> ((marginal_role \<times> string) \<times> parsed_block list) list" where
  "marginal_groups E bs = foldl (\<lambda>g b. (case pb_marginal_role b of None \<Rightarrow> g
     | Some r \<Rightarrow> AList.map_default (r, stable_fingerprint E b) [b] (\<lambda>l. l @ [b]) g)) [] bs"

definition repeated_marginals :: "renv \<Rightarrow> parsed_block list \<Rightarrow> string list" where
  "repeated_marginals E bs = concat (map (\<lambda>(k, l).
     if 2 \<le> card (set (map pb_page_id l)) then map pb_block_id l else []) (marginal_groups E bs))"

section \<open>_join_chains\<close>

type_synonym blocks_by_id = "(string \<times> parsed_block) list"

definition joins :: "continuity_edge \<Rightarrow> bool" where
  "joins e \<longleftrightarrow> ce_kind e \<in> {EK_CONTINUES, EK_SAME_TABLE}"

text \<open>The checks of one join edge, against the two dictionaries built so far.\<close>

definition join_check ::
  "renv \<Rightarrow> blocks_by_id \<Rightarrow> continuity_edge \<Rightarrow> (string \<times> string) list \<Rightarrow> (string \<times> string) list \<Rightarrow> pyerr + unit" where
  "join_check E blocks e outgoing incoming =
    (case (map_of blocks (ce_from_block_id e), map_of blocks (ce_to_block_id e)) of
      (Some source, Some target) \<Rightarrow>
        (if map_of outgoing (ce_from_block_id e) \<noteq> None \<or> map_of incoming (ce_to_block_id e) \<noteq> None
         then Inl (ContinuityMergeConflict ''continuity graph has an ambiguous join'')
         else if pb_page_index0 target < pb_page_index0 source
         then Inl (ContinuityMergeConflict ''continuity edge points backwards'')
         else if ce_kind e = EK_SAME_TABLE then
           (if pb_kind source \<noteq> BK_TABLE \<or> pb_kind target \<noteq> BK_TABLE
            then Inl (ContinuityMergeConflict ''same_table edge requires two table blocks'')
            else (case (pb_table_identity source, pb_table_identity target) of
              (Some s, Some t) \<Rightarrow>
                (if table_fingerprint E s \<noteq> table_fingerprint E t
                 then Inl (ContinuityMergeConflict ''cross-page table identity mismatch'')
                 else if pb_page_index0 target \<noteq> pb_page_index0 source + 1
                 then Inl (ContinuityMergeConflict ''cross-page table continuation must be page-adjacent'')
                 else Inr ())
            | _ \<Rightarrow> Inl (ContinuityMergeConflict ''table identity metadata is missing'')))
         else if pb_kind source \<noteq> pb_kind target \<or> pb_kind source \<notin> {BK_PARAGRAPH, BK_LIST_ITEM}
         then Inl (ContinuityMergeConflict ''continues edge requires compatible paragraph or list blocks'')
         else Inr ())
    | _ \<Rightarrow> Inl (ContinuityMergeConflict ''continuity edge references a missing primary block''))"

fun link_edges ::
  "renv \<Rightarrow> blocks_by_id \<Rightarrow> continuity_edge list \<Rightarrow> (string \<times> string) list \<Rightarrow> (string \<times> string) list
   \<Rightarrow> pyerr + (string \<times> string) list \<times> (string \<times> string) list" where
  "link_edges E blocks [] outgoing incoming = Inr (outgoing, incoming)"
| "link_edges E blocks (e # es) outgoing incoming =
    (case join_check E blocks e outgoing incoming of
      Inl x \<Rightarrow> Inl x
    | Inr _ \<Rightarrow> link_edges E blocks es
        (AList.update (ce_from_block_id e) (ce_to_block_id e) outgoing)
        (AList.update (ce_to_block_id e) (ce_from_block_id e) incoming))"

text \<open>The inner loop: it follows \<open>outgoing\<close> from one block and marks what it visits.\<close>

function chain_from ::
  "(string \<times> string) list \<Rightarrow> string \<Rightarrow> string list \<Rightarrow> pyerr + string list \<times> string list" where
  "chain_from outgoing current visited =
    (if current \<in> set visited then Inl (ContinuityMergeConflict ''continuity graph contains a cycle'')
     else (case map_of outgoing current of
       None \<Rightarrow> Inr ([current], current # visited)
     | Some nxt \<Rightarrow> mapR (\<lambda>(chain, seen). (current # chain, seen)) (chain_from outgoing nxt (current # visited))))"
  by pat_completeness auto
termination
proof (relation "measure (\<lambda>(outgoing, current, visited).
    card (insert current (snd ` set outgoing) - set visited))", simp, goal_cases)
  case (1 outgoing current visited nxt)
  have fin: "finite (insert current (snd ` set outgoing) - set visited)" by simp
  have "nxt \<in> snd ` set outgoing" using map_of_SomeD [OF 1(2)] by force
  then have "insert nxt (snd ` set outgoing) - set (current # visited)
      \<subset> insert current (snd ` set outgoing) - set visited"
    using 1(1) by auto
  from psubset_card_mono [OF fin this] show ?case by simp
qed

declare chain_from.simps [simp del]

fun collect_chains ::
  "(string \<times> string) list \<Rightarrow> (string \<times> string) list \<Rightarrow> string list \<Rightarrow> string list
   \<Rightarrow> pyerr + string list list \<times> string list" where
  "collect_chains outgoing incoming [] visited = Inr ([], visited)"
| "collect_chains outgoing incoming (b # bs) visited =
    (if map_of incoming b \<noteq> None then collect_chains outgoing incoming bs visited
     else (case chain_from outgoing b visited of
       Inl e \<Rightarrow> Inl e
     | Inr (chain, visited') \<Rightarrow>
         mapR (\<lambda>(chs, seen). (chain # chs, seen)) (collect_chains outgoing incoming bs visited')))"

definition join_chains :: "renv \<Rightarrow> blocks_by_id \<Rightarrow> continuity_edge list \<Rightarrow> pyerr + string list list" where
  "join_chains E blocks edges =
    (case link_edges E blocks (filter joins edges) [] [] of
      Inl e \<Rightarrow> Inl e
    | Inr (outgoing, incoming) \<Rightarrow>
        (case collect_chains outgoing incoming (sort (map fst blocks)) [] of
          Inl e \<Rightarrow> Inl e
        | Inr (chs, visited) \<Rightarrow>
            (if set visited \<noteq> set (map fst blocks)
             then Inl (ContinuityMergeConflict ''continuity graph contains an unrooted cycle'')
             else Inr chs)))"

section \<open>_validate_relationship_edges\<close>

definition relationship_check :: "blocks_by_id \<Rightarrow> string list \<Rightarrow> continuity_edge \<Rightarrow> pyerr + unit" where
  "relationship_check blocks dropped e =
    (if ce_kind e = EK_DUPLICATE_MARGINAL then
      (if ce_from_block_id e \<notin> set dropped \<or> ce_to_block_id e \<notin> set dropped
       then Inl (ContinuityMergeConflict ''duplicate_marginal edge must reference detected repeated marginals'')
       else Inr ())
     else (case (map_of blocks (ce_from_block_id e), map_of blocks (ce_to_block_id e)) of
      (Some source, Some target) \<Rightarrow>
        (if ce_kind e = EK_CAPTION_OF \<and> \<not> (pb_kind source = BK_CAPTION \<and> pb_kind target = BK_FIGURE)
         then Inl (ContinuityMergeConflict ''caption_of requires caption to figure'')
         else if ce_kind e = EK_FOOTNOTE_OF \<and> pb_kind source \<noteq> BK_FOOTNOTE
         then Inl (ContinuityMergeConflict ''footnote_of requires a footnote source'')
         else if ce_kind e = EK_HEADER_OF \<and> pb_kind source \<noteq> BK_HEADING
         then Inl (ContinuityMergeConflict ''header_of requires a heading source'')
         else Inr ())
     | _ \<Rightarrow> Inl (ContinuityMergeConflict ''continuity relationship references a missing primary block'')))"

definition validate_relationship_edges ::
  "blocks_by_id \<Rightarrow> continuity_edge list \<Rightarrow> string list \<Rightarrow> pyerr + unit" where
  "validate_relationship_edges blocks edges dropped =
     mapR (\<lambda>_. ()) (mapE (relationship_check blocks dropped) edges)"

section \<open>_order_relationships\<close>

text \<open>The pairs (before, after) one edge contributes, and the set of all of them.\<close>

definition precedence :: "(string \<rightharpoonup> string) \<Rightarrow> continuity_edge \<Rightarrow> (string \<times> string) list" where
  "precedence by_original e =
    (case (by_original (ce_from_block_id e), by_original (ce_to_block_id e)) of
      (Some source_id, Some target_id) \<Rightarrow>
        (if source_id = target_id then []
         else if ce_kind e \<in> {EK_CAPTION_OF, EK_FOOTNOTE_OF, EK_BELONGS_TO} then [(target_id, source_id)]
         else if ce_kind e = EK_HEADER_OF then [(source_id, target_id)] else [])
    | _ \<Rightarrow> [])"

definition by_original :: "merged_block list \<Rightarrow> string \<rightharpoonup> string" where
  "by_original merged = map_of (rev (concat (map (\<lambda>b. map (\<lambda>i. (i, mb_merged_block_id b))
     (mb_provenance_block_ids b)) merged)))"

definition before_after :: "merged_block list \<Rightarrow> continuity_edge list \<Rightarrow> (string \<times> string) list" where
  "before_after merged edges = remdups (concat (map (precedence (by_original merged)) edges))"

definition successors :: "(string \<times> string) list \<Rightarrow> string \<Rightarrow> string list" where
  "successors ba b = map snd (filter (\<lambda>p. fst p = b) ba)"

text \<open>\<open>base_order\<close>, the position of a merged id; a repeated id keeps the last.\<close>

definition base_order :: "merged_block list \<Rightarrow> string \<Rightarrow> nat" where
  "base_order merged i = (case map_of (rev (zip (map mb_merged_block_id merged) [0..<length merged])) i of
     None \<Rightarrow> 0 | Some n \<Rightarrow> n)"

definition ready_key :: "merged_block list \<Rightarrow> string \<Rightarrow> nat \<times> string" where
  "ready_key merged i = (base_order merged i, i)"

text \<open>The loop over the successors of a placed block: counts fall, blocks that reach zero become ready.\<close>

fun release_successors ::
  "(string \<Rightarrow> nat \<times> string) \<Rightarrow> string list \<Rightarrow> (string \<times> int) list \<Rightarrow> string list
   \<Rightarrow> pyerr + (string \<times> int) list \<times> string list" where
  "release_successors key [] incoming ready = Inr (incoming, ready)"
| "release_successors key (s # ss) incoming ready =
    (case map_of incoming s of
      None \<Rightarrow> Inl (KeyError s)
    | Some n \<Rightarrow> release_successors key ss (AList.update s (n - 1) incoming)
        (if n - 1 = 0 then sort_key key (ready @ [s]) else ready))"

definition pending :: "(string \<times> int) list \<Rightarrow> nat" where
  "pending incoming = (\<Sum>i \<in> set (map fst incoming). nat (case map_of incoming i of None \<Rightarrow> 0 | Some n \<Rightarrow> n))"

lemma pending_update:
  assumes "map_of incoming s = Some n"
  shows "pending (AList.update s (n - 1) incoming) + (if n - 1 = 0 then 1 else 0) \<le> pending incoming"
proof -
  let ?f = "\<lambda>i. nat (case map_of incoming i of None \<Rightarrow> 0 | Some n \<Rightarrow> n)"
  let ?K = "set (map fst incoming)"
  have s: "s \<in> ?K" using map_of_SomeD [OF assms] by force
  have K: "set (map fst (AList.update s (n - 1) incoming)) = ?K"
    using s by (simp add: keys_update insert_absorb)
  have "pending (AList.update s (n - 1) incoming) = nat (n - 1) + (\<Sum>i \<in> ?K - {s}. ?f i)"
    unfolding pending_def K using s by (subst sum.remove [of _ s]) auto
  moreover have "pending incoming = nat n + (\<Sum>i \<in> ?K - {s}. ?f i)"
    unfolding pending_def using s assms by (subst sum.remove [of _ s]) auto
  ultimately show ?thesis by auto
qed

lemma release_successors_pending:
  "release_successors key ss incoming ready = Inr (incoming', ready') \<Longrightarrow>
   length ready' + pending incoming' \<le> length ready + pending incoming"
proof (induction ss arbitrary: incoming ready)
  case (Cons s ss)
  then obtain n where n: "map_of incoming s = Some n" by (auto split: option.split_asm)
  show ?case
    using Cons.IH [of "AList.update s (n - 1) incoming" "if n - 1 = 0 then sort_key key (ready @ [s]) else ready"]
      Cons.prems pending_update [OF n]
    by (simp add: n split: if_split_asm)
qed simp

function place_blocks ::
  "(string \<Rightarrow> nat \<times> string) \<Rightarrow> (string \<times> string) list \<Rightarrow> (string \<times> int) list \<Rightarrow> string list \<Rightarrow> pyerr + string list" where
  "place_blocks key ba incoming [] = Inr []"
| "place_blocks key ba incoming (b # ready) =
    (case release_successors key (sort_key key (successors ba b)) incoming ready of
      Inl e \<Rightarrow> Inl e
    | Inr (incoming', ready') \<Rightarrow> mapR (\<lambda>bs. b # bs) (place_blocks key ba incoming' ready'))"
  by pat_completeness auto
termination
  by (relation "measure (\<lambda>(key, ba, incoming, ready). length ready + pending incoming)")
    (auto dest!: release_successors_pending)

definition order_relationships ::
  "merged_block list \<Rightarrow> continuity_edge list \<Rightarrow> pyerr + merged_block list" where
  "order_relationships merged edges =
    (let by_id = map_of (rev (map (\<lambda>b. (mb_merged_block_id b, b)) merged));
         ids = fromkeys (map mb_merged_block_id merged);
         ba = before_after merged edges;
         key = ready_key merged;
         incoming = map (\<lambda>i. (i, int (length (filter (\<lambda>p. snd p = i) ba)))) ids;
         ready = sort_key key (map fst (filter (\<lambda>p. snd p = 0) incoming))
     in (case place_blocks key ba incoming ready of
          Inl e \<Rightarrow> Inl e
        | Inr ordered \<Rightarrow>
            (if length ordered \<noteq> length merged
             then Inl (ContinuityMergeConflict ''continuity relationship graph contains a cycle'')
             else Inr (map (\<lambda>i. the (by_id i)) ordered))))"

section \<open>_merge_chain, _markdown, _validate\<close>

definition merged_text :: "parsed_block list \<Rightarrow> string" where
  "merged_text members =
    (case pb_kind (hd members) of
      BK_PARAGRAPH \<Rightarrow> join_with '' '' (map (\<lambda>b. strip (pb_text b)) members)
    | BK_LIST_ITEM \<Rightarrow> join_with '' '' (map (\<lambda>b. strip (pb_text b)) members)
    | BK_TABLE \<Rightarrow> join_with [CHR 0x0A] (map (\<lambda>b. rstrip (pb_text b)) members)
    | _ \<Rightarrow> pb_text (hd members))"

text \<open>A chain is never empty and its ids are keys of the dictionary.\<close>

definition merge_chain :: "renv \<Rightarrow> blocks_by_id \<Rightarrow> string list \<Rightarrow> merged_block" where
  "merge_chain E blocks chain =
    (let members = map (\<lambda>i. the (map_of blocks i)) chain;
         first = hd members; text = merged_text members; provenance = map pb_block_id members
     in \<lparr>mb_merged_block_id = stable_id E ''block'' [JList (map JStr provenance), JStr (jsha E (JStr text))],
         mb_kind = pb_kind first, mb_text = text, mb_page_ids = fromkeys (map pb_page_id members),
         mb_page_index0 = pb_page_index0 first, mb_order = pb_order first,
         mb_source_refs = fromkeys (concat (map pb_source_refs members)),
         mb_provenance_block_ids = provenance, mb_heading_depth = pb_heading_depth first,
         mb_table_identity = pb_table_identity first,
         mb_table_row_count = sum_list (map pb_table_row_count members)\<rparr>)"

definition block_markdown :: "merged_block \<Rightarrow> string" where
  "block_markdown b =
    (let body = strip (mb_text b) in
     (case mb_kind b of
       BK_HEADING \<Rightarrow> replicate (nat (case mb_heading_depth b of None \<Rightarrow> 1 | Some d \<Rightarrow> if d = 0 then 1 else d)) (CHR ''#'')
         @ '' '' @ body
     | BK_LIST_ITEM \<Rightarrow> ''- '' @ body
     | BK_CAPTION \<Rightarrow> ''*'' @ body @ ''*''
     | BK_FOOTNOTE \<Rightarrow> ''[^source-'' @ take 8 (mb_merged_block_id b) @ '']: '' @ body
     | _ \<Rightarrow> body))"

definition markdown_of :: "merged_block list \<Rightarrow> string" where
  "markdown_of bs = strip (join_with [CHR 0x0A, CHR 0x0A] (map block_markdown bs)) @ [CHR 0x0A]"

text \<open>\<open>markdown.count("```")\<close>: occurrences that do not overlap, from the left.\<close>

fun count_fences :: "string \<Rightarrow> nat" where
  "count_fences (a # b # c # cs) =
    (if a = CHR 0x60 \<and> b = CHR 0x60 \<and> c = CHR 0x60 then Suc (count_fences cs) else count_fences (b # c # cs))"
| "count_fences _ = 0"

definition depth_jump :: "int option \<times> int option \<Rightarrow> bool" where
  "depth_jump p = (case p of (Some previous, Some current) \<Rightarrow> current > previous + 1 | _ \<Rightarrow> False)"

definition merge_reasons ::
  "parsed_block list \<Rightarrow> merged_block list \<Rightarrow> string list \<Rightarrow> string list \<Rightarrow> string \<Rightarrow> string list" where
  "merge_reasons owned merged dropped expected_pages markdown =
    (let provenance = concat (map mb_provenance_block_ids merged);
         expected = set (map pb_block_id owned) - set dropped;
         covered = set (concat (map mb_page_ids merged))
           \<union> set (map pb_page_id (filter (\<lambda>b. pb_block_id b \<in> set dropped) owned));
         positions = map (\<lambda>b. (mb_page_index0 b, mb_order b)) merged;
         depths = map mb_heading_depth (filter (\<lambda>b. mb_kind b = BK_HEADING) merged);
         input_rows = sum_list (map pb_table_row_count (filter (\<lambda>b. pb_block_id b \<notin> set dropped) owned));
         output_rows = sum_list (map mb_table_row_count merged)
     in sorted_set (map fst (filter snd
       [(''block_count_conservation_failed'', set provenance \<noteq> expected \<or> \<not> distinct provenance),
        (''page_coverage_failed'', set expected_pages \<noteq> covered),
        (''source_reference_missing'', list_ex (\<lambda>b. mb_source_refs b = []) merged),
        (''sequence_invalid'', \<not> distinct positions),
        (''heading_depth_jump'', list_ex depth_jump (zip depths (tl depths))),
        (''table_row_conservation_failed'', input_rows \<noteq> output_rows),
        (''markdown_invalid'', CHR 0x00 \<in> set markdown \<or> count_fences markdown mod 2 \<noteq> 0)])))"

section \<open>merge\<close>

definition jtable_identity :: "table_identity \<Rightarrow> jval" where
  "jtable_identity t = JObj
     [(''normalized_header'', JList (map JStr (ti_normalized_header t))),
      (''column_geometry'', JList (map JInt (ti_column_geometry t))), (''title'', JStr (ti_title t)),
      (''unit'', JStr (ti_unit t)), (''row_style'', JStr (ti_row_style t)),
      (''surrounding_text'', JStr (ti_surrounding_text t))]"

definition jtable_opt :: "table_identity option \<Rightarrow> jval" where
  "jtable_opt t = (case t of None \<Rightarrow> JNull | Some i \<Rightarrow> jtable_identity i)"

definition jparsed_block :: "parsed_block \<Rightarrow> jval" where
  "jparsed_block b = JObj
     [(''block_id'', JStr (pb_block_id b)), (''page_id'', JStr (pb_page_id b)),
      (''page_index0'', JInt (pb_page_index0 b)), (''order'', JInt (pb_order b)),
      (''kind'', JStr (block_kind_value (pb_kind b))), (''text'', JStr (pb_text b)),
      (''source_refs'', JList (map JStr (pb_source_refs b))), (''heading_depth'', jint_opt (pb_heading_depth b)),
      (''marginal_role'', jopt (map_option marginal_role_value (pb_marginal_role b))),
      (''table_identity'', jtable_opt (pb_table_identity b)), (''table_row_count'', JInt (pb_table_row_count b))]"

definition jshard_output :: "shard_output \<Rightarrow> jval" where
  "jshard_output x = JObj
     [(''shard_id'', JStr (so_shard_id x)), (''primary_page_ids'', JList (map JStr (so_primary_page_ids x))),
      (''context_page_ids'', JList (map JStr (so_context_page_ids x))),
      (''blocks'', JList (map jparsed_block (so_blocks x)))]"

definition jcontinuity_edge :: "continuity_edge \<Rightarrow> jval" where
  "jcontinuity_edge e = JObj
     [(''from_block_id'', JStr (ce_from_block_id e)), (''to_block_id'', JStr (ce_to_block_id e)),
      (''kind'', JStr (edge_kind_value (ce_kind e))), (''evidence'', JList (map jreceipt (ce_evidence e)))]"

definition jmerged_block :: "merged_block \<Rightarrow> jval" where
  "jmerged_block b = JObj
     [(''merged_block_id'', JStr (mb_merged_block_id b)), (''kind'', JStr (block_kind_value (mb_kind b))),
      (''text'', JStr (mb_text b)), (''page_ids'', JList (map JStr (mb_page_ids b))),
      (''page_index0'', JInt (mb_page_index0 b)), (''order'', JInt (mb_order b)),
      (''source_refs'', JList (map JStr (mb_source_refs b))),
      (''provenance_block_ids'', JList (map JStr (mb_provenance_block_ids b))),
      (''heading_depth'', jint_opt (mb_heading_depth b)), (''table_identity'', jtable_opt (mb_table_identity b)),
      (''table_row_count'', JInt (mb_table_row_count b))]"

record merge_request =
  mq_document_version_id :: string
  mq_outputs :: "shard_output list"
  mq_edges :: "continuity_edge list"
  mq_expected_page_ids :: "string list"
  mq_occurred_at :: datetime

definition merge_digest :: "renv \<Rightarrow> merge_request \<Rightarrow> string" where
  "merge_digest E q = jsha E (JObj
     [(''document_version_id'', JStr (mq_document_version_id q)),
      (''outputs'', JList (map jshard_output (mq_outputs q))), (''edges'', JList (map jcontinuity_edge (mq_edges q))),
      (''expected_page_ids'', JList (map JStr (mq_expected_page_ids q)))])"

text \<open>The blocks and the order of the merged document, or the conflict that stops the merge.\<close>

definition merged_blocks ::
  "renv \<Rightarrow> merge_request \<Rightarrow> parsed_block list \<Rightarrow> string list \<Rightarrow> pyerr + merged_block list" where
  "merged_blocks E q owned dropped =
    (let active = map (\<lambda>b. (pb_block_id b, b)) (filter (\<lambda>b. pb_block_id b \<notin> set dropped) owned) in
     (case validate_relationship_edges active (mq_edges q) dropped of
       Inl e \<Rightarrow> Inl e
     | Inr _ \<Rightarrow>
       (let active_edges = filter (\<lambda>e. map_of active (ce_from_block_id e) \<noteq> None
              \<and> map_of active (ce_to_block_id e) \<noteq> None) (mq_edges q) in
        (case join_chains E active active_edges of
          Inl e \<Rightarrow> Inl e
        | Inr chs \<Rightarrow>
           order_relationships
             (sort_key (\<lambda>b. (mb_page_index0 b, mb_order b, mb_merged_block_id b)) (map (merge_chain E active) chs))
             active_edges))))"

definition merge_outcome :: "renv \<Rightarrow> merge_request \<Rightarrow> pyerr + continuity_merge_result" where
  "merge_outcome E q =
    (case owned_blocks (mq_outputs q) of
      Inl e \<Rightarrow> Inl e
    | Inr owned \<Rightarrow>
      (let pages = fromkeys (concat (map so_primary_page_ids (mq_outputs q))) in
       if set pages \<noteq> set (mq_expected_page_ids q) \<or> length pages \<noteq> length (mq_expected_page_ids q)
       then Inl (ContinuityMergeConflict ''shard ownership does not cover expected pages exactly'')
       else
        (let dropped = repeated_marginals E owned in
         (case merged_blocks E q owned dropped of
           Inl e \<Rightarrow> Inl e
         | Inr merged \<Rightarrow>
            (let markdown = markdown_of merged;
                 reasons = merge_reasons owned merged dropped (mq_expected_page_ids q) markdown;
                 accepted = (reasons = []);
                 digest = jsha E (JObj
                   [(''input_sha256'', JStr (merge_digest E q)), (''accepted'', JBool accepted),
                    (''blocks'', JList (map jmerged_block merged)),
                    (''dropped'', JList (map JStr (sorted_set dropped))), (''reasons'', JList (map JStr reasons)),
                    (''markdown_sha256'', JStr (jsha E (JStr markdown)))])
             in Inr \<lparr>cm_merge_id = stable_id E ''merge'' [JStr (mq_document_version_id q), JStr digest],
                  cm_accepted = accepted, cm_markdown = (if accepted then Some markdown else None),
                  cm_blocks = merged, cm_dropped_marginal_block_ids = sorted_set dropped,
                  cm_reason_codes = reasons, cm_merge_sha256 = digest\<rparr>)))))"

type_synonym merger = "string \<rightharpoonup> string \<times> continuity_merge_result"

type_synonym merger_st = "merger \<times> journal option"

definition merge_completed :: "merge_request \<Rightarrow> continuity_merge_result \<Rightarrow> string \<Rightarrow> event_request list" where
  "merge_completed q r key =
     [(''continuity.merge.completed.v1'', mq_document_version_id q,
       [(''merge_sha256'', PStr (cm_merge_sha256 r)), (''accepted'', PBool (cm_accepted r)),
        (''reason_codes'', PSeq (map PStr (cm_reason_codes r)))],
       mq_occurred_at q, ''merge-completed:'' @ key)]"

definition merge :: "renv \<Rightarrow> merge_request \<Rightarrow> string \<Rightarrow> merger_st \<Rightarrow> (merger_st, continuity_merge_result) outcome" where
  "merge E q key s =
    (case s of (m, oj) \<Rightarrow>
     (case m key of
       Some (digest, result) \<Rightarrow>
         (if digest \<noteq> merge_digest E q
          then (Inl (ContinuityMergeConflict ''merge idempotency key reused with different merge input''), s)
          else (Inr result, s))
     | None \<Rightarrow>
         (case emit E ''continuity.merge.started.v1'' (mq_document_version_id q)
             [(''input_sha256'', PStr (merge_digest E q)), (''shards'', PInt (int (length (mq_outputs q))))]
             (mq_occurred_at q) (''merge-started:'' @ key) oj of
           (Inl e, oj') \<Rightarrow> (Inl e, (m, oj'))
         | (Inr _, oj') \<Rightarrow>
             (case merge_outcome E q of
               Inl e \<Rightarrow> (Inl e, (m, oj'))
             | Inr r \<Rightarrow> with_events (m(key \<mapsto> (merge_digest E q, r))) r (emit_all E (merge_completed q r key) oj')))))"

definition merge_op :: "renv \<Rightarrow> merge_request \<times> string \<Rightarrow> merger_st \<Rightarrow> (merger_st, continuity_merge_result) outcome" where
  "merge_op E c = merge E (fst c) (snd c)"

section \<open>Lemmas on the dropped marginals\<close>

definition marginal_group :: "renv \<Rightarrow> parsed_block \<Rightarrow> (marginal_role \<times> string) option" where
  "marginal_group E b = map_option (\<lambda>r. (r, stable_fingerprint E b)) (pb_marginal_role b)"

lemma marginal_groups_snoc:
  "marginal_groups E (bs @ [b]) = (case marginal_group E b of None \<Rightarrow> marginal_groups E bs
     | Some k \<Rightarrow> AList.map_default k [b] (\<lambda>l. l @ [b]) (marginal_groups E bs))"
  by (simp add: marginal_groups_def marginal_group_def split: option.split)

lemma distinct_marginal_groups: "distinct (map fst (marginal_groups E bs))"
proof (induction bs rule: rev_induct)
  case Nil
  then show ?case by (simp add: marginal_groups_def)
next
  case (snoc b bs)
  then show ?case
    by (simp add: marginal_groups_snoc AList.distinct_map_default split: option.split)
qed

lemma marginal_groups_map_of:
  "map_of (marginal_groups E bs) k = (let l = filter (\<lambda>b. marginal_group E b = Some k) bs
     in if l = [] then None else Some l)"
proof (induction bs rule: rev_induct)
  case Nil
  then show ?case by (simp add: marginal_groups_def)
next
  case (snoc b bs)
  then show ?case
    by (auto simp: marginal_groups_snoc AList.map_of_map_default Let_def split: option.split if_split_asm)
qed

lemma marginal_groups_mem:
  "(k, l) \<in> set (marginal_groups E bs) \<longleftrightarrow> l = filter (\<lambda>b. marginal_group E b = Some k) bs \<and> l \<noteq> []"
  using map_of_eq_Some_iff [OF distinct_marginal_groups, of E bs k l] marginal_groups_map_of [of E bs k]
  by (auto simp: Let_def split: if_split_asm)

lemma two_pages:
  assumes "finite S" and "b \<in> S"
  shows "2 \<le> card (pb_page_id ` S) \<longleftrightarrow> (\<exists>b' \<in> S. pb_page_id b' \<noteq> pb_page_id b)"
proof -
  have "card (pb_page_id ` S) \<le> Suc 0 \<longleftrightarrow> (\<forall>x \<in> pb_page_id ` S. \<forall>y \<in> pb_page_id ` S. x = y)"
    by (rule card_le_Suc0_iff_eq) (simp add: assms(1))
  also have "\<dots> \<longleftrightarrow> \<not> (\<exists>b' \<in> S. pb_page_id b' \<noteq> pb_page_id b)"
    using assms(2) by (simp only: ball_simps) metis
  finally show ?thesis by linarith
qed

lemma repeated_marginals_iff:
  "i \<in> set (repeated_marginals E bs) \<longleftrightarrow> (\<exists>b \<in> set bs. pb_block_id b = i \<and> marginal_group E b \<noteq> None
     \<and> (\<exists>b' \<in> set bs. marginal_group E b' = marginal_group E b \<and> pb_page_id b' \<noteq> pb_page_id b))"
proof -
  have "i \<in> set (repeated_marginals E bs) \<longleftrightarrow>
      (\<exists>k. \<exists>b \<in> set bs. pb_block_id b = i \<and> marginal_group E b = Some k \<and> 2 \<le> card (pb_page_id ` {b \<in> set bs. marginal_group E b = Some k}))"
  proof -
    have "i \<in> set (repeated_marginals E bs) \<longleftrightarrow> (\<exists>k l. (k, l) \<in> set (marginal_groups E bs)
        \<and> 2 \<le> card (pb_page_id ` set l) \<and> i \<in> pb_block_id ` set l)"
      unfolding repeated_marginals_def by (auto split: if_split_asm)
    also have "\<dots> \<longleftrightarrow> (\<exists>k. \<exists>b \<in> set bs. pb_block_id b = i \<and> marginal_group E b = Some k
        \<and> 2 \<le> card (pb_page_id ` {b \<in> set bs. marginal_group E b = Some k}))"
      unfolding marginal_groups_mem by (rule ex_cong1) (auto simp: filter_empty_conv)
    finally show ?thesis .
  qed
  also have "\<dots> \<longleftrightarrow> (\<exists>k. \<exists>b \<in> set bs. pb_block_id b = i \<and> marginal_group E b = Some k
      \<and> (\<exists>b' \<in> {b \<in> set bs. marginal_group E b = Some k}. pb_page_id b' \<noteq> pb_page_id b))"
    by (intro ex_cong1 bex_cong refl conj_cong two_pages) auto
  also have "\<dots> \<longleftrightarrow> (\<exists>b \<in> set bs. pb_block_id b = i \<and> marginal_group E b \<noteq> None
     \<and> (\<exists>b' \<in> set bs. marginal_group E b' = marginal_group E b \<and> pb_page_id b' \<noteq> pb_page_id b))"
    by (rule iffI; elim exE bexE conjE; force)
  finally show ?thesis .
qed

section \<open>Lemmas on the join chains\<close>

definition edge_pair :: "continuity_edge \<Rightarrow> string \<times> string" where
  "edge_pair e = (ce_from_block_id e, ce_to_block_id e)"

text \<open>Both dictionaries hold the same pairs.\<close>

definition links :: "(string \<times> string) set \<Rightarrow> (string \<times> string) list \<Rightarrow> (string \<times> string) list \<Rightarrow> bool" where
  "links R outgoing incoming \<longleftrightarrow>
     (\<forall>a b. map_of outgoing a = Some b \<longleftrightarrow> (a, b) \<in> R) \<and> (\<forall>a b. map_of incoming b = Some a \<longleftrightarrow> (a, b) \<in> R)"

lemma link_edges_links:
  assumes "link_edges E blocks es outgoing incoming = Inr (outgoing', incoming')" and "links R outgoing incoming"
    and "R \<subseteq> fst ` set blocks \<times> fst ` set blocks"
  shows "links (R \<union> edge_pair ` set es) outgoing' incoming'
    \<and> R \<union> edge_pair ` set es \<subseteq> fst ` set blocks \<times> fst ` set blocks"
  using assms
proof (induction es arbitrary: R outgoing incoming)
  case (Cons e es)
  let ?a = "ce_from_block_id e" and ?b = "ce_to_block_id e"
  have ok: "join_check E blocks e outgoing incoming = Inr ()"
    using Cons.prems(1) by (auto split: sum.split_asm)
  then have known: "map_of blocks ?a \<noteq> None" "map_of blocks ?b \<noteq> None"
    and new: "map_of outgoing ?a = None" "map_of incoming ?b = None"
    by (auto simp: join_check_def split: option.split_asm if_split_asm)
  have "(?a, b) \<notin> R \<and> (a, ?b) \<notin> R" for a b
    using Cons.prems(2) new unfolding links_def by (metis option.distinct(1))
  then have "links (insert (?a, ?b) R) (AList.update ?a ?b outgoing) (AList.update ?b ?a incoming)"
    using Cons.prems(2) new unfolding links_def by (auto split: if_split_asm)
  moreover have "insert (?a, ?b) R \<subseteq> fst ` set blocks \<times> fst ` set blocks"
    using known Cons.prems(3) by (auto simp: map_of_eq_None_iff)
  ultimately show ?case
    using Cons.IH [of _ _ "insert (?a, ?b) R"] Cons.prems(1) ok by (simp add: edge_pair_def)
qed simp

lemma chain_from_end:
  "c \<notin> set visited \<Longrightarrow> map_of outgoing c = None \<Longrightarrow> chain_from outgoing c visited = Inr ([c], c # visited)"
  by (subst chain_from.simps) simp

lemma chain_from_step:
  "c \<notin> set visited \<Longrightarrow> map_of outgoing c = Some d \<Longrightarrow> chain_from outgoing c visited
     = mapR (\<lambda>(chain, seen). (c # chain, seen)) (chain_from outgoing d (c # visited))"
  by (subst chain_from.simps) simp

lemma chain_from_fresh: "chain_from outgoing c visited = Inr x \<Longrightarrow> c \<notin> set visited"
  by (subst (asm) chain_from.simps) (simp split: if_split_asm)

lemma chain_from_Inr:
  "chain_from outgoing c visited = Inr (chain, seen) \<Longrightarrow>
   chain \<noteq> [] \<and> hd chain = c \<and> set seen = set chain \<union> set visited \<and> distinct chain
   \<and> set chain \<inter> set visited = {} \<and> successively (\<lambda>a b. map_of outgoing a = Some b) chain
   \<and> map_of outgoing (last chain) = None"
proof (induction outgoing c visited arbitrary: chain seen rule: chain_from.induct)
  case (1 outgoing c visited)
  note new = chain_from_fresh [OF 1(2)]
  show ?case
  proof (cases "map_of outgoing c")
    case None
    with 1(2) new show ?thesis by (auto simp: chain_from_end)
  next
    case (Some d)
    with 1(2) new obtain chain' where rest: "chain_from outgoing d (c # visited) = Inr (chain', seen)"
      and chain: "chain = c # chain'"
      by (auto simp: chain_from_step mapR_def split: sum.split_asm)
    from 1(1) [OF new Some rest] have ih: "chain' \<noteq> []" "hd chain' = d" "set seen = set chain' \<union> set (c # visited)"
      "distinct chain'" "set chain' \<inter> set (c # visited) = {}"
      "successively (\<lambda>a b. map_of outgoing a = Some b) chain'" "map_of outgoing (last chain') = None"
      by blast+
    from ih(1,2) obtain cs where "chain' = d # cs" by (cases chain') auto
    with ih Some new chain show ?thesis by auto
  qed
qed

text \<open>A walk that starts at a root never meets a visited block, so its error branch is dead.\<close>

lemma chain_from_total:
  assumes "links R outgoing incoming"
  shows "c \<notin> set visited \<Longrightarrow> (\<And>a b. (a, b) \<in> R \<Longrightarrow> b \<in> insert c (set visited) \<Longrightarrow> a \<in> set visited)
    \<Longrightarrow> \<exists>chain seen. chain_from outgoing c visited = Inr (chain, seen)"
  using assms
proof (induction outgoing c visited rule: chain_from.induct)
  case (1 outgoing c visited)
  have L: "map_of outgoing a = Some b \<longleftrightarrow> (a, b) \<in> R" "map_of incoming b = Some a \<longleftrightarrow> (a, b) \<in> R" for a b
    using 1(4) by (simp_all add: links_def)
  show ?case
  proof (cases "map_of outgoing c")
    case None
    with 1(2) show ?thesis by (simp add: chain_from_end)
  next
    case (Some d)
    then have cd: "(c, d) \<in> R" using L by simp
    have "d \<notin> set (c # visited)" using 1(2) 1(3) [OF cd] by auto
    moreover have "a \<in> set (c # visited)" if "(a, b) \<in> R" "b \<in> insert d (set (c # visited))" for a b
    proof (cases "b = d")
      case True
      with that(1) cd have "a = c" using L(2) by (metis option.inject)
      then show ?thesis by simp
    next
      case False
      with that 1(3) [OF that(1)] show ?thesis by auto
    qed
    ultimately obtain chain seen where "chain_from outgoing d (c # visited) = Inr (chain, seen)"
      using 1(1) [OF 1(2) Some _ _ 1(4)] by blast
    with 1(2) Some show ?thesis by (simp add: chain_from_step mapR_def)
  qed
qed

lemma successively_pred: "successively P xs \<Longrightarrow> x \<in> set xs \<Longrightarrow> x \<noteq> hd xs \<Longrightarrow> \<exists>a \<in> set xs. P a x"
  by (induction P xs rule: successively.induct) auto

lemma successively_succ: "successively P xs \<Longrightarrow> x \<in> set xs \<Longrightarrow> x \<noteq> last xs \<Longrightarrow> \<exists>b \<in> set xs. P x b"
  by (induction P xs rule: successively.induct) (auto split: if_split_asm)

text \<open>Linked chains: consecutive blocks are joined, the first has no predecessor, the last no successor.\<close>

definition is_chain :: "(string \<times> string) set \<Rightarrow> string list \<Rightarrow> bool" where
  "is_chain R ch \<longleftrightarrow> ch \<noteq> [] \<and> successively (\<lambda>a b. (a, b) \<in> R) ch
     \<and> (\<forall>a. (a, hd ch) \<notin> R) \<and> (\<forall>b. (last ch, b) \<notin> R)"

lemma collect_chains_Inr:
  assumes "collect_chains outgoing incoming bs visited = Inr (chs, seen)" and "links R outgoing incoming"
  shows "set seen = set visited \<union> set (concat chs) \<and> distinct (concat chs)
    \<and> set (concat chs) \<inter> set visited = {} \<and> list_all (is_chain R) chs
    \<and> (\<forall>b \<in> set bs. (\<forall>a. (a, b) \<notin> R) \<longrightarrow> b \<in> set seen) \<and> (\<forall>ch \<in> set chs. hd ch \<in> set bs)"
  using assms(1)
proof (induction bs arbitrary: visited chs)
  case (Cons b bs)
  show ?case
  proof (cases "map_of incoming b")
    case None
    with Cons.prems obtain chain seen' chs' where walk: "chain_from outgoing b visited = Inr (chain, seen')"
      and rest: "collect_chains outgoing incoming bs seen' = Inr (chs', seen)" and chs: "chs = chain # chs'"
      by (auto simp: mapR_def split: sum.split_asm)
    have L: "map_of outgoing a = Some d \<longleftrightarrow> (a, d) \<in> R" "map_of incoming d = Some a \<longleftrightarrow> (a, d) \<in> R" for a d
      using assms(2) by (simp_all add: links_def)
    note w = chain_from_Inr [OF walk]
    have "(a, hd chain) \<notin> R" for a using w None L(2) [where d = b] by (metis option.distinct(1))
    moreover have "(last chain, d) \<notin> R" for d using w L(1) by (metis option.distinct(1))
    moreover have "successively (\<lambda>a b. (a, b) \<in> R) chain" using w L(1) by simp
    ultimately have "is_chain R chain" using w by (simp add: is_chain_def)
    moreover have "b \<in> set chain" using w by (metis hd_in_set)
    ultimately show ?thesis using w Cons.IH [OF rest] unfolding chs by auto
  next
    case (Some a)
    then have "(a, b) \<in> R" using assms(2) by (simp add: links_def)
    with Some Cons.prems Cons.IH [of visited chs] show ?thesis by auto
  qed
qed simp

lemma collect_chains_total:
  assumes "links R outgoing incoming"
  shows "distinct bs \<Longrightarrow> (\<And>a b. (a, b) \<in> R \<Longrightarrow> b \<in> set visited \<Longrightarrow> a \<in> set visited) \<Longrightarrow>
    (\<And>b. b \<in> set visited \<Longrightarrow> b \<in> set bs \<Longrightarrow> \<exists>a. (a, b) \<in> R) \<Longrightarrow>
    \<exists>chs seen. collect_chains outgoing incoming bs visited = Inr (chs, seen)"
proof (induction bs arbitrary: visited)
  case (Cons b bs)
  have L: "map_of outgoing a = Some d \<longleftrightarrow> (a, d) \<in> R" "map_of incoming d = Some a \<longleftrightarrow> (a, d) \<in> R" for a d
    using assms by (simp_all add: links_def)
  show ?case
  proof (cases "map_of incoming b")
    case None
    then have head: "(a, b) \<notin> R" for a using L(2) by (metis option.distinct(1))
    then have new: "b \<notin> set visited" using Cons.prems(3) by auto
    then obtain chain seen' where walk: "chain_from outgoing b visited = Inr (chain, seen')"
      using chain_from_total [OF assms new] head Cons.prems(2) by (metis insert_iff)
    note w = chain_from_Inr [OF walk]
    have pred: "\<exists>a \<in> set chain. (a, x) \<in> R" if "x \<in> set chain" "x \<noteq> b" for x
      using successively_pred [of _ chain x] w that L(1) by blast
    have closed: "a \<in> set seen'" if "(a, x) \<in> R" "x \<in> set seen'" for a x
    proof (cases "x \<in> set chain")
      case True
      moreover have "x \<noteq> b" using head that(1) by blast
      ultimately obtain a' where "a' \<in> set chain" "(a', x) \<in> R" using pred by blast
      then show ?thesis using w that(1) L(2) by (metis Un_iff option.inject)
    next
      case False
      then show ?thesis using w that Cons.prems(2) by auto
    qed
    have fresh: "\<exists>a. (a, x) \<in> R" if "x \<in> set seen'" "x \<in> set bs" for x
    proof (cases "x \<in> set chain")
      case True
      moreover have "x \<noteq> b" using that Cons.prems(1) by auto
      ultimately show ?thesis using pred by blast
    next
      case False
      with that w Cons.prems(3) show ?thesis by auto
    qed
    obtain chs seen where "collect_chains outgoing incoming bs seen' = Inr (chs, seen)"
      using Cons.IH [of seen'] Cons.prems(1) closed fresh by (meson distinct.simps(2))
    with None walk show ?thesis by (simp add: mapR_def)
  next
    case (Some a)
    with Cons.IH [of visited] Cons.prems show ?thesis by simp
  qed
qed simp

text \<open>
  The pairs of the join edges, and what the chains are: they partition the blocks, each is a linked
  chain, and every join edge lies inside one.
\<close>

definition join_pairs :: "continuity_edge list \<Rightarrow> (string \<times> string) set" where
  "join_pairs edges = edge_pair ` set (filter joins edges)"

lemma links_empty: "links {} [] []"
  by (simp add: links_def)

lemma join_chains_sound:
  assumes "join_chains E blocks edges = Inr chs"
  shows "distinct (concat chs) \<and> set (concat chs) = fst ` set blocks \<and> list_all (is_chain (join_pairs edges)) chs"
proof -
  obtain outgoing incoming where l: "link_edges E blocks (filter joins edges) [] [] = Inr (outgoing, incoming)"
    using assms by (auto simp: join_chains_def split: sum.split_asm)
  have links: "links (join_pairs edges) outgoing incoming"
    using link_edges_links [OF l links_empty] by (simp add: join_pairs_def)
  obtain seen where c: "collect_chains outgoing incoming (sort (map fst blocks)) [] = Inr (chs, seen)"
    and all: "set seen = set (map fst blocks)"
    using assms l by (auto simp: join_chains_def split: sum.split_asm if_split_asm)
  from collect_chains_Inr [OF c links] all show ?thesis by simp
qed

text \<open>Once the edges pass their checks, the chains exist exactly when the joins form no cycle.\<close>

lemma linked_acyclic:
  assumes "links R outgoing incoming" and "list_all (is_chain R) chs" and "Range R \<subseteq> set (concat chs)"
  shows "acyclic R"
proof -
  have uniq: "a = a'" if "(a, b) \<in> R" "(a', b) \<in> R" for a a' b
    using assms(1) that unfolding links_def by (metis option.inject)
  have no: "(ch ! i, ch ! i) \<notin> R\<^sup>+" if ch: "is_chain R ch" and "i < length ch" for ch i
    using that(2)
  proof (induction i)
    case 0
    then show ?case using ch by (metis hd_conv_nth is_chain_def tranclE)
  next
    case (Suc i)
    have step: "(ch ! i, ch ! Suc i) \<in> R" using ch Suc.prems successively_nth [of _ ch i] unfolding is_chain_def by blast
    show ?case
    proof
      assume "(ch ! Suc i, ch ! Suc i) \<in> R\<^sup>+"
      then obtain p where "(ch ! Suc i, p) \<in> R\<^sup>*" "(p, ch ! Suc i) \<in> R" by (metis tranclD2)
      with uniq step have "(ch ! i, ch ! i) \<in> R\<^sup>+" by (metis rtrancl_into_trancl2)
      with Suc show False by simp
    qed
  qed
  show ?thesis
  proof (rule acyclicI, rule allI, rule notI)
    fix x assume c: "(x, x) \<in> R\<^sup>+"
    then have "x \<in> Range R" by (metis Range.intros tranclE)
    then obtain ch where "ch \<in> set chs" "x \<in> set ch" using assms(3) by auto
    then show False using no [of ch] c assms(2) by (metis in_set_conv_nth list_all_iff)
  qed
qed

lemma join_chains_complete:
  assumes link: "link_edges E blocks (filter joins edges) [] [] = Inr (outgoing, incoming)"
    and "distinct (map fst blocks)"
  shows "(\<exists>chs. join_chains E blocks edges = Inr chs) \<longleftrightarrow> acyclic (join_pairs edges)"
proof -
  let ?R = "join_pairs edges" and ?keys = "fst ` set blocks"
  have links: "links ?R outgoing incoming" and sub: "?R \<subseteq> ?keys \<times> ?keys"
    using link_edges_links [OF link links_empty] by (simp_all add: join_pairs_def)
  show ?thesis
  proof
    assume "\<exists>chs. join_chains E blocks edges = Inr chs"
    then obtain chs where "join_chains E blocks edges = Inr chs" ..
    from join_chains_sound [OF this] sub show "acyclic ?R"
      by (intro linked_acyclic [OF links, of chs]) auto
  next
    assume acyc: "acyclic ?R"
    obtain chs seen where c: "collect_chains outgoing incoming (sort (map fst blocks)) [] = Inr (chs, seen)"
      using collect_chains_total [OF links, of "sort (map fst blocks)" "[]"] assms(2) by auto
    have seen: "set seen = set (concat chs)" "list_all (is_chain ?R) chs"
      "\<And>b. b \<in> ?keys \<Longrightarrow> (\<And>a. (a, b) \<notin> ?R) \<Longrightarrow> b \<in> set seen" "\<And>ch. ch \<in> set chs \<Longrightarrow> hd ch \<in> ?keys"
      using collect_chains_Inr [OF c links] by auto
    have "wf ?R" using acyc by (intro finite_acyclic_wf) (simp add: join_pairs_def)
    then have "b \<in> ?keys \<longrightarrow> b \<in> set seen" for b
    proof (induction b)
      case (less b)
      show ?case
      proof (cases "\<exists>a. (a, b) \<in> ?R")
        case False
        then show ?thesis using seen(3) by blast
      next
        case True
        then obtain a where a: "(a, b) \<in> ?R" ..
        moreover have "a \<in> ?keys" using a sub by (auto simp del: split_paired_All)
        ultimately have "a \<in> set seen" using less by blast
        then obtain ch where ch: "ch \<in> set chs" "a \<in> set ch" using seen(1) by auto
        with seen(2) have "is_chain ?R ch" by (simp add: list_all_iff)
        then obtain b' where "b' \<in> set ch" "(a, b') \<in> ?R"
          using successively_succ [of _ ch a] ch a unfolding is_chain_def by blast
        moreover have "b' = b" if "(a, b') \<in> ?R" for b'
          using links a that unfolding links_def by (metis option.inject)
        ultimately show ?thesis using ch seen(1) by auto
      qed
    qed
    moreover have "x \<in> ?keys" if x: "x \<in> set seen" for x
    proof -
      obtain ch where ch: "ch \<in> set chs" "x \<in> set ch" using seen(1) x by auto
      with seen(2) have "successively (\<lambda>a b. (a, b) \<in> ?R) ch" by (auto simp: list_all_iff is_chain_def)
      then show ?thesis using successively_pred [of _ ch x] ch seen(4) sub by (cases "x = hd ch") auto
    qed
    ultimately have "set seen = set (map fst blocks)" by auto
    then show "\<exists>chs. join_chains E blocks edges = Inr chs"
      using link c by (simp add: join_chains_def)
  qed
qed

section \<open>Lemmas on the ordering of relationships\<close>

text \<open>The elements of the list follow their predecessors, those in \<open>D\<close> being placed already.\<close>

fun topological :: "(string \<times> string) set \<Rightarrow> string set \<Rightarrow> string list \<Rightarrow> bool" where
  "topological R D [] = True"
| "topological R D (b # bs) \<longleftrightarrow> (\<forall>a. (a, b) \<in> R \<longrightarrow> a \<in> D) \<and> topological R (insert b D) bs"

definition waiting :: "(string \<times> string) list \<Rightarrow> string set \<Rightarrow> string \<Rightarrow> nat" where
  "waiting ba D i = card {a. (a, i) \<in> set ba \<and> a \<notin> D}"

definition counts :: "(string \<times> string) list \<Rightarrow> string set \<Rightarrow> string set \<Rightarrow> (string \<times> int) list \<Rightarrow> bool" where
  "counts ba ids D incoming \<longleftrightarrow> fst ` set incoming = ids \<and>
     (\<forall>i \<in> ids. map_of incoming i = Some (int (waiting ba D i)))"

lemma finite_waiting: "finite {a. (a, i) \<in> set ba \<and> a \<notin> D}"
  by (rule finite_subset [of _ "fst ` set ba"]) force+

lemma waiting_insert:
  "b \<notin> D \<Longrightarrow> waiting ba (insert b D) i = waiting ba D i - (if (b, i) \<in> set ba then 1 else 0)"
proof -
  assume b: "b \<notin> D"
  have "{a. (a, i) \<in> set ba \<and> a \<notin> insert b D} = {a. (a, i) \<in> set ba \<and> a \<notin> D} - {b}" by auto
  then show ?thesis using finite_waiting [of i ba D] b by (auto simp: waiting_def)
qed

lemma waiting_pos: "b \<notin> D \<Longrightarrow> (b, i) \<in> set ba \<Longrightarrow> 0 < waiting ba D i"
  using finite_waiting [of i ba D] by (auto simp: waiting_def card_gt_0_iff)

lemma waiting_zero: "waiting ba D i = 0 \<longleftrightarrow> (\<forall>a. (a, i) \<in> set ba \<longrightarrow> a \<in> D)"
  using finite_waiting [of i ba D] by (auto simp: waiting_def)

text \<open>Releasing distinct successors lowers their counts by one and readies those that reach zero.\<close>

lemma release_successors_Inr:
  "distinct ss \<Longrightarrow> set ss \<subseteq> fst ` set incoming \<Longrightarrow>
   \<exists>incoming' ready'. release_successors key ss incoming ready = Inr (incoming', ready')
     \<and> fst ` set incoming' = fst ` set incoming
     \<and> (\<forall>i. map_of incoming' i = map_option (\<lambda>n. if i \<in> set ss then n - 1 else n) (map_of incoming i))
     \<and> mset ready' = mset ready + mset (filter (\<lambda>s. map_of incoming s = Some 1) ss)"
proof (induction ss arbitrary: incoming ready)
  case Nil
  then show ?case by (simp add: option.map_ident)
next
  case (Cons s ss)
  from Cons.prems(2) obtain n where n: "map_of incoming s = Some n"
    by (cases "map_of incoming s") (auto simp: map_of_eq_None_iff)
  let ?in = "AList.update s (n - 1) incoming" and ?re = "if n - 1 = 0 then sort_key key (ready @ [s]) else ready"
  have keys: "fst ` set ?in = fst ` set incoming"
    using Cons.prems(2) by (auto simp: keys_update)
  obtain incoming' ready' where ih: "release_successors key ss ?in ?re = Inr (incoming', ready')"
     "fst ` set incoming' = fst ` set ?in"
     "\<And>i. map_of incoming' i = map_option (\<lambda>n. if i \<in> set ss then n - 1 else n) (map_of ?in i)"
     "mset ready' = mset ?re + mset (filter (\<lambda>s. map_of ?in s = Some 1) ss)"
    using Cons.IH [of ?in ?re] Cons.prems keys by auto
  have f: "filter (\<lambda>i. map_of ?in i = Some 1) ss = filter (\<lambda>i. map_of incoming i = Some 1) ss"
    by (rule filter_cong) (use Cons.prems(1) in auto)
  have m: "mset ready' = mset ready + mset (filter (\<lambda>s. map_of incoming s = Some 1) (s # ss))"
    unfolding ih(4) f using n by simp
  have u: "map_of incoming' i = map_option (\<lambda>n. if i \<in> set (s # ss) then n - 1 else n) (map_of incoming i)" for i
    using ih(3) [of i] n Cons.prems(1) by auto
  have "release_successors key (s # ss) incoming ready = Inr (incoming', ready')" using ih(1) n by simp
  moreover have "fst ` set incoming' = fst ` set incoming" using ih(2) keys by simp
  ultimately show ?case
    by (intro exI [of _ incoming'] exI [of _ ready'] conjI allI) (assumption | rule u m)+
qed

text \<open>The loop places every block that it can, each after its predecessors.\<close>

lemma place_blocks_topological:
  assumes "distinct ba" and "set ba \<subseteq> ids \<times> ids" and "finite ids"
  shows "counts ba ids D incoming \<Longrightarrow> distinct ready \<Longrightarrow> D \<subseteq> ids \<Longrightarrow>
    set ready = {i \<in> ids. i \<notin> D \<and> waiting ba D i = 0} \<Longrightarrow>
    (\<And>i. i \<in> D \<Longrightarrow> waiting ba D i = 0) \<Longrightarrow>
    \<exists>ordered. place_blocks key ba incoming ready = Inr ordered \<and> distinct ordered \<and> set ordered \<subseteq> ids - D
      \<and> topological (set ba) D ordered
      \<and> (\<forall>b \<in> ids - D - set ordered. \<exists>a \<in> ids - D - set ordered. (a, b) \<in> set ba)"
  using assms
proof (induction key ba incoming ready arbitrary: D rule: place_blocks.induct)
  case (1 key ba incoming)
  have "\<exists>a \<in> ids - D. (a, b) \<in> set ba" if b: "b \<in> ids - D" for b
  proof -
    have "waiting ba D b \<noteq> 0" using 1(4) b by auto
    then obtain a where "(a, b) \<in> set ba" "a \<notin> D" unfolding waiting_zero by blast
    with 1(7) show ?thesis by blast
  qed
  then show ?case by simp
next
  case (2 key ba incoming b ready)
  let ?ss = "sort_key key (successors ba b)"
  have b: "b \<in> ids" "b \<notin> D" "waiting ba D b = 0" using 2(5) by auto
  have ss: "set ?ss = {i. (b, i) \<in> set ba}" by (force simp: successors_def)
  have dist: "distinct ?ss"
    using 2(7) by (auto simp: successors_def distinct_map inj_on_def)
  have keys: "fst ` set incoming = ids" and cnt: "\<And>i. i \<in> ids \<Longrightarrow> map_of incoming i = Some (int (waiting ba D i))"
    using 2(2) by (simp_all add: counts_def)
  obtain incoming' ready' where r: "release_successors key ?ss incoming ready = Inr (incoming', ready')"
     and keys': "fst ` set incoming' = fst ` set incoming"
     and u: "\<And>i. map_of incoming' i = map_option (\<lambda>n. if i \<in> set ?ss then n - 1 else n) (map_of incoming i)"
     and m: "mset ready' = mset ready + mset (filter (\<lambda>s. map_of incoming s = Some 1) ?ss)"
    using release_successors_Inr [OF dist, of incoming key ready] keys 2(8) unfolding ss by blast
  have w: "waiting ba (insert b D) i = waiting ba D i - (if (b, i) \<in> set ba then 1 else 0)" for i
    by (rule waiting_insert [OF b(2)])
  have p: "(b, i) \<in> set ba \<Longrightarrow> int (waiting ba D i) - 1 = int (waiting ba D i - Suc 0)" for i
    using waiting_pos [OF b(2), of i ba] by (simp add: of_nat_diff Suc_le_eq)
  have c': "counts ba ids (insert b D) incoming'"
    using keys' keys u cnt ss w p by (auto simp: counts_def)
  have sr: "set ready' = set ready \<union> {i \<in> ids. (b, i) \<in> set ba \<and> waiting ba D i = 1}"
    using arg_cong [OF m, of set_mset] ss cnt 2(8) by auto
  have "set ready \<inter> {i \<in> ids. (b, i) \<in> set ba \<and> waiting ba D i = 1} = {}"
    using equalityD1 [OF 2(5)] by auto
  moreover have "set (filter (\<lambda>s. map_of incoming s = Some 1) ?ss) \<subseteq> {i \<in> ids. (b, i) \<in> set ba \<and> waiting ba D i = 1}"
    using ss cnt 2(8) by auto
  ultimately have "distinct (ready @ filter (\<lambda>s. map_of incoming s = Some 1) ?ss)"
    using 2(3) dist by auto
  then have d': "distinct ready'" using m by (metis mset_append mset_eq_imp_distinct_iff)
  have z': "waiting ba (insert b D) i = 0" if "i \<in> insert b D" for i using that w b(3) 2(6) by auto
  have s': "set ready' = {i \<in> ids. i \<notin> insert b D \<and> waiting ba (insert b D) i = 0}"
  proof -
    have new: "i \<noteq> b \<and> i \<notin> D" if "(b, i) \<in> set ba" for i
      using waiting_pos [OF b(2) that] b(3) 2(6) by (metis less_not_refl)
    have old: "set ready = {i \<in> ids. i \<notin> D \<and> waiting ba D i = 0} - {b}"
      using 2(3) unfolding 2(5) [symmetric] by auto
    show ?thesis
    proof (rule set_eqI)
      fix i
      show "i \<in> set ready' \<longleftrightarrow> i \<in> {i \<in> ids. i \<notin> insert b D \<and> waiting ba (insert b D) i = 0}"
      proof (cases "(b, i) \<in> set ba")
        case True
        with new [OF True] waiting_pos [OF b(2) True] show ?thesis by (auto simp: sr old w)
      next
        case False
        then show ?thesis by (auto simp: sr old w)
      qed
    qed
  qed
  obtain ordered where o: "place_blocks key ba incoming' ready' = Inr ordered" "distinct ordered"
     "set ordered \<subseteq> ids - insert b D" "topological (set ba) (insert b D) ordered"
     "\<forall>x \<in> ids - insert b D - set ordered. \<exists>a \<in> ids - insert b D - set ordered. (a, x) \<in> set ba"
    using 2(1) [OF r refl c' d' _ s' z' 2(7-9)] b(1) 2(4) by auto
  have "topological (set ba) D (b # ordered)" using o(4) b(3) waiting_zero by auto
  moreover have "ids - D - set (b # ordered) = ids - insert b D - set ordered" by auto
  ultimately show ?case using r o b(1,2) by (auto simp: mapR_def)
qed

lemma before_after_ids:
  "set (before_after merged edges) \<subseteq> mb_merged_block_id ` set merged \<times> mb_merged_block_id ` set merged"
proof -
  have "by_original merged i = Some j \<Longrightarrow> j \<in> mb_merged_block_id ` set merged" for i j
    by (auto simp: by_original_def dest!: map_of_SomeD)
  then show ?thesis
    by (force simp: before_after_def precedence_def split: option.split_asm if_split_asm)
qed

lemma distinct_pairs_count:
  "distinct ba \<Longrightarrow> length (filter (\<lambda>p. snd p = i) ba) = waiting ba {} i"
proof -
  assume d: "distinct ba"
  have "{a. (a, i) \<in> set ba} = fst ` set (filter (\<lambda>p. snd p = i) ba)" by force
  moreover have "inj_on fst (set (filter (\<lambda>p. snd p = i) ba))" by (auto simp: inj_on_def)
  ultimately show ?thesis
    using d by (simp add: waiting_def card_image distinct_card [symmetric] del: set_filter)
qed

text \<open>What the ordering returns, in terms of the ids it placed.\<close>

lemma order_relationships_cases:
  obtains ordered where "distinct ordered" and "set ordered \<subseteq> mb_merged_block_id ` set merged"
    and "topological (set (before_after merged edges)) {} ordered"
    and "\<forall>b \<in> mb_merged_block_id ` set merged - set ordered. \<exists>a \<in> mb_merged_block_id ` set merged - set ordered. (a, b) \<in> set (before_after merged edges)"
    and "order_relationships merged edges = (if length ordered \<noteq> length merged
       then Inl (ContinuityMergeConflict ''continuity relationship graph contains a cycle'')
       else Inr (map (\<lambda>i. the (map_of (rev (map (\<lambda>b. (mb_merged_block_id b, b)) merged)) i)) ordered))"
proof -
  let ?ids = "fromkeys (map mb_merged_block_id merged)" and ?ba = "before_after merged edges"
  let ?all = "mb_merged_block_id ` set merged"
  let ?in = "map (\<lambda>i. (i, int (length (filter (\<lambda>p. snd p = i) ?ba)))) ?ids"
  let ?ready = "sort_key (ready_key merged) (map fst (filter (\<lambda>p. snd p = 0) ?in))"
  have d: "distinct ?ba" by (simp add: before_after_def)
  have ids: "set ?ids = mb_merged_block_id ` set merged" by simp
  have "map_of ?in i = Some (int (waiting ?ba {} i))" if "i \<in> mb_merged_block_id ` set merged" for i
    using that ids d by (simp add: map_of_map_restrict distinct_pairs_count)
  then have c: "counts ?ba (mb_merged_block_id ` set merged) {} ?in" using ids by (simp add: counts_def image_image)
  have r: "set ?ready = {i \<in> mb_merged_block_id ` set merged. i \<notin> {} \<and> waiting ?ba {} i = 0}"
    using ids d by (auto simp: distinct_pairs_count image_iff)
  have dr: "distinct ?ready"
    by (simp add: distinct_map comp_def filter_map inj_on_def)
  have "\<exists>ordered. place_blocks (ready_key merged) ?ba ?in ?ready = Inr ordered \<and> distinct ordered
      \<and> set ordered \<subseteq> ?all - {} \<and> topological (set ?ba) {} ordered
      \<and> (\<forall>b \<in> ?all - {} - set ordered. \<exists>a \<in> ?all - {} - set ordered. (a, b) \<in> set ?ba)"
    by (rule place_blocks_topological [OF d before_after_ids _ c dr _ r]) simp_all
  then obtain ordered where "place_blocks (ready_key merged) ?ba ?in ?ready = Inr ordered" "distinct ordered"
      "set ordered \<subseteq> ?all" "topological (set ?ba) {} ordered"
      "\<forall>b \<in> ?all - set ordered. \<exists>a \<in> ?all - set ordered. (a, b) \<in> set ?ba"
    unfolding Diff_empty by blast
  then show thesis
    by (intro that [of ordered]) (simp_all add: order_relationships_def Let_def)
qed

text \<open>
  A successful ordering permutes the merged blocks, whose ids are then distinct, and places every
  block after its predecessors.
\<close>

lemma order_relationships_Inr:
  assumes "order_relationships merged edges = Inr out"
  shows "distinct (map mb_merged_block_id merged) \<and> mset out = mset merged
    \<and> topological (set (before_after merged edges)) {} (map mb_merged_block_id out)"
proof -
  let ?at = "map_of (rev (map (\<lambda>b. (mb_merged_block_id b, b)) merged))"
  obtain ordered where o: "distinct ordered" "set ordered \<subseteq> mb_merged_block_id ` set merged"
      "topological (set (before_after merged edges)) {} ordered"
      "\<forall>b \<in> mb_merged_block_id ` set merged - set ordered. \<exists>a \<in> mb_merged_block_id ` set merged - set ordered.
         (a, b) \<in> set (before_after merged edges)"
    and eq: "order_relationships merged edges = (if length ordered \<noteq> length merged
       then Inl (ContinuityMergeConflict ''continuity relationship graph contains a cycle'')
       else Inr (map (\<lambda>i. the (?at i)) ordered))"
    by (rule order_relationships_cases [of merged edges])
  with assms have len: "length ordered = length merged" and out: "out = map (\<lambda>i. the (?at i)) ordered"
    by (auto split: if_split_asm)
  have "length ordered = card (set ordered)" using o(1) by (simp add: distinct_card)
  also have "\<dots> \<le> card (set (map mb_merged_block_id merged))" using o(2) by (intro card_mono) auto
  finally have "card (set (map mb_merged_block_id merged)) = length (map mb_merged_block_id merged)"
    using len card_length [of "map mb_merged_block_id merged"] by simp
  then have dist: "distinct (map mb_merged_block_id merged)" by (rule card_distinct)
  have "set ordered = set (map mb_merged_block_id merged)"
    using o(1,2) len dist by (intro card_subset_eq) (auto simp: distinct_card [symmetric] card_image distinct_map)
  then have ms: "mset ordered = mset (map mb_merged_block_id merged)"
    using o(1) dist set_eq_iff_mset_eq_distinct by blast
  have look: "the (?at (mb_merged_block_id b)) = b" if "b \<in> set merged" for b
  proof -
    have "distinct (map fst (rev (map (\<lambda>b. (mb_merged_block_id b, b)) merged)))"
      using dist by (simp add: rev_map [symmetric] comp_def)
    then have "?at (mb_merged_block_id b) = Some b" using that by (intro map_of_is_SomeI) auto
    then show ?thesis by simp
  qed
  have "mset out = image_mset (\<lambda>i. the (?at i)) (mset ordered)" by (simp add: out)
  also have "\<dots> = image_mset (\<lambda>b. the (?at (mb_merged_block_id b))) (mset merged)" by (simp add: ms image_mset.compositionality comp_def)
  also have "\<dots> = mset merged" by (rule multiset.map_ident_strong) (simp add: look)
  finally have m: "mset out = mset merged" .
  have "map mb_merged_block_id out = map (\<lambda>i. i) ordered"
    unfolding out map_map
  proof (rule map_cong [OF refl])
    fix i assume "i \<in> set ordered"
    then obtain b where "b \<in> set merged" "i = mb_merged_block_id b" using o(2) by auto
    with look show "(mb_merged_block_id \<circ> (\<lambda>i. the (?at i))) i = i" by simp
  qed
  with o(3) dist m show ?thesis by simp
qed

lemma topological_acyclic:
  "topological R D bs \<Longrightarrow> Range R \<subseteq> D \<union> set bs \<Longrightarrow> (\<And>a b. (a, b) \<in> R \<Longrightarrow> b \<in> D \<Longrightarrow> a \<in> D) \<Longrightarrow>
   (\<And>x. x \<in> D \<Longrightarrow> (x, x) \<notin> R\<^sup>+) \<Longrightarrow> distinct bs \<Longrightarrow> set bs \<inter> D = {} \<Longrightarrow> acyclic R"
proof (induction R D bs rule: topological.induct)
  case (1 R D)
  show ?case
  proof (rule acyclicI, rule allI, rule notI)
    fix x assume "(x, x) \<in> R\<^sup>+"
    then have "x \<in> D" using 1(2) by (metis Range.intros Un_empty_right empty_set subsetD tranclE)
    with 1(4) \<open>(x, x) \<in> R\<^sup>+\<close> show False by blast
  qed
next
  case (2 R D b bs)
  have down: "a \<in> D" if "(a, x) \<in> R\<^sup>*" "x \<in> D" for a x
    using that(1,2) by (induction rule: converse_rtrancl_induct) (auto intro: 2(4))
  have "(b, b) \<notin> R\<^sup>+"
  proof
    assume "(b, b) \<in> R\<^sup>+"
    then obtain p where "(b, p) \<in> R\<^sup>*" "(p, b) \<in> R" by (metis tranclD2)
    with 2(2) down have "b \<in> D" by auto
    with 2(7) show False by auto
  qed
  with 2 show ?case by (intro 2(1)) auto
qed

text \<open>With distinct ids the ordering exists exactly when the relationships form no cycle.\<close>

lemma order_relationships_iff:
  assumes "distinct (map mb_merged_block_id merged)"
  shows "(\<exists>out. order_relationships merged edges = Inr out) \<longleftrightarrow> acyclic (set (before_after merged edges))"
proof -
  let ?R = "set (before_after merged edges)" and ?ids = "mb_merged_block_id ` set merged"
  obtain ordered where o: "distinct ordered" "set ordered \<subseteq> ?ids" "topological ?R {} ordered"
      "\<forall>b \<in> ?ids - set ordered. \<exists>a \<in> ?ids - set ordered. (a, b) \<in> ?R"
    and eq: "order_relationships merged edges = (if length ordered \<noteq> length merged
       then Inl (ContinuityMergeConflict ''continuity relationship graph contains a cycle'')
       else Inr (map (\<lambda>i. the (map_of (rev (map (\<lambda>b. (mb_merged_block_id b, b)) merged)) i)) ordered))"
    by (rule order_relationships_cases [of merged edges])
  have card: "card ?ids = length merged" using assms by (metis distinct_card length_map set_map)
  have sub: "Range ?R \<subseteq> ?ids" using before_after_ids [of merged edges] by auto
  show ?thesis
  proof
    assume "\<exists>out. order_relationships merged edges = Inr out"
    then have "length ordered = length merged" using eq by (auto split: if_split_asm)
    then have "set ordered = ?ids" using o(1,2) card by (intro card_subset_eq) (auto simp: distinct_card)
    with o(1,3) sub show "acyclic ?R" by (intro topological_acyclic [of ?R "{}" ordered]) auto
  next
    assume "acyclic ?R"
    then have "wf ?R" by (intro finite_acyclic_wf) simp
    have "?ids - set ordered = {}"
    proof (rule ccontr)
      assume "?ids - set ordered \<noteq> {}"
      then obtain b where "b \<in> ?ids - set ordered" "\<And>a. (a, b) \<in> ?R \<Longrightarrow> a \<notin> ?ids - set ordered"
        using wfE_min' [OF \<open>wf ?R\<close>] by metis
      with o(4) show False by blast
    qed
    then have "set ordered = ?ids" using o(2) by auto
    then have "length ordered = length merged" using o(1) card by (metis distinct_card)
    then show "\<exists>out. order_relationships merged edges = Inr out" using eq by simp
  qed
qed

lemma topological_before:
  "topological R D bs \<Longrightarrow> (a, b) \<in> R \<Longrightarrow> b \<in> set bs \<Longrightarrow> a \<notin> D \<Longrightarrow> \<exists>xs ys zs. bs = xs @ a # ys @ b # zs"
proof (induction R D bs rule: topological.induct)
  case (2 R D c bs)
  have "b \<noteq> c" using 2 by auto
  then have b: "b \<in> set bs" using 2 by simp
  show ?case
  proof (cases "a = c")
    case True
    with split_list [OF b] show ?thesis by (metis append_Nil)
  next
    case False
    with 2 b obtain xs ys zs where "bs = xs @ a # ys @ b # zs" by auto
    then have "c # bs = (c # xs) @ a # ys @ b # zs" by simp
    then show ?thesis by blast
  qed
qed simp

section \<open>Lemmas on the merge\<close>

lemma collect_owned_Inr:
  "collect_owned xs seen = Inr bs \<Longrightarrow>
   bs = map snd (filter (\<lambda>(primary, b). pb_page_id b \<in> set primary) xs)
   \<and> distinct (map pb_block_id bs) \<and> set (map pb_block_id bs) \<inter> set seen = {}"
proof (induction xs seen arbitrary: bs rule: collect_owned.induct)
  case (2 primary b rest seen)
  show ?case
  proof (cases "pb_page_id b \<in> set primary")
    case False
    then have "collect_owned rest seen = Inr bs"
      and "filter (\<lambda>(primary, b). pb_page_id b \<in> set primary) ((primary, b) # rest)
        = filter (\<lambda>(primary, b). pb_page_id b \<in> set primary) rest"
      using 2(3) by simp_all
    with 2(1) [OF False] show ?thesis by (simp only:)
  next
    case True
    with 2(3) obtain bs' where new: "pb_block_id b \<notin> set seen" and bs: "bs = b # bs'"
      and rest: "collect_owned rest (pb_block_id b # seen) = Inr bs'"
      by (auto simp: mapR_def split: if_split_asm sum.split_asm)
    from 2(2) [OF _ new rest] True have ih: "bs' = map snd (filter (\<lambda>(primary, b). pb_page_id b \<in> set primary) rest)"
      "distinct (map pb_block_id bs')" "set (map pb_block_id bs') \<inter> set (pb_block_id b # seen) = {}" by blast+
    from ih(1) True bs have "bs = map snd (filter (\<lambda>(primary, b). pb_page_id b \<in> set primary) ((primary, b) # rest))"
      by simp
    moreover from ih(2,3) new bs have "distinct (map pb_block_id bs)" "set (map pb_block_id bs) \<inter> set seen = {}"
      by auto
    ultimately show ?thesis by blast
  qed
qed simp

lemma owned_blocks_Inr:
  assumes "owned_blocks outputs = Inr owned"
  shows "distinct (map pb_block_id owned)
    \<and> set owned = {b. \<exists>x \<in> set outputs. b \<in> set (so_blocks x) \<and> pb_page_id b \<in> set (so_primary_page_ids x)}"
proof -
  let ?xs = "concat (map (\<lambda>x. map (\<lambda>b. (so_primary_page_ids x, b)) (so_blocks x)) outputs)"
  obtain bs where bs: "collect_owned ?xs [] = Inr bs"
    and o: "owned = sort_key (\<lambda>b. (pb_page_index0 b, pb_order b, pb_block_id b)) bs"
    using assms by (auto simp: owned_blocks_def mapR_def split: if_split_asm sum.split_asm)
  note c = collect_owned_Inr [OF bs]
  have "mset (map pb_block_id owned) = mset (map pb_block_id bs)" by (simp add: o)
  then have "distinct (map pb_block_id owned)" using c by (metis mset_eq_imp_distinct_iff)
  moreover have "set owned = {b. \<exists>x \<in> set outputs. b \<in> set (so_blocks x) \<and> pb_page_id b \<in> set (so_primary_page_ids x)}"
  proof -
    have "set owned = snd ` {y \<in> set ?xs. pb_page_id (snd y) \<in> set (fst y)}"
      using c by (simp add: o case_prod_beta')
    then show ?thesis by (auto simp: image_iff Bex_def) blast+
  qed
  ultimately show ?thesis ..
qed

lemma mset_concat_map: "mset xs = mset ys \<Longrightarrow> mset (concat (map f xs)) = mset (concat (map f ys))"
proof -
  have eq: "mset (concat (map f zs)) = \<Sum>\<^sub># (image_mset (\<lambda>x. mset (f x)) (mset zs))" for zs
    by (induction zs) auto
  show "mset xs = mset ys \<Longrightarrow> mset (concat (map f xs)) = mset (concat (map f ys))"
    by (simp add: eq)
qed

lemma sum_list_map_mset: "mset xs = mset ys \<Longrightarrow> sum_list (map f xs) = sum_list (map f ys)"
  for f :: "'a \<Rightarrow> int"
  by (metis mset_map sum_mset_sum_list)

definition active_of :: "parsed_block list \<Rightarrow> string list \<Rightarrow> parsed_block list" where
  "active_of owned dropped = filter (\<lambda>b. pb_block_id b \<notin> set dropped) owned"

lemma merge_chain_members:
  assumes "distinct (map pb_block_id bs)" and "set chain \<subseteq> pb_block_id ` set bs"
  shows "map pb_block_id (map (\<lambda>i. the (map_of (map (\<lambda>b. (pb_block_id b, b)) bs) i)) chain) = chain"
proof -
  have "map_of (map (\<lambda>b. (pb_block_id b, b)) bs) (pb_block_id b) = Some b" if "b \<in> set bs" for b
    using assms(1) that by (intro map_of_is_SomeI) (auto simp: comp_def)
  then have "pb_block_id (the (map_of (map (\<lambda>b. (pb_block_id b, b)) bs) i)) = i" if "i \<in> set chain" for i
    using assms(2) that by auto
  then show ?thesis by (simp add: map_idI)
qed

text \<open>The merged blocks carry every active block exactly once, rows and pages included.\<close>

lemma merged_blocks_Inr:
  assumes "merged_blocks E q owned dropped = Inr merged" and "distinct (map pb_block_id owned)"
  defines "active \<equiv> active_of owned dropped"
  shows "mset (concat (map mb_provenance_block_ids merged)) = mset (map pb_block_id active)
    \<and> sum_list (map mb_table_row_count merged) = sum_list (map pb_table_row_count active)
    \<and> set (concat (map mb_page_ids merged)) = pb_page_id ` set active"
proof -
  let ?al = "map (\<lambda>b. (pb_block_id b, b)) active"
  let ?the = "\<lambda>i. the (map_of ?al i)"
  define es where "es = filter (\<lambda>e. map_of ?al (ce_from_block_id e) \<noteq> None \<and> map_of ?al (ce_to_block_id e) \<noteq> None) (mq_edges q)"
  have dist: "distinct (map pb_block_id active)"
    using assms(2) by (simp add: active_def active_of_def distinct_map_filter)
  obtain chs where j: "join_chains E ?al es = Inr chs"
    and ord: "order_relationships (sort_key (\<lambda>b. (mb_page_index0 b, mb_order b, mb_merged_block_id b))
        (map (merge_chain E ?al) chs)) es = Inr merged"
    using assms(1) unfolding merged_blocks_def Let_def active_def active_of_def es_def
    by (auto split: sum.split_asm)
  have ch: "distinct (concat chs)" "set (concat chs) = pb_block_id ` set active"
    using join_chains_sound [OF j] by (auto simp: image_image)
  have m: "mset merged = mset (map (merge_chain E ?al) chs)"
    using order_relationships_Inr [OF ord] by simp
  have prov: "map (\<lambda>i. pb_block_id (?the i)) c = c" if "c \<in> set chs" for c
  proof -
    have "set c \<subseteq> pb_block_id ` set active" using that unfolding ch(2) [symmetric] by auto
    from merge_chain_members [OF dist this] show ?thesis by (simp add: comp_def)
  qed
  have perm: "mset (concat chs) = mset (map pb_block_id active)"
    using ch dist by (metis set_eq_iff_mset_eq_distinct set_map)
  have all: "mset (map ?the (concat chs)) = mset active"
  proof -
    have "?the (pb_block_id b) = b" if "b \<in> set active" for b
      using dist that by (subst map_of_is_SomeI [of _ _ b]) (auto simp: comp_def)
    note look = this
    have "mset (map ?the (concat chs)) = image_mset (\<lambda>b. ?the (pb_block_id b)) (mset active)"
      by (simp add: perm image_mset.compositionality comp_def)
    also have "\<dots> = mset active" by (rule multiset.map_ident_strong) (simp add: look)
    finally show ?thesis .
  qed
  have 1: "mset (concat (map mb_provenance_block_ids merged)) = mset (concat chs)"
    using mset_concat_map [OF m, of mb_provenance_block_ids] prov
    by (simp add: merge_chain_def Let_def comp_def cong: map_cong)
  have 2: "sum_list (map mb_table_row_count merged) = sum_list (map pb_table_row_count (map ?the (concat chs)))"
  proof -
    have "sum_list (map mb_table_row_count (map (merge_chain E ?al) cs))
        = sum_list (map pb_table_row_count (map ?the (concat cs)))" for cs
      by (induction cs) (simp_all add: merge_chain_def Let_def comp_def)
    then show ?thesis using sum_list_map_mset [OF m] by simp
  qed
  have 3: "set (concat (map mb_page_ids merged)) = pb_page_id ` set (map ?the (concat chs))"
    using arg_cong [OF m, of set_mset] by (auto simp: merge_chain_def Let_def)
  have "set (map ?the (concat chs)) = set active" using all by (rule mset_eq_setD)
  then show ?thesis
    unfolding 1 2 3 using perm sum_list_map_mset [OF all, of pb_table_row_count] by (simp only: simp_thms)
qed

lemma merge_outcome_Inr:
  assumes "merge_outcome E q = Inr r"
  obtains owned where "owned_blocks (mq_outputs q) = Inr owned"
    and "merged_blocks E q owned (repeated_marginals E owned) = Inr (cm_blocks r)"
    and "cm_reason_codes r = merge_reasons owned (cm_blocks r) (repeated_marginals E owned)
        (mq_expected_page_ids q) (markdown_of (cm_blocks r))"
    and "cm_accepted r = (cm_reason_codes r = [])"
    and "cm_markdown r = (if cm_accepted r then Some (markdown_of (cm_blocks r)) else None)"
    and "cm_dropped_marginal_block_ids r = sorted_set (repeated_marginals E owned)"
proof -
  obtain owned where o: "owned_blocks (mq_outputs q) = Inr owned"
    using assms by (auto simp: merge_outcome_def split: sum.split_asm)
  obtain merged where m: "merged_blocks E q owned (repeated_marginals E owned) = Inr merged"
    using assms by (auto simp: merge_outcome_def o Let_def split: sum.split_asm if_split_asm)
  show thesis
    by (rule that [of owned]) (use assms o m in \<open>auto simp: merge_outcome_def Let_def split: if_split_asm\<close>)
qed

lemma merge_reasons_mem:
  "code \<in> set (merge_reasons owned merged dropped pages markdown) \<Longrightarrow>
     (code = ''block_count_conservation_failed'' \<longrightarrow> set (concat (map mb_provenance_block_ids merged))
        \<noteq> set (map pb_block_id owned) - set dropped \<or> \<not> distinct (concat (map mb_provenance_block_ids merged)))
   \<and> (code = ''table_row_conservation_failed'' \<longrightarrow> sum_list (map pb_table_row_count (active_of owned dropped))
        \<noteq> sum_list (map mb_table_row_count merged))"
  by (auto simp: merge_reasons_def Let_def active_of_def split: if_split_asm)

lemma page_reason:
  "''page_coverage_failed'' \<in> set (merge_reasons owned merged dropped pages markdown) \<longleftrightarrow>
     set pages \<noteq> set (concat (map mb_page_ids merged))
       \<union> set (map pb_page_id (filter (\<lambda>b. pb_block_id b \<in> set dropped) owned))"
  by (auto simp: merge_reasons_def Let_def)

lemma merge_known:
  "m k = Some (d, r) \<Longrightarrow> merge E q k (m, oj) = (if d = merge_digest E q then Inr r
     else Inl (ContinuityMergeConflict ''merge idempotency key reused with different merge input''), (m, oj))"
  by (simp add: merge_def)

lemma merge_fresh_state:
  assumes "merge E q k (m, oj) = (res, (m', oj'))" and "m k = None"
  shows "(m' = m \<and> (\<exists>e. res = Inl e)) \<or> (\<exists>r. merge_outcome E q = Inr r
    \<and> m' = m(k \<mapsto> (merge_digest E q, r)) \<and> (res = Inr r \<or> (\<exists>e. res = Inl e)))"
proof (cases "merge_outcome E q")
  case (Inl e)
  show ?thesis using assms by (auto simp: merge_def Inl split: sum.split_asm prod.split_asm)
next
  case (Inr r)
  with assms show ?thesis
    by (auto simp: merge_def split: sum.split_asm prod.split_asm dest!: with_events_eqD)
qed

lemma merge_keeps:
  assumes "fst s k = Some v"
  shows "fst (snd (merge_op E c s)) k = Some v"
proof -
  obtain m oj where s: "s = (m, oj)" by fastforce
  obtain res m' oj' where run: "merge E (fst c) (snd c) (m, oj) = (res, (m', oj'))" by (metis prod.exhaust)
  show ?thesis
  proof (cases "m (snd c)")
    case None
    with merge_fresh_state [OF run None] run assms s show ?thesis by (auto simp: merge_op_def)
  next
    case (Some w)
    with run assms s show ?thesis by (cases w) (auto simp: merge_op_def merge_known)
  qed
qed

interpretation merging: keyed_once "\<lambda>s. fst s" "merge_digest E" "\<lambda>q s. True" "merge E" "merge_op E" for E
proof (unfold_locales, goal_cases)
  case (1 q s k r)
  then show ?case by (cases s) (simp add: merge_known)
next
  case (2 q s k i r)
  then show ?case by (cases s) (simp add: merge_known)
next
  case (3 q s k)
  then show ?case by simp
next
  case (4 q k s r s')
  obtain m oj m' oj' where s: "s = (m, oj)" "s' = (m', oj')" by fastforce
  show ?case
  proof (cases "m k")
    case None
    with 4 s merge_fresh_state [of E q k m oj "Inr r" m' oj'] show ?thesis by auto
  next
    case (Some w)
    with 4 s show ?thesis by (cases w) (auto simp: merge_known split: if_split_asm)
  qed
next
  case (5 s k v c)
  then show ?case by (rule merge_keeps)
next
  case (6 q s c)
  then show ?case by simp
qed

section \<open>A concrete merge\<close>

definition demo_block :: "string \<Rightarrow> string \<Rightarrow> int \<Rightarrow> parsed_block" where
  "demo_block i p n = \<lparr>pb_block_id = i, pb_page_id = p, pb_page_index0 = n, pb_order = 0, pb_kind = BK_PARAGRAPH,
     pb_text = i, pb_source_refs = [i], pb_heading_depth = None, pb_marginal_role = None,
     pb_table_identity = None, pb_table_row_count = 0\<rparr>"

definition demo_edge :: "string \<Rightarrow> string \<Rightarrow> edge_kind \<Rightarrow> continuity_edge" where
  "demo_edge a b k = \<lparr>ce_from_block_id = a, ce_to_block_id = b, ce_kind = k, ce_evidence = [demo_evidence]\<rparr>"

definition demo_blocks :: blocks_by_id where
  "demo_blocks = [(''a'', demo_block ''a'' ''p'' 0), (''b'', demo_block ''b'' ''q'' 1)]"

definition demo_merge :: merge_request where
  "demo_merge = \<lparr>mq_document_version_id = ''v'',
     mq_outputs = [\<lparr>so_shard_id = ''s'', so_primary_page_ids = [''p''], so_context_page_ids = [''q''],
         so_blocks = [demo_block ''a'' ''p'' 0, demo_block ''b'' ''q'' 1]\<rparr>,
       \<lparr>so_shard_id = ''t'', so_primary_page_ids = [''q''], so_context_page_ids = [],
         so_blocks = [demo_block ''b'' ''q'' 1]\<rparr>],
     mq_edges = [demo_edge ''a'' ''b'' EK_CONTINUES], mq_expected_page_ids = [''p'', ''q''],
     mq_occurred_at = Aware 0\<rparr>"

definition demo_merged :: "string \<Rightarrow> merged_block" where
  "demo_merged i = \<lparr>mb_merged_block_id = i, mb_kind = BK_FIGURE, mb_text = i, mb_page_ids = [i], mb_page_index0 = 0,
     mb_order = 0, mb_source_refs = [i], mb_provenance_block_ids = [i], mb_heading_depth = None,
     mb_table_identity = None, mb_table_row_count = 0\<rparr>"

lemma demo_links:
  "link_edges demo_digest_env demo_blocks (filter joins [demo_edge ''a'' ''b'' EK_CONTINUES]) [] []
     = Inr ([(''a'', ''b'')], [(''b'', ''a'')])"
  by (simp add: demo_blocks_def demo_edge_def joins_def join_check_def demo_block_def)

lemma demo_chains: "join_chains demo_digest_env demo_blocks [demo_edge ''a'' ''b'' EK_CONTINUES] = Inr [[''a'', ''b'']]"
proof -
  have 1: "chain_from [(''a'', ''b'')] ''a'' [] = Inr ([''a'', ''b''], [''b'', ''a''])"
    by (simp add: chain_from_step chain_from_end mapR_def)
  have "sort [''a'', ''b''] = [''a'', ''b'']" by code_simp
  then show ?thesis
    unfolding join_chains_def demo_links by (simp add: 1 mapR_def demo_blocks_def insert_commute)
qed

section \<open>Properties\<close>

text \<open>Fact: join chains. The chains of a successful join partition the blocks; each is linked edge by edge,
  starts at a block nothing continues into and ends at one nothing continues from. Once the edges pass
  their checks, the chains exist exactly when the join edges form no cycle.\<close>

theorem join_chains_partition:
  assumes "distinct (map fst blocks)"
  shows "(\<forall>chs. join_chains E blocks edges = Inr chs \<longrightarrow> distinct (concat chs) \<and> set (concat chs) = fst ` set blocks
      \<and> list_all (is_chain (join_pairs edges)) chs)
    \<and> (\<forall>links. link_edges E blocks (filter joins edges) [] [] = Inr links \<longrightarrow>
        ((\<exists>chs. join_chains E blocks edges = Inr chs) \<longleftrightarrow> acyclic (join_pairs edges)))"
proof (intro conjI allI impI)
  fix links assume "link_edges E blocks (filter joins edges) [] [] = Inr links"
  then have "link_edges E blocks (filter joins edges) [] [] = Inr (fst links, snd links)" by simp
  from join_chains_complete [OF this assms]
  show "(\<exists>chs. join_chains E blocks edges = Inr chs) \<longleftrightarrow> acyclic (join_pairs edges)" .
qed (use join_chains_sound in blast)+

theorem join_chains_partition_witness:
  "join_chains demo_digest_env demo_blocks [demo_edge ''a'' ''b'' EK_CONTINUES] = Inr [[''a'', ''b'']]
   \<and> is_chain (join_pairs [demo_edge ''a'' ''b'' EK_CONTINUES]) [''a'', ''b'']
   \<and> acyclic (join_pairs [demo_edge ''a'' ''b'' EK_CONTINUES])"
proof -
  have "distinct (map fst demo_blocks)" by (simp add: demo_blocks_def)
  note p = join_chains_partition [OF this, of demo_digest_env "[demo_edge ''a'' ''b'' EK_CONTINUES]"]
  show ?thesis using p demo_links demo_chains by fastforce
qed

text \<open>C34: relationship order. For merged blocks with distinct ids, a successful ordering is a
  permutation of them in which every block follows those it must follow (a caption its figure, a
  footnote its anchor, a block the header above it), and ordering fails exactly when the relationships
  form a cycle.\<close>

theorem relationships_topological:
  assumes dist: "distinct (map mb_merged_block_id merged)"
  shows "(\<forall>out. order_relationships merged edges = Inr out \<longrightarrow> mset out = mset merged
      \<and> (\<forall>(a, b) \<in> set (before_after merged edges).
          \<exists>xs ys zs. map mb_merged_block_id out = xs @ a # ys @ b # zs))
    \<and> ((\<exists>out. order_relationships merged edges = Inr out) \<longleftrightarrow> acyclic (set (before_after merged edges)))"
proof (intro conjI allI impI order_relationships_iff [OF dist])
  fix out assume "order_relationships merged edges = Inr out"
  from order_relationships_Inr [OF this] have m: "mset out = mset merged"
    and t: "topological (set (before_after merged edges)) {} (map mb_merged_block_id out)" by blast+
  have "\<exists>xs ys zs. map mb_merged_block_id out = xs @ a # ys @ b # zs" if "(a, b) \<in> set (before_after merged edges)" for a b
  proof -
    have "b \<in> mb_merged_block_id ` set merged" using that before_after_ids by blast
    then have "b \<in> set (map mb_merged_block_id out)" using mset_eq_setD [OF m] by simp
    with topological_before [OF t that] show ?thesis by simp
  qed
  then show "\<forall>(a, b) \<in> set (before_after merged edges).
      \<exists>xs ys zs. map mb_merged_block_id out = xs @ a # ys @ b # zs" by blast
  show "mset out = mset merged" by (rule m)
qed

text \<open>C33: conservation. When a merge returns, its blocks carry every owned block that is not a repeated
  marginal exactly once and all their table rows, so that neither conservation reason is ever reported;
  page coverage fails exactly when some expected page has no block of its owner; the result is accepted
  exactly without reasons, and only then has markdown.\<close>

theorem merge_conserves:
  assumes "merge_outcome E q = Inr r"
  shows "\<exists>owned. owned_blocks (mq_outputs q) = Inr owned
    \<and> mset (concat (map mb_provenance_block_ids (cm_blocks r))) = mset (map pb_block_id (active_of owned (repeated_marginals E owned)))
    \<and> sum_list (map mb_table_row_count (cm_blocks r)) = sum_list (map pb_table_row_count (active_of owned (repeated_marginals E owned)))
    \<and> ''block_count_conservation_failed'' \<notin> set (cm_reason_codes r)
    \<and> ''table_row_conservation_failed'' \<notin> set (cm_reason_codes r)
    \<and> (''page_coverage_failed'' \<in> set (cm_reason_codes r) \<longleftrightarrow> set (mq_expected_page_ids q) \<noteq> pb_page_id ` set owned)
    \<and> (cm_accepted r \<longleftrightarrow> cm_reason_codes r = []) \<and> (cm_markdown r \<noteq> None \<longleftrightarrow> cm_accepted r)"
proof -
  obtain owned where o: "owned_blocks (mq_outputs q) = Inr owned"
    and m: "merged_blocks E q owned (repeated_marginals E owned) = Inr (cm_blocks r)"
    and rs: "cm_reason_codes r = merge_reasons owned (cm_blocks r) (repeated_marginals E owned)
        (mq_expected_page_ids q) (markdown_of (cm_blocks r))"
    and acc: "cm_accepted r = (cm_reason_codes r = [])"
    and md: "cm_markdown r = (if cm_accepted r then Some (markdown_of (cm_blocks r)) else None)"
    and "cm_dropped_marginal_block_ids r = sorted_set (repeated_marginals E owned)"
    by (rule merge_outcome_Inr [OF assms])
  let ?d = "repeated_marginals E owned"
  have dist: "distinct (map pb_block_id owned)" using owned_blocks_Inr [OF o] by blast
  note c = merged_blocks_Inr [OF m dist]
  have prov: "set (concat (map mb_provenance_block_ids (cm_blocks r))) = set (map pb_block_id owned) - set ?d"
    using mset_eq_setD [OF c [THEN conjunct1]] by (auto simp: active_of_def)
  have "distinct (map pb_block_id (active_of owned ?d))"
    using dist by (simp add: active_of_def distinct_map_filter)
  then have "distinct (concat (map mb_provenance_block_ids (cm_blocks r)))"
    using c by (metis mset_eq_imp_distinct_iff)
  note d = this
  have 1: "''block_count_conservation_failed'' \<notin> set (cm_reason_codes r)"
    unfolding rs using prov d by (blast dest: merge_reasons_mem)
  have 3: "''table_row_conservation_failed'' \<notin> set (cm_reason_codes r)"
    unfolding rs using c [THEN conjunct2, THEN conjunct1] by (auto dest!: merge_reasons_mem)
  have "set (concat (map mb_page_ids (cm_blocks r))) \<union> set (map pb_page_id (filter (\<lambda>b. pb_block_id b \<in> set ?d) owned))
      = pb_page_id ` set owned"
    using c by (auto simp: active_of_def)
  then have 2: "''page_coverage_failed'' \<in> set (cm_reason_codes r) \<longleftrightarrow> set (mq_expected_page_ids q) \<noteq> pb_page_id ` set owned"
    unfolding rs page_reason by simp
  have md': "cm_markdown r \<noteq> None \<longleftrightarrow> cm_accepted r" using md by simp
  show ?thesis
    by (rule exI [of _ owned], intro conjI; use o c 1 2 3 acc md' in blast)
qed

text \<open>Fact: repeated marginals. Exactly the header and footer blocks whose normalised content recurs on
  another page are dropped.\<close>

theorem marginals_dropped:
  "i \<in> set (repeated_marginals E bs) \<longleftrightarrow> (\<exists>b \<in> set bs. pb_block_id b = i \<and> marginal_group E b \<noteq> None
     \<and> (\<exists>b' \<in> set bs. marginal_group E b' = marginal_group E b \<and> pb_page_id b' \<noteq> pb_page_id b))"
  by (rule repeated_marginals_iff)

text \<open>Fact: a merge is executed once per key. Once it returned, the same request under that key returns the
  same result and changes nothing, whatever was merged in between, and another request is refused.\<close>

theorem merged_once:
  assumes "merge E q k s = (Inr r, s1)"
  shows "merge E q k (run_ops (merge_op E) cs s1) = (Inr r, run_ops (merge_op E) cs s1)
    \<and> (merge_digest E q' \<noteq> merge_digest E q \<longrightarrow>
        (\<exists>e. merge E q' k (run_ops (merge_op E) cs s1) = (Inl e, run_ops (merge_op E) cs s1)))"
  using merging.replay_after [OF assms] merging.conflict_after [OF assms] by blast

lemma demo_order: "order_relationships [demo_merged ''c'', demo_merged ''f''] [demo_edge ''c'' ''f'' EK_CAPTION_OF]
   = Inr [demo_merged ''f'', demo_merged ''c'']"
  by code_simp

theorem relationships_topological_witness:
  "order_relationships [demo_merged ''c'', demo_merged ''f''] [demo_edge ''c'' ''f'' EK_CAPTION_OF]
     = Inr [demo_merged ''f'', demo_merged ''c'']
   \<and> mset [demo_merged ''f'', demo_merged ''c''] = mset [demo_merged ''c'', demo_merged ''f'']
   \<and> acyclic (set (before_after [demo_merged ''c'', demo_merged ''f''] [demo_edge ''c'' ''f'' EK_CAPTION_OF]))"
proof -
  have "distinct (map mb_merged_block_id [demo_merged ''c'', demo_merged ''f''])" by (simp add: demo_merged_def)
  with relationships_topological demo_order show ?thesis by blast
qed

lemma demo_merge_outcome:
  "\<exists>r. merge_outcome demo_digest_env demo_merge = Inr r"
proof -
  have "(case merge_outcome demo_digest_env demo_merge of Inl e \<Rightarrow> False | Inr r \<Rightarrow> True)"
    by code_simp
  then show ?thesis by (auto split: sum.split_asm)
qed

theorem merge_conserves_witness:
  "\<exists>r. merge_outcome demo_digest_env demo_merge = Inr r \<and> ''table_row_conservation_failed'' \<notin> set (cm_reason_codes r)"
  using demo_merge_outcome merge_conserves by blast

theorem merged_once_witness:
  "\<exists>r. merge demo_digest_env demo_merge ''k'' (Map.empty, None) = (Inr r, ([''k'' \<mapsto> (merge_digest demo_digest_env demo_merge, r)], None))
     \<and> fst (merge demo_digest_env demo_merge ''k'' ([''k'' \<mapsto> (merge_digest demo_digest_env demo_merge, r)], None)) = Inr r"
proof -
  obtain r where r: "merge_outcome demo_digest_env demo_merge = Inr r" using demo_merge_outcome by blast
  have m: "merge demo_digest_env demo_merge ''k'' (Map.empty, None) = (Inr r, ([''k'' \<mapsto> (merge_digest demo_digest_env demo_merge, r)], None))"
    by (simp add: merge_def r with_events_def merge_completed_def)
  from merged_once [OF m, of "[]"] m show ?thesis by simp
qed

end
