(* ===== verification/JsonText.thy ===== *)
theory JsonText
  imports Journal
begin

text \<open>
  Reading canonical JSON back. \<open>DomainEvent.payload\<close> of
  \<^verbatim>\<open>akc_parallel_runtime/contracts.py\<close> decodes the text the journal stored; \<open>loads\<close> is
  \<open>json.loads\<close> on texts without white space and without floats, which is what \<open>dumps\<close> writes for
  trees without floats. A later key of an object replaces an earlier one, as in a Python dict. The
  fuel of the reader is the length of the text, which is never exhausted on such texts.
\<close>

section \<open>json.loads\<close>

definition is_digit :: "char \<Rightarrow> bool" where
  "is_digit c \<longleftrightarrow> 48 \<le> (of_char c :: nat) \<and> (of_char c :: nat) \<le> 57"

fun read_digits :: "nat \<Rightarrow> string \<Rightarrow> nat \<times> string" where
  "read_digits n [] = (n, [])"
| "read_digits n (c # cs) = (if is_digit c then read_digits (10 * n + (of_char c - 48)) cs else (n, c # cs))"

definition hex_code :: "char \<Rightarrow> nat option" where
  "hex_code c = (let n = of_char c :: nat in
     if 48 \<le> n \<and> n \<le> 57 then Some (n - 48)
     else if 97 \<le> n \<and> n \<le> 102 then Some (n - 87)
     else if 65 \<le> n \<and> n \<le> 70 then Some (n - 55) else None)"

text \<open>A \<open>\uXXXX\<close> escape; only code points below 256 are characters of the model.\<close>

definition hex_char :: "char \<Rightarrow> char \<Rightarrow> char \<Rightarrow> char \<Rightarrow> char option" where
  "hex_char a b c d = (case (hex_code a, hex_code b, hex_code c, hex_code d) of
     (Some w, Some x, Some y, Some z) \<Rightarrow>
       (let n = ((w * 16 + x) * 16 + y) * 16 + z in if n < 256 then Some (char_of n) else None)
   | _ \<Rightarrow> None)"

definition unescape :: "char \<Rightarrow> char option" where
  "unescape c =
    (if c = CHR 0x22 \<or> c = CHR 0x5C \<or> c = CHR ''/'' then Some c
     else if c = CHR ''n'' then Some (char_of (10 :: nat)) else if c = CHR ''r'' then Some (char_of (13 :: nat))
     else if c = CHR ''t'' then Some (char_of (9 :: nat)) else if c = CHR ''f'' then Some (char_of (12 :: nat))
     else if c = CHR ''b'' then Some (char_of (8 :: nat)) else None)"

text \<open>The characters of a string up to its closing quote; raw control characters are refused.\<close>

fun read_chars :: "string \<Rightarrow> (string \<times> string) option" where
  "read_chars [] = None"
| "read_chars (c # cs) =
    (if c = CHR 0x22 then Some ([], cs)
     else if c = CHR 0x5C then
      (case cs of
        e # r \<Rightarrow>
          (if e = CHR ''u'' then
            (case r of
              h1 # h2 # h3 # h4 # r' \<Rightarrow>
                (case hex_char h1 h2 h3 h4 of None \<Rightarrow> None
                 | Some x \<Rightarrow> map_option (\<lambda>(s, t). (x # s, t)) (read_chars r'))
             | _ \<Rightarrow> None)
           else (case unescape e of None \<Rightarrow> None
             | Some x \<Rightarrow> map_option (\<lambda>(s, t). (x # s, t)) (read_chars r)))
      | [] \<Rightarrow> None)
     else if (of_char c :: nat) < 32 then None
     else map_option (\<lambda>(s, t). (c # s, t)) (read_chars cs))"

definition read_word :: "string \<Rightarrow> jval \<Rightarrow> string \<Rightarrow> (jval \<times> string) option" where
  "read_word w v s = (if take (length w) s = w then Some (v, drop (length w) s) else None)"

definition dict_of :: "(string \<times> jval) list \<Rightarrow> (string \<times> jval) list" where
  "dict_of kvs = foldl (\<lambda>d (k, v). AList.update k v d) [] kvs"

fun read_value :: "nat \<Rightarrow> string \<Rightarrow> (jval \<times> string) option"
  and read_items :: "nat \<Rightarrow> string \<Rightarrow> (jval list \<times> string) option"
  and read_members :: "nat \<Rightarrow> string \<Rightarrow> ((string \<times> jval) list \<times> string) option" where
  "read_value 0 s = None"
| "read_value (Suc n) s = (case s of [] \<Rightarrow> None | c # r \<Rightarrow>
    (if c = CHR 0x22 then map_option (\<lambda>(x, t). (JStr x, t)) (read_chars r)
     else if c = CHR ''['' then
      (if take 1 r = '']'' then Some (JList [], drop 1 r)
       else map_option (\<lambda>(xs, t). (JList xs, t)) (read_items n r))
     else if c = CHR ''{'' then
      (if take 1 r = ''}'' then Some (JObj [], drop 1 r)
       else map_option (\<lambda>(kvs, t). (JObj (dict_of kvs), t)) (read_members n r))
     else if c = CHR ''n'' then read_word ''null'' JNull s
     else if c = CHR ''t'' then read_word ''true'' (JBool True) s
     else if c = CHR ''f'' then read_word ''false'' (JBool False) s
     else if c = CHR ''-'' then
      (if r \<noteq> [] \<and> is_digit (hd r) then (case read_digits 0 r of (k, t) \<Rightarrow> Some (JInt (- int k), t)) else None)
     else if is_digit c then (case read_digits 0 s of (k, t) \<Rightarrow> Some (JInt (int k), t))
     else None))"
| "read_items 0 s = None"
| "read_items (Suc n) s = (case read_value n s of
     Some (v, c # r) \<Rightarrow>
       (if c = CHR '','' then map_option (\<lambda>(vs, t). (v # vs, t)) (read_items n r)
        else if c = CHR '']'' then Some ([v], r) else None)
   | _ \<Rightarrow> None)"
| "read_members 0 s = None"
| "read_members (Suc n) s = (case s of
     q # s' \<Rightarrow> (if q \<noteq> CHR 0x22 then None else
      (case read_chars s' of
        Some (k, colon # r) \<Rightarrow> (if colon \<noteq> CHR '':'' then None else
         (case read_value n r of
           Some (v, c # r') \<Rightarrow>
             (if c = CHR '','' then map_option (\<lambda>(kvs, t). ((k, v) # kvs, t)) (read_members n r')
              else if c = CHR ''}'' then Some ([(k, v)], r') else None)
         | _ \<Rightarrow> None))
      | _ \<Rightarrow> None))
   | [] \<Rightarrow> None)"

definition loads :: "string \<Rightarrow> jval option" where
  "loads s = (case read_value (length s) s of Some (v, []) \<Rightarrow> Some v | _ \<Rightarrow> None)"

text \<open>\<open>DomainEvent.payload\<close>.\<close>

definition event_payload :: "domain_event \<Rightarrow> pyerr + (string \<times> jval) list" where
  "event_payload e = (case loads (ev_payload_json e) of
     None \<Rightarrow> Inl (ValueError ''JSONDecodeError'')
   | Some (JObj kvs) \<Rightarrow> Inr kvs
   | Some _ \<Rightarrow> Inl (PyRuntimeError ''domain event payload must decode to an object''))"

section \<open>Reading back the pieces\<close>

lemma read_digits_append:
  "(\<And>c. c \<in> set ds \<Longrightarrow> is_digit c) \<Longrightarrow> rest = [] \<or> \<not> is_digit (hd rest) \<Longrightarrow>
   read_digits n (ds @ rest) = (foldl (\<lambda>n c. 10 * n + (of_char c - 48)) n ds, rest)"
  by (induction ds arbitrary: n) (cases rest; auto)+

lemma nat_str_digits: "c \<in> set (nat_str n) \<Longrightarrow> is_digit c"
proof (induction n rule: nat_str.induct)
  case (1 n)
  have d: "is_digit (char_of (48 + k))" if "k < 10" for k :: nat
    using that by (simp add: is_digit_def)
  show ?case
  proof (cases "n < 10")
    case True
    with 1(2) d show ?thesis by (simp add: nat_str.simps [of n])
  next
    case False
    with 1 d [of "n mod 10"] show ?thesis by (auto simp: nat_str.simps [of n])
  qed
qed

lemma nat_str_value: "foldl (\<lambda>n c. 10 * n + (of_char c - 48)) 0 (nat_str n) = n"
proof (induction n rule: nat_str.induct)
  case (1 n)
  show ?case
  proof (cases "n < 10")
    case True
    then show ?thesis by (simp add: nat_str.simps [of n])
  next
    case False
    have "n mod 10 < 10" by simp
    then have "of_char (char_of (48 + n mod 10) :: char) = 48 + n mod 10"
      by (simp only: of_char_of) simp
    with 1 False show ?thesis by (simp add: nat_str.simps [of n])
  qed
qed

lemma nat_str_nonempty [simp]: "nat_str n \<noteq> []"
  by (subst nat_str.simps) simp

lemma read_nat_str:
  "rest = [] \<or> \<not> is_digit (hd rest) \<Longrightarrow> read_digits 0 (nat_str n @ rest) = (n, rest)"
  by (simp add: read_digits_append nat_str_digits nat_str_value)

lemma hex_value_digit: "n < 16 \<Longrightarrow> hex_code (hex_digit n) = Some n"
  by (auto simp: hex_code_def hex_digit_def Let_def)

lemma read_esc_char: "read_chars (esc_char c @ r) = map_option (\<lambda>(s, t). (c # s, t)) (read_chars r)"
proof -
  let ?n = "of_char c :: nat"
  have c: "?n = k \<Longrightarrow> c = char_of k" for k by (metis char_of_char)
  consider (quote) "c = CHR 0x22 \<or> c = CHR 0x5C" | (short) "c \<noteq> CHR 0x22" "c \<noteq> CHR 0x5C" "?n \<in> {10, 13, 9, 12, 8}"
    | (hex) "c \<noteq> CHR 0x22" "c \<noteq> CHR 0x5C" "?n \<notin> {10, 13, 9, 12, 8}" "?n < 32"
    | (plain) "c \<noteq> CHR 0x22" "c \<noteq> CHR 0x5C" "\<not> ?n < 32"
    by blast
  then show ?thesis
  proof cases
    case quote
    then show ?thesis by (auto simp: esc_char_def Let_def unescape_def)
  next
    case short
    then show ?thesis by (auto simp: esc_char_def Let_def unescape_def dest: c)
  next
    case hex
    have "hex_code (CHR ''0'') = Some 0" by (simp add: hex_code_def)
    moreover have "hex_code (hex_digit (?n div 16)) = Some (?n div 16)"
      "hex_code (hex_digit (?n mod 16)) = Some (?n mod 16)"
      using hex(4) by (auto intro!: hex_value_digit)
    ultimately have "hex_char (CHR ''0'') (CHR ''0'') (hex_digit (?n div 16)) (hex_digit (?n mod 16)) = Some c"
      by (simp add: hex_char_def Let_def)
    with hex show ?thesis by (simp add: esc_char_def Let_def)
  next
    case plain
    then show ?thesis by (auto simp: esc_char_def Let_def)
  qed
qed

lemma read_json_str: "read_chars (drop 1 (json_str s) @ r) = Some (s, r)"
proof -
  have "read_chars (concat (map esc_char s) @ CHR 0x22 # r) = Some (s, r)"
    by (induction s) (simp_all add: read_esc_char)
  then show ?thesis by (simp add: json_str_def)
qed

lemma json_str_Cons: "json_str s = CHR 0x22 # drop 1 (json_str s)"
  by (simp add: json_str_def)

section \<open>Reading back trees\<close>

text \<open>Trees without floats whose objects have distinct, respectively strictly sorted, keys.\<close>

fun plain_json :: "jval \<Rightarrow> bool" where
  "plain_json (JFloat r) = False"
| "plain_json (JList xs) = list_all plain_json xs"
| "plain_json (JObj kvs) = (distinct (map fst kvs) \<and> list_all (\<lambda>p. plain_json (snd p)) kvs)"
| "plain_json _ = True"

fun sorted_json :: "jval \<Rightarrow> bool" where
  "sorted_json (JFloat r) = False"
| "sorted_json (JList xs) = list_all sorted_json xs"
| "sorted_json (JObj kvs) = (distinct (map fst kvs) \<and> sorted (map fst kvs) \<and> list_all (\<lambda>p. sorted_json (snd p)) kvs)"
| "sorted_json _ = True"

lemma plain_sorted: "plain_json j \<Longrightarrow> sorted_json (jcanon j)"
proof (induction j rule: plain_json.induct)
  case (3 kvs)
  let ?l = "map (\<lambda>(k, v). (k, jcanon v)) kvs"
  have keys: "map fst ?l = map fst kvs" by (induction kvs) auto
  have "mset (map fst (sort_key fst ?l)) = mset (map fst kvs)" using keys by (metis mset_map mset_sort)
  then have "distinct (map fst (sort_key fst ?l))" using 3(2) by (metis mset_eq_imp_distinct_iff plain_json.simps(3))
  moreover have "list_all (\<lambda>p. sorted_json (snd p)) (sort_key fst ?l)"
    using 3 by (force simp: list_all_iff)
  ultimately show ?case by simp
qed (auto simp: list_all_iff)

lemma dict_of_distinct: "distinct (map fst kvs) \<Longrightarrow> dict_of kvs = kvs"
proof -
  have "distinct (map fst (d @ kvs)) \<Longrightarrow> foldl (\<lambda>d (k, v). AList.update k v d) d kvs = d @ kvs" for d
  proof (induction kvs arbitrary: d)
    case (Cons p kvs)
    obtain k v where p: "p = (k, v)" by fastforce
    have "map_of d k = None" using Cons.prems p by (auto simp: map_of_eq_None_iff)
    with Cons.IH [of "d @ [(k, v)]"] Cons.prems p show ?case by (simp add: update_new)
  qed simp
  from this [of "[]"] show "distinct (map fst kvs) \<Longrightarrow> dict_of kvs = kvs" by (simp add: dict_of_def)
qed

definition ends_number :: "string \<Rightarrow> bool" where
  "ends_number rest \<longleftrightarrow> rest = [] \<or> \<not> is_digit (hd rest)"

definition member_text :: "renv \<Rightarrow> string \<times> jval \<Rightarrow> string" where
  "member_text E p = json_str (fst p) @ '':'' @ dumps E (snd p)"

lemma dumps_sorted_obj:
  assumes "sorted (map fst kvs)"
  shows "dumps E (JObj kvs) = ''{'' @ join_with '','' (map (member_text E) kvs) @ ''}''"
proof -
  have "sorted (map fst (map (\<lambda>(k, v). (k, dumps E v)) kvs))"
    using assms by (simp add: comp_def case_prod_beta')
  from sort_key_sorted [OF this] show ?thesis
    by (simp add: dumps.simps member_text_def [abs_def] comp_def case_prod_beta')
qed

text \<open>What reading back one tree means; the fuel is at least the length of its text.\<close>

definition reads_back :: "renv \<Rightarrow> jval \<Rightarrow> bool" where
  "reads_back E j \<longleftrightarrow> (\<forall>n rest. length (dumps E j) \<le> n \<longrightarrow> ends_number rest \<longrightarrow>
     read_value n (dumps E j @ rest) = Some (j, rest))"

lemma read_items_back:
  assumes "xs \<noteq> []" and "\<And>x. x \<in> set xs \<Longrightarrow> reads_back E x"
    and "length (join_with '','' (map (dumps E) xs)) < n"
  shows "read_items n (join_with '','' (map (dumps E) xs) @ CHR '']'' # rest) = Some (xs, rest)"
  using assms
proof (induction xs arbitrary: n)
  case (Cons x xs)
  obtain m where n: "n = Suc m" using Cons.prems(3) by (cases n) auto
  have e: "ends_number (CHR '']'' # r)" "ends_number (CHR '','' # r)" for r
    by (simp_all add: ends_number_def is_digit_def)
  have rx: "length (dumps E x) \<le> m \<Longrightarrow> ends_number r \<Longrightarrow> read_value m (dumps E x @ r) = Some (x, r)" for r
    using Cons.prems(2) [of x] by (simp add: reads_back_def)
  show ?case
  proof (cases xs)
    case Nil
    with Cons.prems(3) n rx [OF _ e(1)] show ?thesis by simp
  next
    case (Cons y ys)
    let ?j = "join_with '','' (map (dumps E) xs)"
    have j: "join_with '','' (map (dumps E) (x # xs)) = dumps E x @ CHR '','' # ?j" using Cons by simp
    have len: "length (dumps E x) \<le> m" "length ?j < m" using Cons.prems(3) n unfolding j by simp_all
    have "read_items m (?j @ CHR '']'' # rest) = Some (xs, rest)"
      using Cons.IH [of m] Cons.prems(2) len(2) Cons by simp
    then show ?thesis using rx [OF len(1) e(2)] unfolding n j by simp
  qed
qed simp

lemma read_members_back:
  assumes "kvs \<noteq> []" and "\<And>p. p \<in> set kvs \<Longrightarrow> reads_back E (snd p)"
    and "length (join_with '','' (map (member_text E) kvs)) < n"
  shows "read_members n (join_with '','' (map (member_text E) kvs) @ CHR ''}'' # rest) = Some (kvs, rest)"
  using assms
proof (induction kvs arbitrary: n)
  case (Cons p kvs)
  obtain m where n: "n = Suc m" using Cons.prems(3) by (cases n) auto
  obtain k v where p: "p = (k, v)" by fastforce
  have e: "ends_number (CHR ''}'' # r)" "ends_number (CHR '','' # r)" for r
    by (simp_all add: ends_number_def is_digit_def)
  have rv: "length (dumps E v) \<le> m \<Longrightarrow> ends_number r \<Longrightarrow> read_value m (dumps E v @ r) = Some (v, r)" for r
    using Cons.prems(2) [of p] by (simp add: reads_back_def p)
  have m: "member_text E (k, v) @ r = CHR 0x22 # drop 1 (json_str k) @ CHR '':'' # dumps E v @ r" for r
    by (simp add: member_text_def json_str_def)
  have rc: "read_chars (drop 1 (json_str k) @ r) = Some (k, r)" for r by (rule read_json_str)
  show ?case
  proof (cases kvs)
    case Nil
    with Cons.prems(3) n have "length (dumps E v) \<le> m" by (simp add: member_text_def p)
    from rv [OF this e(1)] Nil show ?thesis unfolding n by (simp add: m rc p del: drop_Suc_Cons One_nat_def)
  next
    case (Cons p' kvs')
    let ?j = "join_with '','' (map (member_text E) kvs)"
    have j: "join_with '','' (map (member_text E) (p # kvs)) = member_text E p @ CHR '','' # ?j" using Cons by simp
    have len: "length (dumps E v) \<le> m" "length ?j < m" using Cons.prems(3) n unfolding j by (simp_all add: member_text_def p)
    have "read_members m (?j @ CHR ''}'' # rest) = Some (kvs, rest)"
      using Cons.IH [of m] Cons.prems(2) len(2) Cons by simp
    then show ?thesis using rv [OF len(1) e(2)] unfolding n j
      by (simp add: m rc p del: drop_Suc_Cons One_nat_def)
  qed
qed simp

lemma read_int_str:
  assumes "length (int_str i) \<le> n" and "ends_number rest"
  shows "read_value n (int_str i @ rest) = Some (JInt i, rest)"
proof -
  obtain m where n: "n = Suc m" using assms(1) by (cases n) (auto simp: int_str_def split: if_split_asm)
  have r: "read_digits 0 (nat_str k @ rest) = (k, rest)" for k
    using assms(2) by (intro read_nat_str) (simp add: ends_number_def)
  obtain d ds where d: "nat_str (nat \<bar>i\<bar>) = d # ds" by (meson nat_str_nonempty neq_Nil_conv)
  with nat_str_digits [of d "nat \<bar>i\<bar>"] have dig: "is_digit d" by simp
  then have "d \<notin> {CHR 0x22, CHR ''['', CHR ''{'', CHR ''n'', CHR ''t'', CHR ''f'', CHR ''-''}"
    by (auto simp: is_digit_def)
  with r [of "nat \<bar>i\<bar>"] d dig show ?thesis by (cases "i < 0") (simp_all add: int_str_def n)
qed

lemma dumps_head: "sorted_json j \<Longrightarrow> dumps E j \<noteq> [] \<and> hd (dumps E j) \<noteq> CHR '']''"
proof (cases j)
  case (JInt i)
  have "hd (nat_str k) \<noteq> CHR '']''" for k
    using nat_str_digits [of "hd (nat_str k)" k] by (auto simp: is_digit_def)
  with JInt show ?thesis by (simp add: dumps.simps int_str_def)
qed (simp_all add: dumps.simps json_str_def)

lemma reads_backI:
  assumes "dumps E j \<noteq> []" and "\<And>m rest. read_value (Suc m) (dumps E j @ rest) = Some (j, rest)"
  shows "reads_back E j"
  unfolding reads_back_def
proof (intro allI impI)
  fix n rest assume "length (dumps E j) \<le> n"
  then obtain m where "n = Suc m" using assms(1) by (cases n) auto
  then show "read_value n (dumps E j @ rest) = Some (j, rest)" using assms(2) by simp
qed

lemma sorted_reads_back: "sorted_json j \<Longrightarrow> reads_back E j"
proof (induction j rule: sorted_json.induct)
  case (2 xs)
  show ?case
    unfolding reads_back_def
  proof (intro allI impI)
    fix n rest assume len: "length (dumps E (JList xs)) \<le> n"
    obtain m where n: "n = Suc m" using len by (cases n) (auto simp: dumps.simps)
    show "read_value n (dumps E (JList xs) @ rest) = Some (JList xs, rest)"
    proof (cases xs)
      case Nil
      then show ?thesis by (simp add: n dumps.simps)
    next
      case (Cons x ys)
      let ?j = "join_with '','' (map (dumps E) xs)"
      have "read_items m (?j @ CHR '']'' # rest) = Some (xs, rest)"
        by (rule read_items_back) (use Cons 2 len n in \<open>auto simp: dumps.simps list_all_iff\<close>)
      moreover have "take 1 (?j @ CHR '']'' # rest) \<noteq> '']''"
        using 2(2) Cons dumps_head [of x E] by (cases ys; cases "dumps E x") auto
      ultimately show ?thesis by (simp add: n dumps.simps)
    qed
  qed
next
  case (3 kvs)
  show ?case
    unfolding reads_back_def
  proof (intro allI impI)
    fix n rest assume len: "length (dumps E (JObj kvs)) \<le> n"
    have s: "dumps E (JObj kvs) = ''{'' @ join_with '','' (map (member_text E) kvs) @ ''}''"
      using 3(2) by (intro dumps_sorted_obj) simp
    obtain m where n: "n = Suc m" using len s by (cases n) auto
    show "read_value n (dumps E (JObj kvs) @ rest) = Some (JObj kvs, rest)"
    proof (cases kvs)
      case Nil
      then show ?thesis by (simp add: n dumps.simps)
    next
      case (Cons p ys)
      let ?j = "join_with '','' (map (member_text E) kvs)"
      have "read_members m (?j @ CHR ''}'' # rest) = Some (kvs, rest)"
      proof (rule read_members_back)
        fix p assume p: "p \<in> set kvs"
        then have "sorted_json (snd p)" using 3(2) by (simp add: list_all_iff)
        with p show "reads_back E (snd p)" using 3(1) by (metis prod.collapse)
      qed (use Cons len n s in auto)
      moreover have "take 1 (?j @ CHR ''}'' # rest) \<noteq> ''}''"
        using Cons by (cases ys) (simp_all add: member_text_def json_str_def)
      ultimately show ?thesis using 3(2) by (simp add: n s dict_of_distinct)
    qed
  qed
next
  case "4_1"
  show ?case by (rule reads_backI) (simp_all add: dumps.simps read_word_def)
next
  case "4_2"
  show ?case by (rule reads_backI) (simp_all add: dumps.simps read_word_def)
next
  case "4_3"
  then show ?case by (simp add: reads_back_def dumps.simps read_int_str)
next
  case "4_4"
  have str: "read_value (Suc m) (json_str x @ rest) = Some (JStr x, rest)" for x m rest
    using read_json_str [of x rest] by (subst json_str_Cons) simp
  from str show ?case by (intro reads_backI) (simp_all add: dumps.simps json_str_def)
qed simp

lemma loads_dumps: "plain_json j \<Longrightarrow> loads (dumps E j) = Some (jcanon j)"
proof -
  assume "plain_json j"
  then have "reads_back E (jcanon j)" by (intro sorted_reads_back plain_sorted)
  then have "read_value (length (dumps E j)) (dumps E j @ []) = Some (jcanon j, [])"
    unfolding reads_back_def dumps_jcanon by (simp add: ends_number_def)
  then show ?thesis by (simp add: loads_def)
qed

section \<open>Properties\<close>

text \<open>C11: canonical JSON reads back. The canonical text of a tree without floats whose objects have
  distinct keys decodes to the tree with its keys sorted, whatever digest and rendering functions are
  used; so two such trees with the same text, and hence with the same digest input, differ in the order
  of their keys only.\<close>

theorem canonical_json_roundtrip:
  assumes "plain_json j"
  shows "loads (dumps E j) = Some (jcanon j)
    \<and> (\<forall>j'. plain_json j' \<longrightarrow> dumps E j' = dumps E j \<longrightarrow> jcanon j' = jcanon j)"
  using loads_dumps [OF assms, of E] loads_dumps [of _ E] by (metis option.inject)

theorem canonical_json_roundtrip_witness:
  "loads (dumps demo_renv (JObj [(''b'', JList [JInt (-3), JStr ''q'']), (''a'', JNull)]))
     = Some (JObj [(''a'', JNull), (''b'', JList [JInt (-3), JStr ''q''])])"
proof -
  have "plain_json (JObj [(''b'', JList [JInt (-3), JStr ''q'']), (''a'', JNull)])" by simp
  from canonical_json_roundtrip [OF this, of demo_renv] show ?thesis by simp
qed

text \<open>Fact: a stored payload decodes. The event that a fresh append stores decodes to the very payload it
  was given, keys sorted: \<open>payload\<close> never raises on it.\<close>

theorem payload_roundtrip:
  assumes "journal_append E ty agg payload occ key j = (Inr ev, j')" and "j_keys j key = None"
    and "normalize E (PMap (map (\<lambda>(k, v). (PStr k, v)) payload)) = Inr p" and "plain_json p"
  shows "ev \<in> set (j_events j') \<and> (\<exists>kvs. jcanon p = JObj kvs \<and> event_payload ev = Inr kvs)"
proof -
  have ev: "ev_payload_json ev = dumps E p" "ev \<in> set (j_events j')"
    using assms by (auto simp: journal_append_def Let_def split: if_split_asm)
  obtain kvs where "jcanon p = JObj kvs" using assms(3) by (auto simp: mapR_def split: sum.split_asm)
  with loads_dumps [OF assms(4), of E] ev show ?thesis by (simp add: event_payload_def)
qed

theorem payload_roundtrip_witness:
  "\<exists>ev j'. journal_append demo_renv ''shard.planned.v1'' ''s'' [(''n'', PInt 7)] (Aware 0) ''k'' new_journal = (Inr ev, j')
     \<and> event_payload ev = Inr [(''n'', JInt 7)]"
proof -
  have n: "normalize demo_renv (PMap (map (\<lambda>(k, v). (PStr k, v)) [(''n'', PInt 7)])) = Inr (JObj [(''n'', JInt 7)])"
    by (simp add: mapR_def pairE_def str_key_def)
  have k: "j_keys new_journal ''k'' = None" by (simp add: new_journal_def)
  obtain ev j' where a: "journal_append demo_renv ''shard.planned.v1'' ''s'' [(''n'', PInt 7)] (Aware 0) ''k'' new_journal = (Inr ev, j')"
    using n by (simp add: journal_append_def new_journal_def Let_def event_types_def)
  from payload_roundtrip [OF a k n] a show ?thesis by simp
qed

end
