(* ===== verification/Search.thy ===== *)
theory Search
  imports Prelude
begin

text \<open>
  The contract of a breadth-first search with an optional depth limit, as a locale: what the set of
  reached nodes and the queue of a FIFO search satisfy at every pass, and that a search which keeps
  it ends with exactly the nodes within the limit, each at its distance from the seeds. The
  dependency graph interprets it for the impact of a change and for the provenance of a node.
\<close>

locale layered_search =
  fixes step :: "('n \<times> 'n) set" and seeds :: "'n set" and expands :: "nat \<Rightarrow> bool"
  assumes expands_down: "expands (Suc d) \<Longrightarrow> expands d"
begin

lemma expands_le: "expands d \<Longrightarrow> k \<le> d \<Longrightarrow> expands k"
  by (induction d) (auto simp: le_Suc_eq intro: expands_down)

text \<open>Distance from the seeds, and the nodes a search that stops at the limit has to find.\<close>

definition at_distance :: "'n \<Rightarrow> nat \<Rightarrow> bool" where
  "at_distance v d \<longleftrightarrow> (\<exists>s \<in> seeds. (s, v) \<in> step ^^ d) \<and> (\<forall>k < d. \<forall>s \<in> seeds. (s, v) \<notin> step ^^ k)"

definition within_limit :: "'n \<Rightarrow> nat \<Rightarrow> bool" where
  "within_limit v d \<longleftrightarrow> at_distance v d \<and> (\<forall>k < d. expands k)"

lemma at_distance_unique: "at_distance v d \<Longrightarrow> at_distance v k \<Longrightarrow> d = k"
  unfolding at_distance_def by (metis linorder_neqE_nat)

lemma at_distance_0: "at_distance v 0 \<longleftrightarrow> v \<in> seeds"
  by (simp add: at_distance_def)

lemma reachable_distance: "(\<exists>d. at_distance v d) \<longleftrightarrow> v \<in> step\<^sup>* `` seeds"
proof
  assume "v \<in> step\<^sup>* `` seeds"
  then have "\<exists>d. \<exists>s \<in> seeds. (s, v) \<in> step ^^ d" unfolding Image_iff rtrancl_power by blast
  then obtain d where "\<exists>s \<in> seeds. (s, v) \<in> step ^^ d" and "\<forall>k < d. \<not> (\<exists>s \<in> seeds. (s, v) \<in> step ^^ k)"
    using exists_least_iff [of "\<lambda>d. \<exists>s \<in> seeds. (s, v) \<in> step ^^ d"] by blast
  then show "\<exists>d. at_distance v d" unfolding at_distance_def by blast
next
  assume "\<exists>d. at_distance v d"
  then show "v \<in> step\<^sup>* `` seeds" unfolding at_distance_def Image_iff rtrancl_power by blast
qed

lemma positive_distance: "(\<exists>d. 0 < d \<and> at_distance v d) \<longleftrightarrow> v \<in> step\<^sup>* `` seeds - seeds"
proof
  assume "\<exists>d. 0 < d \<and> at_distance v d"
  then obtain d where d: "0 < d" "at_distance v d" by blast
  then have "v \<notin> seeds" using at_distance_0 at_distance_unique by blast
  with d(2) show "v \<in> step\<^sup>* `` seeds - seeds" using reachable_distance by blast
next
  assume v: "v \<in> step\<^sup>* `` seeds - seeds"
  then obtain d where d: "at_distance v d" using reachable_distance by blast
  have "d \<noteq> 0"
  proof
    assume "d = 0"
    with d v show False by (simp add: at_distance_0)
  qed
  with d show "\<exists>d. 0 < d \<and> at_distance v d" by blast
qed

text \<open>The loop invariant: \<open>D\<close> are the reached nodes with their depths, \<open>Q\<close> the queue.\<close>

definition queue_ok :: "('n \<times> nat) set \<Rightarrow> ('n \<times> nat) list \<Rightarrow> bool" where
  "queue_ok D Q \<longleftrightarrow> sorted (map snd Q) \<and> set Q \<subseteq> D \<and> (\<forall>(v, d) \<in> D. \<forall>(u, k) \<in> set Q. d \<le> Suc k)"

definition reached_ok :: "('n \<times> nat) set \<Rightarrow> bool" where
  "reached_ok D \<longleftrightarrow> (\<forall>(v, d) \<in> D. (\<exists>s \<in> seeds. (s, v) \<in> step ^^ d) \<and> (\<forall>k < d. expands k))
     \<and> (\<forall>v d k. (v, d) \<in> D \<longrightarrow> (v, k) \<in> D \<longrightarrow> d = k) \<and> (\<forall>s \<in> seeds. (s, 0) \<in> D)"

definition expanded_ok :: "('n \<times> nat) set \<Rightarrow> ('n \<times> nat) list \<Rightarrow> bool" where
  "expanded_ok D Q \<longleftrightarrow> (\<forall>(u, d) \<in> D. (u, d) \<notin> set Q \<longrightarrow> expands d \<longrightarrow>
     (\<forall>w. (u, w) \<in> step \<longrightarrow> (\<exists>k \<le> Suc d. (w, k) \<in> D)))"

definition search_inv :: "('n \<times> nat) set \<Rightarrow> ('n \<times> nat) list \<Rightarrow> bool" where
  "search_inv D Q \<longleftrightarrow> queue_ok D Q \<and> reached_ok D \<and> expanded_ok D Q"

lemma search_inv_init: "set xs = seeds \<Longrightarrow> search_inv ((\<lambda>s. (s, 0)) ` seeds) (map (\<lambda>s. (s, 0)) xs)"
proof -
  assume xs: "set xs = seeds"
  have "sorted (map snd (map (\<lambda>s. (s, 0 :: nat)) ys))" for ys :: "'n list" by (induction ys) auto
  with xs show ?thesis by (auto simp: search_inv_def queue_ok_def reached_ok_def expanded_ok_def)
qed

lemma search_inv_skip: "search_inv D ((u, d) # Q) \<Longrightarrow> \<not> expands d \<Longrightarrow> search_inv D Q"
  by (auto simp: search_inv_def queue_ok_def expanded_ok_def)

lemma search_inv_expand:
  assumes inv: "search_inv D ((u, d) # Q)" and ex: "expands d" and ws: "set ws = step `` {u} - fst ` D"
  shows "search_inv (D \<union> (\<lambda>w. (w, Suc d)) ` set ws) (Q @ map (\<lambda>w. (w, Suc d)) ws)"
proof -
  let ?D = "D \<union> (\<lambda>w. (w, Suc d)) ` set ws" and ?Q = "Q @ map (\<lambda>w. (w, Suc d)) ws"
  from inv have q: "sorted (map snd Q)" "set Q \<subseteq> D" "(u, d) \<in> D" "\<And>v k. (v, k) \<in> set Q \<Longrightarrow> d \<le> k"
    and le: "\<And>v k. (v, k) \<in> D \<Longrightarrow> k \<le> Suc d" "\<And>v e w k. (v, e) \<in> D \<Longrightarrow> (w, k) \<in> set Q \<Longrightarrow> e \<le> Suc k"
    by (auto simp: search_inv_def queue_ok_def)
  from inv have r: "reached_ok D" by (simp add: search_inv_def)
  have "sorted (map snd (map (\<lambda>w. (w, Suc d)) ys))" for ys :: "'n list" by (induction ys) auto
  then have "sorted (map snd ?Q)" using q le(1) by (fastforce simp: sorted_append)
  moreover have "e \<le> Suc k" if "(v, e) \<in> ?D" "(w, k) \<in> set ?Q" for v e w k
  proof -
    have "e \<le> Suc d" using that(1) le(1) by auto
    with that q(4) le(2) show ?thesis by fastforce
  qed
  moreover have "set ?Q \<subseteq> ?D" using q(2) by auto
  ultimately have 1: "queue_ok ?D ?Q" unfolding queue_ok_def by blast
  have step: "(s, w) \<in> step ^^ Suc d" if "(s, u) \<in> step ^^ d" "w \<in> set ws" for s w
    using that ws by auto
  obtain s where s: "s \<in> seeds" "(s, u) \<in> step ^^ d" and lim: "\<forall>k < d. expands k"
    using r q(3) by (auto simp: reached_ok_def)
  have 2: "reached_ok ?D"
    unfolding reached_ok_def
  proof (intro conjI ballI allI impI, goal_cases)
    case (1 x)
    then consider "x \<in> D" | w where "w \<in> set ws" "x = (w, Suc d)" by auto
    then show ?case
    proof cases
      case 1
      with r show ?thesis unfolding reached_ok_def by blast
    next
      case 2
      with step s lim ex show ?thesis by (auto simp: less_Suc_eq simp del: relpow.simps)
    qed
  next
    case (2 v e k)
    then show ?case using r ws unfolding reached_ok_def by (auto simp: image_iff)
  next
    case (3 s)
    with r show ?case unfolding reached_ok_def by blast
  qed
  have 3: "expanded_ok ?D ?Q"
  proof -
    have "\<exists>k \<le> Suc e. (w, k) \<in> ?D" if x: "(x, e) \<in> ?D" "(x, e) \<notin> set ?Q" "expands e" "(x, w) \<in> step" for x e w
    proof (cases "(x, e) = (u, d)")
      case True
      show ?thesis
      proof (cases "w \<in> fst ` D")
        case True
        then obtain k where "(w, k) \<in> D" by auto
        with le(1) \<open>(x, e) = (u, d)\<close> show ?thesis by blast
      next
        case False
        with True x(4) ws show ?thesis by auto
      qed
    next
      case False
      with x have "(x, e) \<in> D" "(x, e) \<notin> set ((u, d) # Q)" by auto
      with inv x(3,4) show ?thesis unfolding search_inv_def expanded_ok_def by fast
    qed
    then show ?thesis unfolding expanded_ok_def by blast
  qed
  from 1 2 3 show ?thesis unfolding search_inv_def by simp
qed

text \<open>A finished search has reached exactly the nodes within the limit, at their distances.\<close>

lemma search_inv_done:
  assumes "search_inv D []"
  shows "(v, d) \<in> D \<longleftrightarrow> within_limit v d"
proof -
  have r: "reached_ok D" and e: "expanded_ok D []" using assms by (auto simp: search_inv_def)
  have short: "\<exists>e \<le> k. (w, e) \<in> D" if "s \<in> seeds" "(s, w) \<in> step ^^ k" "\<forall>j < k. expands j" for s w k
    using that(2,3)
  proof (induction k arbitrary: w)
    case 0
    with that(1) r show ?case by (auto simp: reached_ok_def)
  next
    case (Suc k)
    then obtain x where x: "(s, x) \<in> step ^^ k" "(x, w) \<in> step" by auto
    with Suc obtain i where i: "i \<le> k" "(x, i) \<in> D" by auto
    moreover have "expands i" using Suc.prems(2) i(1) by auto
    ultimately obtain j where "j \<le> Suc i" "(w, j) \<in> D" using e x(2) unfolding expanded_ok_def by fastforce
    with i(1) show ?case by (meson Suc_le_mono le_trans)
  qed
  show ?thesis
  proof
    assume vd: "(v, d) \<in> D"
    then have p: "\<exists>s \<in> seeds. (s, v) \<in> step ^^ d" "\<forall>k < d. expands k" using r by (auto simp: reached_ok_def)
    have "(s, v) \<notin> step ^^ k" if k: "k < d" and s: "s \<in> seeds" for k s
    proof
      assume "(s, v) \<in> step ^^ k"
      then obtain e where "e \<le> k" "(v, e) \<in> D" using short [OF s] p(2) k by (meson less_trans)
      with vd r k show False unfolding reached_ok_def by (metis leD)
    qed
    with p show "within_limit v d" by (auto simp: within_limit_def at_distance_def)
  next
    assume w: "within_limit v d"
    then obtain s where "s \<in> seeds" "(s, v) \<in> step ^^ d" by (auto simp: within_limit_def at_distance_def)
    moreover have "\<forall>k < d. expands k" using w by (simp add: within_limit_def)
    ultimately obtain e where "e \<le> d" "(v, e) \<in> D" using short by blast
    moreover have "e = d"
    proof (rule ccontr)
      assume "e \<noteq> d"
      with \<open>e \<le> d\<close> have "e < d" by simp
      moreover obtain s' where "s' \<in> seeds" "(s', v) \<in> step ^^ e" using r \<open>(v, e) \<in> D\<close> by (auto simp: reached_ok_def)
      ultimately show False using w by (auto simp: within_limit_def at_distance_def)
    qed
    ultimately show "(v, d) \<in> D" by simp
  qed
qed

end

end
