(* ===== verification/Dependency.thy ===== *)
theory Dependency
  imports Search Identity
begin

text \<open>
  \<^verbatim>\<open>packages/cir-python/src/akc_cir/dependency.py\<close>: the dependency graph of the knowledge compiler
  and what a change makes stale. The state is the adjacency store; \<open>impact_of\<close> and
  \<open>provenance_of\<close> are its two breadth-first traversals. Comparing a naive with an aware time
  stamp raises, so a traversal at a moment returns an error or a report.
\<close>

section \<open>Data\<close>

datatype propagation = PG_UPSTREAM | PG_DOWNSTREAM | PG_INERT

datatype edge_type =
    DERIVED_FROM | DEPENDS_ON | SUPPORTS | SUPERSEDES | REFERENCES | CONSUMED_BY | EXPORTS_TO | INVALIDATES

fun edge_value :: "edge_type \<Rightarrow> string" where
  "edge_value DERIVED_FROM = ''DERIVED_FROM''"
| "edge_value DEPENDS_ON = ''DEPENDS_ON''"
| "edge_value SUPPORTS = ''SUPPORTS''"
| "edge_value SUPERSEDES = ''SUPERSEDES''"
| "edge_value REFERENCES = ''REFERENCES''"
| "edge_value CONSUMED_BY = ''CONSUMED_BY''"
| "edge_value EXPORTS_TO = ''EXPORTS_TO''"
| "edge_value INVALIDATES = ''INVALIDATES''"

fun edge_propagation :: "edge_type \<Rightarrow> propagation" where
  "edge_propagation DERIVED_FROM = PG_UPSTREAM"
| "edge_propagation DEPENDS_ON = PG_UPSTREAM"
| "edge_propagation SUPPORTS = PG_DOWNSTREAM"
| "edge_propagation REFERENCES = PG_INERT"
| "edge_propagation SUPERSEDES = PG_INERT"
| "edge_propagation CONSUMED_BY = PG_DOWNSTREAM"
| "edge_propagation EXPORTS_TO = PG_DOWNSTREAM"
| "edge_propagation INVALIDATES = PG_DOWNSTREAM"

record dependency_edge =
  de_source_id :: string
  de_target_id :: string
  de_edge_type :: edge_type
  de_valid_from :: "datetime option"
  de_valid_to :: "datetime option"

definition mk_dependency_edge :: "dependency_edge \<Rightarrow> pyerr + dependency_edge" where
  "mk_dependency_edge e =
    (if de_source_id e = [] \<or> de_target_id e = []
     then Inl (ValueError ''a dependency edge needs both ends'')
     else if de_source_id e = de_target_id e
     then Inl (ValueError ''a node cannot depend on itself'')
     else (case (de_valid_from e, de_valid_to e) of
       (Some f, Some t) \<Rightarrow>
         (case dt_less t f of
           Inl err \<Rightarrow> Inl err
         | Inr True \<Rightarrow> Inl (ValueError ''edge valid_to precedes valid_from'')
         | Inr False \<Rightarrow> Inr e)
     | _ \<Rightarrow> Inr e))"

text \<open>\<open>live_at\<close> evaluates both bounds before it combines them.\<close>

definition live_at :: "dependency_edge \<Rightarrow> datetime option \<Rightarrow> pyerr + bool" where
  "live_at e moment = (case moment of
     None \<Rightarrow> Inr True
   | Some m \<Rightarrow> mapR (\<lambda>(started, not_retired). started \<and> not_retired)
       (pairE (case de_valid_from e of None \<Rightarrow> Inr True | Some f \<Rightarrow> mapR Not (dt_less m f))
              (case de_valid_to e of None \<Rightarrow> Inr True | Some t \<Rightarrow> dt_less m t)))"

record impact_path =
  ip_node_id :: string
  ip_depth :: nat
  ip_via :: "(string \<times> edge_type) list"

definition describe_path :: "impact_path \<Rightarrow> string" where
  "describe_path p =
    (if ip_via p = [] then ip_node_id p @ '' (changed directly)''
     else join_with '' -> '' (map (\<lambda>(n, t). n @ '' ['' @ edge_value t @ '']'') (ip_via p))
       @ '' -> '' @ ip_node_id p)"

record impact_report =
  ir_changed :: "string list"
  ir_affected :: "impact_path list"
  ir_truncated_at_depth :: bool
  ir_cycles_detected :: "string list list"
  ir_unknown_nodes :: "string list"

definition affected_ids :: "impact_report \<Rightarrow> string list" where
  "affected_ids r = map ip_node_id (ir_affected r)"

text \<open>\<open>by_kind\<close> counts in a dictionary in the order the kinds first occur.\<close>

fun count_kinds :: "(string \<rightharpoonup> string) \<Rightarrow> impact_path list \<Rightarrow> (string \<times> nat) list \<Rightarrow> (string \<times> nat) list" where
  "count_kinds kinds [] counts = counts"
| "count_kinds kinds (p # ps) counts =
    (let kind = (case kinds (ip_node_id p) of None \<Rightarrow> ''unknown'' | Some k \<Rightarrow> k)
     in count_kinds kinds ps (AList.update kind ((case map_of counts kind of None \<Rightarrow> 0 | Some n \<Rightarrow> n) + 1) counts))"

definition by_kind :: "(string \<rightharpoonup> string) \<Rightarrow> impact_report \<Rightarrow> (string \<times> nat) list" where
  "by_kind kinds r = count_kinds kinds (ir_affected r) []"

definition explain_node :: "string \<Rightarrow> impact_report \<Rightarrow> string option" where
  "explain_node n r = map_option describe_path (List.find (\<lambda>p. ip_node_id p = n) (ir_affected r))"

section \<open>The adjacency store\<close>

record dependency_graph =
  dg_edges :: "dependency_edge list"
  dg_out :: "(string \<times> dependency_edge list) list"
  dg_in :: "(string \<times> dependency_edge list) list"
  dg_nodes :: "string set"

definition empty_graph :: dependency_graph where
  "empty_graph = \<lparr>dg_edges = [], dg_out = [], dg_in = [], dg_nodes = {}\<rparr>"

text \<open>\<open>d.get(k, ())\<close> and \<open>d.setdefault(k, []).append(e)\<close> on a dictionary of lists.\<close>

definition edge_entries :: "(string \<times> 'e list) list \<Rightarrow> string \<Rightarrow> 'e list" where
  "edge_entries d k = (case map_of d k of None \<Rightarrow> [] | Some es \<Rightarrow> es)"

definition add_edge :: "dependency_edge \<Rightarrow> dependency_graph \<Rightarrow> dependency_graph" where
  "add_edge e g = \<lparr>
     dg_edges = dg_edges g @ [e],
     dg_out = AList.update (de_source_id e) (edge_entries (dg_out g) (de_source_id e) @ [e]) (dg_out g),
     dg_in = AList.update (de_target_id e) (edge_entries (dg_in g) (de_target_id e) @ [e]) (dg_in g),
     dg_nodes = insert (de_target_id e) (insert (de_source_id e) (dg_nodes g))\<rparr>"

definition dependency_graph_of :: "dependency_edge list \<Rightarrow> dependency_graph" where
  "dependency_graph_of es = fold add_edge es empty_graph"

definition graph_len :: "dependency_graph \<Rightarrow> nat" where
  "graph_len g = length (dg_edges g)"

text \<open>The live edges of one propagation among \<open>es\<close>, in order; the moment is only compared
  where the propagation fits.\<close>

fun live_edges :: "propagation \<Rightarrow> datetime option \<Rightarrow> dependency_edge list \<Rightarrow> pyerr + dependency_edge list" where
  "live_edges p moment [] = Inr []"
| "live_edges p moment (e # es) =
    (if edge_propagation (de_edge_type e) \<noteq> p then live_edges p moment es
     else (case live_at e moment of
       Inl err \<Rightarrow> Inl err
     | Inr live \<Rightarrow> mapR (\<lambda>rest. if live then e # rest else rest) (live_edges p moment es)))"

text \<open>\<open>sorted(set(found))\<close> on pairs of a node and an edge type, which compares as its value.\<close>

definition sorted_pairs :: "(string \<times> edge_type) list \<Rightarrow> (string \<times> edge_type) list" where
  "sorted_pairs ps = sort_key (\<lambda>(n, t). (n, edge_value t)) (remdups ps)"

definition graph_successors ::
  "dependency_graph \<Rightarrow> datetime option \<Rightarrow> string \<Rightarrow> pyerr + (string \<times> edge_type) list" where
  "graph_successors g moment n =
    mapR (\<lambda>(down, up). sorted_pairs
        (map (\<lambda>e. (de_target_id e, de_edge_type e)) down @ map (\<lambda>e. (de_source_id e, de_edge_type e)) up))
      (pairE (live_edges PG_DOWNSTREAM moment (edge_entries (dg_out g) n))
             (live_edges PG_UPSTREAM moment (edge_entries (dg_in g) n)))"

section \<open>The impact of a change\<close>

record queue_entry =
  qe_node :: string
  qe_depth :: nat
  qe_via :: "(string \<times> edge_type) list"
  qe_lineage :: "string list"

record walk_state =
  wk_visited :: "string set"
  wk_affected :: "impact_path list"
  wk_cycles :: "string list list"
  wk_truncated :: bool

text \<open>One neighbour of the node just taken off the queue, then all of them. The new queue edge_entries
  are returned beside the state.\<close>

definition meet_neighbour ::
  "queue_entry \<Rightarrow> string \<times> edge_type \<Rightarrow> walk_state \<times> queue_entry list \<Rightarrow> walk_state \<times> queue_entry list" where
  "meet_neighbour q nt st = (case (nt, st) of ((nb, t), (w, new)) \<Rightarrow>
     if nb \<in> set (qe_lineage q)
     then (let cycle = dropWhile (\<lambda>x. x \<noteq> nb) (qe_lineage q) @ [nb]
       in (if cycle \<in> set (wk_cycles w) then w else w\<lparr>wk_cycles := wk_cycles w @ [cycle]\<rparr>, new))
     else if nb \<in> wk_visited w then (w, new)
     else (let trail = qe_via q @ [(qe_node q, t)] in
       (w\<lparr>wk_visited := insert nb (wk_visited w),
          wk_affected := wk_affected w @ [\<lparr>ip_node_id = nb, ip_depth = qe_depth q + 1, ip_via = trail\<rparr>]\<rparr>,
        new @ [\<lparr>qe_node = nb, qe_depth = qe_depth q + 1, qe_via = trail, qe_lineage = qe_lineage q @ [nb]\<rparr>])))"

definition expand_node ::
  "queue_entry \<Rightarrow> (string \<times> edge_type) list \<Rightarrow> walk_state \<Rightarrow> walk_state \<times> queue_entry list" where
  "expand_node q nts w = fold (meet_neighbour q) nts (w, [])"

definition at_limit :: "int option \<Rightarrow> nat \<Rightarrow> bool" where
  "at_limit max_depth d = (case max_depth of None \<Rightarrow> False | Some m \<Rightarrow> m \<le> int d)"

text \<open>Every node a traversal can ever add is an end of a stored edge.\<close>

definition stored_ends :: "dependency_graph \<Rightarrow> string set" where
  "stored_ends g = (\<Union>e \<in> set (concat (map snd (dg_out g) @ map snd (dg_in g))). {de_source_id e, de_target_id e})"

lemma finite_stored_ends [simp]: "finite (stored_ends g)"
  by (simp add: stored_ends_def)

lemma edge_entries_stored: "e \<in> set (edge_entries d k) \<Longrightarrow> e \<in> set (concat (map snd d))"
proof -
  assume e: "e \<in> set (edge_entries d k)"
  then obtain es where es: "map_of d k = Some es" "e \<in> set es"
    by (cases "map_of d k") (auto simp: edge_entries_def)
  from map_of_SomeD [OF es(1)] es(2) show "e \<in> set (concat (map snd d))" by force
qed

lemma set_sorted_pairs [simp]: "set (sorted_pairs ps) = set ps"
  by (simp add: sorted_pairs_def)

lemma live_edges_subset: "live_edges p m es = Inr ls \<Longrightarrow> set ls \<subseteq> set es"
  by (induction es arbitrary: ls) (auto simp: mapR_def split: if_splits sum.splits)

lemma graph_successors_Inr:
  "graph_successors g m n = Inr nts \<longleftrightarrow> (\<exists>down up. live_edges PG_DOWNSTREAM m (edge_entries (dg_out g) n) = Inr down
     \<and> live_edges PG_UPSTREAM m (edge_entries (dg_in g) n) = Inr up
     \<and> nts = sorted_pairs (map (\<lambda>e. (de_target_id e, de_edge_type e)) down @ map (\<lambda>e. (de_source_id e, de_edge_type e)) up))"
  by (auto simp: graph_successors_def mapR_def pairE_def split: sum.splits)

lemma graph_successors_stored: "graph_successors g m n = Inr nts \<Longrightarrow> fst ` set nts \<subseteq> stored_ends g"
  unfolding graph_successors_Inr stored_ends_def
  by (fastforce dest!: live_edges_subset dest: edge_entries_stored)

text \<open>What meeting the neighbours \<open>nts\<close> of a queue entry does: the added entries are the neighbours
  that were neither on its path nor visited, and every neighbour on its path closes a cycle.\<close>

definition path_entry :: "queue_entry \<Rightarrow> impact_path" where
  "path_entry a = \<lparr>ip_node_id = qe_node a, ip_depth = qe_depth a, ip_via = qe_via a\<rparr>"

definition closed_cycle :: "queue_entry \<Rightarrow> string \<Rightarrow> string list" where
  "closed_cycle q nb = dropWhile (\<lambda>x. x \<noteq> nb) (qe_lineage q) @ [nb]"

definition entry_from :: "queue_entry \<Rightarrow> (string \<times> edge_type) list \<Rightarrow> queue_entry \<Rightarrow> bool" where
  "entry_from q nts a \<longleftrightarrow> qe_depth a = Suc (qe_depth q) \<and> qe_lineage a = qe_lineage q @ [qe_node a]
     \<and> (\<exists>t. (qe_node a, t) \<in> set nts \<and> qe_via a = qe_via q @ [(qe_node q, t)])"

definition met :: "queue_entry \<Rightarrow> (string \<times> edge_type) list \<Rightarrow> walk_state \<Rightarrow> walk_state \<Rightarrow> queue_entry list \<Rightarrow> bool" where
  "met q nts w w' added \<longleftrightarrow>
     wk_visited w' = wk_visited w \<union> set (map qe_node added)
     \<and> distinct (map qe_node added)
     \<and> set (map qe_node added) = fst ` set nts - set (qe_lineage q) - wk_visited w
     \<and> wk_affected w' = wk_affected w @ map path_entry added
     \<and> (\<forall>a \<in> set added. entry_from q nts a)
     \<and> set (wk_cycles w') = set (wk_cycles w) \<union> closed_cycle q ` (fst ` set nts \<inter> set (qe_lineage q))
     \<and> wk_truncated w' = wk_truncated w"

lemma meet_neighbours:
  assumes "fold (meet_neighbour q) nts (w, new) = (w', new')"
  shows "\<exists>added. new' = new @ added \<and> met q nts w w' added"
  using assms
proof (induction nts arbitrary: w new)
  case Nil
  then show ?case by (simp add: met_def)
next
  case (Cons nt nts)
  obtain nb t where nt: "nt = (nb, t)" by fastforce
  obtain w1 new1 where m: "meet_neighbour q nt (w, new) = (w1, new1)" by fastforce
  have "fold (meet_neighbour q) nts (w1, new1) = (w', new')" using Cons.prems m by simp
  from Cons.IH [OF this] obtain added where a: "new' = new1 @ added" and IH: "met q nts w1 w' added" by blast
  have mono: "entry_from q (nt # nts) a" if "entry_from q nts a" for a using that by (auto simp: entry_from_def)
  consider (lineage) "nb \<in> set (qe_lineage q)" | (visited) "nb \<notin> set (qe_lineage q)" "nb \<in> wk_visited w"
    | (new) "nb \<notin> set (qe_lineage q)" "nb \<notin> wk_visited w" by blast
  then show ?case
  proof cases
    case lineage
    have "new1 = new \<and> wk_visited w1 = wk_visited w \<and> wk_affected w1 = wk_affected w \<and> wk_truncated w1 = wk_truncated w
      \<and> set (wk_cycles w1) = insert (closed_cycle q nb) (set (wk_cycles w))"
      using lineage m by (auto simp: nt meet_neighbour_def closed_cycle_def Let_def split: if_splits)
    with IH a lineage mono show ?thesis unfolding nt by (intro exI [of _ added]) (auto simp: met_def)
  next
    case visited
    have "w1 = w \<and> new1 = new" using visited m by (auto simp: nt meet_neighbour_def)
    with IH a visited mono show ?thesis unfolding nt by (intro exI [of _ added]) (auto simp: met_def)
  next
    case new
    let ?a = "\<lparr>qe_node = nb, qe_depth = qe_depth q + 1, qe_via = qe_via q @ [(qe_node q, t)], qe_lineage = qe_lineage q @ [nb]\<rparr>"
    have w1: "new1 = new @ [?a] \<and> w1 = w\<lparr>wk_visited := insert nb (wk_visited w), wk_affected := wk_affected w @ [path_entry ?a]\<rparr>"
      using new m by (auto simp: nt meet_neighbour_def path_entry_def Let_def)
    have "entry_from q (nt # nts) ?a" by (auto simp: nt entry_from_def)
    with w1 IH a new mono show ?thesis unfolding nt by (intro exI [of _ "?a # added"]) (auto simp: met_def)
  qed
qed

lemma expand_node_met: "expand_node q nts w = (w', new) \<Longrightarrow> met q nts w w' new"
  using meet_neighbours [of q nts w "[]" w' new] by (simp add: expand_node_def)

text \<open>Every pass takes one queue entry off, and each entry it adds leaves the unvisited ends.\<close>

lemma expand_node_decreases:
  assumes s: "graph_successors g m (qe_node q) = Inr nts" and e: "expand_node q nts w = (w', new)"
  shows "card (stored_ends g - wk_visited w') + length new = card (stored_ends g - wk_visited w)"
proof -
  from expand_node_met [OF e] have
    v: "wk_visited w' = wk_visited w \<union> set (map qe_node new)" and d: "distinct (map qe_node new)"
    and n: "set (map qe_node new) = fst ` set nts - set (qe_lineage q) - wk_visited w" by (auto simp: met_def)
  have sub: "set (map qe_node new) \<subseteq> stored_ends g - wk_visited w"
    using graph_successors_stored [OF s] n by auto
  have "stored_ends g - wk_visited w = (stored_ends g - wk_visited w') \<union> set (map qe_node new)"
    using sub v by auto
  moreover have "(stored_ends g - wk_visited w') \<inter> set (map qe_node new) = {}" using v by auto
  ultimately have "card (stored_ends g - wk_visited w) = card (stored_ends g - wk_visited w') + card (set (map qe_node new))"
    by (metis card_Un_disjoint finite_Diff finite_set finite_stored_ends)
  with d show ?thesis by (metis distinct_card length_map)
qed

function walk_graph :: "dependency_graph \<Rightarrow> datetime option \<Rightarrow> int option \<Rightarrow> queue_entry list \<Rightarrow> walk_state \<Rightarrow> pyerr + walk_state" where
  "walk_graph g moment mx [] w = Inr w"
| "walk_graph g moment mx (q # qs) w =
    (case graph_successors g moment (qe_node q) of
      Inl err \<Rightarrow> Inl err
    | Inr nts \<Rightarrow>
        (if at_limit mx (qe_depth q)
         then walk_graph g moment mx qs (w\<lparr>wk_truncated := wk_truncated w \<or> nts \<noteq> []\<rparr>)
         else (case expand_node q nts w of (w', new) \<Rightarrow> walk_graph g moment mx (qs @ new) w')))"
  by pat_completeness auto
termination
proof (relation "measure (\<lambda>(g, moment, mx, qs, w). card (stored_ends g - wk_visited w) + length qs)", goal_cases)
  case 1
  show ?case by simp
next
  case (2 g moment mx q qs w nts)
  then show ?case by simp
next
  case (3 g moment mx q qs w nts w' new)
  then show ?case using expand_node_decreases [OF 3(1), of w w' new] by simp
qed

definition impact_of ::
  "dependency_graph \<Rightarrow> string list \<Rightarrow> int option \<Rightarrow> datetime option \<Rightarrow> pyerr + impact_report" where
  "impact_of g changed max_depth as_of =
    (let seeds = fromkeys changed in
     mapR (\<lambda>w. \<lparr>ir_changed = seeds, ir_affected = wk_affected w, ir_truncated_at_depth = wk_truncated w,
         ir_cycles_detected = wk_cycles w, ir_unknown_nodes = filter (\<lambda>n. n \<notin> dg_nodes g) seeds\<rparr>)
       (walk_graph g as_of max_depth
         (map (\<lambda>s. \<lparr>qe_node = s, qe_depth = 0, qe_via = [], qe_lineage = [s]\<rparr>) seeds)
         \<lparr>wk_visited = set seeds, wk_affected = [], wk_cycles = [], wk_truncated = False\<rparr>))"

section \<open>The provenance of a node\<close>

definition graph_parents :: "dependency_graph \<Rightarrow> datetime option \<Rightarrow> string \<Rightarrow> pyerr + string list" where
  "graph_parents g moment n =
    mapR (\<lambda>(up, down). sorted_set (map de_target_id up @ map de_source_id down))
      (pairE (live_edges PG_UPSTREAM moment (edge_entries (dg_out g) n))
             (live_edges PG_DOWNSTREAM moment (edge_entries (dg_in g) n)))"

fun meet_parents :: "nat \<Rightarrow> string list \<Rightarrow> string set \<Rightarrow> string list \<Rightarrow> (string \<times> nat) list \<Rightarrow> string set \<times> string list \<times> (string \<times> nat) list" where
  "meet_parents d [] seen order queue = (seen, order, queue)"
| "meet_parents d (p # ps) seen order queue =
    (if p \<in> seen then meet_parents d ps seen order queue
     else meet_parents d ps (insert p seen) (order @ [p]) (queue @ [(p, d + 1)]))"

lemma meet_parents_eq:
  assumes "distinct ps"
  shows "meet_parents d ps seen order queue = (let new = filter (\<lambda>p. p \<notin> seen) ps
     in (seen \<union> set new, order @ new, queue @ map (\<lambda>p. (p, Suc d)) new))"
  using assms
proof (induction ps arbitrary: seen order queue)
  case Nil
  then show ?case by simp
next
  case (Cons p ps)
  then have "filter (\<lambda>x. x \<noteq> p \<and> x \<notin> seen) ps = filter (\<lambda>x. x \<notin> seen) ps"
    by (intro filter_cong) auto
  with Cons show ?case by (auto simp: Let_def)
qed

lemma graph_parents_Inr:
  "graph_parents g m n = Inr ps \<longleftrightarrow> (\<exists>up down. live_edges PG_UPSTREAM m (edge_entries (dg_out g) n) = Inr up
     \<and> live_edges PG_DOWNSTREAM m (edge_entries (dg_in g) n) = Inr down
     \<and> ps = sorted_set (map de_target_id up @ map de_source_id down))"
  by (auto simp: graph_parents_def mapR_def pairE_def split: sum.splits)

lemma graph_parents_stored: "graph_parents g m n = Inr ps \<Longrightarrow> set ps \<subseteq> stored_ends g"
  unfolding graph_parents_Inr stored_ends_def
  by (fastforce dest!: live_edges_subset dest: edge_entries_stored)

lemma new_parents_decrease:
  assumes "graph_parents g m n = Inr ps"
  shows "card (stored_ends g - (seen \<union> set (filter (\<lambda>p. p \<notin> seen) ps))) + length (filter (\<lambda>p. p \<notin> seen) ps)
    = card (stored_ends g - seen)"
proof -
  let ?new = "filter (\<lambda>p. p \<notin> seen) ps"
  have d: "distinct ?new" using assms by (auto simp: graph_parents_Inr)
  have "stored_ends g - seen = (stored_ends g - (seen \<union> set ?new)) \<union> set ?new"
    using graph_parents_stored [OF assms] by auto
  moreover have "(stored_ends g - (seen \<union> set ?new)) \<inter> set ?new = {}" by auto
  ultimately have "card (stored_ends g - seen) = card (stored_ends g - (seen \<union> set ?new)) + card (set ?new)"
    by (metis card_Un_disjoint finite_Diff finite_set finite_stored_ends)
  with distinct_card [OF d] show ?thesis by simp
qed

function climb_graph :: "dependency_graph \<Rightarrow> datetime option \<Rightarrow> int option \<Rightarrow> (string \<times> nat) list \<Rightarrow> string set \<Rightarrow> string list \<Rightarrow> pyerr + string list" where
  "climb_graph g moment mx [] seen order = Inr order"
| "climb_graph g moment mx ((n, d) # queue) seen order =
    (if at_limit mx d then climb_graph g moment mx queue seen order
     else (case graph_parents g moment n of
       Inl err \<Rightarrow> Inl err
     | Inr ps \<Rightarrow> (case meet_parents d ps seen order queue of
         (seen', order', queue') \<Rightarrow> climb_graph g moment mx queue' seen' order')))"
  by pat_completeness auto
termination
proof (relation "measure (\<lambda>(g, moment, mx, queue, seen, order). card (stored_ends g - seen) + length queue)", goal_cases)
  case 1
  show ?case by simp
next
  case (2 g moment mx n d queue seen order)
  then show ?case by simp
next
  case (3 g moment mx n d queue seen order ps x seen' y queue')
  have "distinct ps" using 3(2) by (auto simp: graph_parents_Inr)
  with 3 show ?case using new_parents_decrease [OF 3(2), of seen]
    by (auto simp: meet_parents_eq Let_def simp del: set_filter)
qed

definition provenance_of ::
  "dependency_graph \<Rightarrow> string \<Rightarrow> int option \<Rightarrow> datetime option \<Rightarrow> pyerr + string list" where
  "provenance_of g n max_depth as_of = climb_graph g as_of max_depth [(n, 0)] {n} []"

section \<open>The relation a change travels along\<close>

definition successors_at :: "dependency_graph \<Rightarrow> datetime option \<Rightarrow> string \<Rightarrow> (string \<times> edge_type) list" where
  "successors_at g m a = (case graph_successors g m a of Inl e \<Rightarrow> [] | Inr nts \<Rightarrow> nts)"

definition affects :: "dependency_graph \<Rightarrow> datetime option \<Rightarrow> (string \<times> string) set" where
  "affects g m = {(a, b). b \<in> fst ` set (successors_at g m a)}"

definition parents_at :: "dependency_graph \<Rightarrow> datetime option \<Rightarrow> string \<Rightarrow> string list" where
  "parents_at g m a = (case graph_parents g m a of Inl e \<Rightarrow> [] | Inr ps \<Rightarrow> ps)"

definition built_from :: "dependency_graph \<Rightarrow> datetime option \<Rightarrow> (string \<times> string) set" where
  "built_from g m = {(a, b). b \<in> set (parents_at g m a)}"

lemma at_limit_down: "\<not> at_limit mx (Suc d) \<Longrightarrow> \<not> at_limit mx d"
  by (auto simp: at_limit_def split: option.splits)

interpretation impact: layered_search "affects g m" "set changed" "\<lambda>d. \<not> at_limit mx d" for g m changed mx
  by unfold_locales (rule at_limit_down)

interpretation origin: layered_search "built_from g m" "{n}" "\<lambda>d. \<not> at_limit mx d" for g m n mx
  by unfold_locales (rule at_limit_down)

text \<open>A recorded path: the nodes and edge types that lead from a changed node to the affected one.\<close>

fun trail :: "dependency_graph \<Rightarrow> datetime option \<Rightarrow> string \<Rightarrow> (string \<times> edge_type) list \<Rightarrow> string \<Rightarrow> bool" where
  "trail g m s [] v \<longleftrightarrow> s = v"
| "trail g m s ((a, t) # rest) v \<longleftrightarrow> a = s \<and> (\<exists>b. (b, t) \<in> set (successors_at g m a) \<and> trail g m b rest v)"

lemma trail_snoc: "trail g m s (via @ [(n, t)]) v \<longleftrightarrow> trail g m s via n \<and> (v, t) \<in> set (successors_at g m n)"
  by (induction via arbitrary: s) auto

definition explained :: "dependency_graph \<Rightarrow> datetime option \<Rightarrow> string list \<Rightarrow> impact_path \<Rightarrow> bool" where
  "explained g m changed p \<longleftrightarrow> (\<exists>s \<in> set changed. trail g m s (ip_via p) (ip_node_id p)) \<and> length (ip_via p) = ip_depth p"

definition is_loop :: "dependency_graph \<Rightarrow> datetime option \<Rightarrow> string list \<Rightarrow> bool" where
  "is_loop g m c \<longleftrightarrow> 2 \<le> length c \<and> hd c = last c \<and> successively (\<lambda>a b. (a, b) \<in> affects g m) c"

lemma successively_trancl: "successively (\<lambda>a b. (a, b) \<in> r) (x # xs) \<Longrightarrow> xs \<noteq> [] \<Longrightarrow> (x, last xs) \<in> r\<^sup>+"
proof (induction xs arbitrary: x)
  case Nil
  then show ?case by simp
next
  case (Cons y ys)
  show ?case
  proof (cases "ys = []")
    case False
    with Cons have "(y, last ys) \<in> r\<^sup>+" "(x, y) \<in> r" by auto
    with False show ?thesis by (simp add: trancl_into_trancl2)
  qed (use Cons.prems in auto)
qed

lemma is_loop_cyclic: "is_loop g m c \<Longrightarrow> \<not> acyclic (affects g m)"
proof
  assume c: "is_loop g m c" and a: "acyclic (affects g m)"
  then obtain x xs where xs: "c = x # xs" "xs \<noteq> []" by (cases c; cases "tl c") (auto simp: is_loop_def)
  with c have "(x, last xs) \<in> (affects g m)\<^sup>+" "x = last xs"
    using successively_trancl by (auto simp: is_loop_def)
  with a show False by (metis acyclic_def)
qed

lemma closed_cycle_loop:
  assumes "successively (\<lambda>a b. (a, b) \<in> affects g m) (qe_lineage q)" and "nb \<in> set (qe_lineage q)"
    and "(last (qe_lineage q), nb) \<in> affects g m"
  shows "is_loop g m (closed_cycle q nb)"
proof -
  let ?d = "dropWhile (\<lambda>x. x \<noteq> nb) (qe_lineage q)"
  obtain pre post where split: "qe_lineage q = pre @ nb # post" "nb \<notin> set pre" using split_list_first [OF assms(2)] by blast
  have "dropWhile (\<lambda>x. x \<noteq> nb) (pre @ nb # post) = nb # post" using split(2) by (induction pre) auto
  with split(1) have d: "?d = nb # post" by simp
  have "successively (\<lambda>a b. (a, b) \<in> affects g m) (nb # post)" using assms(1) split by (simp add: successively_append_iff)
  moreover have "last (nb # post) = last (qe_lineage q)" using split by simp
  ultimately have "successively (\<lambda>a b. (a, b) \<in> affects g m) ((nb # post) @ [nb])"
    using assms(3) by (subst successively_append_iff) auto
  then show ?thesis unfolding is_loop_def closed_cycle_def d by simp
qed

section \<open>The traversals keep the search contract\<close>

definition reached :: "string list \<Rightarrow> walk_state \<Rightarrow> (string \<times> nat) set" where
  "reached changed w = (\<lambda>s. (s, 0)) ` set changed \<union> (\<lambda>p. (ip_node_id p, ip_depth p)) ` set (wk_affected w)"

definition entry_ok :: "dependency_graph \<Rightarrow> datetime option \<Rightarrow> string list \<Rightarrow> walk_state \<Rightarrow> queue_entry \<Rightarrow> bool" where
  "entry_ok g m changed w q \<longleftrightarrow> explained g m changed (path_entry q)
     \<and> set (qe_lineage q) \<subseteq> wk_visited w \<and> qe_lineage q \<noteq> [] \<and> last (qe_lineage q) = qe_node q
     \<and> successively (\<lambda>a b. (a, b) \<in> affects g m) (qe_lineage q)"

definition truncates :: "dependency_graph \<Rightarrow> datetime option \<Rightarrow> int option \<Rightarrow> (string \<times> nat) set \<Rightarrow> bool" where
  "truncates g m mx D \<longleftrightarrow> (\<exists>(u, d) \<in> D. at_limit mx d \<and> successors_at g m u \<noteq> [])"

definition walk_ok :: "dependency_graph \<Rightarrow> datetime option \<Rightarrow> string list \<Rightarrow> walk_state \<Rightarrow> bool" where
  "walk_ok g m changed w \<longleftrightarrow> wk_visited w = fst ` reached changed w
     \<and> distinct (map ip_node_id (wk_affected w)) \<and> set (map ip_node_id (wk_affected w)) \<inter> set changed = {}
     \<and> (\<forall>p \<in> set (wk_affected w). explained g m changed p) \<and> (\<forall>c \<in> set (wk_cycles w). is_loop g m c)"

abbreviation queue_view :: "queue_entry list \<Rightarrow> (string \<times> nat) list" where
  "queue_view qs \<equiv> map (\<lambda>q. (qe_node q, qe_depth q)) qs"

definition walk_inv :: "dependency_graph \<Rightarrow> datetime option \<Rightarrow> string list \<Rightarrow> int option \<Rightarrow> queue_entry list \<Rightarrow> walk_state \<Rightarrow> bool" where
  "walk_inv g m changed mx qs w \<longleftrightarrow> impact.search_inv g m changed mx (reached changed w) (queue_view qs)
     \<and> walk_ok g m changed w \<and> (\<forall>q \<in> set qs. entry_ok g m changed w q) \<and> distinct (map qe_node qs)
     \<and> wk_truncated w = truncates g m mx (reached changed w - set (queue_view qs))"

lemma successors_at_Inr: "graph_successors g m n = Inr nts \<Longrightarrow> successors_at g m n = nts"
  by (simp add: successors_at_def)

lemma affects_Image: "graph_successors g m n = Inr nts \<Longrightarrow> affects g m `` {n} = fst ` set nts"
  by (auto simp: affects_def successors_at_Inr)

lemma walk_inv_init:
  assumes "set seeds = set changed" and "distinct seeds"
  shows "walk_inv g m changed mx (map (\<lambda>s. \<lparr>qe_node = s, qe_depth = 0, qe_via = [], qe_lineage = [s]\<rparr>) seeds)
    \<lparr>wk_visited = set seeds, wk_affected = [], wk_cycles = [], wk_truncated = False\<rparr>"
proof -
  let ?q = "\<lambda>s. \<lparr>qe_node = s, qe_depth = 0, qe_via = [], qe_lineage = [s]\<rparr>"
  let ?w = "\<lparr>wk_visited = set seeds, wk_affected = [], wk_cycles = [], wk_truncated = False\<rparr>"
  have D: "reached changed ?w = (\<lambda>s. (s, 0)) ` set changed" by (simp add: reached_def)
  have Q: "queue_view (map ?q seeds) = map (\<lambda>s. (s, 0)) seeds" by simp
  have 1: "impact.search_inv g m changed mx (reached changed ?w) (queue_view (map ?q seeds))"
    unfolding D Q by (rule impact.search_inv_init) (rule assms(1))
  have 2: "walk_ok g m changed ?w" using assms(1) by (simp add: walk_ok_def reached_def image_image)
  have 3: "entry_ok g m changed ?w (?q s)" if "s \<in> set seeds" for s
    using that assms(1) by (auto simp: entry_ok_def explained_def path_entry_def)
  have 4: "map qe_node (map ?q seeds) = seeds" by (induction seeds) auto
  have 5: "reached changed ?w - set (queue_view (map ?q seeds)) = {}" unfolding D Q using assms(1) by auto
  show ?thesis using 1 2 3 assms(2) unfolding walk_inv_def 4 5 by (auto simp: truncates_def)
qed

lemma truncated_irrelevant [simp]:
  "reached changed (w\<lparr>wk_truncated := b\<rparr>) = reached changed w"
  "walk_ok g m changed (w\<lparr>wk_truncated := b\<rparr>) = walk_ok g m changed w"
  "entry_ok g m changed (w\<lparr>wk_truncated := b\<rparr>) = entry_ok g m changed w"
  by (simp_all add: reached_def walk_ok_def entry_ok_def fun_eq_iff)

lemma walk_inv_skip:
  assumes inv: "walk_inv g m changed mx (q # qs) w" and s: "graph_successors g m (qe_node q) = Inr nts"
    and l: "at_limit mx (qe_depth q)"
  shows "walk_inv g m changed mx qs (w\<lparr>wk_truncated := wk_truncated w \<or> nts \<noteq> []\<rparr>)"
proof -
  let ?D = "reached changed w"
  from inv have si: "impact.search_inv g m changed mx ?D ((qe_node q, qe_depth q) # queue_view qs)"
    and d: "qe_node q \<notin> set (map qe_node qs)" and t: "wk_truncated w = truncates g m mx (?D - set (queue_view (q # qs)))"
    by (auto simp: walk_inv_def)
  from impact.search_inv_skip [OF si] l have 1: "impact.search_inv g m changed mx ?D (queue_view qs)" by simp
  have "(qe_node q, qe_depth q) \<in> ?D" using si by (simp add: impact.search_inv_def impact.queue_ok_def)
  moreover have "(qe_node q, qe_depth q) \<notin> set (queue_view qs)" using d by auto
  ultimately have "?D - set (queue_view qs) = insert (qe_node q, qe_depth q) (?D - set (queue_view (q # qs)))" by auto
  then have "truncates g m mx (?D - set (queue_view qs)) = (wk_truncated w \<or> nts \<noteq> [])"
    using l t by (auto simp: truncates_def successors_at_Inr [OF s])
  with 1 inv show ?thesis by (auto simp: walk_inv_def)
qed

text \<open>What an expansion does to the state, and then to the invariant.\<close>

lemma entry_from_ok:
  assumes q: "entry_ok g m changed w q" and s: "graph_successors g m (qe_node q) = Inr nts" and a: "entry_from q nts a"
    and v: "wk_visited w \<subseteq> wk_visited w'" "qe_node a \<in> wk_visited w'"
  shows "entry_ok g m changed w' a"
proof -
  from a obtain t where t: "(qe_node a, t) \<in> set nts" "qe_via a = qe_via q @ [(qe_node q, t)]"
    and da: "qe_depth a = Suc (qe_depth q)" and la: "qe_lineage a = qe_lineage q @ [qe_node a]"
    by (auto simp: entry_from_def)
  have "(qe_node q, qe_node a) \<in> affects g m" using t(1) affects_Image [OF s] by force
  then have "successively (\<lambda>a b. (a, b) \<in> affects g m) (qe_lineage a)"
    using q unfolding la by (subst successively_append_iff) (auto simp: entry_ok_def)
  moreover have "explained g m changed (path_entry a)"
    using q t da by (auto simp: entry_ok_def explained_def path_entry_def trail_snoc successors_at_Inr [OF s])
  ultimately show ?thesis using q v la by (auto simp: entry_ok_def)
qed

lemma walk_inv_expand:
  assumes inv: "walk_inv g m changed mx (q # qs) w" and s: "graph_successors g m (qe_node q) = Inr nts"
    and l: "\<not> at_limit mx (qe_depth q)" and e: "expand_node q nts w = (w', new)"
  shows "walk_inv g m changed mx (qs @ new) w'"
proof -
  let ?D = "reached changed w" and ?ws = "map qe_node new"
  note mt = expand_node_met [OF e, unfolded met_def]
  from inv have si: "impact.search_inv g m changed mx ?D ((qe_node q, qe_depth q) # queue_view qs)"
    and wok: "walk_ok g m changed w" and qok: "entry_ok g m changed w q" and qsok: "\<forall>x \<in> set qs. entry_ok g m changed w x"
    and d: "distinct (map qe_node (q # qs))" and t: "wk_truncated w = truncates g m mx (?D - set (queue_view (q # qs)))"
    by (auto simp: walk_inv_def)
  have vis: "wk_visited w = fst ` ?D" using wok by (simp add: walk_ok_def)
  have depth: "\<forall>a \<in> set new. qe_depth a = Suc (qe_depth q)" using mt by (auto simp: entry_from_def)
  have ws: "set ?ws = affects g m `` {qe_node q} - fst ` ?D"
    using mt qok unfolding affects_Image [OF s] vis [symmetric] entry_ok_def by auto
  have D': "reached changed w' = ?D \<union> (\<lambda>w. (w, Suc (qe_depth q))) ` set ?ws"
  proof -
    have "(\<lambda>p. (ip_node_id p, ip_depth p)) ` set (map path_entry new) = (\<lambda>w. (w, Suc (qe_depth q))) ` set ?ws"
      unfolding set_map image_image using depth by (intro image_cong) (auto simp: path_entry_def)
    moreover have "wk_affected w' = wk_affected w @ map path_entry new" using mt by blast
    ultimately show ?thesis by (simp add: reached_def image_Un Un_assoc)
  qed
  have Q': "queue_view (qs @ new) = queue_view qs @ map (\<lambda>w. (w, Suc (qe_depth q))) ?ws"
    using depth by simp
  have 1: "impact.search_inv g m changed mx (reached changed w') (queue_view (qs @ new))"
    unfolding D' Q' by (rule impact.search_inv_expand [OF si _ ws]) (use l in simp)
  have vis': "wk_visited w' = fst ` reached changed w'" 
  proof -
    have "wk_visited w' = wk_visited w \<union> set ?ws" using mt by blast
    then show ?thesis unfolding D' vis by (simp add: image_Un image_image)
  qed
  have ok': "entry_ok g m changed w' a" if "a \<in> set new" for a
    using that mt by (intro entry_from_ok [OF qok s]) auto
  have 2: "walk_ok g m changed w'"
  proof -
    have "is_loop g m c" if "c \<in> closed_cycle q ` (fst ` set nts \<inter> set (qe_lineage q))" for c
    proof -
      from that obtain nb where nb: "c = closed_cycle q nb" "nb \<in> fst ` set nts" "nb \<in> set (qe_lineage q)" by blast
      from nb(2) have "(last (qe_lineage q), nb) \<in> affects g m"
        unfolding affects_Image [OF s, symmetric] using qok by (simp add: entry_ok_def)
      with nb qok show ?thesis by (auto simp: entry_ok_def intro: closed_cycle_loop)
    qed
    moreover have "explained g m changed (path_entry a)" if "a \<in> set new" for a
      using ok' [OF that] by (simp add: entry_ok_def)
    moreover have "set ?ws \<inter> (ip_node_id ` set (wk_affected w) \<union> set changed) = {}"
      using ws by (force simp: reached_def)
    ultimately show ?thesis using wok mt vis' unfolding walk_ok_def by (auto simp: path_entry_def comp_def)
  qed
  have 3: "distinct (map qe_node (qs @ new))"
  proof -
    have "set (map qe_node qs) \<subseteq> fst ` ?D" using si by (force simp: impact.search_inv_def impact.queue_ok_def)
    then show ?thesis using d mt ws by auto
  qed
  have 4: "truncates g m mx (reached changed w' - set (queue_view (qs @ new))) = wk_truncated w'"
  proof -
    have "(?D \<union> N) - (set (queue_view qs) \<union> N) = ?D - set (queue_view qs)" if "?D \<inter> N = {}" for N
      using that by blast
    note drop_new = this
    have "reached changed w' - set (queue_view (qs @ new)) = ?D - set (queue_view qs)"
    proof -
      have "x \<notin> (\<lambda>w. (w, Suc (qe_depth q))) ` set ?ws" if "x \<in> ?D" for x
      proof
        assume "x \<in> (\<lambda>w. (w, Suc (qe_depth q))) ` set ?ws"
        then have "fst x \<in> set ?ws" by (metis (no_types, lifting) fst_conv imageE)
        with that show False unfolding ws by blast
      qed
      then have "?D \<inter> (\<lambda>w. (w, Suc (qe_depth q))) ` set ?ws = {}" by blast
      moreover have "set (map (\<lambda>w. (w, Suc (qe_depth q))) ?ws) = (\<lambda>w. (w, Suc (qe_depth q))) ` set ?ws" by (rule set_map)
      ultimately show ?thesis unfolding D' Q' set_append by (simp only: drop_new)
    qed
    moreover have "?D - set (queue_view (q # qs)) = (?D - set (queue_view qs)) - {(qe_node q, qe_depth q)}"
      unfolding list.map list.set by (rule Diff_insert)
    moreover have "truncates g m mx (S - {(qe_node q, qe_depth q)}) = truncates g m mx S" for S
      using l by (auto simp: truncates_def)
    moreover have "wk_truncated w' = wk_truncated w" using mt by blast
    ultimately show ?thesis using t by simp
  qed
  have 5: "entry_ok g m changed w' x" if "x \<in> set (qs @ new)" for x
    using that ok' qsok mt by (auto simp: entry_ok_def)
  from 1 2 3 4 5 show ?thesis unfolding walk_inv_def by auto
qed

lemma walk_graph_ok:
  "walk_inv g m changed mx qs w \<Longrightarrow> walk_graph g m mx qs w = Inr w' \<Longrightarrow> walk_inv g m changed mx [] w'"
proof (induction g m mx qs w rule: walk_graph.induct)
  case (1 g moment mx w)
  then show ?case by simp
next
  case (2 g moment mx q qs w)
  then obtain nts where s: "graph_successors g moment (qe_node q) = Inr nts" by (auto split: sum.splits)
  show ?case
  proof (cases "at_limit mx (qe_depth q)")
    case True
    from 2(1) [OF s True walk_inv_skip [OF 2(3) s True]] 2(4) s True show ?thesis by simp
  next
    case False
    obtain w1 new where e: "expand_node q nts w = (w1, new)" by fastforce
    from 2(2) [OF s False e [symmetric] walk_inv_expand [OF 2(3) s False e]] 2(4) s False e show ?thesis by simp
  qed
qed

definition climb_inv :: "dependency_graph \<Rightarrow> datetime option \<Rightarrow> string \<Rightarrow> int option \<Rightarrow> (string \<times> nat) list \<Rightarrow> string set \<Rightarrow> string list \<Rightarrow> bool" where
  "climb_inv g m n mx queue seen order \<longleftrightarrow> (\<exists>D. origin.search_inv g m n mx D queue \<and> seen = fst ` D)
     \<and> set order = seen - {n} \<and> n \<in> seen \<and> distinct order"

lemma climb_inv_expand:
  assumes inv: "climb_inv g m n mx ((u, d) # queue) seen order" and p: "graph_parents g m u = Inr ps"
    and l: "\<not> at_limit mx d"
  shows "climb_inv g m n mx (queue @ map (\<lambda>p. (p, Suc d)) (filter (\<lambda>p. p \<notin> seen) ps))
    (seen \<union> set (filter (\<lambda>p. p \<notin> seen) ps)) (order @ filter (\<lambda>p. p \<notin> seen) ps)"
proof -
  let ?new = "filter (\<lambda>p. p \<notin> seen) ps"
  from inv obtain D where D: "origin.search_inv g m n mx D ((u, d) # queue)" "seen = fst ` D"
    by (auto simp: climb_inv_def)
  have ws: "set ?new = built_from g m `` {u} - fst ` D"
    unfolding D(2) by (auto simp: built_from_def parents_at_def p)
  have "origin.search_inv g m n mx (D \<union> (\<lambda>w. (w, Suc d)) ` set ?new) (queue @ map (\<lambda>w. (w, Suc d)) ?new)"
    by (rule origin.search_inv_expand [OF D(1) _ ws]) (use l in simp)
  moreover have "seen \<union> set ?new = fst ` (D \<union> (\<lambda>w. (w, Suc d)) ` set ?new)"
    unfolding D(2) by (simp only: image_Un image_image fst_conv image_ident)
  moreover have "distinct ps" using p by (auto simp: graph_parents_Inr)
  moreover have "set (order @ ?new) = (seen \<union> set ?new) - {n}" "n \<in> seen \<union> set ?new"
    using inv by (auto simp: climb_inv_def)
  moreover have "distinct (order @ ?new)" if "distinct ps" using inv that by (auto simp: climb_inv_def)
  ultimately show ?thesis unfolding climb_inv_def by blast
qed

lemma climb_graph_ok:
  "climb_inv g m n mx queue seen order \<Longrightarrow> climb_graph g m mx queue seen order = Inr order'
    \<Longrightarrow> \<exists>seen'. climb_inv g m n mx [] seen' order'"
proof (induction g m mx queue seen order rule: climb_graph.induct)
  case (1 g moment mx seen order)
  then show ?case by auto
next
  case (2 g moment mx u d queue seen order)
  show ?case
  proof (cases "at_limit mx d")
    case True
    have "climb_inv g moment n mx queue seen order"
    proof -
      from 2(3) obtain D where D: "origin.search_inv g moment n mx D ((u, d) # queue)" "seen = fst ` D"
        by (auto simp: climb_inv_def)
      have "origin.search_inv g moment n mx D queue" by (rule origin.search_inv_skip [OF D(1)]) (use True in simp)
      with 2(3) D(2) show ?thesis unfolding climb_inv_def by blast
    qed
    from 2(1) [OF True this] 2(4) True show ?thesis by simp
  next
    case False
    with 2(4) obtain ps where p: "graph_parents g moment u = Inr ps" by (auto split: sum.splits)
    let ?new = "filter (\<lambda>p. p \<notin> seen) ps"
    have "distinct ps" using p by (auto simp: graph_parents_Inr)
    then have m: "meet_parents d ps seen order queue
      = (seen \<union> set ?new, order @ ?new, queue @ map (\<lambda>p. (p, Suc d)) ?new)"
      by (simp only: meet_parents_eq Let_def)
    from 2(2) [OF False p m [symmetric] refl climb_inv_expand [OF 2(3) p False]] 2(4) False p m show ?thesis by simp
  qed
qed

lemma provenance_of_mem:
  assumes "provenance_of g n mx m = Inr order"
  shows "v \<in> set order \<longleftrightarrow> v \<noteq> n \<and> (\<exists>d. origin.within_limit g m n mx v d)" and "distinct order"
proof -
  have "climb_inv g m n mx [(n, 0)] {n} []"
    using origin.search_inv_init [of "[n]" n g m mx] by (auto simp: climb_inv_def intro!: exI [of _ "{(n, 0)}"])
  from climb_graph_ok [OF this assms [unfolded provenance_of_def]]
  obtain D where D: "origin.search_inv g m n mx D []" "set order = fst ` D - {n}" and "distinct order"
    by (auto simp: climb_inv_def)
  then show "distinct order" by simp
  show "v \<in> set order \<longleftrightarrow> v \<noteq> n \<and> (\<exists>d. origin.within_limit g m n mx v d)"
    unfolding D(2) origin.search_inv_done [OF D(1), symmetric] by force
qed

section \<open>Graphs built from edges\<close>

lemma edge_entries_update: "edge_entries (AList.update k v d) k' = (if k' = k then v else edge_entries d k')"
  by (simp add: edge_entries_def)

lemma dependency_graph_of_snoc: "dependency_graph_of (es @ [e]) = add_edge e (dependency_graph_of es)"
  by (simp add: dependency_graph_of_def)

lemma dependency_graph_of_edge_entries:
  "edge_entries (dg_out (dependency_graph_of es)) n = filter (\<lambda>e. de_source_id e = n) es"
  "edge_entries (dg_in (dependency_graph_of es)) n = filter (\<lambda>e. de_target_id e = n) es"
  "dg_nodes (dependency_graph_of es) = de_source_id ` set es \<union> de_target_id ` set es"
  "dg_edges (dependency_graph_of es) = es"
  by (induction es rule: rev_induct)
    (auto simp: dependency_graph_of_snoc add_edge_def edge_entries_update, auto simp: dependency_graph_of_def empty_graph_def edge_entries_def)

text \<open>The stamps of an edge compare with the moment: both naive or both aware.\<close>

definition comparable_at :: "datetime option \<Rightarrow> dependency_edge \<Rightarrow> bool" where
  "comparable_at m e \<longleftrightarrow> (\<forall>t \<in> set_option m. \<forall>s \<in> set_option (de_valid_from e) \<union> set_option (de_valid_to e).
     is_aware s = is_aware t)"

lemma dt_less_total: "is_aware s = is_aware t \<Longrightarrow> \<exists>b. dt_less s t = Inr b"
  by (cases s; cases t) auto

lemma live_at_total:
  assumes "comparable_at m e"
  shows "\<exists>b. live_at e m = Inr b"
proof (cases m)
  case None
  then show ?thesis by (auto simp: live_at_def)
next
  case (Some t)
  have "\<exists>b. (case de_valid_from e of None \<Rightarrow> Inr True | Some f \<Rightarrow> mapR Not (dt_less t f)) = Inr b"
    using assms dt_less_total [of t] by (cases "de_valid_from e") (fastforce simp: comparable_at_def Some mapR_def)+
  moreover have "\<exists>b. (case de_valid_to e of None \<Rightarrow> Inr True | Some u \<Rightarrow> dt_less t u) = Inr b"
    using assms dt_less_total [of t] by (cases "de_valid_to e") (fastforce simp: comparable_at_def Some)+
  ultimately show ?thesis unfolding live_at_def Some by (auto simp: mapR_def pairE_def)
qed

lemma live_edges_total:
  "(\<And>e. e \<in> set es \<Longrightarrow> comparable_at m e) \<Longrightarrow>
    live_edges p m es = Inr (filter (\<lambda>e. edge_propagation (de_edge_type e) = p \<and> live_at e m = Inr True) es)"
proof (induction es)
  case Nil
  then show ?case by simp
next
  case (Cons e es)
  obtain b where "live_at e m = Inr b" using live_at_total Cons.prems by fastforce
  with Cons show ?case by (simp add: mapR_def)
qed

text \<open>The edge that carries a change from \<open>a\<close> to \<open>b\<close> at a moment.\<close>

definition carries :: "datetime option \<Rightarrow> dependency_edge \<Rightarrow> string \<Rightarrow> string \<Rightarrow> bool" where
  "carries m e a b \<longleftrightarrow> live_at e m = Inr True \<and>
     (case edge_propagation (de_edge_type e) of
       PG_DOWNSTREAM \<Rightarrow> de_source_id e = a \<and> de_target_id e = b
     | PG_UPSTREAM \<Rightarrow> de_target_id e = a \<and> de_source_id e = b
     | PG_INERT \<Rightarrow> False)"

lemma carries_iff:
  "carries m e a b \<longleftrightarrow> live_at e m = Inr True \<and>
     (edge_propagation (de_edge_type e) = PG_DOWNSTREAM \<and> de_source_id e = a \<and> de_target_id e = b
      \<or> edge_propagation (de_edge_type e) = PG_UPSTREAM \<and> de_target_id e = a \<and> de_source_id e = b)"
  by (auto simp: carries_def split: propagation.splits)

lemma graph_relations:
  assumes "\<And>e. e \<in> set es \<Longrightarrow> comparable_at m e"
  shows "\<exists>nts. graph_successors (dependency_graph_of es) m n = Inr nts"
    and "\<exists>ps. graph_parents (dependency_graph_of es) m n = Inr ps"
    and "(a, b) \<in> affects (dependency_graph_of es) m \<longleftrightarrow> (\<exists>e \<in> set es. carries m e a b)"
    and "(b, a) \<in> built_from (dependency_graph_of es) m \<longleftrightarrow> (\<exists>e \<in> set es. carries m e a b)"
proof -
  have l: "live_edges p m (filter P es) = Inr (filter (\<lambda>e. edge_propagation (de_edge_type e) = p \<and> live_at e m = Inr True) (filter P es))"
    for p P using assms by (intro live_edges_total) auto
  note defs = graph_successors_def graph_parents_def dependency_graph_of_edge_entries l pairE_def mapR_def
  show "\<exists>nts. graph_successors (dependency_graph_of es) m n = Inr nts"
    and "\<exists>ps. graph_parents (dependency_graph_of es) m n = Inr ps" by (simp_all add: defs)
  let ?live = "\<lambda>p e. edge_propagation (de_edge_type e) = p \<and> live_at e m = Inr True"
  have c: "(\<exists>e \<in> set es. carries m e a b) \<longleftrightarrow> (\<exists>e \<in> set es. ?live PG_DOWNSTREAM e \<and> de_source_id e = a \<and> de_target_id e = b)
      \<or> (\<exists>e \<in> set es. ?live PG_UPSTREAM e \<and> de_target_id e = a \<and> de_source_id e = b)"
    unfolding carries_iff by blast
  have s: "fst ` set (successors_at (dependency_graph_of es) m a) =
      de_target_id ` {e \<in> set es. de_source_id e = a \<and> ?live PG_DOWNSTREAM e}
      \<union> de_source_id ` {e \<in> set es. de_target_id e = a \<and> ?live PG_UPSTREAM e}"
    by (simp add: successors_at_def defs image_Un image_image)
  show "(a, b) \<in> affects (dependency_graph_of es) m \<longleftrightarrow> (\<exists>e \<in> set es. carries m e a b)"
    unfolding c affects_def mem_Collect_eq prod.case s by blast
  have p: "set (parents_at (dependency_graph_of es) m b) =
      de_target_id ` {e \<in> set es. de_source_id e = b \<and> ?live PG_UPSTREAM e}
      \<union> de_source_id ` {e \<in> set es. de_target_id e = b \<and> ?live PG_DOWNSTREAM e}"
    by (simp add: parents_at_def defs)
  show "(b, a) \<in> built_from (dependency_graph_of es) m \<longleftrightarrow> (\<exists>e \<in> set es. carries m e a b)"
    unfolding c built_from_def mem_Collect_eq prod.case p by blast
qed

lemma walk_graph_total:
  "(\<And>n. \<exists>nts. graph_successors g m n = Inr nts) \<Longrightarrow> \<exists>w'. walk_graph g m mx qs w = Inr w'"
proof (induction g m mx qs w rule: walk_graph.induct)
  case (1 g moment mx w)
  then show ?case by simp
next
  case (2 g moment mx q qs w)
  obtain nts where s: "graph_successors g moment (qe_node q) = Inr nts" using 2(3) by blast
  obtain w1 new where e: "expand_node q nts w = (w1, new)" by fastforce
  from 2(1) [OF s] 2(2) [OF s _ e [symmetric]] 2(3) s e show ?case by (cases "at_limit mx (qe_depth q)") auto
qed

lemma climb_graph_total:
  "(\<And>n. \<exists>ps. graph_parents g m n = Inr ps) \<Longrightarrow> \<exists>order'. climb_graph g m mx queue seen order = Inr order'"
proof (induction g m mx queue seen order rule: climb_graph.induct)
  case (1 g moment mx seen order)
  then show ?case by simp
next
  case (2 g moment mx n d queue seen order)
  obtain ps where p: "graph_parents g moment n = Inr ps" using 2(3) by blast
  obtain s' o' q' where e: "meet_parents d ps seen order queue = (s', o', q')" by (metis prod_cases3)
  from 2(1) 2(2) [OF _ p e [symmetric] refl] 2(3) p e show ?case by (cases "at_limit mx d") auto
qed

lemma impact_of_Inr:
  assumes "impact_of g changed mx m = Inr r"
  obtains w where "walk_inv g m changed mx [] w" and "ir_affected r = wk_affected w"
    and "ir_truncated_at_depth r = wk_truncated w" and "ir_cycles_detected r = wk_cycles w"
proof -
  obtain w where w: "walk_graph g m mx
         (map (\<lambda>s. \<lparr>qe_node = s, qe_depth = 0, qe_via = [], qe_lineage = [s]\<rparr>) (fromkeys changed))
         \<lparr>wk_visited = set (fromkeys changed), wk_affected = [], wk_cycles = [], wk_truncated = False\<rparr> = Inr w"
    and r: "ir_affected r = wk_affected w" "ir_truncated_at_depth r = wk_truncated w" "ir_cycles_detected r = wk_cycles w"
    using assms by (auto simp: impact_of_def Let_def mapR_def split: sum.split_asm)
  have "walk_inv g m changed mx [] w" by (rule walk_graph_ok [OF walk_inv_init w]) simp_all
  with r show thesis using that by blast
qed

text \<open>The nodes a finished walk has reached are the changed ones and the affected ones.\<close>

lemma walk_inv_done:
  assumes "walk_inv g m changed mx [] w"
  shows "(v, d) \<in> (\<lambda>p. (ip_node_id p, ip_depth p)) ` set (wk_affected w) \<longleftrightarrow>
      0 < d \<and> impact.within_limit g m changed mx v d"
    and "wk_truncated w = (\<exists>v d. impact.within_limit g m changed mx v d \<and> at_limit mx d \<and> (\<exists>x. (v, x) \<in> affects g m))"
proof -
  from assms have s: "impact.search_inv g m changed mx (reached changed w) []"
    and t: "wk_truncated w = truncates g m mx (reached changed w)" and wok: "walk_ok g m changed w"
    by (auto simp: walk_inv_def)
  note D = impact.search_inv_done [OF s]
  have "d \<noteq> 0" if "p \<in> set (wk_affected w)" "v = ip_node_id p" "d = ip_depth p" for p
  proof
    assume "d = 0"
    moreover have "(v, d) \<in> reached changed w" using that by (auto simp: reached_def)
    ultimately have "v \<in> set changed" by (simp add: D impact.within_limit_def impact.at_distance_0)
    with that wok show False by (auto simp: walk_ok_def)
  qed
  then show "(v, d) \<in> (\<lambda>p. (ip_node_id p, ip_depth p)) ` set (wk_affected w) \<longleftrightarrow>
      0 < d \<and> impact.within_limit g m changed mx v d"
    unfolding D [symmetric] by (auto simp: reached_def)
  have "successors_at g m u \<noteq> [] \<longleftrightarrow> (\<exists>x. (u, x) \<in> affects g m)" for u
    by (cases "successors_at g m u") (auto simp: affects_def)
  then show "wk_truncated w = (\<exists>v d. impact.within_limit g m changed mx v d \<and> at_limit mx d \<and> (\<exists>x. (v, x) \<in> affects g m))"
    unfolding t truncates_def using D by fast
qed

lemmas impact_limit_defs = impact.within_limit_def impact.at_distance_def

lemma unlimited:
  "impact.within_limit g m changed None v d \<longleftrightarrow> impact.at_distance g m changed v d"
  "origin.within_limit g m n None v d \<longleftrightarrow> origin.at_distance g m n v d"
  unfolding impact.within_limit_def origin.within_limit_def by (simp_all add: at_limit_def)

lemma impact_of_total:
  "(\<And>n. \<exists>nts. graph_successors g m n = Inr nts) \<Longrightarrow> \<exists>r. impact_of g changed mx m = Inr r"
proof -
  assume "\<And>n. \<exists>nts. graph_successors g m n = Inr nts"
  then obtain w where w: "walk_graph g m mx
         (map (\<lambda>s. \<lparr>qe_node = s, qe_depth = 0, qe_via = [], qe_lineage = [s]\<rparr>) (fromkeys changed))
         \<lparr>wk_visited = set (fromkeys changed), wk_affected = [], wk_cycles = [], wk_truncated = False\<rparr> = Inr w"
    using walk_graph_total by blast
  show "\<exists>r. impact_of g changed mx m = Inr r" unfolding impact_of_def Let_def w by (simp add: mapR_def)
qed

lemma impact_of_closure:
  assumes "impact_of g changed None m = Inr r"
  shows "set (affected_ids r) = (affects g m)\<^sup>* `` set changed - set changed"
proof -
  obtain w where w: "walk_inv g m changed None [] w" and r: "ir_affected r = wk_affected w"
    by (rule impact_of_Inr [OF assms])
  have "v \<in> set (affected_ids r) \<longleftrightarrow> v \<in> (affects g m)\<^sup>* `` set changed - set changed" for v
  proof -
    have "v \<in> set (affected_ids r) \<longleftrightarrow> (\<exists>d. 0 < d \<and> impact.within_limit g m changed None v d)"
      unfolding walk_inv_done(1) [OF w, symmetric] by (auto simp: affected_ids_def r)
    also have "\<dots> \<longleftrightarrow> (\<exists>d. 0 < d \<and> impact.at_distance g m changed v d)"
      by (simp only: unlimited)
    finally show ?thesis unfolding impact.positive_distance .
  qed
  then show ?thesis by blast
qed

lemma provenance_of_closure:
  assumes "provenance_of g n None m = Inr ps"
  shows "set ps = (built_from g m)\<^sup>* `` {n} - {n}"
proof -
  have "v \<in> set ps \<longleftrightarrow> v \<in> (built_from g m)\<^sup>* `` {n} - {n}" for v
    unfolding provenance_of_mem(1) [OF assms] Diff_iff origin.reachable_distance [symmetric]
    using unlimited(2) [of g m n v] by auto
  then show ?thesis by blast
qed

section \<open>Properties\<close>

text \<open>C30: the impact of a change is exact. A report lists, each once, exactly the nodes whose distance
  from the changed nodes along the edges' own direction of propagation is positive and within the
  depth limit, with that distance and with a path of that length from a changed node; without a
  limit these are all the nodes a change reaches except the changed ones. It is marked truncated
  exactly when a node at the limit would affect another.\<close>

theorem impact_exact:
  assumes "impact_of g changed mx m = Inr r"
  shows "(\<forall>v d. (v, d) \<in> (\<lambda>p. (ip_node_id p, ip_depth p)) ` set (ir_affected r) \<longleftrightarrow> 0 < d
        \<and> ((\<exists>s \<in> set changed. (s, v) \<in> affects g m ^^ d) \<and> (\<forall>k < d. \<forall>s \<in> set changed. (s, v) \<notin> affects g m ^^ k))
        \<and> (\<forall>k < d. \<not> at_limit mx k))
    \<and> distinct (affected_ids r)
    \<and> (\<forall>p \<in> set (ir_affected r). explained g m changed p)
    \<and> (mx = None \<longrightarrow> set (affected_ids r) = (affects g m)\<^sup>* `` set changed - set changed)
    \<and> (ir_truncated_at_depth r \<longleftrightarrow> (\<exists>v d. ((\<exists>s \<in> set changed. (s, v) \<in> affects g m ^^ d)
          \<and> (\<forall>k < d. \<forall>s \<in> set changed. (s, v) \<notin> affects g m ^^ k)) \<and> (\<forall>k < d. \<not> at_limit mx k)
          \<and> at_limit mx d \<and> (\<exists>x. (v, x) \<in> affects g m)))"
proof -
  obtain w where w: "walk_inv g m changed mx [] w" and r: "ir_affected r = wk_affected w"
    "ir_truncated_at_depth r = wk_truncated w" by (rule impact_of_Inr [OF assms])
  note fin = walk_inv_done [OF w]
  have wok: "walk_ok g m changed w" using w by (simp add: walk_inv_def)
  have "mx = None \<longrightarrow> set (affected_ids r) = (affects g m)\<^sup>* `` set changed - set changed"
    using impact_of_closure assms by blast
  with fin wok show ?thesis
    unfolding r affected_ids_def impact_limit_defs walk_ok_def by blast
qed

text \<open>Only the edges count: edges that record history or references (\<open>SUPERSEDES\<close>,
  \<open>REFERENCES\<close>) carry no change.\<close>

definition demo_edges :: "dependency_edge list" where
  "demo_edges = map (\<lambda>(a, b, t). \<lparr>de_source_id = a, de_target_id = b, de_edge_type = t, de_valid_from = None, de_valid_to = None\<rparr>)
     [(''clause'', ''chunk'', SUPPORTS), (''flow'', ''chunk'', DEPENDS_ON), (''note'', ''clause'', REFERENCES)]"

lemma demo_impact: "impact_of (dependency_graph_of demo_edges) [''clause''] None None = Inr
  \<lparr>ir_changed = [''clause''], ir_affected =
     [\<lparr>ip_node_id = ''chunk'', ip_depth = 1, ip_via = [(''clause'', SUPPORTS)]\<rparr>,
      \<lparr>ip_node_id = ''flow'', ip_depth = 2, ip_via = [(''clause'', SUPPORTS), (''chunk'', DEPENDS_ON)]\<rparr>],
   ir_truncated_at_depth = False, ir_cycles_detected = [], ir_unknown_nodes = []\<rparr>"
  by code_simp

theorem impact_exact_witness:
  "set (affected_ids (case impact_of (dependency_graph_of demo_edges) [''clause''] None None of Inr r \<Rightarrow> r))
     = (affects (dependency_graph_of demo_edges) None)\<^sup>* `` {''clause''} - {''clause''}
   \<and> explained (dependency_graph_of demo_edges) None [''clause'']
      \<lparr>ip_node_id = ''flow'', ip_depth = 2, ip_via = [(''clause'', SUPPORTS), (''chunk'', DEPENDS_ON)]\<rparr>"
  using impact_exact [OF demo_impact] by (simp add: demo_impact)

text \<open>Fact: impact and provenance are converse. On a graph built from edges whose stamps compare with the
  moment both traversals return, and a node is in the impact of another exactly when that other is in
  its provenance.\<close>

theorem provenance_impact_converse:
  assumes "\<And>e. e \<in> set es \<Longrightarrow> comparable_at m e" and "a \<noteq> b"
  shows "\<exists>r ps. impact_of (dependency_graph_of es) [a] None m = Inr r
    \<and> provenance_of (dependency_graph_of es) b None m = Inr ps
    \<and> (b \<in> set (affected_ids r) \<longleftrightarrow> a \<in> set ps)"
proof -
  let ?g = "dependency_graph_of es"
  note rel = graph_relations [OF assms(1)]
  obtain r where r: "impact_of ?g [a] None m = Inr r"
    using impact_of_total rel(1) by blast
  obtain ps where p: "provenance_of ?g b None m = Inr ps"
    using climb_graph_total [of ?g m] rel(2) unfolding provenance_of_def by blast
  have "built_from ?g m = (affects ?g m)\<inverse>" using rel(3,4) by auto
  then have "(b, a) \<in> (built_from ?g m)\<^sup>* \<longleftrightarrow> (a, b) \<in> (affects ?g m)\<^sup>*" by (simp add: rtrancl_converse)
  then have "b \<in> set (affected_ids r) \<longleftrightarrow> a \<in> set ps"
    unfolding impact_of_closure [OF r] provenance_of_closure [OF p] using assms(2) by auto
  with r p show ?thesis by blast
qed

theorem provenance_impact_converse_witness:
  "\<exists>r ps. impact_of (dependency_graph_of demo_edges) [''clause''] None None = Inr r
    \<and> provenance_of (dependency_graph_of demo_edges) ''flow'' None None = Inr ps
    \<and> ''flow'' \<in> set (affected_ids r) \<and> ''clause'' \<in> set ps"
proof -
  have "comparable_at None e" if "e \<in> set demo_edges" for e by (simp add: comparable_at_def)
  then show ?thesis using provenance_impact_converse [of demo_edges None "''clause''" "''flow''"] demo_impact
    by (auto simp: affected_ids_def)
qed

text \<open>Fact: a reported cycle is one. Each cycle a report lists is a closed walk along which changes
  propagate, so that an acyclic graph never gets one.\<close>

theorem cycles_detected_sound:
  assumes "impact_of g changed mx m = Inr r" and "c \<in> set (ir_cycles_detected r)"
  shows "2 \<le> length c \<and> hd c = last c \<and> successively (\<lambda>a b. (a, b) \<in> affects g m) c \<and> \<not> acyclic (affects g m)"
proof -
  have "is_loop g m c" using assms by (elim impact_of_Inr) (auto simp: walk_inv_def walk_ok_def)
  then show ?thesis using is_loop_cyclic unfolding is_loop_def by blast
qed

text \<open>Fact: cycles are missed. The traversal only looks for a cycle on the path by which it first reached a
  node; two affected nodes that depend on each other and are both reached from outside form a cycle
  that no report mentions.\<close>

theorem cycle_missed:
  "\<exists>es r. list_all (\<lambda>e. mk_dependency_edge e = Inr e) es
    \<and> impact_of (dependency_graph_of es) [''s''] None None = Inr r
    \<and> ir_cycles_detected r = [] \<and> affected_ids r = [''b'', ''c'']
    \<and> (''b'', ''c'') \<in> affects (dependency_graph_of es) None \<and> (''c'', ''b'') \<in> affects (dependency_graph_of es) None"
proof -
  let ?e = "\<lambda>a b. \<lparr>de_source_id = a, de_target_id = b, de_edge_type = DEPENDS_ON, de_valid_from = None, de_valid_to = None\<rparr>"
  let ?es = "[?e ''b'' ''s'', ?e ''c'' ''s'', ?e ''b'' ''c'', ?e ''c'' ''b'']"
  have i: "impact_of (dependency_graph_of ?es) [''s''] None None = Inr
    \<lparr>ir_changed = [''s''], ir_affected = [\<lparr>ip_node_id = ''b'', ip_depth = 1, ip_via = [(''s'', DEPENDS_ON)]\<rparr>,
       \<lparr>ip_node_id = ''c'', ip_depth = 1, ip_via = [(''s'', DEPENDS_ON)]\<rparr>],
     ir_truncated_at_depth = False, ir_cycles_detected = [], ir_unknown_nodes = []\<rparr>"
    by code_simp
  have c: "(a, b) \<in> affects (dependency_graph_of ?es) None \<longleftrightarrow> (\<exists>e \<in> set ?es. carries None e a b)" for a b
    by (rule graph_relations(3)) (simp add: comparable_at_def)
  have "(''b'', ''c'') \<in> affects (dependency_graph_of ?es) None" "(''c'', ''b'') \<in> affects (dependency_graph_of ?es) None"
    unfolding c by (simp_all add: carries_def live_at_def)
  moreover have "list_all (\<lambda>e. mk_dependency_edge e = Inr e) ?es" by (simp add: mk_dependency_edge_def)
  ultimately show ?thesis using i by (intro exI [of _ ?es]) (auto simp: affected_ids_def)
qed

end
