(* ===== verification/Recompilation.thy ===== *)
theory Recompilation
  imports Dependency
begin

text \<open>
  \<^verbatim>\<open>packages/cir-python/src/akc_cir/recompilation.py\<close> with the data of \<^verbatim>\<open>semantic_diff.py\<close> it
  consumes: which artifacts a selective rebuild must touch, the comparison of its result with a full
  rebuild, and the order of the rebuild. Dictionaries that are only read are association lists with
  distinct keys.
\<close>

section \<open>The change set of a diff\<close>

datatype diff_level = DL_BINARY | DL_STRUCTURAL | DL_EVIDENCE | DL_SEMANTIC | DL_GRAPH

fun diff_level_value :: "diff_level \<Rightarrow> string" where
  "diff_level_value DL_BINARY = ''L0''"
| "diff_level_value DL_STRUCTURAL = ''L1''"
| "diff_level_value DL_EVIDENCE = ''L2''"
| "diff_level_value DL_SEMANTIC = ''L3''"
| "diff_level_value DL_GRAPH = ''L4''"

datatype change_kind =
    CK_CONTENT_UNCHANGED | CK_STRUCTURE_CHANGED | CK_EVIDENCE_ADDED | CK_EVIDENCE_REMOVED | CK_EVIDENCE_MOVED
  | CK_UNIT_ADDED | CK_UNIT_REMOVED | CK_MODIFIED_CLAIM | CK_ENTITY_CHANGED | CK_RELATIONSHIP_ADDED
  | CK_RELATIONSHIP_REMOVED | CK_AUTHORITY_CHANGED | CK_IDENTITY_UNRESOLVED

fun change_kind_value :: "change_kind \<Rightarrow> string" where
  "change_kind_value CK_CONTENT_UNCHANGED = ''content_unchanged''"
| "change_kind_value CK_STRUCTURE_CHANGED = ''structure_changed''"
| "change_kind_value CK_EVIDENCE_ADDED = ''evidence_added''"
| "change_kind_value CK_EVIDENCE_REMOVED = ''evidence_removed''"
| "change_kind_value CK_EVIDENCE_MOVED = ''evidence_moved''"
| "change_kind_value CK_UNIT_ADDED = ''unit_added''"
| "change_kind_value CK_UNIT_REMOVED = ''unit_removed''"
| "change_kind_value CK_MODIFIED_CLAIM = ''modified_claim''"
| "change_kind_value CK_ENTITY_CHANGED = ''entity_changed''"
| "change_kind_value CK_RELATIONSHIP_ADDED = ''relationship_added''"
| "change_kind_value CK_RELATIONSHIP_REMOVED = ''relationship_removed''"
| "change_kind_value CK_AUTHORITY_CHANGED = ''authority_changed''"
| "change_kind_value CK_IDENTITY_UNRESOLVED = ''identity_unresolved''"

record semantic_change =
  sc_kind :: change_kind
  sc_logical_id :: "string option"
  sc_before :: "string option"
  sc_after :: "string option"
  sc_detail :: string
  sc_candidates :: "string list"

definition change_record :: "semantic_change \<Rightarrow> jval" where
  "change_record c = JObj ([(''kind'', JStr (change_kind_value (sc_kind c)))]
     @ List.map_filter (\<lambda>(name, v). map_option (\<lambda>x. (name, JStr x)) v)
         [(''logical_id'', sc_logical_id c), (''before'', sc_before c), (''after'', sc_after c),
          (''detail'', if sc_detail c = [] then None else Some (sc_detail c))]
     @ (if sc_candidates c = [] then [] else [(''candidates'', JList (map JStr (sc_candidates c)))]))"

record semantic_diff =
  sd_level :: diff_level
  sd_content_changed :: bool
  sd_changes :: "semantic_change list"
  sd_change_id :: string

definition diff_unresolved :: "semantic_diff \<Rightarrow> semantic_change list" where
  "diff_unresolved d = filter (\<lambda>c. sc_kind c = CK_IDENTITY_UNRESOLVED) (sd_changes d)"

fun collect_ids :: "semantic_change list \<Rightarrow> string list \<Rightarrow> string list" where
  "collect_ids [] seen = seen"
| "collect_ids (c # cs) seen =
    (if sc_kind c = CK_IDENTITY_UNRESOLVED then collect_ids cs seen
     else (case sc_logical_id c of
       None \<Rightarrow> collect_ids cs seen
     | Some i \<Rightarrow> if i \<noteq> [] \<and> i \<notin> set seen then collect_ids cs (seen @ [i]) else collect_ids cs seen))"

definition changed_logical_ids :: "semantic_diff \<Rightarrow> string list" where
  "changed_logical_ids d = collect_ids (sd_changes d) []"

definition diff_record :: "semantic_diff \<Rightarrow> jval" where
  "diff_record d = JObj [(''change_id'', JStr (sd_change_id d)), (''level'', JStr (diff_level_value (sd_level d))),
     (''content_changed'', JBool (sd_content_changed d)), (''changes'', JList (map change_record (sd_changes d)))]"

text \<open>The digest over the change set; \<open>json.dumps\<close> with the options of the source is \<open>dumps\<close>.\<close>

definition change_id_of :: "renv \<Rightarrow> jval list \<Rightarrow> string" where
  "change_id_of E records = ''chg_'' @ take 32 (sha256 E (dumps E (JList records)))"

section \<open>The plan of a selective rebuild\<close>

datatype artifact_state = AR_STALE | AR_UNRESOLVED | AR_CURRENT

fun artifact_state_value :: "artifact_state \<Rightarrow> string" where
  "artifact_state_value AR_STALE = ''stale''"
| "artifact_state_value AR_UNRESOLVED = ''unresolved''"
| "artifact_state_value AR_CURRENT = ''current''"

record recompilation_target =
  rt_artifact_id :: string
  rt_state :: artifact_state
  rt_reason :: string
  rt_depth :: nat
  rt_path :: string

record recompilation_plan =
  rn_change_id :: string
  rn_targets :: "recompilation_target list"
  rn_total_artifacts :: nat
  rn_cycles_detected :: "string list list"
  rn_truncated_at_depth :: bool

definition plan_stale :: "recompilation_plan \<Rightarrow> string list" where
  "plan_stale p = map rt_artifact_id (filter (\<lambda>t. rt_state t = AR_STALE) (rn_targets p))"

definition plan_unresolved :: "recompilation_plan \<Rightarrow> string list" where
  "plan_unresolved p = map rt_artifact_id (filter (\<lambda>t. rt_state t = AR_UNRESOLVED) (rn_targets p))"

definition to_rebuild :: "recompilation_plan \<Rightarrow> string list" where
  "to_rebuild p = fromkeys (plan_stale p @ plan_unresolved p)"

definition work_avoided :: "recompilation_plan \<Rightarrow> int" where
  "work_avoided p = int (rn_total_artifacts p) - int (length (to_rebuild p))"

definition work_avoided_fraction :: "recompilation_plan \<Rightarrow> rat" where
  "work_avoided_fraction p = (if rn_total_artifacts p = 0 then 0
     else of_int (work_avoided p) / of_nat (rn_total_artifacts p))"

definition explain_target :: "string \<Rightarrow> recompilation_plan \<Rightarrow> string option" where
  "explain_target a p = map_option rt_reason (List.find (\<lambda>t. rt_artifact_id t = a) (rn_targets p))"

definition plan_record :: "recompilation_plan \<Rightarrow> jval" where
  "plan_record p = JObj
     [(''change_id'', JStr (rn_change_id p)), (''total_artifacts'', JInt (int (rn_total_artifacts p))),
      (''rebuild_count'', JInt (int (length (to_rebuild p)))), (''work_avoided'', JInt (work_avoided p)),
      (''targets'', JList (map (\<lambda>t. JObj
         [(''artifact_id'', JStr (rt_artifact_id t)), (''state'', JStr (artifact_state_value (rt_state t))),
          (''reason'', JStr (rt_reason t)), (''depth'', JInt (int (rt_depth t)))]) (rn_targets p)))]"

text \<open>\<open>{path.node_id: path for path in report.affected}\<close>: the last path of a node counts.\<close>

definition reached_paths :: "impact_report \<Rightarrow> string \<rightharpoonup> impact_path" where
  "reached_paths r = map_of (rev (map (\<lambda>p. (ip_node_id p, p)) (ir_affected r)))"

text \<open>What depends on the candidates of an unsettled identity, unless a change reached it, and then
  the candidates themselves (\<open>setdefault\<close>).\<close>

definition note_shadow :: "(string \<rightharpoonup> impact_path) \<Rightarrow> impact_path \<Rightarrow> (string \<rightharpoonup> string) \<Rightarrow> (string \<rightharpoonup> string)" where
  "note_shadow hits p m = (if hits (ip_node_id p) = None then m(ip_node_id p \<mapsto> describe_path p) else m)"

definition note_candidate :: "(string \<rightharpoonup> impact_path) \<Rightarrow> string \<Rightarrow> (string \<rightharpoonup> string) \<Rightarrow> (string \<rightharpoonup> string)" where
  "note_candidate hits s m = (if hits s = None \<and> m s = None
     then m(s \<mapsto> s @ '' is a candidate in an unsettled identity'') else m)"

definition unresolved_reached ::
  "dependency_graph \<Rightarrow> (string \<rightharpoonup> impact_path) \<Rightarrow> string list \<Rightarrow> int option \<Rightarrow> pyerr + (string \<rightharpoonup> string)" where
  "unresolved_reached g hits seeds max_depth =
    (if seeds = [] then Inr Map.empty
     else mapR (\<lambda>shadow. fold (note_candidate hits) (fromkeys seeds)
         (fold (note_shadow hits) (ir_affected shadow) Map.empty))
       (impact_of g (fromkeys seeds) max_depth None))"

definition target_of ::
  "(string \<rightharpoonup> impact_path) \<Rightarrow> (string \<rightharpoonup> string) \<Rightarrow> string \<Rightarrow> recompilation_target" where
  "target_of hits unsettled a =
    (case hits a of
      Some p \<Rightarrow> \<lparr>rt_artifact_id = a, rt_state = AR_STALE, rt_reason = describe_path p, rt_depth = ip_depth p,
                 rt_path = describe_path p\<rparr>
    | None \<Rightarrow>
      (case unsettled a of
        Some why \<Rightarrow> \<lparr>rt_artifact_id = a, rt_state = AR_UNRESOLVED,
                     rt_reason = ''reached only through an identity the diff could not settle: '' @ why,
                     rt_depth = 0, rt_path = []\<rparr>
      | None \<Rightarrow> \<lparr>rt_artifact_id = a, rt_state = AR_CURRENT, rt_reason = ''no change reached it'',
                 rt_depth = 0, rt_path = []\<rparr>))"

definition unsettled_candidates :: "semantic_diff \<Rightarrow> string list" where
  "unsettled_candidates diff = concat (map sc_candidates (diff_unresolved diff))"

definition plan_recompilation ::
  "semantic_diff \<Rightarrow> dependency_graph \<Rightarrow> string list \<Rightarrow> int option \<Rightarrow> pyerr + recompilation_plan" where
  "plan_recompilation diff g artifacts max_depth =
    (let inventory = fromkeys artifacts in
     if \<not> sd_content_changed diff then Inr
       \<lparr>rn_change_id = sd_change_id diff,
        rn_targets = map (\<lambda>a. \<lparr>rt_artifact_id = a, rt_state = AR_CURRENT,
           rt_reason = ''the source content did not change'', rt_depth = 0, rt_path = []\<rparr>) inventory,
        rn_total_artifacts = length inventory, rn_cycles_detected = [], rn_truncated_at_depth = False\<rparr>
     else (case impact_of g (changed_logical_ids diff) max_depth None of
       Inl err \<Rightarrow> Inl err
     | Inr report \<Rightarrow>
         let hits = reached_paths report;
             seeds = unsettled_candidates diff
         in mapR (\<lambda>unsettled.
              \<lparr>rn_change_id = sd_change_id diff, rn_targets = map (target_of hits unsettled) inventory,
               rn_total_artifacts = length inventory, rn_cycles_detected = ir_cycles_detected report,
               rn_truncated_at_depth = ir_truncated_at_depth report\<rparr>)
            (unresolved_reached g hits seeds max_depth)))"

section \<open>Selective against full rebuild\<close>

record equivalence_report =
  eq_equivalent :: bool
  eq_compared :: nat
  eq_diverged :: "string list"
  eq_missing_from_selective :: "string list"
  eq_unexpectedly_rebuilt :: "string list"
  eq_stale_left_behind :: "string list"

definition equivalence_record :: "equivalence_report \<Rightarrow> jval" where
  "equivalence_record r = JObj
     [(''equivalent'', JBool (eq_equivalent r)), (''compared'', JInt (int (eq_compared r))),
      (''diverged'', JList (map JStr (eq_diverged r))),
      (''missing_from_selective'', JList (map JStr (eq_missing_from_selective r))),
      (''unexpectedly_rebuilt'', JList (map JStr (eq_unexpectedly_rebuilt r))),
      (''stale_left_behind'', JList (map JStr (eq_stale_left_behind r)))]"

text \<open>The loop over the sorted full rebuild: diverged artifacts, and those among them that were reused.\<close>

fun compare_all ::
  "(string \<rightharpoonup> string) \<Rightarrow> (string \<rightharpoonup> string) \<Rightarrow> (string \<rightharpoonup> string) \<Rightarrow> (string \<times> string) list
   \<Rightarrow> string list \<times> string list \<Rightarrow> string list \<times> string list" where
  "compare_all combined carried selective [] acc = acc"
| "compare_all combined carried selective ((a, expected) # rest) (diverged, left) =
    (case combined a of
      None \<Rightarrow> compare_all combined carried selective rest (diverged, left)
    | Some actual \<Rightarrow>
        if actual = expected then compare_all combined carried selective rest (diverged, left)
        else compare_all combined carried selective rest (diverged @ [a],
          if carried a \<noteq> None \<and> selective a = None then left @ [a] else left))"

definition verify_equivalence ::
  "(string \<times> string) list \<Rightarrow> (string \<times> string) list \<Rightarrow> (string \<times> string) list \<Rightarrow> recompilation_plan option
   \<Rightarrow> equivalence_report" where
  "verify_equivalence full selective carried p =
    (let combined = map_of carried ++ map_of selective;
         (diverged, left) = compare_all combined (map_of carried) (map_of selective) (sort_key fst full) ([], []);
         missing = sorted_set (filter (\<lambda>a. combined a = None) (map fst full));
         unexpected = (case p of None \<Rightarrow> []
           | Some pl \<Rightarrow> sorted_set (filter (\<lambda>a. a \<notin> set (to_rebuild pl)) (map fst selective)))
     in \<lparr>eq_equivalent = (diverged = [] \<and> missing = []), eq_compared = length full, eq_diverged = diverged,
         eq_missing_from_selective = missing, eq_unexpectedly_rebuilt = unexpected, eq_stale_left_behind = left\<rparr>)"

definition content_hash :: "renv \<Rightarrow> jval \<Rightarrow> string" where
  "content_hash E payload = ''sha256:'' @ sha256 E (dumps E payload)"

section \<open>The order of a rebuild\<close>

fun take_once :: "string list \<Rightarrow> string set \<Rightarrow> string list" where
  "take_once [] remaining = []"
| "take_once (a # xs) remaining =
    (if a \<in> remaining then a # take_once xs (remaining - {a}) else take_once xs remaining)"

definition rebuild_order :: "recompilation_plan \<Rightarrow> string list" where
  "rebuild_order p =
    (let targets = to_rebuild p;
         depth_of = map_of (rev (map (\<lambda>t. (rt_artifact_id t, rt_depth t)) (rn_targets p)));
         depth = (\<lambda>a. case depth_of a of None \<Rightarrow> 0 | Some d \<Rightarrow> d);
         ordered = take_once (sort_key (\<lambda>a. (depth a, a)) targets) (set targets);
         cycle_members = set (concat (rn_cycles_detected p))
     in filter (\<lambda>a. a \<notin> cycle_members) ordered @ filter (\<lambda>a. a \<in> cycle_members) ordered)"

section \<open>What a plan contains\<close>

lemma graph_successors_now: "\<exists>nts. graph_successors g None n = Inr nts"
proof -
  have "live_edges p None es = Inr (filter (\<lambda>e. edge_propagation (de_edge_type e) = p \<and> live_at e None = Inr True) es)" for p es
    by (rule live_edges_total) (simp add: comparable_at_def)
  then show ?thesis by (simp add: graph_successors_def pairE_def mapR_def)
qed

lemmas impact_of_now = impact_of_total [OF graph_successors_now]

lemma reached_paths_iff: "reached_paths r a \<noteq> None \<longleftrightarrow> a \<in> set (affected_ids r)"
  by (simp add: reached_paths_def affected_ids_def map_of_eq_None_iff image_image)

lemma fold_note_shadow:
  "fold (note_shadow hits) ps m a \<noteq> None \<longleftrightarrow> m a \<noteq> None \<or> (hits a = None \<and> a \<in> ip_node_id ` set ps)"
  by (induction ps arbitrary: m) (auto simp: note_shadow_def)

lemma fold_note_candidate:
  "fold (note_candidate hits) ss m a \<noteq> None \<longleftrightarrow> m a \<noteq> None \<or> (hits a = None \<and> a \<in> set ss)"
  by (induction ss arbitrary: m) (auto simp: note_candidate_def)

text \<open>The nodes that live edges reach from a set within a depth limit, along paths on which only the last
  node may be at the limit.\<close>

definition reach_within :: "dependency_graph \<Rightarrow> int option \<Rightarrow> string set \<Rightarrow> string set" where
  "reach_within g mx S = {v. \<exists>d. (\<exists>s \<in> S. (s, v) \<in> affects g None ^^ d) \<and> (\<forall>k < d. \<forall>s \<in> S. (s, v) \<notin> affects g None ^^ k)
     \<and> (\<forall>k < d. \<not> at_limit mx k)}"

lemma reach_within_seeds: "S \<subseteq> reach_within g mx S"
  unfolding reach_within_def by (auto intro!: exI [of _ 0])

lemma reach_within_unlimited: "reach_within g None S = (affects g None)\<^sup>* `` S"
proof -
  have "(\<exists>d. (\<exists>s \<in> S. (s, v) \<in> R ^^ d) \<and> (\<forall>k < d. \<forall>s \<in> S. (s, v) \<notin> R ^^ k)) \<longleftrightarrow> (\<exists>d. \<exists>s \<in> S. (s, v) \<in> R ^^ d)"
    for v and R :: "(string \<times> string) set"
    using exists_least_iff [of "\<lambda>d. \<exists>s \<in> S. (s, v) \<in> R ^^ d"] by simp
  then have "v \<in> reach_within g None S \<longleftrightarrow> (\<exists>d. \<exists>s \<in> S. (s, v) \<in> affects g None ^^ d)" for v
    unfolding reach_within_def by (simp add: at_limit_def)
  moreover have "v \<in> (affects g None)\<^sup>* `` S \<longleftrightarrow> (\<exists>d. \<exists>s \<in> S. (s, v) \<in> affects g None ^^ d)" for v
    unfolding rtrancl_is_UN_relpow by blast
  ultimately show ?thesis by blast
qed

lemma affected_within:
  assumes "impact_of g changed mx None = Inr r"
  shows "set (affected_ids r) = reach_within g mx (set changed) - set changed"
proof -
  obtain w where w: "walk_inv g None changed mx [] w" and r: "ir_affected r = wk_affected w"
    by (rule impact_of_Inr [OF assms])
  have "v \<in> set (affected_ids r) \<longleftrightarrow> (\<exists>d. 0 < d \<and> impact.within_limit g None changed mx v d)" for v
    unfolding walk_inv_done(1) [OF w, symmetric] by (auto simp: affected_ids_def r)
  moreover have "0 < d \<longleftrightarrow> v \<notin> set changed" if "impact.within_limit g None changed mx v d" for v d
    using that impact.at_distance_0 [of g None changed v] impact.at_distance_unique [of g None changed v d 0]
    unfolding impact.within_limit_def by (cases "d = 0") auto
  ultimately show ?thesis unfolding reach_within_def impact_limit_defs by blast
qed

lemma unresolved_reached_iff:
  assumes "unresolved_reached g hits seeds mx = Inr u"
  shows "u a \<noteq> None \<longleftrightarrow> hits a = None \<and> seeds \<noteq> [] \<and> a \<in> reach_within g mx (set seeds)"
proof (cases "seeds = []")
  case True
  with assms show ?thesis by (auto simp: unresolved_reached_def)
next
  case False
  with assms obtain r where r: "impact_of g (fromkeys seeds) mx None = Inr r"
    and u: "u = fold (note_candidate hits) (fromkeys seeds) (fold (note_shadow hits) (ir_affected r) Map.empty)"
    by (auto simp: unresolved_reached_def mapR_def split: sum.split_asm)
  have "ip_node_id ` set (ir_affected r) = reach_within g mx (set seeds) - set seeds"
    using affected_within [OF r] by (simp add: affected_ids_def)
  with False reach_within_seeds [of "set seeds" g mx] show ?thesis
    unfolding u fold_note_candidate fold_note_shadow by auto
qed

text \<open>The nodes a change reaches within the depth limit, the changed ones themselves left out as the
  traversal does, and those an unsettled identity may concern, its candidates included.\<close>

definition stale_region :: "semantic_diff \<Rightarrow> dependency_graph \<Rightarrow> int option \<Rightarrow> string set" where
  "stale_region diff g mx = reach_within g mx (set (changed_logical_ids diff)) - set (changed_logical_ids diff)"

definition unsettled_region :: "semantic_diff \<Rightarrow> dependency_graph \<Rightarrow> int option \<Rightarrow> string set" where
  "unsettled_region diff g mx = reach_within g mx (set (unsettled_candidates diff))"

lemma plan_recompilation_changed:
  assumes "sd_content_changed diff"
  obtains r u p where "impact_of g (changed_logical_ids diff) mx None = Inr r"
    and "unresolved_reached g (reached_paths r) (unsettled_candidates diff) mx = Inr u"
    and "plan_recompilation diff g artifacts mx = Inr p"
    and "rn_targets p = map (target_of (reached_paths r) u) (fromkeys artifacts)"
    and "rn_total_artifacts p = length (fromkeys artifacts)"
    and "rn_cycles_detected p = ir_cycles_detected r" and "rn_truncated_at_depth p = ir_truncated_at_depth r"
proof -
  obtain r where r: "impact_of g (changed_logical_ids diff) mx None = Inr r" using impact_of_now by blast
  have "\<exists>u. unresolved_reached g (reached_paths r) (unsettled_candidates diff) mx = Inr u"
    using impact_of_now [of g "fromkeys (unsettled_candidates diff)" mx]
    by (auto simp: unresolved_reached_def mapR_def)
  then obtain u where u: "unresolved_reached g (reached_paths r) (unsettled_candidates diff) mx = Inr u" by blast
  from r u show thesis using assms by (intro that) (auto simp: plan_recompilation_def Let_def mapR_def)
qed

lemma target_of_simps:
  "rt_artifact_id (target_of hits u a) = a"
  "rt_state (target_of hits u a) = AR_STALE \<longleftrightarrow> hits a \<noteq> None"
  "rt_state (target_of hits u a) = AR_UNRESOLVED \<longleftrightarrow> hits a = None \<and> u a \<noteq> None"
  by (auto simp: target_of_def split: option.splits)

lemma plan_sets:
  assumes "plan_recompilation diff g artifacts mx = Inr p" and c: "sd_content_changed diff"
  shows "set (plan_stale p) = set artifacts \<inter> stale_region diff g mx"
    and "set (plan_unresolved p) = set artifacts \<inter> (unsettled_region diff g mx - stale_region diff g mx)"
proof -
  obtain r u where r: "impact_of g (changed_logical_ids diff) mx None = Inr r"
    and u: "unresolved_reached g (reached_paths r) (unsettled_candidates diff) mx = Inr u"
    and t: "rn_targets p = map (target_of (reached_paths r) u) (fromkeys artifacts)"
    using assms plan_recompilation_changed [OF c, of g mx artifacts] by (metis sum.inject(2))
  have hits: "reached_paths r a \<noteq> None \<longleftrightarrow> a \<in> stale_region diff g mx" for a
    unfolding reached_paths_iff affected_within [OF r] stale_region_def by (rule refl)
  have "reach_within g mx (set []) = {}" by (simp add: reach_within_def)
  then have us: "u a \<noteq> None \<longleftrightarrow> a \<notin> stale_region diff g mx \<and> a \<in> unsettled_region diff g mx" for a
    unfolding unresolved_reached_iff [OF u] unsettled_region_def hits [symmetric] by auto
  have states: "map rt_artifact_id (filter (\<lambda>t. rt_state t = st) (map (target_of (reached_paths r) u) xs))
      = filter (\<lambda>a. rt_state (target_of (reached_paths r) u a) = st) xs" for st xs
    by (induction xs) (auto simp: target_of_simps)
  show "set (plan_stale p) = set artifacts \<inter> stale_region diff g mx"
    unfolding plan_stale_def t states using hits by (auto simp: target_of_simps)
  show "set (plan_unresolved p) = set artifacts \<inter> (unsettled_region diff g mx - stale_region diff g mx)"
    unfolding plan_unresolved_def t states using us [unfolded not_None_eq] hits [unfolded not_None_eq]
    by (auto simp: target_of_simps) (metis not_None_eq hits)
qed

lemma plan_unchanged:
  assumes "plan_recompilation diff g artifacts mx = Inr p" and "\<not> sd_content_changed diff"
  shows "to_rebuild p = []" and "map rt_artifact_id (rn_targets p) = fromkeys artifacts"
  using assms by (auto simp: plan_recompilation_def Let_def to_rebuild_def plan_stale_def plan_unresolved_def
      fromkeys_def comp_def)

section \<open>The comparison loop\<close>

definition differs :: "(string \<rightharpoonup> string) \<Rightarrow> string \<times> string \<Rightarrow> bool" where
  "differs combined ae \<longleftrightarrow> (\<exists>x. combined (fst ae) = Some x \<and> x \<noteq> snd ae)"

lemma compare_all_eq:
  "compare_all combined carried selective xs (dv, left) =
    (dv @ map fst (filter (differs combined) xs),
     left @ map fst (filter (\<lambda>ae. differs combined ae \<and> carried (fst ae) \<noteq> None \<and> selective (fst ae) = None) xs))"
proof (induction xs arbitrary: dv left)
  case Nil
  then show ?case by simp
next
  case (Cons ae xs)
  obtain a e where "ae = (a, e)" by fastforce
  with Cons show ?case by (cases "combined a") (auto simp: differs_def)
qed

lemma verify_equivalence_fields:
  fixes full selective carried p
  defines "report \<equiv> verify_equivalence full selective carried p" and "combined \<equiv> map_of carried ++ map_of selective"
  shows "eq_diverged report = map fst (filter (differs combined) (sort_key fst full))"
    and "eq_stale_left_behind report = map fst (filter (\<lambda>ae. differs combined ae
        \<and> map_of carried (fst ae) \<noteq> None \<and> map_of selective (fst ae) = None) (sort_key fst full))"
    and "eq_missing_from_selective report = sorted_set (filter (\<lambda>a. combined a = None) (map fst full))"
    and "eq_unexpectedly_rebuilt report = (case p of None \<Rightarrow> []
      | Some pl \<Rightarrow> sorted_set (filter (\<lambda>a. a \<notin> set (to_rebuild pl)) (map fst selective)))"
    and "eq_equivalent report \<longleftrightarrow> eq_diverged report = [] \<and> eq_missing_from_selective report = []"
  unfolding report_def combined_def verify_equivalence_def compare_all_eq Let_def by (simp_all del: map_add_None)

text \<open>A reused artifact is one the plan does not rebuild.\<close>

definition reused :: "recompilation_plan \<Rightarrow> string list" where
  "reused p = filter (\<lambda>a. a \<notin> set (to_rebuild p)) (map rt_artifact_id (rn_targets p))"

lemma plan_artifacts:
  assumes "plan_recompilation diff g artifacts mx = Inr p"
  shows "map rt_artifact_id (rn_targets p) = fromkeys artifacts"
proof (cases "sd_content_changed diff")
  case True
  obtain r u where "rn_targets p = map (target_of (reached_paths r) u) (fromkeys artifacts)"
    using assms plan_recompilation_changed [OF True, of g mx artifacts] by (metis sum.inject(2))
  then show ?thesis by (simp add: target_of_simps comp_def)
next
  case False
  with assms show ?thesis by (rule plan_unchanged(2))
qed

lemma set_to_rebuild: "set (to_rebuild p) = set (plan_stale p) \<union> set (plan_unresolved p)"
  by (simp add: to_rebuild_def)

lemma plan_parts_subset: "set (to_rebuild p) \<subseteq> set (map rt_artifact_id (rn_targets p))"
  by (auto simp: set_to_rebuild plan_stale_def plan_unresolved_def)

section \<open>Properties\<close>

text \<open>C22: what a plan rebuilds. Planning returns for every depth limit and lists every artifact of the
  inventory once: as stale exactly when a change reaches it within the limit and it is not itself one of
  the changed ids, as unresolved exactly when it is not stale and a candidate of an unsettled identity is
  or, within the limit, reaches it; the run rebuilds both, and nothing when the content is unchanged.\<close>

theorem plan_exact:
  "\<exists>p. plan_recompilation diff g artifacts mx = Inr p
    \<and> map rt_artifact_id (rn_targets p) = fromkeys artifacts
    \<and> (if sd_content_changed diff
       then set (plan_stale p) = set artifacts \<inter> stale_region diff g mx
         \<and> set (plan_unresolved p) = set artifacts \<inter> (unsettled_region diff g mx - stale_region diff g mx)
         \<and> set (to_rebuild p) = set artifacts \<inter> (stale_region diff g mx \<union> unsettled_region diff g mx)
       else to_rebuild p = [])
    \<and> distinct (to_rebuild p) \<and> 0 \<le> work_avoided p"
proof -
  have "\<exists>p. plan_recompilation diff g artifacts mx = Inr p"
    by (cases "sd_content_changed diff") (metis plan_recompilation_changed, simp add: plan_recompilation_def Let_def)
  then obtain p where p: "plan_recompilation diff g artifacts mx = Inr p" by blast
  have t: "rn_total_artifacts p = length (fromkeys artifacts)"
    using p by (auto simp: plan_recompilation_def Let_def mapR_def split: if_splits sum.split_asm)
  have sub: "set (to_rebuild p) \<subseteq> set (fromkeys artifacts)"
    using plan_parts_subset [of p] plan_artifacts [OF p] by simp
  have dist: "distinct (to_rebuild p)" by (simp add: to_rebuild_def)
  have "length (to_rebuild p) \<le> rn_total_artifacts p"
    using card_mono [OF _ sub] distinct_card [OF dist] distinct_card [OF distinct_fromkeys, of artifacts] t by simp
  then have "0 \<le> work_avoided p" by (simp add: work_avoided_def)
  with p dist plan_artifacts [OF p] plan_sets [OF p] plan_unchanged(1) [OF p] show ?thesis
    by (cases "sd_content_changed diff") (auto simp: set_to_rebuild)
qed

text \<open>C23: when a selective rebuild equals a full one. Rebuilding what the plan says (for any depth limit) and
  reusing the rest is reported equivalent to rebuilding everything exactly when every artifact whose content
  differs lies in the region the plan rebuilds: reached within the limit from a changed id without being one,
  or from a candidate of an unsettled identity, with the content flagged as changed. Then the report is
  clean; otherwise it lists exactly the artifacts that differ outside that region, as diverged and left behind stale.\<close>

theorem selective_equals_full:
  assumes plan: "plan_recompilation diff g artifacts mx = Inr p"
  shows "let rebuilt = (if sd_content_changed diff then stale_region diff g mx \<union> unsettled_region diff g mx else {});
      report = verify_equivalence (map (\<lambda>a. (a, new a)) (fromkeys artifacts)) (map (\<lambda>a. (a, new a)) (to_rebuild p))
        (map (\<lambda>a. (a, old a)) (reused p)) (Some p)
    in (eq_equivalent report \<longleftrightarrow> (\<forall>a \<in> set artifacts. old a \<noteq> new a \<longrightarrow> a \<in> rebuilt))
      \<and> eq_diverged report = sort (filter (\<lambda>a. old a \<noteq> new a \<and> a \<notin> rebuilt) (fromkeys artifacts))
      \<and> eq_stale_left_behind report = eq_diverged report
      \<and> eq_missing_from_selective report = [] \<and> eq_unexpectedly_rebuilt report = []
      \<and> eq_compared report = length (fromkeys artifacts)"
proof -
  let ?full = "map (\<lambda>a. (a, new a)) (fromkeys artifacts)" and ?sel = "map (\<lambda>a. (a, new a)) (to_rebuild p)"
  let ?old = "map (\<lambda>a. (a, old a)) (reused p)"
  let ?c = "map_of ?old ++ map_of ?sel" and ?r = "verify_equivalence ?full ?sel ?old (Some p)"
  define rebuilt where "rebuilt = (if sd_content_changed diff then stale_region diff g mx \<union> unsettled_region diff g mx else {})"
  let ?bad = "\<lambda>a. old a \<noteq> new a \<and> a \<notin> rebuilt"
  have keep: "map_of (map (\<lambda>a. (a, f a)) xs) a = (if a \<in> set xs then Some (f a) else None)" for f :: "string \<Rightarrow> string" and xs a
    by (induction xs) auto
  have reb: "a \<in> set (to_rebuild p) \<longleftrightarrow> a \<in> rebuilt" if "a \<in> set artifacts" for a
    using that plan_sets [OF plan] plan_unchanged(1) [OF plan] by (cases "sd_content_changed diff") (auto simp: rebuilt_def set_to_rebuild)
  have reu: "a \<in> set (reused p) \<longleftrightarrow> a \<notin> rebuilt" if "a \<in> set artifacts" for a
    using that reb plan_artifacts [OF plan] by (auto simp: reused_def)
  have c: "?c a = Some (if a \<in> rebuilt then new a else old a)" if "a \<in> set artifacts" for a
    using reb [OF that] reu [OF that] by (simp add: keep map_add_def)
  have sorted_full: "sort_key fst ?full = map (\<lambda>a. (a, new a)) (sort (fromkeys artifacts))"
    by (simp add: sort_key_map comp_def)
  have diff: "differs ?c (a, new a) \<longleftrightarrow> ?bad a" if "a \<in> set artifacts" for a
    using c [OF that] by (auto simp: differs_def)
  have flt: "map fst (filter Q (sort_key fst ?full)) = sort (filter ?bad (fromkeys artifacts))"
    if Q: "\<And>a. a \<in> set artifacts \<Longrightarrow> Q (a, new a) \<longleftrightarrow> ?bad a" for Q
  proof -
    have "map fst (filter Q (sort_key fst ?full)) = filter (\<lambda>a. Q (a, new a)) (sort (fromkeys artifacts))"
      unfolding sorted_full by (simp add: filter_map comp_def)
    also have "\<dots> = filter ?bad (sort (fromkeys artifacts))" by (rule filter_cong) (simp_all add: Q)
    finally show ?thesis by (simp add: filter_sort)
  qed
  have d: "eq_diverged ?r = sort (filter ?bad (fromkeys artifacts))"
    unfolding verify_equivalence_fields by (rule flt) (rule diff)
  have l: "eq_stale_left_behind ?r = sort (filter ?bad (fromkeys artifacts))"
    unfolding verify_equivalence_fields using reb reu by (intro flt) (auto simp: diff keep)
  have m: "eq_missing_from_selective ?r = []"
    unfolding verify_equivalence_fields using c by (auto simp: filter_empty_conv comp_def)
  have u: "eq_unexpectedly_rebuilt ?r = []" unfolding verify_equivalence_fields by (auto simp: filter_empty_conv)
  have "eq_equivalent ?r \<longleftrightarrow> set (sort (filter ?bad (fromkeys artifacts))) = {}"
    unfolding verify_equivalence_fields(5) m d set_empty by (simp only: simp_thms)
  then have "eq_equivalent ?r \<longleftrightarrow> set (filter ?bad (fromkeys artifacts)) = {}" unfolding set_sort .
  then have e: "eq_equivalent ?r \<longleftrightarrow> (\<forall>a \<in> set artifacts. old a \<noteq> new a \<longrightarrow> a \<in> rebuilt)" by auto
  have n: "eq_compared ?r = length (fromkeys artifacts)" by (simp add: verify_equivalence_def Let_def split: prod.split)
  show ?thesis unfolding Let_def rebuilt_def [symmetric] d l by (intro conjI e m u n refl)
qed

definition demo_diff :: semantic_diff where
  "demo_diff = \<lparr>sd_level = DL_SEMANTIC, sd_content_changed = True, sd_changes =
     [\<lparr>sc_kind = CK_MODIFIED_CLAIM, sc_logical_id = Some ''clause'', sc_before = None, sc_after = None, sc_detail = [],
       sc_candidates = []\<rparr>], sd_change_id = ''chg''\<rparr>"

definition demo_rebuild :: recompilation_plan where
  "demo_rebuild = \<lparr>rn_change_id = ''chg'', rn_targets =
     [\<lparr>rt_artifact_id = ''flow'', rt_state = AR_STALE, rt_reason = ''clause [SUPPORTS] -> chunk [DEPENDS_ON] -> flow'',
       rt_depth = 2, rt_path = ''clause [SUPPORTS] -> chunk [DEPENDS_ON] -> flow''\<rparr>,
      \<lparr>rt_artifact_id = ''note'', rt_state = AR_CURRENT, rt_reason = ''no change reached it'', rt_depth = 0, rt_path = []\<rparr>],
     rn_total_artifacts = 2, rn_cycles_detected = [], rn_truncated_at_depth = False\<rparr>"

lemma demo_rebuild_planned: "plan_recompilation demo_diff (dependency_graph_of demo_edges) [''flow'', ''note''] None = Inr demo_rebuild"
  by code_simp

lemma demo_stale: "''flow'' \<in> stale_region demo_diff (dependency_graph_of demo_edges) None"
proof -
  have c: "sd_content_changed demo_diff" by (simp add: demo_diff_def)
  have "''flow'' \<in> set (plan_stale demo_rebuild)" by (simp add: plan_stale_def demo_rebuild_def)
  then show ?thesis unfolding plan_sets(1) [OF demo_rebuild_planned c] by simp
qed

theorem selective_equals_full_witness:
  "eq_equivalent (verify_equivalence [(''flow'', ''v2''), (''note'', ''v1'')] [(''flow'', ''v2'')] [(''note'', ''v1'')] (Some demo_rebuild))"
proof -
  define new where "new = (\<lambda>a. if a = ''flow'' then ''v2'' else ''v1'')"
  have "sd_content_changed demo_diff" by (simp add: demo_diff_def)
  then have l: "\<forall>a \<in> set [''flow'', ''note'']. ''v1'' \<noteq> new a \<longrightarrow> a \<in> (if sd_content_changed demo_diff then
      stale_region demo_diff (dependency_graph_of demo_edges) None \<union> unsettled_region demo_diff (dependency_graph_of demo_edges) None else {})"
    using demo_stale by (simp add: new_def)
  have f: "fromkeys [''flow'', ''note''] = [''flow'', ''note'']" "to_rebuild demo_rebuild = [''flow'']" "reused demo_rebuild = [''note'']"
    by (simp_all add: fromkeys_def to_rebuild_def reused_def plan_stale_def plan_unresolved_def demo_rebuild_def)
  from selective_equals_full [OF demo_rebuild_planned, of new "\<lambda>_. ''v1''"] l
  have "eq_equivalent (verify_equivalence (map (\<lambda>a. (a, new a)) [''flow'', ''note'']) (map (\<lambda>a. (a, new a)) [''flow''])
      (map (\<lambda>a. (a, ''v1'')) [''note'']) (Some demo_rebuild))"
    unfolding Let_def f by blast
  then show ?thesis by (simp add: new_def)
qed

text \<open>Fact: a changed artifact is reused. The ids the diff names are left out of what a change reaches, so
  an artifact that is itself a changed id is planned CURRENT, with the reason that no change reached it,
  even when another change of the same diff reaches it; its new content is then reported as diverged.\<close>

theorem changed_artifact_reused:
  "\<exists>p. plan_recompilation (demo_diff\<lparr>sd_changes := sd_changes demo_diff @ [(hd (sd_changes demo_diff))\<lparr>sc_logical_id := Some ''flow''\<rparr>]\<rparr>)
      (dependency_graph_of demo_edges) [''flow''] None = Inr p
    \<and> map rt_reason (rn_targets p) = [''no change reached it''] \<and> to_rebuild p = []
    \<and> (''clause'', ''flow'') \<in> (affects (dependency_graph_of demo_edges) None)\<^sup>*
    \<and> eq_diverged (verify_equivalence [(''flow'', ''v2'')] [] [(''flow'', ''v1'')] (Some p)) = [''flow'']"
proof -
  have c: "sd_content_changed demo_diff" by (simp add: demo_diff_def)
  have ch: "changed_logical_ids demo_diff = [''clause'']" by (simp add: changed_logical_ids_def demo_diff_def)
  have r: "(''clause'', ''flow'') \<in> (affects (dependency_graph_of demo_edges) None)\<^sup>*"
    using demo_stale unfolding stale_region_def reach_within_unlimited ch by simp
  let ?p = "plan_recompilation (demo_diff\<lparr>sd_changes := sd_changes demo_diff @ [(hd (sd_changes demo_diff))\<lparr>sc_logical_id := Some ''flow''\<rparr>]\<rparr>)
      (dependency_graph_of demo_edges) [''flow''] None"
  have e: "isl ?p = False" "map rt_reason (rn_targets (projr ?p)) = [''no change reached it'']" "to_rebuild (projr ?p) = []"
    "eq_diverged (verify_equivalence [(''flow'', ''v2'')] [] [(''flow'', ''v1'')] (Some (projr ?p))) = [''flow'']"
    by code_simp+
  then show ?thesis using r by (metis sum.collapse(2))
qed

text \<open>Fact: what the verification establishes. Two runs are reported equivalent exactly when every artifact of
  the full rebuild is in the selective result with the same hash; the report lists, in order, exactly
  those that differ, those that are missing, those that differ and were reused, and those rebuilt
  beyond the plan. Artifacts that only the selective run has do not count.\<close>

theorem verify_equivalence_exact:
  assumes "distinct (map fst full)"
  shows "(eq_equivalent (verify_equivalence full selective carried p) \<longleftrightarrow> map_of full \<subseteq>\<^sub>m (map_of carried ++ map_of selective))
    \<and> set (eq_diverged (verify_equivalence full selective carried p)) =
        {a. \<exists>x y. map_of full a = Some x \<and> (map_of carried ++ map_of selective) a = Some y \<and> x \<noteq> y}
    \<and> set (eq_missing_from_selective (verify_equivalence full selective carried p)) = dom (map_of full) - dom (map_of carried ++ map_of selective)
    \<and> set (eq_stale_left_behind (verify_equivalence full selective carried p)) =
        {a. \<exists>x y. map_of full a = Some x \<and> map_of carried a = Some y \<and> x \<noteq> y \<and> map_of selective a = None}
    \<and> (\<forall>pl. p = Some pl \<longrightarrow> set (eq_unexpectedly_rebuilt (verify_equivalence full selective carried p)) =
        fst ` set selective - set (to_rebuild pl))
    \<and> sorted (eq_diverged (verify_equivalence full selective carried p))
    \<and> distinct (eq_diverged (verify_equivalence full selective carried p))"
proof -
  let ?r = "verify_equivalence full selective carried p"
  define combined where "combined = map_of carried ++ map_of selective"
  note fields = verify_equivalence_fields [of full selective carried p, folded combined_def]
  have full: "(a, x) \<in> set full \<longleftrightarrow> map_of full a = Some x" for a x using assms(1) by simp
  have d: "set (eq_diverged ?r) = {a. \<exists>x y. map_of full a = Some x \<and> combined a = Some y \<and> x \<noteq> y}"
    unfolding fields by (force simp: differs_def full [symmetric])
  have m: "set (eq_missing_from_selective ?r) = dom (map_of full) - dom combined"
    unfolding fields by (auto simp: dom_map_of_conv_image_fst)
  have l: "set (eq_stale_left_behind ?r) =
      {a. \<exists>x y. map_of full a = Some x \<and> map_of carried a = Some y \<and> x \<noteq> y \<and> map_of selective a = None}"
    unfolding fields by (force simp: differs_def full [symmetric] combined_def map_add_Some_iff)
  have e: "eq_equivalent ?r \<longleftrightarrow> map_of full \<subseteq>\<^sub>m combined"
  proof -
    have "eq_equivalent ?r \<longleftrightarrow> set (eq_diverged ?r) = {} \<and> set (eq_missing_from_selective ?r) = {}"
      using fields(5) by simp
    then show ?thesis unfolding d m map_le_def by (auto simp: dom_def)
  qed
  have "sorted (map fst (filter P (sort_key fst full)))" for P by (simp add: sorted_filter)
  moreover have "distinct (map fst (filter P (sort_key fst full)))" for P
    using assms(1) by (intro distinct_map_filter) (metis distinct_map distinct_sort set_sort)
  moreover have "set (eq_unexpectedly_rebuilt ?r) = fst ` set selective - set (to_rebuild pl)" if "p = Some pl" for pl
    unfolding fields using that by auto
  ultimately show ?thesis using d m l e unfolding fields(1) combined_def [symmetric] by blast
qed

theorem verify_equivalence_exact_witness:
  "eq_equivalent (verify_equivalence [(''a'', ''1'')] [(''a'', ''1'')] [(''extra'', ''9'')] None)
   \<and> set (eq_stale_left_behind (verify_equivalence [(''a'', ''1'')] [] [(''a'', ''0'')] None)) = {''a''}"
proof -
  have d: "distinct (map fst [(''a'', ''1'' :: string)])" by simp
  show ?thesis
    using verify_equivalence_exact [OF d, of "[(''a'', ''1'')]" "[(''extra'', ''9'')]" None]
      verify_equivalence_exact [OF d, of "[]" "[(''a'', ''0'')]" None]
    by (auto simp: map_le_def)
qed

lemma take_once_id: "distinct xs \<Longrightarrow> set xs \<subseteq> R \<Longrightarrow> take_once xs R = xs"
  by (induction xs arbitrary: R) (auto simp: subset_Diff_insert)

lemma rebuild_order_permutes: "mset (rebuild_order p) = mset (to_rebuild p)"
proof -
  have "mset (filter (\<lambda>a. \<not> P a) xs @ filter P xs) = mset xs" for P and xs :: "string list"
    by (induction xs) auto
  moreover have "take_once (sort_key f (to_rebuild p)) (set (to_rebuild p)) = sort_key f (to_rebuild p)" for f :: "string \<Rightarrow> nat \<times> string"
    by (rule take_once_id) (simp_all add: to_rebuild_def)
  ultimately show ?thesis unfolding rebuild_order_def Let_def by simp
qed

text \<open>Fact: the rebuild order is not topological. A plan's artifacts are ordered by their shortest distance
  from the change; when a dependency is farther away than what depends on it (here \<open>c\<close> at distance two,
  \<open>b\<close> at distance one with an edge from \<open>c\<close>), the dependent is rebuilt first, although the graph
  has no cycle.\<close>

theorem rebuild_order_not_topological:
  "\<exists>es p. list_all (\<lambda>e. mk_dependency_edge e = Inr e) es
    \<and> plan_recompilation demo_diff (dependency_graph_of es) [''b'', ''c''] None = Inr p
    \<and> rebuild_order p = [''b'', ''c'']
    \<and> (''c'', ''b'') \<in> affects (dependency_graph_of es) None
    \<and> acyclic (affects (dependency_graph_of es) None)"
proof -
  let ?e = "\<lambda>a b. \<lparr>de_source_id = a, de_target_id = b, de_edge_type = DEPENDS_ON, de_valid_from = None, de_valid_to = None\<rparr>"
  let ?es = "[?e ''b'' ''clause'', ?e ''a'' ''clause'', ?e ''c'' ''a'', ?e ''b'' ''c'']"
  define p where "p = \<lparr>rn_change_id = ''chg'', rn_targets =
     [\<lparr>rt_artifact_id = ''b'', rt_state = AR_STALE, rt_reason = ''clause [DEPENDS_ON] -> b'', rt_depth = 1,
       rt_path = ''clause [DEPENDS_ON] -> b''\<rparr>,
      \<lparr>rt_artifact_id = ''c'', rt_state = AR_STALE, rt_reason = ''clause [DEPENDS_ON] -> a [DEPENDS_ON] -> c'', rt_depth = 2,
       rt_path = ''clause [DEPENDS_ON] -> a [DEPENDS_ON] -> c''\<rparr>],
     rn_total_artifacts = 2, rn_cycles_detected = [], rn_truncated_at_depth = False\<rparr>"
  have "plan_recompilation demo_diff (dependency_graph_of ?es) [''b'', ''c''] None = Inr p"
    unfolding p_def by code_simp
  moreover have "rebuild_order p = [''b'', ''c'']" unfolding p_def by code_simp
  moreover have r: "(a, b) \<in> affects (dependency_graph_of ?es) None \<longleftrightarrow> (\<exists>e \<in> set ?es. carries None e a b)" for a b
    by (rule graph_relations(3)) (simp add: comparable_at_def)
  moreover have "(''c'', ''b'') \<in> affects (dependency_graph_of ?es) None" unfolding r by (simp add: carries_def live_at_def)
  moreover have "acyclic (affects (dependency_graph_of ?es) None)"
  proof (rule acyclic_subset [OF wf_acyclic [OF wf_measure]])
    have "(a, b) \<in> {(''clause'', ''b''), (''clause'', ''a''), (''a'', ''c''), (''c'', ''b'')}"
      if "(a, b) \<in> affects (dependency_graph_of ?es) None" for a b
      using that unfolding r by (auto simp: carries_def)
    then show "affects (dependency_graph_of ?es) None \<subseteq>
        measure (\<lambda>x. if x = ''clause'' then 0 else if x = ''a'' then 1 else if x = ''c'' then 2 else 3)"
      by fastforce
  qed
  moreover have "list_all (\<lambda>e. mk_dependency_edge e = Inr e) ?es" by (simp add: mk_dependency_edge_def)
  ultimately show ?thesis by blast
qed

text \<open>Fact: truncation of unsettled identities is silent. With a depth limit, what depends on a candidate of an
  unsettled identity beyond the limit is reported current, and the plan does not say that it was
  truncated.\<close>

theorem unresolved_truncation_hidden:
  "\<exists>diff p. plan_recompilation diff (dependency_graph_of demo_edges) [''flow''] (Some 1) = Inr p
    \<and> sd_content_changed diff \<and> unsettled_candidates diff = [''clause'']
    \<and> ''flow'' \<in> unsettled_region diff (dependency_graph_of demo_edges) None
    \<and> to_rebuild p = [] \<and> \<not> rn_truncated_at_depth p"
proof -
  define diff where "diff = \<lparr>sd_level = DL_SEMANTIC, sd_content_changed = True, sd_changes =
     [\<lparr>sc_kind = CK_IDENTITY_UNRESOLVED, sc_logical_id = None, sc_before = None, sc_after = None, sc_detail = [],
       sc_candidates = [''clause'']\<rparr>], sd_change_id = ''chg''\<rparr>"
  define p where "p = \<lparr>rn_change_id = ''chg'', rn_targets =
     [\<lparr>rt_artifact_id = ''flow'', rt_state = AR_CURRENT, rt_reason = ''no change reached it'', rt_depth = 0, rt_path = []\<rparr>],
     rn_total_artifacts = 1, rn_cycles_detected = [], rn_truncated_at_depth = False\<rparr>"
  have "plan_recompilation diff (dependency_graph_of demo_edges) [''flow''] (Some 1) = Inr p"
    unfolding p_def diff_def by code_simp
  moreover have u: "unsettled_candidates diff = [''clause'']"
    by (simp add: unsettled_candidates_def diff_unresolved_def diff_def)
  moreover have "''flow'' \<in> unsettled_region diff (dependency_graph_of demo_edges) None"
    using demo_stale by (simp add: stale_region_def unsettled_region_def u changed_logical_ids_def demo_diff_def)
  ultimately show ?thesis
    by (intro exI [of _ diff] exI [of _ p])
      (simp add: diff_def p_def to_rebuild_def plan_stale_def plan_unresolved_def fromkeys_def)
qed

end
