(* ===== verification/Temporal.thy ===== *)
theory Temporal
  imports Identity
begin

text \<open>
  \<^verbatim>\<open>packages/cir-python/src/akc_cir/temporal.py\<close>: the bitemporal store, with valid time (when a fact
  held) and system time (when it was known). The state of a timeline is the list of its facts. Ordering
  a naive against an aware stamp raises, so every query returns an error or an answer.
  \<open>datetime.min\<close> in the time zone of a fact is the least instant, the offset of the zone aside.
\<close>

section \<open>Facts\<close>

datatype temporal_source = TS_EXPLICIT | TS_INFERRED | TS_UNKNOWN

datatype temporal_policy = EXCLUDE_UNKNOWN | INCLUDE_UNKNOWN

record temporal_fact =
  tf_logical_id :: string
  tf_value :: string
  tf_valid_from :: "datetime option"
  tf_valid_to :: "datetime option"
  tf_recorded_at :: "datetime option"
  tf_superseded_at :: "datetime option"
  tf_temporal_source :: temporal_source
  tf_evidence_id :: "string option"

text \<open>\<open>if a and b and b < a: raise\<close>: nothing to check unless both stamps are given.\<close>

definition in_order :: "datetime option \<Rightarrow> datetime option \<Rightarrow> pyerr \<Rightarrow> pyerr + unit" where
  "in_order a b err = (case (a, b) of
     (Some f, Some t) \<Rightarrow> (case dt_less t f of Inl e \<Rightarrow> Inl e | Inr True \<Rightarrow> Inl err | Inr False \<Rightarrow> Inr ())
   | _ \<Rightarrow> Inr ())"

definition mk_temporal_fact :: "temporal_fact \<Rightarrow> pyerr + temporal_fact" where
  "mk_temporal_fact f =
    (case in_order (tf_valid_from f) (tf_valid_to f) (ValueError ''valid_to precedes valid_from'') of
      Inl e \<Rightarrow> Inl e
    | Inr _ \<Rightarrow>
      (case in_order (tf_recorded_at f) (tf_superseded_at f) (ValueError ''superseded_at precedes recorded_at'') of
        Inl e \<Rightarrow> Inl e
      | Inr _ \<Rightarrow>
        (if tf_temporal_source f = TS_EXPLICIT \<and> tf_valid_from f = None \<and> tf_valid_to f = None
         then Inl (ValueError ''temporal_source is explicit but no date was given'') else Inr f)))"

definition validity_known :: "temporal_fact \<Rightarrow> bool" where
  "validity_known f \<longleftrightarrow> tf_temporal_source f \<noteq> TS_UNKNOWN \<and> (tf_valid_from f \<noteq> None \<or> tf_valid_to f \<noteq> None)"

text \<open>The half-open window of two optional stamps; both bounds are evaluated before they are combined.\<close>

definition in_window :: "datetime option \<Rightarrow> datetime option \<Rightarrow> datetime \<Rightarrow> pyerr + bool" where
  "in_window start stop moment = mapR (\<lambda>(begun, not_ended). begun \<and> not_ended)
     (pairE (case start of None \<Rightarrow> Inr True | Some f \<Rightarrow> mapR Not (dt_less moment f))
            (case stop of None \<Rightarrow> Inr True | Some t \<Rightarrow> dt_less moment t))"

definition valid_at :: "temporal_fact \<Rightarrow> datetime \<Rightarrow> pyerr + bool" where
  "valid_at f moment = in_window (tf_valid_from f) (tf_valid_to f) moment"

definition known_at :: "temporal_fact \<Rightarrow> datetime \<Rightarrow> pyerr + bool" where
  "known_at f moment = in_window (tf_recorded_at f) (tf_superseded_at f) moment"

section \<open>As-of queries\<close>

record as_of_answer =
  aa_facts :: "temporal_fact list"
  aa_valid_at :: "datetime option"
  aa_known_at :: "datetime option"
  aa_policy :: temporal_policy
  aa_included_unknown :: "string list"
  aa_excluded_unknown :: "string list"

definition answer_values :: "as_of_answer \<Rightarrow> string list" where
  "answer_values a = map tf_value (aa_facts a)"

text \<open>The rendering of a moment is a parameter.\<close>

definition describe_answer :: "(datetime \<Rightarrow> string) \<Rightarrow> as_of_answer \<Rightarrow> string" where
  "describe_answer render a =
    (let parts = (case aa_valid_at a of None \<Rightarrow> [] | Some t \<Rightarrow> [''valid at '' @ render t])
           @ (case aa_known_at a of None \<Rightarrow> [] | Some t \<Rightarrow> [''as known at '' @ render t]);
         note_text = (if aa_included_unknown a \<noteq> []
             then ''; '' @ nat_str (length (aa_included_unknown a))
               @ '' fact(s) with no stated validity were included under include_unknown''
           else if aa_excluded_unknown a \<noteq> []
             then ''; '' @ nat_str (length (aa_excluded_unknown a))
               @ '' fact(s) with no stated validity were excluded''
           else [])
     in (if parts = [] then ''no temporal bound'' else join_with '', '' parts) @ note_text)"

type_synonym timeline = "temporal_fact list"

definition timeline_add :: "temporal_fact \<Rightarrow> timeline \<Rightarrow> timeline" where
  "timeline_add f facts = facts @ [f]"

text \<open>What the loop of \<open>as_of\<close> does with one fact: skip it, or exclude, include or select it.\<close>

datatype fact_verdict = Skipped | Excluded | Included | Selected

definition judge_fact ::
  "datetime option \<Rightarrow> datetime option \<Rightarrow> string option \<Rightarrow> temporal_policy \<Rightarrow> temporal_fact \<Rightarrow> pyerr + fact_verdict" where
  "judge_fact valid known logical_id policy f =
    (if logical_id \<noteq> None \<and> logical_id \<noteq> Some (tf_logical_id f) then Inr Skipped
     else (case (case known of None \<Rightarrow> Inr True | Some t \<Rightarrow> known_at f t) of
       Inl e \<Rightarrow> Inl e
     | Inr False \<Rightarrow> Inr Skipped
     | Inr True \<Rightarrow>
       (case valid of
         None \<Rightarrow> Inr Selected
       | Some t \<Rightarrow>
         (if \<not> validity_known f then Inr (if policy = EXCLUDE_UNKNOWN then Excluded else Included)
          else mapR (\<lambda>v. if v then Selected else Skipped) (valid_at f t)))))"

fun as_of_loop ::
  "(temporal_fact \<Rightarrow> pyerr + fact_verdict) \<Rightarrow> temporal_fact list
   \<Rightarrow> temporal_fact list \<times> string list \<times> string list
   \<Rightarrow> pyerr + (temporal_fact list \<times> string list \<times> string list)" where
  "as_of_loop judge [] acc = Inr acc"
| "as_of_loop judge (f # fs) (selected, included, excluded) =
    (case judge f of
      Inl e \<Rightarrow> Inl e
    | Inr Skipped \<Rightarrow> as_of_loop judge fs (selected, included, excluded)
    | Inr Excluded \<Rightarrow> as_of_loop judge fs (selected, included, excluded @ [tf_logical_id f])
    | Inr Included \<Rightarrow> as_of_loop judge fs (selected @ [f], included @ [tf_logical_id f], excluded)
    | Inr Selected \<Rightarrow> as_of_loop judge fs (selected @ [f], included, excluded))"

definition as_of ::
  "timeline \<Rightarrow> datetime option \<Rightarrow> datetime option \<Rightarrow> string option \<Rightarrow> temporal_policy \<Rightarrow> pyerr + as_of_answer" where
  "as_of facts valid known logical_id policy =
    mapR (\<lambda>(selected, included, excluded).
        \<lparr>aa_facts = selected, aa_valid_at = valid, aa_known_at = known, aa_policy = policy,
         aa_included_unknown = fromkeys included, aa_excluded_unknown = fromkeys excluded\<rparr>)
      (as_of_loop (judge_fact valid known logical_id policy) facts ([], [], []))"

definition replay_context :: "timeline \<Rightarrow> datetime \<Rightarrow> string list option \<Rightarrow> pyerr + as_of_answer" where
  "replay_context facts moment logical_ids =
    mapR (\<lambda>answer. case logical_ids of
        None \<Rightarrow> answer
      | Some ids \<Rightarrow> answer\<lparr>aa_facts := filter (\<lambda>f. tf_logical_id f \<in> set ids) (aa_facts answer),
          aa_excluded_unknown := filter (\<lambda>i. i \<in> set ids) (aa_excluded_unknown answer)\<rparr>)
      (as_of facts (Some moment) (Some moment) None EXCLUDE_UNKNOWN)"

section \<open>History\<close>

text \<open>
  The sort key of \<open>history\<close>; facts without a stamp sort last. Comparing two keys compares the stamps
  only where the flags before them agree, and raises on a naive and an aware one. A sort has to
  compare some such pair when there is one, so it raises exactly then.
\<close>

definition history_key :: "temporal_fact \<Rightarrow> bool \<times> int \<times> bool \<times> int" where
  "history_key f = (tf_recorded_at f = None, (case tf_recorded_at f of None \<Rightarrow> 0 | Some t \<Rightarrow> instant t),
     tf_valid_from f = None, (case tf_valid_from f of None \<Rightarrow> 0 | Some t \<Rightarrow> instant t))"

definition keys_clash :: "temporal_fact \<Rightarrow> temporal_fact \<Rightarrow> bool" where
  "keys_clash f h = (case (tf_recorded_at f, tf_recorded_at h) of
     (Some a, Some b) \<Rightarrow> is_aware a \<noteq> is_aware b \<or> (a = b \<and> (case (tf_valid_from f, tf_valid_from h) of
        (Some c, Some d) \<Rightarrow> is_aware c \<noteq> is_aware d | _ \<Rightarrow> False))
   | (None, None) \<Rightarrow> (case (tf_valid_from f, tf_valid_from h) of
        (Some c, Some d) \<Rightarrow> is_aware c \<noteq> is_aware d | _ \<Rightarrow> False)
   | _ \<Rightarrow> False)"

definition fact_history :: "timeline \<Rightarrow> string \<Rightarrow> pyerr + temporal_fact list" where
  "fact_history facts logical_id =
    (let matching = filter (\<lambda>f. tf_logical_id f = logical_id) facts
     in if list_ex (\<lambda>f. list_ex (keys_clash f) matching) matching then Inl TypeError
        else Inr (sort_key history_key matching))"

section \<open>Contradictions\<close>

text \<open>\<open>datetime.min\<close>, 1 January of year 1, in microseconds.\<close>

definition min_instant :: int where
  "min_instant = - 62135596800000000"

definition open_start :: "temporal_fact \<Rightarrow> datetime" where
  "open_start f = (case tf_valid_to f of
     Some (Aware _) \<Rightarrow> Aware min_instant
   | _ \<Rightarrow> Naive min_instant)"

definition window_start :: "temporal_fact \<Rightarrow> datetime" where
  "window_start f = (case tf_valid_from f of None \<Rightarrow> open_start f | Some t \<Rightarrow> t)"

definition windows_overlap :: "temporal_fact \<Rightarrow> temporal_fact \<Rightarrow> pyerr + bool" where
  "windows_overlap l r =
    (if \<not> validity_known l \<or> \<not> validity_known r then Inr False
     else mapR (\<lambda>(a, b). a \<and> b)
       (pairE (case tf_valid_to l of None \<Rightarrow> Inr True | Some e \<Rightarrow> dt_less (window_start r) e)
              (case tf_valid_to r of None \<Rightarrow> Inr True | Some e \<Rightarrow> dt_less (window_start l) e)))"

definition contradicts :: "temporal_fact \<Rightarrow> temporal_fact \<Rightarrow> pyerr + bool" where
  "contradicts l r =
    (if tf_logical_id l \<noteq> tf_logical_id r \<or> tf_value l = tf_value r
        \<or> tf_superseded_at l \<noteq> None \<or> tf_superseded_at r \<noteq> None
     then Inr False else windows_overlap l r)"

fun against :: "temporal_fact \<Rightarrow> temporal_fact list \<Rightarrow> pyerr + (string \<times> string \<times> string) list" where
  "against l [] = Inr []"
| "against l (r # rs) =
    (case contradicts l r of
      Inl e \<Rightarrow> Inl e
    | Inr c \<Rightarrow> mapR (\<lambda>found. if c then (tf_logical_id l, tf_value l, tf_value r) # found else found) (against l rs))"

fun all_pairs :: "temporal_fact list \<Rightarrow> pyerr + (string \<times> string \<times> string) list" where
  "all_pairs [] = Inr []"
| "all_pairs (l # rs) = mapR (\<lambda>(a, b). a @ b) (pairE (against l rs) (all_pairs rs))"

definition contradictions :: "timeline \<Rightarrow> string option \<Rightarrow> pyerr + (string \<times> string \<times> string) list" where
  "contradictions facts logical_id =
    all_pairs (filter (\<lambda>f. logical_id = None \<or> logical_id = Some (tf_logical_id f)) facts)"

section \<open>Facts whose stamps are aware\<close>

definition stamps :: "temporal_fact \<Rightarrow> datetime set" where
  "stamps f = set_option (tf_valid_from f) \<union> set_option (tf_valid_to f)
     \<union> set_option (tf_recorded_at f) \<union> set_option (tf_superseded_at f)"

definition aware_fact :: "temporal_fact \<Rightarrow> bool" where
  "aware_fact f \<longleftrightarrow> (\<forall>s \<in> stamps f. is_aware s)"

text \<open>The half-open window as a predicate on instants.\<close>

definition spans :: "datetime option \<Rightarrow> datetime option \<Rightarrow> int \<Rightarrow> bool" where
  "spans start stop i \<longleftrightarrow> (\<forall>s \<in> set_option start. instant s \<le> i) \<and> (\<forall>e \<in> set_option stop. i < instant e)"

lemma in_window_aware:
  assumes "\<And>s. s \<in> set_option start \<union> set_option stop \<Longrightarrow> is_aware s"
  shows "in_window start stop (Aware i) = Inr (spans start stop i)"
proof -
  have "(case start of None \<Rightarrow> Inr True | Some f \<Rightarrow> mapR Not (dt_less (Aware i) f)) = Inr (\<forall>s \<in> set_option start. instant s \<le> i)"
    using assms by (cases start) (auto simp: mapR_def not_less)
  moreover have "(case stop of None \<Rightarrow> Inr True | Some t \<Rightarrow> dt_less (Aware i) t) = Inr (\<forall>e \<in> set_option stop. i < instant e)"
    using assms by (cases stop) auto
  ultimately show ?thesis by (simp add: in_window_def spans_def pairE_def mapR_def)
qed

abbreviation valid_on :: "temporal_fact \<Rightarrow> int \<Rightarrow> bool" where
  "valid_on f \<equiv> spans (tf_valid_from f) (tf_valid_to f)"

abbreviation known_on :: "temporal_fact \<Rightarrow> int \<Rightarrow> bool" where
  "known_on f \<equiv> spans (tf_recorded_at f) (tf_superseded_at f)"

lemma aware_fact_windows:
  assumes "aware_fact f"
  shows "valid_at f (Aware i) = Inr (valid_on f i)" and "known_at f (Aware i) = Inr (known_on f i)"
  unfolding valid_at_def known_at_def using assms
  by (auto intro!: in_window_aware simp: aware_fact_def stamps_def)

text \<open>What an as-of query selects, for optional instants of the two clocks.\<close>

definition answers :: "int option \<Rightarrow> int option \<Rightarrow> string option \<Rightarrow> temporal_policy \<Rightarrow> temporal_fact \<Rightarrow> bool" where
  "answers v k logical_id policy f \<longleftrightarrow> (\<forall>i \<in> set_option logical_id. tf_logical_id f = i)
     \<and> (\<forall>t \<in> set_option k. known_on f t)
     \<and> (\<forall>t \<in> set_option v. if validity_known f then valid_on f t else policy = INCLUDE_UNKNOWN)"

definition undated :: "int option \<Rightarrow> int option \<Rightarrow> string option \<Rightarrow> temporal_fact \<Rightarrow> bool" where
  "undated v k logical_id f \<longleftrightarrow> (\<forall>i \<in> set_option logical_id. tf_logical_id f = i)
     \<and> (\<forall>t \<in> set_option k. known_on f t) \<and> v \<noteq> None \<and> \<not> validity_known f"

definition verdict_of :: "int option \<Rightarrow> int option \<Rightarrow> string option \<Rightarrow> temporal_policy \<Rightarrow> temporal_fact \<Rightarrow> fact_verdict" where
  "verdict_of v k logical_id policy f =
    (if undated v k logical_id f then (if policy = EXCLUDE_UNKNOWN then Excluded else Included)
     else if answers v k logical_id policy f then Selected else Skipped)"

lemma judge_fact_aware:
  assumes "aware_fact f"
  shows "judge_fact (map_option Aware v) (map_option Aware k) logical_id policy f = Inr (verdict_of v k logical_id policy f)"
proof (cases "\<forall>i \<in> set_option logical_id. tf_logical_id f = i")
  case False
  then show ?thesis by (cases logical_id) (auto simp: judge_fact_def verdict_of_def undated_def answers_def)
next
  case True
  then have id: "\<not> (logical_id \<noteq> None \<and> logical_id \<noteq> Some (tf_logical_id f))" by (cases logical_id) auto
  have known: "(case map_option Aware k of None \<Rightarrow> Inr True | Some t \<Rightarrow> known_at f t) = Inr (\<forall>t \<in> set_option k. known_on f t)"
    by (cases k) (simp_all add: aware_fact_windows [OF assms])
  show ?thesis
  proof (cases "\<forall>t \<in> set_option k. known_on f t")
    case no: False
    then show ?thesis unfolding judge_fact_def known using id
      by (auto simp: verdict_of_def undated_def answers_def)
  next
    case yes: True
    then have "judge_fact (map_option Aware v) (map_option Aware k) logical_id policy f = (case map_option Aware v of
         None \<Rightarrow> Inr Selected
       | Some t \<Rightarrow>
         (if \<not> validity_known f then Inr (if policy = EXCLUDE_UNKNOWN then Excluded else Included)
          else mapR (\<lambda>v. if v then Selected else Skipped) (valid_at f t)))"
      unfolding judge_fact_def known if_not_P [OF id] by simp
    with yes True show ?thesis
      by (cases v) (simp_all add: aware_fact_windows [OF assms] verdict_of_def undated_def answers_def mapR_def)
  qed
qed

lemma as_of_loop_eq:
  assumes "\<And>f. f \<in> set fs \<Longrightarrow> judge f = Inr (verdict_of v k logical_id policy f)"
  shows "as_of_loop judge fs (selected, included, excluded) = Inr
     (selected @ filter (answers v k logical_id policy) fs,
      included @ (if policy = INCLUDE_UNKNOWN then map tf_logical_id (filter (undated v k logical_id) fs) else []),
      excluded @ (if policy = EXCLUDE_UNKNOWN then map tf_logical_id (filter (undated v k logical_id) fs) else []))"
  using assms
proof (induction fs arbitrary: selected included excluded)
  case Nil
  then show ?case by simp
next
  case (Cons f fs)
  have u: "undated v k logical_id f \<Longrightarrow> answers v k logical_id policy f \<longleftrightarrow> policy = INCLUDE_UNKNOWN"
    by (auto simp: undated_def answers_def)
  have "policy \<noteq> EXCLUDE_UNKNOWN \<longleftrightarrow> policy = INCLUDE_UNKNOWN" by (cases policy) auto
  with Cons u show ?case
    by (cases "undated v k logical_id f"; cases "answers v k logical_id policy f")
      (auto simp: verdict_of_def)
qed

lemma as_of_aware:
  assumes "\<forall>f \<in> set facts. aware_fact f"
  shows "as_of facts (map_option Aware v) (map_option Aware k) logical_id policy = Inr
    \<lparr>aa_facts = filter (answers v k logical_id policy) facts, aa_valid_at = map_option Aware v,
     aa_known_at = map_option Aware k, aa_policy = policy,
     aa_included_unknown = (if policy = INCLUDE_UNKNOWN
       then fromkeys (map tf_logical_id (filter (undated v k logical_id) facts)) else []),
     aa_excluded_unknown = (if policy = EXCLUDE_UNKNOWN
       then fromkeys (map tf_logical_id (filter (undated v k logical_id) facts)) else [])\<rparr>"
proof -
  have "as_of_loop (judge_fact (map_option Aware v) (map_option Aware k) logical_id policy) facts ([], [], []) = Inr
     (filter (answers v k logical_id policy) facts,
      (if policy = INCLUDE_UNKNOWN then map tf_logical_id (filter (undated v k logical_id) facts) else []),
      (if policy = EXCLUDE_UNKNOWN then map tf_logical_id (filter (undated v k logical_id) facts) else []))"
    using as_of_loop_eq [of facts _ v k logical_id policy "[]" "[]" "[]"] judge_fact_aware assms by simp
  then show ?thesis by (simp add: as_of_def mapR_def fromkeys_def)
qed

section \<open>Overlapping windows\<close>

text \<open>A fact as a Python program holds it: no stamp precedes \<open>datetime.min\<close>.\<close>

definition representable :: "temporal_fact \<Rightarrow> bool" where
  "representable f \<longleftrightarrow> aware_fact f \<and> (\<forall>s \<in> stamps f. min_instant \<le> instant s)"

definition nonempty_window :: "temporal_fact \<Rightarrow> bool" where
  "nonempty_window f \<longleftrightarrow> (\<forall>e \<in> set_option (tf_valid_to f). instant (window_start f) < instant e)"

definition share_instant :: "temporal_fact \<Rightarrow> temporal_fact \<Rightarrow> bool" where
  "share_instant l r \<longleftrightarrow> (\<exists>t. min_instant \<le> t \<and> valid_on l t \<and> valid_on r t)"

lemma window_start_aware:
  assumes "aware_fact f" and "validity_known f"
  shows "is_aware (window_start f)"
proof (cases "tf_valid_from f")
  case None
  with assms obtain e where "tf_valid_to f = Some e" "is_aware e"
    by (auto simp: validity_known_def aware_fact_def stamps_def)
  with None show ?thesis by (cases e) (auto simp: window_start_def open_start_def)
qed (use assms in \<open>simp add: window_start_def aware_fact_def stamps_def\<close>)

lemma windows_overlap_aware:
  assumes "aware_fact l" "aware_fact r" "validity_known l" "validity_known r"
  shows "windows_overlap l r = Inr ((\<forall>e \<in> set_option (tf_valid_to l). instant (window_start r) < instant e)
    \<and> (\<forall>e \<in> set_option (tf_valid_to r). instant (window_start l) < instant e))"
proof -
  have "(case tf_valid_to f of None \<Rightarrow> Inr True | Some e \<Rightarrow> dt_less (window_start h) e)
      = Inr (\<forall>e \<in> set_option (tf_valid_to f). instant (window_start h) < instant e)"
    if "aware_fact f" "aware_fact h" "validity_known h" for f h
    using that window_start_aware [of h] by (cases "tf_valid_to f") (auto simp: aware_fact_def stamps_def)
  with assms show ?thesis by (simp add: windows_overlap_def pairE_def mapR_def)
qed

lemma valid_on_start:
  assumes "representable f" and "validity_known f" and "min_instant \<le> t"
  shows "valid_on f t \<longleftrightarrow> instant (window_start f) \<le> t \<and> (\<forall>e \<in> set_option (tf_valid_to f). t < instant e)"
proof (cases "tf_valid_from f")
  case None
  with assms obtain e where "tf_valid_to f = Some e" "is_aware e"
    by (auto simp: validity_known_def representable_def aware_fact_def stamps_def)
  with None assms(3) show ?thesis by (cases e) (auto simp: spans_def window_start_def open_start_def)
qed (simp add: spans_def window_start_def)

lemma window_start_min:
  assumes "representable f" and "validity_known f"
  shows "min_instant \<le> instant (window_start f)"
proof (cases "tf_valid_from f")
  case None
  then show ?thesis by (auto simp: window_start_def open_start_def split: option.splits datetime.splits)
qed (use assms in \<open>simp add: window_start_def representable_def stamps_def\<close>)

lemma windows_overlap_shared:
  assumes "representable l" "representable r" "validity_known l" "validity_known r"
    and "nonempty_window l" "nonempty_window r"
  shows "windows_overlap l r = Inr (share_instant l r)"
proof -
  let ?l = "instant (window_start l)" and ?r = "instant (window_start r)"
  have "share_instant l r \<longleftrightarrow> (\<forall>e \<in> set_option (tf_valid_to l). ?r < instant e) \<and> (\<forall>e \<in> set_option (tf_valid_to r). ?l < instant e)"
    (is "_ \<longleftrightarrow> ?overlap")
  proof
    assume "share_instant l r"
    then show ?overlap
      using valid_on_start [OF assms(1,3)] valid_on_start [OF assms(2,4)]
      unfolding share_instant_def by (auto intro: le_less_trans)
  next
    assume ?overlap
    then have "\<forall>e \<in> set_option (tf_valid_to l). max ?l ?r < instant e" "\<forall>e \<in> set_option (tf_valid_to r). max ?l ?r < instant e"
      using assms(5,6) by (auto simp: nonempty_window_def)
    moreover have "min_instant \<le> max ?l ?r" using window_start_min [OF assms(1,3)] by simp
    ultimately show "share_instant l r"
      using valid_on_start [OF assms(1,3)] valid_on_start [OF assms(2,4)] unfolding share_instant_def
      by (intro exI [of _ "max ?l ?r"]) auto
  qed
  then show ?thesis using assms by (simp add: windows_overlap_aware representable_def)
qed

definition conflicting :: "temporal_fact \<Rightarrow> temporal_fact \<Rightarrow> bool" where
  "conflicting l r \<longleftrightarrow> tf_logical_id l = tf_logical_id r \<and> tf_value l \<noteq> tf_value r
     \<and> tf_superseded_at l = None \<and> tf_superseded_at r = None
     \<and> validity_known l \<and> validity_known r \<and> share_instant l r"

lemma contradicts_conflicting:
  assumes "representable l" "representable r" "nonempty_window l" "nonempty_window r"
  shows "contradicts l r = Inr (conflicting l r)"
proof (cases "validity_known l \<and> validity_known r")
  case True
  with assms windows_overlap_shared show ?thesis by (auto simp: contradicts_def conflicting_def)
next
  case False
  then show ?thesis by (auto simp: contradicts_def conflicting_def windows_overlap_def)
qed

lemma against_eq:
  "(\<And>r. r \<in> set rs \<Longrightarrow> contradicts l r = Inr (P r)) \<Longrightarrow>
    against l rs = Inr (map (\<lambda>r. (tf_logical_id l, tf_value l, tf_value r)) (filter P rs))"
  by (induction rs) (auto simp: mapR_def)

text \<open>The pairs of a list in the order of the nested loops.\<close>

fun pairs_in_order :: "'a list \<Rightarrow> ('a \<times> 'a) list" where
  "pairs_in_order [] = []"
| "pairs_in_order (x # xs) = map (Pair x) xs @ pairs_in_order xs"

lemma set_pairs_in_order: "(x, y) \<in> set (pairs_in_order xs) \<longleftrightarrow> (\<exists>i j. i < j \<and> j < length xs \<and> x = xs ! i \<and> y = xs ! j)"
proof (induction xs)
  case Nil
  then show ?case by simp
next
  case (Cons z zs)
  have "(\<exists>i j. i < j \<and> j < length (z # zs) \<and> x = (z # zs) ! i \<and> y = (z # zs) ! j)
      \<longleftrightarrow> (x = z \<and> y \<in> set zs) \<or> (\<exists>i j. i < j \<and> j < length zs \<and> x = zs ! i \<and> y = zs ! j)" (is "?l \<longleftrightarrow> ?r")
  proof
    assume ?l
    then obtain i j where ij: "i < j" "j < length (z # zs)" "x = (z # zs) ! i" "y = (z # zs) ! j" by blast
    then obtain j' where j': "j = Suc j'" by (cases j) auto
    show ?r
    proof (cases i)
      case 0
      with ij j' show ?thesis by (auto simp: in_set_conv_nth)
    next
      case (Suc i')
      with ij j' have "i' < j'" "j' < length zs" "x = zs ! i'" "y = zs ! j'" by auto
      then show ?thesis by blast
    qed
  next
    assume ?r
    then show ?l
    proof
      assume "x = z \<and> y \<in> set zs"
      then obtain j where "j < length zs" "y = zs ! j" "x = z" by (auto simp: in_set_conv_nth)
      then show ?l by (intro exI [of _ 0] exI [of _ "Suc j"]) auto
    next
      assume "\<exists>i j. i < j \<and> j < length zs \<and> x = zs ! i \<and> y = zs ! j"
      then obtain i j where "i < j" "j < length zs" "x = zs ! i" "y = zs ! j" by blast
      then show ?l by (intro exI [of _ "Suc i"] exI [of _ "Suc j"]) auto
    qed
  qed
  with Cons show ?case by auto
qed

lemma all_pairs_eq:
  "(\<And>l r. l \<in> set fs \<Longrightarrow> r \<in> set fs \<Longrightarrow> contradicts l r = Inr (conflicting l r)) \<Longrightarrow>
    all_pairs fs = Inr (map (\<lambda>(l, r). (tf_logical_id l, tf_value l, tf_value r))
      (filter (\<lambda>(l, r). conflicting l r) (pairs_in_order fs)))"
proof (induction fs)
  case Nil
  then show ?case by simp
next
  case (Cons l rs)
  have "against l rs = Inr (map (\<lambda>r. (tf_logical_id l, tf_value l, tf_value r)) (filter (conflicting l) rs))"
    using Cons.prems by (intro against_eq) auto
  with Cons show ?case by (simp add: pairE_def mapR_def filter_map comp_def)
qed

section \<open>Properties\<close>

text \<open>Fact: as-of queries are exact. On facts with aware stamps a query returns exactly the facts that match
  the id, were known at the system time, and held at the valid time; a fact without a stated validity
  answers a question about a valid time only under \<open>INCLUDE_UNKNOWN\<close>, and the answer names every such
  fact, as included or as excluded.\<close>

theorem as_of_exact:
  assumes "\<forall>f \<in> set facts. aware_fact f"
  shows "\<exists>a. as_of facts (map_option Aware v) (map_option Aware k) logical_id policy = Inr a
    \<and> aa_facts a = filter (\<lambda>f. (\<forall>i \<in> set_option logical_id. tf_logical_id f = i) \<and> (\<forall>t \<in> set_option k. known_on f t)
        \<and> (\<forall>t \<in> set_option v. if validity_known f then valid_on f t else policy = INCLUDE_UNKNOWN)) facts
    \<and> set (if policy = EXCLUDE_UNKNOWN then aa_excluded_unknown a else aa_included_unknown a) =
        {tf_logical_id f | f. f \<in> set facts \<and> undated v k logical_id f}
    \<and> (if policy = EXCLUDE_UNKNOWN then aa_included_unknown a else aa_excluded_unknown a) = []"
proof -
  have "(\<lambda>f. (\<forall>i \<in> set_option logical_id. tf_logical_id f = i) \<and> (\<forall>t \<in> set_option k. known_on f t)
        \<and> (\<forall>t \<in> set_option v. if validity_known f then valid_on f t else policy = INCLUDE_UNKNOWN))
      = answers v k logical_id policy"
    by (simp add: answers_def fun_eq_iff)
  with as_of_aware [OF assms, where v = v and k = k and logical_id = logical_id and policy = policy] show ?thesis
    by (cases policy) auto
qed

definition demo_fact :: "string \<Rightarrow> int \<Rightarrow> int \<Rightarrow> temporal_fact" where
  "demo_fact v from rec = \<lparr>tf_logical_id = ''policy'', tf_value = v, tf_valid_from = Some (Aware from), tf_valid_to = None,
     tf_recorded_at = Some (Aware rec), tf_superseded_at = None, tf_temporal_source = TS_EXPLICIT, tf_evidence_id = None\<rparr>"

lemma aware_demo_fact: "aware_fact (demo_fact v i j)"
  by (simp add: aware_fact_def stamps_def demo_fact_def)

theorem as_of_exact_witness:
  "\<exists>a. as_of [demo_fact ''two years'' 1 1, demo_fact ''three years'' 1 3] (Some (Aware 2)) (Some (Aware 2)) None EXCLUDE_UNKNOWN = Inr a
     \<and> aa_facts a = [demo_fact ''two years'' 1 1]"
proof -
  have "\<forall>f \<in> set [demo_fact ''two years'' 1 1, demo_fact ''three years'' 1 3]. aware_fact f"
    using aware_demo_fact by auto
  from as_of_exact [OF this, where v = "Some 2" and k = "Some 2" and logical_id = None and policy = EXCLUDE_UNKNOWN] show ?thesis
    by (auto simp: demo_fact_def validity_known_def spans_def)
qed

text \<open>C31: replay has no hindsight. What a replay at a moment reconstructs does not depend on facts recorded
  later, however far back they claim to be valid.\<close>

theorem replay_ignores_later:
  assumes "\<forall>f \<in> set facts. aware_fact f"
  shows "replay_context facts (Aware i) ids =
      replay_context (filter (\<lambda>f. \<forall>t \<in> set_option (tf_recorded_at f). instant t \<le> i) facts) (Aware i) ids
    \<and> (\<exists>a. replay_context facts (Aware i) ids = Inr a
        \<and> (\<forall>f \<in> set (aa_facts a). known_on f i \<and> valid_on f i \<and> validity_known f))"
proof -
  let ?early = "\<lambda>f. \<forall>t \<in> set_option (tf_recorded_at f). instant t \<le> i"
  have sub: "filter (answers (Some i) (Some i) None EXCLUDE_UNKNOWN) (filter ?early facts)
      = filter (answers (Some i) (Some i) None EXCLUDE_UNKNOWN) facts"
    "filter (undated (Some i) (Some i) None) (filter ?early facts) = filter (undated (Some i) (Some i) None) facts"
    unfolding filter_filter answers_def undated_def spans_def option.set
    by (rule filter_cong; blast)+
  have e: "\<forall>f \<in> set (filter ?early facts). aware_fact f" using assms by auto
  note a = as_of_aware [OF assms, where v = "Some i" and k = "Some i", unfolded option.map]
    as_of_aware [OF e, where v = "Some i" and k = "Some i", unfolded option.map]
  have "replay_context facts (Aware i) ids = replay_context (filter ?early facts) (Aware i) ids"
    unfolding replay_context_def a sub by simp
  moreover have "\<exists>a. replay_context facts (Aware i) ids = Inr a
      \<and> (\<forall>f \<in> set (aa_facts a). known_on f i \<and> valid_on f i \<and> validity_known f)"
    unfolding replay_context_def a mapR_def
    by (cases ids) (auto simp: answers_def split: if_splits)
  ultimately show ?thesis by blast
qed

theorem replay_ignores_later_witness:
  "replay_context [demo_fact ''two years'' 1 1, demo_fact ''three years'' 1 3] (Aware 2) None
     = replay_context [demo_fact ''two years'' 1 1] (Aware 2) None"
proof -
  have "\<forall>f \<in> set [demo_fact ''two years'' 1 1, demo_fact ''three years'' 1 3]. aware_fact f"
    using aware_demo_fact by auto
  from replay_ignores_later [OF this, where i = 2 and ids = None] show ?thesis by (simp add: demo_fact_def)
qed

text \<open>Fact: contradictions are exact. For facts with aware stamps and non-empty validity windows the report
  lists, in the order of the facts, exactly the pairs of facts of one logical id (the requested one, if
  any) with different values, neither superseded, both with stated validity, whose windows share an
  instant.\<close>

theorem contradictions_exact:
  assumes "\<forall>f \<in> set facts. representable f \<and> nonempty_window f"
  shows "let fs = filter (\<lambda>f. \<forall>i \<in> set_option logical_id. tf_logical_id f = i) facts in
    \<exists>found. contradictions facts logical_id = Inr found
    \<and> (\<forall>t. t \<in> set found \<longleftrightarrow> (\<exists>i j. i < j \<and> j < length fs
        \<and> t = (tf_logical_id (fs ! i), tf_value (fs ! i), tf_value (fs ! j))
        \<and> tf_logical_id (fs ! i) = tf_logical_id (fs ! j) \<and> tf_value (fs ! i) \<noteq> tf_value (fs ! j)
        \<and> tf_superseded_at (fs ! i) = None \<and> tf_superseded_at (fs ! j) = None
        \<and> validity_known (fs ! i) \<and> validity_known (fs ! j)
        \<and> (\<exists>t. min_instant \<le> t \<and> valid_on (fs ! i) t \<and> valid_on (fs ! j) t)))"
proof -
  define fs where "fs = filter (\<lambda>f. \<forall>i \<in> set_option logical_id. tf_logical_id f = i) facts"
  have "filter (\<lambda>f. logical_id = None \<or> logical_id = Some (tf_logical_id f)) facts = fs"
    unfolding fs_def by (intro filter_cong) (auto split: option.splits, cases logical_id, auto)
  moreover have "all_pairs fs = Inr (map (\<lambda>(l, r). (tf_logical_id l, tf_value l, tf_value r))
      (filter (\<lambda>(l, r). conflicting l r) (pairs_in_order fs)))"
    using assms(1) by (intro all_pairs_eq contradicts_conflicting) (auto simp: fs_def)
  moreover have "(\<exists>l r. (l, r) \<in> set (pairs_in_order fs) \<and> P l r) \<longleftrightarrow> (\<exists>i j. i < j \<and> j < length fs \<and> P (fs ! i) (fs ! j))" for P
    unfolding set_pairs_in_order by blast
  ultimately show ?thesis
    unfolding Let_def fs_def [symmetric] contradictions_def conflicting_def share_instant_def
    by (auto simp: image_iff)
qed

theorem contradictions_exact_witness:
  "\<exists>found. contradictions [demo_fact ''two years'' 1 1, demo_fact ''three years'' 5 3] None = Inr found
    \<and> (''policy'', ''two years'', ''three years'') \<in> set found"
proof -
  let ?fs = "[demo_fact ''two years'' 1 1, demo_fact ''three years'' 5 3]"
  have "\<forall>f \<in> set ?fs. representable f \<and> nonempty_window f"
    by (auto simp: representable_def aware_fact_def nonempty_window_def stamps_def demo_fact_def min_instant_def)
  note c = contradictions_exact [OF this, where logical_id = None, unfolded Let_def]
  have "filter (\<lambda>f. \<forall>i \<in> set_option None. tf_logical_id f = i) ?fs = ?fs" by simp
  note c [unfolded this]
  then obtain found where "contradictions ?fs None = Inr found"
    and f: "\<And>t. t \<in> set found \<longleftrightarrow> (\<exists>i j. i < j \<and> j < length ?fs
        \<and> t = (tf_logical_id (?fs ! i), tf_value (?fs ! i), tf_value (?fs ! j))
        \<and> tf_logical_id (?fs ! i) = tf_logical_id (?fs ! j) \<and> tf_value (?fs ! i) \<noteq> tf_value (?fs ! j)
        \<and> tf_superseded_at (?fs ! i) = None \<and> tf_superseded_at (?fs ! j) = None
        \<and> validity_known (?fs ! i) \<and> validity_known (?fs ! j)
        \<and> (\<exists>t. min_instant \<le> t \<and> valid_on (?fs ! i) t \<and> valid_on (?fs ! j) t))" by blast
  moreover have "(''policy'', ''two years'', ''three years'') \<in> set found"
    unfolding f by (intro exI [of _ 0] exI [of _ 1])
      (auto simp: demo_fact_def validity_known_def spans_def min_instant_def intro!: exI [of _ 7])
  ultimately show ?thesis by blast
qed

text \<open>Fact: an empty window contradicts. A fact whose validity ends when it begins holds at no instant, yet it
  is reported as contradicting every other value whose window is around that instant.\<close>

theorem empty_window_contradicts:
  "\<exists>f h. mk_temporal_fact f = Inr f \<and> mk_temporal_fact h = Inr h \<and> (\<forall>t. \<not> valid_on f t)
    \<and> contradictions [f, h] None = Inr [(tf_logical_id f, tf_value f, tf_value h)]"
proof -
  let ?f = "demo_fact ''withdrawn'' 5 1\<lparr>tf_valid_to := Some (Aware 5)\<rparr>" and ?h = "demo_fact ''two years'' 1 1"
  have "mk_temporal_fact ?f = Inr ?f" "mk_temporal_fact ?h = Inr ?h"
    by (simp_all add: mk_temporal_fact_def in_order_def demo_fact_def)
  moreover have "\<forall>t. \<not> valid_on ?f t" by (simp add: spans_def demo_fact_def)
  moreover have "contradictions [?f, ?h] None = Inr [(tf_logical_id ?f, tf_value ?f, tf_value ?h)]"
    by (simp add: contradictions_def contradicts_def windows_overlap_def validity_known_def window_start_def
        demo_fact_def mapR_def pairE_def)
  ultimately show ?thesis by blast
qed

text \<open>Fact: history. For facts with aware stamps the history of an id returns, sorted by recording and validity
  time, exactly its facts; those without a recording time come last.\<close>

theorem history_sorted:
  assumes "\<forall>f \<in> set facts. aware_fact f"
  shows "\<exists>hs. fact_history facts i = Inr hs \<and> mset hs = {# f \<in># mset facts. tf_logical_id f = i #}
    \<and> sorted (map history_key hs)
    \<and> (\<exists>dated undated. hs = dated @ undated \<and> (\<forall>f \<in> set dated. tf_recorded_at f \<noteq> None)
        \<and> (\<forall>f \<in> set undated. tf_recorded_at f = None))"
proof -
  let ?m = "filter (\<lambda>f. tf_logical_id f = i) facts"
  let ?hs = "sort_key history_key ?m"
  have "\<not> keys_clash f h" if "aware_fact f" "aware_fact h" for f h
    using that by (auto simp: keys_clash_def aware_fact_def stamps_def split: option.splits)
  then have "\<not> list_ex (\<lambda>f. list_ex (keys_clash f) ?m) ?m" using assms by (auto simp: list_ex_iff)
  then have "fact_history facts i = Inr ?hs" unfolding fact_history_def Let_def by simp
  moreover have "sorted (map history_key ?hs)" by simp
  moreover have "?hs = filter (\<lambda>f. tf_recorded_at f \<noteq> None) ?hs @ filter (\<lambda>f. tf_recorded_at f = None) ?hs"
  proof -
    have "hs = filter (\<lambda>f. tf_recorded_at f \<noteq> None) hs @ filter (\<lambda>f. tf_recorded_at f = None) hs"
      if "sorted (map history_key hs)" for hs
      using that
    proof (induction hs)
      case Nil
      then show ?case by simp
    next
      case (Cons f hs)
      show ?case
      proof (cases "tf_recorded_at f = None")
        case True
        with Cons.prems have "\<forall>h \<in> set hs. tf_recorded_at h = None" by (auto simp: history_key_def less_eq_prod_def)
        then have "filter (\<lambda>f. tf_recorded_at f \<noteq> None) hs = []" "filter (\<lambda>f. tf_recorded_at f = None) hs = hs" by auto
        with True show ?thesis by simp
      next
        case False
        with Cons show ?thesis by auto
      qed
    qed
    then show ?thesis by simp
  qed
  moreover have "mset ?hs = {# f \<in># mset facts. tf_logical_id f = i #}" by simp
  moreover have "\<forall>f \<in> set (filter (\<lambda>f. tf_recorded_at f \<noteq> None) hs). tf_recorded_at f \<noteq> None"
    "\<forall>f \<in> set (filter (\<lambda>f. tf_recorded_at f = None) hs). tf_recorded_at f = None" for hs by auto
  ultimately show ?thesis by blast
qed

theorem history_sorted_witness:
  "\<exists>hs. fact_history [demo_fact ''b'' 1 3, demo_fact ''a'' 1 2] ''policy'' = Inr hs
    \<and> mset hs = {# demo_fact ''a'' 1 2, demo_fact ''b'' 1 3 #}"
proof -
  have "\<forall>f \<in> set [demo_fact ''b'' 1 3, demo_fact ''a'' 1 2]. aware_fact f" using aware_demo_fact by auto
  from history_sorted [OF this, where i = "''policy''"] show ?thesis by (auto simp: demo_fact_def add_mset_commute)
qed

end
