(* ===== verification/Authority.thy ===== *)
theory Authority
  imports Temporal
begin

text \<open>
  \<^verbatim>\<open>packages/cir-python/src/akc_cir/authority.py\<close>: which of several statements answers a question.
  The predicate of a resolution rule is a total function. The time stamp of a naive datetime is read
  in the local zone; the zone is the parameter \<open>zone\<close> that maps it to an instant.
\<close>

section \<open>Data\<close>

datatype authority_class = AC_DRAFT | AC_INFORMAL | AC_DEPARTMENTAL | AC_OFFICIAL | AC_CONTRACTUAL | AC_REGULATORY

fun authority_int :: "authority_class \<Rightarrow> int" where
  "authority_int AC_DRAFT = 0"
| "authority_int AC_INFORMAL = 1"
| "authority_int AC_DEPARTMENTAL = 2"
| "authority_int AC_OFFICIAL = 3"
| "authority_int AC_CONTRACTUAL = 4"
| "authority_int AC_REGULATORY = 5"

datatype source_status = SS_WITHDRAWN | SS_SUPERSEDED | SS_AMENDED | SS_ACTIVE

fun source_status_int :: "source_status \<Rightarrow> int" where
  "source_status_int SS_WITHDRAWN = 0"
| "source_status_int SS_SUPERSEDED = 1"
| "source_status_int SS_AMENDED = 2"
| "source_status_int SS_ACTIVE = 3"

datatype resolution_status = RESOLVED | CONFLICTED | NO_CANDIDATE

fun resolution_status_value :: "resolution_status \<Rightarrow> string" where
  "resolution_status_value RESOLVED = ''RESOLVED''"
| "resolution_status_value CONFLICTED = ''CONFLICTED''"
| "resolution_status_value NO_CANDIDATE = ''NO_CANDIDATE''"

datatype rule_outcome = RO_PREFER | RO_EXCLUDE

record claim_context =
  cc_subject :: string
  cc_as_of :: datetime
  cc_object_id :: "string option"
  cc_customer_id :: "string option"
  cc_region :: "string option"
  cc_contract_id :: "string option"
  cc_permissions :: "string set"

record scoped_claim =
  sl_claim_id :: string
  sl_subject :: string
  sl_value :: string
  sl_authority :: authority_class
  sl_source_status :: source_status
  sl_scope :: "(string \<times> string) list"
  sl_valid_from :: "datetime option"
  sl_valid_to :: "datetime option"
  sl_recorded_at :: "datetime option"
  sl_required_permission :: "string option"
  sl_evidence_id :: "string option"

definition visible_to :: "scoped_claim \<Rightarrow> claim_context \<Rightarrow> bool" where
  "visible_to c ctx = (case sl_required_permission c of None \<Rightarrow> True | Some p \<Rightarrow> p \<in> cc_permissions ctx)"

definition temporally_valid :: "scoped_claim \<Rightarrow> datetime \<Rightarrow> pyerr + bool" where
  "temporally_valid c moment = in_window (sl_valid_from c) (sl_valid_to c) moment"

text \<open>\<open>available.get(dimension)\<close>.\<close>

definition scope_available :: "claim_context \<Rightarrow> string \<Rightarrow> string option" where
  "scope_available ctx dimension =
    (if dimension = ''customer_id'' then cc_customer_id ctx
     else if dimension = ''region'' then cc_region ctx
     else if dimension = ''contract_id'' then cc_contract_id ctx
     else if dimension = ''object_id'' then cc_object_id ctx
     else None)"

fun match_dimensions :: "claim_context \<Rightarrow> (string \<times> string) list \<Rightarrow> int \<Rightarrow> int" where
  "match_dimensions ctx [] matched = matched"
| "match_dimensions ctx ((dimension, required) # rest) matched =
    (if scope_available ctx dimension \<noteq> Some required then -1 else match_dimensions ctx rest (matched + 1))"

definition scope_match :: "scoped_claim \<Rightarrow> claim_context \<Rightarrow> int" where
  "scope_match c ctx = match_dimensions ctx (sl_scope c) 0"

definition specificity :: "scoped_claim \<Rightarrow> int" where
  "specificity c = int (length (sl_scope c))"

record resolution_rule =
  rr_rule_id :: string
  rr_subject_type :: string
  rr_when :: "scoped_claim \<Rightarrow> claim_context \<Rightarrow> bool"
  rr_precedence :: int
  rr_outcome :: rule_outcome
  rr_evidence_requirement :: string
  rr_approved_by :: string

definition applies_to :: "resolution_rule \<Rightarrow> scoped_claim \<Rightarrow> claim_context \<Rightarrow> bool" where
  "applies_to r c ctx = (if rr_subject_type r \<noteq> sl_subject c then False
     else if rr_evidence_requirement r = ''EXPLICIT'' \<and> sl_evidence_id c = None then False
     else rr_when r c ctx)"

record resolution =
  rs_status :: resolution_status
  rs_claim :: "scoped_claim option"
  rs_candidates :: "scoped_claim list"
  rs_required_review :: bool
  rs_reason :: string
  rs_permission_filtered :: nat

definition resolution_record :: "resolution \<Rightarrow> jval" where
  "resolution_record r = JObj
     [(''status'', JStr (resolution_status_value (rs_status r))),
      (''claim_id'', jopt (map_option sl_claim_id (rs_claim r))),
      (''value'', jopt (map_option sl_value (rs_claim r))),
      (''candidates'', JList (map (JStr \<circ> sl_claim_id) (rs_candidates r))),
      (''required_review'', JBool (rs_required_review r)), (''reason'', JStr (rs_reason r))]"

section \<open>Ranking\<close>

text \<open>\<open>int(t.timestamp())\<close>: whole seconds since the epoch, rounded towards zero.\<close>

definition epoch_seconds :: "(int \<Rightarrow> int) \<Rightarrow> datetime \<Rightarrow> int" where
  "epoch_seconds zone t = (let i = (case t of Aware i \<Rightarrow> i | Naive n \<Rightarrow> zone n)
     in if 0 \<le> i then i div 1000000 else - ((- i) div 1000000))"

definition rank_tuple :: "(int \<Rightarrow> int) \<Rightarrow> claim_context \<Rightarrow> int \<Rightarrow> scoped_claim \<Rightarrow> pyerr + int list" where
  "rank_tuple zone ctx override c = mapR (\<lambda>valid.
     [if visible_to c ctx then 1 else 0, if valid then 1 else 0, scope_match c ctx, override,
      authority_int (sl_authority c), specificity c, source_status_int (sl_source_status c),
      (case sl_recorded_at c of None \<Rightarrow> 0 | Some t \<Rightarrow> epoch_seconds zone t)])
     (temporally_valid c (cc_as_of ctx))"

fun keep_applicable :: "claim_context \<Rightarrow> scoped_claim list \<Rightarrow> pyerr + scoped_claim list" where
  "keep_applicable ctx [] = Inr []"
| "keep_applicable ctx (c # cs) =
    (if \<not> visible_to c ctx then keep_applicable ctx cs
     else (case temporally_valid c (cc_as_of ctx) of
       Inl e \<Rightarrow> Inl e
     | Inr valid \<Rightarrow> mapR (\<lambda>rest. if valid \<and> 0 \<le> scope_match c ctx then c # rest else rest) (keep_applicable ctx cs)))"

fun override_loop :: "scoped_claim \<Rightarrow> claim_context \<Rightarrow> resolution_rule list \<Rightarrow> int \<Rightarrow> int" where
  "override_loop c ctx [] override = override"
| "override_loop c ctx (r # rules) override =
    (if \<not> applies_to r c ctx then override_loop c ctx rules override
     else if rr_outcome r = RO_EXCLUDE then -1
     else override_loop c ctx rules (max override (rr_precedence r)))"

fun score_claims ::
  "(int \<Rightarrow> int) \<Rightarrow> claim_context \<Rightarrow> resolution_rule list \<Rightarrow> scoped_claim list \<Rightarrow> pyerr + (int list \<times> scoped_claim) list" where
  "score_claims zone ctx rules [] = Inr []"
| "score_claims zone ctx rules (c # cs) =
    (let override = override_loop c ctx rules 0 in
     if override < 0 then score_claims zone ctx rules cs
     else (case rank_tuple zone ctx override c of
       Inl e \<Rightarrow> Inl e
     | Inr t \<Rightarrow> mapR (\<lambda>rest. (t, c) # rest) (score_claims zone ctx rules cs)))"

text \<open>\<open>sort(key=..., reverse=True)\<close> keeps the order of equal keys.\<close>

definition sort_descending :: "('a \<Rightarrow> 'k::linorder) \<Rightarrow> 'a list \<Rightarrow> 'a list" where
  "sort_descending f xs = rev (sort_key f (rev xs))"

definition rank_claims ::
  "(int \<Rightarrow> int) \<Rightarrow> scoped_claim list \<Rightarrow> claim_context \<Rightarrow> resolution_rule list \<Rightarrow> pyerr + (int list \<times> scoped_claim) list" where
  "rank_claims zone claims ctx rules =
    (case keep_applicable ctx claims of
      Inl e \<Rightarrow> Inl e
    | Inr applicable \<Rightarrow> mapR (sort_descending (\<lambda>(t, c). (t, sl_claim_id c))) (score_claims zone ctx rules applicable))"

section \<open>Resolution\<close>

definition rank_elements :: "string list" where
  "rank_elements = [''permission_visible'', ''temporal_valid'', ''scope_match'', ''explicit_override'',
     ''authority_rank'', ''specificity'', ''source_status'', ''recency'']"

definition explain_resolution :: "int list \<Rightarrow> scoped_claim \<Rightarrow> (int list \<times> scoped_claim) list \<Rightarrow> string" where
  "explain_resolution best c ranked =
    (if length ranked < 2 then sl_claim_id c @ '' is the only applicable claim''
     else (case List.find (\<lambda>(name, b, r). b \<noteq> r) (zip rank_elements (zip best (fst (ranked ! 1)))) of
       Some (name, b, r) \<Rightarrow> sl_claim_id c @ '' wins on '' @ name @ '' ('' @ int_str b @ '' against '' @ int_str r @ '')''
     | None \<Rightarrow> sl_claim_id c @ '' ties on every element and agrees with the rest''))"

definition resolve_authority ::
  "(int \<Rightarrow> int) \<Rightarrow> scoped_claim list \<Rightarrow> claim_context \<Rightarrow> resolution_rule list \<Rightarrow> pyerr + resolution" where
  "resolve_authority zone claims ctx rules =
    (let hidden = length (filter (\<lambda>c. \<not> visible_to c ctx) claims) in
     mapR (\<lambda>ranked. case ranked of
        [] \<Rightarrow> \<lparr>rs_status = NO_CANDIDATE, rs_claim = None, rs_candidates = [], rs_required_review = False,
              rs_reason = ''no claim is visible, temporally valid and in scope for this question'',
              rs_permission_filtered = hidden\<rparr>
      | (best_tuple, best) # _ \<Rightarrow>
          let tied = map snd (filter (\<lambda>(t, c). t = best_tuple) ranked) in
          if 1 < length (remdups (map sl_value tied)) then
            \<lparr>rs_status = CONFLICTED, rs_claim = None, rs_candidates = tied, rs_required_review = True,
             rs_reason = nat_str (length tied) @
               '' claims are equal on every ranking element and disagree; choosing between them would be a guess presented as an answer'',
             rs_permission_filtered = hidden\<rparr>
          else
            \<lparr>rs_status = RESOLVED, rs_claim = Some best, rs_candidates = map snd ranked, rs_required_review = False,
             rs_reason = explain_resolution best_tuple best ranked, rs_permission_filtered = hidden\<rparr>)
       (rank_claims zone claims ctx rules))"

section \<open>The candidates of a question and their rank\<close>

definition aware_claim :: "scoped_claim \<Rightarrow> bool" where
  "aware_claim c \<longleftrightarrow> (\<forall>s \<in> set_option (sl_valid_from c) \<union> set_option (sl_valid_to c). is_aware s)"

definition overridden :: "scoped_claim \<Rightarrow> claim_context \<Rightarrow> resolution_rule list \<Rightarrow> int" where
  "overridden c ctx rules = override_loop c ctx rules 0"

definition eligible_claim :: "claim_context \<Rightarrow> resolution_rule list \<Rightarrow> scoped_claim \<Rightarrow> bool" where
  "eligible_claim ctx rules c \<longleftrightarrow> visible_to c ctx
     \<and> spans (sl_valid_from c) (sl_valid_to c) (instant (cc_as_of ctx))
     \<and> (\<forall>(d, v) \<in> set (sl_scope c). scope_available ctx d = Some v)
     \<and> (\<forall>r \<in> set rules. applies_to r c ctx \<longrightarrow> rr_outcome r \<noteq> RO_EXCLUDE)"

text \<open>The rank of an eligible claim: the elements that are not the same for all of them.\<close>

definition standing :: "(int \<Rightarrow> int) \<Rightarrow> claim_context \<Rightarrow> resolution_rule list \<Rightarrow> scoped_claim \<Rightarrow> int list" where
  "standing zone ctx rules c =
     [scope_match c ctx, overridden c ctx rules, authority_int (sl_authority c), specificity c,
      source_status_int (sl_source_status c), (case sl_recorded_at c of None \<Rightarrow> 0 | Some t \<Rightarrow> epoch_seconds zone t)]"

lemma match_dimensions_eq:
  "0 \<le> n \<Longrightarrow> match_dimensions ctx ds n =
    (if \<forall>(d, v) \<in> set ds. scope_available ctx d = Some v then n + int (length ds) else -1)"
  by (induction ds arbitrary: n) auto

lemma scope_match_eq: "scope_match c ctx =
    (if \<forall>(d, v) \<in> set (sl_scope c). scope_available ctx d = Some v then specificity c else -1)"
  by (simp add: scope_match_def match_dimensions_eq specificity_def)

lemma scope_match_nonneg: "0 \<le> scope_match c ctx \<longleftrightarrow> (\<forall>(d, v) \<in> set (sl_scope c). scope_available ctx d = Some v)"
  by (simp add: scope_match_eq specificity_def)

lemma override_loop_neg:
  "0 \<le> n \<Longrightarrow> override_loop c ctx rules n < 0 \<longleftrightarrow> (\<exists>r \<in> set rules. applies_to r c ctx \<and> rr_outcome r = RO_EXCLUDE)"
  by (induction rules arbitrary: n) auto

lemma overridden_nonneg: "0 \<le> overridden c ctx rules \<longleftrightarrow> (\<forall>r \<in> set rules. applies_to r c ctx \<longrightarrow> rr_outcome r \<noteq> RO_EXCLUDE)"
  using override_loop_neg [of 0 c ctx rules] by (auto simp: overridden_def not_le [symmetric])

lemma temporally_valid_aware:
  assumes "aware_claim c" and "is_aware t"
  shows "temporally_valid c t = Inr (spans (sl_valid_from c) (sl_valid_to c) (instant t))"
  using assms in_window_aware [of "sl_valid_from c" "sl_valid_to c" "instant t"]
  by (cases t) (auto simp: temporally_valid_def aware_claim_def)

lemma keep_applicable_eq:
  assumes "\<forall>c \<in> set cs. aware_claim c" and "is_aware (cc_as_of ctx)"
  shows "keep_applicable ctx cs = Inr (filter (\<lambda>c. visible_to c ctx
     \<and> spans (sl_valid_from c) (sl_valid_to c) (instant (cc_as_of ctx)) \<and> 0 \<le> scope_match c ctx) cs)"
  using assms(1) by (induction cs) (auto simp: temporally_valid_aware assms(2) mapR_def)

lemma score_claims_eq:
  assumes "\<forall>c \<in> set cs. aware_claim c \<and> visible_to c ctx
      \<and> spans (sl_valid_from c) (sl_valid_to c) (instant (cc_as_of ctx))"
    and "is_aware (cc_as_of ctx)"
  shows "score_claims zone ctx rules cs = Inr (map (\<lambda>c. (1 # 1 # standing zone ctx rules c, c))
     (filter (\<lambda>c. 0 \<le> overridden c ctx rules) cs))"
  using assms(1) by (induction cs)
    (auto simp: temporally_valid_aware assms(2) mapR_def rank_tuple_def standing_def overridden_def Let_def)

lemma rank_claims_eq:
  assumes "\<forall>c \<in> set claims. aware_claim c" and "is_aware (cc_as_of ctx)"
  shows "rank_claims zone claims ctx rules = Inr (map (\<lambda>c. (1 # 1 # standing zone ctx rules c, c))
     (sort_descending (\<lambda>c. (1 # 1 # standing zone ctx rules c, sl_claim_id c)) (filter (eligible_claim ctx rules) claims)))"
proof -
  let ?a = "filter (\<lambda>c. visible_to c ctx \<and> spans (sl_valid_from c) (sl_valid_to c) (instant (cc_as_of ctx))
     \<and> 0 \<le> scope_match c ctx) claims"
  have "filter (\<lambda>c. 0 \<le> overridden c ctx rules) ?a = filter (eligible_claim ctx rules) claims"
    unfolding filter_filter by (intro filter_cong) (auto simp: eligible_claim_def scope_match_nonneg overridden_nonneg)
  moreover have "score_claims zone ctx rules ?a = Inr (map (\<lambda>c. (1 # 1 # standing zone ctx rules c, c))
     (filter (\<lambda>c. 0 \<le> overridden c ctx rules) ?a))"
    using assms by (intro score_claims_eq) auto
  ultimately show ?thesis
    unfolding rank_claims_def keep_applicable_eq [OF assms] sort_descending_def
    by (simp add: mapR_def rev_map sort_key_map comp_def)
qed

lemma set_sort_descending [simp]: "set (sort_descending f xs) = set xs"
  by (simp add: sort_descending_def)

lemma sort_descending_Nil [simp]: "sort_descending f xs = [] \<longleftrightarrow> xs = []"
  by (metis set_empty set_sort_descending)

lemma sort_descending_hd: "xs \<noteq> [] \<Longrightarrow> y \<in> set xs \<Longrightarrow> f y \<le> f (hd (sort_descending f xs))"
proof -
  assume "xs \<noteq> []" and y: "y \<in> set xs"
  have s: "sorted (map f (sort_key f (rev xs)))" by simp
  have ne: "sort_key f (rev xs) \<noteq> []" using y by (metis empty_iff list.set(1) set_rev set_sort)
  have "f z \<le> f (last zs)" if "sorted (map f zs)" "z \<in> set zs" for z zs
    using that by (induction zs rule: rev_induct) (auto simp: sorted_append)
  with s y ne show "f y \<le> f (hd (sort_descending f xs))" by (simp add: sort_descending_def hd_rev)
qed

lemma list_two_cons_le: "x # y # xs \<le> x # y # (zs :: int list) \<longleftrightarrow> xs \<le> zs"
  by simp

text \<open>What the resolution is, in terms of the eligible claims and their standing.\<close>

definition top_ranked :: "(int \<Rightarrow> int) \<Rightarrow> claim_context \<Rightarrow> resolution_rule list \<Rightarrow> scoped_claim list \<Rightarrow> scoped_claim \<Rightarrow> bool" where
  "top_ranked zone ctx rules claims c \<longleftrightarrow> c \<in> set claims \<and> eligible_claim ctx rules c
     \<and> (\<forall>d \<in> set claims. eligible_claim ctx rules d \<longrightarrow> standing zone ctx rules d \<le> standing zone ctx rules c)"

lemma length_remdups_gt_1: "1 < length (remdups xs) \<longleftrightarrow> (\<exists>x \<in> set xs. \<exists>y \<in> set xs. x \<noteq> y)"
proof -
  have "\<not> card (set xs) \<le> Suc 0 \<longleftrightarrow> (\<exists>x \<in> set xs. \<exists>y \<in> set xs. x \<noteq> y)"
    by (subst card_le_Suc0_iff_eq) auto
  then show ?thesis by (simp add: length_remdups_card_conv not_le)
qed

lemma resolve_authority_cases:
  assumes "\<forall>c \<in> set claims. aware_claim c" and "is_aware (cc_as_of ctx)"
  obtains r where "resolve_authority zone claims ctx rules = Inr r"
    and "rs_permission_filtered r = length (filter (\<lambda>c. \<not> visible_to c ctx) claims)"
    and "rs_required_review r \<longleftrightarrow> rs_status r = CONFLICTED"
    and "rs_claim r \<noteq> None \<longleftrightarrow> rs_status r = RESOLVED"
    and "rs_status r = NO_CANDIDATE \<longleftrightarrow> filter (eligible_claim ctx rules) claims = []"
    and "rs_status r = CONFLICTED \<longleftrightarrow> (\<exists>c d. top_ranked zone ctx rules claims c \<and> top_ranked zone ctx rules claims d \<and> sl_value c \<noteq> sl_value d)"
    and "\<forall>c. rs_claim r = Some c \<longrightarrow> top_ranked zone ctx rules claims c"
    and "set (rs_candidates r) = (if rs_status r = CONFLICTED then Collect (top_ranked zone ctx rules claims)
      else {c \<in> set claims. eligible_claim ctx rules c})"
proof -
  let ?st = "standing zone ctx rules" and ?e = "filter (eligible_claim ctx rules) claims"
  let ?key = "\<lambda>c. (1 # 1 # ?st c, sl_claim_id c)"
  let ?ranked = "map (\<lambda>c. (1 # 1 # ?st c, c)) (sort_descending ?key ?e)"
  let ?hidden = "length (filter (\<lambda>c. \<not> visible_to c ctx) claims)"
  note ranked = rank_claims_eq [OF assms, of zone rules]
  show thesis
  proof (cases "?e = []")
    case True
    show thesis
      by (rule that [of "\<lparr>rs_status = NO_CANDIDATE, rs_claim = None, rs_candidates = [], rs_required_review = False,
              rs_reason = ''no claim is visible, temporally valid and in scope for this question'',
              rs_permission_filtered = ?hidden\<rparr>"])
        (use True in \<open>auto simp: resolve_authority_def ranked mapR_def sort_descending_def top_ranked_def filter_empty_conv\<close>)
  next
    case False
    define best where "best = hd (sort_descending ?key ?e)"
    have sd: "sort_descending ?key ?e = best # tl (sort_descending ?key ?e)"
      using False unfolding best_def by simp
    have mem: "best \<in> set claims" "eligible_claim ctx rules best"
      proof -
      have "best \<in> set (sort_descending ?key ?e)" by (subst sd) simp
      then show "best \<in> set claims" "eligible_claim ctx rules best" by simp_all
    qed
    have le: "?st d \<le> ?st best" if "d \<in> set claims" "eligible_claim ctx rules d" for d
    proof -
      have "?key d \<le> ?key best" unfolding best_def by (rule sort_descending_hd [OF False]) (use that in simp)
      then show ?thesis by (auto simp: less_eq_prod_def)
    qed
    have top: "top_ranked zone ctx rules claims c \<longleftrightarrow> c \<in> set claims \<and> eligible_claim ctx rules c \<and> ?st c = ?st best" for c
      using mem le unfolding top_ranked_def by (metis order.antisym)
    let ?tied = "map snd (filter (\<lambda>(t, c). t = 1 # 1 # ?st best) ?ranked)"
    have tied: "set ?tied = Collect (top_ranked zone ctx rules claims)"
      unfolding top by (auto simp: image_iff)
    have hd: "?ranked = (1 # 1 # ?st best, best) # map (\<lambda>c. (1 # 1 # ?st c, c)) (tl (sort_descending ?key ?e))"
      by (subst sd) simp
    define tied where "tied = ?tied"
    define names where "names = map snd ?ranked"
    define why where "why = explain_resolution (1 # 1 # ?st best) best ?ranked"
    define doubt where "doubt = nat_str (length tied) @
       '' claims are equal on every ranking element and disagree; choosing between them would be a guess presented as an answer''"
    have resolve: "resolve_authority zone claims ctx rules = Inr
       (if 1 < length (remdups (map sl_value tied)) then
            \<lparr>rs_status = CONFLICTED, rs_claim = None, rs_candidates = tied, rs_required_review = True,
             rs_reason = doubt, rs_permission_filtered = ?hidden\<rparr>
          else
            \<lparr>rs_status = RESOLVED, rs_claim = Some best, rs_candidates = names, rs_required_review = False,
             rs_reason = why, rs_permission_filtered = ?hidden\<rparr>)"
      unfolding resolve_authority_def ranked Let_def mapR_def sum.case tied_def names_def why_def doubt_def
      by (subst (1) hd) (simp only: list.case prod.case)
    have conflict: "1 < length (remdups (map sl_value tied)) \<longleftrightarrow>
        (\<exists>c d. top_ranked zone ctx rules claims c \<and> top_ranked zone ctx rules claims d \<and> sl_value c \<noteq> sl_value d)"
      unfolding length_remdups_gt_1 set_map [of sl_value] tied_def tied by blast
    have names: "set names = {c \<in> set claims. eligible_claim ctx rules c}" by (simp add: names_def image_image)
    have top_best: "top_ranked zone ctx rules claims best" using top mem by simp
    have tied': "set tied = Collect (top_ranked zone ctx rules claims)" using tied by (simp only: tied_def)
    show thesis
    proof (cases "1 < length (remdups (map sl_value tied))")
      case True
      note r = resolve [unfolded if_P [OF True]]
      have c: "\<exists>c d. top_ranked zone ctx rules claims c \<and> top_ranked zone ctx rules claims d \<and> sl_value c \<noteq> sl_value d"
        using True conflict by blast
      show thesis
        by (rule that [OF r], simp_all only: resolution.simps resolution_status.distinct if_True tied' option.distinct simp_thms)
          (use c False in simp_all)
    next
      case no: False
      note r = resolve [unfolded if_not_P [OF no]]
      have c: "\<not> (\<exists>c d. top_ranked zone ctx rules claims c \<and> top_ranked zone ctx rules claims d \<and> sl_value c \<noteq> sl_value d)"
        using no conflict by blast
      show thesis
        by (rule that [OF r], simp_all only: resolution.simps resolution_status.distinct if_False names option.distinct option.inject simp_thms)
          (use c False top_best in blast)+
    qed
  qed
qed

section \<open>Properties\<close>

text \<open>C32: authority resolution is exact. For claims and a question with aware stamps the resolver returns. It
  has no candidate exactly when no claim is visible, valid at the moment, within the scope of the
  question and not excluded by a rule; it is conflicted, and asks for review, exactly when two such
  claims of the highest standing state different values; otherwise it answers with a claim of the
  highest standing, whose scope no other candidate's exceeds.\<close>

theorem authority_resolution_exact:
  assumes "\<forall>c \<in> set claims. aware_claim c" and "is_aware (cc_as_of ctx)"
  shows "\<exists>r. resolve_authority zone claims ctx rules = Inr r
    \<and> (rs_status r = NO_CANDIDATE \<longleftrightarrow> (\<forall>c \<in> set claims. \<not> eligible_claim ctx rules c))
    \<and> (rs_status r = CONFLICTED \<longleftrightarrow> (\<exists>c d. top_ranked zone ctx rules claims c
          \<and> top_ranked zone ctx rules claims d \<and> sl_value c \<noteq> sl_value d))
    \<and> (rs_required_review r \<longleftrightarrow> rs_status r = CONFLICTED)
    \<and> (rs_status r = RESOLVED \<longleftrightarrow> rs_claim r \<noteq> None)
    \<and> (\<forall>c. rs_claim r = Some c \<longrightarrow> c \<in> set claims \<and> eligible_claim ctx rules c
          \<and> (\<forall>d \<in> set claims. eligible_claim ctx rules d \<longrightarrow> standing zone ctx rules d \<le> standing zone ctx rules c
               \<and> scope_match d ctx \<le> scope_match c ctx
               \<and> (standing zone ctx rules d = standing zone ctx rules c \<longrightarrow> sl_value d = sl_value c)))"
proof -
  obtain r where r: "resolve_authority zone claims ctx rules = Inr r"
    and "rs_permission_filtered r = length (filter (\<lambda>c. \<not> visible_to c ctx) claims)"
    and review: "rs_required_review r \<longleftrightarrow> rs_status r = CONFLICTED"
    and res: "rs_claim r \<noteq> None \<longleftrightarrow> rs_status r = RESOLVED"
    and none: "rs_status r = NO_CANDIDATE \<longleftrightarrow> filter (eligible_claim ctx rules) claims = []"
    and conf: "rs_status r = CONFLICTED \<longleftrightarrow> (\<exists>c d. top_ranked zone ctx rules claims c
          \<and> top_ranked zone ctx rules claims d \<and> sl_value c \<noteq> sl_value d)"
    and win: "\<forall>c. rs_claim r = Some c \<longrightarrow> top_ranked zone ctx rules claims c"
    and "set (rs_candidates r) = (if rs_status r = CONFLICTED then Collect (top_ranked zone ctx rules claims)
      else {c \<in> set claims. eligible_claim ctx rules c})"
    by (rule resolve_authority_cases [OF assms, of zone rules])
  have best: "\<forall>c. rs_claim r = Some c \<longrightarrow> c \<in> set claims \<and> eligible_claim ctx rules c
      \<and> (\<forall>d \<in> set claims. eligible_claim ctx rules d \<longrightarrow> standing zone ctx rules d \<le> standing zone ctx rules c
           \<and> scope_match d ctx \<le> scope_match c ctx
           \<and> (standing zone ctx rules d = standing zone ctx rules c \<longrightarrow> sl_value d = sl_value c))"
  proof (intro allI impI)
    fix c assume c: "rs_claim r = Some c"
    have top: "top_ranked zone ctx rules claims c" using win c by blast
    have "rs_status r \<noteq> CONFLICTED" using c res by auto
    then have same: "sl_value d = sl_value c" if "top_ranked zone ctx rules claims d" for d using conf top that by blast
    have "scope_match d ctx \<le> scope_match c ctx" if "standing zone ctx rules d \<le> standing zone ctx rules c" for d
      using that by (auto simp: standing_def)
    with top same show "c \<in> set claims \<and> eligible_claim ctx rules c
      \<and> (\<forall>d \<in> set claims. eligible_claim ctx rules d \<longrightarrow> standing zone ctx rules d \<le> standing zone ctx rules c
           \<and> scope_match d ctx \<le> scope_match c ctx
           \<and> (standing zone ctx rules d = standing zone ctx rules c \<longrightarrow> sl_value d = sl_value c))"
      unfolding top_ranked_def by metis
  qed
  have none': "rs_status r = NO_CANDIDATE \<longleftrightarrow> (\<forall>c \<in> set claims. \<not> eligible_claim ctx rules c)"
    unfolding none filter_empty_conv by (rule refl)
  have status: "rs_status r = RESOLVED \<longleftrightarrow> rs_claim r \<noteq> None" using res by simp
  show ?thesis by (rule exI [of _ r], intro conjI) (fact r, fact none', fact conf, fact review, fact status, fact best)
qed

definition demo_context :: claim_context where
  "demo_context = \<lparr>cc_subject = ''warranty'', cc_as_of = Aware 5, cc_object_id = None, cc_customer_id = Some ''a'',
     cc_region = None, cc_contract_id = None, cc_permissions = {}\<rparr>"

definition demo_claim :: "string \<Rightarrow> string \<Rightarrow> authority_class \<Rightarrow> (string \<times> string) list \<Rightarrow> scoped_claim" where
  "demo_claim i v a sc = \<lparr>sl_claim_id = i, sl_subject = ''warranty'', sl_value = v, sl_authority = a, sl_source_status = SS_ACTIVE,
     sl_scope = sc, sl_valid_from = None, sl_valid_to = None, sl_recorded_at = Some (Aware 1), sl_required_permission = None,
     sl_evidence_id = None\<rparr>"

theorem authority_resolution_exact_witness:
  "\<exists>r. resolve_authority (\<lambda>n. n) [demo_claim ''global'' ''three'' AC_OFFICIAL [],
       demo_claim ''contract'' ''five'' AC_INFORMAL [(''customer_id'', ''a'')]] demo_context [] = Inr r
    \<and> rs_status r \<noteq> NO_CANDIDATE \<and> (\<forall>c. rs_claim r = Some c \<longrightarrow> sl_claim_id c = ''contract'')"
proof -
  let ?cs = "[demo_claim ''global'' ''three'' AC_OFFICIAL [], demo_claim ''contract'' ''five'' AC_INFORMAL [(''customer_id'', ''a'')]]"
  have a: "\<forall>c \<in> set ?cs. aware_claim c" "is_aware (cc_as_of demo_context)"
    by (simp_all add: aware_claim_def demo_claim_def demo_context_def)
  have el: "\<forall>c \<in> set ?cs. eligible_claim demo_context [] c"
    by (simp add: eligible_claim_def demo_claim_def demo_context_def visible_to_def spans_def scope_available_def)
  have "scope_match (hd ?cs) demo_context = 0" "scope_match (hd (tl ?cs)) demo_context = 1"
    by (simp_all add: scope_match_def demo_claim_def demo_context_def scope_available_def)
  then have sc: "scope_match (demo_claim ''global'' ''three'' AC_OFFICIAL []) demo_context = 0"
    "scope_match (demo_claim ''contract'' ''five'' AC_INFORMAL [(''customer_id'', ''a'')]) demo_context = 1" by simp_all
  from authority_resolution_exact [OF a, of "\<lambda>n. n" "[]"]
  obtain r where r: "resolve_authority (\<lambda>n. n) ?cs demo_context [] = Inr r"
    and none: "rs_status r = NO_CANDIDATE \<longleftrightarrow> (\<forall>c \<in> set ?cs. \<not> eligible_claim demo_context [] c)"
    and win: "\<forall>c. rs_claim r = Some c \<longrightarrow> c \<in> set ?cs \<and> (\<forall>d \<in> set ?cs. eligible_claim demo_context [] d \<longrightarrow> scope_match d demo_context \<le> scope_match c demo_context)"
    by blast
  have "rs_status r \<noteq> NO_CANDIDATE" using none el by auto
  moreover have "sl_claim_id c = ''contract''" if "rs_claim r = Some c" for c
  proof -
    have "c \<in> set ?cs" "1 \<le> scope_match c demo_context" using win that el sc by auto
    with sc show ?thesis by (auto simp: demo_claim_def)
  qed
  ultimately show ?thesis using r by blast
qed

text \<open>Fact: no disclosure. Claims the asker may not see change nothing but the audit count: the answer and its
  record are those of the visible claims alone, errors included.\<close>

theorem permission_noninterference:
  "resolve_authority zone (filter (\<lambda>c. visible_to c ctx) claims) ctx rules =
      mapR (\<lambda>r. r\<lparr>rs_permission_filtered := 0\<rparr>) (resolve_authority zone claims ctx rules)
   \<and> mapR resolution_record (resolve_authority zone (filter (\<lambda>c. visible_to c ctx) claims) ctx rules) =
      mapR resolution_record (resolve_authority zone claims ctx rules)"
proof -
  have "keep_applicable ctx (filter (\<lambda>c. visible_to c ctx) claims) = keep_applicable ctx claims"
    by (induction claims) (auto split: sum.splits)
  then have r: "rank_claims zone (filter (\<lambda>c. visible_to c ctx) claims) ctx rules = rank_claims zone claims ctx rules"
    by (simp add: rank_claims_def)
  have 1: "resolve_authority zone (filter (\<lambda>c. visible_to c ctx) claims) ctx rules =
      mapR (\<lambda>r. r\<lparr>rs_permission_filtered := 0\<rparr>) (resolve_authority zone claims ctx rules)"
    unfolding resolve_authority_def r by (auto simp: mapR_def Let_def split: sum.splits list.splits)
  moreover have "mapR resolution_record (mapR (\<lambda>r. r\<lparr>rs_permission_filtered := 0\<rparr>) x) = mapR resolution_record x" for x
    by (cases x) (simp_all add: mapR_def resolution_record_def)
  ultimately show ?thesis by simp
qed

text \<open>Fact: the order of the claims does not matter. Permuting claims with distinct ids changes nothing in the
  resolution.\<close>

theorem authority_order_independent:
  assumes "\<forall>c \<in> set claims. aware_claim c" and "is_aware (cc_as_of ctx)"
    and "distinct (map sl_claim_id claims)" and "mset claims' = mset claims"
  shows "resolve_authority zone claims' ctx rules = resolve_authority zone claims ctx rules"
proof -
  let ?key = "\<lambda>c. (1 # 1 # standing zone ctx rules c, sl_claim_id c)"
  have s: "set claims' = set claims" using assms(4) by (rule mset_eq_setD)
  have a': "\<forall>c \<in> set claims'. aware_claim c" using assms(1) s by simp
  have m: "mset (rev (filter (eligible_claim ctx rules) claims')) = mset (rev (filter (eligible_claim ctx rules) claims))"
    using assms(4) by simp
  have inj: "inj_on ?key (set (filter (eligible_claim ctx rules) claims'))"
    using assms(3) s by (auto simp: inj_on_def distinct_map)
  have "sort_key ?key (rev (filter (eligible_claim ctx rules) claims')) = sort_key ?key (rev (filter (eligible_claim ctx rules) claims))"
    using m inj by (intro sort_key_inj_key_eq) (simp_all add: m)
  moreover have "length (filter P claims') = length (filter P claims)" for P
    using assms(4) by (metis mset_filter size_mset)
  ultimately show ?thesis
    unfolding resolve_authority_def rank_claims_eq [OF assms(1,2)] rank_claims_eq [OF a' assms(2)] sort_descending_def by simp
qed

theorem authority_order_independent_witness:
  "resolve_authority (\<lambda>n. n) [demo_claim ''b'' ''2'' AC_OFFICIAL [], demo_claim ''a'' ''1'' AC_OFFICIAL []] demo_context []
   = resolve_authority (\<lambda>n. n) [demo_claim ''a'' ''1'' AC_OFFICIAL [], demo_claim ''b'' ''2'' AC_OFFICIAL []] demo_context []"
  by (rule authority_order_independent) (auto simp: aware_claim_def demo_claim_def demo_context_def)

text \<open>Fact: the subject is not compared. Without rules, the subject of the question has no influence: a claim
  about another subject is as good an answer as one about the subject asked for.\<close>

theorem subject_ignored:
  "resolve_authority zone claims (ctx\<lparr>cc_subject := s\<rparr>) [] = resolve_authority zone claims ctx []"
proof -
  let ?ctx = "ctx\<lparr>cc_subject := s\<rparr>"
  have av: "scope_available ?ctx = scope_available ctx" by (simp add: scope_available_def fun_eq_iff)
  have d: "match_dimensions ?ctx ds n = match_dimensions ctx ds n" for ds n
    by (induction ds arbitrary: n) (auto simp: av)
  have base: "visible_to c ?ctx = visible_to c ctx" "scope_match c ?ctx = scope_match c ctx" for c
    by (simp_all add: visible_to_def scope_match_def d split: option.split)
  have k: "keep_applicable ?ctx cs = keep_applicable ctx cs" for cs by (induction cs) (auto simp: base split: sum.split)
  have sc: "score_claims zone ?ctx [] cs = score_claims zone ctx [] cs" for cs
    by (induction cs) (auto simp: base rank_tuple_def split: sum.split)
  show ?thesis unfolding resolve_authority_def rank_claims_def k sc base by (rule refl)
qed

text \<open>Fact: for candidates the sixth element of the rank repeats the third.\<close>

lemma specificity_redundant: "eligible_claim ctx rules c \<Longrightarrow> scope_match c ctx = specificity c"
  by (simp add: scope_match_eq eligible_claim_def)

end
