(* ===== verification/WorldState.thy ===== *)
theory WorldState
  imports Recompilation StateMachine
begin

text \<open>
  \<^verbatim>\<open>packages/cir-python/src/akc_cir/world_state.py\<close>: the registry of a workspace's compiled world
  states. Readers see what the pointer names; staging, publishing and rolling back are the
  operations, and a refused one keeps what it had changed. The state of the registry is the dictionary
  of world states, the pointer and the list of published ids; an empty id is falsy, as in the source.
\<close>

section \<open>Data\<close>

datatype world_status = WS_BUILDING | WS_CANDIDATE | WS_ACTIVE | WS_SUPERSEDED | WS_REJECTED | WS_ROLLED_BACK

record validation_receipt =
  vc_receipt_id :: string
  vc_checksums_verified :: bool
  vc_permission_checked :: bool
  vc_integrity_passed :: bool
  vc_equivalence :: "equivalence_report option"
  vc_notes :: "string list"

definition receipt_passed :: "validation_receipt \<Rightarrow> bool" where
  "receipt_passed r \<longleftrightarrow> vc_checksums_verified r \<and> vc_permission_checked r \<and> vc_integrity_passed r
     \<and> (case vc_equivalence r of None \<Rightarrow> True | Some e \<Rightarrow> eq_equivalent e)"

definition receipt_failures :: "validation_receipt \<Rightarrow> string list" where
  "receipt_failures r =
    (if vc_checksums_verified r then [] else [''artifact checksums were not verified''])
    @ (if vc_permission_checked r then [] else [''the permission check did not run''])
    @ (if vc_integrity_passed r then [] else [''integrity validation failed''])
    @ (case vc_equivalence r of None \<Rightarrow> [] | Some e \<Rightarrow>
        if eq_equivalent e then [] else [''the selective build does not match a full rebuild: ''
          @ nat_str (length (eq_diverged e)) @ '' artifact(s) diverged, ''
          @ nat_str (length (eq_stale_left_behind e)) @ '' left stale''])"

record publication_manifest =
  pn_world_state_id :: string
  pn_compiler_version :: string
  pn_artifact_hashes :: "(string \<times> string) list"
  pn_manifest_hash :: string

text \<open>Artifacts whose content is not what the manifest records, the missing ones included.\<close>

definition manifest_verify :: "publication_manifest \<Rightarrow> (string \<rightharpoonup> string) \<Rightarrow> string list" where
  "manifest_verify m artifacts = fromkeys
     (map fst (filter (\<lambda>(n, h). artifacts n \<noteq> Some h) (sort_key fst (pn_artifact_hashes m)))
      @ filter (\<lambda>n. artifacts n = None) (sort (map fst (pn_artifact_hashes m))))"

definition make_manifest :: "renv \<Rightarrow> string \<Rightarrow> string \<Rightarrow> (string \<times> string) list \<Rightarrow> publication_manifest" where
  "make_manifest E wid version hashes =
    \<lparr>pn_world_state_id = wid, pn_compiler_version = version, pn_artifact_hashes = hashes,
     pn_manifest_hash = ''sha256:'' @ sha256 E (dumps E (JObj
       [(''compiler_version'', JStr version),
        (''artifacts'', JObj (map (\<lambda>(n, h). (n, JStr h)) (sort_key fst hashes)))]))\<rparr>"

record world_state =
  wd_world_state_id :: string
  wd_workspace_id :: string
  wd_status :: world_status
  wd_compiler_version :: string
  wd_built_at :: datetime
  wd_parent_world_state_id :: "string option"
  wd_change_set_id :: "string option"
  wd_activated_at :: "datetime option"
  wd_manifest :: "publication_manifest option"
  wd_validation_receipt_id :: "string option"

datatype outbox_event =
    WorldPublished string string "string option" string string
  | WorldRolledBack string string "string option"

record publish_result =
  pb_world_state :: world_state
  pb_previous_world_state_id :: "string option"
  pb_outbox :: "outbox_event list"

section \<open>The registry\<close>

record world_registry =
  wr_workspace_id :: string
  wr_states :: "(string \<times> world_state) list"
  wr_current_id :: "string option"
  wr_history :: "string list"

definition new_registry :: "string \<Rightarrow> world_registry" where
  "new_registry workspace = \<lparr>wr_workspace_id = workspace, wr_states = [], wr_current_id = None, wr_history = []\<rparr>"

definition state_of :: "world_registry \<Rightarrow> string \<Rightarrow> world_state option" where
  "state_of g i = map_of (wr_states g) i"

text \<open>\<open>if self._current_id\<close>: an id that is neither None nor empty.\<close>

definition truthy_id :: "string option \<Rightarrow> string option" where
  "truthy_id i = (case i of None \<Rightarrow> None | Some s \<Rightarrow> if s = [] then None else Some s)"

definition current_world :: "world_registry \<Rightarrow> world_state option" where
  "current_world g = (case truthy_id (wr_current_id g) of None \<Rightarrow> None | Some i \<Rightarrow> state_of g i)"

definition active_count :: "world_registry \<Rightarrow> nat" where
  "active_count g = length (filter (\<lambda>(i, s). wd_status s = WS_ACTIVE) (wr_states g))"

definition put_state :: "string \<Rightarrow> world_state \<Rightarrow> world_registry \<Rightarrow> world_registry" where
  "put_state i s g = g\<lparr>wr_states := AList.update i s (wr_states g)\<rparr>"

definition stage :: "string \<Rightarrow> string \<Rightarrow> datetime \<Rightarrow> string option \<Rightarrow> world_registry \<Rightarrow> (world_registry, world_state) outcome" where
  "stage wid version built_at change_set g =
    (if state_of g wid \<noteq> None then (Inl (PublishRefused ''already exists''), g)
     else let candidate = \<lparr>wd_world_state_id = wid, wd_workspace_id = wr_workspace_id g, wd_status = WS_CANDIDATE,
            wd_compiler_version = version, wd_built_at = built_at, wd_parent_world_state_id = wr_current_id g,
            wd_change_set_id = change_set, wd_activated_at = None, wd_manifest = None, wd_validation_receipt_id = None\<rparr>
       in (Inr candidate, put_state wid candidate g))"

definition reject_state :: "string \<Rightarrow> world_registry \<Rightarrow> world_registry" where
  "reject_state wid g = (case state_of g wid of None \<Rightarrow> g | Some s \<Rightarrow> put_state wid (s\<lparr>wd_status := WS_REJECTED\<rparr>) g)"

text \<open>\<open>self._states[previous_id] = _with(...)\<close>, nothing when there is no previous state.\<close>

definition retire :: "string option \<Rightarrow> world_status \<Rightarrow> world_registry \<Rightarrow> pyerr + world_registry" where
  "retire previous status g = (case truthy_id previous of
     None \<Rightarrow> Inr g
   | Some i \<Rightarrow> (case state_of g i of
       None \<Rightarrow> Inl (KeyError i)
     | Some s \<Rightarrow> Inr (put_state i (s\<lparr>wd_status := status\<rparr>) g)))"

text \<open>Writing the new active state, moving the pointer to it and appending it to the history.\<close>

definition move_pointer :: "string \<Rightarrow> world_state \<Rightarrow> world_registry \<Rightarrow> world_registry" where
  "move_pointer i s g = (put_state i s g)\<lparr>wr_current_id := Some i, wr_history := wr_history g @ [i]\<rparr>"

record publish_request =
  pq_world_state_id :: string
  pq_manifest :: publication_manifest
  pq_receipt :: validation_receipt
  pq_artifacts :: "string \<rightharpoonup> string"
  pq_activated_at :: datetime
  pq_plan :: "recompilation_plan option"

definition published_state :: "publish_request \<Rightarrow> world_state \<Rightarrow> world_state" where
  "published_state q candidate = candidate\<lparr>wd_status := WS_ACTIVE, wd_activated_at := Some (pq_activated_at q),
     wd_manifest := Some (pq_manifest q), wd_validation_receipt_id := Some (vc_receipt_id (pq_receipt q))\<rparr>"

definition publish :: "publish_request \<Rightarrow> world_registry \<Rightarrow> (world_registry, publish_result) outcome" where
  "publish q g =
    (let wid = pq_world_state_id q in
     case state_of g wid of
       None \<Rightarrow> (Inl (PublishRefused ''was never staged''), g)
     | Some candidate \<Rightarrow>
       (if wd_status candidate \<noteq> WS_CANDIDATE
        then (Inl (PublishRefused ''not a candidate; another publish already claimed it''), g)
        else if manifest_verify (pq_manifest q) (pq_artifacts q) \<noteq> []
        then (Inl (PublishRefused ''artifact checksum mismatch''), reject_state wid g)
        else if pq_plan q \<noteq> None \<and> vc_equivalence (pq_receipt q) = None
        then (Inl (PublishRefused ''a selective build has no equivalence check''), reject_state wid g)
        else if \<not> receipt_passed (pq_receipt q)
        then (Inl (PublishRefused ''validation did not pass''), reject_state wid g)
        else
          let previous = wr_current_id g in
          (case retire previous WS_SUPERSEDED g of
            Inl e \<Rightarrow> (Inl e, g)
          | Inr g1 \<Rightarrow>
              let published = published_state q candidate
              in (Inr \<lparr>pb_world_state = published, pb_previous_world_state_id = previous,
                    pb_outbox = [WorldPublished (wr_workspace_id g) wid previous (pn_manifest_hash (pq_manifest q))
                      (vc_receipt_id (pq_receipt q))]\<rparr>, move_pointer wid published g1))))"

definition rollback :: "string \<Rightarrow> datetime \<Rightarrow> world_registry \<Rightarrow> (world_registry, publish_result) outcome" where
  "rollback to_id moment g =
    (case state_of g to_id of
       None \<Rightarrow> (Inl (PublishRefused ''does not exist''), g)
     | Some target \<Rightarrow>
       (if to_id \<notin> set (wr_history g) then (Inl (PublishRefused ''was never published''), g)
        else if Some to_id = wr_current_id g then (Inl (PublishRefused ''is already current''), g)
        else
          let previous = wr_current_id g in
          (case retire previous WS_ROLLED_BACK g of
            Inl e \<Rightarrow> (Inl e, g)
          | Inr g1 \<Rightarrow>
              let restored = target\<lparr>wd_status := WS_ACTIVE, wd_activated_at := Some moment\<rparr>
              in (Inr \<lparr>pb_world_state = restored, pb_previous_world_state_id = previous,
                    pb_outbox = [WorldRolledBack (wr_workspace_id g) to_id previous]\<rparr>, move_pointer to_id restored g1))))"

definition dirty_set :: "recompilation_plan \<Rightarrow> string list \<Rightarrow> string list" where
  "dirty_set p inventory = filter (\<lambda>a. a \<in> set inventory) (to_rebuild p)"

datatype world_call =
    Stage string string datetime "string option" | Publish publish_request | Rollback string datetime

fun world_op :: "world_call \<Rightarrow> world_registry \<Rightarrow> (world_registry, unit) outcome" where
  "world_op (Stage wid version built_at change_set) g = forget (stage wid version built_at change_set g)"
| "world_op (Publish q) g = forget (publish q g)"
| "world_op (Rollback to_id moment) g = forget (rollback to_id moment g)"

section \<open>What the operations keep\<close>

lemma state_of_put [simp]: "state_of (put_state i s g) j = (if j = i then Some s else state_of g j)"
  by (simp add: state_of_def put_state_def)

lemma put_state_fields [simp]:
  "wr_current_id (put_state i s g) = wr_current_id g" "wr_history (put_state i s g) = wr_history g"
  "wr_workspace_id (put_state i s g) = wr_workspace_id g"
  by (simp_all add: put_state_def)

lemma move_pointer_fields [simp]:
  "state_of (move_pointer i s g) j = (if j = i then Some s else state_of g j)"
  "wr_current_id (move_pointer i s g) = Some i" "wr_history (move_pointer i s g) = wr_history g @ [i]"
  "wr_workspace_id (move_pointer i s g) = wr_workspace_id g"
  "distinct (map fst (wr_states g)) \<Longrightarrow> distinct (map fst (wr_states (move_pointer i s g)))"
  by (simp_all add: move_pointer_def state_of_def put_state_def distinct_update)

text \<open>A state is gated once it has left the candidates with a manifest: only a publish does that.\<close>

definition gated_manifest :: "world_registry \<Rightarrow> string \<Rightarrow> publication_manifest option" where
  "gated_manifest g i = (case state_of g i of None \<Rightarrow> None
     | Some s \<Rightarrow> if wd_status s = WS_CANDIDATE then None else wd_manifest s)"

lemma retire_state:
  assumes "retire previous status g = Inr g1"
  shows "state_of g1 j = (if truthy_id previous = Some j then map_option (\<lambda>s. s\<lparr>wd_status := status\<rparr>) (state_of g j) else state_of g j)"
    and "wr_current_id g1 = wr_current_id g" and "wr_history g1 = wr_history g"
  using assms by (auto simp: retire_def split: option.splits)

lemma published_state_fields [simp]:
  "wd_status (published_state q c) = WS_ACTIVE" "wd_manifest (published_state q c) = Some (pq_manifest q)"
  "wd_world_state_id (published_state q c) = wd_world_state_id c"
  "wd_validation_receipt_id (published_state q c) = Some (vc_receipt_id (pq_receipt q))"
  by (simp_all add: published_state_def)

text \<open>What a publish does: refused, or one swap of the pointer.\<close>

lemma publish_cases:
  obtains (kept) e where "publish q g = (Inl e, g)"
      and "(\<forall>c. state_of g (pq_world_state_id q) = Some c \<longrightarrow> wd_status c \<noteq> WS_CANDIDATE)
        \<or> (\<exists>e. retire (wr_current_id g) WS_SUPERSEDED g = Inl e)"
  | (rejected) e c where "publish q g = (Inl e, put_state (pq_world_state_id q) (c\<lparr>wd_status := WS_REJECTED\<rparr>) g)"
      and "state_of g (pq_world_state_id q) = Some c" and "wd_status c = WS_CANDIDATE"
  | (swapped) c g1 where "state_of g (pq_world_state_id q) = Some c" and "wd_status c = WS_CANDIDATE"
      and "manifest_verify (pq_manifest q) (pq_artifacts q) = []" and "receipt_passed (pq_receipt q)"
      and "pq_plan q \<noteq> None \<longrightarrow> vc_equivalence (pq_receipt q) \<noteq> None"
      and "retire (wr_current_id g) WS_SUPERSEDED g = Inr g1"
      and "publish q g = (Inr \<lparr>pb_world_state = published_state q c, pb_previous_world_state_id = wr_current_id g,
            pb_outbox = [WorldPublished (wr_workspace_id g) (pq_world_state_id q) (wr_current_id g)
              (pn_manifest_hash (pq_manifest q)) (vc_receipt_id (pq_receipt q))]\<rparr>,
          move_pointer (pq_world_state_id q) (published_state q c) g1)"
proof (cases "state_of g (pq_world_state_id q)")
  case None
  then show thesis by (intro kept) (simp_all add: publish_def)
next
  case (Some c)
  show thesis
  proof (cases "wd_status c = WS_CANDIDATE")
    case False
    with Some show thesis by (intro kept) (simp_all add: publish_def)
  next
    case cand: True
    show thesis
    proof (cases "manifest_verify (pq_manifest q) (pq_artifacts q) = [] \<and> receipt_passed (pq_receipt q)
        \<and> (pq_plan q \<noteq> None \<longrightarrow> vc_equivalence (pq_receipt q) \<noteq> None)")
      case False
      then have "\<exists>e. publish q g = (Inl e, reject_state (pq_world_state_id q) g)"
        using Some cand by (auto simp: publish_def Let_def)
      with Some cand show thesis by (auto simp: reject_state_def intro: rejected)
    next
      case True
      show thesis
      proof (cases "retire (wr_current_id g) WS_SUPERSEDED g")
        case (Inl e)
        with Some cand True show thesis by (intro kept) (auto simp: publish_def Let_def)
      next
        case (Inr g1)
        with Some cand True show thesis by (intro swapped) (auto simp: publish_def Let_def)
      qed
    qed
  qed
qed

lemma rollback_cases:
  obtains (kept) e where "rollback i moment g = (Inl e, g)"
  | (moved) s g1 r where "state_of g i = Some s" and "i \<in> set (wr_history g)" and "wr_current_id g \<noteq> Some i"
      and "retire (wr_current_id g) WS_ROLLED_BACK g = Inr g1"
      and "rollback i moment g = (Inr r, move_pointer i (s\<lparr>wd_status := WS_ACTIVE, wd_activated_at := Some moment\<rparr>) g1)"
proof (cases "state_of g i")
  case None
  then show thesis by (intro kept) (simp add: rollback_def)
next
  case (Some s)
  show thesis
  proof (cases "i \<in> set (wr_history g) \<and> wr_current_id g \<noteq> Some i")
    case False
    with Some have "\<exists>e. rollback i moment g = (Inl e, g)" by (auto simp: rollback_def)
    then show thesis using kept by blast
  next
    case True
    then have ne: "Some i \<noteq> wr_current_id g" by auto
    show thesis
    proof (cases "retire (wr_current_id g) WS_ROLLED_BACK g")
      case (Inl e)
      with Some True ne show thesis by (intro kept) (simp add: rollback_def Let_def)
    next
      case (Inr g1)
      with Some True ne show thesis by (intro moved) (simp_all add: rollback_def Let_def)
    qed
  qed
qed

lemma stage_cases:
  obtains (kept) e where "stage wid version built_at change_set g = (Inl e, g)"
  | (staged) c where "state_of g wid = None" and "wd_status c = WS_CANDIDATE" and "wd_world_state_id c = wid"
      and "stage wid version built_at change_set g = (Inr c, put_state wid c g)"
  by (cases "state_of g wid = None") (auto simp: stage_def Let_def)

interpretation gated: write_once gated_manifest world_op
proof
  fix g i m c
  assume m: "gated_manifest g i = Some m"
  then obtain s where s: "state_of g i = Some s" "wd_status s \<noteq> WS_CANDIDATE" "wd_manifest s = Some m"
    by (auto simp: gated_manifest_def split: option.splits if_splits)
  show "gated_manifest (snd (world_op c g)) i = Some m"
  proof (cases c)
    case (Stage wid version built_at change_set)
    then show ?thesis using m s
      by (cases rule: stage_cases [of wid version built_at change_set g]) (auto simp: gated_manifest_def)
  next
    case (Publish q)
    then show ?thesis using m s
      by (cases rule: publish_cases [of q g]) (auto simp: gated_manifest_def retire_state)
  next
    case (Rollback j moment)
    then show ?thesis using m s
      by (cases rule: rollback_cases [of j moment g]) (auto simp: gated_manifest_def retire_state)
  qed
qed

section \<open>The invariant of a registry\<close>

definition lifecycle_ok :: "world_registry \<Rightarrow> bool" where
  "lifecycle_ok g \<longleftrightarrow> (\<forall>i s. state_of g i = Some s \<longrightarrow>
     (wd_status s = WS_ACTIVE \<longleftrightarrow> wr_current_id g = Some i)
     \<and> (if i \<in> set (wr_history g)
        then wd_status s \<in> {WS_ACTIVE, WS_SUPERSEDED, WS_ROLLED_BACK} \<and> wd_manifest s \<noteq> None \<and> wd_validation_receipt_id s \<noteq> None
        else wd_status s \<in> {WS_CANDIDATE, WS_REJECTED}))"

definition worlds_ok :: "world_registry \<Rightarrow> bool" where
  "worlds_ok g \<longleftrightarrow> distinct (map fst (wr_states g)) \<and> state_of g [] = None
     \<and> (\<forall>i s. state_of g i = Some s \<longrightarrow> wd_world_state_id s = i)
     \<and> (\<forall>i \<in> set (wr_history g). state_of g i \<noteq> None)
     \<and> wr_current_id g = (if wr_history g = [] then None else Some (last (wr_history g)))
     \<and> lifecycle_ok g"

fun staged_ok :: "world_call \<Rightarrow> bool" where
  "staged_ok (Stage wid version built_at change_set) \<longleftrightarrow> wid \<noteq> []"
| "staged_ok _ \<longleftrightarrow> True"

lemma worlds_ok_new: "worlds_ok (new_registry w)"
  by (simp add: worlds_ok_def lifecycle_ok_def new_registry_def state_of_def)

lemma worlds_ok_lifecycle:
  assumes "worlds_ok g" and "state_of g i = Some s"
  shows "(wd_status s = WS_ACTIVE \<longleftrightarrow> wr_current_id g = Some i)
     \<and> (if i \<in> set (wr_history g)
        then wd_status s \<in> {WS_ACTIVE, WS_SUPERSEDED, WS_ROLLED_BACK} \<and> wd_manifest s \<noteq> None \<and> wd_validation_receipt_id s \<noteq> None
        else wd_status s \<in> {WS_CANDIDATE, WS_REJECTED})"
  using assms unfolding worlds_ok_def lifecycle_ok_def by blast

lemma worlds_ok_state:
  assumes ok: "worlds_ok g" and s: "state_of g i = Some s"
  shows "i \<noteq> []" and "wd_world_state_id s = i" and "wd_status s = WS_ACTIVE \<longleftrightarrow> wr_current_id g = Some i"
    and "i \<in> set (wr_history g) \<Longrightarrow> wd_manifest s \<noteq> None \<and> wd_validation_receipt_id s \<noteq> None"
    and "i \<in> set (wr_history g) \<longleftrightarrow> wd_status s \<notin> {WS_CANDIDATE, WS_REJECTED}"
proof -
  show "i \<noteq> []" "wd_world_state_id s = i" using ok s unfolding worlds_ok_def by auto
qed (use worlds_ok_lifecycle [OF ok s] in \<open>auto split: if_splits\<close>)

lemma worlds_ok_current:
  assumes "worlds_ok g"
  shows "truthy_id (wr_current_id g) = wr_current_id g"
    and "wr_current_id g = Some i \<Longrightarrow> i \<in> set (wr_history g)"
    and "wr_current_id g = Some i \<Longrightarrow> state_of g i \<noteq> None"
proof -
  show c: "wr_current_id g = Some i \<Longrightarrow> i \<in> set (wr_history g)" for i
    using assms by (auto simp: worlds_ok_def split: if_splits)
  then show d: "wr_current_id g = Some i \<Longrightarrow> state_of g i \<noteq> None" for i
    using assms unfolding worlds_ok_def by blast
  have "wr_current_id g = Some [] \<Longrightarrow> False" using d [of "[]"] assms by (auto simp: worlds_ok_def)
  then show "truthy_id (wr_current_id g) = wr_current_id g" by (cases "wr_current_id g") (auto simp: truthy_id_def)
qed

lemma put_state_distinct: "distinct (map fst (wr_states g)) \<Longrightarrow> distinct (map fst (wr_states (put_state i s g)))"
  by (simp add: put_state_def distinct_update)

lemma retire_distinct:
  "retire previous status g = Inr g1 \<Longrightarrow> distinct (map fst (wr_states g)) \<Longrightarrow> distinct (map fst (wr_states g1))"
  by (auto simp: retire_def put_state_distinct split: option.splits)

text \<open>Writing a state that was never published: staging one, rejecting one.\<close>

lemma put_pending_ok:
  assumes ok: "worlds_ok g" and i: "i \<notin> set (wr_history g)" "i \<noteq> []"
    and s: "wd_status s \<in> {WS_CANDIDATE, WS_REJECTED}" "wd_world_state_id s = i"
  shows "worlds_ok (put_state i s g)"
proof -
  have ne: "wr_current_id g \<noteq> Some i" using worlds_ok_current(2) [OF ok] i by blast
  have "lifecycle_ok (put_state i s g)"
    unfolding lifecycle_ok_def
  proof (intro allI impI)
    fix j t assume t: "state_of (put_state i s g) j = Some t"
    show "(wd_status t = WS_ACTIVE \<longleftrightarrow> wr_current_id (put_state i s g) = Some j)
     \<and> (if j \<in> set (wr_history (put_state i s g))
        then wd_status t \<in> {WS_ACTIVE, WS_SUPERSEDED, WS_ROLLED_BACK} \<and> wd_manifest t \<noteq> None \<and> wd_validation_receipt_id t \<noteq> None
        else wd_status t \<in> {WS_CANDIDATE, WS_REJECTED})"
      using t s i ne worlds_ok_lifecycle [OF ok, of j t] by (cases "j = i") auto
  qed
  then show ?thesis
    using ok s i unfolding worlds_ok_def by (auto simp: put_state_distinct)
qed

text \<open>Moving the pointer: the previous state is retired, the target becomes active.\<close>

lemma swap_state:
  assumes ok: "worlds_ok g" and g1: "retire (wr_current_id g) status g = Inr g1"
  shows "state_of (move_pointer i s' g1) j = (if j = i then Some s' else if wr_current_id g = Some j
      then map_option (\<lambda>s. s\<lparr>wd_status := status\<rparr>) (state_of g j) else state_of g j)"
  using retire_state(1) [OF g1, of j] worlds_ok_current(1) [OF ok] by simp

lemma swap_ok:
  assumes ok: "worlds_ok g" and i: "state_of g i = Some s" and ne: "wr_current_id g \<noteq> Some i"
    and g1: "retire (wr_current_id g) status g = Inr g1" and st: "status \<in> {WS_SUPERSEDED, WS_ROLLED_BACK}"
    and s': "wd_status s' = WS_ACTIVE" "wd_world_state_id s' = i" "wd_manifest s' \<noteq> None" "wd_validation_receipt_id s' \<noteq> None"
  shows "worlds_ok (move_pointer i s' g1)"
proof -
  note g = swap_state [OF ok g1] and [simp del] = move_pointer_fields(1)
  have h: "wr_history g1 = wr_history g" by (rule retire_state(3) [OF g1])
  have "lifecycle_ok (move_pointer i s' g1)"
    unfolding lifecycle_ok_def
  proof (intro allI impI)
    fix j t assume t: "state_of (move_pointer i s' g1) j = Some t"
    consider "j = i" | "j \<noteq> i" "wr_current_id g = Some j" | "j \<noteq> i" "wr_current_id g \<noteq> Some j" by blast
    then show "(wd_status t = WS_ACTIVE \<longleftrightarrow> wr_current_id (move_pointer i s' g1) = Some j)
     \<and> (if j \<in> set (wr_history (move_pointer i s' g1))
        then wd_status t \<in> {WS_ACTIVE, WS_SUPERSEDED, WS_ROLLED_BACK} \<and> wd_manifest t \<noteq> None \<and> wd_validation_receipt_id t \<noteq> None
        else wd_status t \<in> {WS_CANDIDATE, WS_REJECTED})"
    proof cases
      case 1
      with t s' show ?thesis by (auto simp: h g)
    next
      case 2
      then have "j \<in> set (wr_history g)" by (intro worlds_ok_current(2) [OF ok])
      with t 2 st worlds_ok_state(4) [OF ok, of j] show ?thesis by (auto simp: h g)
    next
      case 3
      with t have "state_of g j = Some t" by (simp add: g)
      with worlds_ok_lifecycle [OF ok this] 3 show ?thesis by (auto simp: h split: if_splits)
    qed
  qed
  moreover have "i \<noteq> []" by (rule worlds_ok_state(1) [OF ok i])
  moreover have "distinct (map fst (wr_states g1))" using ok by (intro retire_distinct [OF g1]) (simp add: worlds_ok_def)
  ultimately show ?thesis
    using ok s'(2) unfolding worlds_ok_def by (auto simp: g h)
qed

lemma world_op_ok:
  assumes ok: "worlds_ok g" and c: "staged_ok c"
  shows "worlds_ok (snd (world_op c g))"
proof (cases c)
  case (Stage wid version built_at change_set)
  show ?thesis
  proof (cases rule: stage_cases [of wid version built_at change_set g])
    case kept
    with ok Stage show ?thesis by simp
  next
    case (staged x)
    have "wid \<notin> set (wr_history g)" using ok staged(1) by (auto simp: worlds_ok_def)
    then show ?thesis using put_pending_ok [OF ok, of wid x] staged c Stage by simp
  qed
next
  case (Publish q)
  show ?thesis
  proof (cases rule: publish_cases [of q g])
    case kept
    with ok Publish show ?thesis by simp
  next
    case (rejected e x)
    then show ?thesis using put_pending_ok [OF ok, of "pq_world_state_id q" "x\<lparr>wd_status := WS_REJECTED\<rparr>"]
      worlds_ok_state [OF ok rejected(2)] Publish by simp
  next
    case (swapped x g1)
    then show ?thesis unfolding Publish using worlds_ok_state [OF ok swapped(1)]
      by (simp, intro swap_ok [OF ok swapped(1) _ swapped(6)]) simp_all
  qed
next
  case (Rollback i moment)
  show ?thesis
  proof (cases rule: rollback_cases [of i moment g])
    case kept
    with ok Rollback show ?thesis by simp
  next
    case (moved x g1 r)
    then show ?thesis unfolding Rollback using worlds_ok_state [OF ok moved(1)]
      by (simp, intro swap_ok [OF ok moved(1,3,4)]) simp_all
  qed
qed

section \<open>What readers see\<close>

lemma manifest_verify_nil: "manifest_verify m a = [] \<longleftrightarrow> (\<forall>(n, h) \<in> set (pn_artifact_hashes m). a n = Some h)"
proof -
  have "set (manifest_verify m a) = fst ` {(n, h) \<in> set (pn_artifact_hashes m). a n \<noteq> Some h}"
    by (force simp: manifest_verify_def)
  moreover have "manifest_verify m a = [] \<longleftrightarrow> set (manifest_verify m a) = {}" by simp
  ultimately show ?thesis by auto
qed

lemma count_active:
  "distinct (map fst xs) \<Longrightarrow> (\<And>i s. map_of xs i = Some s \<Longrightarrow> P s \<longleftrightarrow> c = Some i)
    \<Longrightarrow> length (filter (\<lambda>(i, s). P s) xs) = (if \<exists>i. c = Some i \<and> i \<in> fst ` set xs then 1 else 0)"
proof (induction xs)
  case Nil
  then show ?case by simp
next
  case (Cons x xs)
  obtain i s where x: "x = (i, s)" by force
  have P: "P t \<longleftrightarrow> c = Some j" if j: "map_of xs j = Some t" for j t
  proof -
    have "j \<noteq> i" using j Cons.prems(1) by (force simp: x dest: map_of_SomeD)
    with j Cons.prems(2) [of j t] show ?thesis by (simp add: x)
  qed
  have "P s \<longleftrightarrow> c = Some i" using Cons.prems(2) [of i s] by (simp add: x)
  moreover have "length (filter (\<lambda>(i, s). P s) xs) = (if \<exists>i. c = Some i \<and> i \<in> fst ` set xs then 1 else 0)"
    using Cons.prems(1) P by (intro Cons.IH) auto
  ultimately show ?case using Cons.prems(1) by (cases "c = Some i") (auto simp del: length_0_conv simp: x)
qed

lemma worlds_ok_active:
  assumes ok: "worlds_ok g"
  shows "active_count g = (if wr_current_id g = None then 0 else 1)"
proof -
  have "active_count g = (if \<exists>i. wr_current_id g = Some i \<and> i \<in> fst ` set (wr_states g) then 1 else 0)"
    unfolding active_count_def using ok worlds_ok_state(3) [OF ok]
    by (intro count_active) (auto simp: worlds_ok_def state_of_def)
  moreover have "wr_current_id g = Some i \<Longrightarrow> i \<in> fst ` set (wr_states g)" for i
    using worlds_ok_current(3) [OF ok, of i] by (simp add: state_of_def map_of_eq_None_iff)
  ultimately show ?thesis by auto
qed

lemma worlds_ok_run: "list_all staged_ok calls \<Longrightarrow> worlds_ok g \<Longrightarrow> worlds_ok (run_ops world_op calls g)"
  by (induction calls arbitrary: g) (auto intro: world_op_ok)

text \<open>C4: In every registry that a sequence of stagings under non-empty ids, publishes and rollbacks (refused ones
  included) leaves behind, there is at most one ACTIVE state and it is the one the pointer
  names (\<open>empty_id_two_active\<close> below shows that the empty id, which the code admits, breaks this); before the first publish readers see nothing, and what they see afterwards is the last entry of the
  history: never a candidate, always with the manifest and the validation receipt of its publish.\<close>

theorem world_single_active:
  assumes "list_all staged_ok calls" and "g = run_ops world_op calls (new_registry w)"
  shows "active_count g = (if wr_current_id g = None then 0 else 1)
    \<and> (case current_world g of
        None \<Rightarrow> wr_current_id g = None \<and> wr_history g = []
      | Some s \<Rightarrow> wr_current_id g = Some (wd_world_state_id s) \<and> wr_history g \<noteq> [] \<and> last (wr_history g) = wd_world_state_id s
          \<and> wd_status s = WS_ACTIVE \<and> wd_manifest s \<noteq> None \<and> wd_validation_receipt_id s \<noteq> None)
    \<and> (\<forall>i s. state_of g i = Some s \<and> wd_status s \<in> {WS_CANDIDATE, WS_REJECTED} \<longrightarrow> i \<notin> set (wr_history g))"
proof (intro conjI)
  have ok: "worlds_ok g" unfolding assms(2) by (rule worlds_ok_run [OF assms(1) worlds_ok_new])
  show "active_count g = (if wr_current_id g = None then 0 else 1)" by (rule worlds_ok_active [OF ok])
  show "\<forall>i s. state_of g i = Some s \<and> wd_status s \<in> {WS_CANDIDATE, WS_REJECTED} \<longrightarrow> i \<notin> set (wr_history g)"
    using worlds_ok_state(5) [OF ok] by blast
  show "case current_world g of
        None \<Rightarrow> wr_current_id g = None \<and> wr_history g = []
      | Some s \<Rightarrow> wr_current_id g = Some (wd_world_state_id s) \<and> wr_history g \<noteq> [] \<and> last (wr_history g) = wd_world_state_id s
          \<and> wd_status s = WS_ACTIVE \<and> wd_manifest s \<noteq> None \<and> wd_validation_receipt_id s \<noteq> None"
  proof (cases "wr_current_id g")
    case None
    then have "wr_history g = []" using ok by (auto simp: worlds_ok_def split: if_splits)
    with None show ?thesis by (simp add: current_world_def truthy_id_def)
  next
    case (Some i)
    then obtain s where s: "state_of g i = Some s" using worlds_ok_current(3) [OF ok] by blast
    have "current_world g = Some s" using worlds_ok_current(1) [OF ok] Some s by (simp add: current_world_def)
    with worlds_ok_state [OF ok s] worlds_ok_current(2) [OF ok Some] Some ok show ?thesis
      by (auto simp: worlds_ok_def split: if_splits)
  qed
qed

definition demo_publish :: "string \<Rightarrow> publish_request" where
  "demo_publish i = \<lparr>pq_world_state_id = i,
     pq_manifest = \<lparr>pn_world_state_id = i, pn_compiler_version = ''c1'', pn_artifact_hashes = [(''flow'', ''h1'')], pn_manifest_hash = ''m''\<rparr>,
     pq_receipt = \<lparr>vc_receipt_id = ''r'', vc_checksums_verified = True, vc_permission_checked = True, vc_integrity_passed = True,
       vc_equivalence = None, vc_notes = []\<rparr>,
     pq_artifacts = [''flow'' \<mapsto> ''h1''], pq_activated_at = Aware 5, pq_plan = None\<rparr>"

definition demo_worlds :: "world_call list" where
  "demo_worlds = [Stage ''w1'' ''c1'' (Aware 1) None, Publish (demo_publish ''w1''), Stage ''w2'' ''c1'' (Aware 2) None,
     Publish (demo_publish ''w2''), Rollback ''w1'' (Aware 9)]"

theorem world_single_active_witness:
  "active_count (run_ops world_op demo_worlds (new_registry ''space'')) = 1
    \<and> wr_current_id (run_ops world_op demo_worlds (new_registry ''space'')) = Some ''w1''"
proof -
  have c: "list_all staged_ok demo_worlds" by (simp add: demo_worlds_def)
  have "wr_current_id (run_ops world_op demo_worlds (new_registry ''space'')) = Some ''w1''" by code_simp
  with world_single_active [OF c refl, of "''space''"] show ?thesis by simp
qed

section \<open>One publish\<close>

text \<open>What the source demands of a publish, in the terms of its documentation.\<close>

definition publishable :: "publish_request \<Rightarrow> world_registry \<Rightarrow> bool" where
  "publishable q g \<longleftrightarrow> (\<exists>c. state_of g (pq_world_state_id q) = Some c \<and> wd_status c = WS_CANDIDATE)
     \<and> (\<forall>(n, h) \<in> set (pn_artifact_hashes (pq_manifest q)). pq_artifacts q n = Some h)
     \<and> vc_checksums_verified (pq_receipt q) \<and> vc_permission_checked (pq_receipt q) \<and> vc_integrity_passed (pq_receipt q)
     \<and> (\<forall>e. vc_equivalence (pq_receipt q) = Some e \<longrightarrow> eq_equivalent e)
     \<and> (pq_plan q \<noteq> None \<longrightarrow> vc_equivalence (pq_receipt q) \<noteq> None)"

lemma retire_ok:
  "worlds_ok g \<Longrightarrow> \<exists>g1. retire (wr_current_id g) status g = Inr g1"
  using worlds_ok_current [of g] by (fastforce simp: retire_def split: option.splits)

lemma publish_outcome:
  assumes ok: "worlds_ok g"
  shows "(\<exists>r. fst (publish q g) = Inr r) \<longleftrightarrow> publishable q g"
proof -
  obtain g1 where "retire (wr_current_id g) WS_SUPERSEDED g = Inr g1" using retire_ok [OF ok] by blast
  then show ?thesis
    unfolding publish_def publishable_def manifest_verify_nil [symmetric]
    by (auto simp: Let_def receipt_passed_def split: option.splits)
qed

lemma current_world_ok: "worlds_ok g \<Longrightarrow> current_world g = Option.bind (wr_current_id g) (state_of g)"
  using worlds_ok_current(1) [of g] by (cases "wr_current_id g") (simp_all add: current_world_def)

text \<open>The current world after a publish: the published state, or what it was.\<close>

lemma publish_current:
  assumes ok: "worlds_ok g" and p: "publish q g = (r, g')"
  shows "current_world g' = (case r of Inl e \<Rightarrow> current_world g | Inr b \<Rightarrow> Some (pb_world_state b))"
    and "r = Inr b \<Longrightarrow> wd_status (pb_world_state b) = WS_ACTIVE \<and> wd_world_state_id (pb_world_state b) = pq_world_state_id q"
proof -
  have ok': "worlds_ok g'" using world_op_ok [OF ok, of "Publish q"] p by simp
  show "current_world g' = (case r of Inl e \<Rightarrow> current_world g | Inr b \<Rightarrow> Some (pb_world_state b))"
  proof (cases rule: publish_cases [of q g])
    case (rejected e c)
    then have "wr_current_id g \<noteq> Some (pq_world_state_id q)" using worlds_ok_state(3) [OF ok rejected(2)] by simp
    then show ?thesis
      using current_world_ok [OF ok] current_world_ok [OF ok'] p rejected(1) by (auto split: Option.bind_split)
  next
    case (swapped c g1)
    then have "g' = move_pointer (pq_world_state_id q) (published_state q c) g1" using p by simp
    then show ?thesis using current_world_ok [OF ok'] p swapped(7) by auto
  qed (use p in simp)
  show "r = Inr b \<Longrightarrow> wd_status (pb_world_state b) = WS_ACTIVE \<and> wd_world_state_id (pb_world_state b) = pq_world_state_id q"
    using p worlds_ok_state(2) [OF ok] by (cases rule: publish_cases [of q g]) auto
qed

text \<open>C5: A publish happens wholly or not at all. It succeeds exactly when the state is a staged candidate, every
  artifact has the hash its manifest records, all three validation checks passed and, for a selective
  build, an equivalence report is there and says equivalent. Then readers move, in the one step, to the
  candidate with the requested manifest and receipt, the former current state (and nothing else) becomes
  SUPERSEDED and exactly one event announces it; otherwise the pointer, what readers see, the history and every other state
  are as they were, and the candidate that failed its checks is REJECTED and can never be published again.\<close>

theorem publish_atomic:
  assumes ok: "worlds_ok g" and p: "publish q g = (r, g')"
  shows "(case r of
      Inr b \<Rightarrow> publishable q g \<and> current_world g' = Some (pb_world_state b) \<and> wd_status (pb_world_state b) = WS_ACTIVE
        \<and> wr_current_id g' = Some (pq_world_state_id q) \<and> wr_history g' = wr_history g @ [pq_world_state_id q]
        \<and> wd_manifest (pb_world_state b) = Some (pq_manifest q)
        \<and> pb_previous_world_state_id b = wr_current_id g
        \<and> pb_outbox b = [WorldPublished (wr_workspace_id g) (pq_world_state_id q) (wr_current_id g)
            (pn_manifest_hash (pq_manifest q)) (vc_receipt_id (pq_receipt q))]
        \<and> (\<forall>j. j \<noteq> pq_world_state_id q \<longrightarrow> state_of g' j =
            (if wr_current_id g = Some j then map_option (\<lambda>s. s\<lparr>wd_status := WS_SUPERSEDED\<rparr>) (state_of g j) else state_of g j))
    | Inl e \<Rightarrow> \<not> publishable q g \<and> current_world g' = current_world g
        \<and> wr_current_id g' = wr_current_id g \<and> wr_history g' = wr_history g
        \<and> (\<forall>j. j \<noteq> pq_world_state_id q \<longrightarrow> state_of g' j = state_of g j)
        \<and> (\<forall>q'. pq_world_state_id q' = pq_world_state_id q \<longrightarrow> \<not> publishable q' g'))"
proof -
  have iff: "(\<exists>b. r = Inr b) \<longleftrightarrow> publishable q g" using publish_outcome [OF ok, of q] p by simp
  note current = publish_current(1) [OF ok p]
  show ?thesis
  proof (cases rule: publish_cases [of q g])
    case (kept e)
    with retire_ok [OF ok, of WS_SUPERSEDED] show ?thesis using p iff by (auto simp: publishable_def)
  next
    case (rejected e c)
    with p iff current show ?thesis by (auto simp: publishable_def)
  next
    case (swapped c g1)
    have m: "g' = move_pointer (pq_world_state_id q) (published_state q c) g1" using p swapped(7) by simp
    then have g': "wr_current_id g' = Some (pq_world_state_id q)" by simp
    have j: "state_of g' j = (if wr_current_id g = Some j then map_option (\<lambda>s. s\<lparr>wd_status := WS_SUPERSEDED\<rparr>) (state_of g j)
        else state_of g j)" if "j \<noteq> pq_world_state_id q" for j
      using swap_state [OF ok swapped(6), of "pq_world_state_id q" "published_state q c" j] that unfolding m by simp
    have i: "current_world g' = Some (published_state q c)" using current p swapped(7) by auto
    have h: "wr_history g' = wr_history g @ [pq_world_state_id q]" using retire_state(3) [OF swapped(6)] by (simp add: m)
    show ?thesis using p iff swapped(7) g' i h j by auto
  qed
qed

definition demo_staged :: world_registry where
  "demo_staged = run_ops world_op [Stage ''w1'' ''c1'' (Aware 1) None, Publish (demo_publish ''w1''), Stage ''w2'' ''c1'' (Aware 2) None]
     (new_registry ''space'')"

lemma demo_staged_ok: "worlds_ok demo_staged"
  unfolding demo_staged_def by (rule worlds_ok_run [OF _ worlds_ok_new]) simp

theorem publish_atomic_witness:
  "current_world (snd (publish (demo_publish ''w2'') demo_staged)) =
     Some (pb_world_state (projr (fst (publish (demo_publish ''w2'') demo_staged))))
   \<and> wr_current_id (snd (publish ((demo_publish ''w2'')\<lparr>pq_artifacts := Map.empty\<rparr>) demo_staged)) = Some ''w1''"
proof -
  have r: "fst (publish (demo_publish ''w2'') demo_staged) = Inr (projr (fst (publish (demo_publish ''w2'') demo_staged)))"
    by code_simp
  have e: "fst (publish ((demo_publish ''w2'')\<lparr>pq_artifacts := Map.empty\<rparr>) demo_staged) = Inl (PublishRefused ''artifact checksum mismatch'')"
    by code_simp
  have c: "wr_current_id demo_staged = Some ''w1''" by code_simp
  have "current_world (snd (publish (demo_publish ''w2'') demo_staged)) =
     Some (pb_world_state (projr (fst (publish (demo_publish ''w2'') demo_staged))))"
    using publish_atomic [OF demo_staged_ok prod.collapse [symmetric], of "demo_publish ''w2''"] by (subst (asm) r) simp
  moreover have "wr_current_id (snd (publish ((demo_publish ''w2'')\<lparr>pq_artifacts := Map.empty\<rparr>) demo_staged)) = Some ''w1''"
    using publish_atomic [OF demo_staged_ok prod.collapse [symmetric], of "(demo_publish ''w2'')\<lparr>pq_artifacts := Map.empty\<rparr>"]
    by (subst (asm) e) (simp add: c)
  ultimately show ?thesis by blast
qed

section \<open>The pointer protocol\<close>

text \<open>What the registry promises its readers, without its states and receipts: a pointer into a table of published
  manifests. A release adds an id that was never published and points to it, a revert points back to a published one.\<close>

type_synonym pointer_view = "string option \<times> (string \<rightharpoonup> publication_manifest)"

inductive pointer_step :: "pointer_view \<Rightarrow> pointer_view \<Rightarrow> bool" where
  release: "i \<notin> dom pub \<Longrightarrow> pointer_step (c, pub) (Some i, pub(i \<mapsto> m))"
| revert: "i \<in> dom pub \<Longrightarrow> c \<noteq> Some i \<Longrightarrow> pointer_step (c, pub) (Some i, pub)"

definition reader_view :: "world_registry \<Rightarrow> pointer_view" where
  "reader_view g = (wr_current_id g, \<lambda>i. if i \<in> set (wr_history g) then Option.bind (state_of g i) wd_manifest else None)"

lemma reader_view_dom: "worlds_ok g \<Longrightarrow> dom (snd (reader_view g)) = set (wr_history g)"
  using worlds_ok_state(4) [of g] by (fastforce simp: reader_view_def worlds_ok_def split: if_splits)

lemma reader_view_pending:
  "i \<notin> set (wr_history g) \<Longrightarrow> reader_view (put_state i s g) = reader_view g"
  by (auto simp: reader_view_def fun_eq_iff)

lemma reader_view_swap:
  assumes "worlds_ok g" and "retire (wr_current_id g) status g = Inr g1" and "wd_manifest s = Some m"
  shows "reader_view (move_pointer i s g1) = (Some i, (snd (reader_view g))(i \<mapsto> m))"
  using assms(3) retire_state(1) [OF assms(2)] retire_state(3) [OF assms(2)]
  by (auto simp: reader_view_def fun_eq_iff Option.bind_eq_Some_conv split: option.splits Option.bind_split)

lemma stage_view:
  assumes ok: "worlds_ok g"
  shows "reader_view (snd (stage wid version built_at change_set g)) = reader_view g"
proof (cases rule: stage_cases [of wid version built_at change_set g])
  case (staged x)
  then have "wid \<notin> set (wr_history g)" using ok by (auto simp: worlds_ok_def)
  with staged reader_view_pending show ?thesis by simp
qed simp

lemma publish_view:
  assumes ok: "worlds_ok g"
  shows "case publish q g of
      (Inl e, g') \<Rightarrow> reader_view g' = reader_view g
    | (Inr b, g') \<Rightarrow> pointer_step (reader_view g) (reader_view g')
        \<and> reader_view g' = (Some (pq_world_state_id q), (snd (reader_view g))(pq_world_state_id q \<mapsto> pq_manifest q))"
proof (cases rule: publish_cases [of q g])
  case kept
  then show ?thesis by simp
next
  case (rejected e x)
  then have "pq_world_state_id q \<notin> set (wr_history g)" using worlds_ok_state(5) [OF ok rejected(2)] by simp
  with rejected reader_view_pending show ?thesis by simp
next
  case (swapped x g1)
  have n: "pq_world_state_id q \<notin> dom (snd (reader_view g))"
    using worlds_ok_state(5) [OF ok swapped(1)] swapped(2) reader_view_dom [OF ok] by simp
  have v: "reader_view (snd (publish q g)) = (Some (pq_world_state_id q), (snd (reader_view g))(pq_world_state_id q \<mapsto> pq_manifest q))"
    using swapped(7) reader_view_swap [OF ok swapped(6)] by simp
  have "pointer_step (fst (reader_view g), snd (reader_view g)) (reader_view (snd (publish q g)))" unfolding v by (rule release [OF n])
  with swapped(7) v show ?thesis by simp
qed

lemma rollback_view:
  assumes ok: "worlds_ok g"
  shows "case rollback i moment g of
      (Inl e, g') \<Rightarrow> reader_view g' = reader_view g
    | (Inr b, g') \<Rightarrow> pointer_step (reader_view g) (reader_view g') \<and> reader_view g' = (Some i, snd (reader_view g))"
proof (cases rule: rollback_cases [of i moment g])
  case kept
  then show ?thesis by simp
next
  case (moved x g1 b)
  obtain m where m: "wd_manifest x = Some m" using worlds_ok_state(4) [OF ok moved(1,2)] by auto
  then have k: "snd (reader_view g) i = Some m" using moved(1,2) by (simp add: reader_view_def)
  have "reader_view (snd (rollback i moment g)) = (Some i, (snd (reader_view g))(i \<mapsto> m))"
    using moved(5) m reader_view_swap [OF ok moved(4)] by simp
  then have v: "reader_view (snd (rollback i moment g)) = (Some i, snd (reader_view g))" using k by (simp add: map_upd_triv)
  have "wr_current_id g = fst (reader_view g)" by (simp add: reader_view_def)
  then have "pointer_step (fst (reader_view g), snd (reader_view g)) (reader_view (snd (rollback i moment g)))"
    unfolding v using k moved(3) by (intro revert) auto
  with moved(5) v show ?thesis by simp
qed

text \<open>C6: The registry refines the pointer protocol. On every registry that operations can produce, staging and every
  refused operation leave the readers' view as it was, and a successful publish or rollback is exactly one
  step of the protocol, so no operation ever shows readers an intermediate state.\<close>

theorem registry_refines_pointer:
  assumes "list_all staged_ok calls" and "g = run_ops world_op calls (new_registry w)" and "world_op c g = (r, g')"
  shows "(case r of
      Inl e \<Rightarrow> reader_view g' = reader_view g
    | Inr u \<Rightarrow> (case c of
        Stage wid version built_at change_set \<Rightarrow> reader_view g' = reader_view g
      | Publish q \<Rightarrow> pointer_step (reader_view g) (reader_view g')
          \<and> reader_view g' = (Some (pq_world_state_id q), (snd (reader_view g))(pq_world_state_id q \<mapsto> pq_manifest q))
      | Rollback i moment \<Rightarrow> pointer_step (reader_view g) (reader_view g')
          \<and> reader_view g' = (Some i, snd (reader_view g))))"
proof -
  have ok: "worlds_ok g" unfolding assms(2) by (rule worlds_ok_run [OF assms(1) worlds_ok_new])
  show ?thesis
  proof (cases c)
    case (Stage wid version built_at change_set)
    with assms(3) stage_view [OF ok, of wid version built_at change_set] show ?thesis
      by (auto simp: forget_def split: sum.splits prod.splits)
  next
    case (Publish q)
    with assms(3) publish_view [OF ok, of q] show ?thesis
      by (cases "publish q g"; cases "fst (publish q g)") (auto simp: forget_def mapR_def)
  next
    case (Rollback i moment)
    with assms(3) rollback_view [OF ok, of i moment] show ?thesis
      by (cases "rollback i moment g"; cases "fst (rollback i moment g)") (auto simp: forget_def mapR_def)
  qed
qed

theorem registry_refines_pointer_witness:
  "pointer_step (reader_view demo_staged) (reader_view (snd (world_op (Publish (demo_publish ''w2'')) demo_staged)))"
proof -
  let ?c = "Publish (demo_publish ''w2'')"
  have s: "list_all staged_ok [Stage ''w1'' ''c1'' (Aware 1) None, Publish (demo_publish ''w1''), Stage ''w2'' ''c1'' (Aware 2) None]"
    by simp
  have r: "fst (world_op ?c demo_staged) = Inr ()" by code_simp
  from registry_refines_pointer [OF s demo_staged_def prod.collapse [symmetric], of ?c] show ?thesis
    unfolding r sum.case world_call.case by (rule conjunct1)
qed

text \<open>Fact: What was published is never edited. After a successful publish, and whatever operations follow (failed ones,
  later publishes and rollbacks included), the registry keeps that manifest for that id, and no
  further publish of the id succeeds.\<close>

theorem published_manifest_kept:
  assumes "publish q g = (Inr b, g')"
  shows "(\<exists>s. state_of (run_ops world_op calls g') (pq_world_state_id q) = Some s \<and> wd_manifest s = Some (pq_manifest q))
    \<and> (\<forall>q'. pq_world_state_id q' = pq_world_state_id q \<longrightarrow>
        (\<exists>e. publish q' (run_ops world_op calls g') = (Inl e, run_ops world_op calls g')))"
proof -
  have "gated_manifest g' (pq_world_state_id q) = Some (pq_manifest q)"
    using assms by (cases rule: publish_cases [of q g]) (auto simp: gated_manifest_def)
  then have "gated_manifest (run_ops world_op calls g') (pq_world_state_id q) = Some (pq_manifest q)" by (rule gated.run_keeps)
  then obtain s where "state_of (run_ops world_op calls g') (pq_world_state_id q) = Some s" "wd_status s \<noteq> WS_CANDIDATE"
    "wd_manifest s = Some (pq_manifest q)" by (auto simp: gated_manifest_def split: option.splits if_splits)
  then show ?thesis by (auto simp: publish_def)
qed

theorem published_manifest_kept_witness:
  "\<exists>s. state_of (run_ops world_op demo_worlds (snd (publish (demo_publish ''w2'') demo_staged))) ''w2'' = Some s
    \<and> wd_manifest s = Some (pq_manifest (demo_publish ''w2''))"
proof -
  have r: "fst (publish (demo_publish ''w2'') demo_staged) = Inr (projr (fst (publish (demo_publish ''w2'') demo_staged)))"
    by code_simp
  have "publish (demo_publish ''w2'') demo_staged
      = (Inr (projr (fst (publish (demo_publish ''w2'') demo_staged))), snd (publish (demo_publish ''w2'') demo_staged))"
    by (rule prod_eqI) (simp_all add: r [symmetric])
  from published_manifest_kept [OF this, of demo_worlds] show ?thesis by (simp add: demo_publish_def)
qed

section \<open>Manifests\<close>

text \<open>Fact: The manifest hash is evidence of the artifacts alone: two builds that list the same artifacts (with distinct names) in a
  different order produce the same manifest hash, and the manifest of a build verifies against exactly the artifact
  sets that hold every listed artifact with its hash.\<close>

theorem manifest_hash_order_independent:
  assumes "mset hashes' = mset hashes" and "distinct (map fst hashes)"
  shows "pn_manifest_hash (make_manifest E wid version hashes') = pn_manifest_hash (make_manifest E wid version hashes)
    \<and> (manifest_verify (make_manifest E wid version hashes') artifacts = [] \<longleftrightarrow> map_of hashes \<subseteq>\<^sub>m artifacts)"
proof -
  have s: "set hashes' = set hashes" using assms(1) by (rule mset_eq_setD)
  have "inj_on fst (set hashes)" using assms(2) by (simp add: distinct_map)
  then have "sort_key fst hashes' = sort_key fst hashes"
    using assms(1) s by (intro sort_key_inj_key_eq) simp_all
  moreover have "(n, h) \<in> set hashes \<longleftrightarrow> map_of hashes n = Some h" for n h using assms(2) by simp
  ultimately show ?thesis unfolding manifest_verify_nil by (force simp: make_manifest_def s map_le_def dom_def)
qed

theorem manifest_hash_order_independent_witness:
  "pn_manifest_hash (make_manifest E ''w'' ''c'' [(''b'', ''2''), (''a'', ''1'')])
    = pn_manifest_hash (make_manifest E ''w'' ''c'' [(''a'', ''1''), (''b'', ''2'')])"
  using manifest_hash_order_independent [of "[(''b'', ''2''), (''a'', ''1'')]" "[(''a'', ''1''), (''b'', ''2'')]" E "''w''" "''c''"] by simp

text \<open>Fact: What a publish does not check. Whether it succeeds does not depend on which world state the manifest says
  it describes, nor on the compiler version or the manifest hash it carries: a manifest made for another
  state, with any hash, is published and announced under this id.\<close>

theorem manifest_identity_unchecked:
  "isl (fst (publish (q\<lparr>pq_manifest := (pq_manifest q)\<lparr>pn_world_state_id := i, pn_compiler_version := v, pn_manifest_hash := h\<rparr>\<rparr>) g))
     = isl (fst (publish q g))
   \<and> (\<forall>b. fst (publish (q\<lparr>pq_manifest := (pq_manifest q)\<lparr>pn_world_state_id := i, pn_compiler_version := v, pn_manifest_hash := h\<rparr>\<rparr>) g) = Inr b
       \<longrightarrow> pb_outbox b = [WorldPublished (wr_workspace_id g) (pq_world_state_id q) (wr_current_id g) h (vc_receipt_id (pq_receipt q))])"
  (is "?same \<and> ?announced")
proof
  have "manifest_verify ((pq_manifest q)\<lparr>pn_world_state_id := i, pn_compiler_version := v, pn_manifest_hash := h\<rparr>) a
      = manifest_verify (pq_manifest q) a" for a
    by (simp add: manifest_verify_def)
  then show ?same by (auto simp: publish_def Let_def split: option.splits sum.splits)
  show ?announced by (auto simp: publish_def Let_def split: option.splits sum.splits if_splits)
qed

text \<open>Fact: Why an id must not be empty. An empty world state id can be staged and published; the
  pointer then names it, readers see nothing, and the next publish leaves two ACTIVE states.\<close>

theorem empty_id_two_active:
  "let g1 = run_ops world_op [Stage [] ''c1'' (Aware 1) None, Publish (demo_publish [])] (new_registry ''space'');
       g2 = run_ops world_op [Stage ''w2'' ''c1'' (Aware 2) None, Publish (demo_publish ''w2'')] g1
   in active_count g1 = 1 \<and> current_world g1 = None \<and> active_count g2 = 2"
  by code_simp

text \<open>Only artifacts of the inventory are built, and every planned one of them is.\<close>

lemma dirty_set_exact: "set (dirty_set p inventory) = set (to_rebuild p) \<inter> set inventory"
  by (auto simp: dirty_set_def)

end
