(* ===== verification/AnswerCompiler.thy ===== *)
theory AnswerCompiler
  imports Authority WorldState "HOL-Library.Sublist"
begin

text \<open>
  \<^verbatim>\<open>packages/cir-python/src/akc_cir/answer_compiler.py\<close>: compiling a question and its draft claims into an
  answer with one of five outcomes. The gates are those of the source in its order: a draft set, an ACTIVE
  world, authorization, freshness, and then the resolution of \<^verbatim>\<open>authority.py\<close>; the world is the one
  the registry of \<^verbatim>\<open>world_state.py\<close> points to. Strings hold the code points below 256, so the
  Korean keywords of the classification rules never occur in a question and are left out of the table.
\<close>

section \<open>Classification\<close>

datatype query_intent = QI_CURRENT | QI_AS_OF_VALID | QI_AS_KNOWN | QI_AUTHORITY | QI_APPLICABILITY | QI_CONFLICT
  | QI_HISTORY | QI_PROVENANCE | QI_IMPACT | QI_SEARCH

definition intent_rules :: "(query_intent \<times> string list) list" where
  "intent_rules =
    [(QI_PROVENANCE, [''provenance'', ''which document'', ''what document'', ''where did this come'', ''citation'', ''sourced from'']),
     (QI_HISTORY, [''history'', ''over time'', ''used to be'', ''how has'', ''evolution'']),
     (QI_IMPACT, [''impact'', ''affect'', ''affected'', ''consequence'', ''downstream'']),
     (QI_AS_KNOWN, [''as known'', ''did we know'', ''believed at'']),
     (QI_AS_OF_VALID, [''as of'', ''valid at'', ''valid on'', ''was valid'']),
     (QI_APPLICABILITY, [''apply'', ''applies'', ''applicable'', ''covers'', ''in scope'', ''out of scope'']),
     (QI_AUTHORITY, [''authority'', ''authoritative'', ''who decides'', ''governs'', ''governing'', ''prevail'', ''precedence'',
        ''outrank'', ''final say'']),
     (QI_CONFLICT, [''conflict'', ''contradict'', ''disagree'', ''inconsistent'', ''discrepancy'']),
     (QI_CURRENT, [''current'', ''currently'', ''today'', ''latest'', ''up to date''])]"

definition classify_intent :: "string \<Rightarrow> query_intent" where
  "classify_intent query = (let normalized = casefold query in
     case List.find (\<lambda>(intent, keywords). \<exists>k \<in> set keywords. sublist k normalized) intent_rules of
       Some (intent, keywords) \<Rightarrow> intent
     | None \<Rightarrow> QI_SEARCH)"

section \<open>Drafts and answers\<close>

datatype answer_outcome = AO_CURRENT | AO_STALE | AO_CONFLICT | AO_UNRESOLVED | AO_NOT_AUTHORIZED

record evidence_occurrence =
  eo_claim_id :: string
  eo_evidence_id :: string
  eo_source_status :: source_status

record draft_claim =
  dc_claim :: scoped_claim
  dc_world_state_id :: string

record compiled_answer =
  ca_claim_ids :: "string list"
  ca_world_state_id :: string
  ca_evidence_occurrences :: "evidence_occurrence list"
  ca_outcome :: answer_outcome
  ca_intent :: query_intent
  ca_reason :: string

definition audit_freshness :: "draft_claim list \<Rightarrow> world_state \<Rightarrow> string list" where
  "audit_freshness drafts active =
     map (\<lambda>d. sl_claim_id (dc_claim d)) (filter (\<lambda>d. dc_world_state_id d \<noteq> wd_world_state_id active) drafts)"

fun occurrences :: "draft_claim list \<Rightarrow> evidence_occurrence list" where
  "occurrences [] = []"
| "occurrences (d # ds) = (case sl_evidence_id (dc_claim d) of
      None \<Rightarrow> occurrences ds
    | Some e \<Rightarrow> \<lparr>eo_claim_id = sl_claim_id (dc_claim d), eo_evidence_id = e, eo_source_status = sl_source_status (dc_claim d)\<rparr>
        # occurrences ds)"

text \<open>Equality of claims compares the scopes as dictionaries.\<close>

definition same_claim :: "scoped_claim \<Rightarrow> scoped_claim \<Rightarrow> bool" where
  "same_claim c d \<longleftrightarrow> c\<lparr>sl_scope := []\<rparr> = d\<lparr>sl_scope := []\<rparr> \<and> mset (sl_scope c) = mset (sl_scope d)"

section \<open>Compilation\<close>

definition stale_answer :: "query_intent \<Rightarrow> world_state \<Rightarrow> draft_claim list \<Rightarrow> string list \<Rightarrow> compiled_answer" where
  "stale_answer intent active visible stale_ids =
    (let stale_drafts = filter (\<lambda>d. sl_claim_id (dc_claim d) \<in> set stale_ids) visible;
         fresh_ids = filter (\<lambda>i. i \<notin> set stale_ids) (map (\<lambda>d. sl_claim_id (dc_claim d)) visible);
         foreign = join_with '', '' (sort (remdups (map dc_world_state_id stale_drafts)));
         note = (if fresh_ids \<noteq> [] then ''; fresh candidates were set aside: '' @ join_with '', '' fresh_ids else [])
     in \<lparr>ca_claim_ids = stale_ids, ca_world_state_id = wd_world_state_id active,
         ca_evidence_occurrences = occurrences stale_drafts, ca_outcome = AO_STALE, ca_intent = intent,
         ca_reason = nat_str (length stale_ids) @ '' claim(s) were extracted against '' @ foreign
           @ '', not the ACTIVE '' @ wd_world_state_id active @ note\<rparr>)"

definition answer_of_resolution :: "query_intent \<Rightarrow> world_state \<Rightarrow> draft_claim list \<Rightarrow> resolution \<Rightarrow> compiled_answer" where
  "answer_of_resolution intent active visible r =
    (if rs_status r = CONFLICTED then
       \<lparr>ca_claim_ids = map sl_claim_id (rs_candidates r), ca_world_state_id = wd_world_state_id active,
        ca_evidence_occurrences = occurrences (filter (\<lambda>d. \<exists>c \<in> set (rs_candidates r). same_claim c (dc_claim d)) visible),
        ca_outcome = AO_CONFLICT, ca_intent = intent, ca_reason = rs_reason r\<rparr>
     else case (if rs_status r = NO_CANDIDATE then None else rs_claim r) of
       None \<Rightarrow>
         \<lparr>ca_claim_ids = [], ca_world_state_id = wd_world_state_id active, ca_evidence_occurrences = [],
          ca_outcome = AO_UNRESOLVED, ca_intent = intent, ca_reason = rs_reason r\<rparr>
     | Some winner \<Rightarrow>
         \<lparr>ca_claim_ids = [sl_claim_id winner], ca_world_state_id = wd_world_state_id active,
          ca_evidence_occurrences = occurrences (filter (\<lambda>d. sl_claim_id (dc_claim d) = sl_claim_id winner) visible),
          ca_outcome = AO_CURRENT, ca_intent = intent, ca_reason = rs_reason r\<rparr>)"

definition withheld :: "query_intent \<Rightarrow> string \<Rightarrow> answer_outcome \<Rightarrow> string \<Rightarrow> compiled_answer" where
  "withheld intent world ao reason =
    \<lparr>ca_claim_ids = [], ca_world_state_id = world, ca_evidence_occurrences = [], ca_outcome = ao,
     ca_intent = intent, ca_reason = reason\<rparr>"

definition compile_answer ::
  "(int \<Rightarrow> int) \<Rightarrow> string \<Rightarrow> draft_claim list \<Rightarrow> world_registry \<Rightarrow> claim_context \<Rightarrow> resolution_rule list \<Rightarrow> pyerr + compiled_answer" where
  "compile_answer zone query drafts registry ctx rules =
    (let intent = classify_intent query; active = current_world registry in
     if drafts = [] then
       Inr (withheld intent (case active of None \<Rightarrow> [] | Some a \<Rightarrow> wd_world_state_id a) AO_UNRESOLVED ''the draft set is empty'')
     else case active of
       None \<Rightarrow> Inr (withheld intent [] AO_UNRESOLVED ''no ACTIVE world state is published'')
     | Some a \<Rightarrow>
       (if wd_status a \<noteq> WS_ACTIVE then Inr (withheld intent [] AO_UNRESOLVED ''no ACTIVE world state is published'')
        else let visible = filter (\<lambda>d. visible_to (dc_claim d) ctx) drafts in
          if visible = [] then
            Inr (withheld intent (wd_world_state_id a) AO_NOT_AUTHORIZED
              ''every draft claim requires a permission this question's context does not hold'')
          else let stale_ids = audit_freshness visible a in
            if stale_ids \<noteq> [] then Inr (stale_answer intent a visible stale_ids)
            else mapR (answer_of_resolution intent a visible) (resolve_authority zone (map dc_claim visible) ctx rules)))"

section \<open>The gates\<close>

text \<open>The world an answer is compiled against, and the drafts the asker may see.\<close>

definition open_world :: "world_registry \<Rightarrow> world_state \<Rightarrow> bool" where
  "open_world registry w \<longleftrightarrow> current_world registry = Some w \<and> wd_status w = WS_ACTIVE"

definition seen_drafts :: "claim_context \<Rightarrow> draft_claim list \<Rightarrow> draft_claim list" where
  "seen_drafts ctx drafts = filter (\<lambda>d. visible_to (dc_claim d) ctx) drafts"

lemma seen_drafts_idem [simp]: "seen_drafts ctx (seen_drafts ctx drafts) = seen_drafts ctx drafts"
  by (simp add: seen_drafts_def)

lemma seen_drafts_Nil: "seen_drafts ctx drafts = [] \<longleftrightarrow> (\<forall>d \<in> set drafts. \<not> visible_to (dc_claim d) ctx)"
  by (simp add: seen_drafts_def filter_empty_conv)

lemma audit_freshness_Nil: "audit_freshness drafts w = [] \<longleftrightarrow> (\<forall>d \<in> set drafts. dc_world_state_id d = wd_world_state_id w)"
  by (simp add: audit_freshness_def filter_empty_conv)

lemma top_ranked_seen:
  "top_ranked zone ctx rules (map dc_claim (seen_drafts ctx drafts)) = top_ranked zone ctx rules (map dc_claim drafts)"
  by (auto simp: top_ranked_def seen_drafts_def eligible_claim_def fun_eq_iff)

lemma compile_gates:
  shows "drafts = [] \<Longrightarrow> \<exists>a. compile_answer zone query drafts registry ctx rules = Inr a \<and> ca_outcome a = AO_UNRESOLVED
      \<and> ca_claim_ids a = [] \<and> ca_evidence_occurrences a = []"
    and "drafts \<noteq> [] \<Longrightarrow> \<nexists>w. open_world registry w \<Longrightarrow>
      compile_answer zone query drafts registry ctx rules =
        Inr (withheld (classify_intent query) [] AO_UNRESOLVED ''no ACTIVE world state is published'')"
    and "drafts \<noteq> [] \<Longrightarrow> open_world registry w \<Longrightarrow> seen_drafts ctx drafts = [] \<Longrightarrow>
      compile_answer zone query drafts registry ctx rules =
        Inr (withheld (classify_intent query) (wd_world_state_id w) AO_NOT_AUTHORIZED
              ''every draft claim requires a permission this question's context does not hold'')"
    and "open_world registry w \<Longrightarrow> seen_drafts ctx drafts \<noteq> [] \<Longrightarrow> audit_freshness (seen_drafts ctx drafts) w \<noteq> [] \<Longrightarrow>
      compile_answer zone query drafts registry ctx rules =
        Inr (stale_answer (classify_intent query) w (seen_drafts ctx drafts) (audit_freshness (seen_drafts ctx drafts) w))"
    and "open_world registry w \<Longrightarrow> seen_drafts ctx drafts \<noteq> [] \<Longrightarrow> audit_freshness (seen_drafts ctx drafts) w = [] \<Longrightarrow>
      compile_answer zone query drafts registry ctx rules =
        mapR (answer_of_resolution (classify_intent query) w (seen_drafts ctx drafts))
          (resolve_authority zone (map dc_claim (seen_drafts ctx drafts)) ctx rules)"
proof -
  note defs = compile_answer_def open_world_def seen_drafts_def
  show "drafts = [] \<Longrightarrow> \<exists>a. compile_answer zone query drafts registry ctx rules = Inr a \<and> ca_outcome a = AO_UNRESOLVED
      \<and> ca_claim_ids a = [] \<and> ca_evidence_occurrences a = []"
    by (simp add: defs withheld_def Let_def)
  show "drafts \<noteq> [] \<Longrightarrow> \<nexists>w. open_world registry w \<Longrightarrow>
      compile_answer zone query drafts registry ctx rules =
        Inr (withheld (classify_intent query) [] AO_UNRESOLVED ''no ACTIVE world state is published'')"
    by (auto simp: defs Let_def split: option.split)
  have ne: "filter P drafts \<noteq> [] \<Longrightarrow> drafts \<noteq> []" for P by auto
  show "drafts \<noteq> [] \<Longrightarrow> open_world registry w \<Longrightarrow> seen_drafts ctx drafts = [] \<Longrightarrow>
      compile_answer zone query drafts registry ctx rules =
        Inr (withheld (classify_intent query) (wd_world_state_id w) AO_NOT_AUTHORIZED
              ''every draft claim requires a permission this question's context does not hold'')"
    by (simp add: defs Let_def)
  show "open_world registry w \<Longrightarrow> seen_drafts ctx drafts \<noteq> [] \<Longrightarrow> audit_freshness (seen_drafts ctx drafts) w \<noteq> [] \<Longrightarrow>
      compile_answer zone query drafts registry ctx rules =
        Inr (stale_answer (classify_intent query) w (seen_drafts ctx drafts) (audit_freshness (seen_drafts ctx drafts) w))"
    using ne by (simp add: defs Let_def)
  show "open_world registry w \<Longrightarrow> seen_drafts ctx drafts \<noteq> [] \<Longrightarrow> audit_freshness (seen_drafts ctx drafts) w = [] \<Longrightarrow>
      compile_answer zone query drafts registry ctx rules =
        mapR (answer_of_resolution (classify_intent query) w (seen_drafts ctx drafts))
          (resolve_authority zone (map dc_claim (seen_drafts ctx drafts)) ctx rules)"
    using ne by (simp add: defs Let_def)
qed

text \<open>Only one of the gates applies.\<close>

lemma gate_cases:
  obtains (empty) "drafts = []"
  | (closed) "drafts \<noteq> []" and "\<nexists>w. open_world registry w"
  | (hidden) w where "drafts \<noteq> []" and "open_world registry w" and "seen_drafts ctx drafts = []"
  | (stale) w where "open_world registry w" and "seen_drafts ctx drafts \<noteq> []" and "audit_freshness (seen_drafts ctx drafts) w \<noteq> []"
  | (fresh) w where "open_world registry w" and "seen_drafts ctx drafts \<noteq> []" and "audit_freshness (seen_drafts ctx drafts) w = []"
  by blast

lemma open_world_unique: "open_world registry w \<Longrightarrow> open_world registry w' \<longleftrightarrow> w' = w"
  by (auto simp: open_world_def)

lemma set_occurrences:
  "set (occurrences ds) = {e. \<exists>d \<in> set ds. sl_evidence_id (dc_claim d) = Some (eo_evidence_id e)
     \<and> eo_claim_id e = sl_claim_id (dc_claim d) \<and> eo_source_status e = sl_source_status (dc_claim d)}"
  by (induction ds) (auto split: option.split)

section \<open>Properties\<close>

text \<open>An answer about hidden drafts differs from the answer about none.\<close>

lemma hidden_differs:
  assumes "seen_drafts ctx drafts = []" and "drafts \<noteq> []"
  shows "compile_answer zone query drafts registry ctx rules \<noteq> compile_answer zone query [] registry ctx rules"
proof (cases "\<exists>w. open_world registry w")
  case True
  then obtain w where w: "open_world registry w" by blast
  show ?thesis unfolding compile_gates(3) [OF assms(2) w assms(1)] by (simp add: compile_answer_def withheld_def)
next
  case False
  show ?thesis unfolding compile_gates(2) [OF assms(2) False] by (simp add: compile_answer_def withheld_def)
qed

lemma same_answer:
  assumes "seen_drafts ctx drafts' = seen_drafts ctx drafts" and "drafts = [] \<longleftrightarrow> drafts' = []"
  shows "compile_answer zone query drafts' registry ctx rules = compile_answer zone query drafts registry ctx rules"
proof (cases rule: gate_cases [where drafts = drafts and registry = registry and ctx = ctx])
  case empty
  with assms(2) show ?thesis by simp
next
  case closed
  with assms show ?thesis using compile_gates(2) by metis
next
  case (hidden w)
  with assms show ?thesis using compile_gates(3) by metis
next
  case (stale w)
  then show ?thesis using compile_gates(4) [of registry w ctx drafts] compile_gates(4) [of registry w ctx drafts'] assms(1) by simp
next
  case (fresh w)
  then show ?thesis using compile_gates(5) [of registry w ctx drafts] compile_gates(5) [of registry w ctx drafts'] assms(1) by simp
qed

text \<open>C20: What hidden drafts disclose. Two lists of drafts of which the asker may see the same part get the same answer (claims,
  evidence, outcome, reason, or the error) exactly when both are empty or both are not. So whatever the hidden drafts say,
  order and number changes nothing; the one thing an asker who sees nothing learns is whether there is a hidden draft at all.\<close>

theorem answer_noninterference:
  assumes "seen_drafts ctx drafts' = seen_drafts ctx drafts"
  shows "compile_answer zone query drafts' registry ctx rules = compile_answer zone query drafts registry ctx rules
    \<longleftrightarrow> (drafts = [] \<longleftrightarrow> drafts' = [])"
proof (cases "drafts = [] \<longleftrightarrow> drafts' = []")
  case True
  with same_answer [OF assms] show ?thesis by blast
next
  case False
  then consider "drafts = []" "drafts' \<noteq> []" "seen_drafts ctx drafts' = []" | "drafts' = []" "drafts \<noteq> []" "seen_drafts ctx drafts = []"
    using assms by (auto simp: seen_drafts_def)
  then show ?thesis
  proof cases
    case 1
    from hidden_differs [OF 1(3,2)] show ?thesis unfolding 1(1) using 1(2) by blast
  next
    case 2
    from hidden_differs [OF 2(3,2), THEN not_sym] show ?thesis unfolding 2(1) using 2(2) by blast
  qed
qed

definition demo_draft :: "string \<Rightarrow> string \<Rightarrow> string \<Rightarrow> string option \<Rightarrow> draft_claim" where
  "demo_draft i v world permission =
     \<lparr>dc_claim = (demo_claim i v AC_OFFICIAL [])\<lparr>sl_required_permission := permission, sl_evidence_id := Some (i @ ''-'' @ v)\<rparr>,
      dc_world_state_id = world\<rparr>"

theorem answer_noninterference_witness:
  "compile_answer (\<lambda>n. n) ''what is the current warranty''
      [demo_draft ''secret'' ''nine'' ''w0'' (Some ''legal''), demo_draft ''open'' ''three'' ''w1'' None] demo_staged demo_context []
   = compile_answer (\<lambda>n. n) ''what is the current warranty'' [demo_draft ''open'' ''three'' ''w1'' None] demo_staged demo_context []"
proof (subst answer_noninterference)
  show "seen_drafts demo_context [demo_draft ''secret'' ''nine'' ''w0'' (Some ''legal''), demo_draft ''open'' ''three'' ''w1'' None]
      = seen_drafts demo_context [demo_draft ''open'' ''three'' ''w1'' None]"
    by (simp add: seen_drafts_def visible_to_def demo_draft_def demo_context_def demo_claim_def)
qed simp

text \<open>The verdict of the resolution on fresh drafts.\<close>

lemma resolution_answer:
  assumes "\<forall>d \<in> set drafts. aware_claim (dc_claim d)" and "is_aware (cc_as_of ctx)"
    and "open_world registry w" and "seen_drafts ctx drafts \<noteq> []" and "audit_freshness (seen_drafts ctx drafts) w = []"
  obtains r where "compile_answer zone query drafts registry ctx rules =
        Inr (answer_of_resolution (classify_intent query) w (seen_drafts ctx drafts) r)"
    and "rs_claim r \<noteq> None \<longleftrightarrow> rs_status r = RESOLVED"
    and "rs_status r = NO_CANDIDATE \<longleftrightarrow> (\<forall>d \<in> set drafts. \<not> eligible_claim ctx rules (dc_claim d))"
    and "rs_status r = CONFLICTED \<longleftrightarrow> (\<exists>c d. top_ranked zone ctx rules (map dc_claim drafts) c
          \<and> top_ranked zone ctx rules (map dc_claim drafts) d \<and> sl_value c \<noteq> sl_value d)"
    and "\<forall>c. rs_claim r = Some c \<longrightarrow> top_ranked zone ctx rules (map dc_claim drafts) c"
    and "rs_status r = CONFLICTED \<longrightarrow> set (rs_candidates r) = Collect (top_ranked zone ctx rules (map dc_claim drafts))"
proof -
  have a: "\<forall>c \<in> set (map dc_claim (seen_drafts ctx drafts)). aware_claim c" using assms(1) by (auto simp: seen_drafts_def)
  obtain r where r: "resolve_authority zone (map dc_claim (seen_drafts ctx drafts)) ctx rules = Inr r"
    and claim: "rs_claim r \<noteq> None \<longleftrightarrow> rs_status r = RESOLVED"
    and none: "rs_status r = NO_CANDIDATE \<longleftrightarrow> filter (eligible_claim ctx rules) (map dc_claim (seen_drafts ctx drafts)) = []"
    and conflict: "rs_status r = CONFLICTED \<longleftrightarrow> (\<exists>c d. top_ranked zone ctx rules (map dc_claim drafts) c
          \<and> top_ranked zone ctx rules (map dc_claim drafts) d \<and> sl_value c \<noteq> sl_value d)"
    and top: "\<forall>c. rs_claim r = Some c \<longrightarrow> top_ranked zone ctx rules (map dc_claim drafts) c"
    and cands: "set (rs_candidates r) = (if rs_status r = CONFLICTED then Collect (top_ranked zone ctx rules (map dc_claim drafts))
      else {c \<in> set (map dc_claim (seen_drafts ctx drafts)). eligible_claim ctx rules c})"
    by (rule resolve_authority_cases [OF a assms(2), of zone rules, unfolded top_ranked_seen])
  have n: "filter (eligible_claim ctx rules) (map dc_claim (seen_drafts ctx drafts)) = []
      \<longleftrightarrow> (\<forall>d \<in> set drafts. \<not> eligible_claim ctx rules (dc_claim d))"
    by (auto simp: filter_empty_conv seen_drafts_def eligible_claim_def)
  show thesis
    by (rule that [of r]) (use compile_gates(5) [OF assms(3,4,5)] r claim none conflict top cands n in \<open>simp_all add: mapR_def\<close>)
qed

lemma answer_of_resolution_outcome:
  assumes "rs_claim r \<noteq> None \<longleftrightarrow> rs_status r = RESOLVED"
  shows "ca_outcome (answer_of_resolution intent w visible r) =
    (case rs_status r of CONFLICTED \<Rightarrow> AO_CONFLICT | NO_CANDIDATE \<Rightarrow> AO_UNRESOLVED | RESOLVED \<Rightarrow> AO_CURRENT)"
  using assms by (cases "rs_status r") (auto simp: answer_of_resolution_def)

text \<open>C7: The outcome of an answer is decided by the drafts the asker may see and the world the pointer names. For drafts and a
  question with aware stamps an answer is always returned. It is NOT_AUTHORIZED exactly when there is an ACTIVE world and drafts
  but none is visible; STALE exactly when a visible draft was extracted against another world; otherwise
  CONFLICT exactly when two claims of the highest standing differ, CURRENT exactly when there is an eligible claim and all of
  the highest standing agree, and UNRESOLVED in every other case.\<close>

theorem answer_outcome_exact:
  assumes "\<forall>d \<in> set drafts. aware_claim (dc_claim d)" and "is_aware (cc_as_of ctx)"
  shows "\<exists>a. compile_answer zone query drafts registry ctx rules = Inr a
    \<and> (ca_outcome a = AO_NOT_AUTHORIZED \<longleftrightarrow> drafts \<noteq> [] \<and> (\<exists>w. open_world registry w) \<and> seen_drafts ctx drafts = [])
    \<and> (ca_outcome a = AO_STALE \<longleftrightarrow>
        (\<exists>w. open_world registry w \<and> (\<exists>d \<in> set (seen_drafts ctx drafts). dc_world_state_id d \<noteq> wd_world_state_id w)))
    \<and> (ca_outcome a \<in> {AO_CURRENT, AO_CONFLICT} \<longleftrightarrow>
        (\<exists>w. open_world registry w \<and> (\<forall>d \<in> set (seen_drafts ctx drafts). dc_world_state_id d = wd_world_state_id w))
        \<and> (\<exists>d \<in> set drafts. eligible_claim ctx rules (dc_claim d)))
    \<and> (ca_outcome a = AO_CONFLICT \<longleftrightarrow> ca_outcome a \<in> {AO_CURRENT, AO_CONFLICT}
        \<and> (\<exists>c d. top_ranked zone ctx rules (map dc_claim drafts) c
          \<and> top_ranked zone ctx rules (map dc_claim drafts) d \<and> sl_value c \<noteq> sl_value d))"
proof -
  have el: "eligible_claim ctx rules (dc_claim d) \<Longrightarrow> d \<in> set drafts \<Longrightarrow> d \<in> set (seen_drafts ctx drafts)" for d
    by (simp add: eligible_claim_def seen_drafts_def)
  show ?thesis
  proof (cases rule: gate_cases [where drafts = drafts and registry = registry and ctx = ctx])
    case empty
    with compile_gates(1) [OF empty, of zone query registry ctx rules] show ?thesis by (auto simp: seen_drafts_def)
  next
    case closed
    with compile_gates(2) [OF closed] show ?thesis by (auto simp: withheld_def)
  next
    case (hidden w)
    with compile_gates(3) [OF hidden] el show ?thesis by (auto simp: withheld_def)
  next
    case (stale w)
    with compile_gates(4) [OF stale] show ?thesis
      by (auto simp: stale_answer_def Let_def open_world_unique audit_freshness_Nil)
  next
    case (fresh w)
    obtain r where r: "compile_answer zone query drafts registry ctx rules =
        Inr (answer_of_resolution (classify_intent query) w (seen_drafts ctx drafts) r)"
      and claim: "rs_claim r \<noteq> None \<longleftrightarrow> rs_status r = RESOLVED"
      and none: "rs_status r = NO_CANDIDATE \<longleftrightarrow> (\<forall>d \<in> set drafts. \<not> eligible_claim ctx rules (dc_claim d))"
      and conflict: "rs_status r = CONFLICTED \<longleftrightarrow> (\<exists>c d. top_ranked zone ctx rules (map dc_claim drafts) c
          \<and> top_ranked zone ctx rules (map dc_claim drafts) d \<and> sl_value c \<noteq> sl_value d)"
      by (rule resolution_answer [OF assms fresh])
    define contested where "contested \<longleftrightarrow> (\<exists>c d. top_ranked zone ctx rules (map dc_claim drafts) c
          \<and> top_ranked zone ctx rules (map dc_claim drafts) d \<and> sl_value c \<noteq> sl_value d)"
    define candidate where "candidate \<longleftrightarrow> (\<exists>d \<in> set drafts. eligible_claim ctx rules (dc_claim d))"
    have c: "rs_status r = CONFLICTED \<longleftrightarrow> contested" using conflict by (simp only: contested_def)
    have n: "rs_status r = NO_CANDIDATE \<longleftrightarrow> \<not> candidate" using none by (simp add: candidate_def)
    have f: "(\<exists>w. open_world registry w \<and> (\<exists>d \<in> set (seen_drafts ctx drafts). dc_world_state_id d \<noteq> wd_world_state_id w)) = False"
      "(\<exists>w. open_world registry w \<and> (\<forall>d \<in> set (seen_drafts ctx drafts). dc_world_state_id d = wd_world_state_id w)) = True"
      "(seen_drafts ctx drafts = []) = False"
      using fresh by (auto simp: audit_freshness_Nil open_world_unique)
    show ?thesis unfolding r f contested_def [symmetric] candidate_def [symmetric]
      by (cases "rs_status r") (use answer_of_resolution_outcome [OF claim] c n in simp_all)
  qed
qed

theorem answer_outcome_exact_witness:
  "\<exists>a. compile_answer (\<lambda>n. n) ''which one'' [demo_draft ''x'' ''three'' ''w1'' None, demo_draft ''y'' ''four'' ''w1'' None]
       demo_staged demo_context [] = Inr a \<and> ca_outcome a \<in> {AO_CURRENT, AO_CONFLICT}"
proof -
  let ?ds = "[demo_draft ''x'' ''three'' ''w1'' None, demo_draft ''y'' ''four'' ''w1'' None]"
  have a: "\<forall>d \<in> set ?ds. aware_claim (dc_claim d)" "is_aware (cc_as_of demo_context)"
    by (simp_all add: aware_claim_def demo_draft_def demo_claim_def demo_context_def)
  have "current_world demo_staged = Some (the (current_world demo_staged))" "wd_status (the (current_world demo_staged)) = WS_ACTIVE"
    "wd_world_state_id (the (current_world demo_staged)) = ''w1''"
    by code_simp+
  then have w: "open_world demo_staged (the (current_world demo_staged))"
    "\<forall>d \<in> set (seen_drafts demo_context ?ds). dc_world_state_id d = wd_world_state_id (the (current_world demo_staged))"
    by (simp_all add: open_world_def seen_drafts_def demo_draft_def)
  have "\<exists>d \<in> set ?ds. eligible_claim demo_context [] (dc_claim d)"
    by (simp add: eligible_claim_def demo_draft_def demo_claim_def demo_context_def visible_to_def spans_def scope_available_def)
  with answer_outcome_exact [OF a, of "\<lambda>n. n" "''which one''" demo_staged "[]"] w show ?thesis by blast
qed

lemma same_claim_id: "same_claim c d \<Longrightarrow> sl_claim_id c = sl_claim_id d"
  unfolding same_claim_def by (metis scoped_claim.select_convs(1) scoped_claim.surjective scoped_claim.update_convs(6))

lemma answer_of_resolution_cases:
  assumes "rs_claim r \<noteq> None \<longleftrightarrow> rs_status r = RESOLVED"
  shows "rs_status r = NO_CANDIDATE \<Longrightarrow> ca_claim_ids (answer_of_resolution intent w visible r) = []
      \<and> ca_evidence_occurrences (answer_of_resolution intent w visible r) = []"
    and "rs_status r = CONFLICTED \<Longrightarrow> ca_claim_ids (answer_of_resolution intent w visible r) = map sl_claim_id (rs_candidates r)
      \<and> ca_evidence_occurrences (answer_of_resolution intent w visible r) =
          occurrences (filter (\<lambda>d. \<exists>c \<in> set (rs_candidates r). same_claim c (dc_claim d)) visible)"
    and "rs_claim r = Some c \<Longrightarrow> ca_claim_ids (answer_of_resolution intent w visible r) = [sl_claim_id c]
      \<and> ca_evidence_occurrences (answer_of_resolution intent w visible r) =
          occurrences (filter (\<lambda>d. sl_claim_id (dc_claim d) = sl_claim_id c) visible)"
    and "ca_world_state_id (answer_of_resolution intent w visible r) = wd_world_state_id w"
  using assms by (auto simp: answer_of_resolution_def split: option.split)

text \<open>The claims named and the evidence cited come from the drafts, when the verdict's claims do.\<close>

lemma answer_of_resolution_grounded:
  fixes intent w
  assumes claim: "rs_claim r \<noteq> None \<longleftrightarrow> rs_status r = RESOLVED"
    and own: "rs_status r = CONFLICTED \<Longrightarrow> \<forall>c \<in> set (rs_candidates r). c \<in> dc_claim ` set visible"
      "\<forall>c. rs_claim r = Some c \<longrightarrow> c \<in> dc_claim ` set visible"
    and a_def: "a = answer_of_resolution intent w visible r"
  shows "\<forall>i \<in> set (ca_claim_ids a). \<exists>d \<in> set visible. sl_claim_id (dc_claim d) = i"
    and "\<forall>e \<in> set (ca_evidence_occurrences a). eo_claim_id e \<in> set (ca_claim_ids a)
        \<and> (\<exists>d \<in> set visible. sl_claim_id (dc_claim d) = eo_claim_id e \<and> sl_evidence_id (dc_claim d) = Some (eo_evidence_id e))"
    (is "?evidence")
proof -
  note cases = answer_of_resolution_cases [OF claim, where intent = intent and w = w and visible = visible, folded a_def]
  consider "rs_status r = NO_CANDIDATE" | "rs_status r = CONFLICTED" | c where "rs_claim r = Some c"
    using claim by (cases "rs_status r") auto
  then have "(\<forall>i \<in> set (ca_claim_ids a). \<exists>d \<in> set visible. sl_claim_id (dc_claim d) = i) \<and> ?evidence"
  proof cases
    case 1
    with cases(1) show ?thesis by simp
  next
    case 2
    have "eo_claim_id e \<in> sl_claim_id ` set (rs_candidates r)"
      if "d \<in> set visible" "eo_claim_id e = sl_claim_id (dc_claim d)" "c \<in> set (rs_candidates r)" "same_claim c (dc_claim d)" for e d c
      using that(3) that(2) same_claim_id [OF that(4)] by (metis image_eqI)
    with 2 cases(2) own(1) show ?thesis by (fastforce simp: set_occurrences)
  next
    case (3 c)
    with cases(3) [OF 3] own(2) show ?thesis by (auto simp: set_occurrences)
  qed
  then show "\<forall>i \<in> set (ca_claim_ids a). \<exists>d \<in> set visible. sl_claim_id (dc_claim d) = i" and ?evidence by simp_all
qed

lemma top_ranked_own:
  "top_ranked zone ctx rules (map dc_claim drafts) c \<Longrightarrow> c \<in> dc_claim ` set (seen_drafts ctx drafts)"
  by (auto simp: top_ranked_def seen_drafts_def eligible_claim_def)

lemma demo_aware:
  "\<forall>d \<in> set [demo_draft ''x'' ''three'' ''w1'' None]. aware_claim (dc_claim d)" "is_aware (cc_as_of demo_context)"
  by (simp_all add: aware_claim_def demo_draft_def demo_claim_def demo_context_def)

text \<open>C19: What an answer rests on. Every claim an answer names and every piece of evidence it cites comes from a draft that
  the asker may see, the evidence belongs to a claim the answer names, and an answer that names claims is
  about the ACTIVE world the pointer names.\<close>

theorem answer_grounded:
  assumes "\<forall>d \<in> set drafts. aware_claim (dc_claim d)" and "is_aware (cc_as_of ctx)"
    and "compile_answer zone query drafts registry ctx rules = Inr a"
  shows "(\<forall>i \<in> set (ca_claim_ids a). \<exists>d \<in> set (seen_drafts ctx drafts). sl_claim_id (dc_claim d) = i)
    \<and> (\<forall>e \<in> set (ca_evidence_occurrences a). eo_claim_id e \<in> set (ca_claim_ids a)
        \<and> (\<exists>d \<in> set (seen_drafts ctx drafts). sl_claim_id (dc_claim d) = eo_claim_id e \<and> sl_evidence_id (dc_claim d) = Some (eo_evidence_id e)))
    \<and> (ca_claim_ids a \<noteq> [] \<longrightarrow> (\<exists>w. open_world registry w \<and> ca_world_state_id a = wd_world_state_id w))"
proof (cases rule: gate_cases [where drafts = drafts and registry = registry and ctx = ctx])
  case empty
  with compile_gates(1) [OF empty, of zone query registry ctx rules] assms(3) show ?thesis by auto
next
  case closed
  with compile_gates(2) [OF closed] assms(3) show ?thesis by (auto simp: withheld_def)
next
  case (hidden w)
  with compile_gates(3) [OF hidden] assms(3) show ?thesis by (auto simp: withheld_def)
next
  case (stale w)
  have "a = stale_answer (classify_intent query) w (seen_drafts ctx drafts) (audit_freshness (seen_drafts ctx drafts) w)"
    using compile_gates(4) [OF stale, of zone query rules] assms(3) by simp
  then show ?thesis using stale(1)
    by (auto simp: stale_answer_def Let_def audit_freshness_def set_occurrences)
next
  case (fresh w)
  obtain r where r: "compile_answer zone query drafts registry ctx rules =
        Inr (answer_of_resolution (classify_intent query) w (seen_drafts ctx drafts) r)"
    and claim: "rs_claim r \<noteq> None \<longleftrightarrow> rs_status r = RESOLVED"
    and top: "\<forall>c. rs_claim r = Some c \<longrightarrow> top_ranked zone ctx rules (map dc_claim drafts) c"
    and cands: "rs_status r = CONFLICTED \<longrightarrow> set (rs_candidates r) = Collect (top_ranked zone ctx rules (map dc_claim drafts))"
    by (rule resolution_answer [OF assms(1,2) fresh])
  have a: "a = answer_of_resolution (classify_intent query) w (seen_drafts ctx drafts) r" using r assms(3) by simp
  have "\<forall>i \<in> set (ca_claim_ids a). \<exists>d \<in> set (seen_drafts ctx drafts). sl_claim_id (dc_claim d) = i"
    "\<forall>e \<in> set (ca_evidence_occurrences a). eo_claim_id e \<in> set (ca_claim_ids a)
        \<and> (\<exists>d \<in> set (seen_drafts ctx drafts). sl_claim_id (dc_claim d) = eo_claim_id e \<and> sl_evidence_id (dc_claim d) = Some (eo_evidence_id e))"
    by (rule answer_of_resolution_grounded [OF claim _ _ a]; use cands top in \<open>auto intro: top_ranked_own\<close>)+
  moreover have "ca_world_state_id a = wd_world_state_id w" unfolding a by (rule answer_of_resolution_cases(4) [OF claim])
  ultimately show ?thesis using fresh(1) by blast
qed

theorem answer_grounded_witness:
  "\<exists>a. compile_answer (\<lambda>n. n) ''latest'' [demo_draft ''x'' ''three'' ''w1'' None] demo_staged demo_context [] = Inr a
    \<and> (\<forall>e \<in> set (ca_evidence_occurrences a). eo_claim_id e \<in> set (ca_claim_ids a)) \<and> ca_claim_ids a = [''x'']"
proof -
  let ?a = "compile_answer (\<lambda>n. n) ''latest'' [demo_draft ''x'' ''three'' ''w1'' None] demo_staged demo_context []"
  have r: "?a = Inr (projr ?a)" "ca_claim_ids (projr ?a) = [''x'']" by code_simp+
  have "\<forall>e \<in> set (ca_evidence_occurrences (projr ?a)). eo_claim_id e \<in> set (ca_claim_ids (projr ?a))"
    using answer_grounded [OF demo_aware r(1)] by blast
  with r show ?thesis by blast
qed

text \<open>Fact: A CURRENT answer is justified. It names exactly one claim: visible, extracted against the ACTIVE world, eligible
  (valid at the moment, within the scope of the question, not excluded), than which no eligible draft has a higher standing and
  from which no draft of the same standing differs.\<close>

theorem current_answer_justified:
  assumes "\<forall>d \<in> set drafts. aware_claim (dc_claim d)" and "is_aware (cc_as_of ctx)"
    and "compile_answer zone query drafts registry ctx rules = Inr a" and "ca_outcome a = AO_CURRENT"
  shows "\<exists>w d. open_world registry w \<and> d \<in> set drafts \<and> ca_claim_ids a = [sl_claim_id (dc_claim d)]
        \<and> visible_to (dc_claim d) ctx \<and> dc_world_state_id d = wd_world_state_id w
        \<and> top_ranked zone ctx rules (map dc_claim drafts) (dc_claim d)
        \<and> (\<forall>d' \<in> set drafts. top_ranked zone ctx rules (map dc_claim drafts) (dc_claim d') \<longrightarrow> sl_value (dc_claim d') = sl_value (dc_claim d))"
proof (cases rule: gate_cases [where drafts = drafts and registry = registry and ctx = ctx])
  case (fresh w)
  obtain r where r: "compile_answer zone query drafts registry ctx rules =
        Inr (answer_of_resolution (classify_intent query) w (seen_drafts ctx drafts) r)"
    and claim: "rs_claim r \<noteq> None \<longleftrightarrow> rs_status r = RESOLVED"
    and conflict: "rs_status r = CONFLICTED \<longleftrightarrow> (\<exists>c d. top_ranked zone ctx rules (map dc_claim drafts) c
          \<and> top_ranked zone ctx rules (map dc_claim drafts) d \<and> sl_value c \<noteq> sl_value d)"
    and top: "\<forall>c. rs_claim r = Some c \<longrightarrow> top_ranked zone ctx rules (map dc_claim drafts) c"
    by (rule resolution_answer [OF assms(1,2) fresh])
  have a: "a = answer_of_resolution (classify_intent query) w (seen_drafts ctx drafts) r" using r assms(3) by simp
  have res: "rs_status r = RESOLVED"
    using assms(4) unfolding a answer_of_resolution_outcome [OF claim] by (cases "rs_status r") simp_all
  then obtain c where c: "rs_claim r = Some c" using claim by blast
  then obtain d where d: "d \<in> set (seen_drafts ctx drafts)" "dc_claim d = c" using top_ranked_own top by blast
  have "d \<in> set drafts" "visible_to (dc_claim d) ctx" "dc_world_state_id d = wd_world_state_id w"
    using d(1) fresh(3) by (auto simp: seen_drafts_def audit_freshness_Nil)
  moreover have "ca_claim_ids a = [sl_claim_id (dc_claim d)]" unfolding a using answer_of_resolution_cases(3) [OF claim c] d(2) by simp
  moreover have best: "top_ranked zone ctx rules (map dc_claim drafts) (dc_claim d)" using top c d(2) by simp
  moreover have "\<forall>d' \<in> set drafts. top_ranked zone ctx rules (map dc_claim drafts) (dc_claim d') \<longrightarrow> sl_value (dc_claim d') = sl_value (dc_claim d)"
  proof -
    have "\<not> (\<exists>c d. top_ranked zone ctx rules (map dc_claim drafts) c
          \<and> top_ranked zone ctx rules (map dc_claim drafts) d \<and> sl_value c \<noteq> sl_value d)"
      unfolding conflict [symmetric] res by simp
    with best show ?thesis by blast
  qed
  ultimately show ?thesis using fresh(1) by blast
next
  case empty
  with compile_gates(1) [OF empty, of zone query registry ctx rules] assms(3,4) show ?thesis by auto
next
  case closed
  with compile_gates(2) [OF closed] assms(3,4) show ?thesis by (auto simp: withheld_def)
next
  case (hidden w)
  with compile_gates(3) [OF hidden] assms(3,4) show ?thesis by (auto simp: withheld_def)
next
  case (stale w)
  with compile_gates(4) [OF stale] assms(3,4) show ?thesis by (auto simp: stale_answer_def Let_def)
qed

theorem current_answer_justified_witness:
  "\<exists>a. compile_answer (\<lambda>n. n) ''latest'' [demo_draft ''x'' ''three'' ''w1'' None] demo_staged demo_context [] = Inr a
    \<and> ca_outcome a = AO_CURRENT \<and> (\<exists>d :: draft_claim. ca_claim_ids a = [sl_claim_id (dc_claim d)] \<and> visible_to (dc_claim d) demo_context)"
proof -
  let ?a = "compile_answer (\<lambda>n. n) ''latest'' [demo_draft ''x'' ''three'' ''w1'' None] demo_staged demo_context []"
  have r: "?a = Inr (projr ?a)" "ca_outcome (projr ?a) = AO_CURRENT" by code_simp+
  from current_answer_justified [OF demo_aware r] obtain d :: draft_claim
    where "ca_claim_ids (projr ?a) = [sl_claim_id (dc_claim d)]" "visible_to (dc_claim d) demo_context"
    by blast
  with r show ?thesis by blast
qed

section \<open>Answers and publishes\<close>

text \<open>An answer without stale drafts is not STALE.\<close>

lemma fresh_outcome:
  assumes "open_world g w" and "audit_freshness (seen_drafts ctx drafts) w = []"
    and "compile_answer zone query drafts g ctx rules = Inr a"
  shows "ca_outcome a \<noteq> AO_STALE"
proof -
  have n: "ca_outcome (answer_of_resolution intent w visible r) \<noteq> AO_STALE" for intent visible r
    by (simp add: answer_of_resolution_def split: option.split)
  consider "drafts = []" | "drafts \<noteq> []" "seen_drafts ctx drafts = []" | "seen_drafts ctx drafts \<noteq> []" by blast
  then show ?thesis
  proof cases
    case 1
    from compile_gates(1) [OF this, of zone query g ctx rules] assms(3) show ?thesis by auto
  next
    case 2
    from compile_gates(3) [OF 2(1) assms(1) 2(2), of zone query rules] assms(3) show ?thesis by (auto simp: withheld_def)
  next
    case 3
    from compile_gates(5) [OF assms(1) 3 assms(2), of zone query rules] assms(3) n show ?thesis
      by (auto simp: mapR_def split: sum.split_asm)
  qed
qed

text \<open>C21: Answers follow the pointer. In a registry that any calls with non-empty ids have reached, a refused publish changes
  no answer. After a successful one a question is answered STALE, naming the published world, exactly when the asker sees a
  draft extracted against another world (the former current one included): no draft they see is served across a publish
  without being extracted again.\<close>

theorem answers_follow_pointer:
  assumes "list_all staged_ok calls" and "publish q (run_ops world_op calls (new_registry space)) = (r, g')"
  shows "case r of
      Inl e \<Rightarrow> compile_answer zone query drafts g' ctx rules
        = compile_answer zone query drafts (run_ops world_op calls (new_registry space)) ctx rules
    | Inr b \<Rightarrow> (if \<exists>d \<in> set (seen_drafts ctx drafts). dc_world_state_id d \<noteq> pq_world_state_id q
        then \<exists>a. compile_answer zone query drafts g' ctx rules = Inr a \<and> ca_outcome a = AO_STALE
          \<and> ca_world_state_id a = pq_world_state_id q
        else \<nexists>a. compile_answer zone query drafts g' ctx rules = Inr a \<and> ca_outcome a = AO_STALE)"
proof -
  let ?g = "run_ops world_op calls (new_registry space)"
  have ok: "worlds_ok ?g" by (rule worlds_ok_run [OF assms(1) worlds_ok_new])
  show ?thesis
  proof (cases r)
    case (Inl e)
    then have "current_world g' = current_world ?g" using publish_current(1) [OF ok assms(2)] by simp
    with Inl show ?thesis by (simp add: compile_answer_def)
  next
    case (Inr b)
    then have w: "open_world g' (pb_world_state b)" "wd_world_state_id (pb_world_state b) = pq_world_state_id q"
      using publish_current [OF ok assms(2)] by (auto simp: open_world_def)
    have fresh: "audit_freshness (seen_drafts ctx drafts) (pb_world_state b) = []
        \<longleftrightarrow> \<not> (\<exists>d \<in> set (seen_drafts ctx drafts). dc_world_state_id d \<noteq> pq_world_state_id q)"
      by (simp add: audit_freshness_Nil w(2))
    show ?thesis
    proof (cases "\<exists>d \<in> set (seen_drafts ctx drafts). dc_world_state_id d \<noteq> pq_world_state_id q")
      case True
      then have "seen_drafts ctx drafts \<noteq> []" "audit_freshness (seen_drafts ctx drafts) (pb_world_state b) \<noteq> []"
        using fresh by auto
      from compile_gates(4) [OF w(1) this, of zone query rules] Inr w(2) True show ?thesis by (simp add: stale_answer_def Let_def)
    next
      case False
      then have "audit_freshness (seen_drafts ctx drafts) (pb_world_state b) = []" using fresh by simp
      then have "ca_outcome a \<noteq> AO_STALE" if "compile_answer zone query drafts g' ctx rules = Inr a" for a
        by (rule fresh_outcome [OF w(1) _ that])
      with False Inr show ?thesis by auto
    qed
  qed
qed

theorem answers_follow_pointer_witness:
  "\<exists>a. compile_answer (\<lambda>n. n) ''latest'' [demo_draft ''x'' ''three'' ''w1'' None]
      (snd (publish (demo_publish ''w2'') demo_staged)) demo_context [] = Inr a \<and> ca_outcome a = AO_STALE"
proof -
  let ?calls = "[Stage ''w1'' ''c1'' (Aware 1) None, Publish (demo_publish ''w1''), Stage ''w2'' ''c1'' (Aware 2) None]"
  have c: "list_all staged_ok ?calls" by simp
  have r: "fst (publish (demo_publish ''w2'') demo_staged) = Inr (projr (fst (publish (demo_publish ''w2'') demo_staged)))"
    by code_simp
  then obtain b g' where b: "publish (demo_publish ''w2'') demo_staged = (Inr b, g')" by (metis prod.collapse)
  have d: "\<exists>d \<in> set (seen_drafts demo_context [demo_draft ''x'' ''three'' ''w1'' None]). dc_world_state_id d \<noteq> pq_world_state_id (demo_publish ''w2'')"
    by (simp add: seen_drafts_def demo_draft_def demo_claim_def visible_to_def demo_publish_def)
  from answers_follow_pointer [OF c b [unfolded demo_staged_def], where zone = "\<lambda>n. n" and query = "''latest''"
      and drafts = "[demo_draft ''x'' ''three'' ''w1'' None]" and ctx = demo_context and rules = "[]"]
  show ?thesis unfolding b snd_conv sum.case if_P [OF d] by blast
qed

definition foreign_draft :: draft_claim where
  "foreign_draft = (demo_draft ''x'' ''three'' ''w1'' None)
     \<lparr>dc_claim := (dc_claim (demo_draft ''x'' ''three'' ''w1'' None))\<lparr>sl_scope := [(''region'', ''kr'')]\<rparr>\<rparr>"

text \<open>Fact: Evidence is collected by claim id. A CURRENT answer cites the evidence of every visible draft that
  shares the winner's id, also of one that does not apply: here the claim for another region is no candidate, and the answer
  ''five'' cites its evidence for ''three''.\<close>

theorem losing_evidence_cited:
  "\<not> eligible_claim demo_context [] (dc_claim foreign_draft)
   \<and> (\<exists>a. compile_answer (\<lambda>n. n) ''latest'' [foreign_draft, demo_draft ''x'' ''five'' ''w1'' None] demo_staged demo_context [] = Inr a
       \<and> ca_outcome a = AO_CURRENT \<and> map eo_evidence_id (ca_evidence_occurrences a) = [''x-three'', ''x-five''])"
proof -
  let ?a = "compile_answer (\<lambda>n. n) ''latest'' [foreign_draft, demo_draft ''x'' ''five'' ''w1'' None] demo_staged demo_context []"
  have "isl ?a = False" "ca_outcome (projr ?a) = AO_CURRENT"
    "map eo_evidence_id (ca_evidence_occurrences (projr ?a)) = [''x-three'', ''x-five'']"
    by code_simp+
  moreover have "\<not> eligible_claim demo_context [] (dc_claim foreign_draft)"
    by (simp add: eligible_claim_def foreign_draft_def demo_draft_def demo_context_def scope_available_def)
  ultimately show ?thesis by (metis sum.collapse(2))
qed

text \<open>Fact: What is disclosed after all. With drafts the asker may not see the answer says NOT_AUTHORIZED, with none it
  says UNRESOLVED: the asker learns that material exists.\<close>

theorem hidden_drafts_disclosed:
  "\<exists>a b. compile_answer zone query [demo_draft ''secret'' ''nine'' ''w1'' (Some ''legal'')] demo_staged demo_context rules = Inr a
    \<and> compile_answer zone query [] demo_staged demo_context rules = Inr b
    \<and> ca_outcome a = AO_NOT_AUTHORIZED \<and> ca_outcome b = AO_UNRESOLVED"
proof -
  have "current_world demo_staged = Some (the (current_world demo_staged))" "wd_status (the (current_world demo_staged)) = WS_ACTIVE"
    by code_simp+
  then have w: "open_world demo_staged (the (current_world demo_staged))" by (simp add: open_world_def)
  have "seen_drafts demo_context [demo_draft ''secret'' ''nine'' ''w1'' (Some ''legal'')] = []"
    by (simp add: seen_drafts_def demo_draft_def demo_claim_def visible_to_def demo_context_def)
  from compile_gates(3) [OF _ w this, of zone query rules] compile_gates(1) [OF refl, of zone query demo_staged demo_context rules]
  show ?thesis by (auto simp: withheld_def)
qed

end
