(* ===== verification/HashChain.thy ===== *)
theory HashChain
  imports JsonText
begin

text \<open>
  What the two append-only ledgers of the canonical IR share: a text file of lines, each holding one
  record and a digest that covers it and the digest before it. \<open>read_chain\<close> is the loop of
  \<^verbatim>\<open>_read_and_verify\<close>; the locale \<open>chained_log\<close> states what one line must satisfy for the file to read
  back and to be tamper-evident, and \<open>Consumption\<close> and \<open>IdentityLedger\<close> interpret it.
  The decoder \<^verbatim>\<open>json.loads\<close>, \<^verbatim>\<open>str\<close> of a JSON value that is not a string and the two directions of ISO-8601
  are parameters, because a file that was edited may hold any text.
\<close>

section \<open>Parameters and text files\<close>

text \<open>\<open>Local\<close> is a datetime without zone, \<open>Zoned offset i\<close> the instant \<open>i\<close> in a zone with that offset.\<close>

datatype stamp = Local int | Zoned int int

record ledger_env =
  le_base :: renv
  json_loads :: "string \<Rightarrow> jval option"
  py_str :: "jval \<Rightarrow> string"
  iso_utc :: "int \<Rightarrow> string"
  iso_parse :: "string \<Rightarrow> stamp option"

text \<open>The documented behaviour of the parameters: the decoder reads back what the encoder writes (for trees without floats),
  ISO-8601 round-trips, and a digest is 64 hexadecimal digits.\<close>

definition env_ok :: "ledger_env \<Rightarrow> bool" where
  "env_ok L \<longleftrightarrow> (\<forall>j. plain_json j \<longrightarrow> json_loads L (dumps (le_base L) j) = Some (jcanon j))
     \<and> (\<forall>i. iso_parse L (iso_utc L i) = Some (Zoned 0 i))
     \<and> (\<forall>i. CHR 0x85 \<notin> set (iso_utc L i))
     \<and> (\<forall>s. is_sha256 (sha256 (le_base L) s))"

text \<open>\<open>str.splitlines\<close>: besides the line feed it breaks at seven other characters below 256.\<close>

definition is_break :: "char \<Rightarrow> bool" where
  "is_break c \<longleftrightarrow> of_char c \<in> {10, 11, 12, 13, 28, 29, 30, 133 :: nat}"

fun split_lines :: "string \<Rightarrow> string \<Rightarrow> string list" where
  "split_lines acc [] = (if acc = [] then [] else [rev acc])"
| "split_lines acc (c # cs) =
    (if is_break c
     then rev acc # split_lines [] (if of_char c = (13 :: nat) \<and> take 1 cs = [CHR 0x0A] then drop 1 cs else cs)
     else split_lines (c # acc) cs)"

lemma split_lines_line: "\<forall>c \<in> set l. \<not> is_break c \<Longrightarrow> split_lines acc (l @ CHR 0x0A # rest) = (rev acc @ l) # split_lines [] rest"
  by (induction l arbitrary: acc) (simp_all add: is_break_def)

text \<open>The file that a sequence of lines was appended to.\<close>

definition file_of :: "string list \<Rightarrow> string" where
  "file_of ls = concat (map (\<lambda>l. l @ [CHR 0x0A]) ls)"

lemma file_of_simps: "file_of [] = []" "file_of (l # ls) = l @ CHR 0x0A # file_of ls" "file_of (ls @ ls') = file_of ls @ file_of ls'"
  by (simp_all add: file_of_def)

lemma split_file_of: "\<forall>l \<in> set ls. \<forall>c \<in> set l. \<not> is_break c \<Longrightarrow> split_lines [] (file_of ls) = ls"
  by (induction ls) (simp_all add: file_of_simps split_lines_line)

text \<open>Canonical JSON has no line break but one: the next-line character is not escaped.\<close>

lemma esc_char_break: "c' \<in> set (esc_char c) \<Longrightarrow> is_break c' \<Longrightarrow> c = CHR 0x85 \<and> c' = CHR 0x85"
proof -
  assume c': "c' \<in> set (esc_char c)" "is_break c'"
  have hex: "\<not> is_break (hex_digit n)" if "n < 16" for n
    using that by (auto simp: hex_digit_def is_break_def)
  have "\<not> is_break (CHR 0x5C)" "\<not> is_break (CHR 0x22)" "\<not> is_break (CHR ''n'')" "\<not> is_break (CHR ''r'')" "\<not> is_break (CHR ''t'')"
    "\<not> is_break (CHR ''f'')" "\<not> is_break (CHR ''b'')" "\<not> is_break (CHR ''u'')" "\<not> is_break (CHR ''0'')"
    by (simp_all add: is_break_def)
  with c' hex [of "of_char c div 16"] hex [of "of_char c mod 16"] have "c' = c \<and> 32 \<le> (of_char c :: nat)"
    by (auto simp: esc_char_def Let_def split: if_splits)
  then have "c' = c" "of_char c = (133 :: nat)" using c'(2) by (auto simp: is_break_def)
  then have "c' = c" "c = char_of (133 :: nat)" by (simp, metis char_of_char)
  then show ?thesis by (simp add: char_of_def bit_0)
qed

text \<open>Trees whose strings do not contain that character.\<close>

definition clean :: "string \<Rightarrow> bool" where
  "clean s \<longleftrightarrow> CHR 0x85 \<notin> set s"

fun clean_json :: "jval \<Rightarrow> bool" where
  "clean_json (JFloat r) = False"
| "clean_json (JStr s) = clean s"
| "clean_json (JList xs) = list_all clean_json xs"
| "clean_json (JObj kvs) = list_all (\<lambda>p. clean (fst p) \<and> clean_json (snd p)) kvs"
| "clean_json _ = True"

lemma json_str_break: "clean s \<Longrightarrow> c \<in> set (json_str s) \<Longrightarrow> \<not> is_break c"
  using esc_char_break by (auto simp: json_str_def clean_def is_break_def)

lemma set_join_with: "set (join_with sep xs) \<subseteq> set sep \<union> (\<Union>x \<in> set xs. set x)"
  by (induction sep xs rule: join_with.induct) auto

lemma int_str_break: "c \<in> set (int_str i) \<Longrightarrow> \<not> is_break c"
proof -
  have d: "is_digit c \<Longrightarrow> \<not> is_break c" for c by (auto simp: is_digit_def is_break_def)
  assume "c \<in> set (int_str i)"
  then show ?thesis using nat_str_digits d by (auto simp: int_str_def is_break_def split: if_splits)
qed

lemma word_break: "c \<in> set ''null'' \<union> set ''true'' \<union> set ''false'' \<Longrightarrow> \<not> is_break c"
  by (auto simp: is_break_def)

lemma dumps_break: "clean_json j \<Longrightarrow> c \<in> set (dumps E j) \<Longrightarrow> \<not> is_break c"
proof (induction j arbitrary: c rule: clean_json.induct)
  case (3 xs)
  have "\<forall>c \<in> set (join_with '','' (map (dumps E) xs)). \<not> is_break c"
    using set_join_with [of "'',''" "map (dumps E) xs"] 3 by (fastforce simp: list_all_iff is_break_def)
  with 3(3) show ?case by (auto simp: dumps.simps is_break_def)
next
  case (4 kvs)
  let ?t = "map (\<lambda>(k, v). json_str k @ '':'' @ v) (sort_key fst (map (\<lambda>(k, v). (k, dumps E v)) kvs))"
  have m: "\<not> is_break c" if "(k, v) \<in> set kvs" "c \<in> set (json_str k @ '':'' @ dumps E v)" for k v c
    using that 4 json_str_break [of k c] by (fastforce simp: list_all_iff is_break_def)
  then have "\<forall>x \<in> set ?t. \<forall>c \<in> set x. \<not> is_break c" by fastforce
  with set_join_with [of "'',''" ?t] have "\<forall>c \<in> set (join_with '','' ?t). \<not> is_break c" by (fastforce simp: is_break_def)
  with 4(3) show ?case by (auto simp: dumps.simps is_break_def)
qed (use word_break in \<open>auto simp: dumps.simps dest: json_str_break int_str_break split: if_splits\<close>)

text \<open>That character does occur in the text of a tree that is not clean, and it is the only one that breaks a line.\<close>

lemma join_with_set: "x \<in> set xs \<Longrightarrow> set x \<subseteq> set (join_with sep xs)"
  by (induction sep xs rule: join_with.induct) auto

lemma json_str_shows: "c = CHR 0x85 \<Longrightarrow> c \<in> set s \<Longrightarrow> c \<in> set (json_str s)"
proof -
  assume "c = CHR 0x85" and s: "c \<in> set s"
  then have "c \<in> set (esc_char c)" by (simp add: esc_char_def)
  then show ?thesis using s by (auto simp: json_str_def)
qed

lemma dumps_list_shows: "x \<in> set xs \<Longrightarrow> c \<in> set (dumps E x) \<Longrightarrow> c \<in> set (dumps E (JList xs))"
  using join_with_set [of "dumps E x" "map (dumps E) xs"] by (auto simp: dumps.simps)

lemma dumps_obj_shows: "(k, v) \<in> set kvs \<Longrightarrow> c \<in> set (json_str k) \<union> set (dumps E v) \<Longrightarrow> c \<in> set (dumps E (JObj kvs))"
proof -
  let ?t = "map (\<lambda>(k, v). json_str k @ '':'' @ v) (sort_key fst (map (\<lambda>(k, v). (k, dumps E v)) kvs))"
  assume m: "(k, v) \<in> set kvs" and c: "c \<in> set (json_str k) \<union> set (dumps E v)"
  from m have "json_str k @ '':'' @ dumps E v \<in> set ?t" by force
  from join_with_set [OF this, of "'',''"] c have "c \<in> set (join_with '','' ?t)" by auto
  then show ?thesis by (simp add: dumps.simps)
qed

lemma dumps_unclean: "plain_json j \<Longrightarrow> \<not> clean_json j \<Longrightarrow> CHR 0x85 \<in> set (dumps E j)"
proof (induction j rule: clean_json.induct)
  case (2 s)
  then show ?case by (simp add: clean_def dumps.simps json_str_shows)
next
  case (3 xs)
  then obtain x where "x \<in> set xs" "\<not> clean_json x" "plain_json x" by (auto simp: list_all_iff)
  with 3(1) show ?case by (blast intro: dumps_list_shows)
next
  case (4 kvs)
  then obtain k v where kv: "(k, v) \<in> set kvs" "plain_json v" "\<not> clean k \<or> \<not> clean_json v" by (force simp: list_all_iff)
  then have "CHR 0x85 \<in> set (json_str k) \<union> set (dumps E v)" using 4(1) [OF kv(1)] json_str_shows [of "CHR 0x85" k] by (auto simp: clean_def)
  with kv(1) show ?case by (rule dumps_obj_shows)
qed simp_all

lemma dumps_next_line: "plain_json j \<Longrightarrow> c \<in> set (dumps E j) \<Longrightarrow> is_break c \<Longrightarrow> c = CHR 0x85"
proof (induction j arbitrary: c rule: clean_json.induct)
  case (2 s)
  then show ?case using esc_char_break by (auto simp: dumps.simps json_str_def is_break_def)
next
  case (3 xs)
  have "\<forall>c \<in> set (join_with '','' (map (dumps E) xs)). is_break c \<longrightarrow> c = CHR 0x85"
    using set_join_with [of "'',''" "map (dumps E) xs"] 3(1,2) by (fastforce simp: list_all_iff is_break_def)
  with 3(3,4) show ?case by (auto simp: dumps.simps is_break_def)
next
  case (4 kvs)
  let ?t = "map (\<lambda>(k, v). json_str k @ '':'' @ v) (sort_key fst (map (\<lambda>(k, v). (k, dumps E v)) kvs))"
  have s: "c = CHR 0x85" if "c \<in> set (json_str k)" "is_break c" for c k
    using that esc_char_break by (auto simp: json_str_def is_break_def)
  have m: "c = CHR 0x85" if "(k, v) \<in> set kvs" "c \<in> set (json_str k @ '':'' @ dumps E v)" "is_break c" for k v c
    using that 4(1,2) s [of c k] by (fastforce simp: list_all_iff is_break_def)
  then have "\<forall>x \<in> set ?t. \<forall>c \<in> set x. is_break c \<longrightarrow> c = CHR 0x85" by fastforce
  with set_join_with [of "'',''" ?t] have "\<forall>c \<in> set (join_with '','' ?t). is_break c \<longrightarrow> c = CHR 0x85" by (fastforce simp: is_break_def)
  with 4(3,4) show ?case by (auto simp: dumps.simps is_break_def)
qed (use word_break in \<open>auto simp: dumps.simps dest: int_str_break split: if_splits\<close>)

lemma split_lines_count: "CHR 0x0D \<notin> set s \<Longrightarrow> length (filter is_break s) \<le> length (split_lines acc s)"
proof (induction s arbitrary: acc)
  case (Cons c s)
  have "of_char c \<noteq> (13 :: nat)"
  proof
    assume "of_char c = (13 :: nat)"
    then have "char_of (13 :: nat) = c" by (metis char_of_char)
    moreover have "char_of (13 :: nat) = CHR 0x0D" by (simp add: char_of_def bit_0)
    ultimately show False using Cons.prems by simp
  qed
  with Cons show ?case by simp
qed simp

lemma file_of_breaks: "length (filter is_break (file_of ls)) = length ls + sum_list (map (\<lambda>l. length (filter is_break l)) ls)"
  by (induction ls) (simp_all add: file_of_simps is_break_def)

text \<open>A file has more lines than were written to it as soon as one of them holds that character.\<close>

lemma more_lines:
  assumes only: "\<And>l c. l \<in> set ls \<Longrightarrow> c \<in> set l \<Longrightarrow> is_break c \<Longrightarrow> c = CHR 0x85" and l: "l \<in> set ls" "CHR 0x85 \<in> set l"
  shows "length ls < length (split_lines [] (file_of ls))"
proof -
  have "CHR 0x0D \<notin> set (file_of ls)"
  proof
    assume "CHR 0x0D \<in> set (file_of ls)"
    then obtain l where "l \<in> set ls" "CHR 0x0D \<in> set l" by (auto simp: file_of_def split: if_splits)
    from only [OF this] show False by (simp add: is_break_def)
  qed
  from split_lines_count [OF this, of "[]"] file_of_breaks [of ls]
  have "length ls + sum_list (map (\<lambda>l. length (filter is_break l)) ls) \<le> length (split_lines [] (file_of ls))" by simp
  moreover have "0 < length (filter is_break l)"
    using l(2) by (auto simp: filter_empty_conv is_break_def intro!: bexI [of _ "CHR 0x85"])
  then have "0 < sum_list (map (\<lambda>l. length (filter is_break l)) ls)"
    using l(1) by (induction ls) auto
  ultimately show ?thesis by linarith
qed

section \<open>A chain of lines\<close>

text \<open>
  The loop of \<^verbatim>\<open>_read_and_verify\<close>: \<open>rd\<close> reads one line, given the digest of the line before and the number of
  lines read, and returns the record with its digest.
\<close>

fun read_chain :: "(string \<Rightarrow> nat \<Rightarrow> string \<Rightarrow> pyerr + ('r \<times> string)) \<Rightarrow> string \<Rightarrow> nat \<Rightarrow> string list \<Rightarrow> pyerr + ('r \<times> string) list" where
  "read_chain rd previous n [] = Inr []"
| "read_chain rd previous n (l # ls) =
    (case rd previous n l of
      Inl e \<Rightarrow> Inl e
    | Inr (r, digest) \<Rightarrow> mapR (\<lambda>rest. (r, digest) # rest) (read_chain rd digest (Suc n) ls))"

lemma read_chain_length: "read_chain rd d n ls = Inr rs \<Longrightarrow> length rs = length ls"
  by (induction ls arbitrary: d n rs) (auto simp: mapR_def split: sum.splits)

text \<open>What the links of a chain hash: the digest before, the position and the payload.\<close>

fun chain_inputs :: "(string \<Rightarrow> nat \<Rightarrow> 'p \<Rightarrow> string) \<Rightarrow> string \<Rightarrow> nat \<Rightarrow> 'p list \<Rightarrow> (string \<times> nat \<times> 'p) list" where
  "chain_inputs lk previous n [] = []"
| "chain_inputs lk previous n (p # ps) = (previous, n, p) # chain_inputs lk (lk previous n p) (Suc n) ps"

definition chain_head :: "(string \<Rightarrow> nat \<Rightarrow> 'p \<Rightarrow> string) \<Rightarrow> string \<Rightarrow> nat \<Rightarrow> 'p list \<Rightarrow> string" where
  "chain_head lk d n ps = (if ps = [] then d else (\<lambda>(d, n, p). lk d n p) (last (chain_inputs lk d n ps)))"

lemma length_chain_inputs [simp]: "length (chain_inputs lk d n ps) = length ps"
  by (induction ps arbitrary: d n) simp_all

lemma chain_inputs_Nil [simp]: "chain_inputs lk d n ps = [] \<longleftrightarrow> ps = []"
  by (cases ps) simp_all

lemma chain_head_Cons [simp]: "chain_head lk d n (p # ps) = chain_head lk (lk d n p) (Suc n) ps"
  by (cases ps) (simp_all add: chain_head_def)

lemma chain_head_Nil [simp]: "chain_head lk d n [] = d"
  by (simp add: chain_head_def)

lemma chain_inputs_snoc [simp]:
  "chain_inputs lk d n (ps @ [p]) = chain_inputs lk d n ps @ [(chain_head lk d n ps, n + length ps, p)]"
  by (induction ps arbitrary: d n) simp_all

lemma chain_head_snoc [simp]: "chain_head lk d n (ps @ [p]) = lk (chain_head lk d n ps) (n + length ps) p"
  by (induction ps arbitrary: d n) simp_all

lemma map_payload_inputs [simp]: "map (snd \<circ> snd) (chain_inputs lk d n ps) = ps"
  by (induction ps arbitrary: d n) simp_all

lemma chain_inputs_take: "take k (chain_inputs lk d n ps) = chain_inputs lk d n (take k ps)"
  by (induction ps arbitrary: d n k) (auto simp: take_Cons')

text \<open>Two chains with the same head digest are the same, unless two of their links collide.\<close>

lemma same_head_length:
  assumes "inj_on (\<lambda>(d, n, p). lk d n p) (set (chain_inputs lk d n ps) \<union> set (chain_inputs lk d n ps'))"
    and "length ps = length ps'" and "chain_head lk d n ps = chain_head lk d n ps'"
  shows "ps = ps'"
  using assms
proof (induction ps arbitrary: ps' rule: rev_induct)
  case Nil
  then show ?case by simp
next
  case (snoc p ps)
  from snoc.prems(2) obtain q qs where ps': "ps' = qs @ [q]" by (cases ps' rule: rev_cases) auto
  let ?i = "(chain_head lk d n ps, n + length ps, p)" and ?j = "(chain_head lk d n qs, n + length qs, q)"
  have len: "length ps = length qs" using snoc.prems(2) ps' by simp
  have "(\<lambda>(d, n, p). lk d n p) ?i = (\<lambda>(d, n, p). lk d n p) ?j" using snoc.prems(3) ps' by simp
  then have "?i = ?j" using snoc.prems(1) ps' by (elim inj_onD) simp_all
  moreover have "inj_on (\<lambda>(d, n, p). lk d n p) (set (chain_inputs lk d n ps) \<union> set (chain_inputs lk d n qs))"
    using snoc.prems(1) ps' by (auto elim: inj_on_subset)
  ultimately show ?case using snoc.IH [of qs] len ps' by simp
qed

lemma same_head:
  assumes inj: "inj_on (\<lambda>(d, n, p). lk d n p) (set (chain_inputs lk d n ps) \<union> set (chain_inputs lk d n ps'))"
    and ne: "ps \<noteq> []" "ps' \<noteq> []" and head: "chain_head lk d n ps = chain_head lk d n ps'"
  shows "ps = ps'"
proof -
  obtain p qs p' qs' where ps: "ps = qs @ [p]" "ps' = qs' @ [p']" using ne by (metis rev_exhaust)
  let ?i = "(chain_head lk d n qs, n + length qs, p)" and ?j = "(chain_head lk d n qs', n + length qs', p')"
  have "(\<lambda>(d, n, p). lk d n p) ?i = (\<lambda>(d, n, p). lk d n p) ?j" using head ps by simp
  then have "?i = ?j" using inj ps by (elim inj_onD) simp_all
  with ps have "length ps = length ps'" by simp
  from same_head_length [OF inj this head] show ?thesis .
qed

text \<open>
  The contract of one line: \<open>wr\<close> writes it, \<open>lk\<close> is its digest, \<open>mk\<close> the record read from it, \<open>ok\<close> the payloads that are
  written, \<open>good\<close> the digests that occur, \<open>pos\<close> what is known of a payload read at a position; \<open>env\<close> is the documented
  behaviour of the parameters.
\<close>

locale chained_log =
  fixes env :: bool
    and rd :: "string \<Rightarrow> nat \<Rightarrow> string \<Rightarrow> pyerr + ('r \<times> string)"
    and wr :: "string \<Rightarrow> nat \<Rightarrow> 'p \<Rightarrow> string"
    and lk :: "string \<Rightarrow> nat \<Rightarrow> 'p \<Rightarrow> string"
    and mk :: "string \<Rightarrow> nat \<Rightarrow> 'p \<Rightarrow> 'r"
    and ok :: "nat \<Rightarrow> 'p \<Rightarrow> bool"
    and good :: "string \<Rightarrow> bool"
    and pos :: "nat \<Rightarrow> 'p \<Rightarrow> bool"
  assumes reads: "env \<Longrightarrow> good d \<Longrightarrow> ok n p \<Longrightarrow> rd d n (wr d n p) = Inr (mk d n p, lk d n p)"
    and unbroken: "env \<Longrightarrow> good d \<Longrightarrow> ok n p \<Longrightarrow> c \<in> set (wr d n p) \<Longrightarrow> \<not> is_break c"
    and links: "env \<Longrightarrow> good (lk d n p)"
    and sound: "rd d n l = Inr (r, d') \<Longrightarrow> \<exists>p. pos n p \<and> r = mk d n p \<and> d' = lk d n p"
begin

lemma written_good: "env \<Longrightarrow> good d \<Longrightarrow> (d', n', p) \<in> set (chain_inputs lk d n ps) \<Longrightarrow> good d'"
  by (induction ps arbitrary: d n) (auto intro: links)

lemma head_good: "env \<Longrightarrow> good d \<Longrightarrow> good (chain_head lk d n ps)"
  by (induction ps arbitrary: d n) (auto intro: links)

text \<open>A file written by appends reads back, record for record.\<close>

lemma read_written:
  "env \<Longrightarrow> good d \<Longrightarrow> \<forall>(d, n, p) \<in> set (chain_inputs lk d n ps). ok n p \<Longrightarrow>
    read_chain rd d n (map (\<lambda>(d, n, p). wr d n p) (chain_inputs lk d n ps)) =
      Inr (map (\<lambda>(d, n, p). (mk d n p, lk d n p)) (chain_inputs lk d n ps))"
  by (induction ps arbitrary: d n) (simp_all add: reads links mapR_simps)

lemma split_written:
  assumes "env" and "good d" and ok: "\<forall>(d, n, p) \<in> set (chain_inputs lk d n ps). ok n p"
  shows "split_lines [] (file_of (map (\<lambda>(d, n, p). wr d n p) (chain_inputs lk d n ps))) = map (\<lambda>(d, n, p). wr d n p) (chain_inputs lk d n ps)"
proof (intro split_file_of ballI)
  fix l c assume "l \<in> set (map (\<lambda>(d, n, p). wr d n p) (chain_inputs lk d n ps))" and c: "c \<in> set l"
  then obtain d' n' p where i: "(d', n', p) \<in> set (chain_inputs lk d n ps)" and l: "l = wr d' n' p" by auto
  from i ok have "ok n' p" by auto
  with c l show "\<not> is_break c" using unbroken [OF assms(1) written_good [OF assms(1,2) i]] by blast
qed

text \<open>Whatever a file holds, what is read from it is a chain.\<close>

lemma read_sound:
  "read_chain rd d n ls = Inr rs \<Longrightarrow>
    \<exists>ps. rs = map (\<lambda>(d, n, p). (mk d n p, lk d n p)) (chain_inputs lk d n ps)
      \<and> list_all (\<lambda>(d, n, p). pos n p) (chain_inputs lk d n ps)"
proof (induction ls arbitrary: d n rs)
  case Nil
  then show ?case by (intro exI [of _ "[]"]) simp
next
  case (Cons l ls)
  then obtain r d' rest where l: "rd d n l = Inr (r, d')" and rest: "read_chain rd d' (Suc n) ls = Inr rest"
    and rs: "rs = (r, d') # rest"
    by (auto simp: mapR_def split: sum.splits)
  obtain p where "pos n p" "r = mk d n p" "d' = lk d n p" using sound [OF l] by blast
  moreover obtain ps where "rest = map (\<lambda>(d, n, p). (mk d n p, lk d n p)) (chain_inputs lk d' (Suc n) ps)"
    "list_all (\<lambda>(d, n, p). pos n p) (chain_inputs lk d' (Suc n) ps)"
    using Cons.IH [OF rest] by blast
  ultimately show ?case using rs by (intro exI [of _ "p # ps"]) simp
qed

text \<open>Tamper evidence: two texts that read, end in the same digest and hide no collision hold the same records.\<close>

lemma same_records:
  assumes read: "read_chain rd d n ls = Inr rs" "read_chain rd d n ls' = Inr rs'"
    and ne: "rs \<noteq> []" "rs' \<noteq> []" and head: "snd (last rs) = snd (last rs')"
    and inj: "\<And>ps ps'. rs = map (\<lambda>(d, n, p). (mk d n p, lk d n p)) (chain_inputs lk d n ps) \<Longrightarrow>
       rs' = map (\<lambda>(d, n, p). (mk d n p, lk d n p)) (chain_inputs lk d n ps') \<Longrightarrow>
       list_all (\<lambda>(d, n, p). pos n p) (chain_inputs lk d n ps) \<Longrightarrow> list_all (\<lambda>(d, n, p). pos n p) (chain_inputs lk d n ps') \<Longrightarrow>
       inj_on (\<lambda>(d, n, p). lk d n p) (set (chain_inputs lk d n ps) \<union> set (chain_inputs lk d n ps'))"
  shows "rs = rs'"
proof -
  obtain ps where rs: "rs = map (\<lambda>(d, n, p). (mk d n p, lk d n p)) (chain_inputs lk d n ps)"
    and ps: "list_all (\<lambda>(d, n, p). pos n p) (chain_inputs lk d n ps)" using read_sound [OF read(1)] by blast
  obtain ps' where rs': "rs' = map (\<lambda>(d, n, p). (mk d n p, lk d n p)) (chain_inputs lk d n ps')"
    and ps': "list_all (\<lambda>(d, n, p). pos n p) (chain_inputs lk d n ps')" using read_sound [OF read(2)] by blast
  have e: "snd (last (map (\<lambda>(d, n, p). (mk d n p, lk d n p)) (chain_inputs lk d n qs))) = chain_head lk d n qs" if "qs \<noteq> []" for qs
    using that by (simp add: chain_head_def last_map case_prod_beta')
  have nn: "ps \<noteq> []" "ps' \<noteq> []" using ne rs rs' by auto
  then have "chain_head lk d n ps = chain_head lk d n ps'" using head e [of ps] e [of ps'] unfolding rs rs' by simp
  from same_head [OF inj [OF rs rs' ps ps'] nn this] show ?thesis using rs rs' by simp
qed

end

section \<open>Decoded objects\<close>

text \<open>\<open>payload.get(key)\<close> of a decoded object.\<close>

definition get_key :: "(string \<times> jval) list \<Rightarrow> string \<Rightarrow> jval" where
  "get_key kvs k = (case map_of kvs k of None \<Rightarrow> JNull | Some v \<Rightarrow> v)"

text \<open>Reading back an object does not change what its keys name.\<close>

definition canon_members :: "(string \<times> jval) list \<Rightarrow> (string \<times> jval) list" where
  "canon_members kvs = sort_key fst (map (\<lambda>(k, v). (k, jcanon v)) kvs)"

lemma jcanon_obj: "jcanon (JObj kvs) = JObj (canon_members kvs)"
  by (simp add: canon_members_def)

lemma canon_members_keys [simp]: "fst ` set (canon_members kvs) = fst ` set kvs"
  by (simp add: canon_members_def image_image case_prod_beta')

lemma map_of_canon:
  assumes "distinct (map fst kvs)"
  shows "map_of (canon_members kvs) k = map_option jcanon (map_of kvs k)"
proof -
  let ?m = "map (\<lambda>(k, v). (k, jcanon v)) kvs"
  have d: "distinct (map fst ?m)" using assms by (simp add: comp_def case_prod_beta')
  have "mset (map fst (sort_key fst ?m)) = mset (map fst ?m)" by (simp only: mset_map mset_sort)
  from mset_eq_imp_distinct_iff [OF this] d have "distinct (map fst (sort_key fst ?m))" by blast
  then have "map_of (sort_key fst ?m) = map_of ?m" using d by (subst map_of_inject_set) simp_all
  then show ?thesis unfolding canon_members_def by (simp add: map_of_map)
qed

lemma get_key_canon:
  assumes "distinct (map fst kvs)"
  shows "get_key (canon_members kvs) k = jcanon (get_key kvs k)"
  unfolding get_key_def map_of_canon [OF assms] by (simp split: option.split)

lemma dropWhile_none: "xs = [] \<or> \<not> P (hd xs) \<Longrightarrow> dropWhile P xs = xs"
  by (cases xs) auto

lemma strip_id: "s \<noteq> [] \<Longrightarrow> \<not> is_space (hd s) \<Longrightarrow> \<not> is_space (last s) \<Longrightarrow> strip s = s"
  by (simp add: strip_def dropWhile_none hd_rev)

lemma strip_idem [simp]: "strip (strip s) = strip s"
proof (cases "strip s = []")
  case False
  let ?t = "dropWhile is_space s"
  have u: "rev (strip s) = dropWhile is_space (rev ?t)" by (simp add: strip_def)
  have last: "\<not> is_space (last (strip s))"
    using False u hd_dropWhile [of is_space "rev ?t"] by (metis hd_rev rev_is_Nil_conv)
  obtain v where v: "?t = strip s @ v"
    using u takeWhile_dropWhile_id [of is_space "rev ?t"] by (metis rev_append rev_rev_ident)
  then have "\<not> is_space (hd (strip s))"
    using False hd_dropWhile [of is_space s] by (metis append_is_Nil_conv hd_append2)
  with last show ?thesis using False by (intro strip_id)
next
  case True
  show ?thesis unfolding True by (simp add: strip_def)
qed

lemma dumps_obj_strip [simp]: "strip (dumps E (JObj kvs)) = dumps E (JObj kvs)"
  by (rule strip_id) (simp_all add: dumps.simps is_space_def)

text \<open>A string that survives \<^verbatim>\<open>_require_str\<close> unchanged.\<close>

definition trimmed :: "string \<Rightarrow> bool" where
  "trimmed s \<longleftrightarrow> s \<noteq> [] \<and> strip s = s"

definition genesis_digest :: string where
  "genesis_digest = replicate 64 (CHR ''0'')"

lemma replicate_sha: "n = 64 \<Longrightarrow> z \<in> set ''0123456789abcdef'' \<Longrightarrow> is_sha256 (replicate n z)"
  unfolding is_sha256_def by (metis in_set_replicate length_replicate)

lemma genesis_sha [simp]: "is_sha256 genesis_digest"
  unfolding genesis_digest_def by (rule replicate_sha) (rule refl, simp)

lemma sha_clean: "is_sha256 s \<Longrightarrow> clean s"
proof -
  have "CHR 0x85 \<notin> set ''0123456789abcdef''" by simp
  then show "is_sha256 s \<Longrightarrow> clean s" unfolding is_sha256_def clean_def by blast
qed

end
