(* ===== verification/Consumption.thy ===== *)
theory Consumption
  imports HashChain
begin

text \<open>
  \<^verbatim>\<open>packages/cir-python/src/akc_cir/consumption_receipt.py\<close>: the receipt of what an answer consumed, and the append-only
  ledger of receipts. A constructor argument is a JSON value, because \<^verbatim>\<open>from_payload\<close> hands the constructor
  whatever a line of the file held; the file is its text, absent before the first append. Writing to the file is taken to succeed.
\<close>

section \<open>Receipts\<close>

datatype consumer_type = CT_MCP | CT_API | CT_ASK | CT_TEST

fun consumer_type_value :: "consumer_type \<Rightarrow> string" where
  "consumer_type_value CT_MCP = ''mcp''"
| "consumer_type_value CT_API = ''api''"
| "consumer_type_value CT_ASK = ''ask''"
| "consumer_type_value CT_TEST = ''test''"

datatype consumption_outcome = CO_CURRENT | CO_STALE | CO_CONFLICT | CO_UNRESOLVED | CO_NOT_AUTHORIZED

fun consumption_outcome_value :: "consumption_outcome \<Rightarrow> string" where
  "consumption_outcome_value CO_CURRENT = ''CURRENT''"
| "consumption_outcome_value CO_STALE = ''STALE''"
| "consumption_outcome_value CO_CONFLICT = ''CONFLICT''"
| "consumption_outcome_value CO_UNRESOLVED = ''UNRESOLVED''"
| "consumption_outcome_value CO_NOT_AUTHORIZED = ''NOT_AUTHORIZED''"

text \<open>\<open>E(value)\<close> for an enumeration of strings.\<close>

definition enum_of :: "('e \<Rightarrow> string) \<Rightarrow> 'e list \<Rightarrow> jval \<Rightarrow> 'e option" where
  "enum_of text_of members v = (case v of JStr s \<Rightarrow> List.find (\<lambda>m. text_of m = s) members | _ \<Rightarrow> None)"

definition consumer_type_of :: "jval \<Rightarrow> consumer_type option" where
  "consumer_type_of = enum_of consumer_type_value [CT_MCP, CT_API, CT_ASK, CT_TEST]"

definition consumption_outcome_of :: "jval \<Rightarrow> consumption_outcome option" where
  "consumption_outcome_of = enum_of consumption_outcome_value [CO_CURRENT, CO_STALE, CO_CONFLICT, CO_UNRESOLVED, CO_NOT_AUTHORIZED]"

definition require_utc :: "string \<Rightarrow> stamp \<Rightarrow> pyerr + int" where
  "require_utc name t = (case t of
     Local n \<Rightarrow> Inl (ValueError (name @ '' must be timezone-aware''))
   | Zoned offset i \<Rightarrow> if offset \<noteq> 0 then Inl (ValueError (name @ '' must be UTC'')) else Inr i)"

definition require_str :: "string \<Rightarrow> jval \<Rightarrow> pyerr + string" where
  "require_str name v = (case v of
     JStr s \<Rightarrow> (let t = strip s in if t = [] then Inl (ValueError (name @ '' is required'')) else Inr t)
   | _ \<Rightarrow> Inl (ValueError (name @ '' must be a string'')))"

definition require_str_tuple :: "string \<Rightarrow> jval list \<Rightarrow> pyerr + string list" where
  "require_str_tuple name vs = mapE (require_str (name @ '' member'')) vs"

record receipt_args =
  ra_receipt_id :: jval
  ra_consumer_type :: jval
  ra_consumer_id :: jval
  ra_request_id :: jval
  ra_query_tool :: jval
  ra_requested_at :: stamp
  ra_world_state_id :: jval
  ra_claim_ids :: "jval list"
  ra_evidence_ids :: "jval list"
  ra_permission_snapshot_ref :: jval
  ra_policy_revision :: jval
  ra_outcome :: jval
  ra_response_artifact_hash :: jval
  ra_model_identity :: jval

record consumption_receipt =
  cr_receipt_id :: string
  cr_consumer_type :: consumer_type
  cr_consumer_id :: string
  cr_request_id :: string
  cr_query_tool :: string
  cr_requested_at :: int
  cr_world_state_id :: string
  cr_claim_ids :: "string list"
  cr_evidence_ids :: "string list"
  cr_permission_snapshot_ref :: string
  cr_policy_revision :: string
  cr_outcome :: consumption_outcome
  cr_response_artifact_hash :: string
  cr_model_identity :: "string option"

definition mk_receipt :: "receipt_args \<Rightarrow> pyerr + consumption_receipt" where
  "mk_receipt a =
    bindR (require_str ''receipt_id'' (ra_receipt_id a)) (\<lambda>receipt_id.
    bindR (case consumer_type_of (ra_consumer_type a) of None \<Rightarrow> Inl (ValueError ''consumer_type'') | Some c \<Rightarrow> Inr c) (\<lambda>consumer_type.
    bindR (require_str ''consumer_id'' (ra_consumer_id a)) (\<lambda>consumer_id.
    bindR (require_str ''request_id'' (ra_request_id a)) (\<lambda>request_id.
    bindR (require_str ''query_tool'' (ra_query_tool a)) (\<lambda>query_tool.
    bindR (require_utc ''requested_at'' (ra_requested_at a)) (\<lambda>requested_at.
    bindR (require_str ''world_state_id'' (ra_world_state_id a)) (\<lambda>world_state_id.
    bindR (require_str_tuple ''claim_ids'' (ra_claim_ids a)) (\<lambda>claim_ids.
    bindR (require_str_tuple ''evidence_ids'' (ra_evidence_ids a)) (\<lambda>evidence_ids.
    bindR (require_str ''permission_snapshot_ref'' (ra_permission_snapshot_ref a)) (\<lambda>permission_snapshot_ref.
    bindR (require_str ''policy_revision'' (ra_policy_revision a)) (\<lambda>policy_revision.
    bindR (case consumption_outcome_of (ra_outcome a) of None \<Rightarrow> Inl (ValueError ''unknown consumption outcome'') | Some x \<Rightarrow> Inr x) (\<lambda>result.
    bindR (require_str ''response_artifact_hash'' (ra_response_artifact_hash a)) (\<lambda>response_artifact_hash.
    bindR (if ra_model_identity a = JNull then Inr None else mapR Some (require_str ''model_identity'' (ra_model_identity a))) (\<lambda>model_identity.
      Inr \<lparr>cr_receipt_id = receipt_id, cr_consumer_type = consumer_type, cr_consumer_id = consumer_id, cr_request_id = request_id,
        cr_query_tool = query_tool, cr_requested_at = requested_at, cr_world_state_id = world_state_id, cr_claim_ids = claim_ids,
        cr_evidence_ids = evidence_ids, cr_permission_snapshot_ref = permission_snapshot_ref, cr_policy_revision = policy_revision,
        cr_outcome = result, cr_response_artifact_hash = response_artifact_hash, cr_model_identity = model_identity\<rparr>))))))))))))))"

definition receipt_members :: "ledger_env \<Rightarrow> consumption_receipt \<Rightarrow> (string \<times> jval) list" where
  "receipt_members L r =
    [(''receipt_id'', JStr (cr_receipt_id r)),
     (''consumer_type'', JStr (consumer_type_value (cr_consumer_type r))),
     (''consumer_id'', JStr (cr_consumer_id r)),
     (''request_id'', JStr (cr_request_id r)),
     (''query_tool'', JStr (cr_query_tool r)),
     (''requested_at'', JStr (iso_utc L (cr_requested_at r))),
     (''world_state_id'', JStr (cr_world_state_id r)),
     (''claim_ids'', JList (map JStr (cr_claim_ids r))),
     (''evidence_ids'', JList (map JStr (cr_evidence_ids r))),
     (''permission_snapshot_ref'', JStr (cr_permission_snapshot_ref r)),
     (''policy_revision'', JStr (cr_policy_revision r)),
     (''outcome'', JStr (consumption_outcome_value (cr_outcome r))),
     (''response_artifact_hash'', JStr (cr_response_artifact_hash r)),
     (''model_identity'', jopt (cr_model_identity r))]"

definition receipt_payload :: "ledger_env \<Rightarrow> consumption_receipt \<Rightarrow> jval" where
  "receipt_payload L r = JObj (receipt_members L r)"

definition receipt_keys :: "string list" where
  "receipt_keys = [''receipt_id'', ''consumer_type'', ''consumer_id'', ''request_id'', ''query_tool'', ''requested_at'', ''world_state_id'',
     ''claim_ids'', ''evidence_ids'', ''permission_snapshot_ref'', ''policy_revision'', ''outcome'', ''response_artifact_hash'', ''model_identity'']"

definition json_list :: "string \<Rightarrow> jval \<Rightarrow> pyerr + jval list" where
  "json_list name v = (case v of JList vs \<Rightarrow> Inr vs | _ \<Rightarrow> Inl (ValueError (name @ '' must be a JSON array'')))"

definition json_stamp :: "ledger_env \<Rightarrow> string \<Rightarrow> jval \<Rightarrow> pyerr + stamp" where
  "json_stamp L name v = (case v of
     JStr s \<Rightarrow> (case iso_parse L s of None \<Rightarrow> Inl (ValueError (name @ '' is not ISO-8601'')) | Some t \<Rightarrow> Inr t)
   | _ \<Rightarrow> Inl (ValueError (name @ '' must be an ISO-8601 string'')))"

definition receipt_from_payload :: "ledger_env \<Rightarrow> jval \<Rightarrow> pyerr + consumption_receipt" where
  "receipt_from_payload L v = (case v of
     JObj kvs \<Rightarrow>
       (if fst ` set kvs \<noteq> set receipt_keys then Inl (ValueError ''receipt shape mismatch'')
        else
          bindR (json_stamp L ''requested_at'' (get_key kvs ''requested_at'')) (\<lambda>requested_at.
          bindR (json_list ''claim_ids'' (get_key kvs ''claim_ids'')) (\<lambda>claim_ids.
          bindR (json_list ''evidence_ids'' (get_key kvs ''evidence_ids'')) (\<lambda>evidence_ids.
          bindR (case get_key kvs ''model_identity'' of
            JNull \<Rightarrow> Inr () | JStr s \<Rightarrow> Inr () | _ \<Rightarrow> Inl (ValueError ''model_identity must be a string or null''))
            (\<lambda>_.
            mk_receipt \<lparr>ra_receipt_id = get_key kvs ''receipt_id'', ra_consumer_type = get_key kvs ''consumer_type'',
              ra_consumer_id = get_key kvs ''consumer_id'', ra_request_id = get_key kvs ''request_id'',
              ra_query_tool = get_key kvs ''query_tool'', ra_requested_at = requested_at,
              ra_world_state_id = get_key kvs ''world_state_id'', ra_claim_ids = claim_ids, ra_evidence_ids = evidence_ids,
              ra_permission_snapshot_ref = get_key kvs ''permission_snapshot_ref'', ra_policy_revision = get_key kvs ''policy_revision'',
              ra_outcome = get_key kvs ''outcome'', ra_response_artifact_hash = get_key kvs ''response_artifact_hash'',
              ra_model_identity = get_key kvs ''model_identity''\<rparr>)))))
   | _ \<Rightarrow> Inl (ValueError ''a receipt must be a JSON object''))"

definition receipt_mint :: "ledger_env \<Rightarrow> consumption_receipt \<Rightarrow> string" where
  "receipt_mint L r = sha256 (le_base L) (dumps (le_base L) (receipt_payload L r))"

section \<open>The ledger\<close>

record recorded_receipt =
  rd_seq :: int
  rd_prev_digest :: string
  rd_digest :: string
  rd_receipt :: consumption_receipt

definition link_text :: "string \<Rightarrow> int \<Rightarrow> string \<Rightarrow> string" where
  "link_text prev seq minted = join_with [CHR 0x1E] [prev, int_str seq, minted]"

definition link_digest :: "ledger_env \<Rightarrow> string \<Rightarrow> int \<Rightarrow> string \<Rightarrow> string" where
  "link_digest L prev seq minted = sha256 (le_base L) (link_text prev seq minted)"

text \<open>One line of \<^verbatim>\<open>_read_and_verify\<close>, after \<open>n\<close> records.\<close>

definition read_receipt_line :: "ledger_env \<Rightarrow> string \<Rightarrow> nat \<Rightarrow> string \<Rightarrow> pyerr + (recorded_receipt \<times> string)" where
  "read_receipt_line L previous n raw =
    (if strip raw = [] then Inl (LedgerTampered None ''blank line'')
     else case json_loads L (strip raw) of
       None \<Rightarrow> Inl (LedgerTampered None ''not valid JSON'')
     | Some (JObj kvs) \<Rightarrow>
       (case get_key kvs ''digest'' of
         JStr digest \<Rightarrow>
           (if digest = [] then Inl (LedgerTampered None ''carries no digest'')
            else (case get_key kvs ''seq'' of
              JInt seq \<Rightarrow>
                (case receipt_from_payload L (get_key kvs ''receipt'') of
                  Inl e \<Rightarrow> Inl (LedgerTampered (Some seq) ''not a receipt'')
                | Inr r \<Rightarrow>
                  (let prev = (case get_key kvs ''prev_digest'' of JStr s \<Rightarrow> s | v \<Rightarrow> py_str L v) in
                   if link_digest L prev seq (receipt_mint L r) \<noteq> digest
                   then Inl (LedgerTampered (Some seq) ''edited or replaced'')
                   else if get_key kvs ''prev_digest'' \<noteq> JStr previous then Inl (LedgerTampered (Some seq) ''broken chain'')
                   else if seq \<noteq> int n + 1 then Inl (LedgerTampered (Some seq) ''gap, reuse, or reorder'')
                   else Inr (\<lparr>rd_seq = seq, rd_prev_digest = prev, rd_digest = digest, rd_receipt = r\<rparr>, digest)))
            | _ \<Rightarrow> Inl (LedgerTampered None ''no usable seq'')))
       | _ \<Rightarrow> Inl (LedgerTampered None ''carries no digest''))
     | Some _ \<Rightarrow> Inl (LedgerTampered None ''not a JSON object''))"

definition read_ledger :: "ledger_env \<Rightarrow> string \<Rightarrow> pyerr + recorded_receipt list" where
  "read_ledger L text_of = mapR (map fst) (read_chain (read_receipt_line L) genesis_digest 0 (split_lines [] text_of))"

record consumption_ledger =
  cl_file :: "string option"
  cl_records :: "recorded_receipt list"

definition open_ledger :: "ledger_env \<Rightarrow> string option \<Rightarrow> pyerr + consumption_ledger" where
  "open_ledger L file = (case file of
     None \<Rightarrow> Inr \<lparr>cl_file = None, cl_records = []\<rparr>
   | Some t \<Rightarrow> mapR (\<lambda>rs. \<lparr>cl_file = Some t, cl_records = rs\<rparr>) (read_ledger L t))"

definition last_digest :: "consumption_ledger \<Rightarrow> string" where
  "last_digest g = (if cl_records g = [] then genesis_digest else rd_digest (last (cl_records g)))"

definition next_seq :: "consumption_ledger \<Rightarrow> int" where
  "next_seq g = int (length (cl_records g)) + 1"

definition record_json :: "ledger_env \<Rightarrow> recorded_receipt \<Rightarrow> jval" where
  "record_json L r = JObj [(''seq'', JInt (rd_seq r)), (''prev_digest'', JStr (rd_prev_digest r)),
     (''digest'', JStr (rd_digest r)), (''receipt'', receipt_payload L (rd_receipt r))]"

text \<open>Opening for append creates the file.\<close>

definition append_text :: "string \<Rightarrow> string option \<Rightarrow> string option" where
  "append_text l file = Some ((case file of None \<Rightarrow> [] | Some t \<Rightarrow> t) @ l @ [CHR 0x0A])"

definition sealed :: "ledger_env \<Rightarrow> string \<Rightarrow> nat \<Rightarrow> consumption_receipt \<Rightarrow> recorded_receipt" where
  "sealed L prev n r = \<lparr>rd_seq = int n + 1, rd_prev_digest = prev,
     rd_digest = link_digest L prev (int n + 1) (receipt_mint L r), rd_receipt = r\<rparr>"

definition append_receipt ::
  "ledger_env \<Rightarrow> consumption_receipt \<Rightarrow> consumption_ledger \<Rightarrow> (consumption_ledger, recorded_receipt) outcome" where
  "append_receipt L r g =
    (let rec = sealed L (last_digest g) (length (cl_records g)) r
     in (Inr rec, g\<lparr>cl_file := append_text (dumps (le_base L) (record_json L rec)) (cl_file g), cl_records := cl_records g @ [rec]\<rparr>))"

definition verify_ledger :: "ledger_env \<Rightarrow> consumption_ledger \<Rightarrow> pyerr + unit" where
  "verify_ledger L g = (case cl_file g of
     None \<Rightarrow> Inl (OSError ''FileNotFoundError'')
   | Some t \<Rightarrow> bindR (read_ledger L t) (\<lambda>records.
       if length records \<noteq> length (cl_records g) then Inl (LedgerTampered None ''records removed or added outside this handle'')
       else (case List.find (\<lambda>(x, y). x \<noteq> y) (zip records (cl_records g)) of
         Some (x, y) \<Rightarrow> Inl (LedgerTampered (Some (rd_seq x)) ''differs from the record this handle appended'')
       | None \<Rightarrow> Inr ())))"

definition claims_before_stale :: "jval \<Rightarrow> stamp \<Rightarrow> consumption_ledger \<Rightarrow> pyerr + consumption_receipt list" where
  "claims_before_stale claim_id moment g =
    bindR (require_str ''claim_id'' claim_id) (\<lambda>_.
    bindR (require_utc ''as_of'' moment) (\<lambda>t.
      Inr (filter (\<lambda>r. claim_id \<in> JStr ` set (cr_claim_ids r) \<and> cr_requested_at r \<le> t) (map rd_receipt (cl_records g)))))"

definition world_consumers :: "jval \<Rightarrow> consumption_ledger \<Rightarrow> pyerr + consumption_receipt list" where
  "world_consumers world_state_id g =
    bindR (require_str ''world_state_id'' world_state_id) (\<lambda>_.
      Inr (filter (\<lambda>r. JStr (cr_world_state_id r) = world_state_id) (map rd_receipt (cl_records g))))"

text \<open>A consumption: the receipt is built and sealed.\<close>

definition consume :: "ledger_env \<Rightarrow> receipt_args \<Rightarrow> consumption_ledger \<Rightarrow> (consumption_ledger, recorded_receipt) outcome" where
  "consume L a g = (case mk_receipt a of Inl e \<Rightarrow> (Inl e, g) | Inr r \<Rightarrow> append_receipt L r g)"

definition fresh_ledger :: consumption_ledger where
  "fresh_ledger = \<lparr>cl_file = None, cl_records = []\<rparr>"

section \<open>Receipts read back\<close>

definition receipt_strings :: "consumption_receipt \<Rightarrow> string list" where
  "receipt_strings r = [cr_receipt_id r, cr_consumer_id r, cr_request_id r, cr_query_tool r, cr_world_state_id r,
     cr_permission_snapshot_ref r, cr_policy_revision r, cr_response_artifact_hash r]
     @ cr_claim_ids r @ cr_evidence_ids r @ (case cr_model_identity r of None \<Rightarrow> [] | Some m \<Rightarrow> [m])"

definition receipt_ok :: "consumption_receipt \<Rightarrow> bool" where
  "receipt_ok r \<longleftrightarrow> list_all trimmed (receipt_strings r)"

text \<open>No string of the receipt contains the next-line character.\<close>

definition clean_receipt :: "consumption_receipt \<Rightarrow> bool" where
  "clean_receipt r \<longleftrightarrow> list_all clean (receipt_strings r)"

lemma require_str_Inr: "require_str name v = Inr s \<Longrightarrow> trimmed s"
  by (auto simp: require_str_def trimmed_def Let_def split: jval.splits if_splits)

lemma require_str_trimmed [simp]: "trimmed s \<Longrightarrow> require_str name (JStr s) = Inr s"
  by (simp add: require_str_def trimmed_def)

lemma require_tuple_Inr: "require_str_tuple name vs = Inr ss \<Longrightarrow> list_all trimmed ss"
proof -
  have "mapE (require_str n) vs = Inr ss \<Longrightarrow> list_all trimmed ss" for n
    by (induction vs arbitrary: ss) (auto split: sum.splits dest: require_str_Inr)
  then show "require_str_tuple name vs = Inr ss \<Longrightarrow> list_all trimmed ss" by (simp add: require_str_tuple_def)
qed

lemma require_tuple_trimmed [simp]: "list_all trimmed ss \<Longrightarrow> require_str_tuple name (map JStr ss) = Inr ss"
  unfolding require_str_tuple_def by (induction ss) simp_all

lemma mk_receipt_ok: "mk_receipt a = Inr r \<Longrightarrow> receipt_ok r"
proof -
  have model: "trimmed m" if "(if v = JNull then Inr None else mapR Some (require_str n v)) = Inr (Some m)" for v n m
    using that by (auto simp: mapR_def split: if_splits sum.splits dest: require_str_Inr)
  assume "mk_receipt a = Inr r"
  then show "receipt_ok r"
    unfolding mk_receipt_def bindR_Inr_iff
    by (auto simp: receipt_ok_def receipt_strings_def dest!: require_str_Inr require_tuple_Inr model split: option.splits)
qed

lemma enum_values [simp]:
  "consumer_type_of (JStr (consumer_type_value c)) = Some c"
  "consumption_outcome_of (JStr (consumption_outcome_value x)) = Some x"
  by (cases c; simp add: consumer_type_of_def enum_of_def) (cases x; simp add: consumption_outcome_of_def enum_of_def)

lemma receipt_members_distinct [simp]: "distinct (map fst (receipt_members L r))"
  by (simp add: receipt_members_def)

lemma receipt_members_keys: "fst ` set (receipt_members L r) = set receipt_keys"
  by (simp add: receipt_members_def receipt_keys_def insert_commute)

lemma receipt_get [simp]:
  "get_key (receipt_members L r) ''receipt_id'' = JStr (cr_receipt_id r)"
  "get_key (receipt_members L r) ''consumer_type'' = JStr (consumer_type_value (cr_consumer_type r))"
  "get_key (receipt_members L r) ''consumer_id'' = JStr (cr_consumer_id r)"
  "get_key (receipt_members L r) ''request_id'' = JStr (cr_request_id r)"
  "get_key (receipt_members L r) ''query_tool'' = JStr (cr_query_tool r)"
  "get_key (receipt_members L r) ''requested_at'' = JStr (iso_utc L (cr_requested_at r))"
  "get_key (receipt_members L r) ''world_state_id'' = JStr (cr_world_state_id r)"
  "get_key (receipt_members L r) ''claim_ids'' = JList (map JStr (cr_claim_ids r))"
  "get_key (receipt_members L r) ''evidence_ids'' = JList (map JStr (cr_evidence_ids r))"
  "get_key (receipt_members L r) ''permission_snapshot_ref'' = JStr (cr_permission_snapshot_ref r)"
  "get_key (receipt_members L r) ''policy_revision'' = JStr (cr_policy_revision r)"
  "get_key (receipt_members L r) ''outcome'' = JStr (consumption_outcome_value (cr_outcome r))"
  "get_key (receipt_members L r) ''response_artifact_hash'' = JStr (cr_response_artifact_hash r)"
  "get_key (receipt_members L r) ''model_identity'' = jopt (cr_model_identity r)"
  by (simp_all add: get_key_def receipt_members_def)

lemma jcanon_strs [simp]: "map (jcanon \<circ> JStr) ss = map JStr ss"
  by simp

lemma jcanon_jopt [simp]: "jcanon (jopt x) = jopt x"
  by (simp add: jopt_def split: option.split)

lemma receipt_payload_plain [simp]: "plain_json (receipt_payload L r)"
  by (simp add: receipt_payload_def receipt_members_def jopt_def list_all_iff split: option.split)

lemma receipt_reads_back:
  assumes "env_ok L" and "receipt_ok r"
  shows "receipt_from_payload L (jcanon (receipt_payload L r)) = Inr r"
proof -
  have strings: "trimmed (cr_receipt_id r)" "trimmed (cr_consumer_id r)" "trimmed (cr_request_id r)" "trimmed (cr_query_tool r)"
    "trimmed (cr_world_state_id r)" "trimmed (cr_permission_snapshot_ref r)" "trimmed (cr_policy_revision r)"
    "trimmed (cr_response_artifact_hash r)" "list_all trimmed (cr_claim_ids r)" "list_all trimmed (cr_evidence_ids r)"
    and model: "\<And>m. cr_model_identity r = Some m \<Longrightarrow> trimmed m"
    using assms(2) by (auto simp: receipt_ok_def receipt_strings_def)
  have iso: "iso_parse L (iso_utc L i) = Some (Zoned 0 i)" for i using assms(1) by (simp add: env_ok_def)
  show ?thesis
    unfolding receipt_payload_def jcanon_obj receipt_from_payload_def jval.case canon_members_keys receipt_members_keys
    using strings model
    by (cases "cr_model_identity r")
      (simp_all add: get_key_canon json_stamp_def json_list_def mk_receipt_def require_utc_def iso jopt_def mapR_simps)
qed


lemma from_payload_ok: "receipt_from_payload L v = Inr r \<Longrightarrow> receipt_ok r"
  unfolding receipt_from_payload_def
  by (cases v) (simp_all add: bindR_Inr_iff split: if_splits, blast dest: mk_receipt_ok)

section \<open>The chain of receipts\<close>

text \<open>The line and the digest of the receipt \<open>r\<close> appended after \<open>n\<close> records, the last with digest \<open>d\<close>.\<close>

definition receipt_line :: "ledger_env \<Rightarrow> string \<Rightarrow> nat \<Rightarrow> consumption_receipt \<Rightarrow> string" where
  "receipt_line L d n r = dumps (le_base L) (record_json L (sealed L d n r))"

definition receipt_link :: "ledger_env \<Rightarrow> string \<Rightarrow> nat \<Rightarrow> consumption_receipt \<Rightarrow> string" where
  "receipt_link L d n r = link_digest L d (int n + 1) (receipt_mint L r)"

lemma sealed_simps [simp]:
  "rd_seq (sealed L d n r) = int n + 1" "rd_prev_digest (sealed L d n r) = d"
  "rd_digest (sealed L d n r) = receipt_link L d n r" "rd_receipt (sealed L d n r) = r"
  by (simp_all add: sealed_def receipt_link_def)

lemma env_sha: "env_ok L \<Longrightarrow> is_sha256 (sha256 (le_base L) s)"
  by (simp add: env_ok_def)

lemma sha_nonempty: "is_sha256 s \<Longrightarrow> s \<noteq> []"
  unfolding is_sha256_def by (metis list.size(3) zero_neq_numeral)

lemma link_sha: "env_ok L \<Longrightarrow> is_sha256 (receipt_link L d n r)"
  by (simp add: receipt_link_def link_digest_def env_sha)

lemma record_plain [simp]: "plain_json (record_json L x)"
  by (simp add: record_json_def)

lemma receipt_line_read:
  assumes "env_ok L" and "receipt_ok r"
  shows "read_receipt_line L d n (receipt_line L d n r) = Inr (sealed L d n r, receipt_link L d n r)"
proof -
  let ?j = "record_json L (sealed L d n r)"
  obtain ms where ms: "?j = JObj ms" and dist: "distinct (map fst ms)"
    and get: "get_key ms ''seq'' = JInt (int n + 1)" "get_key ms ''prev_digest'' = JStr d"
      "get_key ms ''digest'' = JStr (receipt_link L d n r)" "get_key ms ''receipt'' = receipt_payload L r"
    by (simp add: record_json_def get_key_def)
  have load: "json_loads L (receipt_line L d n r) = Some (JObj (canon_members ms))"
    using assms(1) record_plain [of L "sealed L d n r"] unfolding receipt_line_def env_ok_def ms jcanon_obj [symmetric] by blast
  have s: "strip (receipt_line L d n r) = receipt_line L d n r" "receipt_line L d n r \<noteq> []"
    unfolding receipt_line_def ms by (simp, simp add: dumps.simps)
  have link: "link_digest L d (int n + 1) (receipt_mint L r) = receipt_link L d n r" by (simp add: receipt_link_def)
  show ?thesis
    unfolding read_receipt_line_def s load
    using s(2) sha_nonempty [OF link_sha [OF assms(1), of d n r]]
    by (simp add: get_key_canon [OF dist] get receipt_reads_back [OF assms] link Let_def sealed_def)
qed

lemma receipt_line_unbroken:
  assumes "env_ok L" and "is_sha256 d" and "clean_receipt r" and "c \<in> set (receipt_line L d n r)"
  shows "\<not> is_break c"
proof -
  have "clean (iso_utc L i)" for i using assms(1) by (simp add: env_ok_def clean_def)
  moreover have "clean (consumer_type_value x)" for x by (cases x) (simp_all add: clean_def)
  moreover have "clean (consumption_outcome_value x)" for x by (cases x) (simp_all add: clean_def)
  ultimately have "clean_json (receipt_payload L r)"
    using assms(3) by (auto simp: receipt_payload_def receipt_members_def clean_receipt_def receipt_strings_def list_all_iff jopt_def
        split: option.split) (simp_all add: clean_def)
  then have "clean_json (record_json L (sealed L d n r))"
    using sha_clean [OF assms(2)] sha_clean [OF link_sha [OF assms(1), of d n r]] by (simp add: record_json_def) (simp add: clean_def)
  from dumps_break [OF this] show ?thesis using assms(4) by (simp add: receipt_line_def)
qed

lemma receipt_line_sound:
  assumes "read_receipt_line L d n l = Inr (x, d')"
  shows "\<exists>r. receipt_ok r \<and> x = sealed L d n r \<and> d' = receipt_link L d n r"
  using assms unfolding read_receipt_line_def
  by (auto simp: Let_def sealed_def receipt_link_def dest: from_payload_ok split: if_splits option.splits jval.splits sum.splits)

interpretation receipts: chained_log "env_ok L" "read_receipt_line L" "receipt_line L" "receipt_link L" "sealed L"
  "\<lambda>n r. receipt_ok r \<and> clean_receipt r" is_sha256 "\<lambda>n r. receipt_ok r" for L
  by unfold_locales (use receipt_line_read receipt_line_unbroken link_sha receipt_line_sound in blast)+


section \<open>What a ledger holds\<close>

definition receipt_chain :: "ledger_env \<Rightarrow> consumption_receipt list \<Rightarrow> (string \<times> nat \<times> consumption_receipt) list" where
  "receipt_chain L rs = chain_inputs (receipt_link L) genesis_digest 0 rs"

definition ledger_lines :: "ledger_env \<Rightarrow> consumption_receipt list \<Rightarrow> string list" where
  "ledger_lines L rs = map (\<lambda>(d, n, r). receipt_line L d n r) (receipt_chain L rs)"

definition ledger_records :: "ledger_env \<Rightarrow> consumption_receipt list \<Rightarrow> recorded_receipt list" where
  "ledger_records L rs = map (\<lambda>(d, n, r). sealed L d n r) (receipt_chain L rs)"

definition ledger_holds :: "ledger_env \<Rightarrow> consumption_ledger \<Rightarrow> consumption_receipt list \<Rightarrow> bool" where
  "ledger_holds L g rs \<longleftrightarrow> cl_records g = ledger_records L rs
     \<and> cl_file g = (if rs = [] then None else Some (file_of (ledger_lines L rs)))"

definition accepted_receipts :: "receipt_args list \<Rightarrow> consumption_receipt list" where
  "accepted_receipts cs = concat (map (\<lambda>a. case mk_receipt a of Inl e \<Rightarrow> [] | Inr r \<Rightarrow> [r]) cs)"

lemma ledger_lists [simp]:
  "ledger_lines L [] = []" "ledger_records L [] = []" "length (ledger_records L rs) = length rs" "length (ledger_lines L rs) = length rs"
  "ledger_lines L (rs @ [r]) = ledger_lines L rs @ [receipt_line L (chain_head (receipt_link L) genesis_digest 0 rs) (length rs) r]"
  "ledger_records L (rs @ [r]) = ledger_records L rs @ [sealed L (chain_head (receipt_link L) genesis_digest 0 rs) (length rs) r]"
  by (simp_all add: ledger_lines_def ledger_records_def receipt_chain_def)

lemma ledger_take: "take k (ledger_lines L rs) = ledger_lines L (take k rs)" "take k (ledger_records L rs) = ledger_records L (take k rs)"
  by (simp_all add: ledger_lines_def ledger_records_def receipt_chain_def take_map chain_inputs_take)

lemma ledger_head: "ledger_holds L g rs \<Longrightarrow> last_digest g = chain_head (receipt_link L) genesis_digest 0 rs"
  by (cases rs rule: rev_cases) (simp_all add: ledger_holds_def last_digest_def)

lemma ledger_holds_fresh: "ledger_holds L fresh_ledger []"
  by (simp add: ledger_holds_def fresh_ledger_def)

lemma ledger_holds_append: "ledger_holds L g rs \<Longrightarrow> ledger_holds L (snd (append_receipt L r g)) (rs @ [r])"
  using ledger_head [of L g rs]
  by (auto simp: ledger_holds_def append_receipt_def Let_def append_text_def file_of_simps receipt_line_def)

lemma accepted_simps [simp]:
  "accepted_receipts [] = []" "accepted_receipts (cs @ ds) = accepted_receipts cs @ accepted_receipts ds"
  "accepted_receipts [a] = (case mk_receipt a of Inl e \<Rightarrow> [] | Inr r \<Rightarrow> [r])"
  by (simp_all add: accepted_receipts_def)

lemma accepted_ok: "r \<in> set (accepted_receipts cs) \<Longrightarrow> receipt_ok r"
  by (auto simp: accepted_receipts_def dest: mk_receipt_ok [OF sym] split: sum.splits)

lemma ledger_holds_run: "ledger_holds L (run_ops (consume L) cs fresh_ledger) (accepted_receipts cs)"
proof (induction cs rule: rev_induct)
  case Nil
  show ?case by (simp add: ledger_holds_fresh)
next
  case (snoc a cs)
  then show ?case
    using ledger_holds_append [OF snoc] by (cases "mk_receipt a") (simp_all add: run_ops_append consume_def)
qed

text \<open>Any prefix of the lines that clean receipts produced opens.\<close>

lemma written_reads:
  assumes "env_ok L" and ok: "\<forall>r \<in> set rs. receipt_ok r \<and> clean_receipt r"
  shows "split_lines [] (file_of (ledger_lines L rs)) = ledger_lines L rs"
    and "read_ledger L (file_of (ledger_lines L rs)) = Inr (ledger_records L rs)"
proof -
  have "r \<in> set rs" if "(d, n, r) \<in> set (chain_inputs (receipt_link L) genesis_digest 0 rs)" for d n r
  proof -
    have "(snd \<circ> snd) (d, n, r) \<in> set (map (snd \<circ> snd) (chain_inputs (receipt_link L) genesis_digest 0 rs))"
      using that by (metis image_eqI set_map)
    then show ?thesis unfolding map_payload_inputs by simp
  qed
  with ok have g: "\<forall>(d, n, r) \<in> set (chain_inputs (receipt_link L) genesis_digest 0 rs). receipt_ok r \<and> clean_receipt r" by fast
  show s: "split_lines [] (file_of (ledger_lines L rs)) = ledger_lines L rs"
    using receipts.split_written [OF assms(1) genesis_sha g] by (simp add: ledger_lines_def receipt_chain_def)
  show "read_ledger L (file_of (ledger_lines L rs)) = Inr (ledger_records L rs)"
    unfolding read_ledger_def s unfolding ledger_lines_def receipt_chain_def receipts.read_written [OF assms(1) genesis_sha g]
    by (simp add: mapR_simps ledger_records_def receipt_chain_def comp_def case_prod_beta')
qed

text \<open>The texts a ledger hashes: of each record its link and its receipt.\<close>

definition hashed_texts :: "ledger_env \<Rightarrow> consumption_ledger \<Rightarrow> string set" where
  "hashed_texts L g = (\<Union>x \<in> set (cl_records g).
     {link_text (rd_prev_digest x) (rd_seq x) (receipt_mint L (rd_receipt x)), dumps (le_base L) (receipt_payload L (rd_receipt x))})"

lemma int_str_inj: "int_str i = int_str j \<Longrightarrow> i = j"
  using loads_dumps [of "JInt i" demo_renv] loads_dumps [of "JInt j" demo_renv] by (simp add: dumps.simps)

lemma split_at_separator: "c \<notin> set a \<Longrightarrow> c \<notin> set a' \<Longrightarrow> a @ c # b = a' @ c # b' \<Longrightarrow> a = a' \<and> b = b'"
proof (induction a arbitrary: a')
  case Nil
  then show ?case by (cases a') simp_all
next
  case (Cons x a)
  from Cons.prems(3) show ?case
  proof (cases a')
    case Nil
    with Cons.prems show ?thesis by simp
  next
    case (Cons y ys)
    with Cons.prems Cons.IH [of ys] show ?thesis by simp
  qed
qed

lemma sha_no_separator: "is_sha256 d \<Longrightarrow> CHR 0x1E \<notin> set d"
proof -
  have "CHR 0x1E \<notin> set ''0123456789abcdef''" by simp
  then show "is_sha256 d \<Longrightarrow> CHR 0x1E \<notin> set d" unfolding is_sha256_def by blast
qed

lemma link_text_inj:
  assumes "is_sha256 d" and "is_sha256 d'" and "link_text d i m = link_text d' i' m'"
  shows "d = d' \<and> i = i' \<and> m = m'"
proof -
  have d: "CHR 0x1E \<notin> set d" "CHR 0x1E \<notin> set d'" using assms(1,2) sha_no_separator by blast+
  have i: "CHR 0x1E \<notin> set (int_str k)" for k using int_str_break [of "CHR 0x1E" k] by (auto simp: is_break_def)
  have "d = d' \<and> int_str i @ CHR 0x1E # m = int_str i' @ CHR 0x1E # m'"
    using assms(3) by (intro split_at_separator [OF d]) (simp add: link_text_def)
  moreover from this have "int_str i = int_str i' \<and> m = m'" by (intro split_at_separator [OF i i]) simp
  ultimately show ?thesis using int_str_inj by blast
qed

lemma payload_text_inj:
  assumes "env_ok L" and "receipt_ok r" and "receipt_ok r'"
    and "dumps (le_base L) (receipt_payload L r) = dumps (le_base L) (receipt_payload L r')"
  shows "r = r'"
proof -
  have "jcanon (receipt_payload L r) = jcanon (receipt_payload L r')"
    using loads_dumps [OF receipt_payload_plain [of L r], of "le_base L"] loads_dumps [OF receipt_payload_plain [of L r'], of "le_base L"]
    unfolding assms(4) by (metis option.inject)
  from arg_cong [OF this, of "receipt_from_payload L"] show ?thesis
    unfolding receipt_reads_back [OF assms(1,2)] receipt_reads_back [OF assms(1,3)] by blast
qed

section \<open>Properties\<close>

text \<open>A concrete environment: the decoder is \<open>loads\<close>, a stamp is written as its number, and the digest tells objects from links.\<close>

definition demo_digest :: "string \<Rightarrow> string" where
  "demo_digest s = replicate 64 (if take 1 s = ''{'' then CHR ''a'' else CHR ''b'')"

definition demo_iso_parse :: "string \<Rightarrow> stamp option" where
  "demo_iso_parse s = (case loads s of Some (JInt i) \<Rightarrow> Some (Zoned 0 i) | _ \<Rightarrow> None)"

definition demo_ledger_env :: ledger_env where
  "demo_ledger_env = \<lparr>le_base = \<lparr>sha256 = demo_digest, float_repr = \<lambda>r. ''0.0'', isoformat = int_str\<rparr>, json_loads = loads,
     py_str = \<lambda>v. ''None'', iso_utc = int_str, iso_parse = demo_iso_parse\<rparr>"

lemma demo_digest_sha: "is_sha256 (demo_digest s)"
  unfolding demo_digest_def by (rule replicate_sha) (rule refl, simp)

lemma demo_env_ok: "env_ok demo_ledger_env"
proof -
  have p: "demo_iso_parse (int_str i) = Some (Zoned 0 i)" for i
    using loads_dumps [of "JInt i" demo_renv] by (simp add: demo_iso_parse_def dumps.simps)
  have b: "CHR 0x85 \<notin> set (int_str i)" for i using int_str_break [of "CHR 0x85" i] by (auto simp: is_break_def)
  show ?thesis unfolding env_ok_def demo_ledger_env_def using p b by (simp add: loads_dumps demo_digest_sha)
qed

definition demo_receipt_args :: "string \<Rightarrow> int \<Rightarrow> receipt_args" where
  "demo_receipt_args i t = \<lparr>ra_receipt_id = JStr i, ra_consumer_type = JStr ''mcp'', ra_consumer_id = JStr ''c1'', ra_request_id = JStr ''q1'',
     ra_query_tool = JStr ''ask'', ra_requested_at = Zoned 0 t, ra_world_state_id = JStr ''w1'', ra_claim_ids = [JStr ''k1''],
     ra_evidence_ids = [], ra_permission_snapshot_ref = JStr ''p1'', ra_policy_revision = JStr ''v1'', ra_outcome = JStr ''CURRENT'',
     ra_response_artifact_hash = JStr ''h1'', ra_model_identity = JNull\<rparr>"

definition demo_receipt :: "string \<Rightarrow> int \<Rightarrow> consumption_receipt" where
  "demo_receipt i t = \<lparr>cr_receipt_id = i, cr_consumer_type = CT_MCP, cr_consumer_id = ''c1'', cr_request_id = ''q1'',
     cr_query_tool = ''ask'', cr_requested_at = t, cr_world_state_id = ''w1'', cr_claim_ids = [''k1''], cr_evidence_ids = [],
     cr_permission_snapshot_ref = ''p1'', cr_policy_revision = ''v1'', cr_outcome = CO_CURRENT, cr_response_artifact_hash = ''h1'',
     cr_model_identity = None\<rparr>"

lemma demo_receipt_built: "trimmed i \<Longrightarrow> mk_receipt (demo_receipt_args i t) = Inr (demo_receipt i t)"
  by (simp add: mk_receipt_def demo_receipt_args_def demo_receipt_def require_str_def trimmed_def require_str_tuple_def require_utc_def
      consumer_type_of_def consumption_outcome_of_def enum_of_def strip_def is_space_def)

lemma demo_receipt_clean: "clean i \<Longrightarrow> clean_receipt (demo_receipt i t)"
  by (simp add: clean_receipt_def receipt_strings_def demo_receipt_def) (simp add: clean_def)

lemma ledger_last_digest: "last (genesis_digest # map rd_digest (ledger_records L rs)) = chain_head (receipt_link L) genesis_digest 0 rs"
  by (cases rs rule: rev_cases) simp_all

lemma ledger_numbered: "map rd_seq (ledger_records L rs) = map int [1..<Suc (length rs)]"
  by (induction rs rule: rev_induct) simp_all

lemma ledger_linked: "map rd_prev_digest (ledger_records L rs) = butlast (genesis_digest # map rd_digest (ledger_records L rs))"
proof (induction rs rule: rev_induct)
  case (snoc r rs)
  have "butlast (xs @ [x]) = xs" "xs \<noteq> [] \<Longrightarrow> xs = butlast xs @ [last xs]" for xs :: "string list" and x by simp_all
  from this(1) [of "genesis_digest # map rd_digest (ledger_records L rs)"] this(2) [of "genesis_digest # map rd_digest (ledger_records L rs)"]
  show ?case using snoc ledger_last_digest [of L rs] by (simp del: butlast.simps last.simps)
qed simp

lemma ledger_receipts: "map rd_receipt (ledger_records L rs) = rs"
  by (induction rs rule: rev_induct) simp_all

lemma ledger_holds_verify:
  assumes "env_ok L" and "\<forall>r \<in> set rs. receipt_ok r \<and> clean_receipt r" and "ledger_holds L g rs"
  shows "open_ledger L (cl_file g) = Inr g" and "rs \<noteq> [] \<Longrightarrow> verify_ledger L g = Inr ()"
proof -
  have find: "List.find (\<lambda>(x, y). x \<noteq> y) (zip xs xs) = None" for xs :: "recorded_receipt list"
    by (auto simp: find_None_iff in_set_zip)
  show "open_ledger L (cl_file g) = Inr g"
    using assms(3) by (simp add: open_ledger_def ledger_holds_def written_reads [OF assms(1,2)] mapR_simps)
  show "rs \<noteq> [] \<Longrightarrow> verify_ledger L g = Inr ()"
    using assms(3) by (simp add: verify_ledger_def ledger_holds_def written_reads [OF assms(1,2)] find)
qed

lemma receipt_links_inj:
  assumes env: "env_ok L" and inj: "inj_on (sha256 (le_base L)) T"
    and A: "\<And>d n r. (d, n, r) \<in> A \<Longrightarrow> link_text d (int n + 1) (receipt_mint L r) \<in> T"
      "\<And>d n r. (d, n, r) \<in> A \<Longrightarrow> dumps (le_base L) (receipt_payload L r) \<in> T"
      "\<And>d n r. (d, n, r) \<in> A \<Longrightarrow> is_sha256 d" "\<And>d n r. (d, n, r) \<in> A \<Longrightarrow> receipt_ok r"
  shows "inj_on (\<lambda>(d, n, r). receipt_link L d n r) A"
proof (rule inj_onI)
  fix p q assume pq: "p \<in> A" "q \<in> A" "(\<lambda>(d, n, r). receipt_link L d n r) p = (\<lambda>(d, n, r). receipt_link L d n r) q"
  obtain d n r d' n' r' where p: "p = (d, n, r)" "q = (d', n', r')" by (metis surj_pair)
  with pq have i: "(d, n, r) \<in> A" "(d', n', r') \<in> A" and eq: "receipt_link L d n r = receipt_link L d' n' r'" by simp_all
  from eq have "link_text d (int n + 1) (receipt_mint L r) = link_text d' (int n' + 1) (receipt_mint L r')"
    unfolding receipt_link_def link_digest_def by (rule inj_onD [OF inj _ A(1) [OF i(1)] A(1) [OF i(2)]])
  from link_text_inj [OF A(3) [OF i(1)] A(3) [OF i(2)] this]
  have dn: "d = d'" "n = n'" and mint: "receipt_mint L r = receipt_mint L r'" by simp_all
  from mint have "dumps (le_base L) (receipt_payload L r) = dumps (le_base L) (receipt_payload L r')"
    unfolding receipt_mint_def by (rule inj_onD [OF inj _ A(2) [OF i(1)] A(2) [OF i(2)]])
  from payload_text_inj [OF env A(4) [OF i(1)] A(4) [OF i(2)] this] dn show "p = q" by (simp add: p)
qed

lemma unclean_line:
  assumes "env_ok L" and "\<not> clean_receipt r"
  shows "CHR 0x85 \<in> set (receipt_line L d n r)"
proof -
  have "\<not> clean_json (record_json L (sealed L d n r))"
    using assms(2) by (auto simp: record_json_def receipt_payload_def receipt_members_def clean_receipt_def receipt_strings_def
        list_all_iff jopt_def split: option.splits)
  from dumps_unclean [OF record_plain this] show ?thesis by (simp add: receipt_line_def)
qed

lemma ledger_lines_mem: "l \<in> set (ledger_lines L rs) \<Longrightarrow> \<exists>d n r. l = receipt_line L d n r"
  by (auto simp: ledger_lines_def)

lemma ledger_lines_all: "r \<in> set rs \<Longrightarrow> \<exists>d n. receipt_line L d n r \<in> set (ledger_lines L rs)"
  by (induction rs rule: rev_induct) auto

lemma unclean_unread:
  assumes "env_ok L" and "r \<in> set rs" and "\<not> clean_receipt r"
  shows "read_ledger L (file_of (ledger_lines L rs)) = Inr xs \<Longrightarrow> length rs < length xs"
proof -
  obtain d n where l: "receipt_line L d n r \<in> set (ledger_lines L rs)" using ledger_lines_all [OF assms(2)] by blast
  have "length (ledger_lines L rs) < length (split_lines [] (file_of (ledger_lines L rs)))"
  proof (rule more_lines [OF _ l unclean_line [OF assms(1,3)]])
    fix l c assume "l \<in> set (ledger_lines L rs)" and c: "c \<in> set l" "is_break c"
    then obtain d n r where "l = receipt_line L d n r" using ledger_lines_mem by blast
    with c show "c = CHR 0x85" using dumps_next_line [OF record_plain] unfolding receipt_line_def by blast
  qed
  then show "read_ledger L (file_of (ledger_lines L rs)) = Inr xs \<Longrightarrow> length rs < length xs"
    by (auto simp: read_ledger_def mapR_def dest: read_chain_length split: sum.splits)
qed

lemma ledger_unclean:
  assumes "env_ok L" and h: "ledger_holds L g rs" and r: "r \<in> set rs" "\<not> clean_receipt r"
  shows "open_ledger L (cl_file g) \<noteq> Inr g" and "verify_ledger L g \<noteq> Inr ()"
proof -
  have f: "cl_file g = Some (file_of (ledger_lines L rs))" using h r(1) by (auto simp: ledger_holds_def)
  have c: "cl_records g = ledger_records L rs" using h by (simp add: ledger_holds_def)
  from unclean_unread [OF assms(1) r]
  show "open_ledger L (cl_file g) \<noteq> Inr g" "verify_ledger L g \<noteq> Inr ()"
    unfolding open_ledger_def verify_ledger_def f
    by (auto simp: mapR_def bindR_Inr_iff c dest!: arg_cong [of _ _ cl_records] split: sum.splits)
qed

text \<open>C12: when consumptions are durable. Whatever consumptions were recorded, the records are the accepted receipts in order, numbered
  from 1 without a gap and chained by their digests from the genesis digest; and the file they left behind opens to the very ledger that wrote it,
  respectively passes \<open>verify\<close>, if and only if no accepted receipt contains the next-line character U+0085. The strings are those of the
  model, texts of code points below 256: beyond them the program has two more such characters, U+2028 and U+2029, which no string here holds.\<close>

theorem consumption_ledger_reopens:
  assumes "env_ok L"
  shows "let g = run_ops (consume L) cs fresh_ledger; durable = (\<forall>r \<in> set (accepted_receipts cs). clean_receipt r) in
    map rd_receipt (cl_records g) = accepted_receipts cs
    \<and> map rd_seq (cl_records g) = map int [1..<Suc (length (accepted_receipts cs))]
    \<and> map rd_prev_digest (cl_records g) = butlast (genesis_digest # map rd_digest (cl_records g))
    \<and> (open_ledger L (cl_file g) = Inr g \<longleftrightarrow> durable)
    \<and> (accepted_receipts cs \<noteq> [] \<longrightarrow> (verify_ledger L g = Inr () \<longleftrightarrow> durable))"
proof -
  let ?g = "run_ops (consume L) cs fresh_ledger" and ?rs = "accepted_receipts cs"
  have h: "ledger_holds L ?g ?rs" by (rule ledger_holds_run)
  then have r: "cl_records ?g = ledger_records L ?rs" by (simp add: ledger_holds_def)
  have good: "open_ledger L (cl_file ?g) = Inr ?g" "?rs \<noteq> [] \<longrightarrow> verify_ledger L ?g = Inr ()" if "\<forall>r \<in> set ?rs. clean_receipt r"
    using ledger_holds_verify [OF assms _ h] accepted_ok that by blast+
  have bad: "open_ledger L (cl_file ?g) \<noteq> Inr ?g" "verify_ledger L ?g \<noteq> Inr ()" if "r \<in> set ?rs" "\<not> clean_receipt r" for r
    using ledger_unclean [OF assms h that] by blast+
  show ?thesis
    unfolding Let_def r using good bad ledger_receipts ledger_numbered ledger_linked by (metis (no_types, lifting))
qed

text \<open>Two consumptions and a refused one.\<close>

definition demo_consumptions :: "receipt_args list" where
  "demo_consumptions = [demo_receipt_args ''r1'' 5, demo_receipt_args '' '' 6, demo_receipt_args ''r2'' 7]"

lemma demo_accepted: "accepted_receipts demo_consumptions = [demo_receipt ''r1'' 5, demo_receipt ''r2'' 7]"
proof -
  have t: "trimmed ''r1''" "trimmed ''r2''" by (simp_all add: trimmed_def strip_def is_space_def)
  have "mk_receipt (demo_receipt_args '' '' 6) = Inl (ValueError ''receipt_id is required'')"
    by (simp add: mk_receipt_def demo_receipt_args_def require_str_def strip_def is_space_def)
  then show ?thesis
    using demo_receipt_built [OF t(1), of 5] demo_receipt_built [OF t(2), of 7] by (simp add: accepted_receipts_def demo_consumptions_def)
qed

theorem consumption_ledger_reopens_witness:
  "let g = run_ops (consume demo_ledger_env) demo_consumptions fresh_ledger in
     open_ledger demo_ledger_env (cl_file g) = Inr g \<and> verify_ledger demo_ledger_env g = Inr () \<and> map rd_seq (cl_records g) = [1, 2]"
proof -
  have "clean_receipt (demo_receipt ''r1'' 5)" "clean_receipt (demo_receipt ''r2'' 7)"
    by (rule demo_receipt_clean, simp add: clean_def)+
  then show ?thesis
    using consumption_ledger_reopens [OF demo_env_ok, of demo_consumptions] unfolding Let_def demo_accepted by (simp add: upt_rec)
qed

text \<open>A receipt whose id contains the next-line character.\<close>

definition broken_consumptions :: "receipt_args list" where
  "broken_consumptions = [demo_receipt_args [CHR ''a'', CHR 0x85, CHR ''b''] 5]"

lemma broken_accepted: "accepted_receipts broken_consumptions = [demo_receipt [CHR ''a'', CHR 0x85, CHR ''b''] 5]"
proof -
  have "trimmed [CHR ''a'', CHR 0x85, CHR ''b'']" by (simp add: trimmed_def strip_def is_space_def)
  from demo_receipt_built [OF this, of 5] show ?thesis by (simp add: accepted_receipts_def broken_consumptions_def)
qed

lemma broken_unclean: "\<not> clean_receipt (demo_receipt [CHR ''a'', CHR 0x85, CHR ''b''] 5)"
  by (simp add: clean_receipt_def receipt_strings_def demo_receipt_def clean_def)

lemma sealed_hashed:
  "x \<in> set (cl_records g) \<union> set (cl_records g') \<Longrightarrow>
    link_text (rd_prev_digest x) (rd_seq x) (receipt_mint L (rd_receipt x)) \<in> hashed_texts L g \<union> hashed_texts L g'
    \<and> dumps (le_base L) (receipt_payload L (rd_receipt x)) \<in> hashed_texts L g \<union> hashed_texts L g'"
  unfolding hashed_texts_def by blast

text \<open>C13: the ledger is tamper-evident. Two files that both open, are not empty and end in the same digest hold the same records,
  unless the sha256 function collides on two of the texts those records hash: a history cannot be rewritten under its head digest.\<close>

theorem consumption_ledger_tamper_evident:
  assumes env: "env_ok L" and open1: "open_ledger L (Some t) = Inr g" and open2: "open_ledger L (Some t') = Inr g'"
    and ne: "cl_records g \<noteq> []" "cl_records g' \<noteq> []" and head: "last_digest g = last_digest g'"
    and inj: "inj_on (sha256 (le_base L)) (hashed_texts L g \<union> hashed_texts L g')"
  shows "cl_records g = cl_records g'"
proof -
  let ?rd = "read_chain (read_receipt_line L) genesis_digest 0"
  obtain rs where rs: "?rd (split_lines [] t) = Inr rs" "cl_records g = map fst rs"
    using open1 by (auto simp: open_ledger_def read_ledger_def mapR_def split: sum.splits)
  obtain rs' where rs': "?rd (split_lines [] t') = Inr rs'" "cl_records g' = map fst rs'"
    using open2 by (auto simp: open_ledger_def read_ledger_def mapR_def split: sum.splits)
  have snd_rd: "snd (last xs) = rd_digest (fst (last xs))" if "?rd ls = Inr xs" "xs \<noteq> []" for ls xs
  proof -
    have "\<forall>p \<in> set xs. snd p = rd_digest (fst p)" using receipts.read_sound [OF that(1)] by auto
    then show ?thesis using that(2) by simp
  qed
  have "rs = rs'"
  proof (rule receipts.same_records [OF rs(1) rs'(1)])
    show "rs \<noteq> []" "rs' \<noteq> []" using ne rs(2) rs'(2) by auto
    show "snd (last rs) = snd (last rs')"
      using head ne snd_rd [OF rs(1)] snd_rd [OF rs'(1)] rs(2) rs'(2) by (auto simp: last_digest_def last_map)
    fix ps ps'
    assume c: "rs = map (\<lambda>(d, n, r). (sealed L d n r, receipt_link L d n r)) (chain_inputs (receipt_link L) genesis_digest 0 ps)"
        "rs' = map (\<lambda>(d, n, r). (sealed L d n r, receipt_link L d n r)) (chain_inputs (receipt_link L) genesis_digest 0 ps')"
      and ok: "list_all (\<lambda>(d, n, r). receipt_ok r) (chain_inputs (receipt_link L) genesis_digest 0 ps)"
        "list_all (\<lambda>(d, n, r). receipt_ok r) (chain_inputs (receipt_link L) genesis_digest 0 ps')"
    let ?A = "set (chain_inputs (receipt_link L) genesis_digest 0 ps) \<union> set (chain_inputs (receipt_link L) genesis_digest 0 ps')"
    have rec: "cl_records g = map (\<lambda>(d, n, r). sealed L d n r) (chain_inputs (receipt_link L) genesis_digest 0 ps)"
      "cl_records g' = map (\<lambda>(d, n, r). sealed L d n r) (chain_inputs (receipt_link L) genesis_digest 0 ps')"
      unfolding rs(2) rs'(2) c by (simp_all add: case_prod_beta')
    show "inj_on (\<lambda>(d, n, r). receipt_link L d n r) ?A"
    proof (rule receipt_links_inj [OF env inj])
      fix d n r assume i: "(d, n, r) \<in> ?A"
      then have "sealed L d n r \<in> set (cl_records g) \<union> set (cl_records g')" unfolding rec by force
      from sealed_hashed [OF this] show "link_text d (int n + 1) (receipt_mint L r) \<in> hashed_texts L g \<union> hashed_texts L g'"
        "dumps (le_base L) (receipt_payload L r) \<in> hashed_texts L g \<union> hashed_texts L g'" by simp_all
      show "is_sha256 d" using i receipts.written_good [OF env genesis_sha] by blast
      show "receipt_ok r" using i ok unfolding list_all_iff by blast
    qed
  qed
  then show ?thesis using rs rs' by simp
qed


lemma split_lines_last: "\<forall>c \<in> set l. \<not> is_break c \<Longrightarrow> split_lines acc l = (if acc = [] \<and> l = [] then [] else [rev acc @ l])"
  by (induction l arbitrary: acc) simp_all

definition demo_line :: string where
  "demo_line = receipt_line demo_ledger_env genesis_digest 0 (demo_receipt ''r1'' 5)"

lemma demo_line_opens:
  assumes "s = demo_line \<or> s = demo_line @ [CHR 0x0A]"
  shows "open_ledger demo_ledger_env (Some s) = Inr \<lparr>cl_file = Some s, cl_records = [sealed demo_ledger_env genesis_digest 0 (demo_receipt ''r1'' 5)]\<rparr>"
proof -
  have ok: "receipt_ok (demo_receipt ''r1'' 5)" "clean_receipt (demo_receipt ''r1'' 5)"
    by (simp add: receipt_ok_def receipt_strings_def demo_receipt_def trimmed_def strip_def is_space_def)
      (rule demo_receipt_clean, simp add: clean_def)
  have nb: "\<forall>c \<in> set demo_line. \<not> is_break c"
    using receipt_line_unbroken [OF demo_env_ok genesis_sha ok(2)] unfolding demo_line_def by blast
  have rd: "read_receipt_line demo_ledger_env genesis_digest 0 demo_line =
      Inr (sealed demo_ledger_env genesis_digest 0 (demo_receipt ''r1'' 5), receipt_link demo_ledger_env genesis_digest 0 (demo_receipt ''r1'' 5))"
    unfolding demo_line_def by (rule receipt_line_read [OF demo_env_ok ok(1)])
  have "demo_line \<noteq> []" by (simp add: demo_line_def receipt_line_def record_json_def dumps.simps)
  then have "split_lines [] s = [demo_line]"
    using assms split_lines_last [OF nb, of "[]"] split_lines_line [OF nb, of "[]" "[]"] by auto
  then show ?thesis by (simp add: open_ledger_def read_ledger_def rd mapR_simps)
qed

theorem consumption_ledger_tamper_evident_witness:
  "\<exists>g g'. open_ledger demo_ledger_env (Some demo_line) = Inr g \<and> open_ledger demo_ledger_env (Some (demo_line @ [CHR 0x0A])) = Inr g'
     \<and> g \<noteq> g' \<and> cl_records g = cl_records g'"
proof -
  let ?x = "sealed demo_ledger_env genesis_digest 0 (demo_receipt ''r1'' 5)"
  let ?g = "\<lparr>cl_file = Some demo_line, cl_records = [?x]\<rparr>" and ?g' = "\<lparr>cl_file = Some (demo_line @ [CHR 0x0A]), cl_records = [?x]\<rparr>"
  have o: "open_ledger demo_ledger_env (Some demo_line) = Inr ?g"
    "open_ledger demo_ledger_env (Some (demo_line @ [CHR 0x0A])) = Inr ?g'" using demo_line_opens by blast+

  let ?l = "link_text genesis_digest 1 (receipt_mint demo_ledger_env (demo_receipt ''r1'' 5))"
  let ?p = "dumps (le_base demo_ledger_env) (receipt_payload demo_ledger_env (demo_receipt ''r1'' 5))"
  have "take 1 ?l = ''0''" "take 1 ?p = ''{''"
    by (simp_all add: link_text_def genesis_digest_def receipt_payload_def dumps.simps)
  then have "demo_digest ?l \<noteq> demo_digest ?p" by (simp add: demo_digest_def)
  then have "inj_on demo_digest {?l, ?p}" by (auto simp: inj_on_def)
  moreover have "hashed_texts demo_ledger_env ?g = {?l, ?p}" "hashed_texts demo_ledger_env ?g' = {?l, ?p}"
    by (simp_all add: hashed_texts_def)
  ultimately have "inj_on (sha256 (le_base demo_ledger_env)) (hashed_texts demo_ledger_env ?g \<union> hashed_texts demo_ledger_env ?g')"
    by (simp add: demo_ledger_env_def)
  from consumption_ledger_tamper_evident [OF demo_env_ok o _ _ _ this] o show ?thesis by (simp add: last_digest_def)
qed

text \<open>C15: a cut tail is not seen at opening. Remove the last lines of a ledger's file: what is left opens without an error, as the ledger of
  the first consumptions. Only \<open>verify\<close> of the handle that wrote the lines raises.\<close>

theorem consumption_truncation_opens:
  assumes "env_ok L" and "\<forall>r \<in> set (accepted_receipts cs). clean_receipt r"
    and "cl_file (run_ops (consume L) cs fresh_ledger) = Some t" and "k < length (split_lines [] t)"
  defines "short \<equiv> file_of (take k (split_lines [] t))"
  shows "open_ledger L (Some short) = Inr \<lparr>cl_file = Some short, cl_records = take k (cl_records (run_ops (consume L) cs fresh_ledger))\<rparr>
    \<and> verify_ledger L ((run_ops (consume L) cs fresh_ledger)\<lparr>cl_file := Some short\<rparr>)
        = Inl (LedgerTampered None ''records removed or added outside this handle'')"
proof -
  let ?rs = "accepted_receipts cs"
  have ok: "\<forall>r \<in> set ?rs. receipt_ok r \<and> clean_receipt r" using accepted_ok assms(2) by blast
  have okk: "\<forall>r \<in> set (take k ?rs). receipt_ok r \<and> clean_receipt r" using ok by (meson in_set_takeD)
  have h: "ledger_holds L (run_ops (consume L) cs fresh_ledger) ?rs" by (rule ledger_holds_run)
  with assms(3) have t: "t = file_of (ledger_lines L ?rs)" by (auto simp: ledger_holds_def split: if_splits)
  have short: "short = file_of (ledger_lines L (take k ?rs))"
    unfolding short_def t written_reads(1) [OF assms(1) ok] by (simp add: ledger_take)
  have k: "k < length ?rs" using assms(4) unfolding t written_reads(1) [OF assms(1) ok] by simp
  show ?thesis
    using h k unfolding short ledger_holds_def
    by (simp add: open_ledger_def verify_ledger_def written_reads(2) [OF assms(1) okk] mapR_simps ledger_take)
qed

theorem consumption_truncation_opens_witness:
  "\<exists>t. cl_file (run_ops (consume demo_ledger_env) demo_consumptions fresh_ledger) = Some t
     \<and> mapR (\<lambda>g. map rd_receipt (cl_records g)) (open_ledger demo_ledger_env (Some (file_of (take 1 (split_lines [] t)))))
       = Inr [demo_receipt ''r1'' 5]"
proof -
  let ?g = "run_ops (consume demo_ledger_env) demo_consumptions fresh_ledger"
  let ?rs = "[demo_receipt ''r1'' 5, demo_receipt ''r2'' 7]"
  have cl: "\<forall>r \<in> set (accepted_receipts demo_consumptions). clean_receipt r"
    unfolding demo_accepted by (simp, intro conjI; rule demo_receipt_clean; simp add: clean_def)
  have h: "ledger_holds demo_ledger_env ?g ?rs" using ledger_holds_run [of demo_ledger_env demo_consumptions] by (simp only: demo_accepted)
  then have f: "cl_file ?g = Some (file_of (ledger_lines demo_ledger_env ?rs))" and r: "cl_records ?g = ledger_records demo_ledger_env ?rs"
    by (simp_all add: ledger_holds_def)
  have ok: "\<forall>r \<in> set ?rs. receipt_ok r \<and> clean_receipt r" using accepted_ok [of _ demo_consumptions] cl unfolding demo_accepted by blast
  have k: "1 < length (split_lines [] (file_of (ledger_lines demo_ledger_env ?rs)))"
    unfolding written_reads(1) [OF demo_env_ok ok] by simp
  from consumption_truncation_opens [OF demo_env_ok cl f k]
  have o: "open_ledger demo_ledger_env (Some (file_of (take 1 (split_lines [] (file_of (ledger_lines demo_ledger_env ?rs))))))
      = Inr \<lparr>cl_file = Some (file_of (take 1 (split_lines [] (file_of (ledger_lines demo_ledger_env ?rs))))), cl_records = take 1 (cl_records ?g)\<rparr>"
    by blast
  have "map rd_receipt (take 1 (cl_records ?g)) = [demo_receipt ''r1'' 5]"
    unfolding r using ledger_receipts [of demo_ledger_env ?rs] by (simp add: take_map [symmetric])
  then show ?thesis unfolding f using o by (simp add: mapR_simps)
qed

text \<open>Fact: what was served stays on record. Whatever is consumed later, every answer of the two queries keeps the receipts it had, in their order, and
  can only gain receipts at the end: no staleness or later consumption removes one.\<close>

theorem consumption_history_permanent:
  assumes "claims_before_stale claim moment g = Inr rs" and "world_consumers world g = Inr ws"
  shows "\<exists>rs' ws'. claims_before_stale claim moment (run_ops (consume L) cs g) = Inr (rs @ rs')
    \<and> world_consumers world (run_ops (consume L) cs g) = Inr (ws @ ws')"
proof -
  have "\<exists>more. cl_records (run_ops (consume L) cs g) = cl_records g @ more"
    by (rule run_ops_invariant [where I = "\<lambda>s. \<exists>more. cl_records s = cl_records g @ more"])
      (auto simp: consume_def append_receipt_def Let_def split: sum.splits)
  with assms show ?thesis by (auto simp: claims_before_stale_def world_consumers_def bindR_Inr_iff)
qed

theorem consumption_history_permanent_witness:
  "claims_before_stale (JStr ''k1'') (Zoned 0 6) (run_ops (consume demo_ledger_env) demo_consumptions fresh_ledger) = Inr [demo_receipt ''r1'' 5]"
proof -
  have n: "claims_before_stale (JStr ''k1'') (Zoned 0 6) fresh_ledger = Inr []" "world_consumers (JStr ''w1'') fresh_ledger = Inr []"
    by (simp_all add: claims_before_stale_def world_consumers_def fresh_ledger_def require_str_def require_utc_def strip_def is_space_def)
  from consumption_history_permanent [OF n, of demo_ledger_env demo_consumptions] obtain rs' where
    "claims_before_stale (JStr ''k1'') (Zoned 0 6) (run_ops (consume demo_ledger_env) demo_consumptions fresh_ledger) = Inr ([] @ rs')" by blast
  moreover have "map rd_receipt (cl_records (run_ops (consume demo_ledger_env) demo_consumptions fresh_ledger)) = [demo_receipt ''r1'' 5, demo_receipt ''r2'' 7]"
    using ledger_holds_run [of demo_ledger_env demo_consumptions] ledger_receipts unfolding demo_accepted ledger_holds_def by simp
  ultimately show ?thesis by (auto simp: claims_before_stale_def bindR_Inr_iff demo_receipt_def require_utc_def)
qed

text \<open>Fact: one next-line character breaks the ledger. A receipt whose id is \<open>a\<close>, U+0085, \<open>b\<close> is appended without an error, but the file
  does not open to the ledger that wrote it, and \<open>verify\<close> of the writing handle raises.\<close>

theorem next_line_breaks_ledger:
  "let g = run_ops (consume demo_ledger_env) broken_consumptions fresh_ledger in
     length (cl_records g) = 1 \<and> open_ledger demo_ledger_env (cl_file g) \<noteq> Inr g \<and> verify_ledger demo_ledger_env g \<noteq> Inr ()"
proof -
  have h: "ledger_holds demo_ledger_env (run_ops (consume demo_ledger_env) broken_consumptions fresh_ledger)
      [demo_receipt [CHR ''a'', CHR 0x85, CHR ''b''] 5]"
    using ledger_holds_run [of demo_ledger_env broken_consumptions] by (simp only: broken_accepted)
  from ledger_unclean [OF demo_env_ok h _ broken_unclean] h show ?thesis unfolding Let_def ledger_holds_def by simp
qed

text \<open>Fact: a ledger that was opened over an empty directory cannot be verified. Before its first append \<open>verify\<close> raises
  \<^verbatim>\<open>FileNotFoundError\<close>, not the error that stands for a tampered ledger, and not success.\<close>

theorem verify_before_first_append: "open_ledger L None = Inr fresh_ledger \<and> verify_ledger L fresh_ledger = Inl (OSError ''FileNotFoundError'')"
  by (simp add: open_ledger_def fresh_ledger_def verify_ledger_def)

end
