(* ===== verification/IdentityLedger.thy ===== *)
theory IdentityLedger
  imports Consumption
begin

text \<open>
  \<^verbatim>\<open>packages/cir-python/src/akc_cir/identity_ledger.py\<close>: the append-only ledger of identity transitions, the replay of
  its entries into the map of identities, and the recorder of resolver decisions. The ledger file is modelled as in
  \<open>Consumption\<close>; the argument checks of both modules are the same and are shared.
\<close>

section \<open>Entries\<close>

datatype ledger_kind = LK_MATCH | LK_NEW | LK_MERGE | LK_SPLIT | LK_RETIRE

fun ledger_kind_value :: "ledger_kind \<Rightarrow> string" where
  "ledger_kind_value LK_MATCH = ''MATCH''"
| "ledger_kind_value LK_NEW = ''NEW''"
| "ledger_kind_value LK_MERGE = ''MERGE''"
| "ledger_kind_value LK_SPLIT = ''SPLIT''"
| "ledger_kind_value LK_RETIRE = ''RETIRE''"

definition ledger_kind_of :: "jval \<Rightarrow> ledger_kind option" where
  "ledger_kind_of = enum_of ledger_kind_value [LK_MATCH, LK_NEW, LK_MERGE, LK_SPLIT, LK_RETIRE]"

record entry_args =
  ea_seq :: jval
  ea_ts_utc :: stamp
  ea_logical_id :: jval
  ea_kind :: jval
  ea_prior_ids :: "jval list"
  ea_evidence_refs :: "jval list"
  ea_note :: jval

record ledger_entry =
  en_seq :: int
  en_ts_utc :: int
  en_logical_id :: string
  en_kind :: ledger_kind
  en_prior_ids :: "string list"
  en_evidence_refs :: "string list"
  en_note :: string

definition json_seq :: "jval \<Rightarrow> pyerr + int" where
  "json_seq v = (case v of JInt i \<Rightarrow> Inr i | _ \<Rightarrow> Inl (ValueError ''seq must be an integer''))"

definition json_note :: "jval \<Rightarrow> pyerr + string" where
  "json_note v = (case v of JStr s \<Rightarrow> Inr s | _ \<Rightarrow> Inl (ValueError ''note must be a string''))"

definition mk_entry :: "entry_args \<Rightarrow> pyerr + ledger_entry" where
  "mk_entry a =
    bindR (json_seq (ea_seq a)) (\<lambda>seq.
    if seq < 1 then Inl (ValueError ''seq numbers start at 1'') else
    bindR (require_utc ''ts_utc'' (ea_ts_utc a)) (\<lambda>ts.
    bindR (require_str ''logical_id'' (ea_logical_id a)) (\<lambda>logical_id.
    bindR (case ledger_kind_of (ea_kind a) of None \<Rightarrow> Inl (ValueError ''kind'') | Some k \<Rightarrow> Inr k) (\<lambda>kind.
    bindR (require_str_tuple ''prior_ids'' (ea_prior_ids a)) (\<lambda>prior_ids.
    bindR (require_str_tuple ''evidence_refs'' (ea_evidence_refs a)) (\<lambda>evidence_refs.
    bindR (json_note (ea_note a)) (\<lambda>note.
      Inr \<lparr>en_seq = seq, en_ts_utc = ts, en_logical_id = logical_id, en_kind = kind, en_prior_ids = prior_ids,
        en_evidence_refs = evidence_refs, en_note = note\<rparr>)))))))"

definition entry_members :: "ledger_env \<Rightarrow> ledger_entry \<Rightarrow> (string \<times> jval) list" where
  "entry_members L e =
    [(''seq'', JInt (en_seq e)),
     (''ts_utc'', JStr (iso_utc L (en_ts_utc e))),
     (''logical_id'', JStr (en_logical_id e)),
     (''kind'', JStr (ledger_kind_value (en_kind e))),
     (''prior_ids'', JList (map JStr (en_prior_ids e))),
     (''evidence_refs'', JList (map JStr (en_evidence_refs e))),
     (''note'', JStr (en_note e))]"

definition entry_payload :: "ledger_env \<Rightarrow> ledger_entry \<Rightarrow> jval" where
  "entry_payload L e = JObj (entry_members L e)"

definition entry_keys :: "string list" where
  "entry_keys = [''seq'', ''ts_utc'', ''logical_id'', ''kind'', ''prior_ids'', ''evidence_refs'', ''note'']"

definition is_jstr :: "jval \<Rightarrow> bool" where
  "is_jstr v = (case v of JStr s \<Rightarrow> True | _ \<Rightarrow> False)"

text \<open>\<open>LedgerEntry.from_payload\<close> on the members of an object.\<close>

definition entry_from_payload :: "ledger_env \<Rightarrow> (string \<times> jval) list \<Rightarrow> pyerr + ledger_entry" where
  "entry_from_payload L kvs =
    (if fst ` set kvs \<noteq> set entry_keys then Inl (ValueError ''record shape mismatch'')
     else
       bindR (json_stamp L ''ts_utc'' (get_key kvs ''ts_utc'')) (\<lambda>ts.
       bindR (case ledger_kind_of (get_key kvs ''kind'') of None \<Rightarrow> Inl (ValueError ''unknown ledger kind'') | Some k \<Rightarrow> Inr k) (\<lambda>kind.
       bindR (json_seq (get_key kvs ''seq'')) (\<lambda>seq.
       bindR (json_list ''prior_ids'' (get_key kvs ''prior_ids'')) (\<lambda>prior_ids.
       bindR (json_list ''evidence_refs'' (get_key kvs ''evidence_refs'')) (\<lambda>evidence_refs.
       if \<not> list_all is_jstr prior_ids then Inl (ValueError ''prior_ids must be strings'')
       else if \<not> list_all is_jstr evidence_refs then Inl (ValueError ''evidence_refs must be strings'')
       else bindR (json_note (get_key kvs ''note'')) (\<lambda>note.
         mk_entry \<lparr>ea_seq = JInt seq, ea_ts_utc = ts, ea_logical_id = get_key kvs ''logical_id'',
           ea_kind = JStr (ledger_kind_value kind), ea_prior_ids = prior_ids, ea_evidence_refs = evidence_refs, ea_note = JStr note\<rparr>)))))))"

section \<open>The ledger\<close>

definition chain_text :: "ledger_env \<Rightarrow> string \<Rightarrow> ledger_entry \<Rightarrow> string" where
  "chain_text L prev e = join_with [CHR 0x1E] [prev, dumps (le_base L) (entry_payload L e)]"

definition chain_digest :: "ledger_env \<Rightarrow> string \<Rightarrow> ledger_entry \<Rightarrow> string" where
  "chain_digest L prev e = sha256 (le_base L) (chain_text L prev e)"

text \<open>One line of \<^verbatim>\<open>_read_and_verify\<close>, after \<open>n\<close> entries.\<close>

definition read_entry_line :: "ledger_env \<Rightarrow> string \<Rightarrow> nat \<Rightarrow> string \<Rightarrow> pyerr + (ledger_entry \<times> string)" where
  "read_entry_line L previous n raw =
    (if strip raw = [] then Inl (LedgerTampered None ''blank line'')
     else case json_loads L (strip raw) of
       None \<Rightarrow> Inl (LedgerTampered None ''not valid JSON'')
     | Some (JObj kvs) \<Rightarrow>
       (case get_key kvs ''digest'' of
         JStr digest \<Rightarrow>
           (if digest = [] then Inl (LedgerTampered None ''carries no digest'')
            else (case entry_from_payload L (filter (\<lambda>(k, v). k \<noteq> ''digest'') kvs) of
              Inl e \<Rightarrow> Inl (LedgerTampered (case get_key kvs ''seq'' of JInt i \<Rightarrow> Some i | JBool b \<Rightarrow> Some (of_bool b) | _ \<Rightarrow> None) ''not an entry'')
            | Inr e \<Rightarrow>
                if chain_digest L previous e \<noteq> digest then Inl (LedgerTampered (Some (en_seq e)) ''edited or replaced'')
                else if en_seq e \<noteq> int n + 1 then Inl (LedgerTampered (Some (en_seq e)) ''gap, reuse, or reorder'')
                else Inr (e, digest)))
       | _ \<Rightarrow> Inl (LedgerTampered None ''carries no digest''))
     | Some _ \<Rightarrow> Inl (LedgerTampered None ''not a JSON object''))"

definition read_entries :: "ledger_env \<Rightarrow> string \<Rightarrow> pyerr + (ledger_entry \<times> string) list" where
  "read_entries L text_of = read_chain (read_entry_line L) genesis_digest 0 (split_lines [] text_of)"

record identity_ledger =
  il_file :: "string option"
  il_entries :: "ledger_entry list"
  il_digests :: "string list"

definition open_identity_ledger :: "ledger_env \<Rightarrow> string option \<Rightarrow> pyerr + identity_ledger" where
  "open_identity_ledger L file = (case file of
     None \<Rightarrow> Inr \<lparr>il_file = None, il_entries = [], il_digests = []\<rparr>
   | Some t \<Rightarrow> mapR (\<lambda>rs. \<lparr>il_file = Some t, il_entries = map fst rs, il_digests = map snd rs\<rparr>) (read_entries L t))"

definition head_digest :: "identity_ledger \<Rightarrow> string" where
  "head_digest g = (if il_digests g = [] then genesis_digest else last (il_digests g))"

definition entry_json :: "ledger_env \<Rightarrow> ledger_entry \<Rightarrow> string \<Rightarrow> jval" where
  "entry_json L e digest = JObj (entry_members L e @ [(''digest'', JStr digest)])"

definition append_entry :: "ledger_env \<Rightarrow> ledger_entry \<Rightarrow> identity_ledger \<Rightarrow> (identity_ledger, ledger_entry) outcome" where
  "append_entry L e g =
    (let expected = int (length (il_entries g)) + 1 in
     if en_seq e < expected then (Inl (ValueError ''already recorded or behind the head''), g)
     else if expected < en_seq e then (Inl (ValueError ''skips ahead of the head''), g)
     else let digest = chain_digest L (head_digest g) e
       in (Inr e, g\<lparr>il_file := append_text (dumps (le_base L) (entry_json L e digest)) (il_file g),
             il_entries := il_entries g @ [e], il_digests := il_digests g @ [digest]\<rparr>))"

text \<open>\<open>record\<close> numbers the entry itself; \<open>now\<close> is the time it reads when no time is given.\<close>

definition record_entry ::
  "ledger_env \<Rightarrow> jval \<Rightarrow> jval \<Rightarrow> jval list \<Rightarrow> jval list \<Rightarrow> jval \<Rightarrow> stamp option \<Rightarrow> stamp \<Rightarrow> identity_ledger
     \<Rightarrow> (identity_ledger, ledger_entry) outcome" where
  "record_entry L logical_id kind prior_ids evidence_refs note ts now g =
    (case mk_entry \<lparr>ea_seq = JInt (int (length (il_entries g)) + 1), ea_ts_utc = (case ts of None \<Rightarrow> now | Some t \<Rightarrow> t),
        ea_logical_id = logical_id, ea_kind = kind, ea_prior_ids = prior_ids, ea_evidence_refs = evidence_refs, ea_note = note\<rparr> of
      Inl e \<Rightarrow> (Inl e, g)
    | Inr e \<Rightarrow> append_entry L e g)"

definition verify_identity_ledger :: "ledger_env \<Rightarrow> identity_ledger \<Rightarrow> pyerr + unit" where
  "verify_identity_ledger L g = (case il_file g of
     None \<Rightarrow> Inl (OSError ''FileNotFoundError'')
   | Some t \<Rightarrow> bindR (read_entries L t) (\<lambda>rs.
       if length rs \<noteq> length (il_entries g) then Inl (LedgerTampered None ''records removed or added outside this handle'')
       else (case List.find (\<lambda>(x, y). x \<noteq> y) (zip (map fst rs) (il_entries g)) of
         Some (x, y) \<Rightarrow> Inl (LedgerTampered (Some (en_seq x)) ''differs from the record this handle appended'')
       | None \<Rightarrow> Inr ())))"

section \<open>Replay\<close>

datatype identity_status = IS_ACTIVE | IS_ABSORBED | IS_RETIRED

record identity_state =
  is_status :: identity_status
  is_first_seq :: int
  is_last_seq :: int
  is_transitions :: nat
  is_lineage :: "string list"
  is_absorbed_into :: "string option"

type_synonym identity_map = "(string \<times> identity_state) list"

text \<open>\<open>state_for\<close>: an unknown id is founded.\<close>

definition state_for :: "string \<Rightarrow> int \<Rightarrow> identity_map \<Rightarrow> identity_map" where
  "state_for i seq st = (if map_of st i = None
     then st @ [(i, \<lparr>is_status = IS_ACTIVE, is_first_seq = seq, is_last_seq = 0, is_transitions = 0, is_lineage = [], is_absorbed_into = None\<rparr>)]
     else st)"

definition touch_subject :: "ledger_entry \<Rightarrow> identity_state \<Rightarrow> identity_state" where
  "touch_subject e s =
    (let s1 = s\<lparr>is_last_seq := en_seq e, is_transitions := is_transitions s + 1, is_absorbed_into := None\<rparr> in
     if en_kind e = LK_RETIRE then s1\<lparr>is_status := IS_RETIRED\<rparr>
     else s1\<lparr>is_status := IS_ACTIVE,
       is_lineage := fold (\<lambda>p line. if p \<in> set line then line else line @ [p])
         (filter (\<lambda>p. p \<noteq> en_logical_id e) (en_prior_ids e)) (is_lineage s)\<rparr>)"

definition absorb :: "ledger_entry \<Rightarrow> string \<Rightarrow> identity_map \<Rightarrow> identity_map" where
  "absorb e i st = AList.map_entry i (\<lambda>s. s\<lparr>is_status := IS_ABSORBED, is_absorbed_into := Some (en_logical_id e)\<rparr>)
     (state_for i (en_seq e) st)"

definition apply_entry :: "ledger_entry \<Rightarrow> identity_map \<Rightarrow> identity_map" where
  "apply_entry e st =
    (let st1 = AList.map_entry (en_logical_id e) (touch_subject e) (state_for (en_logical_id e) (en_seq e) st)
     in if en_kind e \<in> {LK_MERGE, LK_SPLIT}
        then fold (absorb e) (filter (\<lambda>p. p \<noteq> en_logical_id e) (en_prior_ids e)) st1
        else st1)"

definition replay_entries :: "ledger_entry list \<Rightarrow> identity_map" where
  "replay_entries es = fold apply_entry es []"

section \<open>Recording decisions\<close>

text \<open>Of a resolver's decision, the fields that the recorder reads.\<close>

datatype logical_match = LM_MATCHED | LM_NEW | LM_AMBIGUOUS

record identity_decision =
  ld_match :: logical_match
  ld_logical_id :: "string option"
  ld_candidates :: "string list"

record decision_recorder =
  dr_note :: string
  dr_evidence_refs :: "string list"

definition record_decision ::
  "ledger_env \<Rightarrow> decision_recorder \<Rightarrow> identity_decision \<Rightarrow> stamp \<Rightarrow> identity_ledger \<Rightarrow> (identity_ledger, unit) outcome" where
  "record_decision L rc d now g =
    (if ld_match d = LM_AMBIGUOUS then (Inr (), g)
     else (case ld_logical_id d of
       None \<Rightarrow> (Inl (ValueError ''a decided outcome must carry a logical id''), g)
     | Some i \<Rightarrow> forget (record_entry L (JStr i) (JStr (ledger_kind_value (if ld_match d = LM_MATCHED then LK_MATCH else LK_NEW)))
           (map JStr (if ld_match d = LM_MATCHED then ld_candidates d else []))
           (map JStr (dr_evidence_refs rc)) (JStr (dr_note rc)) (Some now) now g)))"


text \<open>A call on a ledger: \<^verbatim>\<open>append\<close> of an entry that was constructed, \<^verbatim>\<open>record\<close>, or a resolver's decision.\<close>

datatype identity_call =
    IC_append entry_args
  | IC_record jval jval "jval list" "jval list" jval "stamp option" stamp
  | IC_decide decision_recorder identity_decision stamp

fun identity_op :: "ledger_env \<Rightarrow> identity_call \<Rightarrow> identity_ledger \<Rightarrow> (identity_ledger, unit) outcome" where
  "identity_op L (IC_append a) g = (case mk_entry a of Inl e \<Rightarrow> (Inl e, g) | Inr e \<Rightarrow> forget (append_entry L e g))"
| "identity_op L (IC_record i k ps rs note ts now) g = forget (record_entry L i k ps rs note ts now g)"
| "identity_op L (IC_decide rc d now) g = record_decision L rc d now g"

definition fresh_identity_ledger :: identity_ledger where
  "fresh_identity_ledger = \<lparr>il_file = None, il_entries = [], il_digests = []\<rparr>"

section \<open>Entries read back\<close>

definition entry_strings :: "ledger_entry \<Rightarrow> string list" where
  "entry_strings e = en_logical_id e # en_prior_ids e @ en_evidence_refs e"

definition entry_valid :: "ledger_entry \<Rightarrow> bool" where
  "entry_valid e \<longleftrightarrow> 1 \<le> en_seq e \<and> list_all trimmed (entry_strings e)"

definition clean_entry :: "ledger_entry \<Rightarrow> bool" where
  "clean_entry e \<longleftrightarrow> list_all clean (en_note e # entry_strings e)"

lemma mk_entry_valid: "mk_entry a = Inr e \<Longrightarrow> entry_valid e"
  unfolding mk_entry_def bindR_Inr_iff
  by (auto simp: bindR_Inr_iff entry_valid_def entry_strings_def dest!: require_str_Inr require_tuple_Inr split: if_splits option.splits)

lemma kind_value [simp]: "ledger_kind_of (JStr (ledger_kind_value k)) = Some k"
  by (cases k) (simp_all add: ledger_kind_of_def enum_of_def)

lemma entry_members_keys: "fst ` set (entry_members L e) = set entry_keys"
  by (simp add: entry_members_def entry_keys_def)

lemma entry_get [simp]:
  "get_key (entry_members L e) ''seq'' = JInt (en_seq e)"
  "get_key (entry_members L e) ''ts_utc'' = JStr (iso_utc L (en_ts_utc e))"
  "get_key (entry_members L e) ''logical_id'' = JStr (en_logical_id e)"
  "get_key (entry_members L e) ''kind'' = JStr (ledger_kind_value (en_kind e))"
  "get_key (entry_members L e) ''prior_ids'' = JList (map JStr (en_prior_ids e))"
  "get_key (entry_members L e) ''evidence_refs'' = JList (map JStr (en_evidence_refs e))"
  "get_key (entry_members L e) ''note'' = JStr (en_note e)"
  by (simp_all add: get_key_def entry_members_def)

lemma strs_are_jstr [simp]: "list_all is_jstr (map JStr ss)"
  by (simp add: list_all_iff is_jstr_def)

lemma entry_members_distinct [simp]: "distinct (map fst (entry_members L e))"
  by (simp add: entry_members_def)

lemma entry_reads_back:
  assumes "env_ok L" and "entry_valid e"
  shows "entry_from_payload L (canon_members (entry_members L e)) = Inr e"
proof -
  have strings: "trimmed (en_logical_id e)" "list_all trimmed (en_prior_ids e)" "list_all trimmed (en_evidence_refs e)" "\<not> en_seq e < 1"
    using assms(2) by (auto simp: entry_valid_def entry_strings_def)
  have iso: "iso_parse L (iso_utc L i) = Some (Zoned 0 i)" for i using assms(1) by (simp add: env_ok_def)
  show ?thesis
    unfolding entry_from_payload_def canon_members_keys entry_members_keys using strings
    by (simp add: get_key_canon json_stamp_def json_list_def json_seq_def json_note_def mk_entry_def require_utc_def iso)
qed

lemma entry_from_payload_valid: "entry_from_payload L kvs = Inr e \<Longrightarrow> entry_valid e"
  unfolding entry_from_payload_def bindR_Inr_iff
  by (auto simp: bindR_Inr_iff dest: mk_entry_valid split: if_splits)

section \<open>The chain of entries\<close>

definition entry_line :: "ledger_env \<Rightarrow> string \<Rightarrow> nat \<Rightarrow> ledger_entry \<Rightarrow> string" where
  "entry_line L d n e = dumps (le_base L) (entry_json L e (chain_digest L d e))"

definition entry_link :: "ledger_env \<Rightarrow> string \<Rightarrow> nat \<Rightarrow> ledger_entry \<Rightarrow> string" where
  "entry_link L d n e = chain_digest L d e"

definition entry_fits :: "nat \<Rightarrow> ledger_entry \<Rightarrow> bool" where
  "entry_fits n e \<longleftrightarrow> en_seq e = int n + 1 \<and> entry_valid e"

lemma entry_link_sha: "env_ok L \<Longrightarrow> is_sha256 (entry_link L d n e)"
  by (simp add: entry_link_def chain_digest_def env_sha)

lemma entry_plain [simp]: "plain_json (entry_json L e digest)" "plain_json (entry_payload L e)"
  by (simp_all add: entry_json_def entry_payload_def entry_members_def list_all_iff)

lemma canon_without:
  assumes "k \<notin> fst ` set kvs"
  shows "filter (\<lambda>(k', v). k' \<noteq> k) (canon_members (kvs @ [(k, v)])) = canon_members kvs"
proof -
  have "filter (\<lambda>p. fst p \<noteq> k) (map (\<lambda>(k, v). (k, jcanon v)) kvs) = map (\<lambda>(k, v). (k, jcanon v)) kvs"
    using assms by (force simp: filter_id_conv)
  then show ?thesis by (simp add: canon_members_def filter_sort case_prod_unfold)
qed

lemma entry_line_read:
  assumes "env_ok L" and "entry_fits n e"
  shows "read_entry_line L d n (entry_line L d n e) = Inr (e, entry_link L d n e)"
proof -
  let ?ms = "entry_members L e @ [(''digest'', JStr (chain_digest L d e))]"
  have dig: "''digest'' \<notin> fst ` set (entry_members L e)" by (simp add: entry_members_def)
  have dist: "distinct (map fst ?ms)" by (simp add: entry_members_def)
  have get: "get_key ?ms ''digest'' = JStr (chain_digest L d e)" by (simp add: get_key_def entry_members_def)
  have load: "json_loads L (entry_line L d n e) = Some (JObj (canon_members ?ms))"
    using assms(1) entry_plain(1) [of L e "chain_digest L d e"]
    unfolding entry_line_def env_ok_def entry_json_def jcanon_obj [symmetric] by blast
  have s: "strip (entry_line L d n e) = entry_line L d n e" "entry_line L d n e \<noteq> []"
    unfolding entry_line_def entry_json_def by (simp, simp add: dumps.simps)
  have ne: "chain_digest L d e \<noteq> []" using sha_nonempty [OF entry_link_sha [OF assms(1)]] by (simp add: entry_link_def)
  have again: "entry_from_payload L (filter (\<lambda>(k, v). k \<noteq> ''digest'') (canon_members ?ms)) = Inr e"
    unfolding canon_without [OF dig] using assms(2) by (intro entry_reads_back [OF assms(1)]) (simp add: entry_fits_def)
  show ?thesis
    unfolding read_entry_line_def s load option.case jval.case get_key_canon [OF dist] get again
    using s(2) ne assms(2) by (simp add: entry_link_def entry_fits_def)
qed

lemma entry_json_clean:
  assumes "env_ok L" and "is_sha256 digest"
  shows "clean_json (entry_json L e digest) \<longleftrightarrow> clean_entry e"
proof -
  have "clean (iso_utc L i)" for i using assms(1) by (simp add: env_ok_def clean_def)
  moreover have "clean (ledger_kind_value k)" for k by (cases k) (simp_all add: clean_def)
  moreover have "clean digest" using assms(2) by (rule sha_clean)
  moreover have "clean ''seq''" "clean ''ts_utc''" "clean ''logical_id''" "clean ''kind''" "clean ''prior_ids''"
    "clean ''evidence_refs''" "clean ''note''" "clean ''digest''" by (simp_all add: clean_def)
  ultimately show ?thesis by (auto simp: entry_json_def entry_members_def clean_entry_def entry_strings_def list_all_iff)
qed

lemma entry_line_sound:
  assumes "read_entry_line L d n l = Inr (x, d')"
  shows "\<exists>e. entry_fits n e \<and> x = e \<and> d' = entry_link L d n e"
  using assms unfolding read_entry_line_def
  by (auto simp: entry_link_def entry_fits_def dest: entry_from_payload_valid split: if_splits option.splits jval.splits sum.splits)

interpretation entry_log: chained_log "env_ok L" "read_entry_line L" "entry_line L" "entry_link L" "\<lambda>d n e. e"
  "\<lambda>n e. entry_fits n e \<and> clean_entry e" is_sha256 entry_fits for L
proof
  show "\<not> is_break c" if "env_ok L" "entry_fits n e \<and> clean_entry e" "c \<in> set (entry_line L d n e)" for L d n e c
    using that dumps_break entry_json_clean [OF that(1) entry_link_sha [OF that(1), of d n e], of e]
    unfolding entry_line_def entry_link_def by blast
qed (use entry_line_read entry_link_sha entry_line_sound in blast)+


section \<open>What a ledger holds\<close>

definition entry_chain :: "ledger_env \<Rightarrow> ledger_entry list \<Rightarrow> (string \<times> nat \<times> ledger_entry) list" where
  "entry_chain L es = chain_inputs (entry_link L) genesis_digest 0 es"

definition entry_lines :: "ledger_env \<Rightarrow> ledger_entry list \<Rightarrow> string list" where
  "entry_lines L es = map (\<lambda>(d, n, e). entry_line L d n e) (entry_chain L es)"

definition entry_digests :: "ledger_env \<Rightarrow> ledger_entry list \<Rightarrow> string list" where
  "entry_digests L es = map (\<lambda>(d, n, e). entry_link L d n e) (entry_chain L es)"

definition identity_holds :: "ledger_env \<Rightarrow> identity_ledger \<Rightarrow> bool" where
  "identity_holds L g \<longleftrightarrow> il_digests g = entry_digests L (il_entries g)
     \<and> il_file g = (if il_entries g = [] then None else Some (file_of (entry_lines L (il_entries g))))
     \<and> map en_seq (il_entries g) = map int [1..<Suc (length (il_entries g))]
     \<and> list_all entry_valid (il_entries g)"

lemma entry_lists [simp]:
  "entry_lines L [] = []" "entry_digests L [] = []" "length (entry_digests L es) = length es" "length (entry_lines L es) = length es"
  "entry_lines L (es @ [e]) = entry_lines L es @ [entry_line L (chain_head (entry_link L) genesis_digest 0 es) (length es) e]"
  "entry_digests L (es @ [e]) = entry_digests L es @ [entry_link L (chain_head (entry_link L) genesis_digest 0 es) (length es) e]"
  by (simp_all add: entry_lines_def entry_digests_def entry_chain_def)

lemma entry_head: "il_digests g = entry_digests L (il_entries g) \<Longrightarrow> head_digest g = chain_head (entry_link L) genesis_digest 0 (il_entries g)"
  by (cases "il_entries g" rule: rev_cases) (simp_all add: head_digest_def)

lemma append_entry_holds: "identity_holds L g \<Longrightarrow> entry_valid e \<Longrightarrow> identity_holds L (snd (append_entry L e g))"
  using entry_head [of g L]
  by (auto simp: identity_holds_def append_entry_def Let_def append_text_def file_of_simps entry_line_def entry_link_def)

lemma record_entry_holds: "identity_holds L g \<Longrightarrow> identity_holds L (snd (record_entry L i k ps rs note ts now g))"
  by (auto simp: record_entry_def intro: append_entry_holds mk_entry_valid split: sum.splits)

lemma identity_op_holds: "identity_holds L g \<Longrightarrow> identity_holds L (snd (identity_op L c g))"
  by (cases c) (auto simp: record_decision_def intro: append_entry_holds record_entry_holds mk_entry_valid split: sum.splits option.splits)

lemma identity_holds_run: "identity_holds L (run_ops (identity_op L) cs fresh_identity_ledger)"
proof (rule run_ops_invariant [where I = "identity_holds L"])
  show "identity_holds L fresh_identity_ledger" by (simp add: identity_holds_def fresh_identity_ledger_def)
qed (rule identity_op_holds)

lemma chain_positions: "(d', n', p) \<in> set (chain_inputs lk d n ps) \<Longrightarrow> \<exists>i < length ps. n' = n + i \<and> p = ps ! i"
proof (induction ps arbitrary: d n)
  case (Cons q ps)
  from Cons.prems consider "n' = n" "p = q" | "(d', n', p) \<in> set (chain_inputs lk (lk d n q) (Suc n) ps)" by auto
  then show ?case
  proof cases
    case 1
    then show ?thesis by (intro exI [of _ 0]) simp
  next
    case 2
    from Cons.IH [OF this] obtain i where "i < length ps" "n' = Suc n + i" "p = ps ! i" by blast
    then show ?thesis by (intro exI [of _ "Suc i"]) simp
  qed
qed simp

lemma entries_fit:
  assumes "identity_holds L g" and "(d, n, e) \<in> set (chain_inputs (entry_link L) genesis_digest 0 (il_entries g))"
  shows "entry_fits n e \<and> e \<in> set (il_entries g)"
proof -
  obtain i where i: "i < length (il_entries g)" "n = i" "e = il_entries g ! i" using chain_positions [OF assms(2)] by auto
  have "map en_seq (il_entries g) ! i = map int [1..<Suc (length (il_entries g))] ! i" using assms(1) unfolding identity_holds_def by metis
  with i have "en_seq e = int n + 1" by (simp del: upt_Suc)
  moreover have "e \<in> set (il_entries g)" using i by simp
  ultimately show ?thesis using assms(1) by (auto simp: entry_fits_def identity_holds_def list_all_iff)
qed

lemma entries_read:
  assumes "env_ok L" and "identity_holds L g" and "\<forall>e \<in> set (il_entries g). clean_entry e"
  shows "read_entries L (file_of (entry_lines L (il_entries g))) = Inr (zip (il_entries g) (il_digests g))"
proof -
  have ok: "\<forall>(d, n, e) \<in> set (chain_inputs (entry_link L) genesis_digest 0 (il_entries g)). entry_fits n e \<and> clean_entry e"
    using entries_fit [OF assms(2)] assms(3) by fast
  have m: "map (\<lambda>(d, n, e). (e, entry_link L d n e)) xs = zip (map (snd \<circ> snd) xs) (map (\<lambda>(d, n, e). entry_link L d n e) xs)" for xs
    by (induction xs) auto
  have d: "il_digests g = entry_digests L (il_entries g)" using assms(2) by (simp add: identity_holds_def)
  show ?thesis
    using entry_log.split_written [OF assms(1) genesis_sha ok] entry_log.read_written [OF assms(1) genesis_sha ok]
    by (simp add: read_entries_def entry_lines_def entry_chain_def m d entry_digests_def)
qed

lemma entry_lines_all: "e \<in> set es \<Longrightarrow> \<exists>d n. entry_line L d n e \<in> set (entry_lines L es)"
  by (induction es rule: rev_induct) auto

lemma entries_unread:
  assumes "env_ok L" and "e \<in> set es" and "\<not> clean_entry e" and "read_entries L (file_of (entry_lines L es)) = Inr xs"
  shows "length es < length xs"
proof -
  obtain d n where l: "entry_line L d n e \<in> set (entry_lines L es)" using entry_lines_all [OF assms(2)] by blast
  have "CHR 0x85 \<in> set (entry_line L d n e)"
    unfolding entry_line_def
    using dumps_unclean [OF entry_plain(1)] entry_json_clean [OF assms(1) entry_link_sha [OF assms(1)]] assms(3)
    by (simp add: entry_link_def)
  from l this have "length (entry_lines L es) < length (split_lines [] (file_of (entry_lines L es)))"
  proof (rule more_lines [rotated])
    fix l c assume "l \<in> set (entry_lines L es)" and c: "c \<in> set l" "is_break c"
    then obtain d n e where "l = entry_line L d n e" by (auto simp: entry_lines_def)
    with c show "c = CHR 0x85" using dumps_next_line [OF entry_plain(1)] unfolding entry_line_def by blast
  qed
  then show ?thesis using assms(4) by (auto simp: read_entries_def dest: read_chain_length)
qed

lemma identity_verify:
  assumes "env_ok L" and h: "identity_holds L g" and ne: "il_entries g \<noteq> []"
  shows "open_identity_ledger L (il_file g) = Inr g \<longleftrightarrow> (\<forall>e \<in> set (il_entries g). clean_entry e)"
    and "verify_identity_ledger L g = Inr () \<longleftrightarrow> (\<forall>e \<in> set (il_entries g). clean_entry e)"
proof -
  have f: "il_file g = Some (file_of (entry_lines L (il_entries g)))" using h ne by (simp add: identity_holds_def)
  have len: "length (il_digests g) = length (il_entries g)" using h by (simp add: identity_holds_def)
  have find: "List.find (\<lambda>(x, y). x \<noteq> y) (zip xs xs) = None" for xs :: "ledger_entry list"
    by (auto simp: find_None_iff in_set_zip)
  have good: "open_identity_ledger L (il_file g) = Inr g \<and> verify_identity_ledger L g = Inr ()" if "\<forall>e \<in> set (il_entries g). clean_entry e"
    unfolding open_identity_ledger_def verify_identity_ledger_def f using f
    by (simp add: entries_read [OF assms(1) h that] mapR_simps len find)
  have bad: "open_identity_ledger L (il_file g) \<noteq> Inr g \<and> verify_identity_ledger L g \<noteq> Inr ()"
    if "e \<in> set (il_entries g)" "\<not> clean_entry e" for e
    using entries_unread [OF assms(1) that] unfolding open_identity_ledger_def verify_identity_ledger_def f
    by (auto simp: mapR_def bindR_Inr_iff dest!: arg_cong [of _ _ il_entries] arg_cong [of "map fst _" _ length] split: sum.splits)
  show "open_identity_ledger L (il_file g) = Inr g \<longleftrightarrow> (\<forall>e \<in> set (il_entries g). clean_entry e)"
    "verify_identity_ledger L g = Inr () \<longleftrightarrow> (\<forall>e \<in> set (il_entries g). clean_entry e)"
    using good bad by blast+
qed

section \<open>The identity map\<close>

text \<open>The ids an entry touches, its subject first, and the part of a state that an absorption sets.\<close>

definition touched_ids :: "ledger_entry \<Rightarrow> string list" where
  "touched_ids e = en_logical_id e # (if en_kind e \<in> {LK_MERGE, LK_SPLIT} then filter (\<lambda>p. p \<noteq> en_logical_id e) (en_prior_ids e) else [])"

definition founded :: "int \<Rightarrow> identity_state option \<Rightarrow> identity_state" where
  "founded seq s = (case s of Some x \<Rightarrow> x
     | None \<Rightarrow> \<lparr>is_status = IS_ACTIVE, is_first_seq = seq, is_last_seq = 0, is_transitions = 0, is_lineage = [], is_absorbed_into = None\<rparr>)"

definition mark_absorbed :: "ledger_entry \<Rightarrow> identity_state \<Rightarrow> identity_state" where
  "mark_absorbed e s = s\<lparr>is_status := IS_ABSORBED, is_absorbed_into := Some (en_logical_id e)\<rparr>"

text \<open>What the entries say of one id, read off the list of those that touch it and of those whose subject it is: the last that touches it
  gives its status, its own entries give the rest.\<close>

definition id_summary :: "string \<Rightarrow> ledger_entry list \<Rightarrow> ledger_entry list \<Rightarrow> identity_state option" where
  "id_summary i touching own = (if touching = [] then None
     else Some \<lparr>
       is_status = (if en_logical_id (last touching) \<noteq> i then IS_ABSORBED
          else if en_kind (last touching) = LK_RETIRE then IS_RETIRED else IS_ACTIVE),
       is_first_seq = en_seq (hd touching),
       is_last_seq = (if own = [] then 0 else en_seq (last own)),
       is_transitions = length own,
       is_lineage = fromkeys (concat (map (\<lambda>e. filter (\<lambda>p. p \<noteq> i) (en_prior_ids e)) (filter (\<lambda>e. en_kind e \<noteq> LK_RETIRE) own))),
       is_absorbed_into = (if en_logical_id (last touching) \<noteq> i then Some (en_logical_id (last touching)) else None)\<rparr>)"

definition state_of_id :: "string \<Rightarrow> ledger_entry list \<Rightarrow> identity_state option" where
  "state_of_id i es = id_summary i (filter (\<lambda>e. i \<in> set (touched_ids e)) es) (filter (\<lambda>e. en_logical_id e = i) es)"

lemma fromkeys_snoc: "fromkeys (xs @ [x]) = (if x \<in> set xs then fromkeys xs else fromkeys xs @ [x])"
proof -
  have "fromkeys_acc seen (xs @ [x]) = fromkeys_acc seen xs @ (if x \<in> set seen \<union> set xs then [] else [x])" for seen
    by (induction seen xs rule: fromkeys_acc.induct) auto
  from this [of "[]"] show ?thesis by (simp add: fromkeys_def)
qed

lemma fold_fromkeys: "fold (\<lambda>p line. if p \<in> set line then line else line @ [p]) ps (fromkeys xs) = fromkeys (xs @ ps)"
proof (induction ps arbitrary: xs)
  case (Cons p ps)
  from Cons.IH [of "xs @ [p]"] show ?case by (simp add: fromkeys_snoc split: if_splits)
qed simp

lemma map_entry_lookup: "map_of (AList.map_entry k f st) i = (if i = k then map_option f (map_of st i) else map_of st i)"
  by (induction st) auto

lemma state_for_lookup: "map_of (state_for k seq st) i = (if i = k then Some (founded seq (map_of st i)) else map_of st i)"
  by (auto simp: state_for_def founded_def map_add_def split: option.split)

lemma absorb_lookup:
  "map_of (fold (absorb e) ps st) i = (if i \<in> set ps then Some (mark_absorbed e (founded (en_seq e) (map_of st i))) else map_of st i)"
proof (induction ps arbitrary: st)
  case (Cons p ps)
  have a: "map_of (absorb e p st) i = (if i = p then Some (mark_absorbed e (founded (en_seq e) (map_of st i))) else map_of st i)" for i
    by (simp add: absorb_def map_entry_lookup state_for_lookup mark_absorbed_def [abs_def])
  have b: "mark_absorbed e (founded (en_seq e) (Some (mark_absorbed e s))) = mark_absorbed e s" for s
    by (simp add: mark_absorbed_def founded_def)
  show ?case by (simp add: Cons.IH a b)
qed simp

lemma apply_entry_lookup:
  "map_of (apply_entry e st) i =
    (if i = en_logical_id e then Some (touch_subject e (founded (en_seq e) (map_of st i)))
     else if i \<in> set (touched_ids e) then Some (mark_absorbed e (founded (en_seq e) (map_of st i)))
     else map_of st i)"
  by (auto simp: apply_entry_def Let_def absorb_lookup map_entry_lookup state_for_lookup touched_ids_def)

lemma summary_own:
  assumes "en_logical_id e = i" and "T = [] \<Longrightarrow> own = []"
  shows "id_summary i (T @ [e]) (own @ [e]) = Some (touch_subject e (founded (en_seq e) (id_summary i T own)))"
proof -
  have lin: "fold (\<lambda>p line. if p \<in> set line then line else line @ [p]) ps [] = fromkeys ps" for ps :: "string list"
    using fold_fromkeys [of ps "[]"] by (simp add: fromkeys_def)
  show ?thesis
    using assms by (cases "T = []") (auto simp: id_summary_def touch_subject_def founded_def fold_fromkeys lin Let_def fromkeys_def [of "[]"])
qed

lemma summary_absorbed:
  assumes "en_logical_id e \<noteq> i" and "T = [] \<Longrightarrow> own = []"
  shows "id_summary i (T @ [e]) own = Some (mark_absorbed e (founded (en_seq e) (id_summary i T own)))"
  using assms by (cases "T = []") (auto simp: id_summary_def mark_absorbed_def founded_def fromkeys_def)

lemma replay_lookup: "map_of (replay_entries es) i = state_of_id i es"
proof (induction es rule: rev_induct)
  case Nil
  show ?case by (simp add: replay_entries_def state_of_id_def id_summary_def)
next
  case (snoc e es)
  let ?T = "filter (\<lambda>e. i \<in> set (touched_ids e)) es" and ?O = "filter (\<lambda>e. en_logical_id e = i) es"
  have r: "replay_entries (es @ [e]) = apply_entry e (replay_entries es)" by (simp add: replay_entries_def)
  have none: "?T = [] \<Longrightarrow> ?O = []" by (auto simp: filter_empty_conv touched_ids_def)
  have self: "i = en_logical_id e \<Longrightarrow> i \<in> set (touched_ids e)" by (simp add: touched_ids_def)
  show ?case
    unfolding r apply_entry_lookup snoc state_of_id_def filter_append
    using self summary_own [OF _ none, of e] summary_absorbed [OF _ none, of e] by (cases "i = en_logical_id e") auto
qed

lemma touched_keys: "map fst (apply_entry e st) = fold (\<lambda>p line. if p \<in> set line then line else line @ [p]) (touched_ids e) (map fst st)"
proof -
  have me: "map fst (AList.map_entry k f st) = map fst st" for k f and st :: identity_map
    by (induction st) auto
  have sf: "map fst (state_for k seq st) = (if k \<in> set (map fst st) then map fst st else map fst st @ [k])" for k seq st
    by (auto simp: state_for_def map_of_eq_None_iff split: if_splits)
  have ab: "map fst (fold (absorb e) ps st) = fold (\<lambda>p line. if p \<in> set line then line else line @ [p]) ps (map fst st)" for ps st
    by (induction ps arbitrary: st) (simp_all add: absorb_def me sf del: set_map)
  show ?thesis by (simp add: apply_entry_def Let_def touched_ids_def ab me sf del: set_map)
qed

lemma replay_keys: "map fst (replay_entries es) = fromkeys (concat (map touched_ids es))"
proof (induction es rule: rev_induct)
  case (snoc e es)
  then show ?case by (simp add: replay_entries_def touched_keys fold_fromkeys)
qed (simp add: replay_entries_def fromkeys_def)

section \<open>Properties\<close>

text \<open>Fact: when identity transitions are durable. Whatever calls append, record or decide, each accepted entry is numbered one after the last,
  and a ledger with entries opens again to itself, respectively passes \<open>verify\<close>, if and only if none of its strings contains the
  next-line character; what it then replays is what the writing handle replays.\<close>

theorem identity_ledger_reopens:
  assumes "env_ok L" and "il_entries (run_ops (identity_op L) cs fresh_identity_ledger) \<noteq> []"
  shows "let g = run_ops (identity_op L) cs fresh_identity_ledger; durable = (\<forall>e \<in> set (il_entries g). clean_entry e) in
    map en_seq (il_entries g) = map int [1..<Suc (length (il_entries g))]
    \<and> (open_identity_ledger L (il_file g) = Inr g \<longleftrightarrow> durable)
    \<and> (verify_identity_ledger L g = Inr () \<longleftrightarrow> durable)"
  using identity_holds_run [of L cs] identity_verify [OF assms(1) identity_holds_run assms(2)]
  unfolding Let_def identity_holds_def by blast

definition demo_identity_calls :: "identity_call list" where
  "demo_identity_calls = [IC_record (JStr ''a'') (JStr ''NEW'') [] [] (JStr ''n'') None (Zoned 0 1),
     IC_record (JStr '' '') (JStr ''NEW'') [] [] (JStr ''n'') None (Zoned 0 2),
     IC_decide \<lparr>dr_note = ''n'', dr_evidence_refs = []\<rparr> \<lparr>ld_match = LM_MATCHED, ld_logical_id = Some ''a'', ld_candidates = [''b'']\<rparr> (Zoned 0 3)]"

definition demo_entry :: "int \<Rightarrow> int \<Rightarrow> ledger_kind \<Rightarrow> string list \<Rightarrow> ledger_entry" where
  "demo_entry n t k ps = \<lparr>en_seq = n, en_ts_utc = t, en_logical_id = ''a'', en_kind = k, en_prior_ids = ps, en_evidence_refs = [], en_note = ''n''\<rparr>"

lemma demo_identity_entries:
  "il_entries (run_ops (identity_op L) demo_identity_calls fresh_identity_ledger) = [demo_entry 1 1 LK_NEW [], demo_entry 2 3 LK_MATCH [''b'']]"
  by (simp add: demo_identity_calls_def fresh_identity_ledger_def record_entry_def record_decision_def mk_entry_def append_entry_def Let_def
      require_str_def require_str_tuple_def require_utc_def json_seq_def json_note_def ledger_kind_of_def enum_of_def strip_def is_space_def
      forget_def mapR_simps demo_entry_def)

theorem identity_ledger_reopens_witness:
  "let g = run_ops (identity_op demo_ledger_env) demo_identity_calls fresh_identity_ledger in
     open_identity_ledger demo_ledger_env (il_file g) = Inr g \<and> verify_identity_ledger demo_ledger_env g = Inr ()"
proof -
  have c: "\<forall>e \<in> set (il_entries (run_ops (identity_op demo_ledger_env) demo_identity_calls fresh_identity_ledger)). clean_entry e"
    unfolding demo_identity_entries by (simp add: clean_entry_def entry_strings_def demo_entry_def clean_def)
  have n: "il_entries (run_ops (identity_op demo_ledger_env) demo_identity_calls fresh_identity_ledger) \<noteq> []"
    unfolding demo_identity_entries by simp
  from identity_ledger_reopens [OF demo_env_ok n] c show ?thesis unfolding Let_def by blast
qed

text \<open>The texts the entries of a ledger hash.\<close>

definition hashed_entries :: "ledger_env \<Rightarrow> identity_ledger \<Rightarrow> string set" where
  "hashed_entries L g = (\<lambda>(d, e). chain_text L d e) ` set (zip (genesis_digest # il_digests g) (il_entries g))"

lemma entry_text_inj:
  assumes "is_sha256 d" and "is_sha256 d'" and "entry_fits n e" and "entry_fits n' e'" and "env_ok L"
    and "chain_text L d e = chain_text L d' e'"
  shows "(d, n, e) = (d', n', e')"
proof -
  have s: "CHR 0x1E \<notin> set d" "CHR 0x1E \<notin> set d'" using assms(1,2) sha_no_separator by blast+
  from split_at_separator [OF s] assms(6)
  have d: "d = d'" and t: "dumps (le_base L) (entry_payload L e) = dumps (le_base L) (entry_payload L e')" by (simp_all add: chain_text_def)
  have "jcanon (entry_payload L e) = jcanon (entry_payload L e')"
    using loads_dumps [OF entry_plain(2) [of L e], of "le_base L"] loads_dumps [OF entry_plain(2) [of L e'], of "le_base L"]
    unfolding t by (metis option.inject)
  then have c: "canon_members (entry_members L e) = canon_members (entry_members L e')" unfolding entry_payload_def jcanon_obj by blast
  have "entry_valid e" "entry_valid e'" using assms(3,4) by (simp_all add: entry_fits_def)
  from entry_reads_back [OF assms(5) this(1)] entry_reads_back [OF assms(5) this(2)] have "e = e'" unfolding c by simp
  with d assms(3,4) show ?thesis by (simp add: entry_fits_def)
qed

lemma chain_previous:
  "set (zip (genesis_digest # map (\<lambda>(d, n, p). lk d n p) (chain_inputs lk genesis_digest 0 ps)) ps)
     = (\<lambda>(d, n, p). (d, p)) ` set (chain_inputs lk genesis_digest 0 ps)"
proof -
  have "zip (d # map (\<lambda>(d, n, p). lk d n p) (chain_inputs lk d n ps)) ps = map (\<lambda>(d, n, p). (d, p)) (chain_inputs lk d n ps)" for d n
    by (induction ps arbitrary: d n) simp_all
  from arg_cong [OF this, of set] show ?thesis by simp
qed

lemma hashed_chain:
  assumes "il_entries g = map fst xs" and "il_digests g = map snd xs"
    and "xs = map (\<lambda>(d, n, e). (e, entry_link L d n e)) (chain_inputs (entry_link L) genesis_digest 0 qs)"
  shows "hashed_entries L g = (\<lambda>(d, n, e). chain_text L d e) ` set (chain_inputs (entry_link L) genesis_digest 0 qs)"
proof -
  let ?I = "chain_inputs (entry_link L) genesis_digest 0 qs"
  have "il_entries g = map (snd \<circ> snd) ?I" "il_digests g = map (\<lambda>(d, n, e). entry_link L d n e) ?I"
    unfolding assms map_map by (rule map_cong; auto)+
  then have "set (zip (genesis_digest # il_digests g) (il_entries g)) = (\<lambda>(d, n, p). (d, p)) ` set ?I"
    by (simp only: map_payload_inputs chain_previous)
  then show ?thesis unfolding hashed_entries_def by (simp add: image_image case_prod_beta')
qed

text \<open>Fact: the identity ledger is tamper-evident. Two files that both open, hold entries and end in the same digest hold the same entries and
  digests, and therefore replay to the same identities, unless sha256 collides on two of the texts those entries hash.\<close>

theorem identity_ledger_tamper_evident:
  assumes env: "env_ok L" and open1: "open_identity_ledger L (Some t) = Inr g" and open2: "open_identity_ledger L (Some t') = Inr g'"
    and ne: "il_entries g \<noteq> []" "il_entries g' \<noteq> []" and head: "head_digest g = head_digest g'"
    and inj: "inj_on (sha256 (le_base L)) (hashed_entries L g \<union> hashed_entries L g')"
  shows "il_entries g = il_entries g' \<and> il_digests g = il_digests g'"
proof -
  obtain rs where rs: "read_entries L t = Inr rs" "il_entries g = map fst rs" "il_digests g = map snd rs"
    using open1 by (auto simp: open_identity_ledger_def mapR_def split: sum.splits)
  obtain rs' where rs': "read_entries L t' = Inr rs'" "il_entries g' = map fst rs'" "il_digests g' = map snd rs'"
    using open2 by (auto simp: open_identity_ledger_def mapR_def split: sum.splits)
  have "rs = rs'"
  proof (rule entry_log.same_records [OF rs(1) [unfolded read_entries_def] rs'(1) [unfolded read_entries_def]])
    show "rs \<noteq> []" "rs' \<noteq> []" using ne rs(2) rs'(2) by auto
    then show "snd (last rs) = snd (last rs')" using head rs(3) rs'(3) by (simp add: head_digest_def last_map)
    fix ps ps'
    let ?I = "chain_inputs (entry_link L) genesis_digest 0"
    assume c: "rs = map (\<lambda>(d, n, e). (e, entry_link L d n e)) (?I ps)" "rs' = map (\<lambda>(d, n, e). (e, entry_link L d n e)) (?I ps')"
      and ok: "list_all (\<lambda>(d, n, e). entry_fits n e) (?I ps)" "list_all (\<lambda>(d, n, e). entry_fits n e) (?I ps')"
    have m: "chain_text L d e \<in> hashed_entries L g \<union> hashed_entries L g'" "is_sha256 d" "entry_fits n e"
      if i: "(d, n, e) \<in> set (?I ps) \<union> set (?I ps')" for d n e
    proof -
      from imageI [OF i, of "\<lambda>(d, n, e). chain_text L d e"] show "chain_text L d e \<in> hashed_entries L g \<union> hashed_entries L g'"
        unfolding hashed_chain [OF rs(2,3) c(1)] hashed_chain [OF rs'(2,3) c(2)] image_Un by simp
      show "is_sha256 d" using i entry_log.written_good [OF env genesis_sha] by blast
      show "entry_fits n e" using i ok unfolding list_all_iff by blast
    qed
    show "inj_on (\<lambda>(d, n, e). entry_link L d n e) (set (?I ps) \<union> set (?I ps'))"
    proof (rule inj_onI)
      fix p q assume p: "p \<in> set (?I ps) \<union> set (?I ps')" and q: "q \<in> set (?I ps) \<union> set (?I ps')"
        and eq: "(\<lambda>(d, n, e). entry_link L d n e) p = (\<lambda>(d, n, e). entry_link L d n e) q"
      obtain d n e d' n' e' where pq: "p = (d, n, e)" "q = (d', n', e')" by (metis surj_pair)
      have "chain_text L d e = chain_text L d' e'"
        using eq p q unfolding pq by (intro inj_onD [OF inj _ m(1) m(1)]) (simp_all add: entry_link_def chain_digest_def)
      from entry_text_inj [OF m(2) m(2) m(3) m(3) env this] p q show "p = q" unfolding pq by blast
    qed
  qed
  then show ?thesis using rs rs' by simp
qed

definition demo_entry_line :: string where
  "demo_entry_line = entry_line demo_ledger_env genesis_digest 0 (demo_entry 1 1 LK_NEW [])"

definition demo_opened :: "string \<Rightarrow> identity_ledger" where
  "demo_opened s = \<lparr>il_file = Some s, il_entries = [demo_entry 1 1 LK_NEW []],
     il_digests = [entry_link demo_ledger_env genesis_digest 0 (demo_entry 1 1 LK_NEW [])]\<rparr>"

lemma demo_entry_opens:
  assumes "s = demo_entry_line \<or> s = demo_entry_line @ [CHR 0x0A]"
  shows "open_identity_ledger demo_ledger_env (Some s) = Inr (demo_opened s)"
proof -
  let ?e = "demo_entry 1 1 LK_NEW []"
  have fit: "entry_fits 0 ?e" by (simp add: entry_fits_def entry_valid_def entry_strings_def demo_entry_def trimmed_def strip_def is_space_def)
  have "clean_entry ?e" by (simp add: clean_entry_def entry_strings_def demo_entry_def clean_def)
  then have nb: "\<forall>c \<in> set demo_entry_line. \<not> is_break c"
    using entry_log.unbroken [OF demo_env_ok genesis_sha] fit unfolding demo_entry_line_def by blast
  have rd: "read_entry_line demo_ledger_env genesis_digest 0 demo_entry_line = Inr (?e, entry_link demo_ledger_env genesis_digest 0 ?e)"
    unfolding demo_entry_line_def by (rule entry_line_read [OF demo_env_ok fit])
  have "demo_entry_line \<noteq> []" by (simp add: demo_entry_line_def entry_line_def entry_json_def dumps.simps)
  then have "split_lines [] s = [demo_entry_line]"
    using assms split_lines_last [OF nb, of "[]"] split_lines_line [OF nb, of "[]" "[]"] by auto
  then show ?thesis by (simp add: open_identity_ledger_def read_entries_def rd mapR_simps demo_opened_def)
qed

theorem identity_ledger_tamper_evident_witness:
  "\<exists>g g'. open_identity_ledger demo_ledger_env (Some demo_entry_line) = Inr g
     \<and> open_identity_ledger demo_ledger_env (Some (demo_entry_line @ [CHR 0x0A])) = Inr g'
     \<and> g \<noteq> g' \<and> il_entries g = il_entries g' \<and> il_digests g = il_digests g'"
proof -
  have o: "open_identity_ledger demo_ledger_env (Some demo_entry_line) = Inr (demo_opened demo_entry_line)"
    "open_identity_ledger demo_ledger_env (Some (demo_entry_line @ [CHR 0x0A])) = Inr (demo_opened (demo_entry_line @ [CHR 0x0A]))"
    using demo_entry_opens by blast+
  have "hashed_entries demo_ledger_env (demo_opened s) = {chain_text demo_ledger_env genesis_digest (demo_entry 1 1 LK_NEW [])}" for s
    by (simp add: hashed_entries_def demo_opened_def)
  then have "inj_on (sha256 (le_base demo_ledger_env)) (hashed_entries demo_ledger_env (demo_opened demo_entry_line)
      \<union> hashed_entries demo_ledger_env (demo_opened (demo_entry_line @ [CHR 0x0A])))" by simp
  from identity_ledger_tamper_evident [OF demo_env_ok o _ _ _ this] have
    "il_entries (demo_opened demo_entry_line) = il_entries (demo_opened (demo_entry_line @ [CHR 0x0A]))
      \<and> il_digests (demo_opened demo_entry_line) = il_digests (demo_opened (demo_entry_line @ [CHR 0x0A]))"
    by (simp add: demo_opened_def head_digest_def)
  moreover have "demo_opened demo_entry_line \<noteq> demo_opened (demo_entry_line @ [CHR 0x0A])" by (simp add: demo_opened_def)
  ultimately show ?thesis using o by blast
qed

text \<open>C14: the identity map is what the entries say. The replay holds exactly the ids the entries touch, in the order of their first
  appearance, and of each id the last entry that touches it decides the status and the survivor, the first one its founding number, and its own
  entries the last number, the count and the lineage.\<close>

theorem identity_replay_exact:
  "map fst (replay_entries es) = fromkeys (concat (map touched_ids es)) \<and> (\<forall>i. map_of (replay_entries es) i = state_of_id i es)"
  using replay_keys replay_lookup by blast

lemma mk_entry_fields:
  "mk_entry a = Inr e \<Longrightarrow> ea_seq a = JInt (en_seq e) \<and> require_str ''logical_id'' (ea_logical_id a) = Inr (en_logical_id e)
     \<and> ledger_kind_of (ea_kind a) = Some (en_kind e)"
  unfolding mk_entry_def bindR_Inr_iff
  by (auto simp: bindR_Inr_iff json_seq_def split: if_split_asm option.splits jval.splits)

text \<open>Fact: a decision reaches the identity map. A resolver's decision that is recorded without an error is either an abstention, which changes
  nothing, or one new entry at the head whose subject is the decided id; after it the replay shows that id as ACTIVE, absorbed into nothing, last
  touched by this entry, with one transition more than its entries counted before.\<close>

theorem decision_replayed:
  assumes "record_decision L rc d now g = (Inr (), g')"
  shows "(ld_match d = LM_AMBIGUOUS \<and> g' = g) \<or>
    (\<exists>e s. il_entries g' = il_entries g @ [e] \<and> en_seq e = int (length (il_entries g)) + 1 \<and> ld_match d \<noteq> LM_AMBIGUOUS
      \<and> Some (en_logical_id e) = map_option strip (ld_logical_id d)
      \<and> en_kind e = (if ld_match d = LM_MATCHED then LK_MATCH else LK_NEW)
      \<and> map_of (replay_entries (il_entries g')) (en_logical_id e) = Some s
      \<and> is_status s = IS_ACTIVE \<and> is_absorbed_into s = None \<and> is_last_seq s = en_seq e
      \<and> is_transitions s = length (filter (\<lambda>x. en_logical_id x = en_logical_id e) (il_entries g)) + 1)"
proof (cases "ld_match d = LM_AMBIGUOUS")
  case True
  with assms show ?thesis by (simp add: record_decision_def)
next
  case False
  with assms obtain i where i: "ld_logical_id d = Some i" by (auto simp: record_decision_def split: option.splits)
  let ?k = "if ld_match d = LM_MATCHED then LK_MATCH else LK_NEW"
  let ?a = "\<lparr>ea_seq = JInt (int (length (il_entries g)) + 1), ea_ts_utc = now, ea_logical_id = JStr i, ea_kind = JStr (ledger_kind_value ?k),
    ea_prior_ids = map JStr (if ld_match d = LM_MATCHED then ld_candidates d else []), ea_evidence_refs = map JStr (dr_evidence_refs rc),
    ea_note = JStr (dr_note rc)\<rparr>"
  have rec: "forget (case mk_entry ?a of Inl e \<Rightarrow> (Inl e, g) | Inr e \<Rightarrow> append_entry L e g) = (Inr (), g')"
    using assms False i by (simp add: record_decision_def record_entry_def)
  then obtain e where e: "mk_entry ?a = Inr e" by (cases "mk_entry ?a") (simp_all add: forget_def mapR_simps)
  with rec have "forget (append_entry L e g) = (Inr (), g')" by simp
  then have e2: "il_entries g' = il_entries g @ [e]"
    by (auto simp: append_entry_def forget_def mapR_simps Let_def split: if_split_asm)
  have f: "en_seq e = int (length (il_entries g)) + 1" "en_logical_id e = strip i" "en_kind e = ?k"
    using mk_entry_fields [OF e] by (simp_all add: require_str_def Let_def split: if_split_asm)
  have r: "replay_entries (il_entries g') = apply_entry e (replay_entries (il_entries g))" by (simp add: e2 replay_entries_def)
  let ?s = "touch_subject e (founded (en_seq e) (state_of_id (en_logical_id e) (il_entries g)))"
  have s: "map_of (replay_entries (il_entries g')) (en_logical_id e) = Some ?s" unfolding r apply_entry_lookup replay_lookup by simp
  have "filter (\<lambda>x. en_logical_id x = en_logical_id e) (il_entries g) = []"
    if "filter (\<lambda>x. en_logical_id e \<in> set (touched_ids x)) (il_entries g) = []"
    using that by (auto simp: filter_empty_conv touched_ids_def)
  then have t: "is_transitions ?s = length (filter (\<lambda>x. en_logical_id x = en_logical_id e) (il_entries g)) + 1"
    by (auto simp: touch_subject_def Let_def founded_def state_of_id_def id_summary_def)
  have "is_status ?s = IS_ACTIVE \<and> is_absorbed_into ?s = None \<and> is_last_seq ?s = en_seq e"
    using f(3) by (simp add: touch_subject_def Let_def split: if_split_asm)
  then show ?thesis using s t e2 f i False by (intro disjI2 exI [of _ e] exI [of _ ?s] conjI) simp_all
qed

theorem decision_replayed_witness:
  "\<exists>g'. record_decision demo_ledger_env \<lparr>dr_note = ''n'', dr_evidence_refs = []\<rparr>
       \<lparr>ld_match = LM_MATCHED, ld_logical_id = Some ''a'', ld_candidates = [''b'']\<rparr> (Zoned 0 3) (demo_opened demo_entry_line) = (Inr (), g')
     \<and> map_option is_status (map_of (replay_entries (il_entries g')) ''a'') = Some IS_ACTIVE"
proof -
  let ?d = "\<lparr>ld_match = LM_MATCHED, ld_logical_id = Some ''a'', ld_candidates = [''b'']\<rparr>"
  obtain g' where g': "record_decision demo_ledger_env \<lparr>dr_note = ''n'', dr_evidence_refs = []\<rparr> ?d (Zoned 0 3) (demo_opened demo_entry_line) = (Inr (), g')"
    by (simp add: record_decision_def record_entry_def mk_entry_def append_entry_def Let_def demo_opened_def require_str_def require_str_tuple_def
        require_utc_def json_seq_def json_note_def ledger_kind_of_def enum_of_def strip_def is_space_def forget_def mapR_simps)
  have a: "strip ''a'' = ''a''" by (simp add: strip_def is_space_def)
  from decision_replayed [OF g'] show ?thesis
  proof (elim disjE exE conjE)
    fix e s assume e: "Some (en_logical_id e) = map_option strip (ld_logical_id ?d)"
      and s: "map_of (replay_entries (il_entries g')) (en_logical_id e) = Some s" "is_status s = IS_ACTIVE"
    from e a have "en_logical_id e = ''a''" by simp
    with s g' show ?thesis by (intro exI [of _ g']) simp
  qed simp
qed

text \<open>Fact: an id that only an absorption founded has a first number but no last one. After an entry that merges the unknown id \<open>b\<close> into
  \<open>a\<close>, the identity \<open>b\<close> reads \<^verbatim>\<open>first_seq\<close> 1 and \<^verbatim>\<open>last_seq\<close> 0, though entry 1 is the last transition that touched it.\<close>

theorem absorbed_founding_unnumbered:
  "map_of (replay_entries [demo_entry 1 1 LK_MERGE [''b'']]) ''b'' = Some \<lparr>is_status = IS_ABSORBED, is_first_seq = 1, is_last_seq = 0,
     is_transitions = 0, is_lineage = [], is_absorbed_into = Some ''a''\<rparr>"
  unfolding replay_lookup by (simp add: state_of_id_def id_summary_def touched_ids_def demo_entry_def fromkeys_def)

end
