(* ===== verification/Replay.thy ===== *)
theory Replay
  imports Consumption
begin

text \<open>
  \<^verbatim>\<open>packages/cir-python/src/akc_cir/replay.py\<close>: rebuilding the context of a past consumption from the snapshot of its
  world and the recorded policy revisions. The history directory is a function from the id of a world state to the text of
  its snapshot, if there is one. Only aware stamps get past the checks, so a stamp that was checked is its instant.
\<close>

section \<open>Revisions, snapshots and packages\<close>

definition require_aware :: "string \<Rightarrow> stamp \<Rightarrow> pyerr + int" where
  "require_aware name t = (case t of Local n \<Rightarrow> Inl (ValueError (name @ '' must be timezone-aware'')) | Zoned offset i \<Rightarrow> Inr i)"

definition parse_aware :: "ledger_env \<Rightarrow> string \<Rightarrow> jval \<Rightarrow> pyerr + int" where
  "parse_aware L name v = (case v of
     JStr s \<Rightarrow> (case iso_parse L s of
         None \<Rightarrow> Inl (ReplayError (name @ '' is not ISO-8601''))
       | Some (Local n) \<Rightarrow> Inl (ReplayError (name @ '' must carry a timezone offset''))
       | Some (Zoned offset i) \<Rightarrow> Inr i)
   | _ \<Rightarrow> Inl (ReplayError (name @ '' must be an ISO-8601 string'')))"

record policy_revision =
  pr_revision_id :: string
  pr_known_at :: int
  pr_valid_from :: "int option"
  pr_rules :: "(string \<times> jval) list"

definition mk_policy_revision :: "string \<Rightarrow> stamp \<Rightarrow> stamp option \<Rightarrow> (string \<times> jval) list \<Rightarrow> pyerr + policy_revision" where
  "mk_policy_revision i known valid rules =
    (if strip i = [] then Inl (ValueError ''revision_id is required'')
     else bindR (require_aware ''known_at'' known) (\<lambda>k.
       bindR (case valid of None \<Rightarrow> Inr None | Some t \<Rightarrow> mapR Some (require_aware ''valid_from'' t)) (\<lambda>v.
         Inr \<lparr>pr_revision_id = i, pr_known_at = k, pr_valid_from = v, pr_rules = rules\<rparr>)))"

record world_snapshot =
  ws_world_state_id :: string
  ws_workspace_id :: string
  ws_compiler_version :: string
  ws_status :: string
  ws_built_at :: int
  ws_activated_at :: int

record snapshot_claim =
  sc_claim_id :: string
  sc_text :: string
  sc_valid_from :: "int option"
  sc_valid_until :: "int option"

record snapshot_evidence =
  sv_evidence_id :: string
  sv_kind :: string
  sv_detail :: "(string \<times> jval) list"

record context_package =
  cp_receipt :: consumption_receipt
  cp_world_state :: world_snapshot
  cp_claims :: "snapshot_claim list"
  cp_evidence :: "snapshot_evidence list"
  cp_policy_rev :: policy_revision
  cp_valid_time :: int
  cp_known_time :: int
  cp_consumption_time :: int

section \<open>Reading a snapshot\<close>

type_synonym world_history = "string \<Rightarrow> string option"

definition get_default :: "(string \<times> jval) list \<Rightarrow> string \<Rightarrow> jval \<Rightarrow> jval" where
  "get_default kvs k d = (case map_of kvs k of None \<Rightarrow> d | Some v \<Rightarrow> v)"

text \<open>\<open>str\<close> of a JSON value.\<close>

definition as_str :: "ledger_env \<Rightarrow> jval \<Rightarrow> string" where
  "as_str L v = (case v of JStr s \<Rightarrow> s | _ \<Rightarrow> py_str L v)"

definition load_snapshot :: "ledger_env \<Rightarrow> world_history \<Rightarrow> string \<Rightarrow> pyerr + (string \<times> jval) list" where
  "load_snapshot L h i = (case h i of
     None \<Rightarrow> Inl (ReplayError ''world history has no snapshot'')
   | Some t \<Rightarrow> (case json_loads L t of
       None \<Rightarrow> Inl (ValueError ''JSONDecodeError'')
     | Some (JObj kvs) \<Rightarrow> Inr kvs
     | Some _ \<Rightarrow> Inl (ReplayError ''snapshot is not a JSON object'')))"

definition usable :: "jval \<Rightarrow> bool" where
  "usable v = (case v of JStr s \<Rightarrow> s \<noteq> [] | _ \<Rightarrow> False)"

definition parse_snapshot :: "ledger_env \<Rightarrow> (string \<times> jval) list \<Rightarrow> string \<Rightarrow> pyerr + world_snapshot" where
  "parse_snapshot L kvs expected =
    (case List.find (\<lambda>k. \<not> usable (get_key kvs k)) [''world_state_id'', ''workspace_id'', ''compiler_version''] of
      Some k \<Rightarrow> Inl (ReplayError (''snapshot is missing a usable '' @ k))
    | None \<Rightarrow>
      (if as_str L (get_key kvs ''world_state_id'') \<noteq> expected then Inl (ReplayError ''snapshot records another world state'')
       else bindR (parse_aware L ''built_at'' (get_key kvs ''built_at'')) (\<lambda>built.
         bindR (parse_aware L ''activated_at'' (get_key kvs ''activated_at'')) (\<lambda>activated.
           Inr \<lparr>ws_world_state_id = expected, ws_workspace_id = as_str L (get_key kvs ''workspace_id''),
             ws_compiler_version = as_str L (get_key kvs ''compiler_version''),
             ws_status = as_str L (get_default kvs ''status'' (JStr ''ACTIVE'')), ws_built_at = built, ws_activated_at = activated\<rparr>))))"

definition optional_stamp :: "ledger_env \<Rightarrow> string \<Rightarrow> jval \<Rightarrow> pyerr + int option" where
  "optional_stamp L name v = (if v = JNull then Inr None else mapR Some (parse_aware L name v))"

definition parse_claim :: "ledger_env \<Rightarrow> jval \<Rightarrow> pyerr + (string \<times> snapshot_claim)" where
  "parse_claim L v = (case v of
     JObj kvs \<Rightarrow>
       (if \<not> usable (get_key kvs ''claim_id'') then Inl (ReplayError ''snapshot has a claim without a usable claim_id'')
        else (let i = as_str L (get_key kvs ''claim_id'') in
          bindR (optional_stamp L (''claim valid_from'') (get_key kvs ''valid_from'')) (\<lambda>from.
          bindR (optional_stamp L (''claim valid_until'') (get_key kvs ''valid_until'')) (\<lambda>until.
            Inr (i, \<lparr>sc_claim_id = i, sc_text = as_str L (get_default kvs ''text'' (JStr [])), sc_valid_from = from, sc_valid_until = until\<rparr>)))))
   | _ \<Rightarrow> Inl (ReplayError ''snapshot has a non-object claim entry''))"

definition parse_evidence_entry :: "ledger_env \<Rightarrow> jval \<Rightarrow> pyerr + (string \<times> snapshot_evidence)" where
  "parse_evidence_entry L v = (case v of
     JObj kvs \<Rightarrow>
       (if \<not> usable (get_key kvs ''evidence_id'') then Inl (ReplayError ''snapshot has evidence without a usable evidence_id'')
        else (let i = as_str L (get_key kvs ''evidence_id'') in
          Inr (i, \<lparr>sv_evidence_id = i, sv_kind = as_str L (get_default kvs ''kind'' (JStr [])), sv_detail = kvs\<rparr>)))
   | _ \<Rightarrow> Inl (ReplayError ''snapshot has a non-object evidence entry''))"

text \<open>The dictionary of the parsed entries, the last of a key standing, and the selection of the wanted ones from it.\<close>

definition select_entries :: "(jval \<Rightarrow> pyerr + (string \<times> 'a)) \<Rightarrow> string \<Rightarrow> jval \<Rightarrow> string list \<Rightarrow> pyerr + 'a list" where
  "select_entries parse what v wanted = (case v of
     JList vs \<Rightarrow> bindR (mapE parse vs) (\<lambda>parsed.
       if \<forall>i \<in> set wanted. map_of (rev parsed) i \<noteq> None then Inr (map (\<lambda>i. the (map_of (rev parsed) i)) wanted)
       else Inl (ReplayError (''snapshot does not contain '' @ what)))
   | _ \<Rightarrow> Inl (ReplayError (''snapshot has a malformed list of '' @ what)))"

definition parse_claims :: "ledger_env \<Rightarrow> (string \<times> jval) list \<Rightarrow> string list \<Rightarrow> pyerr + snapshot_claim list" where
  "parse_claims L kvs wanted = select_entries (parse_claim L) ''claims'' (get_default kvs ''claims'' (JList [])) wanted"

definition parse_evidence :: "ledger_env \<Rightarrow> (string \<times> jval) list \<Rightarrow> string list \<Rightarrow> pyerr + snapshot_evidence list" where
  "parse_evidence L kvs wanted = select_entries (parse_evidence_entry L) ''evidence'' (get_default kvs ''evidence'' (JList [])) wanted"

section \<open>Reconstruction\<close>

text \<open>\<open>max(xs, key=f)\<close>: the first element with the greatest key.\<close>

fun max_by :: "('a \<Rightarrow> 'k::linorder) \<Rightarrow> 'a list \<Rightarrow> 'a option" where
  "max_by f [] = None"
| "max_by f (x # xs) = (case max_by f xs of None \<Rightarrow> Some x | Some y \<Rightarrow> if f y \<le> f x then Some x else Some y)"

definition revision_key :: "policy_revision \<Rightarrow> int \<times> string" where
  "revision_key p = (pr_known_at p, pr_revision_id p)"

definition select_policy :: "policy_revision list \<Rightarrow> int \<Rightarrow> policy_revision option" where
  "select_policy revisions consumed = max_by revision_key (filter (\<lambda>p. pr_known_at p \<le> consumed) revisions)"

definition reconstruct_context ::
  "ledger_env \<Rightarrow> consumption_receipt \<Rightarrow> world_history \<Rightarrow> policy_revision list \<Rightarrow> pyerr + context_package" where
  "reconstruct_context L r h revisions =
    bindR (load_snapshot L h (cr_world_state_id r)) (\<lambda>kvs.
    bindR (parse_snapshot L kvs (cr_world_state_id r)) (\<lambda>w.
    bindR (parse_claims L kvs (cr_claim_ids r)) (\<lambda>claims.
    bindR (parse_evidence L kvs (cr_evidence_ids r)) (\<lambda>evidence.
      (case select_policy revisions (cr_requested_at r) of
        None \<Rightarrow> Inl (ReplayError ''no policy revision was known'')
      | Some p \<Rightarrow>
        (let known = max (ws_activated_at w) (pr_known_at p) in
         if cr_requested_at r < known then Inl (ReplayError ''inconsistent history'')
         else Inr \<lparr>cp_receipt = r, cp_world_state = w, cp_claims = claims, cp_evidence = evidence, cp_policy_rev = p,
           cp_valid_time = ws_built_at w, cp_known_time = known, cp_consumption_time = cr_requested_at r\<rparr>))))))"

section \<open>Selection\<close>

lemma max_by_None_iff [simp]: "max_by f xs = None \<longleftrightarrow> xs = []"
  by (cases xs) (auto split: option.splits)

lemma max_by_mem: "max_by f xs = Some x \<Longrightarrow> x \<in> set xs"
  by (induction xs arbitrary: x) (auto split: option.splits if_splits)

lemma max_by_greatest: "max_by f xs = Some x \<Longrightarrow> y \<in> set xs \<Longrightarrow> f y \<le> f x"
proof (induction xs arbitrary: x y)
  case (Cons z zs)
  show ?case
  proof (cases "max_by f zs")
    case None
    with Cons.prems show ?thesis by simp
  next
    case (Some w)
    with Cons.prems(1) have x: "x = (if f w \<le> f z then z else w)" by (simp split: if_splits)
    have w: "f v \<le> f w" if "v \<in> set zs" for v using Cons.IH [OF Some that] .
    show ?thesis
    proof (cases "y = z")
      case True
      then show ?thesis using x by auto
    next
      case False
      then have "f y \<le> f w" using w Cons.prems(2) by simp
      then show ?thesis using x by (auto dest: order_trans)
    qed
  qed
qed simp

lemma select_policy_Some:
  assumes "select_policy revisions t = Some p"
  shows "p \<in> set revisions \<and> pr_known_at p \<le> t \<and> (\<forall>q \<in> set revisions. pr_known_at q \<le> t \<longrightarrow> revision_key q \<le> revision_key p)"
  using max_by_mem [OF assms [unfolded select_policy_def]] max_by_greatest [OF assms [unfolded select_policy_def]] by simp

lemma select_policy_known: "select_policy (filter (\<lambda>q. pr_known_at q \<le> t) revisions) t = select_policy revisions t"
  by (simp add: select_policy_def)

lemma max_by_map: "(\<And>x. f (g x) = f x) \<Longrightarrow> max_by f (map g xs) = map_option g (max_by f xs)"
  by (induction xs) (auto split: option.splits)

lemma select_entries_ids:
  assumes "select_entries parse what v wanted = Inr xs" and "\<And>v i x. parse v = Inr (i, x) \<Longrightarrow> id_of x = i"
  shows "map id_of xs = wanted"
proof -
  obtain vs where v: "v = JList vs" using assms(1) by (cases v) (simp_all add: select_entries_def)
  obtain parsed where p: "mapE parse vs = Inr parsed" using assms(1) by (cases "mapE parse vs") (simp_all add: select_entries_def v)
  have all: "\<forall>i \<in> set wanted. map_of (rev parsed) i \<noteq> None" and xs: "xs = map (\<lambda>i. the (map_of (rev parsed) i)) wanted"
    using assms(1) by (simp_all only: select_entries_def v p jval.case bindR_simps split: if_split_asm) simp_all
  have ids: "\<forall>q \<in> set parsed. id_of (snd q) = fst q"
    using p
  proof (induction vs arbitrary: parsed)
    case (Cons w ws)
    then obtain q qs where q: "parse w = Inr q" "mapE parse ws = Inr qs" "parsed = q # qs" by (auto split: sum.splits)
    have "id_of (snd q) = fst q" by (rule assms(2) [of w]) (simp add: q(1))
    with Cons.IH [OF q(2)] q(3) show ?case by simp
  qed simp
  have "id_of (the (map_of (rev parsed) i)) = i" if i: "i \<in> set wanted" for i
  proof -
    obtain x where x: "map_of (rev parsed) i = Some x" using bspec [OF all i] by (cases "map_of (rev parsed) i") simp_all
    from map_of_SomeD [OF this] have "(i, x) \<in> set parsed" unfolding set_rev .
    from bspec [OF ids this] have "id_of x = i" by (simp only: fst_conv snd_conv)
    then show ?thesis unfolding x option.sel .
  qed
  then show ?thesis unfolding xs by (simp add: comp_def map_idI)
qed

lemma parse_claim_id: "parse_claim L v = Inr (i, c) \<Longrightarrow> sc_claim_id c = i"
  by (auto simp: parse_claim_def bindR_Inr_iff Let_def split: jval.splits if_splits)

lemma parse_evidence_id: "parse_evidence_entry L v = Inr (i, c) \<Longrightarrow> sv_evidence_id c = i"
  by (auto simp: parse_evidence_entry_def Let_def split: jval.splits if_splits)

lemma parse_snapshot_id: "parse_snapshot L kvs i = Inr w \<Longrightarrow> ws_world_state_id w = i"
  by (auto simp: parse_snapshot_def bindR_Inr_iff split: option.splits if_splits)

lemma reconstruct_Inr:
  assumes "reconstruct_context L r h revisions = Inr p"
  obtains kvs where "load_snapshot L h (cr_world_state_id r) = Inr kvs"
      "parse_snapshot L kvs (cr_world_state_id r) = Inr (cp_world_state p)"
      "parse_claims L kvs (cr_claim_ids r) = Inr (cp_claims p)" "parse_evidence L kvs (cr_evidence_ids r) = Inr (cp_evidence p)"
    and "select_policy revisions (cr_requested_at r) = Some (cp_policy_rev p)"
      "cp_known_time p = max (ws_activated_at (cp_world_state p)) (pr_known_at (cp_policy_rev p))" "cp_known_time p \<le> cp_consumption_time p"
      "cp_receipt p = r" "cp_valid_time p = ws_built_at (cp_world_state p)" "cp_consumption_time p = cr_requested_at r"
proof -
  obtain kvs w cs es where k: "load_snapshot L h (cr_world_state_id r) = Inr kvs" "parse_snapshot L kvs (cr_world_state_id r) = Inr w"
      "parse_claims L kvs (cr_claim_ids r) = Inr cs" "parse_evidence L kvs (cr_evidence_ids r) = Inr es"
    using assms unfolding reconstruct_context_def bindR_Inr_iff by blast
  from assms k obtain q where q: "select_policy revisions (cr_requested_at r) = Some q"
    by (cases "select_policy revisions (cr_requested_at r)") (simp_all add: reconstruct_context_def)
  show ?thesis
    using assms k q by (intro that [of kvs]) (auto simp: reconstruct_context_def Let_def split: if_split_asm)
qed

section \<open>Properties\<close>

text \<open>Fact: a reconstruction is exact and bounded. It succeeds with a package exactly when the snapshot of the receipt's world parses to the
  package's world, claims and evidence, which are the ones the receipt names, in its order; the package's policy is a recorded one, known by the time of
  the consumption, with the greatest time and id of those; and nothing in the package was known after the consumption.\<close>

theorem reconstruction_exact:
  "reconstruct_context L r h revisions = Inr p \<longleftrightarrow>
    (\<exists>kvs. load_snapshot L h (cr_world_state_id r) = Inr kvs
      \<and> parse_snapshot L kvs (cr_world_state_id r) = Inr (cp_world_state p)
      \<and> parse_claims L kvs (cr_claim_ids r) = Inr (cp_claims p) \<and> parse_evidence L kvs (cr_evidence_ids r) = Inr (cp_evidence p))
    \<and> ws_world_state_id (cp_world_state p) = cr_world_state_id r
    \<and> map sc_claim_id (cp_claims p) = cr_claim_ids r \<and> map sv_evidence_id (cp_evidence p) = cr_evidence_ids r
    \<and> select_policy revisions (cr_requested_at r) = Some (cp_policy_rev p)
    \<and> cp_known_time p = max (ws_activated_at (cp_world_state p)) (pr_known_at (cp_policy_rev p))
    \<and> cp_known_time p \<le> cp_consumption_time p
    \<and> cp_receipt p = r \<and> cp_valid_time p = ws_built_at (cp_world_state p) \<and> cp_consumption_time p = cr_requested_at r"
  (is "?l \<longleftrightarrow> ?r")
proof
  assume ?l
  then obtain kvs where kvs: "load_snapshot L h (cr_world_state_id r) = Inr kvs"
      "parse_snapshot L kvs (cr_world_state_id r) = Inr (cp_world_state p)"
      "parse_claims L kvs (cr_claim_ids r) = Inr (cp_claims p)" "parse_evidence L kvs (cr_evidence_ids r) = Inr (cp_evidence p)"
    and rest: "select_policy revisions (cr_requested_at r) = Some (cp_policy_rev p)"
      "cp_known_time p = max (ws_activated_at (cp_world_state p)) (pr_known_at (cp_policy_rev p))" "cp_known_time p \<le> cp_consumption_time p"
      "cp_receipt p = r" "cp_valid_time p = ws_built_at (cp_world_state p)" "cp_consumption_time p = cr_requested_at r"
    by (rule reconstruct_Inr) blast
  moreover have "map sc_claim_id (cp_claims p) = cr_claim_ids r"
    by (rule select_entries_ids [OF kvs(3) [unfolded parse_claims_def]]) (rule parse_claim_id)
  moreover have "map sv_evidence_id (cp_evidence p) = cr_evidence_ids r"
    by (rule select_entries_ids [OF kvs(4) [unfolded parse_evidence_def]]) (rule parse_evidence_id)
  ultimately show ?r using parse_snapshot_id by blast
next
  assume ?r
  then show ?l by (auto simp: reconstruct_context_def Let_def)
qed

text \<open>A history whose one snapshot records the demo claim, built at a given time and activated at 4.\<close>

definition demo_snapshot :: "int \<Rightarrow> jval" where
  "demo_snapshot built = JObj [(''world_state_id'', JStr ''w1''), (''workspace_id'', JStr ''s1''), (''compiler_version'', JStr ''c1''),
     (''built_at'', JStr (int_str built)), (''activated_at'', JStr (int_str 4)),
     (''claims'', JList [JObj [(''claim_id'', JStr ''k1''), (''text'', JStr ''x'')]])]"

definition demo_history :: "int \<Rightarrow> world_history" where
  "demo_history built = [''w1'' \<mapsto> dumps (le_base demo_ledger_env) (demo_snapshot built)]"

definition demo_policies :: "policy_revision list" where
  "demo_policies = [\<lparr>pr_revision_id = ''v1'', pr_known_at = 3, pr_valid_from = None, pr_rules = []\<rparr>,
     \<lparr>pr_revision_id = ''v2'', pr_known_at = 9, pr_valid_from = Some 0, pr_rules = []\<rparr>]"

definition demo_package :: "int \<Rightarrow> context_package" where
  "demo_package built = \<lparr>cp_receipt = demo_receipt ''r1'' 5,
     cp_world_state = \<lparr>ws_world_state_id = ''w1'', ws_workspace_id = ''s1'', ws_compiler_version = ''c1'', ws_status = ''ACTIVE'',
       ws_built_at = built, ws_activated_at = 4\<rparr>,
     cp_claims = [\<lparr>sc_claim_id = ''k1'', sc_text = ''x'', sc_valid_from = None, sc_valid_until = None\<rparr>], cp_evidence = [],
     cp_policy_rev = \<lparr>pr_revision_id = ''v1'', pr_known_at = 3, pr_valid_from = None, pr_rules = []\<rparr>,
     cp_valid_time = built, cp_known_time = 4, cp_consumption_time = 5\<rparr>"

lemma demo_reconstructed: "reconstruct_context demo_ledger_env (demo_receipt ''r1'' 5) (demo_history built) demo_policies = Inr (demo_package built)"
proof -
  let ?kvs = "canon_members [(''world_state_id'', JStr ''w1''), (''workspace_id'', JStr ''s1''), (''compiler_version'', JStr ''c1''),
     (''built_at'', JStr (int_str built)), (''activated_at'', JStr (int_str 4)),
     (''claims'', JList [JObj [(''claim_id'', JStr ''k1''), (''text'', JStr ''x'')]])]"
  have "json_loads demo_ledger_env (dumps (le_base demo_ledger_env) (demo_snapshot built)) = Some (jcanon (demo_snapshot built))"
    using demo_env_ok unfolding env_ok_def by (simp add: demo_snapshot_def)
  then have load: "load_snapshot demo_ledger_env (demo_history built) ''w1'' = Inr ?kvs"
    by (simp add: load_snapshot_def demo_history_def demo_snapshot_def canon_members_def)
  have iso: "iso_parse demo_ledger_env (int_str i) = Some (Zoned 0 i)" for i
    using demo_env_ok by (simp add: env_ok_def demo_ledger_env_def)
  have snap: "parse_snapshot demo_ledger_env ?kvs ''w1'' = Inr (cp_world_state (demo_package built))"
    by (simp add: parse_snapshot_def canon_members_def get_key_def get_default_def usable_def as_str_def parse_aware_def iso demo_package_def)
  have claims: "parse_claims demo_ledger_env ?kvs [''k1''] = Inr (cp_claims (demo_package built))"
    by (simp add: parse_claims_def select_entries_def canon_members_def get_key_def get_default_def usable_def as_str_def parse_claim_def
        optional_stamp_def demo_package_def Let_def)
  have ev: "parse_evidence demo_ledger_env ?kvs [] = Inr []"
    by (simp add: parse_evidence_def select_entries_def canon_members_def get_default_def)
  have pol: "select_policy demo_policies 5 = Some (cp_policy_rev (demo_package built))"
    by (simp add: select_policy_def demo_policies_def demo_package_def)
  show ?thesis
    using load snap claims ev pol by (simp add: reconstruct_context_def demo_receipt_def Let_def) (simp add: demo_package_def demo_receipt_def)
qed

text \<open>Later knowledge does not reach back: a reconstruction depends only on the snapshot of the receipt's world and on the policy revisions
  known by the time of the consumption.\<close>

lemma reconstruction_ignores_later:
  assumes "h (cr_world_state_id r) = h' (cr_world_state_id r)"
    and "filter (\<lambda>q. pr_known_at q \<le> cr_requested_at r) revisions = filter (\<lambda>q. pr_known_at q \<le> cr_requested_at r) revisions'"
  shows "reconstruct_context L r h revisions = reconstruct_context L r h' revisions'"
proof -
  have "select_policy revisions (cr_requested_at r) = select_policy revisions' (cr_requested_at r)" using assms(2) by (simp add: select_policy_def)
  moreover have "load_snapshot L h (cr_world_state_id r) = load_snapshot L h' (cr_world_state_id r)" using assms(1) by (simp add: load_snapshot_def)
  ultimately show ?thesis by (simp add: reconstruct_context_def)
qed

text \<open>C18: a reconstruction is what was known. A package that is returned is about the receipt's world and holds exactly the claims and evidence the
  receipt names, in its order; its policy is the recorded one with the greatest time and id among those known by the time of the consumption;
  the world was activated by then and nothing in the package was known later; and no other snapshot and no later-recorded revision, however far
  back it declares its validity, would have changed it.\<close>

theorem reconstruction_sound:
  assumes "reconstruct_context L r h revisions = Inr p"
  shows "ws_world_state_id (cp_world_state p) = cr_world_state_id r
    \<and> map sc_claim_id (cp_claims p) = cr_claim_ids r \<and> map sv_evidence_id (cp_evidence p) = cr_evidence_ids r
    \<and> cp_policy_rev p \<in> set revisions \<and> pr_known_at (cp_policy_rev p) \<le> cr_requested_at r
    \<and> (\<forall>q \<in> set revisions. pr_known_at q \<le> cr_requested_at r \<longrightarrow> revision_key q \<le> revision_key (cp_policy_rev p))
    \<and> ws_activated_at (cp_world_state p) \<le> cr_requested_at r
    \<and> cp_known_time p \<le> cp_consumption_time p \<and> cp_consumption_time p = cr_requested_at r
    \<and> (\<forall>h' revisions'. h' (cr_world_state_id r) = h (cr_world_state_id r)
        \<and> filter (\<lambda>q. pr_known_at q \<le> cr_requested_at r) revisions' = filter (\<lambda>q. pr_known_at q \<le> cr_requested_at r) revisions
        \<longrightarrow> reconstruct_context L r h' revisions' = Inr p)"
proof -
  from assms obtain kvs where kvs: "parse_snapshot L kvs (cr_world_state_id r) = Inr (cp_world_state p)"
      "parse_claims L kvs (cr_claim_ids r) = Inr (cp_claims p)" "parse_evidence L kvs (cr_evidence_ids r) = Inr (cp_evidence p)"
    and rest: "select_policy revisions (cr_requested_at r) = Some (cp_policy_rev p)"
      "cp_known_time p = max (ws_activated_at (cp_world_state p)) (pr_known_at (cp_policy_rev p))" "cp_known_time p \<le> cp_consumption_time p"
      "cp_consumption_time p = cr_requested_at r"
    by (rule reconstruct_Inr) blast
  have "map sc_claim_id (cp_claims p) = cr_claim_ids r"
    by (rule select_entries_ids [OF kvs(2) [unfolded parse_claims_def]]) (rule parse_claim_id)
  moreover have "map sv_evidence_id (cp_evidence p) = cr_evidence_ids r"
    by (rule select_entries_ids [OF kvs(3) [unfolded parse_evidence_def]]) (rule parse_evidence_id)
  moreover have "ws_activated_at (cp_world_state p) \<le> cr_requested_at r" using rest(2-4) by simp
  moreover have "reconstruct_context L r h' revisions' = Inr p" if "h' (cr_world_state_id r) = h (cr_world_state_id r)"
    "filter (\<lambda>q. pr_known_at q \<le> cr_requested_at r) revisions' = filter (\<lambda>q. pr_known_at q \<le> cr_requested_at r) revisions" for h' revisions'
    using reconstruction_ignores_later [of h' r h, OF that(1) that(2), of L] assms by simp
  ultimately show ?thesis using select_policy_Some [OF rest(1)] parse_snapshot_id [OF kvs(1)] rest(3,4) by blast
qed

theorem reconstruction_sound_witness:
  "reconstruct_context demo_ledger_env (demo_receipt ''r1'' 5) (demo_history 2) [hd demo_policies] = Inr (demo_package 2)"
proof -
  have w: "cr_world_state_id (demo_receipt ''r1'' 5) = ''w1'' \<and> cr_requested_at (demo_receipt ''r1'' 5) = 5" by (simp add: demo_receipt_def)
  have "filter (\<lambda>q. pr_known_at q \<le> 5) [hd demo_policies] = filter (\<lambda>q. pr_known_at q \<le> 5) demo_policies" by (simp add: demo_policies_def)
  with reconstruction_sound [OF demo_reconstructed [of 2]] show ?thesis unfolding conjunct1 [OF w] conjunct2 [OF w] by blast
qed

text \<open>Fact: backdating has no effect. Whatever validity the revisions declare, the same one is selected.\<close>

theorem backdating_without_effect:
  "map_option pr_revision_id (select_policy (map (\<lambda>q. q\<lparr>pr_valid_from := declared q\<rparr>) revisions) t)
     = map_option pr_revision_id (select_policy revisions t)"
proof -
  have "filter (\<lambda>q. pr_known_at q \<le> t) (map (\<lambda>q. q\<lparr>pr_valid_from := declared q\<rparr>) revisions)
      = map (\<lambda>q. q\<lparr>pr_valid_from := declared q\<rparr>) (filter (\<lambda>q. pr_known_at q \<le> t) revisions)"
    by (induction revisions) simp_all
  moreover have "revision_key (q\<lparr>pr_valid_from := declared q\<rparr>) = revision_key q" for q by (simp add: revision_key_def)
  ultimately show ?thesis by (simp add: select_policy_def max_by_map option.map_comp comp_def)
qed

text \<open>Fact: the third clock is not ordered. A world that was compiled after the consumption is reconstructed as its context: only the time of
  activation is compared with the receipt, so the package's valid time lies after its consumption time.\<close>

theorem valid_time_unordered:
  "\<exists>p. reconstruct_context demo_ledger_env (demo_receipt ''r1'' 5) (demo_history 100) demo_policies = Inr p
     \<and> cp_consumption_time p < cp_valid_time p"
  using demo_reconstructed [of 100] by (simp add: demo_package_def)

text \<open>Fact: a snapshot whose text is not JSON is not reported as history that cannot answer; the decoder's own error escapes.\<close>

theorem corrupt_snapshot_escapes:
  assumes "h (cr_world_state_id r) = Some t" and "json_loads L t = None"
  shows "reconstruct_context L r h revisions = Inl (ValueError ''JSONDecodeError'')"
  using assms by (simp add: reconstruct_context_def load_snapshot_def)

end
