(* ===== verification/ActionKey.thy ===== *)
theory ActionKey
  imports Consumption
begin

text \<open>
  \<^verbatim>\<open>packages/cir-python/src/akc_cir/action_key.py\<close>: the key that identifies a build, the store of its results and
  the guard that decides whether a stored result may be replayed. The two files of an entry are the values of two maps from
  keys, the dependencies on disk a map from paths to their bytes; reading one of them may fail, writing is taken to succeed.
  Parameters and receipts are JSON trees. A mapping without order is an association list, a frozen set its sorted list.
\<close>

record store_env =
  se_ledger :: ledger_env
  se_bytes :: "string \<Rightarrow> string"      \<comment> \<open>hashlib.sha256(data).hexdigest() of bytes\<close>

section \<open>Contracts and keys\<close>

text \<open>What iterating over a JSON value yields, and \<open>str\<close> of one.\<close>

definition iter_json :: "jval \<Rightarrow> pyerr + jval list" where
  "iter_json v = (case v of
     JList vs \<Rightarrow> Inr vs
   | JStr s \<Rightarrow> Inr (map (\<lambda>c. JStr [c]) s)
   | JObj kvs \<Rightarrow> Inr (map (\<lambda>p. JStr (fst p)) kvs)
   | _ \<Rightarrow> Inl TypeError)"

definition json_text :: "ledger_env \<Rightarrow> jval \<Rightarrow> string" where
  "json_text L v = (case v of JStr s \<Rightarrow> s | _ \<Rightarrow> py_str L v)"

text \<open>\<open>for a, b in ...\<close>: an element that does not unpack into two raises.\<close>

definition unpack_pair :: "jval \<Rightarrow> pyerr + (jval \<times> jval)" where
  "unpack_pair v = bindR (iter_json v) (\<lambda>xs. case xs of [a, b] \<Rightarrow> Inr (a, b) | _ \<Rightarrow> Inl (ValueError ''not enough or too many values to unpack''))"

text \<open>\<open>dict(v)\<close>. A list of pairs is a dictionary too; a key that is not a string is refused here, where Python would turn it into one
  only when the dictionary is encoded.\<close>

definition json_dict :: "jval \<Rightarrow> pyerr + (string \<times> jval) list" where
  "json_dict v = (case v of
     JObj kvs \<Rightarrow> Inr kvs
   | _ \<Rightarrow> bindR (iter_json v) (\<lambda>xs. mapR dict_of (mapE (\<lambda>x. bindR (unpack_pair x)
       (\<lambda>(k, w). case k of JStr s \<Rightarrow> Inr (s, w) | _ \<Rightarrow> Inl TypeError)) xs)))"

record exec_contract =
  ec_compiler_revision :: string
  ec_parser_revision :: string
  ec_schema_revision :: string
  ec_policy_revision :: string
  ec_permission_scope :: "string list"
  ec_tenant_id :: string
  ec_params :: "(string \<times> jval) list"
  ec_model_revision :: "string option"
  ec_prompt_revision :: "string option"

definition contract_str :: "string \<Rightarrow> jval \<Rightarrow> pyerr + string" where
  "contract_str name v = (case v of
     JStr s \<Rightarrow> if strip s = [] then Inl (ValueError (name @ '' must be a non-empty string'')) else Inr s
   | _ \<Rightarrow> Inl (ValueError (name @ '' must be a non-empty string'')))"

definition contract_revision :: "string \<Rightarrow> jval \<Rightarrow> pyerr + string option" where
  "contract_revision name v = (case v of
     JNull \<Rightarrow> Inr None
   | JStr s \<Rightarrow> if strip s = [] then Inl (ValueError (name @ '' must be None or a non-empty string'')) else Inr (Some s)
   | _ \<Rightarrow> Inl (ValueError (name @ '' must be None or a non-empty string'')))"

definition mk_contract ::
  "jval \<Rightarrow> jval \<Rightarrow> jval \<Rightarrow> jval \<Rightarrow> string list \<Rightarrow> jval \<Rightarrow> jval \<Rightarrow> jval \<Rightarrow> jval \<Rightarrow> pyerr + exec_contract" where
  "mk_contract compiler parser schema policy scope tenant params model prompt =
    bindR (contract_str ''compiler_revision'' compiler) (\<lambda>c.
    bindR (contract_str ''parser_revision'' parser) (\<lambda>pa.
    bindR (contract_str ''schema_revision'' schema) (\<lambda>sc.
    bindR (contract_str ''policy_revision'' policy) (\<lambda>po.
    bindR (contract_str ''tenant_id'' tenant) (\<lambda>t.
    if scope = [] \<or> (\<exists>s \<in> set scope. strip s = []) then Inl (ValueError ''permission_scope must grant at least one scope'')
    else
      bindR (contract_revision ''model_revision'' model) (\<lambda>m.
      bindR (contract_revision ''prompt_revision'' prompt) (\<lambda>pr.
      bindR (json_dict params) (\<lambda>ps.
        Inr \<lparr>ec_compiler_revision = c, ec_parser_revision = pa, ec_schema_revision = sc, ec_policy_revision = po,
          ec_permission_scope = sorted_set scope, ec_tenant_id = t, ec_params = ps, ec_model_revision = m, ec_prompt_revision = pr\<rparr>))))))))"

definition lower_char :: "char \<Rightarrow> char" where
  "lower_char c = (let n = of_char c :: nat in if (65 \<le> n \<and> n \<le> 90) \<or> (192 \<le> n \<and> n \<le> 222 \<and> n \<noteq> 215) then char_of (n + 32) else c)"

definition normalize_digest :: "string \<Rightarrow> pyerr + string" where
  "normalize_digest d = (let s = map lower_char (strip d); c = (if take 7 s = ''sha256:'' then drop 7 s else s) in
     if is_sha256 c then Inr c else Inl (ValueError ''input digest must be sha256 hex''))"

fun normalize_pairs :: "(string \<times> string) list \<Rightarrow> (string \<times> string) list \<Rightarrow> pyerr + (string \<times> string) list" where
  "normalize_pairs seen [] = Inr seen"
| "normalize_pairs seen ((path, digest) # rest) =
    (if strip path = [] then Inl (ValueError ''input path must be a non-empty string'')
     else bindR (normalize_digest digest) (\<lambda>c. case map_of seen path of
       Some prior \<Rightarrow> if prior \<noteq> c then Inl (ValueError ''conflicting digests supplied for input'') else normalize_pairs seen rest
     | None \<Rightarrow> normalize_pairs (seen @ [(path, c)]) rest))"

definition normalize_inputs :: "(string \<times> string) list \<Rightarrow> pyerr + (string \<times> string) list" where
  "normalize_inputs xs = mapR (sort_key fst) (normalize_pairs [] xs)"

definition contract_identity :: "exec_contract \<Rightarrow> (string \<times> jval) list" where
  "contract_identity c =
    [(''compiler_revision'', JStr (ec_compiler_revision c)), (''parser_revision'', JStr (ec_parser_revision c)),
     (''schema_revision'', JStr (ec_schema_revision c)), (''policy_revision'', JStr (ec_policy_revision c)),
     (''permission_scope'', JList (map JStr (sort (ec_permission_scope c)))), (''tenant_id'', JStr (ec_tenant_id c)),
     (''params'', JObj (ec_params c))]"

definition preimage_json :: "(string \<times> string) list \<Rightarrow> exec_contract \<Rightarrow> jval" where
  "preimage_json inputs c = JObj
    [(''version'', JInt 1), (''kind'', JStr ''akc.compilation.action-key.v1''), (''contract'', JObj (contract_identity c)),
     (''inputs'', JList (map (\<lambda>(p, d). JList [JStr p, JStr d]) inputs))]"

definition preimage_text :: "ledger_env \<Rightarrow> (string \<times> string) list \<Rightarrow> exec_contract \<Rightarrow> pyerr + string" where
  "preimage_text L inputs c = mapR (\<lambda>n. dumps (le_base L) (preimage_json n c)) (normalize_inputs inputs)"

definition compute_action_key :: "ledger_env \<Rightarrow> (string \<times> string) list \<Rightarrow> exec_contract \<Rightarrow> pyerr + string" where
  "compute_action_key L inputs c = bindR (normalize_inputs inputs) (\<lambda>n.
     case preimage_text L n c of Inl e \<Rightarrow> Inl TypeError | Inr t \<Rightarrow> Inr (sha256 (le_base L) t))"

definition validated_key :: "string \<Rightarrow> pyerr + string" where
  "validated_key key = (let c = map lower_char (strip key) in if is_sha256 c then Inr c else Inl (ValueError ''malformed action key''))"

section \<open>The store\<close>

record action_store =
  as_envelopes :: "string \<Rightarrow> string option"
  as_artifacts :: "string \<Rightarrow> string option"

definition guard_members :: "exec_contract \<Rightarrow> (string \<times> string) list \<Rightarrow> (string \<times> jval) list" where
  "guard_members c inputs = [(''contract'', JObj (contract_identity c)), (''model_revision'', jopt (ec_model_revision c)),
     (''prompt_revision'', jopt (ec_prompt_revision c)), (''inputs'', JList (map (\<lambda>(p, d). JList [JStr p, JStr d]) inputs))]"

definition envelope_json :: "string \<Rightarrow> string \<Rightarrow> jval \<Rightarrow> jval \<Rightarrow> (string \<times> jval) list \<Rightarrow> (string \<times> jval) list \<Rightarrow> jval" where
  "envelope_json key artifact_sha preimage guard validations receipt = JObj
    [(''format'', JStr ''akc.action-key-store.v1''), (''key'', JStr key), (''artifact_sha256'', JStr artifact_sha), (''preimage'', preimage),
     (''guard'', guard), (''validations'', JObj validations), (''receipt'', JObj receipt)]"

definition write_entry :: "string \<Rightarrow> string \<Rightarrow> string \<Rightarrow> action_store \<Rightarrow> action_store" where
  "write_entry key artifact envelope st =
    st\<lparr>as_artifacts := (as_artifacts st)(key \<mapsto> artifact), as_envelopes := (as_envelopes st)(key \<mapsto> envelope)\<rparr>"

definition put_entry ::
  "store_env \<Rightarrow> string \<Rightarrow> string \<Rightarrow> (string \<times> jval) list \<Rightarrow> exec_contract option \<Rightarrow> (string \<times> string) list \<Rightarrow> (string \<times> jval) list
     \<Rightarrow> action_store \<Rightarrow> (action_store, unit) outcome" where
  "put_entry S key artifact receipt contract inputs validations st =
    (let L = se_ledger S; sealed_entry = bindR (validated_key key) (\<lambda>k.
       bindR (case contract of
           None \<Rightarrow> Inr (JNull, JNull)
         | Some c \<Rightarrow> bindR (normalize_inputs inputs) (\<lambda>n.
             bindR (compute_action_key L n c) (\<lambda>expected.
               if expected \<noteq> k then Inl (ValueError ''action key mismatch'')
               else bindR (preimage_text L n c) (\<lambda>t. Inr (JStr t, JObj (guard_members c n))))))
         (\<lambda>(preimage, guard). Inr (k, dumps (le_base L)
            (envelope_json k (''sha256:'' @ se_bytes S artifact) preimage guard validations receipt))))
     in case sealed_entry of Inl e \<Rightarrow> (Inl e, st) | Inr (k, t) \<Rightarrow> (Inr (), write_entry k artifact t st))"

text \<open>\<open>None\<close> is \<^verbatim>\<open>MISS\<close>.\<close>

definition get_entry :: "ledger_env \<Rightarrow> string \<Rightarrow> action_store \<Rightarrow> pyerr + (string \<times> (string \<times> jval) list) option" where
  "get_entry L key st = bindR (validated_key key) (\<lambda>k.
     Inr (case as_envelopes st k of None \<Rightarrow> None
       | Some t \<Rightarrow> (case json_loads L t of None \<Rightarrow> None
         | Some v \<Rightarrow> (case as_artifacts st k of None \<Rightarrow> None
           | Some a \<Rightarrow> (case v of JObj kvs \<Rightarrow> Some (a, kvs) | _ \<Rightarrow> None)))))"

text \<open>\<open>identity[key]\<close> of a value: a missing key of an object raises, and so does indexing anything else by a string.\<close>

definition index_key :: "jval \<Rightarrow> string \<Rightarrow> pyerr + jval" where
  "index_key v k = (case v of
     JObj kvs \<Rightarrow> (case map_of kvs k of None \<Rightarrow> Inl (KeyError k) | Some x \<Rightarrow> Inr x)
   | _ \<Rightarrow> Inl TypeError)"

definition contract_from_guard :: "ledger_env \<Rightarrow> (string \<times> jval) list \<Rightarrow> pyerr + exec_contract" where
  "contract_from_guard L guard =
    bindR (index_key (JObj guard) ''contract'') (\<lambda>ident.
    bindR (index_key ident ''compiler_revision'') (\<lambda>compiler.
    bindR (index_key ident ''parser_revision'') (\<lambda>parser.
    bindR (index_key ident ''schema_revision'') (\<lambda>schema.
    bindR (index_key ident ''policy_revision'') (\<lambda>policy.
    bindR (index_key ident ''permission_scope'') (\<lambda>raw_scope.
    bindR (iter_json raw_scope) (\<lambda>scope.
    bindR (index_key ident ''tenant_id'') (\<lambda>tenant.
      mk_contract compiler parser schema policy (map (json_text L) scope) tenant
        (case ident of JObj kvs \<Rightarrow> (case map_of kvs ''params'' of None \<Rightarrow> JObj [] | Some p \<Rightarrow> p) | _ \<Rightarrow> JObj [])
        (get_key guard ''model_revision'') (get_key guard ''prompt_revision'')))))))))"

definition stored_inputs :: "ledger_env \<Rightarrow> jval \<Rightarrow> pyerr + (string \<times> string) list" where
  "stored_inputs L v = bindR (iter_json v) (mapE (\<lambda>x. mapR (\<lambda>(p, d). (json_text L p, json_text L d)) (unpack_pair x)))"

definition verify_integrity :: "store_env \<Rightarrow> string \<Rightarrow> action_store \<Rightarrow> pyerr + bool" where
  "verify_integrity S key st = (let L = se_ledger S in
    bindR (get_entry L key st) (\<lambda>fetched. case fetched of None \<Rightarrow> Inr False
    | Some (artifact, envelope) \<Rightarrow> bindR (validated_key key) (\<lambda>k.
        if get_key envelope ''key'' \<noteq> JStr k then Inr False
        else if get_key envelope ''artifact_sha256'' \<noteq> JStr (''sha256:'' @ se_bytes S artifact) then Inr False
        else (case get_key envelope ''preimage'' of
          JStr preimage \<Rightarrow>
            (if sha256 (le_base L) preimage \<noteq> k then Inr False
             else (case get_key envelope ''guard'' of
               JObj guard \<Rightarrow>
                 (case bindR (contract_from_guard L guard) (\<lambda>c. mapR (\<lambda>xs. (c, xs))
                     (bindR (index_key (JObj guard) ''inputs'') (stored_inputs L))) of
                   Inl e \<Rightarrow> Inr False
                 | Inr (c, xs) \<Rightarrow> mapR (\<lambda>again. again = k) (compute_action_key L xs c))
             | _ \<Rightarrow> Inr False))
        | _ \<Rightarrow> Inr False))))"

section \<open>The guard\<close>

datatype reuse_failure = RF_MISSING_INPUT | RF_POLICY_CHANGED | RF_PERMISSION_NARROWED | RF_CORRUPT_ARTIFACT | RF_STALE_DEP
  | RF_MODEL_CHANGED | RF_PROMPT_CHANGED

datatype reuse_decision = Reuse_hit string jval | Reuse_miss reuse_failure

text \<open>The loop over the inputs, with the first one that vanished or changed, and the loop over the required validations.\<close>

fun first_stale :: "store_env \<Rightarrow> (string \<Rightarrow> string option) \<Rightarrow> (string \<times> string) list \<Rightarrow> reuse_failure option" where
  "first_stale S disk [] = None"
| "first_stale S disk ((path, digest) # rest) = (case disk path of
     None \<Rightarrow> Some RF_MISSING_INPUT
   | Some data \<Rightarrow> if se_bytes S data \<noteq> digest then Some RF_STALE_DEP else first_stale S disk rest)"

fun first_unproven :: "(string \<times> jval) list \<Rightarrow> string list \<Rightarrow> reuse_failure option" where
  "first_unproven recorded [] = None"
| "first_unproven recorded (kind # rest) = (case get_key recorded kind of
     JObj r \<Rightarrow> if get_key r ''status'' \<noteq> JStr ''passed'' then Some RF_STALE_DEP else first_unproven recorded rest
   | _ \<Rightarrow> Some RF_MISSING_INPUT)"

definition reuse_guard ::
  "store_env \<Rightarrow> (string \<Rightarrow> string option) \<Rightarrow> string \<Rightarrow> exec_contract \<Rightarrow> string list \<Rightarrow> action_store \<Rightarrow> pyerr + reuse_decision" where
  "reuse_guard S disk key c required st = (let L = se_ledger S in
    bindR (get_entry L key st) (\<lambda>fetched. case fetched of
      None \<Rightarrow> Inr (Reuse_miss RF_MISSING_INPUT)
    | Some (artifact, envelope) \<Rightarrow>
      bindR (verify_integrity S key st) (\<lambda>intact.
      if \<not> intact then Inr (Reuse_miss RF_CORRUPT_ARTIFACT)
      else (case get_key envelope ''guard'' of
        JObj guard \<Rightarrow>
          (case get_key guard ''contract'' of
            JObj ident \<Rightarrow>
              bindR (contract_from_guard L guard) (\<lambda>stored.
              if ec_policy_revision stored \<noteq> ec_policy_revision c then Inr (Reuse_miss RF_POLICY_CHANGED)
              else if \<not> set (ec_permission_scope stored) \<subseteq> set (ec_permission_scope c) then Inr (Reuse_miss RF_PERMISSION_NARROWED)
              else if ec_model_revision stored \<noteq> ec_model_revision c then Inr (Reuse_miss RF_MODEL_CHANGED)
              else if ec_prompt_revision stored \<noteq> ec_prompt_revision c then Inr (Reuse_miss RF_PROMPT_CHANGED)
              else bindR (stored_inputs L (case map_of guard ''inputs'' of None \<Rightarrow> JList [] | Some v \<Rightarrow> v)) (\<lambda>xs.
                case first_stale S disk xs of Some f \<Rightarrow> Inr (Reuse_miss f)
                | None \<Rightarrow> (case first_unproven (case get_key envelope ''validations'' of JObj r \<Rightarrow> r | _ \<Rightarrow> []) required of
                    Some f \<Rightarrow> Inr (Reuse_miss f)
                  | None \<Rightarrow> Inr (Reuse_hit artifact (get_key envelope ''receipt'')))))
          | _ \<Rightarrow> Inr (Reuse_miss RF_MISSING_INPUT))
      | _ \<Rightarrow> Inr (Reuse_miss RF_MISSING_INPUT)))))"


section \<open>Normalised inputs\<close>

lemma digest_char:
  assumes "c \<in> set ''0123456789abcdef''"
  shows "lower_char c = c \<and> \<not> is_space c \<and> c \<noteq> CHR ''s''"
proof -
  have "\<forall>c \<in> set ''0123456789abcdef''. lower_char c = c \<and> \<not> is_space c \<and> c \<noteq> CHR ''s''" by (simp add: lower_char_def is_space_def)
  with assms show ?thesis by blast
qed

lemma sha_hex: "is_sha256 s \<Longrightarrow> c \<in> set s \<Longrightarrow> c \<in> set ''0123456789abcdef''"
  unfolding is_sha256_def by blast

lemma sha_plain: "is_sha256 s \<Longrightarrow> map lower_char s = s \<and> strip s = s \<and> take 7 s \<noteq> ''sha256:''"
proof -
  assume s: "is_sha256 s"
  have c: "lower_char c = c \<and> \<not> is_space c \<and> c \<noteq> CHR ''s''" if "c \<in> set s" for c using digest_char [OF sha_hex [OF s that]] .
  have ne: "s \<noteq> []" by (rule sha_nonempty [OF s])
  have "map lower_char s = s" using c by (intro map_idI) blast
  moreover have "strip s = s" using c [OF hd_in_set [OF ne]] c [OF last_in_set [OF ne]] by (intro strip_id [OF ne]) blast+
  moreover have "take 7 s \<noteq> ''sha256:''"
  proof
    assume "take 7 s = ''sha256:''"
    then have "CHR ''s'' \<in> set (take 7 s)" by simp
    then have "CHR ''s'' \<in> set s" by (rule in_set_takeD)
    from c [OF this] show False by blast
  qed
  ultimately show ?thesis by blast
qed

lemma normalize_digest_sha: "normalize_digest d = Inr c \<Longrightarrow> is_sha256 c"
  by (simp add: normalize_digest_def Let_def split: if_split_asm)

lemma normalize_digest_idem: "is_sha256 c \<Longrightarrow> normalize_digest c = Inr c"
  using sha_plain [of c] by (simp add: normalize_digest_def Let_def)

lemma validated_key_sha: "validated_key k = Inr k' \<Longrightarrow> is_sha256 k'"
  by (simp add: validated_key_def Let_def split: if_split_asm)

lemma validated_key_idem: "is_sha256 k \<Longrightarrow> validated_key k = Inr k"
  using sha_plain [of k] by (simp add: validated_key_def Let_def)

text \<open>The pairs that a list of inputs normalises to, when it normalises.\<close>

definition digested :: "(string \<times> string) list \<Rightarrow> (string \<times> string) set" where
  "digested xs = {(p, c). \<exists>d. (p, d) \<in> set xs \<and> normalize_digest d = Inr c}"

definition inputs_valid :: "(string \<times> string) list \<Rightarrow> bool" where
  "inputs_valid xs \<longleftrightarrow> (\<forall>(p, d) \<in> set xs. strip p \<noteq> [] \<and> (\<exists>c. normalize_digest d = Inr c))
     \<and> (\<forall>p c c'. (p, c) \<in> digested xs \<longrightarrow> (p, c') \<in> digested xs \<longrightarrow> c = c')"

lemma digested_simps [simp]:
  "digested [] = {}" "digested ((p, d) # xs) = (case normalize_digest d of Inl e \<Rightarrow> {} | Inr c \<Rightarrow> {(p, c)}) \<union> digested xs"
  by (auto simp: digested_def split: sum.splits)

lemma normalize_pairs_Inr:
  "normalize_pairs seen xs = Inr out \<Longrightarrow> distinct (map fst seen) \<Longrightarrow>
    distinct (map fst out) \<and> set out = set seen \<union> digested xs \<and> (\<forall>(p, d) \<in> set xs. strip p \<noteq> [] \<and> (\<exists>c. normalize_digest d = Inr c))"
proof (induction seen xs arbitrary: out rule: normalize_pairs.induct)
  case (2 seen p d rest)
  from 2(3) have p: "strip p \<noteq> []" by (simp split: if_split_asm)
  with 2(3) obtain c where c: "normalize_digest d = Inr c" by (cases "normalize_digest d") simp_all
  show ?case
  proof (cases "map_of seen p")
    case None
    then have new: "p \<notin> fst ` set seen" by (simp add: map_of_eq_None_iff)
    have "normalize_pairs (seen @ [(p, c)]) rest = Inr out" using 2(3) p c None by simp
    from 2(1) [OF p None this] new 2(4) show ?thesis using p c by simp
  next
    case (Some prior)
    then have prior: "prior = c" and rest: "normalize_pairs seen rest = Inr out" using 2(3) p c by (simp_all split: if_split_asm)
    then have "(p, c) \<in> set seen" using map_of_SomeD [OF Some] by simp
    then show ?thesis using 2(2) [OF p Some _ rest 2(4)] prior p c by auto
  qed
qed simp

lemma normalize_pairs_total:
  "(\<forall>(p, d) \<in> set xs. strip p \<noteq> [] \<and> (\<exists>c. normalize_digest d = Inr c)) \<Longrightarrow>
   (\<forall>p c c'. (p, c) \<in> set seen \<union> digested xs \<longrightarrow> (p, c') \<in> set seen \<union> digested xs \<longrightarrow> c = c') \<Longrightarrow>
    \<exists>out. normalize_pairs seen xs = Inr out"
proof (induction seen xs rule: normalize_pairs.induct)
  case (2 seen p d rest)
  from 2(3) have p: "strip p \<noteq> []" by simp
  from 2(3) obtain c where c: "normalize_digest d = Inr c" by auto
  have rest: "\<forall>(p, d) \<in> set rest. strip p \<noteq> [] \<and> (\<exists>c. normalize_digest d = Inr c)" using 2(3) by simp
  show ?case
  proof (cases "map_of seen p")
    case None
    have "\<exists>out. normalize_pairs (seen @ [(p, c)]) rest = Inr out"
      by (rule 2(1) [OF p None rest]) (use 2(4) c in simp)
    then show ?thesis using p c None by simp
  next
    case (Some prior)
    have "(p, prior) \<in> set seen \<union> digested ((p, d) # rest)" "(p, c) \<in> set seen \<union> digested ((p, d) # rest)"
      using map_of_SomeD [OF Some] c by simp_all
    then have prior: "prior = c" using 2(4) by blast
    have "\<exists>out. normalize_pairs seen rest = Inr out"
      by (rule 2(2) [OF p Some _ rest, of c]) (use 2(4) c prior in auto)
    then show ?thesis using p c Some prior by simp
  qed
qed simp

lemma normalize_inputs_Inr:
  assumes "normalize_inputs xs = Inr n"
  shows "inputs_valid xs \<and> distinct (map fst n) \<and> sorted (map fst n) \<and> set n = digested xs"
proof -
  obtain out where out: "normalize_pairs [] xs = Inr out" "n = sort_key fst out"
    using assms by (auto simp: normalize_inputs_def mapR_def split: sum.splits)
  from normalize_pairs_Inr [OF out(1)] have o: "distinct (map fst out)" "set out = digested xs"
    "\<forall>(p, d) \<in> set xs. strip p \<noteq> [] \<and> (\<exists>c. normalize_digest d = Inr c)" by simp_all
  have "mset (map fst n) = mset (map fst out)" unfolding out(2) by (simp only: mset_map mset_sort)
  from mset_eq_imp_distinct_iff [OF this] o(1) have "distinct (map fst n)" by blast
  moreover have "c = c'" if "(p, c) \<in> digested xs" "(p, c') \<in> digested xs" for p c c'
    using that o(1) unfolding o(2) [symmetric] by (metis eq_key_imp_eq_value)
  ultimately show ?thesis using o unfolding inputs_valid_def out(2) by auto
qed

lemma normalize_inputs_total: "inputs_valid xs \<Longrightarrow> \<exists>n. normalize_inputs xs = Inr n"
proof -
  assume "inputs_valid xs"
  then have "\<exists>out. normalize_pairs [] xs = Inr out" unfolding inputs_valid_def by (intro normalize_pairs_total) simp_all
  then show ?thesis by (auto simp: normalize_inputs_def mapR_simps)
qed

lemma sorted_pairs_unique:
  "sorted (map fst a) \<Longrightarrow> distinct (map fst a) \<Longrightarrow> sorted (map fst b) \<Longrightarrow> distinct (map fst b) \<Longrightarrow> set a = set b \<Longrightarrow> a = b"
  for a b :: "(string \<times> string) list"
  by (rule map_sorted_distinct_set_unique [of fst]) (auto simp: distinct_map)

lemma normalize_inputs_set:
  assumes "set xs = set ys" and "normalize_inputs xs = Inr n"
  shows "normalize_inputs ys = Inr n"
proof -
  have d: "digested ys = digested xs" using assms(1) by (simp add: digested_def)
  then have v: "inputs_valid ys" using normalize_inputs_Inr [OF assms(2)] assms(1) by (simp add: inputs_valid_def)
  obtain m where m: "normalize_inputs ys = Inr m" using normalize_inputs_total [OF v] by blast
  have "m = n" by (rule sorted_pairs_unique) (use normalize_inputs_Inr [OF m] normalize_inputs_Inr [OF assms(2)] d in simp_all)
  then show ?thesis using m by simp
qed

lemma digested_normal:
  assumes "normalize_inputs xs = Inr n"
  shows "digested n = set n \<and> (\<forall>(p, c) \<in> set n. is_sha256 c \<and> strip p \<noteq> [])"
proof -
  from normalize_inputs_Inr [OF assms] have n: "set n = digested xs" and v: "inputs_valid xs" by simp_all
  have s: "\<forall>(p, c) \<in> set n. is_sha256 c \<and> strip p \<noteq> []"
    using v unfolding n inputs_valid_def digested_def by (auto dest: normalize_digest_sha)
  then have "digested n = set n" unfolding digested_def by (fastforce dest: normalize_digest_idem)
  with s show ?thesis by blast
qed

lemma normalize_inputs_idem:
  assumes "normalize_inputs xs = Inr n"
  shows "normalize_inputs n = Inr n"
proof -
  from normalize_inputs_Inr [OF assms] have n: "set n = digested xs" "sorted (map fst n)" "distinct (map fst n)" and v: "inputs_valid xs" by simp_all
  note d = digested_normal [OF assms]
  have "\<exists>c'. normalize_digest c = Inr c'" if "(p, c) \<in> set n" for p c using d that normalize_digest_idem by blast
  then have "inputs_valid n" unfolding inputs_valid_def using d v n(1) by (fastforce simp: inputs_valid_def)
  then obtain m where m: "normalize_inputs n = Inr m" using normalize_inputs_total by blast
  have "m = n" by (rule sorted_pairs_unique) (use normalize_inputs_Inr [OF m] d n in simp_all)
  then show ?thesis using m by simp
qed

section \<open>The key of a build\<close>

lemma sorted_canon: "sorted_json j \<Longrightarrow> jcanon j = j"
proof (induction j rule: sorted_json.induct)
  case (2 xs)
  then show ?case by (simp add: list_all_iff map_idI)
next
  case (3 kvs)
  then have "map (\<lambda>(k, v). (k, jcanon v)) kvs = kvs" by (intro map_idI) (auto simp: list_all_iff)
  then show ?case using 3(2) by (simp add: sort_key_sorted)
qed simp_all

lemma sorted_plain: "sorted_json j \<Longrightarrow> plain_json j"
  by (induction j rule: sorted_json.induct) (auto simp: list_all_iff)

lemma jcanon_idem: "plain_json j \<Longrightarrow> jcanon (jcanon j) = jcanon j"
  by (rule sorted_canon) (rule plain_sorted)

definition contract_ok :: "exec_contract \<Rightarrow> bool" where
  "contract_ok c \<longleftrightarrow> list_all (\<lambda>s. strip s \<noteq> []) [ec_compiler_revision c, ec_parser_revision c, ec_schema_revision c, ec_policy_revision c, ec_tenant_id c]
     \<and> ec_permission_scope c \<noteq> [] \<and> list_all (\<lambda>s. strip s \<noteq> []) (ec_permission_scope c)
     \<and> sorted (ec_permission_scope c) \<and> distinct (ec_permission_scope c)
     \<and> (\<forall>m \<in> set_option (ec_model_revision c). strip m \<noteq> []) \<and> (\<forall>m \<in> set_option (ec_prompt_revision c). strip m \<noteq> [])"

definition plain_params :: "exec_contract \<Rightarrow> bool" where
  "plain_params c \<longleftrightarrow> plain_json (JObj (ec_params c))"

lemma contract_str_Inr: "contract_str n v = Inr s \<Longrightarrow> strip s \<noteq> []"
  by (cases v) (simp_all add: contract_str_def split: if_split_asm)

lemma contract_revision_Inr: "contract_revision n v = Inr m \<Longrightarrow> \<forall>s \<in> set_option m. strip s \<noteq> []"
  by (cases v) (auto simp: contract_revision_def split: if_split_asm)

lemma mk_contract_ok:
  assumes "mk_contract compiler parser schema policy scope tenant params model prompt = Inr c"
  shows "contract_ok c"
proof -
  obtain a b s p t m r ps where f: "contract_str ''compiler_revision'' compiler = Inr a" "contract_str ''parser_revision'' parser = Inr b"
      "contract_str ''schema_revision'' schema = Inr s" "contract_str ''policy_revision'' policy = Inr p" "contract_str ''tenant_id'' tenant = Inr t"
      "contract_revision ''model_revision'' model = Inr m" "contract_revision ''prompt_revision'' prompt = Inr r"
    and sc: "\<not> (scope = [] \<or> (\<exists>s \<in> set scope. strip s = []))"
    and c: "c = \<lparr>ec_compiler_revision = a, ec_parser_revision = b, ec_schema_revision = s, ec_policy_revision = p,
       ec_permission_scope = sorted_set scope, ec_tenant_id = t, ec_params = ps, ec_model_revision = m, ec_prompt_revision = r\<rparr>"
    using assms unfolding mk_contract_def bindR_Inr_iff by (auto simp: bindR_Inr_iff split: if_split_asm)
  show ?thesis
    unfolding c contract_ok_def using f(1-5) [THEN contract_str_Inr] f(6,7) [THEN contract_revision_Inr] sc
    by (auto simp: list_all_iff)
qed

lemma identity_plain: "plain_params c \<Longrightarrow> plain_json (JObj (contract_identity c))"
  by (simp add: plain_params_def contract_identity_def list_all_iff)

lemma preimage_plain: "plain_params c \<Longrightarrow> plain_json (preimage_json n c)"
  using identity_plain [of c] by (auto simp: preimage_json_def list_all_iff)

lemma identity_get [simp]:
  "get_key (contract_identity c) ''compiler_revision'' = JStr (ec_compiler_revision c)"
  "get_key (contract_identity c) ''parser_revision'' = JStr (ec_parser_revision c)"
  "get_key (contract_identity c) ''schema_revision'' = JStr (ec_schema_revision c)"
  "get_key (contract_identity c) ''policy_revision'' = JStr (ec_policy_revision c)"
  "get_key (contract_identity c) ''permission_scope'' = JList (map JStr (sort (ec_permission_scope c)))"
  "get_key (contract_identity c) ''tenant_id'' = JStr (ec_tenant_id c)"
  "get_key (contract_identity c) ''params'' = JObj (ec_params c)"
  by (simp_all add: get_key_def contract_identity_def)

lemma identity_distinct [simp]: "distinct (map fst (contract_identity c))"
  by (simp add: contract_identity_def)

text \<open>Two contracts that agree in everything the key covers.\<close>

definition same_build :: "exec_contract \<Rightarrow> exec_contract \<Rightarrow> bool" where
  "same_build c d \<longleftrightarrow> ec_compiler_revision c = ec_compiler_revision d \<and> ec_parser_revision c = ec_parser_revision d
     \<and> ec_schema_revision c = ec_schema_revision d \<and> ec_policy_revision c = ec_policy_revision d
     \<and> ec_permission_scope c = ec_permission_scope d \<and> ec_tenant_id c = ec_tenant_id d
     \<and> jcanon (JObj (ec_params c)) = jcanon (JObj (ec_params d))"

lemma same_identity:
  assumes "contract_ok c" and "contract_ok d"
  shows "jcanon (JObj (contract_identity c)) = jcanon (JObj (contract_identity d)) \<longleftrightarrow> same_build c d"
proof
  assume "jcanon (JObj (contract_identity c)) = jcanon (JObj (contract_identity d))"
  then have "canon_members (contract_identity c) = canon_members (contract_identity d)" by (simp add: canon_members_def)
  then have g: "jcanon (get_key (contract_identity c) k) = jcanon (get_key (contract_identity d) k)" for k
    using get_key_canon [OF identity_distinct, of c k] get_key_canon [OF identity_distinct, of d k] by simp
  have "map JStr (sort (ec_permission_scope c)) = map JStr (sort (ec_permission_scope d))" using g [of "''permission_scope''"] by (simp add: comp_def)
  then have "sort (ec_permission_scope c) = sort (ec_permission_scope d)" by (metis list.inj_map_strong jval.inject(4))
  then have "ec_permission_scope c = ec_permission_scope d" using assms by (simp add: contract_ok_def sorted_sort_id)
  then show "same_build c d"
    unfolding same_build_def using g [of "''compiler_revision''"] g [of "''parser_revision''"] g [of "''schema_revision''"]
      g [of "''policy_revision''"] g [of "''tenant_id''"] g [of "''params''"] by simp
next
  assume "same_build c d"
  then show "jcanon (JObj (contract_identity c)) = jcanon (JObj (contract_identity d))"
    unfolding same_build_def contract_identity_def by simp
qed

lemma same_preimage:
  assumes "contract_ok c" and "contract_ok d"
  shows "jcanon (preimage_json n c) = jcanon (preimage_json m d) \<longleftrightarrow> n = m \<and> same_build c d"
proof -
  let ?in = "\<lambda>n. map (\<lambda>(p, d). JList [JStr p, JStr d]) n"
  let ?ms = "\<lambda>n c. [(''version'', JInt 1), (''kind'', JStr ''akc.compilation.action-key.v1''), (''contract'', JObj (contract_identity c)),
    (''inputs'', JList (?in n))]"
  have inj: "?in n = ?in m \<longleftrightarrow> n = m" by (rule inj_map_eq_map) (auto simp: inj_def)
  have can: "jcanon (JList (?in n)) = JList (?in n)" for n by (simp add: comp_def case_prod_beta')
  have pj: "jcanon (preimage_json n c) = JObj (canon_members (?ms n c))" for n c by (simp only: preimage_json_def jcanon_obj)
  have dist: "distinct (map fst (?ms n c))" for n c by simp
  show ?thesis
  proof
    assume "jcanon (preimage_json n c) = jcanon (preimage_json m d)"
    then have "canon_members (?ms n c) = canon_members (?ms m d)" unfolding pj by simp
    then have g: "jcanon (get_key (?ms n c) k) = jcanon (get_key (?ms m d) k)" for k
      using get_key_canon [OF dist [where n = n and c = c], of k] get_key_canon [OF dist [where n = m and c = d], of k] by simp
    have "jcanon (JObj (contract_identity c)) = jcanon (JObj (contract_identity d))"
      using g [of "''contract''"] by (simp only: get_key_def) simp
    moreover have "jcanon (JList (?in n)) = jcanon (JList (?in m))" using g [of "''inputs''"] by (simp only: get_key_def) simp
    ultimately show "n = m \<and> same_build c d" using same_identity [OF assms] inj unfolding can by simp
  next
    assume "n = m \<and> same_build c d"
    then have "jcanon (JObj (contract_identity c)) = jcanon (JObj (contract_identity d))" "n = m" using same_identity [OF assms] by blast+
    then show "jcanon (preimage_json n c) = jcanon (preimage_json m d)" unfolding preimage_json_def by simp
  qed
qed

lemma compute_key:
  assumes "normalize_inputs xs = Inr n"
  shows "preimage_text L xs c = Inr (dumps (le_base L) (preimage_json n c))"
    and "compute_action_key L xs c = Inr (sha256 (le_base L) (dumps (le_base L) (preimage_json n c)))"
  using assms normalize_inputs_idem [OF assms] by (simp_all add: preimage_text_def compute_action_key_def mapR_simps)

lemma compute_key_Inr:
  assumes "compute_action_key L xs c = Inr k"
  obtains n where "normalize_inputs xs = Inr n" "set n = digested xs" "k = sha256 (le_base L) (dumps (le_base L) (preimage_json n c))"
proof -
  obtain n where n: "normalize_inputs xs = Inr n" using assms by (cases "normalize_inputs xs") (simp_all add: compute_action_key_def)
  show ?thesis using that [OF n] normalize_inputs_Inr [OF n] compute_key(2) [OF n, of L c] assms by simp
qed

lemma preimage_dumps:
  assumes "plain_params c" and "plain_params d" and "contract_ok c" and "contract_ok d"
  shows "dumps E (preimage_json n c) = dumps E (preimage_json m d) \<longleftrightarrow> n = m \<and> same_build c d"
proof -
  have "dumps E (preimage_json n c) = dumps E (preimage_json m d) \<longleftrightarrow> jcanon (preimage_json n c) = jcanon (preimage_json m d)"
    using loads_dumps [OF preimage_plain [OF assms(1)], of E n] loads_dumps [OF preimage_plain [OF assms(2)], of E m]
      dumps_jcanon [of E "preimage_json n c"] dumps_jcanon [of E "preimage_json m d"] by (metis option.inject)
  then show ?thesis using same_preimage [OF assms(3,4)] by simp
qed

section \<open>Reading an entry back\<close>

lemma dict_of_plain:
  assumes "\<forall>(k, v) \<in> set ps. plain_json v"
  shows "distinct (map fst (dict_of ps)) \<and> (\<forall>(k, v) \<in> set (dict_of ps). plain_json v)"
proof -
  have "distinct (map fst (foldl (\<lambda>d (k, v). AList.update k v d) d ps)) \<and> (\<forall>(k, v) \<in> set (foldl (\<lambda>d (k, v). AList.update k v d) d ps). plain_json v)"
    if "distinct (map fst d)" "\<forall>(k, v) \<in> set d. plain_json v" "\<forall>(k, v) \<in> set ps. plain_json v" for d
    using that
  proof (induction ps arbitrary: d)
    case (Cons p ps)
    obtain k v where p: "p = (k, v)" by fastforce
    have "\<forall>(k', v') \<in> set (AList.update k v d). plain_json v'"
    proof (rule ballI, clarify)
      fix k' v' assume "(k', v') \<in> set (AList.update k v d)"
      from update_values_unchanged [OF Cons.prems(1) this] Cons.prems(2,3) p show "plain_json v'" by auto
    qed
    with Cons.IH [of "AList.update k v d"] Cons.prems p distinct_update [of d k v] show ?case by simp
  qed simp
  from this [of "[]"] assms show ?thesis by (simp add: dict_of_def)
qed

lemma iter_plain: "iter_json v = Inr xs \<Longrightarrow> plain_json v \<Longrightarrow> list_all plain_json xs"
  by (cases v) (auto simp: iter_json_def list_all_iff)

lemma unpack_pair_Inr: "unpack_pair v = Inr (a, b) \<Longrightarrow> iter_json v = Inr [a, b]"
  by (cases "iter_json v") (simp_all add: unpack_pair_def split: list.split_asm)

lemma json_dict_plain:
  assumes "json_dict v = Inr ps" and "plain_json v"
  shows "plain_json (JObj ps)"
proof (cases "\<exists>kvs. v = JObj kvs")
  case True
  with assms show ?thesis by (auto simp: json_dict_def)
next
  case False
  let ?f = "\<lambda>x. bindR (unpack_pair x) (\<lambda>(k, w). case k of JStr s \<Rightarrow> Inr (s, w) | _ \<Rightarrow> Inl TypeError)"
  have "bindR (iter_json v) (\<lambda>xs. mapR dict_of (mapE ?f xs)) = Inr ps" using assms(1) False by (cases v) (simp_all add: json_dict_def)
  then obtain xs where xs: "iter_json v = Inr xs" and m: "mapR dict_of (mapE ?f xs) = Inr ps" by (simp only: bindR_Inr_iff) blast
  obtain qs where qs: "mapE ?f xs = Inr qs" using m by (cases "mapE ?f xs") (simp_all add: mapR_simps)
  have ps: "ps = dict_of qs" using m unfolding qs by (simp add: mapR_simps)
  have "plain_json w" if w: "(s, w) \<in> set qs" for s w
  proof -
    obtain x where x: "x \<in> set xs" "?f x = Inr (s, w)" using mapE_mem [OF qs w] by blast
    then obtain k w' where "unpack_pair x = Inr (k, w')" "(case k of JStr s' \<Rightarrow> Inr (s', w') | _ \<Rightarrow> Inl TypeError) = Inr (s, w)"
      by (cases "unpack_pair x") auto
    then have k: "unpack_pair x = Inr (k, w)" by (cases k) simp_all
    from unpack_pair_Inr [OF this] have ys: "iter_json x = Inr [k, w]" .
    have "plain_json x" using iter_plain [OF xs assms(2)] x(1) by (simp add: list_all_iff)
    from iter_plain [OF ys this] show ?thesis by simp
  qed
  then have "\<forall>(s, w) \<in> set qs. plain_json w" by blast
  from dict_of_plain [OF this] show ?thesis by (auto simp: ps list_all_iff)
qed

lemma map_of_plain: "plain_json (JObj kvs) \<Longrightarrow> map_of kvs k = Some v \<Longrightarrow> plain_json v"
  by (drule map_of_SomeD) (auto simp: list_all_iff)

lemma contract_from_guard_ok:
  assumes "contract_from_guard L g = Inr c" and "plain_json (JObj g)"
  shows "contract_ok c \<and> plain_params c"
proof -
  let ?ps = "\<lambda>ident. case ident of JObj kvs \<Rightarrow> (case map_of kvs ''params'' of None \<Rightarrow> JObj [] | Some p \<Rightarrow> p) | _ \<Rightarrow> JObj []"
  obtain ident a b s p sc t where i: "index_key (JObj g) ''contract'' = Inr ident"
    and m: "mk_contract a b s p sc t (?ps ident) (get_key g ''model_revision'') (get_key g ''prompt_revision'') = Inr c"
    using assms(1) unfolding contract_from_guard_def bindR_Inr_iff by blast
  from i have "map_of g ''contract'' = Some ident" by (simp add: index_key_def split: option.splits)
  from map_of_plain [OF assms(2) this] have "plain_json ident" .
  then have pp: "plain_json (?ps ident)" by (auto split: jval.split option.split dest: map_of_plain)
  obtain ps where "json_dict (?ps ident) = Inr ps" "ec_params c = ps"
    using m unfolding mk_contract_def by (auto simp: bindR_Inr_iff split: if_split_asm)
  with json_dict_plain pp have "plain_params c" unfolding plain_params_def by blast
  with mk_contract_ok [OF m] show ?thesis by blast
qed

lemma stored_inputs_read: "stored_inputs L (JList (map (\<lambda>(p, d). JList [JStr p, JStr d]) n)) = Inr n"
proof -
  have "mapE (\<lambda>x. mapR (\<lambda>(p, d). (json_text L p, json_text L d)) (unpack_pair x)) (map (\<lambda>(p, d). JList [JStr p, JStr d]) n) = Inr n"
    by (induction n) (auto simp: unpack_pair_def iter_json_def json_text_def mapR_simps)
  then show ?thesis by (simp add: stored_inputs_def iter_json_def)
qed

lemma contract_read:
  assumes "contract_ok c"
  shows "contract_from_guard L (canon_members (guard_members c n)) = Inr (c\<lparr>ec_params := canon_members (ec_params c)\<rparr>)"
proof -
  have gd: "distinct (map fst (guard_members c n))" by (simp add: guard_members_def)
  have ident: "index_key (JObj (canon_members (guard_members c n))) ''contract'' = Inr (JObj (canon_members (contract_identity c)))"
    by (simp add: index_key_def map_of_canon [OF gd] guard_members_def canon_members_def)
  have rev: "get_key (canon_members (guard_members c n)) ''model_revision'' = jopt (ec_model_revision c)"
    "get_key (canon_members (guard_members c n)) ''prompt_revision'' = jopt (ec_prompt_revision c)"
    by (simp_all add: get_key_canon [OF gd]) (simp_all add: guard_members_def get_key_def jopt_def split: option.split)
  have idx: "index_key (JObj (canon_members (contract_identity c))) k = Inr (jcanon v)" if "map_of (contract_identity c) k = Some v" for k v
    by (simp add: index_key_def map_of_canon [OF identity_distinct] that)
  have fields: "index_key (JObj (canon_members (contract_identity c))) ''compiler_revision'' = Inr (JStr (ec_compiler_revision c))"
    "index_key (JObj (canon_members (contract_identity c))) ''parser_revision'' = Inr (JStr (ec_parser_revision c))"
    "index_key (JObj (canon_members (contract_identity c))) ''schema_revision'' = Inr (JStr (ec_schema_revision c))"
    "index_key (JObj (canon_members (contract_identity c))) ''policy_revision'' = Inr (JStr (ec_policy_revision c))"
    "index_key (JObj (canon_members (contract_identity c))) ''tenant_id'' = Inr (JStr (ec_tenant_id c))"
    "index_key (JObj (canon_members (contract_identity c))) ''permission_scope'' = Inr (JList (map JStr (sort (ec_permission_scope c))))"
    by (simp_all add: index_key_def map_of_canon contract_identity_def comp_def)
  have params: "map_of (canon_members (contract_identity c)) ''params'' = Some (JObj (canon_members (ec_params c)))"
    by (simp add: map_of_canon contract_identity_def canon_members_def)
  have scope: "sorted_set (ec_permission_scope c) = ec_permission_scope c" "sort (ec_permission_scope c) = ec_permission_scope c"
    using assms by (simp_all add: contract_ok_def sorted_set_def distinct_remdups_id sorted_sort_id)
  have revs: "contract_revision s (jopt m) = Inr m" if "\<forall>x \<in> set_option m. strip x \<noteq> []" for s m
    using that by (cases m) (simp_all add: jopt_def contract_revision_def)
  have strs: "map (json_text L) (map JStr s) = s" for s by (induction s) (simp_all add: json_text_def)
  show ?thesis
    unfolding contract_from_guard_def ident bindR_simps fields iter_json_def jval.case params option.case rev strs scope mk_contract_def
    using assms by (simp add: contract_ok_def contract_str_def revs json_dict_def scope list_all_iff)
qed

lemma same_build_canon: "plain_params c \<Longrightarrow> same_build (c\<lparr>ec_params := canon_members (ec_params c)\<rparr>) c"
  using jcanon_idem [of "JObj (ec_params c)"] by (simp add: same_build_def plain_params_def canon_members_def)

lemma preimage_canon:
  assumes "contract_ok c" and "plain_params c"
  shows "dumps (le_base L) (preimage_json n (c\<lparr>ec_params := canon_members (ec_params c)\<rparr>)) = dumps (le_base L) (preimage_json n c)"
proof -
  let ?d = "c\<lparr>ec_params := canon_members (ec_params c)\<rparr>"
  have "contract_ok ?d" using assms(1) by (simp add: contract_ok_def)
  from same_preimage [OF this assms(1), of n n] same_build_canon [OF assms(2)]
  have "jcanon (preimage_json n ?d) = jcanon (preimage_json n c)" by simp
  then show ?thesis using dumps_jcanon by metis
qed

lemma compute_key_canon:
  assumes "contract_ok c" and "plain_params c" and "normalize_inputs xs = Inr n"
  shows "compute_action_key L n (c\<lparr>ec_params := canon_members (ec_params c)\<rparr>) = compute_action_key L xs c"
  unfolding compute_key(2) [OF assms(3)] compute_key(2) [OF normalize_inputs_idem [OF assms(3)]] preimage_canon [OF assms(1,2)] ..

section \<open>The texts a key stands for\<close>

definition preimages :: "ledger_env \<Rightarrow> (string \<times> string) list \<Rightarrow> exec_contract \<Rightarrow> string set" where
  "preimages L xs c = {t. preimage_text L xs c = Inr t}"

lemma key_identity:
  assumes ok: "contract_ok c" "contract_ok d" and plain: "plain_params c" "plain_params d"
    and keys: "compute_action_key L xs c = Inr k" "compute_action_key L ys d = Inr k'"
    and inj: "inj_on (sha256 (le_base L)) (preimages L xs c \<union> preimages L ys d)"
  shows "k = k' \<longleftrightarrow> digested xs = digested ys \<and> same_build c d"
proof -
  obtain n where n: "normalize_inputs xs = Inr n" "set n = digested xs" "k = sha256 (le_base L) (dumps (le_base L) (preimage_json n c))"
    using compute_key_Inr [OF keys(1)] by blast
  obtain m where m: "normalize_inputs ys = Inr m" "set m = digested ys" "k' = sha256 (le_base L) (dumps (le_base L) (preimage_json m d))"
    using compute_key_Inr [OF keys(2)] by blast
  have "dumps (le_base L) (preimage_json n c) \<in> preimages L xs c" "dumps (le_base L) (preimage_json m d) \<in> preimages L ys d"
    using compute_key(1) [OF n(1)] compute_key(1) [OF m(1)] by (simp_all add: preimages_def)
  then have "k = k' \<longleftrightarrow> dumps (le_base L) (preimage_json n c) = dumps (le_base L) (preimage_json m d)"
    unfolding n(3) m(3) using inj_on_eq_iff [OF inj] by blast
  moreover have "n = m \<longleftrightarrow> digested xs = digested ys"
    using sorted_pairs_unique [of n m] normalize_inputs_Inr [OF n(1)] normalize_inputs_Inr [OF m(1)] by auto
  ultimately show ?thesis using preimage_dumps [OF plain ok, of "le_base L" n m] by blast
qed

lemma verify_True:
  assumes "verify_integrity S key st = Inr True"
  obtains k a kvs g c v xs where "validated_key key = Inr k" "get_entry (se_ledger S) key st = Inr (Some (a, kvs))"
    "get_key kvs ''artifact_sha256'' = JStr (''sha256:'' @ se_bytes S a)" "get_key kvs ''guard'' = JObj g"
    "contract_from_guard (se_ledger S) g = Inr c" "map_of g ''inputs'' = Some v" "stored_inputs (se_ledger S) v = Inr xs"
    "compute_action_key (se_ledger S) xs c = Inr k"
proof -
  obtain k where k: "validated_key key = Inr k"
    using assms by (cases "validated_key key") (simp_all add: verify_integrity_def get_entry_def Let_def)
  obtain a kvs where e: "get_entry (se_ledger S) key st = Inr (Some (a, kvs))"
    using assms by (cases "get_entry (se_ledger S) key st") (auto simp: verify_integrity_def Let_def split: option.splits)
  have a: "get_key kvs ''artifact_sha256'' = JStr (''sha256:'' @ se_bytes S a)"
    using assms e k by (simp add: verify_integrity_def Let_def split: if_split_asm)
  obtain p where p: "get_key kvs ''preimage'' = JStr p"
    using assms e k a by (cases "get_key kvs ''preimage''") (simp_all add: verify_integrity_def Let_def split: if_split_asm)
  obtain g where g: "get_key kvs ''guard'' = JObj g"
    using assms e k a p by (cases "get_key kvs ''guard''") (simp_all add: verify_integrity_def Let_def split: if_split_asm)
  let ?L = "se_ledger S"
  let ?both = "bindR (contract_from_guard ?L g) (\<lambda>c. mapR (\<lambda>xs. (c, xs)) (bindR (index_key (JObj g) ''inputs'') (stored_inputs ?L)))"
  have "(case ?both of Inl e \<Rightarrow> Inr False | Inr (c, xs) \<Rightarrow> mapR (\<lambda>again. again = k) (compute_action_key ?L xs c)) = Inr True"
    using assms e k a p g by (simp add: verify_integrity_def Let_def split: if_split_asm)
  then obtain c xs where b: "?both = Inr (c, xs)" and key: "mapR (\<lambda>again. again = k) (compute_action_key ?L xs c) = Inr True"
    by (cases ?both) auto
  from key have "compute_action_key ?L xs c = Inr k" by (cases "compute_action_key ?L xs c") (simp_all add: mapR_simps)
  moreover from b have c: "contract_from_guard ?L g = Inr c" by (cases "contract_from_guard ?L g") (auto simp: mapR_def split: sum.splits)
  moreover from b c obtain v where "index_key (JObj g) ''inputs'' = Inr v" "stored_inputs ?L v = Inr xs"
    by (cases "index_key (JObj g) ''inputs''") (auto simp: mapR_def split: sum.splits)
  ultimately show ?thesis using that [OF k e a g] by (simp add: index_key_def split: option.splits)
qed

lemma reuse_hit:
  assumes "reuse_guard S disk key c required st = Inr (Reuse_hit a r)"
  obtains kvs g stored v xs where "get_entry (se_ledger S) key st = Inr (Some (a, kvs))" "verify_integrity S key st = Inr True"
    "get_key kvs ''guard'' = JObj g" "contract_from_guard (se_ledger S) g = Inr stored"
    "ec_policy_revision stored = ec_policy_revision c" "set (ec_permission_scope stored) \<subseteq> set (ec_permission_scope c)"
    "ec_model_revision stored = ec_model_revision c" "ec_prompt_revision stored = ec_prompt_revision c"
    "stored_inputs (se_ledger S) (case map_of g ''inputs'' of None \<Rightarrow> JList [] | Some v \<Rightarrow> v) = Inr xs"
    "first_stale S disk xs = None"
    "first_unproven (case get_key kvs ''validations'' of JObj r \<Rightarrow> r | _ \<Rightarrow> []) required = None" "r = get_key kvs ''receipt''"
proof -
  let ?L = "se_ledger S"
  obtain a' kvs where e: "get_entry ?L key st = Inr (Some (a', kvs))"
    using assms by (cases "get_entry ?L key st") (auto simp: reuse_guard_def Let_def split: option.splits)
  have v: "verify_integrity S key st = Inr True"
    using assms e by (cases "verify_integrity S key st") (auto simp: reuse_guard_def Let_def split: if_split_asm)
  obtain g where g: "get_key kvs ''guard'' = JObj g"
    using assms e v by (cases "get_key kvs ''guard''") (simp_all add: reuse_guard_def Let_def)
  obtain i where i: "get_key g ''contract'' = JObj i"
    using assms e v g by (cases "get_key g ''contract''") (simp_all add: reuse_guard_def Let_def)
  obtain stored where s: "contract_from_guard ?L g = Inr stored"
    using assms e v g i by (cases "contract_from_guard ?L g") (simp_all add: reuse_guard_def Let_def)
  have f: "ec_policy_revision stored = ec_policy_revision c" "set (ec_permission_scope stored) \<subseteq> set (ec_permission_scope c)"
      "ec_model_revision stored = ec_model_revision c" "ec_prompt_revision stored = ec_prompt_revision c"
    using assms e v g i s by (simp_all add: reuse_guard_def Let_def split: if_split_asm)
  obtain xs where x: "stored_inputs ?L (case map_of g ''inputs'' of None \<Rightarrow> JList [] | Some v \<Rightarrow> v) = Inr xs"
    using assms e v g i s f by (cases "stored_inputs ?L (case map_of g ''inputs'' of None \<Rightarrow> JList [] | Some v \<Rightarrow> v)") (simp_all add: reuse_guard_def Let_def)
  have "first_stale S disk xs = None" using assms e v g i s f x by (simp add: reuse_guard_def Let_def split: option.split_asm)
  moreover from this have "first_unproven (case get_key kvs ''validations'' of JObj r \<Rightarrow> r | _ \<Rightarrow> []) required = None"
    using assms e v g i s f x by (simp add: reuse_guard_def Let_def split: option.split_asm)
  moreover from calculation have "a' = a" "r = get_key kvs ''receipt''" using assms e v g i s f x by (simp_all add: reuse_guard_def Let_def)
  ultimately show ?thesis using that e v g s f x by blast
qed

lemma get_plain: "plain_json (JObj kvs) \<Longrightarrow> plain_json (get_key kvs k)"
  by (cases "map_of kvs k") (simp_all add: get_key_def map_of_plain del: plain_json.simps(3))

lemma first_stale_None: "first_stale S disk xs = None \<longleftrightarrow> (\<forall>(p, d) \<in> set xs. \<exists>data. disk p = Some data \<and> se_bytes S data = d)"
  by (induction S disk xs rule: first_stale.induct) (auto split: option.splits)

lemma first_unproven_None:
  "first_unproven recorded required = None \<longleftrightarrow> (\<forall>kind \<in> set required. \<exists>r. get_key recorded kind = JObj r \<and> get_key r ''status'' = JStr ''passed'')"
  by (induction required) (auto split: jval.splits)

text \<open>The texts whose digest an entry must have been given.\<close>

definition stored_preimages :: "ledger_env \<Rightarrow> (string \<times> jval) list \<Rightarrow> string set" where
  "stored_preimages L kvs = {t. \<exists>g c v xs. get_key kvs ''guard'' = JObj g \<and> contract_from_guard L g = Inr c
     \<and> map_of g ''inputs'' = Some v \<and> stored_inputs L v = Inr xs \<and> preimage_text L xs c = Inr t}"

section \<open>Published entries\<close>

definition stored_members :: "store_env \<Rightarrow> string \<Rightarrow> string \<Rightarrow> exec_contract \<Rightarrow> (string \<times> string) list \<Rightarrow> (string \<times> jval) list
    \<Rightarrow> (string \<times> jval) list \<Rightarrow> (string \<times> jval) list" where
  "stored_members S k a c n vals receipt =
    [(''format'', JStr ''akc.action-key-store.v1''), (''key'', JStr k), (''artifact_sha256'', JStr (''sha256:'' @ se_bytes S a)),
     (''preimage'', JStr (dumps (le_base (se_ledger S)) (preimage_json n c))), (''guard'', JObj (guard_members c n)),
     (''validations'', JObj vals), (''receipt'', JObj receipt)]"

lemma put_entry_Inr:
  assumes "put_entry S key a receipt (Some c) inputs vals st = (Inr (), st')"
  obtains k n where "validated_key key = Inr k" "normalize_inputs inputs = Inr n" "compute_action_key (se_ledger S) inputs c = Inr k"
    "st' = write_entry k a (dumps (le_base (se_ledger S)) (JObj (stored_members S k a c n vals receipt))) st"
proof -
  let ?L = "se_ledger S"
  obtain k where k: "validated_key key = Inr k" using assms by (cases "validated_key key") (simp_all add: put_entry_def Let_def)
  obtain n where n: "normalize_inputs inputs = Inr n"
    using assms k by (cases "normalize_inputs inputs") (simp_all add: put_entry_def Let_def)
  note c = compute_key [OF n, of ?L c] and c' = compute_key [OF normalize_inputs_idem [OF n], of ?L c]
  have e: "sha256 (le_base ?L) (dumps (le_base ?L) (preimage_json n c)) = k"
    using assms k n c' by (simp add: put_entry_def Let_def split: if_split_asm)
  then have "st' = write_entry k a (dumps (le_base ?L) (JObj (stored_members S k a c n vals receipt))) st"
    using assms k n c' by (simp add: put_entry_def Let_def envelope_json_def stored_members_def)
  then show ?thesis using that [OF k n] c(2) e by simp
qed

lemma guard_plain: "plain_params c \<Longrightarrow> plain_json (JObj (guard_members c n))"
  using identity_plain [of c] by (auto simp: guard_members_def list_all_iff jopt_def split: option.split)

lemma stored_plain:
  assumes "plain_params c" and "plain_json (JObj vals)" and "plain_json (JObj receipt)"
  shows "plain_json (JObj (stored_members S k a c n vals receipt))"
  using assms guard_plain by (simp add: stored_members_def)

lemma published_entry:
  assumes "env_ok (se_ledger S)" and "plain_params c" and "plain_json (JObj vals)" and "plain_json (JObj receipt)" and "validated_key key = Inr k"
  shows "get_entry (se_ledger S) key (write_entry k a (dumps (le_base (se_ledger S)) (JObj (stored_members S k a c n vals receipt))) st)
    = Inr (Some (a, canon_members (stored_members S k a c n vals receipt)))"
proof -
  have "plain_json (JObj (stored_members S k a c n vals receipt))" by (rule stored_plain [OF assms(2-4)])
  then have "json_loads (se_ledger S) (dumps (le_base (se_ledger S)) (JObj (stored_members S k a c n vals receipt)))
      = Some (JObj (canon_members (stored_members S k a c n vals receipt)))"
    using assms(1) unfolding env_ok_def by (simp only: jcanon_obj)
  then show ?thesis by (simp add: get_entry_def assms(5) write_entry_def)
qed

lemma published_get:
  "get_key (canon_members (stored_members S k a c n vals receipt)) ''key'' = JStr k"
  "get_key (canon_members (stored_members S k a c n vals receipt)) ''artifact_sha256'' = JStr (''sha256:'' @ se_bytes S a)"
  "get_key (canon_members (stored_members S k a c n vals receipt)) ''preimage'' = JStr (dumps (le_base (se_ledger S)) (preimage_json n c))"
  "get_key (canon_members (stored_members S k a c n vals receipt)) ''guard'' = JObj (canon_members (guard_members c n))"
  "get_key (canon_members (stored_members S k a c n vals receipt)) ''validations'' = JObj (canon_members vals)"
  "get_key (canon_members (stored_members S k a c n vals receipt)) ''receipt'' = jcanon (JObj receipt)"
proof -
  have d: "distinct (map fst (stored_members S k a c n vals receipt))" by (simp add: stored_members_def)
  show "get_key (canon_members (stored_members S k a c n vals receipt)) ''key'' = JStr k"
    "get_key (canon_members (stored_members S k a c n vals receipt)) ''artifact_sha256'' = JStr (''sha256:'' @ se_bytes S a)"
    "get_key (canon_members (stored_members S k a c n vals receipt)) ''preimage'' = JStr (dumps (le_base (se_ledger S)) (preimage_json n c))"
    "get_key (canon_members (stored_members S k a c n vals receipt)) ''guard'' = JObj (canon_members (guard_members c n))"
    "get_key (canon_members (stored_members S k a c n vals receipt)) ''validations'' = JObj (canon_members vals)"
    "get_key (canon_members (stored_members S k a c n vals receipt)) ''receipt'' = jcanon (JObj receipt)"
    unfolding get_key_canon [OF d] by (simp_all add: stored_members_def get_key_def canon_members_def)
qed

lemma guard_get:
  "map_of (canon_members (guard_members c n)) ''inputs'' = Some (JList (map (\<lambda>(p, d). JList [JStr p, JStr d]) n))"
  "get_key (canon_members (guard_members c n)) ''contract'' = JObj (canon_members (contract_identity c))"
proof -
  have gd: "distinct (map fst (guard_members c n))" by (simp add: guard_members_def)
  show "map_of (canon_members (guard_members c n)) ''inputs'' = Some (JList (map (\<lambda>(p, d). JList [JStr p, JStr d]) n))"
    unfolding map_of_canon [OF gd] by (simp add: guard_members_def comp_def case_prod_beta')
  show "get_key (canon_members (guard_members c n)) ''contract'' = JObj (canon_members (contract_identity c))"
    unfolding get_key_def map_of_canon [OF gd] by (simp add: guard_members_def canon_members_def)
qed

lemma published_preimages:
  assumes "contract_ok c" and "plain_params c" and "normalize_inputs n = Inr n"
  shows "stored_preimages L (canon_members (stored_members S k a c n vals receipt)) = {dumps (le_base L) (preimage_json n c)}"
  unfolding stored_preimages_def published_get(4) jval.inject
  using contract_read [OF assms(1), of L n] guard_get(1) [of c n] stored_inputs_read [of L n] compute_key(1) [OF assms(3), of L]
    preimage_canon [OF assms(1,2), of L n] by simp

lemma published_hits:
  assumes env: "env_ok (se_ledger S)" and put: "put_entry S key a receipt (Some c) inputs vals st = (Inr (), st')"
    and ok: "contract_ok c" "plain_params c" "plain_json (JObj vals)" "plain_json (JObj receipt)"
    and disk: "\<forall>(p, h) \<in> digested inputs. \<exists>data. disk p = Some data \<and> se_bytes S data = h"
    and passed: "\<forall>kind \<in> set required. \<exists>v. get_key vals kind = JObj v \<and> get_key v ''status'' = JStr ''passed''"
  shows "reuse_guard S disk key c required st' = Inr (Reuse_hit a (jcanon (JObj receipt)))"
proof -
  let ?L = "se_ledger S"
  obtain k n where k: "validated_key key = Inr k" "normalize_inputs inputs = Inr n" "compute_action_key ?L inputs c = Inr k"
      "st' = write_entry k a (dumps (le_base ?L) (JObj (stored_members S k a c n vals receipt))) st" by (rule put_entry_Inr [OF put])
  have entry: "get_entry ?L key st' = Inr (Some (a, canon_members (stored_members S k a c n vals receipt)))"
    unfolding k(4) by (rule published_entry [OF env ok(2,3,4) k(1)])
  have con: "contract_from_guard ?L (canon_members (guard_members c n)) = Inr (c\<lparr>ec_params := canon_members (ec_params c)\<rparr>)"
    by (rule contract_read [OF ok(1)])
  have key: "compute_action_key ?L n (c\<lparr>ec_params := canon_members (ec_params c)\<rparr>) = Inr k"
    using compute_key_canon [OF ok(1,2) k(2)] k(3) by simp
  have pre: "sha256 (le_base ?L) (dumps (le_base ?L) (preimage_json n c)) = k" using compute_key(2) [OF k(2), of ?L c] k(3) by simp
  have intact: "verify_integrity S key st' = Inr True"
    by (simp add: verify_integrity_def Let_def entry k(1) published_get con index_key_def guard_get stored_inputs_read mapR_simps key pre)
  have "set n = digested inputs" using normalize_inputs_Inr [OF k(2)] by simp
  then have stale: "first_stale S disk n = None" using disk unfolding first_stale_None by simp
  have "\<exists>r. get_key (canon_members vals) kind = JObj r \<and> get_key r ''status'' = JStr ''passed''" if r: "kind \<in> set required" for kind
  proof -
    obtain v where v: "get_key vals kind = JObj v" "get_key v ''status'' = JStr ''passed''" using passed r by blast
    have "plain_json (JObj v)" using get_plain [OF ok(3), of kind] unfolding v(1) .
    then have dv: "distinct (map fst v)" by simp
    have dvals: "distinct (map fst vals)" using ok(3) by simp
    have "get_key (canon_members vals) kind = JObj (canon_members v)" unfolding get_key_canon [OF dvals] v(1) jcanon_obj ..
    moreover have "get_key (canon_members v) ''status'' = JStr ''passed''" unfolding get_key_canon [OF dv] v(2) by simp
    ultimately show ?thesis by blast
  qed
  then have proven: "first_unproven (canon_members vals) required = None" unfolding first_unproven_None by blast
  show ?thesis
    by (simp add: reuse_guard_def Let_def entry intact published_get con guard_get stored_inputs_read stale proven)
qed

text \<open>Fact: the key identifies the build. Two computed keys are equal exactly when the inputs are the same set of paths with the same normalised
  digests, in whatever order, repetition or spelling they were listed, and the contracts agree in everything but the model and prompt revisions; the
  digest must not collide on the two hashed texts.\<close>

theorem action_key_identifies:
  assumes "contract_ok c" and "contract_ok d" and "plain_params c" and "plain_params d"
    and "compute_action_key L xs c = Inr k" and "compute_action_key L ys d = Inr k'"
    and "inj_on (sha256 (le_base L)) (preimages L xs c \<union> preimages L ys d)"
  shows "k = k' \<longleftrightarrow> digested xs = digested ys \<and> same_build c d"
  by (rule key_identity [OF assms])

text \<open>C16: a hit is the same build. If the guard replays an entry under the key that the caller's contract and inputs have, then every input on
  disk has the caller's digest, the stored contract agrees with the caller's in all fields, model and prompt revisions included, every required
  validation is recorded as passed, and the bytes have the digest the entry records.\<close>

theorem reuse_sound:
  assumes hit: "reuse_guard S disk key c required st = Inr (Reuse_hit a r)"
    and own: "compute_action_key (se_ledger S) ys c = Inr k" "validated_key key = Inr k"
    and ok: "contract_ok c" "plain_params c" "\<forall>s. is_sha256 (se_bytes S s)"
    and entry: "get_entry (se_ledger S) key st = Inr (Some (a', kvs))" "plain_json (JObj kvs)"
    and inj: "inj_on (sha256 (le_base (se_ledger S))) (preimages (se_ledger S) ys c \<union> stored_preimages (se_ledger S) kvs)"
  shows "a' = a \<and> get_key kvs ''artifact_sha256'' = JStr (''sha256:'' @ se_bytes S a)
    \<and> (\<forall>(p, h) \<in> digested ys. \<exists>data. disk p = Some data \<and> se_bytes S data = h)
    \<and> (\<exists>g stored. get_key kvs ''guard'' = JObj g \<and> contract_from_guard (se_ledger S) g = Inr stored \<and> same_build stored c
        \<and> ec_model_revision stored = ec_model_revision c \<and> ec_prompt_revision stored = ec_prompt_revision c)
    \<and> (\<forall>kind \<in> set required. \<exists>v. get_key (case get_key kvs ''validations'' of JObj r \<Rightarrow> r | _ \<Rightarrow> []) kind = JObj v
        \<and> get_key v ''status'' = JStr ''passed'')"
proof -
  let ?L = "se_ledger S"
  obtain g stored v0 xs0 where h: "a' = a" "verify_integrity S key st = Inr True" "get_key kvs ''guard'' = JObj g"
      "contract_from_guard ?L g = Inr stored" "ec_model_revision stored = ec_model_revision c" "ec_prompt_revision stored = ec_prompt_revision c"
      "stored_inputs ?L (case map_of g ''inputs'' of None \<Rightarrow> JList [] | Some v \<Rightarrow> v) = Inr xs0" "first_stale S disk xs0 = None"
      "first_unproven (case get_key kvs ''validations'' of JObj r \<Rightarrow> r | _ \<Rightarrow> []) required = None"
    using entry(1) by (rule_tac reuse_hit [OF hit]) auto
  obtain v xs where v: "get_key kvs ''artifact_sha256'' = JStr (''sha256:'' @ se_bytes S a)" "map_of g ''inputs'' = Some v"
      "stored_inputs ?L v = Inr xs" "compute_action_key ?L xs stored = Inr k"
    using own(2) entry(1) h(1,3,4) by (rule_tac verify_True [OF h(2)]) auto
  have xs: "xs0 = xs" using h(7) v(2,3) by simp
  have g: "plain_json (JObj g)" using get_plain [OF entry(2), of "''guard''"] unfolding h(3) .
  from contract_from_guard_ok [OF h(4) g] have s: "contract_ok stored" "plain_params stored" by simp_all
  have "preimages ?L xs stored \<subseteq> stored_preimages ?L kvs"
    unfolding preimages_def stored_preimages_def using h(3,4) v(2,3) by blast
  then have "inj_on (sha256 (le_base ?L)) (preimages ?L xs stored \<union> preimages ?L ys c)" by (rule_tac inj_on_subset [OF inj]) blast
  from key_identity [OF s(1) ok(1) s(2) ok(2) v(4) own(1) this] have same: "digested xs = digested ys" "same_build stored c" by simp_all
  have "\<exists>data. disk p = Some data \<and> se_bytes S data = h" if q: "(p, h) \<in> digested xs" for p h
  proof -
    obtain d where d: "(p, d) \<in> set xs" "normalize_digest d = Inr h" using q by (auto simp: digested_def)
    from bspec [OF h(8) [unfolded xs first_stale_None] d(1)] obtain data where data: "disk p = Some data" "se_bytes S data = d" by auto
    then have "normalize_digest d = Inr d" using ok(3) by (metis normalize_digest_idem)
    with d data show ?thesis by auto
  qed
  then show ?thesis using h v(1) same first_unproven_None by blast
qed


text \<open>A store whose bytes all hash to one digest, and a contract with one scope.\<close>

definition demo_store_env :: store_env where
  "demo_store_env = \<lparr>se_ledger = demo_ledger_env, se_bytes = (\<lambda>s. replicate 64 (CHR ''c''))\<rparr>"

definition demo_contract :: exec_contract where
  "demo_contract = \<lparr>ec_compiler_revision = ''c1'', ec_parser_revision = ''p1'', ec_schema_revision = ''s1'', ec_policy_revision = ''v1'',
     ec_permission_scope = [''read''], ec_tenant_id = ''t1'', ec_params = [], ec_model_revision = None, ec_prompt_revision = Some ''m1''\<rparr>"

definition demo_inputs :: "(string \<times> string) list" where
  "demo_inputs = [(''a.md'', replicate 64 (CHR ''c''))]"

definition demo_vals :: "(string \<times> jval) list" where
  "demo_vals = [(''schema'', JObj [(''status'', JStr ''passed'')])]"

definition demo_key :: string where
  "demo_key = replicate 64 (CHR ''a'')"

definition empty_store :: action_store where
  "empty_store = \<lparr>as_envelopes = Map.empty, as_artifacts = Map.empty\<rparr>"

lemma demo_contract_ok: "contract_ok demo_contract" "plain_params demo_contract"
  by (simp_all add: contract_ok_def demo_contract_def plain_params_def strip_def is_space_def)

lemma demo_cs_sha: "is_sha256 (replicate 64 (CHR ''c''))"
  by (rule replicate_sha) (rule refl, simp)

lemma demo_key_valid: "validated_key demo_key = Inr demo_key"
  unfolding demo_key_def by (rule validated_key_idem, rule replicate_sha) (rule refl, simp)

lemma demo_inputs_normal: "normalize_inputs demo_inputs = Inr demo_inputs" "digested demo_inputs = set demo_inputs"
  using normalize_digest_idem [OF demo_cs_sha]
  by (simp_all add: normalize_inputs_def demo_inputs_def strip_def is_space_def mapR_simps)

lemma demo_inputs_key: "compute_action_key demo_ledger_env demo_inputs demo_contract = Inr demo_key"
proof -
  have "take 1 (dumps (le_base demo_ledger_env) (preimage_json demo_inputs demo_contract)) = ''{''" by (simp add: preimage_json_def dumps.simps)
  then have "demo_digest (dumps (le_base demo_ledger_env) (preimage_json demo_inputs demo_contract)) = demo_key"
    by (simp add: demo_digest_def demo_key_def)
  then show ?thesis using compute_key(2) [OF demo_inputs_normal(1), of demo_ledger_env demo_contract] by (simp add: demo_ledger_env_def)
qed

definition demo_published :: action_store where
  "demo_published = snd (put_entry demo_store_env demo_key ''x'' [] (Some demo_contract) demo_inputs demo_vals empty_store)"

lemma demo_put: "put_entry demo_store_env demo_key ''x'' [] (Some demo_contract) demo_inputs demo_vals empty_store = (Inr (), demo_published)"
proof -
  have s: "se_ledger demo_store_env = demo_ledger_env" by (simp add: demo_store_env_def)
  have "fst (put_entry demo_store_env demo_key ''x'' [] (Some demo_contract) demo_inputs demo_vals empty_store) = Inr ()"
    unfolding put_entry_def Let_def s demo_key_valid demo_inputs_normal(1) option.case bindR_simps demo_inputs_key
      compute_key(1) [OF demo_inputs_normal(1), of demo_ledger_env demo_contract] by simp
  then show ?thesis unfolding demo_published_def by (metis prod.collapse)
qed

text \<open>C17: what is published is replayed. After a successful \<open>put\<close> with its contract, the guard hits for that contract as long as every
  input on disk still has its digest and the required validations were recorded as passed, and it returns the stored bytes and receipt.\<close>

theorem published_entry_hits:
  assumes "env_ok (se_ledger S)" and "put_entry S key a receipt (Some c) inputs vals st = (Inr (), st')"
    and "contract_ok c" and "plain_params c" and "plain_json (JObj vals)" and "plain_json (JObj receipt)"
    and "\<forall>(p, h) \<in> digested inputs. \<exists>data. disk p = Some data \<and> se_bytes S data = h"
    and "\<forall>kind \<in> set required. \<exists>v. get_key vals kind = JObj v \<and> get_key v ''status'' = JStr ''passed''"
  shows "reuse_guard S disk key c required st' = Inr (Reuse_hit a (jcanon (JObj receipt)))"
  by (rule published_hits [OF assms])

lemma demo_published_ok:
  "env_ok (se_ledger demo_store_env)" "plain_json (JObj demo_vals)" "plain_json (JObj [])"
  "\<forall>(p, h) \<in> digested demo_inputs. \<exists>data. [''a.md'' \<mapsto> ''y''] p = Some data \<and> se_bytes demo_store_env data = h"
  "\<forall>kind \<in> set [''schema'']. \<exists>v. get_key demo_vals kind = JObj v \<and> get_key v ''status'' = JStr ''passed''"
  unfolding demo_inputs_normal(2)
  by (simp_all add: demo_store_env_def demo_env_ok demo_vals_def demo_inputs_def get_key_def)

theorem published_entry_hits_witness:
  "reuse_guard demo_store_env [''a.md'' \<mapsto> ''y''] demo_key demo_contract [''schema''] demo_published = Inr (Reuse_hit ''x'' (JObj []))"
proof -
  have c: "jcanon (JObj []) = JObj []" by simp
  from published_entry_hits [OF demo_published_ok(1) demo_put demo_contract_ok demo_published_ok(2-5)] show ?thesis unfolding c .
qed

theorem action_key_identifies_witness:
  "digested (demo_inputs @ demo_inputs) = digested demo_inputs"
proof -
  have d: "digested (demo_inputs @ demo_inputs) = digested demo_inputs" by (auto simp: digested_def)
  have n: "normalize_inputs (demo_inputs @ demo_inputs) = Inr demo_inputs"
    by (rule normalize_inputs_set [OF _ demo_inputs_normal(1)]) simp
  have k: "compute_action_key demo_ledger_env (demo_inputs @ demo_inputs) demo_contract = Inr demo_key"
    using compute_key(2) [OF n, of demo_ledger_env demo_contract] compute_key(2) [OF demo_inputs_normal(1), of demo_ledger_env demo_contract]
      demo_inputs_key by simp
  have p: "preimages demo_ledger_env (demo_inputs @ demo_inputs) demo_contract = preimages demo_ledger_env demo_inputs demo_contract"
    unfolding preimages_def compute_key(1) [OF n] compute_key(1) [OF demo_inputs_normal(1)] ..
  have "inj_on (sha256 (le_base demo_ledger_env))
      (preimages demo_ledger_env (demo_inputs @ demo_inputs) demo_contract \<union> preimages demo_ledger_env demo_inputs demo_contract)"
    unfolding p by (auto simp: inj_on_def preimages_def)
  from action_key_identifies [OF demo_contract_ok(1) demo_contract_ok(1) demo_contract_ok(2) demo_contract_ok(2) k demo_inputs_key this]
  show ?thesis by simp
qed

theorem reuse_sound_witness:
  "\<exists>data. [''a.md'' \<mapsto> ''y''] ''a.md'' = Some data \<and> se_bytes demo_store_env data = replicate 64 (CHR ''c'')"
proof -
  let ?L = "se_ledger demo_store_env"
  have L: "?L = demo_ledger_env" by (simp add: demo_store_env_def)
  have hit: "reuse_guard demo_store_env [''a.md'' \<mapsto> ''y''] demo_key demo_contract [''schema''] demo_published = Inr (Reuse_hit ''x'' (jcanon (JObj [])))"
    by (rule published_hits [OF demo_published_ok(1) demo_put demo_contract_ok demo_published_ok(2-5)])
  let ?ms = "stored_members demo_store_env demo_key ''x'' demo_contract demo_inputs demo_vals []"
  have entry: "get_entry ?L demo_key demo_published = Inr (Some (''x'', canon_members ?ms))"
  proof (rule put_entry_Inr [OF demo_put])
    fix k n
    assume k: "validated_key demo_key = Inr k" "normalize_inputs demo_inputs = Inr n"
      and d: "demo_published = write_entry k ''x'' (dumps (le_base ?L) (JObj (stored_members demo_store_env k ''x'' demo_contract n demo_vals []))) empty_store"
    have kn: "k = demo_key" "n = demo_inputs" using k demo_key_valid demo_inputs_normal(1) by simp_all
    show ?thesis unfolding d kn
      by (rule published_entry [OF demo_published_ok(1) demo_contract_ok(2) demo_published_ok(2,3) demo_key_valid])
  qed
  have "plain_json (JObj ?ms)" by (rule stored_plain [OF demo_contract_ok(2) demo_published_ok(2,3)])
  from sorted_plain [OF plain_sorted [OF this]] have plain: "plain_json (JObj (canon_members ?ms))" unfolding jcanon_obj .
  define t where "t = dumps (le_base ?L) (preimage_json demo_inputs demo_contract)"
  have p: "preimages ?L demo_inputs demo_contract = {t}"
    unfolding preimages_def compute_key(1) [OF demo_inputs_normal(1)] t_def by blast
  have q: "stored_preimages ?L (canon_members ?ms) = {t}"
    unfolding t_def by (rule published_preimages [OF demo_contract_ok demo_inputs_normal(1)])
  have inj: "inj_on (sha256 (le_base ?L)) (preimages ?L demo_inputs demo_contract \<union> stored_preimages ?L (canon_members ?ms))"
    unfolding p q by simp
  have b: "\<forall>s. is_sha256 (se_bytes demo_store_env s)" unfolding demo_store_env_def using demo_cs_sha by simp
  have "\<forall>(p, h) \<in> digested demo_inputs. \<exists>data. [''a.md'' \<mapsto> ''y''] p = Some data \<and> se_bytes demo_store_env data = h"
    by (rule conjunct1 [OF conjunct2 [OF conjunct2 [OF reuse_sound [OF hit demo_inputs_key [folded L] demo_key_valid demo_contract_ok b entry plain inj]]]])
  then show ?thesis unfolding demo_inputs_normal(2) by (simp add: demo_inputs_def)
qed

text \<open>Fact: a swapped artifact passes every check. The digest of the artifact is stored in the envelope only and is not part of the key: whoever
  replaces the bytes of an intact entry and the digest beside them gets an entry that \<open>verify_integrity\<close> accepts.\<close>

theorem forged_artifact_verifies:
  assumes "verify_integrity S key st = Inr True" and "validated_key key = Inr k"
    and "get_entry (se_ledger S) key st = Inr (Some (a, kvs))"
    and "json_loads (se_ledger S) t = Some (JObj (AList.update ''artifact_sha256'' (JStr (''sha256:'' @ se_bytes S b)) kvs))"
  shows "verify_integrity S key (write_entry k b t st) = Inr True"
proof -
  let ?kvs = "AList.update ''artifact_sha256'' (JStr (''sha256:'' @ se_bytes S b)) kvs"
  have e: "get_entry (se_ledger S) key (write_entry k b t st) = Inr (Some (b, ?kvs))"
    using assms(2,4) by (simp add: get_entry_def write_entry_def)
  have g: "get_key ?kvs x = get_key kvs x" if "x \<noteq> ''artifact_sha256''" for x using that by (simp add: get_key_def update_conv')
  have g3: "get_key ?kvs ''key'' = get_key kvs ''key''" "get_key ?kvs ''preimage'' = get_key kvs ''preimage''"
    "get_key ?kvs ''guard'' = get_key kvs ''guard''" by (rule g, simp)+
  have a: "get_key ?kvs ''artifact_sha256'' = JStr (''sha256:'' @ se_bytes S b)" by (simp add: get_key_def)
  have "get_key kvs ''artifact_sha256'' = JStr (''sha256:'' @ se_bytes S a)"
    using assms(3) by (rule_tac verify_True [OF assms(1)]) simp
  then show ?thesis
    using assms(1) unfolding verify_integrity_def Let_def assms(2,3) e bindR_simps option.case prod.case a g3 by (simp split: if_splits del: update_conv')
qed

text \<open>Fact: a malformed digest in the guard is not a failed check but an exception. The key is recomputed outside the \<^verbatim>\<open>try\<close>, so an
  entry whose recorded inputs hold anything but sha256 digests makes \<open>verify_integrity\<close>, and with it the guard, raise.\<close>

theorem malformed_guard_raises:
  assumes "validated_key key = Inr k" and "get_entry (se_ledger S) key st = Inr (Some (a, kvs))" and "get_key kvs ''key'' = JStr k"
    and "get_key kvs ''artifact_sha256'' = JStr (''sha256:'' @ se_bytes S a)" and "get_key kvs ''preimage'' = JStr p"
    and "sha256 (le_base (se_ledger S)) p = k" and "get_key kvs ''guard'' = JObj g"
    and "contract_from_guard (se_ledger S) g = Inr c" and "map_of g ''inputs'' = Some (JList [JList [JStr ''a.md'', JStr ''none'']])"
  shows "verify_integrity S key st = Inl (ValueError ''input digest must be sha256 hex'')
    \<and> reuse_guard S disk key d required st = Inl (ValueError ''input digest must be sha256 hex'')"
proof -
  have "length ''none'' \<noteq> 64" by simp
  then have ns: "\<not> is_sha256 ''none''" unfolding is_sha256_def by blast
  have "map lower_char (strip ''none'') = ''none''" by (simp add: lower_char_def strip_def is_space_def)
  then have "normalize_digest ''none'' = Inl (ValueError ''input digest must be sha256 hex'')" using ns by (simp add: normalize_digest_def Let_def)
  then have key: "compute_action_key L [(''a.md'', ''none'')] c = Inl (ValueError ''input digest must be sha256 hex'')" for L
    by (simp add: compute_action_key_def normalize_inputs_def mapR_simps strip_def is_space_def)
  have "stored_inputs (se_ledger S) (JList [JList [JStr ''a.md'', JStr ''none'']]) = Inr [(''a.md'', ''none'')]"
    using stored_inputs_read [of "se_ledger S" "[(''a.md'', ''none'')]"] by simp
  then have v: "verify_integrity S key st = Inl (ValueError ''input digest must be sha256 hex'')"
    using assms by (simp add: verify_integrity_def Let_def index_key_def mapR_simps key)
  then show ?thesis by (simp add: reuse_guard_def Let_def assms(2))
qed

end
