(* ===== verification/Spec2Isabelle.thy ===== *)
theory Spec2Isabelle
  imports Prelude Identity Models Journal StateMachine Attempts Failures Topology Scheduling Sharding
    Credits Health Validation Arbitration Routing Recovery Finalization Benchmark SemanticMonitor
    Coordinator Continuity JsonText
    Search Dependency Recompilation Temporal Authority WorldState AnswerCompiler
    HashChain Consumption IdentityLedger Replay ActionKey
begin

text \<open>
  A model of two packages of the knowledge compiler, with the theorems that make their parts correct: the
  parallel document runtime, \<^verbatim>\<open>packages/parallel-runtime/src/akc_parallel_runtime\<close>, and the
  knowledge core of \<^verbatim>\<open>packages/cir-python/src/akc_cir\<close>. File names below are relative to these.

  \<^bold>\<open>What the runtime does.\<close> A document is split into shards of pages (\<^verbatim>\<open>sharding.py\<close>). The
  coordinator (\<^verbatim>\<open>coordinator.py\<close>) records the plan, dispatches attempts at a shard to workers, receives
  their outputs, has them validated (\<^verbatim>\<open>validation.py\<close>) and accepts the one that arbitration
  (\<^verbatim>\<open>arbitration.py\<close>) selected. The attempt store (\<^verbatim>\<open>attempts.py\<close>) holds the state machine of an
  attempt and the one winner of a shard; every step is announced in an append-only event journal
  (\<^verbatim>\<open>contracts.py\<close>) whose payloads and identifiers are digests of canonical JSON (\<^verbatim>\<open>identity.py\<close>).
  Workers come from endpoint pools (\<^verbatim>\<open>topology.py\<close>), are chosen by the scheduler and the router
  (\<^verbatim>\<open>scheduling.py\<close>, \<^verbatim>\<open>routing.py\<close>) and demoted by the health registry (\<^verbatim>\<open>health.py\<close>,
  \<^verbatim>\<open>semantic_health.py\<close>, \<^verbatim>\<open>semantic_monitor.py\<close>, \<^verbatim>\<open>drift.py\<close>). Failures are classified
  (\<^verbatim>\<open>failures.py\<close>) and repaired on the smallest safe scope (\<^verbatim>\<open>recovery.py\<close>,
  \<^verbatim>\<open>recovery_planner.py\<close>, \<^verbatim>\<open>impact_scope.py\<close>). Accepted outputs are merged along continuity edges
  (\<^verbatim>\<open>continuity.py\<close>), the document is finalized fail-closed (\<^verbatim>\<open>finalization.py\<close>) and the work is
  billed against a credit reservation (\<^verbatim>\<open>credits.py\<close>); \<^verbatim>\<open>benchmark.py\<close> aggregates benchmark runs.

  \<^bold>\<open>What the knowledge core does.\<close> Compiled knowledge is a graph of typed dependency edges
  (\<^verbatim>\<open>dependency.py\<close>). A semantic diff of a source (\<^verbatim>\<open>semantic_diff.py\<close>) becomes a plan of what to
  rebuild, checked against a full rebuild (\<^verbatim>\<open>recompilation.py\<close>). The result is staged as a world state and
  published by moving one pointer (\<^verbatim>\<open>world_state.py\<close>). A question is answered
  (\<^verbatim>\<open>answer_compiler.py\<close>) from draft claims that the asker may see and that were extracted against the
  published world, by ranking them (\<^verbatim>\<open>authority.py\<close>); \<^verbatim>\<open>temporal.py\<close> holds the facts on the two axes of
  validity and knowledge. What was served is kept in a hash-chained ledger of receipts
  (\<^verbatim>\<open>consumption_receipt.py\<close>), from which its context can be rebuilt (\<^verbatim>\<open>replay.py\<close>), and which
  identity became which in a ledger of the same shape (\<^verbatim>\<open>identity_ledger.py\<close>). A compilation whose inputs
  and contract have the key of a stored result is replayed from it when a guard allows (\<^verbatim>\<open>action_key.py\<close>).

  \<^bold>\<open>Theories.\<close>
  \<^item> \<open>Prelude\<close>: exceptions (\<open>pyerr\<close>), datetimes, insertion-ordered dictionaries, sorting with a key,
    \<open>require_all\<close> for the checks of a \<^verbatim>\<open>__post_init__\<close>, and the sequencing of calls that keep the
    state they had reached when an exception is raised (\<open>outcome\<close>, \<open>andthen\<close>, \<open>run_ops\<close>).
  \<^item> \<open>StateMachine\<close>: the three contracts that components share, as locales. \<open>ranked_machine\<close>: a
    status machine that only climbs; \<open>keyed_once\<close>: an operation executed once per idempotency key;
    \<open>write_once\<close>: a table whose entries never change. They are interpreted on the attempt life
    cycle, worker health, the parser cascade and the broadening of recovery; on acceptance, journal
    appends, hedging, recovery planning, finalization and the merge; on charged work, recovery
    decisions, hedge launches and the tables of the pool registry. \<open>Journal\<close> adds
    \<open>append_only_log\<close>.
  \<^item> \<open>Identity\<close>, \<open>JsonText\<close>: \<^verbatim>\<open>_normalize\<close>, canonical JSON, digests and stable ids; reading
    canonical JSON back (\<^verbatim>\<open>DomainEvent.payload\<close>).
  \<^item> \<open>Models\<close>: the enumerations and frozen dataclasses of \<^verbatim>\<open>models.py\<close>; \<open>mk_c\<close> is the checked
    constructor of class \<open>c\<close>.
  \<^item> \<open>Journal\<close>: \<^verbatim>\<open>EventJournal\<close>; \<open>emit\<close>, \<open>emit_all\<close> and \<open>with_events\<close> are the clients' guarded
    appends \<^verbatim>\<open>if self._events is not None\<close>.
  \<^item> \<open>Attempts\<close>, \<open>Coordinator\<close>, \<open>Validation\<close>, \<open>Arbitration\<close>: the acceptance path.
  \<^item> \<open>Sharding\<close>, \<open>Scheduling\<close>, \<open>Topology\<close>, \<open>Routing\<close>, \<open>Health\<close>, \<open>SemanticMonitor\<close>,
    \<open>Benchmark\<close>: planning and placement of work.
  \<^item> \<open>Failures\<close> (with \<^verbatim>\<open>first_verified.py\<close>, \<^verbatim>\<open>drift.py\<close>, \<^verbatim>\<open>semantic_health.py\<close>,
    \<^verbatim>\<open>impact_scope.py\<close>), \<open>Recovery\<close>: failure handling.
  \<^item> \<open>Continuity\<close>, \<open>Finalization\<close>, \<open>Credits\<close>: the end of a document.
  \<^item> \<open>Search\<close>: breadth-first search with a depth limit, as the locale \<open>layered_search\<close>, which \<open>Dependency\<close>
    interprets on the traversal of impact and of provenance; \<open>Recompilation\<close> builds on their closures.
  \<^item> \<open>Temporal\<close>, \<open>Authority\<close>, \<open>WorldState\<close>, \<open>AnswerCompiler\<close>: the path of a question. \<open>WorldState\<close>
    interprets \<open>write_once\<close> on the manifests of published states.
  \<^item> \<open>HashChain\<close>: files of chained lines, with the locale \<open>chained_log\<close> of what one line promises;
    \<open>Consumption\<close> and \<open>IdentityLedger\<close> interpret it, and the latter holds the replay of identities.
    \<open>Replay\<close> rebuilds the context of a receipt.
  \<^item> \<open>ActionKey\<close>: keys of builds, the store of their results and the guard on their reuse.

  \<^bold>\<open>Correspondence.\<close> A class with state is a record of its dictionaries and lists; where it holds an
  optional journal the state is a pair with a \<open>journal option\<close>. A method is a function from its
  arguments and the state to \<open>(pyerr + result) * state\<close>, and an exception leaves the state as far as
  the method had changed it. A dictionary whose order is observed is an association list, another a
  map. Floats are exact rationals, decimals in the ledger integers of millionths (as its
  quantisation makes them), in \<open>Benchmark\<close> rationals rounded to the 28 digits of the default
  context. A datetime is naive or aware, and ordering one of each raises. Strings are HOL strings
  (code points below 256). SHA-256, the text of a float and \<^verbatim>\<open>isoformat\<close> are fields of the record
  \<open>renv\<close>, an argument of every definition that uses them; a theorem about tamper
  evidence assumes that the digest does not collide on the texts that are hashed, no other does. \<^verbatim>\<open>json.loads\<close> of an arbitrary
  text, \<^verbatim>\<open>fromisoformat\<close> and \<^verbatim>\<open>str\<close> of a JSON value are fields of \<open>ledger_env\<close>, and \<open>env_ok\<close> states what the
  ledgers rely on: the decoder reads back what the encoder wrote, and ISO-8601 round-trips. The stores, journals, ledgers and registries of the
  runtime and the two ledgers of the knowledge core hold a lock in each method that changes state, so a concurrent
  run of one of them is a sequence of calls. \<^verbatim>\<open>ParallelCoordinator\<close> holds its lock only to record a plan and
  to dispatch, and \<^verbatim>\<open>WorldStateRegistry\<close> and \<^verbatim>\<open>ActionKeyStore\<close> have none: what is proved of sequences of their calls is about
  calls that do not overlap.

  \<^bold>\<open>What the theorems show.\<close> Every theorem about a stateful component is over all sequences of calls
  (\<open>run_ops\<close>), refused calls included: a shard has at most one winner and its validation passed
  (\<open>first_verified_wins\<close>, \<open>coordinator_gate\<close>), and the coordinator refines an abstract register of
  winners (\<open>coordinator_refines_register\<close>); life cycles and immutability of attempts; gap-free
  journals; canonical JSON that reads back; a ledger that conserves credits, whose balances are the sums of its entries, and that charges a
  work item once; recovery that takes the least safe scope, decides once and accepts exactly on its
  criteria; shard plans that own each page once; validation and finalization that fail closed;
  arbitration that does not depend on the order of candidates; health that only worsens; queues,
  bin packing, hedging and routing with their policies; a merge that conserves blocks and table rows
  and orders captions, footnotes and headers topologically. Some theorems state what the code does
  against its intention; the manifest lists them as findings.
  For the knowledge core: impact is exactly the reachable region with shortest paths, and
  provenance is its converse; a selective rebuild equals the full one exactly when only artifacts in the planned region
  (which leaves out the changed ids themselves) differ; what was known at a moment never changes later; a publish is atomic, the registry refines a
  pointer into a growing table of manifests, and at most one state is active, as long as no state has the empty id;
  answers are decided by the gates alone, follow the pointer and depend on drafts the asker may not see only in
  whether there is one at all. Both ledgers reopen to themselves
  exactly when no string holds a next-line character, and are tamper-evident under their head digest, but not against
  a cut tail; the identity map is exactly what the entries say; a rebuilt context holds what was known and nothing
  later; a reused result is of the same build with unchanged inputs, and what was stored is reused.

  \<^bold>\<open>Bounds and fuel.\<close> Loops are structural recursions or \<open>function\<close>s with a measure (chains and
  topological placement consume their candidates, the graph searches their unvisited nodes).
  Only the JSON reader takes fuel: the length of the text, and \<open>canonical_json_roundtrip\<close> shows
  that it suffices for every text the encoder writes.

  \<^bold>\<open>Not modelled.\<close> The locks and thread scheduling; binary floating-point rounding; text beyond
  code point 255 (so the Korean keywords of the intent rules, and the line breaks U+2028 and U+2029 of
  \<^verbatim>\<open>str.splitlines\<close>); the UTC offset of a stamp of the runtime (an aware datetime is its instant, so \<^verbatim>\<open>isoformat\<close>
  gives equal instants one text; the ledgers keep the offset); JSON that the canonical encoder never writes.
  The predicate of a resolution rule is a total function, and \<^verbatim>\<open>datetime.min\<close> is one fixed instant before all
  others. Of \<^verbatim>\<open>semantic_diff.py\<close> only the data is modelled, not the
  resolver that compares two documents. A ledger's file is its text, and writing it succeeds. Outside the packages: the HTTP API,
  the scheduler and fetcher services and the workers (I/O and frameworks around databases, queues,
  models and parsers that are not in the repository), the other modules of the canonical IR and the other packages, the
  web application, migrations and tools.
\<close>

end
